(* ===== verification/Prelude.thy ===== *)
theory Prelude
  imports Main "HOL-Library.Word" "HOL-Library.Sublist"
begin

unbundle bit_operations_syntax

text \<open>
  The vocabulary shared by every component of the Willo kernel model:
  \<^item> machine integers at their Rust width (\<open>u8\<close>, \<open>u16\<close>, \<open>u32\<close>, \<open>u64\<close> as words);
    \<open>usize\<close> values that only count bytes of a buffer in memory are \<open>nat\<close>;
  \<^item> the outcome of a fallible computation: \<open>Ok\<close>, \<open>Err\<close> or \<open>Panic\<close> with its cause. The integer operators are those of
    the dev profile, the default build of the kernel: an overflow is a panic;
  \<^item> stateful code as functions from a state to an optional pair of outcome and new state,
    where \<open>None\<close> means that the code never returns; \<open>bindM\<close> is Rust's \<open>?\<close> operator;
  \<^item> the parts of Rust's \<open>str\<close> and slice API the sources use. A \<open>str\<close> is the list of its
    UTF-8 bytes, each byte a \<open>char\<close>.
\<close>

section \<open>Machine integers\<close>

type_synonym u8 = "8 word"
type_synonym u16 = "16 word"
type_synonym u32 = "32 word"
type_synonym u64 = "64 word"

named_theorems str_simps
named_theorems io_simps
named_theorems sim_intros

section \<open>Outcomes and stateful computations\<close>

text \<open>
  A panic is either a failed overflow check of an integer operator or a fault: an index or slice out of range, a
  division by zero, an \<open>expect\<close>, \<open>unwrap\<close> or \<open>panic!\<close>.
\<close>

datatype panic_cause = Overflow | Fault

datatype ('e, 'a) outcome = Ok 'a | Err 'e | Panic panic_cause

primrec panics :: "('e, 'a) outcome \<Rightarrow> bool" where
  "panics (Ok x) = False"
| "panics (Err e) = False"
| "panics (Panic c) = True"

lemma panics_iff: "panics r \<longleftrightarrow> (\<exists>c. r = Panic c)"
  by (cases r) simp_all


type_synonym ('s, 'e, 'a) io = "'s \<Rightarrow> (('e, 'a) outcome \<times> 's) option"

definition ret :: "'a \<Rightarrow> ('s, 'e, 'a) io" where
  "ret x = (\<lambda>s. Some (Ok x, s))"

definition fail :: "'e \<Rightarrow> ('s, 'e, 'a) io" where
  "fail e = (\<lambda>s. Some (Err e, s))"

definition panic :: "('s, 'e, 'a) io" where
  "panic = (\<lambda>s. Some (Panic Fault, s))"

text \<open>\<open>bindM m k\<close> is \<open>let x = m?; k(x)\<close>: an error or a panic of \<open>m\<close> ends the computation.\<close>

definition bindM :: "('s, 'e, 'a) io \<Rightarrow> ('a \<Rightarrow> ('s, 'e, 'b) io) \<Rightarrow> ('s, 'e, 'b) io" where
  "bindM m k = (\<lambda>s. Option.bind (m s)
     (\<lambda>(r, s'). case r of Ok x \<Rightarrow> k x s' | Err e \<Rightarrow> Some (Err e, s') | Panic c \<Rightarrow> Some (Panic c, s')))"

text \<open>\<open>attempt m k\<close> is \<open>match m { Ok(x) => ..., Err(e) => ... }\<close>: the result is inspected.\<close>

definition attempt :: "('s, 'e, 'a) io \<Rightarrow> ('e + 'a \<Rightarrow> ('s, 'f, 'b) io) \<Rightarrow> ('s, 'f, 'b) io" where
  "attempt m k = (\<lambda>s. Option.bind (m s)
     (\<lambda>(r, s'). case r of Ok x \<Rightarrow> k (Inr x) s' | Err e \<Rightarrow> k (Inl e) s' | Panic c \<Rightarrow> Some (Panic c, s')))"

text \<open>A pure outcome used inside a stateful computation.\<close>

definition liftO :: "('e, 'a) outcome \<Rightarrow> ('s, 'e, 'a) io" where
  "liftO r = (\<lambda>s. Some (r, s))"

text \<open>\<open>for x in xs { acc = body(x, acc)?; }\<close>\<close>

fun foldM :: "('b \<Rightarrow> 'a \<Rightarrow> ('s, 'e, 'a) io) \<Rightarrow> 'b list \<Rightarrow> 'a \<Rightarrow> ('s, 'e, 'a) io" where
  "foldM f [] a = ret a"
| "foldM f (x # xs) a = bindM (f x a) (foldM f xs)"

text \<open>Reading and updating the state itself: an access to a field of \<open>self\<close>.\<close>

definition gets :: "('s \<Rightarrow> 'a) \<Rightarrow> ('s, 'e, 'a) io" where
  "gets f = (\<lambda>s. Some (Ok (f s), s))"

definition modify :: "('s \<Rightarrow> 's) \<Rightarrow> ('s, 'e, unit) io" where
  "modify f = (\<lambda>s. Some (Ok (), f s))"

text \<open>A computation on one component of a larger state.\<close>

definition on_part :: "('s \<Rightarrow> 'p) \<Rightarrow> ('p \<Rightarrow> 's \<Rightarrow> 's) \<Rightarrow> ('p, 'e, 'a) io \<Rightarrow> ('s, 'e, 'a) io" where
  "on_part get put m = (\<lambda>s. map_option (\<lambda>(r, p). (r, put p s)) (m (get s)))"

lemma gets_run [io_simps]: "gets f s = Some (Ok (f s), s)"
  by (simp add: gets_def)

lemma modify_run [io_simps]: "modify f s = Some (Ok (), f s)"
  by (simp add: modify_def)

lemma on_part_run [io_simps]: "m (get s) = Some (r, p) \<Longrightarrow> on_part get put m s = Some (r, put p s)"
  by (simp add: on_part_def)

lemma ret_run [io_simps]: "ret x s = Some (Ok x, s)"
  by (simp add: ret_def)

lemma fail_run [io_simps]: "fail e s = Some (Err e, s)"
  by (simp add: fail_def)

lemma panic_run [io_simps]: "panic s = Some (Panic Fault, s)"
  by (simp add: panic_def)

lemma liftO_run [io_simps]: "liftO r s = Some (r, s)"
  by (simp add: liftO_def)

lemma bindM_Ok [io_simps]: "m s = Some (Ok x, s') \<Longrightarrow> bindM m k s = k x s'"
  by (simp add: bindM_def)

lemma bindM_Err [io_simps]: "m s = Some (Err e, s') \<Longrightarrow> bindM m k s = Some (Err e, s')"
  by (simp add: bindM_def)

lemma bindM_Panic [io_simps]: "m s = Some (Panic c, s') \<Longrightarrow> bindM m k s = Some (Panic c, s')"
  by (simp add: bindM_def)

lemma attempt_Ok [io_simps]: "m s = Some (Ok x, s') \<Longrightarrow> attempt m k s = k (Inr x) s'"
  by (simp add: attempt_def)

lemma attempt_Err [io_simps]: "m s = Some (Err e, s') \<Longrightarrow> attempt m k s = k (Inl e) s'"
  by (simp add: attempt_def)

lemma bindM_ret [simp]: "bindM (ret x) k = k x"
  by (simp add: bindM_def ret_def fun_eq_iff)

lemma bindM_assoc: "bindM (bindM m f) k = bindM m (\<lambda>x. bindM (f x) k)"
proof
  fix s
  show "bindM (bindM m f) k s = bindM m (\<lambda>x. bindM (f x) k) s"
  proof (cases "m s")
    case (Some p)
    then show ?thesis by (cases p; cases "fst p") (auto simp: bindM_def)
  qed (simp add: bindM_def)
qed

lemma bindM_ret_right [simp]: "bindM m ret = m"
proof
  fix s
  show "bindM m ret s = m s"
  proof (cases "m s")
    case (Some p)
    then show ?thesis by (cases p; cases "fst p") (auto simp: bindM_def ret_def)
  qed (simp add: bindM_def)
qed

lemma foldM_Nil_fun [simp]: "foldM f [] = ret"
  by (rule ext) simp

lemma foldM_cong: "(\<And>x a. x \<in> set xs \<Longrightarrow> f x a = g x a) \<Longrightarrow> foldM f xs a = foldM g xs a"
proof (induction xs arbitrary: a)
  case (Cons x xs)
  have "foldM f xs = foldM g xs" by (rule ext, rule Cons.IH) (simp add: Cons.prems)
  with Cons.prems show ?case by simp
qed simp

lemma foldM_append: "foldM f (xs @ ys) a = bindM (foldM f xs a) (foldM f ys)"
proof (induction xs arbitrary: a)
  case (Cons x xs)
  have "foldM f (xs @ ys) = (\<lambda>a. bindM (foldM f xs a) (foldM f ys))" by (rule ext, rule Cons.IH)
  then show ?case by (simp add: bindM_assoc)
qed simp

lemma foldM_snoc: "foldM f xs a s = Some (Ok b, s') \<Longrightarrow> foldM f (xs @ [x]) a s = f x b s'"
  by (simp add: foldM_append bindM_Ok)

lemma bindM_gets [io_simps]: "bindM (gets f) k s = k (f s) s"
  by (simp add: bindM_def gets_def)

lemma bindM_modify [io_simps]: "bindM (modify f) k s = k () (f s)"
  by (simp add: bindM_def modify_def)

lemma bindM_cases:
  assumes "bindM m k s = Some (r, s'')"
  obtains x s' where "m s = Some (Ok x, s')" "k x s' = Some (r, s'')"
  | e where "m s = Some (Err e, s'')" "r = Err e"
  | c where "m s = Some (Panic c, s'')" "r = Panic c"
proof -
  from assms obtain a b where m: "m s = Some (a, b)"
    by (auto simp: bindM_def bind_eq_Some_conv)
  show ?thesis
    using assms m that by (cases a) (auto simp: bindM_def)
qed

lemma bindM_OkE:
  assumes "bindM m k s = Some (Ok y, s'')"
  obtains x s' where "m s = Some (Ok x, s')" "k x s' = Some (Ok y, s'')"
  using assms by (rule bindM_cases) auto

lemma bindM_mono [partial_function_mono]:
  assumes B: "\<And>s. mono_option (\<lambda>f. B f s)" and C: "\<And>y s. mono_option (\<lambda>f. C y f s)"
  shows "mono_option (\<lambda>f. bindM (B f) (\<lambda>y. C y f) s)"
  unfolding bindM_def
  apply (rule bind_mono [OF B])
  subgoal for p
    by (cases p; cases "fst p") (auto intro: C option.const_mono)
  done

text \<open>
  \<open>loop { ... }\<close>: a body that ends with \<open>continue\<close> yields \<open>Inl\<close> of the next values of the loop
  variables, one that ends with \<open>break\<close> or \<open>return\<close> yields \<open>Inr\<close> of the result. A loop that never
  ends has no result (\<open>None\<close>).
\<close>

partial_function (option) loopM ::
    "('a \<Rightarrow> 's \<Rightarrow> (('e, 'a + 'b) outcome \<times> 's) option) \<Rightarrow> 'a \<Rightarrow> 's \<Rightarrow> (('e, 'b) outcome \<times> 's) option" where
  "loopM body a s =
     bindM (body a) (\<lambda>r s. case r of Inl a' \<Rightarrow> loopM body a' s | Inr b \<Rightarrow> ret b s) s"

lemma loopM_unfold:
  "loopM body a = bindM (body a) (\<lambda>r. case r of Inl a' \<Rightarrow> loopM body a' | Inr b \<Rightarrow> ret b)"
proof
  fix s
  have "(\<lambda>r s. case r of Inl a' \<Rightarrow> loopM body a' s | Inr b \<Rightarrow> ret b s)
      = (\<lambda>r. case r of Inl a' \<Rightarrow> loopM body a' | Inr b \<Rightarrow> ret b)"
    by (auto simp: fun_eq_iff split: sum.split)
  then show "loopM body a s = bindM (body a) (\<lambda>r. case r of Inl a' \<Rightarrow> loopM body a' | Inr b \<Rightarrow> ret b) s"
    by (subst loopM.simps) simp
qed

lemma loopM_continue [io_simps]:
  "body a s = Some (Ok (Inl a'), s') \<Longrightarrow> loopM body a s = loopM body a' s'"
  by (subst loopM_unfold) (simp add: io_simps)

lemma loopM_break [io_simps]:
  "body a s = Some (Ok (Inr b), s') \<Longrightarrow> loopM body a s = Some (Ok b, s')"
  by (subst loopM_unfold) (simp add: io_simps)

lemma loopM_Err [io_simps]:
  "body a s = Some (Err e, s') \<Longrightarrow> loopM body a s = Some (Err e, s')"
  by (subst loopM_unfold) (simp add: io_simps)

section \<open>Total correctness\<close>

text \<open>
  \<open>returns P m Q\<close>: from every state satisfying \<open>P\<close> the computation \<open>m\<close> returns normally - it
  neither fails, nor panics, nor runs forever - with a result and a state that satisfy \<open>Q\<close>.
\<close>

definition returns :: "('s \<Rightarrow> bool) \<Rightarrow> ('s, 'e, 'a) io \<Rightarrow> ('a \<Rightarrow> 's \<Rightarrow> bool) \<Rightarrow> bool" where
  "returns P m Q \<longleftrightarrow> (\<forall>s. P s \<longrightarrow> (\<exists>x s'. m s = Some (Ok x, s') \<and> Q x s'))"

named_theorems returns_intros

lemma returnsI: "(\<And>s. P s \<Longrightarrow> \<exists>x s'. m s = Some (Ok x, s') \<and> Q x s') \<Longrightarrow> returns P m Q"
  by (auto simp: returns_def)

lemma returnsD: "returns P m Q \<Longrightarrow> P s \<Longrightarrow> \<exists>x s'. m s = Some (Ok x, s') \<and> Q x s'"
  by (auto simp: returns_def)

lemma returns_ret [returns_intros]: "(\<And>s. P s \<Longrightarrow> Q x s) \<Longrightarrow> returns P (ret x) Q"
  by (auto simp: returns_def io_simps)

lemma returns_modify [returns_intros]: "(\<And>s. P s \<Longrightarrow> Q () (f s)) \<Longrightarrow> returns P (modify f) Q"
  by (auto simp: returns_def io_simps)

lemma returns_gets: "(\<And>s. P s \<Longrightarrow> Q (f s) s) \<Longrightarrow> returns P (gets f) Q"
  by (auto simp: returns_def io_simps)

lemma returns_bindM:
  assumes "returns P m R" "\<And>x. returns (R x) (k x) Q"
  shows "returns P (bindM m k) Q"
proof (rule returnsI)
  fix s assume "P s"
  with returnsD [OF assms(1)] obtain x s' where x: "m s = Some (Ok x, s')" "R x s'" by blast
  with returnsD [OF assms(2)] show "\<exists>x s'. bindM m k s = Some (Ok x, s') \<and> Q x s'"
    by (simp add: bindM_Ok)
qed

lemma returns_seq:
  "returns P m (\<lambda>_ :: unit. R) \<Longrightarrow> returns R (k ()) Q \<Longrightarrow> returns P (bindM m k) Q"
  by (rule returns_bindM) auto

lemma returns_get_bind:
  assumes "\<And>w. P w \<Longrightarrow> returns (\<lambda>s. s = w) (k (f w)) Q"
  shows "returns P (bindM (gets f) k) Q"
  using assms by (fastforce simp: returns_def io_simps)

lemma returns_if [returns_intros]:
  "(b \<Longrightarrow> returns P m Q) \<Longrightarrow> (\<not> b \<Longrightarrow> returns P n Q) \<Longrightarrow> returns P (if b then m else n) Q"
  by simp

lemma returns_conseq:
  "returns P m Q \<Longrightarrow> (\<And>s. P' s \<Longrightarrow> P s) \<Longrightarrow> (\<And>x s. Q x s \<Longrightarrow> Q' x s) \<Longrightarrow> returns P' m Q'"
  by (fastforce simp: returns_def)

lemma returns_foldM:
  "(\<And>x a. x \<in> set xs \<Longrightarrow> returns (R a) (f x a) R) \<Longrightarrow> returns (R a) (foldM f xs a) R"
proof (induction xs arbitrary: a)
  case (Cons x xs)
  show ?case unfolding foldM.simps by (rule returns_bindM [OF Cons.prems Cons.IH]) (auto intro: Cons.prems)
qed (auto intro: returns_ret)

text \<open>The errors a computation can end with.\<close>

definition errors_in :: "'e set \<Rightarrow> ('s, 'e, 'a) io \<Rightarrow> bool" where
  "errors_in E m \<longleftrightarrow> (\<forall>s e s'. m s = Some (Err e, s') \<longrightarrow> e \<in> E)"

named_theorems err_intros

lemma errors_inD: "errors_in E m \<Longrightarrow> m s = Some (Err e, s') \<Longrightarrow> e \<in> E"
  by (auto simp: errors_in_def)

lemma errors_in_basic [err_intros]: "errors_in E (ret x)" "errors_in E panic" "errors_in E (gets f)" "errors_in E (modify g)"
  by (simp_all add: errors_in_def ret_run panic_run gets_run modify_run)

lemma errors_in_fail: "e \<in> E \<Longrightarrow> errors_in E (fail e)"
  by (simp add: errors_in_def fail_run)

lemma errors_in_bindM [err_intros]:
  assumes "errors_in E m" "\<And>x. errors_in E (k x)"
  shows "errors_in E (bindM m k)"
  unfolding errors_in_def
proof clarify
  fix s e s'
  assume "bindM m k s = Some (Err e, s')"
  then show "e \<in> E" by (cases rule: bindM_cases) (auto dest: errors_inD [OF assms(1)] errors_inD [OF assms(2)])
qed

lemma errors_in_attempt [err_intros]:
  assumes "\<And>x. errors_in E (k x)"
  shows "errors_in E (attempt m k)"
  unfolding errors_in_def
proof clarify
  fix s e s'
  assume run: "attempt m k s = Some (Err e, s')"
  then obtain a b where m: "m s = Some (a, b)" by (auto simp: attempt_def bind_eq_Some_conv)
  show "e \<in> E" using run m errors_inD [OF assms] by (cases a) (auto simp: attempt_def)
qed

lemma errors_in_if [err_intros]: "errors_in E m \<Longrightarrow> errors_in E n \<Longrightarrow> errors_in E (if b then m else n)"
  by simp

lemma errors_in_foldM [err_intros]: "(\<And>x a. errors_in E (f x a)) \<Longrightarrow> errors_in E (foldM f xs a)"
  by (induction xs arbitrary: a) (auto intro: err_intros simp del: foldM_Nil_fun)

lemma errors_in_loopM [err_intros]:
  fixes body :: "'a \<Rightarrow> ('s, 'e, 'a + 'b) io"
  assumes body: "\<And>a. errors_in E (body a)"
  shows "errors_in E (loopM body a)"
  unfolding errors_in_def
proof clarify
  let ?P = "\<lambda>b (a :: 'a) (s :: 's) (y :: ('e, 'b) outcome \<times> 's). b = body \<longrightarrow> (\<forall>e. fst y = Err e \<longrightarrow> e \<in> E)"
  fix s e s'
  assume run: "loopM body a s = Some (Err e, s')"
  have "?P body a s (Err e, s')"
  proof (rule loopM.raw_induct [where P = ?P, OF _ run], intro impI allI)
    fix f b a s y e
    assume IH: "\<And>b a s y. f b a s = Some y \<Longrightarrow> ?P b a s y" and b: "b = body" and "fst y = Err e"
      and step: "bindM (b a) (\<lambda>r s. case r of Inl a' \<Rightarrow> f b a' s | Inr x \<Rightarrow> ret x s) s = Some y"
    then obtain s' where y: "y = (Err e, s')" by (cases y) simp
    from step [unfolded y] show "e \<in> E"
    proof (cases rule: bindM_cases)
      case (1 x t)
      then show ?thesis using IH [of body _ t] b by (cases x) (auto simp: ret_run)
    next
      case (2 e')
      then show ?thesis using errors_inD [OF body] b by auto
    qed simp
  qed
  then show "e \<in> E" by simp
qed

lemma errors_in_on_part [err_intros]: "errors_in E m \<Longrightarrow> errors_in E (on_part get put m)"
  by (auto simp: errors_in_def on_part_def)

text \<open>A loop whose iterations keep \<open>I\<close> and decrease along a well-founded relation returns.\<close>

lemma returns_loopM:
  assumes wf: "wf R" and body: "\<And>a s. I a s \<Longrightarrow> \<exists>r s'. body a s = Some (Ok r, s') \<and>
    (case r of Inl a' \<Rightarrow> I a' s' \<and> ((a', s'), (a, s)) \<in> R | Inr b \<Rightarrow> Q b s')"
  shows "returns (I a) (loopM body a) Q"
proof (rule returnsI)
  fix s assume "I a s"
  with wf show "\<exists>x s'. loopM body a s = Some (Ok x, s') \<and> Q x s'"
  proof (induction "(a, s)" arbitrary: a s rule: wf_induct_rule)
    case less
    from body [OF less(2)] obtain r s' where r: "body a s = Some (Ok r, s')"
      "case r of Inl a' \<Rightarrow> I a' s' \<and> ((a', s'), (a, s)) \<in> R | Inr b \<Rightarrow> Q b s'" by blast
    show ?case
    proof (cases r)
      case (Inl a')
      with r less(1) [of a' s'] show ?thesis by (simp add: loopM_continue)
    next
      case (Inr b)
      with r show ?thesis by (simp add: loopM_break)
    qed
  qed
qed

section \<open>Computations that always return\<close>

text \<open>A computation that always returns and never panics.\<close>

definition settles :: "('s, 'e, 'a) io \<Rightarrow> bool" where
  "settles m \<longleftrightarrow> (\<forall>s. \<exists>r s'. m s = Some (r, s') \<and> \<not> panics r)"

named_theorems settles_intros

lemma settles_basic [settles_intros]: "settles (ret x)" "settles (fail e)" "settles (modify f)" "settles (gets g)"
  by (simp_all add: settles_def ret_run fail_run modify_run gets_run)

lemma settles_bindM [settles_intros]:
  assumes "settles m" "\<And>x. settles (k x)"
  shows "settles (bindM m k)"
  unfolding settles_def
proof
  fix s
  obtain r s' where m: "m s = Some (r, s')" "\<not> panics r" using assms(1) unfolding settles_def by blast
  show "\<exists>r s'. bindM m k s = Some (r, s') \<and> \<not> panics r"
    using assms(2) m by (cases r) (auto simp: settles_def bindM_def)
qed

lemma settles_if [settles_intros]: "(b \<Longrightarrow> settles m) \<Longrightarrow> (\<not> b \<Longrightarrow> settles n) \<Longrightarrow> settles (if b then m else n)"
  by simp

lemma settles_foldM [settles_intros]: "(\<And>x a. settles (f x a)) \<Longrightarrow> settles (foldM f xs a)"
  by (induction xs arbitrary: a) (auto intro: settles_intros)

lemma settles_attempt [settles_intros]:
  assumes "settles m" "\<And>x. settles (k x)"
  shows "settles (attempt m k)"
  unfolding settles_def
proof
  fix s
  obtain r s' where m: "m s = Some (r, s')" "\<not> panics r" using assms(1) unfolding settles_def by blast
  show "\<exists>r s'. attempt m k s = Some (r, s') \<and> \<not> panics r"
    using assms(2) m by (cases r) (auto simp: settles_def attempt_def)
qed

lemma settles_on_part [settles_intros]: "settles m \<Longrightarrow> settles (on_part get put m)"
  unfolding settles_def on_part_def by (metis (mono_tags, lifting) case_prod_conv option.simps(9))

lemma settles_liftO: "\<not> panics r \<Longrightarrow> settles (liftO r)"
  by (simp add: settles_def liftO_run)

section \<open>Integer operators\<close>

text \<open>
  The operators \<open>+\<close>, \<open>-\<close>, \<open>*\<close>, \<open>/\<close> and \<open>%\<close> on unsigned integers, \<open>+\<close> and the unary \<open>-\<close> on signed ones (a signed
  integer is kept as its bits and read with \<open>sint\<close>), with the checks of the dev profile.
\<close>

definition add_chk :: "'w :: len word \<Rightarrow> 'w word \<Rightarrow> ('e, 'w word) outcome" where
  "add_chk a b = (if unat a + unat b < 2 ^ LENGTH('w) then Ok (a + b) else Panic Overflow)"

definition sub_chk :: "'w :: len word \<Rightarrow> 'w word \<Rightarrow> ('e, 'w word) outcome" where
  "sub_chk a b = (if b \<le> a then Ok (a - b) else Panic Overflow)"

definition mul_chk :: "'w :: len word \<Rightarrow> 'w word \<Rightarrow> ('e, 'w word) outcome" where
  "mul_chk a b = (if unat a * unat b < 2 ^ LENGTH('w) then Ok (a * b) else Panic Overflow)"

definition div_chk :: "'w :: len word \<Rightarrow> 'w word \<Rightarrow> ('e, 'w word) outcome" where
  "div_chk a b = (if b = 0 then Panic Fault else Ok (a div b))"

definition rem_chk :: "'w :: len word \<Rightarrow> 'w word \<Rightarrow> ('e, 'w word) outcome" where
  "rem_chk a b = (if b = 0 then Panic Fault else Ok (a mod b))"

definition sadd_chk :: "'w :: len word \<Rightarrow> 'w word \<Rightarrow> ('e, 'w word) outcome" where
  "sadd_chk a b = (if sint (a + b) = sint a + sint b then Ok (a + b) else Panic Overflow)"

definition neg_chk :: "'w :: len word \<Rightarrow> ('e, 'w word) outcome" where
  "neg_chk a = (if sint (- a) = - sint a then Ok (- a) else Panic Overflow)"

lemmas chk_defs = add_chk_def sub_chk_def mul_chk_def div_chk_def rem_chk_def sadd_chk_def neg_chk_def

text \<open>Only a division can fault.\<close>

lemma chk_no_Fault [simp]:
  "add_chk a b \<noteq> Panic Fault" "sub_chk a b \<noteq> Panic Fault" "mul_chk a b \<noteq> Panic Fault" "sadd_chk a b \<noteq> Panic Fault" "neg_chk a \<noteq> Panic Fault"
  by (simp_all add: chk_defs)

lemma chk_OkD:
  "add_chk a b = Ok c \<Longrightarrow> c = a + b \<and> unat c = unat a + unat b" "sub_chk a b = Ok c \<Longrightarrow> c = a - b \<and> unat c = unat a - unat b"
  "mul_chk a b = Ok c \<Longrightarrow> c = a * b \<and> unat c = unat a * unat b"
  by (auto simp: chk_defs unat_word_ariths unat_sub split: if_splits)

text \<open>Small counts are safe as \<open>i32\<close> values.\<close>

lemma sint_small:
  assumes "unat (a :: u32) < 2 ^ 31"
  shows "sint a = int (unat a) \<and> int (unat a) < 2 ^ 31"
proof -
  have v: "int (unat a) < 2 ^ 31" using assms by (metis of_nat_less_iff of_nat_numeral of_nat_power)
  then have "signed_take_bit 31 (int (unat a)) = int (unat a)" by (intro signed_take_bit_int_eq_self) linarith+
  moreover have "sint a = signed_take_bit 31 (int (unat a))" by (simp add: sint_uint)
  ultimately show ?thesis using v by metis
qed

lemma neg_chk_small:
  assumes "unat (a :: u32) < 2 ^ 31"
  shows "neg_chk a = Ok (- a)"
proof -
  have v: "0 \<le> sint a" "sint a < 2 ^ 31" using sint_small [OF assms] by simp_all
  have "sint (- a) = signed_take_bit 31 (- sint a)" using sint_word_ariths(4) [of a] by simp
  also have "\<dots> = - sint a" using v by (intro signed_take_bit_int_eq_self) simp_all
  finally show ?thesis by (simp add: neg_chk_def)
qed

lemma sadd_chk_small:
  assumes "Suc (unat (a :: u32)) < 2 ^ 31"
  shows "sadd_chk a 1 = Ok (a + 1)" "unat (a + 1) = Suc (unat a)"
proof -
  show s: "unat (a + 1) = Suc (unat a)" using assms by (simp add: unat_word_ariths)
  have "sint (a + 1) = int (Suc (unat a))" "sint a = int (unat a)" using sint_small [of a] sint_small [of "a + 1"] assms s by simp_all
  then show "sadd_chk a 1 = Ok (a + 1)" by (simp add: sadd_chk_def)
qed

lemma liftO_Ok [simp]: "liftO (Ok x) = ret x"
  by (simp add: liftO_def ret_def)

section \<open>Rust's string and slice operations\<close>

abbreviation slash :: char where
  "slash \<equiv> CHR ''/''"

text \<open>A byte of a string as a \<open>u8\<close>, and back: \<open>str::as_bytes\<close> and its inverse.\<close>

definition byte_of_char :: "char \<Rightarrow> u8" where
  "byte_of_char c = word_of_nat (of_char c)"

definition char_of_byte :: "u8 \<Rightarrow> char" where
  "char_of_byte b = char_of (unat b)"

definition as_bytes :: "string \<Rightarrow> u8 list" where
  "as_bytes s = map byte_of_char s"

lemma unat_byte_of_char [simp]: "unat (byte_of_char c) = of_char c"
proof -
  have "of_char c < (256::nat)" by (cases c) simp
  then show ?thesis by (simp add: byte_of_char_def unat_of_nat)
qed

lemma char_of_byte_of_char [simp]: "char_of_byte (byte_of_char c) = c"
  by (simp add: char_of_byte_def)

lemma byte_of_char_of_byte [simp]: "byte_of_char (char_of_byte b) = b"
proof -
  have "unat b < 256" using unsigned_less [of b, where 'a = nat] by simp
  then show ?thesis by (simp add: byte_of_char_def char_of_byte_def)
qed

lemma byte_of_char_inject [simp]: "byte_of_char a = byte_of_char b \<longleftrightarrow> a = b"
  by (metis char_of_byte_of_char)

lemma as_bytes_simps [simp]:
  "as_bytes [] = []"
  "as_bytes (c # s) = byte_of_char c # as_bytes s"
  "as_bytes (s @ t) = as_bytes s @ as_bytes t"
  "length (as_bytes s) = length s"
  by (simp_all add: as_bytes_def)

text \<open>\<open>str::split(c)\<close>: never empty, and empty pieces are kept.\<close>

fun split_on :: "char \<Rightarrow> string \<Rightarrow> string list" where
  "split_on c [] = [[]]"
| "split_on c (x # xs) =
     (if x = c then [] # split_on c xs
      else (case split_on c xs of [] \<Rightarrow> [[x]] | y # ys \<Rightarrow> (x # y) # ys))"

text \<open>\<open>s.split('/').filter(|s| !s.is_empty())\<close>\<close>

definition segments :: "string \<Rightarrow> string list" where
  "segments s = filter (\<lambda>t. t \<noteq> []) (split_on slash s)"

definition starts_with :: "string \<Rightarrow> string \<Rightarrow> bool" where
  "starts_with p s = (take (length p) s = p)"

definition trim_end_matches :: "char \<Rightarrow> string \<Rightarrow> string" where
  "trim_end_matches c s = rev (dropWhile (\<lambda>x. x = c) (rev s))"

definition strip_prefix :: "string \<Rightarrow> string \<Rightarrow> string option" where
  "strip_prefix p s = (if starts_with p s then Some (drop (length p) s) else None)"

text \<open>\<open>str::rfind(c)\<close>: the index of the last occurrence.\<close>

fun rfind :: "char \<Rightarrow> string \<Rightarrow> nat option" where
  "rfind c [] = None"
| "rfind c (x # xs) =
     (case rfind c xs of Some i \<Rightarrow> Some (Suc i) | None \<Rightarrow> if x = c then Some 0 else None)"

definition join :: "string \<Rightarrow> string list \<Rightarrow> string" where
  "join sep xs = (case xs of [] \<Rightarrow> [] | y # ys \<Rightarrow> y @ concat (map (\<lambda>s. sep @ s) ys))"

definition to_ascii_lowercase :: "char \<Rightarrow> char" where
  "to_ascii_lowercase c =
     (if 65 \<le> (of_char c :: nat) \<and> of_char c \<le> (90::nat) then char_of (of_char c + 32 :: nat) else c)"

definition to_ascii_uppercase :: "u8 \<Rightarrow> u8" where
  "to_ascii_uppercase b = (if 97 \<le> b \<and> b \<le> 122 then b - 32 else b)"

definition eq_ignore_ascii_case :: "string \<Rightarrow> string \<Rightarrow> bool" where
  "eq_ignore_ascii_case s t = (map to_ascii_lowercase s = map to_ascii_lowercase t)"

lemma split_on_ne [simp]: "split_on c s \<noteq> []"
  by (induction s) (auto split: list.splits)

lemma split_on_append:
  "split_on c (a @ c # b) = split_on c a @ split_on c b"
  by (induction a) (auto split: list.splits)

lemma split_on_notin: "c \<notin> set s \<Longrightarrow> split_on c s = [s]"
  by (induction s) auto

lemma split_on_set: "t \<in> set (split_on c s) \<Longrightarrow> c \<notin> set t"
  by (induction s arbitrary: t) (auto split: list.splits if_splits)

lemma segments_Nil [simp]: "segments [] = []"
  by (simp add: segments_def)

lemma segments_slash [simp]: "segments (slash # s) = segments s"
  by (simp add: segments_def)

lemma segments_append_slash: "segments (a @ slash # b) = segments a @ segments b"
  by (simp add: segments_def split_on_append)

lemma segments_single: "slash \<notin> set s \<Longrightarrow> s \<noteq> [] \<Longrightarrow> segments s = [s]"
  by (simp add: segments_def split_on_notin)

lemma segments_set: "t \<in> set (segments s) \<Longrightarrow> t \<noteq> [] \<and> slash \<notin> set t"
  by (auto simp: segments_def dest: split_on_set)

lemma starts_with_prefix [str_simps]: "starts_with p s \<longleftrightarrow> prefix p s"
  by (metis append_eq_conv_conj prefix_def starts_with_def append_take_drop_id)

lemma strip_prefix_Some: "strip_prefix p s = Some t \<longleftrightarrow> s = p @ t"
  by (auto simp: strip_prefix_def str_simps prefix_def)

lemma trim_end_matches_notin [simp]: "c \<notin> set s \<Longrightarrow> trim_end_matches c s = s"
  by (cases s rule: rev_cases) (auto simp: trim_end_matches_def)

lemma trim_end_matches_id: "s = [] \<or> last s \<noteq> c \<Longrightarrow> trim_end_matches c s = s"
  by (cases s rule: rev_cases) (auto simp: trim_end_matches_def)

lemma trim_end_matches_last: "trim_end_matches c s = [] \<or> last (trim_end_matches c s) \<noteq> c"
  by (induction s rule: rev_induct) (auto simp: trim_end_matches_def)

lemma trim_end_matches_snoc [simp]: "trim_end_matches c (s @ [c]) = trim_end_matches c s"
  by (simp add: trim_end_matches_def)

lemma trim_end_matches_decomp: "\<exists>n. s = trim_end_matches c s @ replicate n c"
proof -
  have "takeWhile (\<lambda>x. x = c) (rev s) = replicate (length (takeWhile (\<lambda>x. x = c) (rev s))) c"
    by (rule replicate_length_same [symmetric]) (auto dest: set_takeWhileD)
  then have "rev s = replicate (length (takeWhile (\<lambda>x. x = c) (rev s))) c
      @ dropWhile (\<lambda>x. x = c) (rev s)"
    by (metis takeWhile_dropWhile_id)
  then have "s = rev (dropWhile (\<lambda>x. x = c) (rev s))
      @ replicate (length (takeWhile (\<lambda>x. x = c) (rev s))) c"
    by (metis rev_append rev_replicate rev_rev_ident)
  then show ?thesis by (auto simp: trim_end_matches_def)
qed

lemma rfind_None: "rfind c s = None \<longleftrightarrow> c \<notin> set s"
  by (induction s) (auto split: option.splits)

lemma rfind_append: "c \<notin> set b \<Longrightarrow> rfind c (a @ c # b) = Some (length a)"
  using rfind_None [of c b] by (induction a) auto

lemma rfind_SomeD: "rfind c s = Some i \<Longrightarrow>
  i < length s \<and> s ! i = c \<and> c \<notin> set (drop (Suc i) s)"
proof (induction s arbitrary: i)
  case Nil
  then show ?case by simp
next
  case (Cons x xs)
  then show ?case
    by (cases "rfind c xs") (auto split: if_splits simp: rfind_None)
qed

section \<open>Decimal output of unsigned integers\<close>

text \<open>\<open>format!("{}", n)\<close> for an unsigned \<open>n\<close>.\<close>

fun show_nat :: "nat \<Rightarrow> string" where
  "show_nat n = (if n < 10 then [char_of (48 + n)] else show_nat (n div 10) @ [char_of (48 + n mod 10)])"

declare show_nat.simps [simp del]

section \<open>Little-endian bytes\<close>

definition u16_from_le_bytes :: "u8 \<Rightarrow> u8 \<Rightarrow> u16" where
  "u16_from_le_bytes a b = ucast a OR push_bit 8 (ucast b)"

definition u32_from_le_bytes :: "u8 \<Rightarrow> u8 \<Rightarrow> u8 \<Rightarrow> u8 \<Rightarrow> u32" where
  "u32_from_le_bytes a b c d =
     ucast a OR push_bit 8 (ucast b) OR push_bit 16 (ucast c) OR push_bit 24 (ucast d)"

definition u16_to_le_bytes :: "u16 \<Rightarrow> u8 list" where
  "u16_to_le_bytes w = [ucast w, ucast (drop_bit 8 w)]"

definition u32_to_le_bytes :: "u32 \<Rightarrow> u8 list" where
  "u32_to_le_bytes w = [ucast w, ucast (drop_bit 8 w), ucast (drop_bit 16 w), ucast (drop_bit 24 w)]"

lemma length_to_le_bytes [simp]:
  "length (u16_to_le_bytes w) = 2" "length (u32_to_le_bytes v) = 4"
  by (simp_all add: u16_to_le_bytes_def u32_to_le_bytes_def)

lemma u16_le_roundtrip [simp]: "u16_from_le_bytes (ucast w) (ucast (drop_bit 8 w)) = w"
  unfolding u16_from_le_bytes_def
  by (rule bit_word_eqI) (auto simp: bit_simps)

lemma u32_le_roundtrip [simp]:
  "u32_from_le_bytes (ucast w) (ucast (drop_bit 8 w)) (ucast (drop_bit 16 w)) (ucast (drop_bit 24 w)) = w"
proof (rule bit_word_eqI)
  fix n assume "n < LENGTH(32)"
  then consider "n < 8" | "8 \<le> n" "n < 16" | "16 \<le> n" "n < 24" | "24 \<le> n" "n < 32" by force
  then show "bit (u32_from_le_bytes (ucast w) (ucast (drop_bit 8 w)) (ucast (drop_bit 16 w))
      (ucast (drop_bit 24 w))) n = bit w n"
    unfolding u32_from_le_bytes_def by cases (auto simp: bit_simps)
qed

text \<open>\<open>u32::from_le_bytes([buf[i], buf[i + 1], buf[i + 2], buf[i + 3]])\<close>: an index out of range panics.\<close>

definition le32_at :: "u8 list \<Rightarrow> nat \<Rightarrow> ('e, u32) outcome" where
  "le32_at buf i =
     (if i + 3 < length buf
      then Ok (u32_from_le_bytes (buf ! i) (buf ! (i + 1)) (buf ! (i + 2)) (buf ! (i + 3)))
      else Panic Fault)"

text \<open>\<open>&buf[a..b]\<close> and \<open>&buf[..b]\<close>: a range that does not lie in the slice panics.\<close>

definition slice :: "nat \<Rightarrow> nat \<Rightarrow> 'a list \<Rightarrow> ('e, 'a list) outcome" where
  "slice a b buf = (if a \<le> b \<and> b \<le> length buf then Ok (take (b - a) (drop a buf)) else Panic Fault)"

definition slice_to :: "nat \<Rightarrow> 'a list \<Rightarrow> ('e, 'a list) outcome" where
  "slice_to b buf = slice 0 b buf"

lemma slice_Ok: "a \<le> b \<Longrightarrow> b \<le> length buf \<Longrightarrow> slice a b buf = Ok (take (b - a) (drop a buf))"
  by (simp add: slice_def)

lemma slice_to_Ok: "b \<le> length buf \<Longrightarrow> slice_to b buf = Ok (take b buf)"
  by (simp add: slice_to_def slice_def)

lemma errors_in_slice [err_intros]: "errors_in E (liftO (slice a b buf))"
  by (simp add: errors_in_def liftO_run slice_def)

lemma settles_slice_to [settles_intros]: "b \<le> length buf \<Longrightarrow> settles (liftO (slice_to b buf))"
  by (simp add: slice_to_Ok settles_basic)

text \<open>\<open>buf[i..i + src.len()].copy_from_slice(&src)\<close>\<close>

definition splice :: "nat \<Rightarrow> 'a list \<Rightarrow> 'a list \<Rightarrow> 'a list" where
  "splice i src buf = take i buf @ src @ drop (i + length src) buf"

lemma length_splice [simp]: "i + length src \<le> length buf \<Longrightarrow> length (splice i src buf) = length buf"
  by (simp add: splice_def)

lemma splice_nth:
  assumes "i + length src \<le> length buf" "j < length buf"
  shows "splice i src buf ! j = (if i \<le> j \<and> j < i + length src then src ! (j - i) else buf ! j)"
proof -
  consider "j < i" | "i \<le> j" "j < i + length src" | "i + length src \<le> j" by linarith
  then show ?thesis
    using assms by cases (auto simp: splice_def nth_append min_def)
qed

lemma splice_take: "n \<le> i \<Longrightarrow> i \<le> length buf \<Longrightarrow> take n (splice i src buf) = take n buf"
  by (simp add: splice_def min_def)

lemma splice_drop:
  "i + length src \<le> n \<Longrightarrow> i + length src \<le> length buf \<Longrightarrow> drop n (splice i src buf) = drop n buf"
  by (simp add: splice_def)

lemma splice_slice:
  "i + length src \<le> length buf \<Longrightarrow> take (length src) (drop i (splice i src buf)) = src"
  by (simp add: splice_def)

text \<open>\<open>slice::chunks_exact(n)\<close> for a positive \<open>n\<close>: a shorter rest is left out.\<close>

function chunks_exact :: "nat \<Rightarrow> 'a list \<Rightarrow> 'a list list" where
  "chunks_exact n xs = (if n = 0 \<or> length xs < n then [] else take n xs # chunks_exact n (drop n xs))"
  by pat_completeness auto
termination
  by (relation "measure (\<lambda>(n, xs). length xs)") auto

declare chunks_exact.simps [simp del]

lemma chunks_exact_Nil [simp]: "chunks_exact n [] = []"
  by (subst chunks_exact.simps) auto

lemma chunks_exact_append [simp]:
  "0 < n \<Longrightarrow> length xs = n \<Longrightarrow> chunks_exact n (xs @ ys) = xs # chunks_exact n ys"
  by (subst chunks_exact.simps) simp

lemma chunks_exact_length: "c \<in> set (chunks_exact n xs) \<Longrightarrow> length c = n"
proof (induction n xs rule: chunks_exact.induct)
  case (1 n xs)
  then show ?case
    by (subst (asm) (2) chunks_exact.simps) (auto split: if_splits)
qed

lemma chunks_exact_mult:
  "0 < n \<Longrightarrow> length xs = m * n \<Longrightarrow> chunks_exact n (xs @ ys) = chunks_exact n xs @ chunks_exact n ys"
proof (induction m arbitrary: xs)
  case (Suc m)
  then obtain a b where ab: "xs = a @ b" "length a = n" "length b = m * n"
    by (metis append_take_drop_id length_drop length_take add_diff_cancel_left' le_add1 min.absorb2
        mult_Suc)
  with Suc show ?case by simp
qed simp

end
