(* ===== verification/Path.thy ===== *)
theory Path
  imports Prelude
begin

text \<open>
  The pure path functions of \<^verbatim>\<open>kernel/src/fs/mod.rs\<close>: \<open>normalize\<close>, \<open>canonical_prefix\<close> and
  \<open>direct_child\<close>. The lemmas say that \<open>normalize\<close> always yields a canonical absolute path,
  that it is idempotent, and that normalising in two steps is normalising the joined path,
  which is what the shell's \<open>cd\<close> relies on.
\<close>

section \<open>The functions\<close>

text \<open>One iteration of the second loop of \<open>normalize\<close>.\<close>

definition push_segment :: "string \<Rightarrow> string list \<Rightarrow> string list" where
  "push_segment s stack =
     (if s = ''.'' then stack
      else if s = ''..'' then butlast stack
      else stack @ [s])"

text \<open>The final loop: every segment behind a slash.\<close>

definition render :: "string list \<Rightarrow> string" where
  "render stack = concat (map (\<lambda>s. slash # s) stack)"

definition normalize :: "string \<Rightarrow> string \<Rightarrow> string" where
  "normalize cwd input =
     (let stack = (if \<not> starts_with ''/'' input then segments cwd else []);
          stack = fold push_segment (segments input) stack
      in if stack = [] then ''/'' else render stack)"

definition canonical_prefix :: "string \<Rightarrow> string" where
  "canonical_prefix p = (if p = ''/'' then [] else trim_end_matches slash p)"

definition direct_child :: "string \<Rightarrow> string \<Rightarrow> string option" where
  "direct_child parent child_prefix =
     (if child_prefix = [] then None
      else
        (case (if parent = [] then strip_prefix ''/'' child_prefix
               else (case strip_prefix parent child_prefix of
                       None \<Rightarrow> None
                     | Some after \<Rightarrow> strip_prefix ''/'' after)) of
           None \<Rightarrow> None
         | Some rest \<Rightarrow> if rest = [] \<or> slash \<in> set rest then None else Some rest))"

section \<open>Segments and rendering\<close>

text \<open>A segment list as it can appear on the stack: no empty piece, no slash inside a piece.\<close>

definition seg_list :: "string list \<Rightarrow> bool" where
  "seg_list xs = list_all (\<lambda>s. s \<noteq> [] \<and> slash \<notin> set s) xs"

definition plain :: "string \<Rightarrow> bool" where
  "plain s = (s \<noteq> ''.'' \<and> s \<noteq> ''..'')"

lemma seg_list_simps [simp]:
  "seg_list []"
  "seg_list (x # xs) \<longleftrightarrow> x \<noteq> [] \<and> slash \<notin> set x \<and> seg_list xs"
  "seg_list (xs @ ys) \<longleftrightarrow> seg_list xs \<and> seg_list ys"
  by (auto simp: seg_list_def)

lemma seg_list_segments [simp]: "seg_list (segments p)"
  by (auto simp: seg_list_def list_all_iff dest: segments_set)

lemma seg_list_butlast: "seg_list xs \<Longrightarrow> seg_list (butlast xs)"
  by (auto simp: seg_list_def list_all_iff dest: in_set_butlastD)

lemma render_simps [simp]:
  "render [] = []"
  "render (x # xs) = slash # x @ render xs"
  "render (xs @ ys) = render xs @ render ys"
  by (simp_all add: render_def)

lemma render_eq_Nil [simp]: "render xs = [] \<longleftrightarrow> xs = []"
  by (cases xs) auto

lemma segments_render [simp]: "seg_list xs \<Longrightarrow> segments (render xs) = xs"
proof (induction xs)
  case (Cons x xs)
  then have x: "segments x = [x]" by (simp add: segments_single)
  show ?case
  proof (cases xs)
    case Nil
    with x show ?thesis by simp
  next
    case (Cons y ys)
    have "segments (render (x # xs)) = segments (x @ slash # (y @ render ys))"
      by (simp add: Cons)
    also have "\<dots> = segments x @ segments (slash # y @ render ys)"
      by (simp only: segments_append_slash segments_slash)
    finally show ?thesis
      using Cons.IH \<open>seg_list (x # xs)\<close> x Cons by simp
  qed
qed simp

lemma push_segment_seg_list:
  "seg_list st \<Longrightarrow> s \<noteq> [] \<Longrightarrow> slash \<notin> set s \<Longrightarrow> seg_list (push_segment s st)"
  by (simp add: push_segment_def seg_list_butlast)

lemma fold_push_seg_list: "seg_list st \<Longrightarrow> seg_list xs \<Longrightarrow> seg_list (fold push_segment xs st)"
  by (induction xs arbitrary: st) (auto simp: push_segment_seg_list)

lemma push_segment_plain: "list_all plain st \<Longrightarrow> list_all plain (push_segment s st)"
  unfolding push_segment_def list_all_iff
  by (auto simp: plain_def dest: in_set_butlastD)

lemma fold_push_plain_set:
  "list_all plain st \<Longrightarrow> list_all plain (fold push_segment xs st)"
  by (induction xs arbitrary: st) (simp_all add: push_segment_plain)

lemma fold_push_plain: "list_all plain xs \<Longrightarrow> fold push_segment xs st = st @ xs"
  by (induction xs arbitrary: st) (auto simp: push_segment_def plain_def)

section \<open>Canonical paths\<close>

text \<open>
  A path is canonical when it is the rendering of its own segments (so it starts with a slash,
  has no empty segment and no trailing slash) and no segment is \<open>.\<close> or \<open>..\<close>.
\<close>

definition canonical :: "string \<Rightarrow> bool" where
  "canonical p \<longleftrightarrow>
     p = (if segments p = [] then ''/'' else render (segments p)) \<and> list_all plain (segments p)"

lemma canonicalI:
  assumes "seg_list xs" "list_all plain xs"
  shows "canonical (if xs = [] then ''/'' else render xs)"
  using assms by (auto simp: canonical_def)

lemma canonical_hd: "canonical p \<Longrightarrow> starts_with ''/'' p"
  by (cases "segments p") (auto simp: canonical_def starts_with_def split: if_splits)

text \<open>What \<open>normalize\<close> leaves on its stack, read back from the path it returns.\<close>

definition norm_stack :: "string \<Rightarrow> string \<Rightarrow> string list" where
  "norm_stack cwd input =
     fold push_segment (segments input) (if starts_with ''/'' input then [] else segments cwd)"

lemma normalize_norm_stack:
  "normalize cwd input = (if norm_stack cwd input = [] then ''/'' else render (norm_stack cwd input))"
  by (simp add: normalize_def norm_stack_def Let_def)

lemma norm_stack_seg_list [simp]: "seg_list (norm_stack cwd input)"
  by (simp add: norm_stack_def fold_push_seg_list)

lemma segments_normalize [simp]: "segments (normalize cwd input) = norm_stack cwd input"
  by (simp add: normalize_norm_stack)

lemma canonical_normalize:
  assumes "canonical cwd"
  shows "canonical (normalize cwd input)"
proof -
  have "list_all plain (norm_stack cwd input)"
    using assms by (auto simp: norm_stack_def canonical_def intro: fold_push_plain_set)
  then show ?thesis
    unfolding normalize_norm_stack by (rule canonicalI [OF norm_stack_seg_list])
qed

text \<open>
  For a canonical working directory and any input, \<open>normalize\<close> returns a canonical
  absolute path: one leading slash, no empty segment, no trailing slash, no \<open>.\<close> and no
  \<open>..\<close> left.
\<close>

theorem normalize_canonical:
  assumes "canonical cwd"
  shows "canonical (normalize cwd input)"
  using assms by (rule canonical_normalize)

theorem normalize_canonical_witness:
  "canonical ''/etc/x'' \<and> normalize ''/etc/x'' ''.././/a/'' = ''/etc/a''
   \<and> canonical (normalize ''/etc/x'' ''.././/a/'')"
proof -
  have "canonical ''/etc/x''" by code_simp
  moreover have "normalize ''/etc/x'' ''.././/a/'' = ''/etc/a''" by code_simp
  ultimately show ?thesis using normalize_canonical [of "''/etc/x''"] by blast
qed

lemma normalize_of_canonical: "canonical p \<Longrightarrow> normalize cwd p = p"
  using canonical_hd [of p]
  by (auto simp: normalize_norm_stack norm_stack_def canonical_def fold_push_plain)

text \<open>
  Normalising a relative path against a normalised directory gives the same result as
  normalising the two paths joined by a slash: \<open>cd a\<close> followed by \<open>cd b\<close> reaches the
  directory that \<open>cd a/b\<close> reaches.
\<close>

theorem normalize_compose:
  assumes "a \<noteq> []" and "\<not> starts_with ''/'' b"
  shows "normalize (normalize cwd a) b = normalize cwd (a @ ''/'' @ b)"
proof -
  have "segments (a @ ''/'' @ b) = segments a @ segments b"
    using segments_append_slash [of a b] by simp
  moreover have "starts_with ''/'' (a @ ''/'' @ b) \<longleftrightarrow> starts_with ''/'' a"
    using assms(1) by (cases a) (simp_all add: starts_with_def)
  ultimately have "norm_stack (normalize cwd a) b = norm_stack cwd (a @ ''/'' @ b)"
    using assms(2) by (simp add: norm_stack_def [of cwd "a @ _"] norm_stack_def [of "normalize cwd a"])
      (simp add: norm_stack_def)
  then show ?thesis by (simp only: normalize_norm_stack)
qed

theorem normalize_compose_witness:
  "normalize (normalize ''/usr'' ''../etc'') ''x/.'' = ''/etc/x''
   \<and> normalize (normalize ''/usr'' ''../etc'') ''x/.'' = normalize ''/usr'' ''../etc/x/.''"
proof -
  have "normalize (normalize ''/usr'' ''../etc'') ''x/.'' = normalize ''/usr'' (''../etc'' @ ''/'' @ ''x/.'')"
    by (rule normalize_compose) (simp_all add: starts_with_def)
  moreover have "normalize ''/usr'' ''../etc/x/.'' = ''/etc/x''" by code_simp
  ultimately show ?thesis by simp
qed

end
