(* ===== verification/Block.thy ===== *)
theory Block
  imports Prelude
begin

text \<open>
  The block-device abstraction of \<^verbatim>\<open>kernel/src/block.rs\<close>. The \<open>BlockDevice\<close> trait is a record of
  its three methods over an arbitrary device state, and the contract its implementors promise is
  the locale \<open>block_device\<close>. Clients (the FAT driver, \<open>/dev/disk0\<close>) are written against the
  record. The plain disk image \<open>image_device\<close>, a list of 512-byte blocks, is the abstract
  specification of a disk; \<open>refines\<close> transports what is proved of a client on the image to the
  same client on any device that meets the contract.
\<close>

section \<open>The trait\<close>

datatype BlockError = Timeout | DriveError | OutOfRange

definition BLOCK_SIZE :: nat where
  "BLOCK_SIZE = 512"

text \<open>
  \<open>read_block\<close> fills the first 512 bytes of a caller's buffer: it takes the buffer and returns
  the byte count together with the updated buffer.
\<close>

record 'd BlockDevice =
  num_blocks :: "'d \<Rightarrow> u64"
  read_block :: "u64 \<Rightarrow> u8 list \<Rightarrow> ('d, BlockError, nat \<times> u8 list) io"
  write_block :: "u64 \<Rightarrow> u8 list \<Rightarrow> ('d, BlockError, nat) io"

section \<open>The disk image\<close>

type_synonym image = "u8 list list"

definition image_device :: "image BlockDevice" where
  "image_device = \<lparr>
     num_blocks = (\<lambda>im. word_of_nat (length im)),
     read_block = (\<lambda>lba buf im.
       if unat lba < length im \<and> BLOCK_SIZE \<le> length buf
       then Some (Ok (BLOCK_SIZE, im ! unat lba @ drop BLOCK_SIZE buf), im)
       else Some (Err OutOfRange, im)),
     write_block = (\<lambda>lba buf im.
       if unat lba < length im \<and> BLOCK_SIZE \<le> length buf
       then Some (Ok BLOCK_SIZE, im[unat lba := take BLOCK_SIZE buf])
       else Some (Err OutOfRange, im))\<rparr>"

section \<open>Refinement between two runs of the same client\<close>

text \<open>
  \<open>refines R m m'\<close>: whenever the abstract run \<open>m\<close> returns, the concrete run \<open>m'\<close> from a related
  state returns the same outcome and leaves a related state.
\<close>

definition refines :: "('d \<Rightarrow> 's \<Rightarrow> bool) \<Rightarrow> ('s, 'e, 'a) io \<Rightarrow> ('d, 'e, 'a) io \<Rightarrow> bool" where
  "refines R m m' \<longleftrightarrow> (\<forall>d s r s'. R d s \<longrightarrow> m s = Some (r, s') \<longrightarrow>
     (\<exists>d'. m' d = Some (r, d') \<and> R d' s'))"

lemma refinesI:
  "(\<And>d s r s'. R d s \<Longrightarrow> m s = Some (r, s') \<Longrightarrow> \<exists>d'. m' d = Some (r, d') \<and> R d' s') \<Longrightarrow> refines R m m'"
  by (auto simp: refines_def)

lemma refinesD:
  "refines R m m' \<Longrightarrow> R d s \<Longrightarrow> m s = Some (r, s') \<Longrightarrow> \<exists>d'. m' d = Some (r, d') \<and> R d' s'"
  by (auto simp: refines_def)

lemma refines_ret [sim_intros]: "refines R (ret x) (ret x)"
  by (auto simp: refines_def io_simps)

lemma refines_fail [sim_intros]: "refines R (fail e) (fail e)"
  by (auto simp: refines_def io_simps)

lemma refines_panic [sim_intros]: "refines R panic panic"
  by (auto simp: refines_def io_simps)

lemma refines_liftO [sim_intros]: "refines R (liftO r) (liftO r)"
  by (auto simp: refines_def io_simps)

lemma refines_bindM [sim_intros]:
  assumes m: "refines R m m'" and k: "\<And>x. refines R (k x) (k' x)"
  shows "refines R (bindM m k) (bindM m' k')"
proof (rule refinesI)
  fix d s r s''
  assume R: "R d s" and run: "bindM m k s = Some (r, s'')"
  from run show "\<exists>d'. bindM m' k' d = Some (r, d') \<and> R d' s''"
  proof (cases rule: bindM_cases)
    case (1 x s')
    with refinesD [OF m R] obtain d1 where d1: "m' d = Some (Ok x, d1)" "R d1 s'" by blast
    with refinesD [OF k d1(2) 1(2)] show ?thesis by (simp add: bindM_Ok)
  next
    case (2 e)
    with refinesD [OF m R] show ?thesis by (auto simp: bindM_Err)
  next
    case (3 c)
    with refinesD [OF m R] show ?thesis by (auto simp: bindM_Panic)
  qed
qed

lemma attempt_cases:
  assumes "attempt m k s = Some (r, s'')"
  obtains x s' where "m s = Some (Ok x, s')" "k (Inr x) s' = Some (r, s'')"
  | e s' where "m s = Some (Err e, s')" "k (Inl e) s' = Some (r, s'')"
  | c where "m s = Some (Panic c, s'')" "r = Panic c"
proof -
  from assms obtain a b where m: "m s = Some (a, b)"
    by (auto simp: attempt_def bind_eq_Some_conv)
  show ?thesis
    using assms m that by (cases a) (auto simp: attempt_def)
qed

lemma refines_attempt [sim_intros]:
  assumes m: "refines R m m'" and k: "\<And>x. refines R (k x) (k' x)"
  shows "refines R (attempt m k) (attempt m' k')"
proof (rule refinesI)
  fix d s r s''
  assume R: "R d s" and run: "attempt m k s = Some (r, s'')"
  from run show "\<exists>d'. attempt m' k' d = Some (r, d') \<and> R d' s''"
  proof (cases rule: attempt_cases)
    case (1 x s')
    with refinesD [OF m R] obtain d1 where d1: "m' d = Some (Ok x, d1)" "R d1 s'" by blast
    with refinesD [OF k d1(2) 1(2)] show ?thesis by (simp add: attempt_def)
  next
    case (2 e s')
    with refinesD [OF m R] obtain d1 where d1: "m' d = Some (Err e, d1)" "R d1 s'" by blast
    with refinesD [OF k d1(2) 2(2)] show ?thesis by (simp add: attempt_def)
  next
    case (3 c)
    with refinesD [OF m R] show ?thesis by (auto simp: attempt_def)
  qed
qed

lemma refines_foldM [sim_intros]:
  assumes "\<And>x a. refines R (f x a) (f' x a)"
  shows "refines R (foldM f xs a) (foldM f' xs a)"
  by (induction xs arbitrary: a) (simp_all add: refines_ret refines_bindM assms)

lemma refines_loopM [sim_intros]:
  assumes body: "\<And>a. refines R (body a) (body' a)"
  shows "refines R (loopM body a) (loopM body' a)"
proof (rule refinesI)
  let ?P = "\<lambda>b a s y. b = body \<longrightarrow>
    (\<forall>d. R d s \<longrightarrow> (\<exists>d'. loopM body' a d = Some (fst y, d') \<and> R d' (snd y)))"
  fix d s r s'
  assume R: "R d s" and run: "loopM body a s = Some (r, s')"
  have "?P body a s (r, s')"
  proof (rule loopM.raw_induct [where P = ?P, OF _ run], intro impI allI)
    fix f b a s y d
    assume IH: "\<And>b a s y. f b a s = Some y \<Longrightarrow> ?P b a s y" and b: "b = body" and d: "R d s"
      and step: "bindM (b a) (\<lambda>r s. case r of Inl a' \<Rightarrow> f b a' s | Inr x \<Rightarrow> ret x s) s = Some y"
    have rec: "refines R (\<lambda>s. case r of Inl a' \<Rightarrow> f body a' s | Inr x \<Rightarrow> ret x s)
        (case r of Inl a' \<Rightarrow> loopM body' a' | Inr x \<Rightarrow> ret x)" for r
    proof (cases r)
      case (Inl a')
      then show ?thesis using IH by (force simp: refines_def)
    next
      case (Inr x)
      then show ?thesis using refines_ret [of R x] by (simp add: refines_def)
    qed
    obtain r' s'' where y: "y = (r', s'')" by (cases y)
    have "refines R (bindM (body a) (\<lambda>r s. case r of Inl a' \<Rightarrow> f body a' s | Inr x \<Rightarrow> ret x s))
        (loopM body' a)"
      by (subst loopM_unfold) (rule refines_bindM [OF body rec])
    from refinesD [OF this d step [unfolded b y]]
    show "\<exists>d'. loopM body' a d = Some (fst y, d') \<and> R d' (snd y)" by (simp add: y)
  qed
  with R show "\<exists>d'. loopM body' a d = Some (r, d') \<and> R d' s'" by simp
qed

lemma refines_if [sim_intros]:
  "(b \<Longrightarrow> refines R m m') \<Longrightarrow> (\<not> b \<Longrightarrow> refines R n n') \<Longrightarrow>
   refines R (if b then m else n) (if b then m' else n')"
  by simp

section \<open>The contract\<close>

text \<open>The image a device state stands for, through a view \<open>blk\<close> of its contents.\<close>

definition device_image :: "'d BlockDevice \<Rightarrow> ('d \<Rightarrow> nat \<Rightarrow> u8 list) \<Rightarrow> 'd \<Rightarrow> image" where
  "device_image dev blk d = map (blk d) [0..<unat (num_blocks dev d)]"

definition device_rel ::
    "'d BlockDevice \<Rightarrow> ('d \<Rightarrow> bool) \<Rightarrow> ('d \<Rightarrow> nat \<Rightarrow> u8 list) \<Rightarrow> 'd \<Rightarrow> image \<Rightarrow> bool" where
  "device_rel dev ok blk d im \<longleftrightarrow> ok d \<and> im = device_image dev blk d"

text \<open>
  What a client relies on: there is an invariant of the device state and a view of its contents
  as blocks of 512 bytes; in range, a read returns the block and changes nothing of the contents,
  a write replaces exactly that block; out of range, or with a buffer that is too short, the call
  reports \<open>OutOfRange\<close> and changes nothing.
\<close>

locale block_device =
  fixes dev :: "'d BlockDevice"
    and ok :: "'d \<Rightarrow> bool"
    and blk :: "'d \<Rightarrow> nat \<Rightarrow> u8 list"
  assumes blk_len: "ok d \<Longrightarrow> length (blk d n) = BLOCK_SIZE"
    and read_ok: "\<lbrakk>ok d; lba < num_blocks dev d; BLOCK_SIZE \<le> length buf\<rbrakk> \<Longrightarrow>
      \<exists>d'. read_block dev lba buf d = Some (Ok (BLOCK_SIZE, blk d (unat lba) @ drop BLOCK_SIZE buf), d')
        \<and> ok d' \<and> blk d' = blk d \<and> num_blocks dev d' = num_blocks dev d"
    and write_ok: "\<lbrakk>ok d; lba < num_blocks dev d; BLOCK_SIZE \<le> length buf\<rbrakk> \<Longrightarrow>
      \<exists>d'. write_block dev lba buf d = Some (Ok BLOCK_SIZE, d')
        \<and> ok d' \<and> blk d' = (blk d)(unat lba := take BLOCK_SIZE buf)
        \<and> num_blocks dev d' = num_blocks dev d"
    and read_oor: "ok d \<Longrightarrow> \<not> (lba < num_blocks dev d \<and> BLOCK_SIZE \<le> length buf) \<Longrightarrow>
      read_block dev lba buf d = Some (Err OutOfRange, d)"
    and write_oor: "ok d \<Longrightarrow> \<not> (lba < num_blocks dev d \<and> BLOCK_SIZE \<le> length buf) \<Longrightarrow>
      write_block dev lba buf d = Some (Err OutOfRange, d)"
begin

abbreviation image_of :: "'d \<Rightarrow> image" where
  "image_of \<equiv> device_image dev blk"

abbreviation rel :: "'d \<Rightarrow> image \<Rightarrow> bool" where
  "rel \<equiv> device_rel dev ok blk"

lemmas image_of_def = device_image_def [of dev blk]
lemmas rel_def = device_rel_def [of dev ok blk]

lemma length_image_of [simp]: "length (image_of d) = unat (num_blocks dev d)"
  by (simp add: image_of_def)

lemma nth_image_of [simp]: "n < unat (num_blocks dev d) \<Longrightarrow> image_of d ! n = blk d n"
  by (simp add: image_of_def)

lemma refines_read_block [sim_intros]:
  "refines rel (read_block image_device lba buf) (read_block dev lba buf)"
proof (rule refinesI)
  fix d im r im'
  assume "rel d im" and run: "read_block image_device lba buf im = Some (r, im')"
  then have inv: "ok d" and im: "im = image_of d" by (auto simp: rel_def)
  show "\<exists>d'. read_block dev lba buf d = Some (r, d') \<and> rel d' im'"
  proof (cases "lba < num_blocks dev d \<and> BLOCK_SIZE \<le> length buf")
    case True
    with read_ok [OF inv] obtain d' where
      "read_block dev lba buf d = Some (Ok (BLOCK_SIZE, blk d (unat lba) @ drop BLOCK_SIZE buf), d')"
      "ok d'" "blk d' = blk d" "num_blocks dev d' = num_blocks dev d" by blast
    then show ?thesis
      using True run im by (auto simp: image_device_def rel_def image_of_def word_less_nat_alt)
  next
    case False
    then show ?thesis using run im inv read_oor [OF inv False]
      by (auto simp: image_device_def rel_def word_less_nat_alt)
  qed
qed

lemma image_of_update:
  assumes "blk d' = (blk d)(n := b)" "num_blocks dev d' = num_blocks dev d"
  shows "image_of d' = (image_of d)[n := b]"
  using assms by (intro nth_equalityI) (auto simp: image_of_def nth_list_update)

lemma refines_write_block [sim_intros]:
  "refines rel (write_block image_device lba buf) (write_block dev lba buf)"
proof (rule refinesI)
  fix d im r im'
  assume "rel d im" and run: "write_block image_device lba buf im = Some (r, im')"
  then have inv: "ok d" and im: "im = image_of d" by (auto simp: rel_def)
  show "\<exists>d'. write_block dev lba buf d = Some (r, d') \<and> rel d' im'"
  proof (cases "lba < num_blocks dev d \<and> BLOCK_SIZE \<le> length buf")
    case True
    with write_ok [OF inv] obtain d' where
      "write_block dev lba buf d = Some (Ok BLOCK_SIZE, d')" "ok d'"
      "blk d' = (blk d)(unat lba := take BLOCK_SIZE buf)"
      "num_blocks dev d' = num_blocks dev d" by blast
    then show ?thesis
      using True run im by (auto simp: image_device_def rel_def word_less_nat_alt image_of_update)
  next
    case False
    then show ?thesis using run im inv write_oor [OF inv False]
      by (auto simp: image_device_def rel_def word_less_nat_alt)
  qed
qed

end

text \<open>The image device itself meets the contract, on images whose blocks all have 512 bytes.\<close>

definition image_ok :: "image \<Rightarrow> bool" where
  "image_ok im \<longleftrightarrow> list_all (\<lambda>b. length b = BLOCK_SIZE) im \<and> length im < 2 ^ 64"

definition image_blk :: "image \<Rightarrow> nat \<Rightarrow> u8 list" where
  "image_blk im n = (if n < length im then im ! n else replicate BLOCK_SIZE 0)"

lemma image_ok_nth: "image_ok im \<Longrightarrow> n < length im \<Longrightarrow> length (im ! n) = BLOCK_SIZE"
  by (simp add: image_ok_def list_all_length)

lemma image_ok_update: "image_ok im \<Longrightarrow> length b = BLOCK_SIZE \<Longrightarrow> image_ok (im[n := b])"
  using set_update_subset_insert [of im n b] by (auto simp: image_ok_def list_all_iff)

lemma image_ok_num_blocks: "image_ok im \<Longrightarrow> lba < num_blocks image_device im \<longleftrightarrow> unat lba < length im"
  by (simp add: image_ok_def image_device_def word_less_nat_alt unat_of_nat)

interpretation img: block_device image_device image_ok image_blk
proof unfold_locales
  fix im :: image and lba :: u64 and buf :: "u8 list"
  assume im_ok: "image_ok im" and lba: "lba < num_blocks image_device im" and "BLOCK_SIZE \<le> length buf"
  note facts = image_ok_num_blocks [OF im_ok, THEN iffD1, OF lba] this
  show "\<exists>d'. read_block image_device lba buf im
      = Some (Ok (BLOCK_SIZE, image_blk im (unat lba) @ drop BLOCK_SIZE buf), d')
    \<and> image_ok d' \<and> image_blk d' = image_blk im
    \<and> num_blocks image_device d' = num_blocks image_device im"
    using facts by (simp add: image_device_def image_blk_def)
  show "\<exists>d'. write_block image_device lba buf im = Some (Ok BLOCK_SIZE, d')
    \<and> image_ok d' \<and> image_blk d' = (image_blk im)(unat lba := take BLOCK_SIZE buf)
    \<and> num_blocks image_device d' = num_blocks image_device im"
    using facts by (auto simp: image_device_def image_blk_def image_ok_update fun_eq_iff)
next
  fix im :: image and n
  assume "image_ok im"
  then show "length (image_blk im n) = BLOCK_SIZE" by (simp add: image_blk_def image_ok_nth)
qed (auto simp: image_device_def image_ok_def word_less_nat_alt unat_of_nat)

end
