(* ===== verification/FsTypes.thy ===== *)
theory FsTypes
  imports Prelude
begin

text \<open>
  The error type and the method defaults of the \<open>FileSystem\<close> trait
  (\<^verbatim>\<open>kernel/src/fs/mod.rs\<close>). A read-only backend implements the read methods only and
  inherits \<open>Unsupported\<close> for every write method; \<open>read_at\<close> falls back on \<open>read_file\<close>.
\<close>

datatype FsError = NotFound | NotADir | IsADir | Io | Unsupported

text \<open>Every write method the trait provides a default body for: \<open>Err(FsError::Unsupported)\<close>.\<close>

definition default_write_method :: "(FsError, 'a) outcome" where
  "default_write_method = Err Unsupported"

text \<open>
  The default \<open>read_at\<close>, from the outcome of \<open>read_file\<close>: the count and the caller's buffer
  with its first bytes replaced by the file's contents from the offset on. \<open>off as usize\<close> is
  the identity on a 64-bit target.
\<close>

definition default_read_at ::
    "(FsError, u8 list) outcome \<Rightarrow> u64 \<Rightarrow> u8 list \<Rightarrow> (FsError, nat \<times> u8 list) outcome" where
  "default_read_at file off buf =
     (case file of
        Ok data \<Rightarrow>
          (if length data \<le> unat off then Ok (0, buf)
           else
             (let n = min (length data - unat off) (length buf)
              in Ok (n, take n (drop (unat off) data) @ drop n buf)))
      | Err e \<Rightarrow> Err e
      | Panic c \<Rightarrow> Panic c)"

lemma default_read_at_length:
  "default_read_at file off buf = Ok (n, buf') \<Longrightarrow> n \<le> length buf \<and> length buf' = length buf"
  by (auto simp: default_read_at_def Let_def split: outcome.splits if_splits)

end
