(* ===== verification/FsSpec.thy ===== *)
theory FsSpec
  imports FsTypes
begin

text \<open>
  What a hierarchical file system promises, as a map from paths (lists of segments) to entries. The
  tmpfs and the FAT driver are both proved against it.
\<close>

section \<open>The specification: a map from paths to entries\<close>

datatype entry = FileE "u8 list" | DirE

type_synonym fs_map = "string list \<rightharpoonup> entry"

text \<open>
  Why a path is not a directory: the first missing or non-directory entry on the way decides
  between \<open>NotFound\<close> and \<open>NotADir\<close>.
\<close>

fun dir_error :: "fs_map \<Rightarrow> string list \<Rightarrow> string list \<Rightarrow> FsError option" where
  "dir_error v pre [] =
     (case v pre of Some DirE \<Rightarrow> None | Some (FileE _) \<Rightarrow> Some NotADir | None \<Rightarrow> Some NotFound)"
| "dir_error v pre (s # segs) =
     (case v pre of
        Some DirE \<Rightarrow> dir_error v (pre @ [s]) segs
      | Some (FileE _) \<Rightarrow> Some NotADir
      | None \<Rightarrow> Some NotFound)"

definition has_children :: "fs_map \<Rightarrow> string list \<Rightarrow> bool" where
  "has_children v p \<longleftrightarrow> (\<exists>s. v (p @ [s]) \<noteq> None)"

text \<open>The common shape: the root cannot be changed, the parent must be a directory.\<close>

definition spec_in_parent ::
    "(fs_map \<Rightarrow> (FsError, unit) outcome \<times> fs_map) \<Rightarrow> string list \<Rightarrow> fs_map
     \<Rightarrow> (FsError, unit) outcome \<times> fs_map" where
  "spec_in_parent f p v =
     (if p = [] then (Err Io, v)
      else (case dir_error v [] (butlast p) of Some e \<Rightarrow> (Err e, v) | None \<Rightarrow> f v))"

definition spec_write :: "string list \<Rightarrow> u8 list \<Rightarrow> fs_map \<Rightarrow> (FsError, unit) outcome \<times> fs_map" where
  "spec_write p data = spec_in_parent (\<lambda>v.
     (if v p = Some DirE then (Err IsADir, v) else (Ok (), v(p \<mapsto> FileE data)))) p"

definition spec_append :: "string list \<Rightarrow> u8 list \<Rightarrow> fs_map \<Rightarrow> (FsError, unit) outcome \<times> fs_map" where
  "spec_append p data = spec_in_parent (\<lambda>v.
     (case v p of
        Some (FileE b) \<Rightarrow> (Ok (), v(p \<mapsto> FileE (b @ data)))
      | Some DirE \<Rightarrow> (Err IsADir, v)
      | None \<Rightarrow> (Ok (), v(p \<mapsto> FileE data)))) p"

definition spec_create_dir :: "string list \<Rightarrow> fs_map \<Rightarrow> (FsError, unit) outcome \<times> fs_map" where
  "spec_create_dir p = spec_in_parent (\<lambda>v.
     (if v p \<noteq> None then (Err Io, v) else (Ok (), v(p \<mapsto> DirE)))) p"

definition spec_remove :: "string list \<Rightarrow> fs_map \<Rightarrow> (FsError, unit) outcome \<times> fs_map" where
  "spec_remove p = spec_in_parent (\<lambda>v.
     (if v p = None then (Err NotFound, v)
      else if v p = Some DirE \<and> has_children v p then (Err Io, v)
      else (Ok (), v(p := None)))) p"

end
