(* ===== verification/BTree.thy ===== *)
theory BTree
  imports Prelude "HOL-Library.List_Lexorder" "HOL-Library.Char_ord"
begin

text \<open>
  The part of \<open>alloc::collections::BTreeMap\<close> the sources use, as an association list sorted by
  key: iteration (\<open>keys\<close>) is in key order, which for \<open>String\<close> keys is the bytewise
  lexicographic order. The laws of a finite map are the locale \<open>ordered_map\<close>; the association
  list is its interpretation, and the file systems and the executor use the interpreted facts.
\<close>

section \<open>The operations\<close>

type_synonym ('k, 'v) btree = "('k \<times> 'v) list"

definition bt_get :: "('k, 'v) btree \<Rightarrow> 'k \<Rightarrow> 'v option" where
  "bt_get m k = map_of m k"

fun bt_insert :: "('k :: linorder) \<Rightarrow> 'v \<Rightarrow> ('k, 'v) btree \<Rightarrow> ('k, 'v) btree" where
  "bt_insert k v [] = [(k, v)]"
| "bt_insert k v ((k', v') # m) =
     (if k < k' then (k, v) # (k', v') # m
      else if k = k' then (k, v) # m
      else (k', v') # bt_insert k v m)"

definition bt_remove :: "'k \<Rightarrow> ('k, 'v) btree \<Rightarrow> ('k, 'v) btree" where
  "bt_remove k m = filter (\<lambda>(k', _). k' \<noteq> k) m"

definition bt_keys :: "('k, 'v) btree \<Rightarrow> 'k list" where
  "bt_keys m = map fst m"

definition bt_ok :: "('k :: linorder, 'v) btree \<Rightarrow> bool" where
  "bt_ok m \<longleftrightarrow> sorted_wrt (<) (map fst m)"

section \<open>The interface\<close>

locale ordered_map =
  fixes empty :: 'm
    and get :: "'m \<Rightarrow> 'k :: linorder \<Rightarrow> 'v option"
    and insert :: "'k \<Rightarrow> 'v \<Rightarrow> 'm \<Rightarrow> 'm"
    and remove :: "'k \<Rightarrow> 'm \<Rightarrow> 'm"
    and keys :: "'m \<Rightarrow> 'k list"
    and ok :: "'m \<Rightarrow> bool"
  assumes ok_empty: "ok empty"
    and ok_insert: "ok m \<Longrightarrow> ok (insert k v m)"
    and ok_remove: "ok m \<Longrightarrow> ok (remove k m)"
    and get_empty: "get empty k = None"
    and get_insert: "get (insert k v m) = (get m)(k \<mapsto> v)"
    and get_remove: "get (remove k m) = (get m)(k := None)"
    and set_keys: "set (keys m) = dom (get m)"
    and sorted_keys: "ok m \<Longrightarrow> sorted_wrt (<) (keys m)"
begin

lemma get_insert_same [simp]: "get (insert k v m) k = Some v"
  by (simp add: get_insert)

lemma get_insert_other [simp]: "k' \<noteq> k \<Longrightarrow> get (insert k v m) k' = get m k'"
  by (simp add: get_insert)

lemma get_remove_same [simp]: "get (remove k m) k = None"
  by (simp add: get_remove)

lemma get_remove_other [simp]: "k' \<noteq> k \<Longrightarrow> get (remove k m) k' = get m k'"
  by (simp add: get_remove)

lemma keys_unique:
  assumes "ok m" "ok m'" "dom (get m) = dom (get m')"
  shows "keys m = keys m'"
  using assms sorted_keys [of m] sorted_keys [of m'] set_keys [of m] set_keys [of m']
  by (metis strict_sorted_equal)

end

section \<open>The interpretation\<close>

lemma bt_get_Nil [simp]: "bt_get [] k = None"
  by (simp add: bt_get_def)

lemma bt_insert_get: "bt_get (bt_insert k v m) = (bt_get m)(k \<mapsto> v)"
  unfolding bt_get_def by (induction m) (auto simp: fun_eq_iff)

lemma bt_remove_get: "bt_get (bt_remove k m) = (bt_get m)(k := None)"
  unfolding bt_get_def bt_remove_def by (induction m) (auto simp: fun_eq_iff)

lemma bt_insert_keys: "fst ` set (bt_insert k v m) = insert k (fst ` set m)"
  by (induction k v m rule: bt_insert.induct) auto

lemma bt_ok_Cons: "bt_ok ((k, v) # m) \<longleftrightarrow> (\<forall>k' \<in> fst ` set m. k < k') \<and> bt_ok m"
  by (simp add: bt_ok_def)

lemma bt_ok_insert: "bt_ok m \<Longrightarrow> bt_ok (bt_insert k v m)"
proof (induction k v m rule: bt_insert.induct)
  case (1 k v)
  then show ?case by (simp add: bt_ok_def)
next
  case (2 k v k' v' m)
  then show ?case
    by (cases "k < k'"; cases "k = k'") (force simp: bt_ok_Cons bt_insert_keys)+
qed

lemma bt_ok_remove: "bt_ok m \<Longrightarrow> bt_ok (bt_remove k m)"
  unfolding bt_ok_def bt_remove_def by (induction m) auto

lemma bt_keys_dom: "set (bt_keys m) = dom (bt_get m)"
  unfolding bt_get_def bt_keys_def by (simp add: dom_map_of_conv_image_fst)

interpretation bt: ordered_map "[]" bt_get bt_insert bt_remove bt_keys bt_ok
  by unfold_locales
    (simp_all add: bt_ok_insert bt_ok_remove bt_insert_get bt_remove_get bt_keys_dom,
     simp_all add: bt_ok_def bt_keys_def)

lemma bt_insert_mem: "x \<in> set (bt_insert k v m) \<Longrightarrow> x = (k, v) \<or> x \<in> set m"
  by (induction m) (auto split: if_splits)

lemma bt_remove_mem: "x \<in> set (bt_remove k m) \<Longrightarrow> x \<in> set m"
  by (auto simp: bt_remove_def)

lemma bt_get_mem: "bt_get m k = Some v \<Longrightarrow> (k, v) \<in> set m"
  by (simp add: bt_get_def map_of_SomeD)

lemma bt_get_unique: "bt_ok m \<Longrightarrow> (k, v) \<in> set m \<Longrightarrow> bt_get m k = Some v"
  by (metis bt_get_def bt_ok_def map_of_is_SomeI strict_sorted_iff)

end
