(* ===== verification/TmpFs.thy ===== *)
theory TmpFs
  imports FsSpec BTree
begin

text \<open>
  The in-memory writable file system of \<^verbatim>\<open>kernel/src/fs/tmp.rs\<close>. The tree of nodes is a
  datatype with the source's constructors; the mutex-guarded root is passed explicitly. A mutable
  walk followed by a change of the node it reaches is \<open>with_node\<close>. The specification is the map of
  \<open>FsSpec\<close>: every operation is proved to be exactly one update of that map, or no change and the error
  the map prescribes.
\<close>

section \<open>The model\<close>

datatype node = File "u8 list" | Dir "(string \<times> node) list"

record TmpFs =
  root :: node

definition tmp_new :: TmpFs where
  "tmp_new = \<lparr>root = Dir []\<rparr>"

text \<open>\<open>split_parent\<close>: all segments but the last, and the last.\<close>

definition split_parent :: "string \<Rightarrow> (string list \<times> string) option" where
  "split_parent rel =
     (let segs = segments rel in if segs = [] then None else Some (butlast segs, last segs))"

fun walk :: "node \<Rightarrow> string list \<Rightarrow> (FsError, node) outcome" where
  "walk cur [] = Ok cur"
| "walk (File b) (s # segs) = Err NotADir"
| "walk (Dir d) (s # segs) =
     (case bt_get d s of None \<Rightarrow> Err NotFound | Some child \<Rightarrow> walk child segs)"

text \<open>
  \<open>walk_mut\<close> and the change its caller makes through the reference it returns: the change
  \<open>f\<close> yields the outcome and the new node, which is put back where it was found.
\<close>

fun with_node ::
    "(node \<Rightarrow> (FsError, unit) outcome \<times> node) \<Rightarrow> node \<Rightarrow> string list \<Rightarrow> (FsError, unit) outcome \<times> node" where
  "with_node f cur [] = f cur"
| "with_node f (File b) (s # segs) = (Err NotADir, File b)"
| "with_node f (Dir d) (s # segs) =
     (case bt_get d s of
        None \<Rightarrow> (Err NotFound, Dir d)
      | Some child \<Rightarrow>
          (let (r, child') = with_node f child segs in (r, Dir (bt_insert s child' d))))"

definition tmp_read_file :: "TmpFs \<Rightarrow> string \<Rightarrow> (FsError, u8 list) outcome" where
  "tmp_read_file fs rel =
     (case walk (root fs) (segments rel) of
        Ok (File b) \<Rightarrow> Ok b
      | Ok (Dir _) \<Rightarrow> Err IsADir
      | Err e \<Rightarrow> Err e
      | Panic c \<Rightarrow> Panic c)"

definition tmp_list_dir :: "TmpFs \<Rightarrow> string \<Rightarrow> (FsError, string list) outcome" where
  "tmp_list_dir fs rel =
     (case walk (root fs) (segments rel) of
        Ok (Dir d) \<Rightarrow> Ok (bt_keys d)
      | Ok (File _) \<Rightarrow> Err NotADir
      | Err e \<Rightarrow> Err e
      | Panic c \<Rightarrow> Panic c)"

definition tmp_is_dir :: "TmpFs \<Rightarrow> string \<Rightarrow> bool" where
  "tmp_is_dir fs rel = (case walk (root fs) (segments rel) of Ok (Dir _) \<Rightarrow> True | _ \<Rightarrow> False)"

text \<open>The part every writing method starts with: split the path, walk to the parent directory.\<close>

definition on_dir ::
    "((string \<times> node) list \<Rightarrow> (FsError, unit) outcome \<times> (string \<times> node) list)
     \<Rightarrow> node \<Rightarrow> (FsError, unit) outcome \<times> node" where
  "on_dir f n =
     (case n of
        Dir d \<Rightarrow> (fst (f d), Dir (snd (f d)))
      | File b \<Rightarrow> (Err NotADir, File b))"

definition in_parent ::
    "(string \<Rightarrow> (string \<times> node) list \<Rightarrow> (FsError, unit) outcome \<times> (string \<times> node) list)
     \<Rightarrow> TmpFs \<Rightarrow> string \<Rightarrow> (FsError, unit) outcome \<times> TmpFs" where
  "in_parent f fs rel =
     (case split_parent rel of
        None \<Rightarrow> (Err Io, fs)
      | Some (parent, name) \<Rightarrow>
          (let (r, root') = with_node (on_dir (f name)) (root fs) parent
           in (r, fs\<lparr>root := root'\<rparr>)))"

definition tmp_create_file :: "TmpFs \<Rightarrow> string \<Rightarrow> (FsError, unit) outcome \<times> TmpFs" where
  "tmp_create_file fs rel = in_parent (\<lambda>name dir.
     (case bt_get dir name of
        Some (Dir _) \<Rightarrow> (Err IsADir, dir)
      | _ \<Rightarrow> (Ok (), bt_insert name (File []) dir))) fs rel"

definition tmp_write_file :: "TmpFs \<Rightarrow> string \<Rightarrow> u8 list \<Rightarrow> (FsError, unit) outcome \<times> TmpFs" where
  "tmp_write_file fs rel data = in_parent (\<lambda>name dir.
     (case bt_get dir name of
        Some (Dir _) \<Rightarrow> (Err IsADir, dir)
      | _ \<Rightarrow> (Ok (), bt_insert name (File data) dir))) fs rel"

definition tmp_append_file :: "TmpFs \<Rightarrow> string \<Rightarrow> u8 list \<Rightarrow> (FsError, unit) outcome \<times> TmpFs" where
  "tmp_append_file fs rel data = in_parent (\<lambda>name dir.
     (case bt_get dir name of
        Some (File b) \<Rightarrow> (Ok (), bt_insert name (File (b @ data)) dir)
      | Some (Dir _) \<Rightarrow> (Err IsADir, dir)
      | None \<Rightarrow> (Ok (), bt_insert name (File data) dir))) fs rel"

definition tmp_create_dir :: "TmpFs \<Rightarrow> string \<Rightarrow> (FsError, unit) outcome \<times> TmpFs" where
  "tmp_create_dir fs rel = in_parent (\<lambda>name dir.
     (if bt_get dir name \<noteq> None then (Err Io, dir)
      else (Ok (), bt_insert name (Dir []) dir))) fs rel"

definition tmp_remove :: "TmpFs \<Rightarrow> string \<Rightarrow> (FsError, unit) outcome \<times> TmpFs" where
  "tmp_remove fs rel = in_parent (\<lambda>name dir.
     (case bt_get dir name of
        None \<Rightarrow> (Err NotFound, dir)
      | Some (Dir child) \<Rightarrow>
          (if child \<noteq> [] then (Err Io, dir) else (Ok (), bt_remove name dir))
      | Some (File _) \<Rightarrow> (Ok (), bt_remove name dir))) fs rel"

section \<open>The map a tree stands for\<close>

fun kind :: "node \<Rightarrow> entry" where
  "kind (File b) = FileE b"
| "kind (Dir d) = DirE"

definition view :: "node \<Rightarrow> fs_map" where
  "view n p = (case walk n p of Ok m \<Rightarrow> Some (kind m) | _ \<Rightarrow> None)"

lemma walk_not_Panic [simp]: "walk n p \<noteq> Panic c"
  by (induction n p rule: walk.induct) (auto split: option.splits)

lemma view_Nil [simp]: "view n [] = Some (kind n)"
  by (simp add: view_def)

lemma view_File [simp]: "view (File b) (s # p) = None"
  by (simp add: view_def)

lemma view_Dir [simp]:
  "view (Dir d) (s # p) = (case bt_get d s of None \<Rightarrow> None | Some c \<Rightarrow> view c p)"
  by (simp add: view_def split: option.split)

lemma walk_append: "walk n p = Ok m \<Longrightarrow> walk n (p @ q) = walk m q"
  by (induction n p rule: walk.induct) (auto split: option.splits)

lemma view_append: "walk n p = Ok m \<Longrightarrow> view n (p @ q) = view m q"
  by (simp add: view_def walk_append)

lemma dir_error_walk:
  "walk n pre = Ok m \<Longrightarrow> dir_error (view n) pre p =
     (case walk m p of Ok (Dir _) \<Rightarrow> None | Ok (File _) \<Rightarrow> Some NotADir | Err e \<Rightarrow> Some e | Panic _ \<Rightarrow> None)"
proof (induction p arbitrary: pre m)
  case Nil
  then show ?case by (cases m) (simp_all add: view_def)
next
  case (Cons s p)
  have pre: "view n pre = Some (kind m)" using Cons.prems by (simp add: view_def)
  show ?case
  proof (cases m)
    case (File b)
    with pre show ?thesis by simp
  next
    case (Dir d)
    show ?thesis
    proof (cases "bt_get d s")
      case None
      have "view n (pre @ [s]) = None"
        using view_append [OF Cons.prems, of "[s]"] Dir None by simp
      with pre Dir None show ?thesis by (cases p) simp_all
    next
      case (Some c)
      have "walk n (pre @ [s]) = Ok c" using walk_append [OF Cons.prems, of "[s]"] Dir Some by simp
      from Cons.IH [OF this] pre Dir Some show ?thesis by simp
    qed
  qed
qed

text \<open>Replacing the subtree at a path replaces exactly the part of the map below it.\<close>

definition graft :: "fs_map \<Rightarrow> string list \<Rightarrow> fs_map \<Rightarrow> fs_map" where
  "graft v p w q = (if take (length p) q = p then w (drop (length p) q) else v q)"

lemma graft_Nil [simp]: "graft v [] w = w"
  by (simp add: graft_def fun_eq_iff)

lemma with_node_Ok:
  assumes "walk n p = Ok m" "f m = (r, m')"
  shows "fst (with_node f n p) = r \<and> view (snd (with_node f n p)) = graft (view n) p (view m')"
  using assms
proof (induction n p rule: walk.induct)
  case (3 d s segs)
  then obtain c where c: "bt_get d s = Some c" "walk c segs = Ok m"
    by (auto split: option.splits)
  obtain r1 c' where run: "with_node f c segs = (r1, c')" by fastforce
  from "3.IH" [OF c(1) c(2)] "3.prems" run
  have "r1 = r" and view: "view c' = graft (view c) segs (view m')" by auto
  have "view (Dir (bt_insert s c' d)) q = graft (view (Dir d)) (s # segs) (view m') q" for q
  proof (cases q)
    case Nil
    then show ?thesis by (simp add: graft_def)
  next
    case (Cons t q')
    then show ?thesis by (cases "t = s") (auto simp: graft_def view c)
  qed
  with \<open>r1 = r\<close> show ?case by (simp add: c run fun_eq_iff)
qed auto

lemma with_node_Err:
  assumes "walk n p = Err e"
  shows "fst (with_node f n p) = Err e \<and> view (snd (with_node f n p)) = view n"
  using assms
proof (induction n p rule: walk.induct)
  case (3 d s segs)
  show ?case
  proof (cases "bt_get d s")
    case None
    with "3.prems" show ?thesis by simp
  next
    case (Some c)
    obtain r1 c' where run: "with_node f c segs = (r1, c')" by fastforce
    from "3.IH" [OF Some] "3.prems" Some run have "r1 = Err e" and view: "view c' = view c" by auto
    have "view (Dir (bt_insert s c' d)) q = view (Dir d) q" for q
    proof (cases q)
      case (Cons t q')
      then show ?thesis by (cases "t = s") (auto simp: view Some)
    qed simp
    with \<open>r1 = Err e\<close> show ?thesis by (simp add: Some run fun_eq_iff)
  qed
qed auto

definition abs_run :: "(FsError, unit) outcome \<times> TmpFs \<Rightarrow> (FsError, unit) outcome \<times> fs_map" where
  "abs_run x = (fst x, view (root (snd x)))"

text \<open>Every change of a parent directory, seen through the map.\<close>

lemma in_parent_refines:
  assumes step: "\<And>p name d. \<lbrakk>segments rel = p @ [name]; walk (root fs) p = Ok (Dir d)\<rbrakk> \<Longrightarrow>
      g (view (root fs)) = (fst (f name d), graft (view (root fs)) p (view (Dir (snd (f name d)))))"
  shows "abs_run (in_parent f fs rel) = spec_in_parent g (segments rel) (view (root fs))"
proof (cases "segments rel = []")
  case True
  then show ?thesis by (simp add: in_parent_def split_parent_def spec_in_parent_def abs_run_def)
next
  case False
  then obtain p name where segs: "segments rel = p @ [name]" by (metis rev_exhaust)
  have sp: "split_parent rel = Some (p, name)" by (simp add: split_parent_def segs)
  let ?F = "on_dir (f name)"
  have run: "abs_run (in_parent f fs rel) =
      (fst (with_node ?F (root fs) p), view (snd (with_node ?F (root fs) p)))"
    by (simp add: in_parent_def sp abs_run_def split: prod.split)
  have err: "dir_error (view (root fs)) [] p =
     (case walk (root fs) p of Ok (Dir _) \<Rightarrow> None | Ok (File _) \<Rightarrow> Some NotADir | Err e \<Rightarrow> Some e
        | Panic _ \<Rightarrow> None)"
    by (rule dir_error_walk) simp
  show ?thesis
  proof (cases "walk (root fs) p")
    case (Err e)
    with with_node_Err [OF Err, of ?F] run err show ?thesis
      by (simp add: spec_in_parent_def segs)
  next
    case (Ok m)
    show ?thesis
    proof (cases m)
      case (File b)
      have "graft (view (root fs)) p (view (File b)) = view (root fs)"
        using view_append [OF Ok] by (auto simp: graft_def fun_eq_iff File)
          (metis append_take_drop_id)
      with with_node_Ok [OF Ok, of ?F] run err Ok File show ?thesis
        by (simp add: spec_in_parent_def segs on_dir_def)
    next
      case (Dir d)
      with with_node_Ok [OF Ok, of ?F "fst (f name d)" "Dir (snd (f name d))"] run err Ok
        step [OF segs] show ?thesis
        by (simp add: spec_in_parent_def segs on_dir_def)
    qed
  qed simp
qed

section \<open>Refinement of every operation\<close>

lemma graft_update:
  assumes "walk n p = Ok (Dir d)"
    and "\<And>q. q \<noteq> [] \<Longrightarrow> view (Dir d') q = (if q = [name] then e else view (Dir d) q)"
  shows "graft (view n) p (view (Dir d')) = (view n)(p @ [name] := e)"
proof
  fix q
  show "graft (view n) p (view (Dir d')) q = ((view n)(p @ [name] := e)) q"
  proof (cases "take (length p) q = p")
    case True
    then obtain q' where q: "q = p @ q'" by (metis append_take_drop_id)
    have "view (Dir d') q' = (if q' = [name] then e else view (Dir d) q')"
      using assms(2) by (cases "q' = []") simp_all
    then show ?thesis using view_append [OF assms(1), of q'] by (simp add: graft_def q)
  next
    case False
    then show ?thesis by (auto simp: graft_def)
  qed
qed

lemma graft_same:
  assumes "walk n p = Ok (Dir d)"
  shows "graft (view n) p (view (Dir d)) = view n"
  using view_append [OF assms] by (auto simp: graft_def fun_eq_iff) (metis append_take_drop_id)

text \<open>The two changes of a directory that the operations make: bind a leaf, drop a leaf.\<close>

definition leaf :: "node \<Rightarrow> bool" where
  "leaf c \<longleftrightarrow> c = Dir [] \<or> (\<exists>b. c = File b)"

lemma leaf_view: "leaf c \<Longrightarrow> q \<noteq> [] \<Longrightarrow> view c q = None"
  by (cases q) (auto simp: leaf_def)

lemma graft_insert:
  assumes "walk n p = Ok (Dir d)" "leaf c" "\<forall>c0. bt_get d name = Some c0 \<longrightarrow> leaf c0"
  shows "graft (view n) p (view (Dir (bt_insert name c d))) = (view n)(p @ [name] \<mapsto> kind c)"
proof (rule graft_update [OF assms(1)])
  fix q :: "string list" assume "q \<noteq> []"
  then obtain s q' where q: "q = s # q'" by (cases q) auto
  show "view (Dir (bt_insert name c d)) q = (if q = [name] then Some (kind c) else view (Dir d) q)"
    using assms(2,3) leaf_view by (cases "q' = []") (auto simp: q bt.get_insert split: option.splits)
qed

lemma graft_remove:
  assumes "walk n p = Ok (Dir d)" "\<forall>c0. bt_get d name = Some c0 \<longrightarrow> leaf c0"
  shows "graft (view n) p (view (Dir (bt_remove name d))) = (view n)(p @ [name] := None)"
proof (rule graft_update [OF assms(1)])
  fix q :: "string list" assume "q \<noteq> []"
  then obtain s q' where q: "q = s # q'" by (cases q) auto
  show "view (Dir (bt_remove name d)) q = (if q = [name] then None else view (Dir d) q)"
    using assms(2) leaf_view by (cases "q' = []") (auto simp: q bt.get_remove split: option.splits)
qed

lemma view_child: "walk n p = Ok (Dir d) \<Longrightarrow> view n (p @ [name]) = map_option kind (bt_get d name)"
  by (simp add: view_append split: option.split)

lemma has_children_child:
  assumes "walk n p = Ok (Dir d)" "bt_get d name = Some (Dir c)"
  shows "has_children (view n) (p @ [name]) \<longleftrightarrow> c \<noteq> []"
proof -
  have w: "walk n (p @ [name]) = Ok (Dir c)" by (simp add: walk_append [OF assms(1)] assms(2))
  have "has_children (view n) (p @ [name]) \<longleftrightarrow> (\<exists>s. bt_get c s \<noteq> None)"
    unfolding has_children_def view_child [OF w] by simp
  also have "\<dots> \<longleftrightarrow> c \<noteq> []"
    by (cases c) (auto simp: bt_get_def)
  finally show ?thesis .
qed

lemma leaf_simps [simp]: "leaf (File b)" "leaf (Dir [])"
  by (simp_all add: leaf_def)

lemma tmp_write_file_view:
  "abs_run (tmp_write_file fs rel data) = spec_write (segments rel) data (view (root fs))"
  unfolding tmp_write_file_def spec_write_def
  by (rule in_parent_refines)
    (auto simp: view_child graft_same graft_insert split: option.split node.split)

lemma tmp_append_file_view:
  "abs_run (tmp_append_file fs rel data) = spec_append (segments rel) data (view (root fs))"
  unfolding tmp_append_file_def spec_append_def
  by (rule in_parent_refines)
    (auto simp: view_child graft_same graft_insert split: option.split node.split)

lemma tmp_remove_view:
  "abs_run (tmp_remove fs rel) = spec_remove (segments rel) (view (root fs))"
  unfolding tmp_remove_def spec_remove_def
  by (rule in_parent_refines)
    (auto simp: view_child graft_same graft_remove has_children_child split: option.split node.split)

text \<open>
  C19: \<open>write_file\<close> on a tmpfs is exactly one update of the path map: it binds the path to a file
  with the given bytes and changes nothing else, or it changes nothing and reports the error the
  map prescribes (\<open>Io\<close> for the root, \<open>NotFound\<close> or \<open>NotADir\<close> for a bad parent, \<open>IsADir\<close> for a
  directory).
\<close>

theorem tmp_write_file_refines:
  "abs_run (tmp_write_file fs rel data) = spec_write (segments rel) data (view (root fs))"
  by (rule tmp_write_file_view)

text \<open>
  \<open>append_file\<close> on a tmpfs extends the file at the path by the given bytes, creates it when it
  is absent, and changes no other path; a directory is refused with \<open>IsADir\<close>.
\<close>

theorem tmp_append_file_refines:
  "abs_run (tmp_append_file fs rel data) = spec_append (segments rel) data (view (root fs))"
  by (rule tmp_append_file_view)

lemma tmp_create_file_view:
  "abs_run (tmp_create_file fs rel) = spec_write (segments rel) [] (view (root fs))"
  unfolding tmp_create_file_def spec_write_def
  by (rule in_parent_refines)
    (auto simp: view_child graft_same graft_insert split: option.split node.split)

lemma tmp_create_dir_view:
  "abs_run (tmp_create_dir fs rel) = spec_create_dir (segments rel) (view (root fs))"
  unfolding tmp_create_dir_def spec_create_dir_def
  by (rule in_parent_refines)
    (auto simp: view_child graft_same graft_insert split: option.split node.split)

text \<open>
  C20: \<open>remove\<close> on a tmpfs unbinds exactly the given path, and only a file or an empty directory
  can be removed: a missing path is \<open>NotFound\<close>, a directory with children is refused with \<open>Io\<close>
  and left as it was.
\<close>

theorem tmp_remove_refines:
  "abs_run (tmp_remove fs rel) = spec_remove (segments rel) (view (root fs))"
  by (rule tmp_remove_view)

section \<open>Reading, and the well-formedness of the tree\<close>

lemma tmp_read_file_view:
  "tmp_read_file fs rel = Ok b \<longleftrightarrow> view (root fs) (segments rel) = Some (FileE b)"
  by (auto simp: tmp_read_file_def view_def split: outcome.splits node.splits)

lemma tmp_is_dir_view: "tmp_is_dir fs rel \<longleftrightarrow> view (root fs) (segments rel) = Some DirE"
  by (auto simp: tmp_is_dir_def view_def split: outcome.splits node.splits)

lemma spec_write_Ok: "spec_write p data v = (Ok (), v') \<Longrightarrow> v' = v(p \<mapsto> FileE data)"
  by (auto simp: spec_write_def spec_in_parent_def split: if_splits option.splits)

text \<open>
  What \<open>write_file\<close> stored is what \<open>read_file\<close> returns, and every path with other segments
  reads as it did before.
\<close>

theorem tmp_read_after_write:
  assumes "tmp_write_file fs rel data = (Ok (), fs')"
  shows "tmp_read_file fs' rel = Ok data \<and>
    (\<forall>rel' b. segments rel' \<noteq> segments rel \<longrightarrow>
       (tmp_read_file fs' rel' = Ok b \<longleftrightarrow> tmp_read_file fs rel' = Ok b))"
proof -
  have "spec_write (segments rel) data (view (root fs)) = (Ok (), view (root fs'))"
    using tmp_write_file_view [of fs rel data] assms by (simp add: abs_run_def)
  from spec_write_Ok [OF this] show ?thesis
    by (simp add: tmp_read_file_view)
qed

theorem tmp_read_after_write_witness:
  "\<exists>fs'. tmp_write_file tmp_new ''/note'' [106, 111] = (Ok (), fs')
     \<and> tmp_read_file fs' ''/note'' = Ok [106, 111]
     \<and> tmp_read_file fs' ''/other'' \<noteq> Ok [1]"
proof -
  obtain fs' where run: "tmp_write_file tmp_new ''/note'' [106, 111] = (Ok (), fs')"
    by (simp add: tmp_write_file_def tmp_new_def in_parent_def split_parent_def segments_def on_dir_def)
  have "tmp_read_file tmp_new ''/other'' \<noteq> Ok [1]"
    by (simp add: tmp_read_file_def tmp_new_def segments_def)
  then show ?thesis
    using run tmp_read_after_write [OF run] by (simp add: segments_def)
qed

text \<open>Directories are sorted maps, and every name is a path segment.\<close>

fun node_ok :: "node \<Rightarrow> bool" where
  "node_ok (File b) = True"
| "node_ok (Dir d) =
     (bt_ok d \<and> list_all (\<lambda>(s, c). s \<noteq> [] \<and> slash \<notin> set s \<and> node_ok c) d)"

lemma node_ok_child: "node_ok (Dir d) \<Longrightarrow> bt_get d s = Some c \<Longrightarrow> node_ok c"
  by (auto simp: list_all_iff dest: bt_get_mem)

lemma node_ok_insert:
  "node_ok (Dir d) \<Longrightarrow> node_ok c \<Longrightarrow> s \<noteq> [] \<Longrightarrow> slash \<notin> set s \<Longrightarrow> node_ok (Dir (bt_insert s c d))"
  by (auto simp: list_all_iff bt_ok_insert dest: bt_insert_mem)

lemma node_ok_remove: "node_ok (Dir d) \<Longrightarrow> node_ok (Dir (bt_remove s d))"
  by (auto simp: list_all_iff bt_ok_remove dest: bt_remove_mem)

lemma node_ok_walk: "walk n p = Ok m \<Longrightarrow> node_ok n \<Longrightarrow> node_ok m"
proof (induction n p rule: walk.induct)
  case (3 d s segs)
  then obtain c where "bt_get d s = Some c" "walk c segs = Ok m" by (auto split: option.splits)
  with 3 show ?case using node_ok_child by blast
qed auto

lemma node_ok_with_node:
  assumes "node_ok n" and f: "\<And>m. node_ok m \<Longrightarrow> node_ok (snd (f m))"
  shows "node_ok (snd (with_node f n p))"
  using assms(1)
proof (induction n p rule: walk.induct)
  case (3 d s segs)
  show ?case
  proof (cases "bt_get d s")
    case None
    with "3.prems" show ?thesis by simp
  next
    case (Some c)
    have "s \<noteq> [] \<and> slash \<notin> set s"
      using "3.prems" bt_get_mem [OF Some] by (auto simp: list_all_iff)
    moreover have "node_ok (snd (with_node f c segs))"
      using "3.IH" [OF Some] node_ok_child [OF "3.prems" Some] by simp
    ultimately show ?thesis
      using "3.prems" Some node_ok_insert
      by (simp add: case_prod_unfold Let_def del: node_ok.simps)
  qed
qed (use f in auto)

lemma node_ok_in_parent:
  assumes "node_ok (root fs)"
    and f: "\<And>name d. \<lbrakk>node_ok (Dir d); name \<noteq> []; slash \<notin> set name\<rbrakk> \<Longrightarrow> node_ok (Dir (snd (f name d)))"
  shows "node_ok (root (snd (in_parent f fs rel)))"
proof (cases "split_parent rel")
  case None
  with assms(1) show ?thesis by (simp add: in_parent_def)
next
  case (Some pn)
  then obtain p name where sp: "split_parent rel = Some (p, name)" by (cases pn) auto
  then have "name \<in> set (segments rel)" by (auto simp: split_parent_def Let_def split: if_splits)
  then have "name \<noteq> [] \<and> slash \<notin> set name" by (rule segments_set)
  then have "node_ok (snd (on_dir (f name) m))" if "node_ok m" for m
    using that f by (cases m) (simp_all add: on_dir_def del: node_ok.simps(2))
  from node_ok_with_node [OF assms(1) this] show ?thesis
    by (simp add: in_parent_def sp case_prod_unfold Let_def)
qed

text \<open>The five changes of a tmpfs, as one type of commands.\<close>

datatype tmp_op =
    TCreateFile string | TWriteFile string "u8 list" | TAppendFile string "u8 list"
  | TCreateDir string | TRemove string

fun tmp_step :: "tmp_op \<Rightarrow> TmpFs \<Rightarrow> (FsError, unit) outcome \<times> TmpFs" where
  "tmp_step (TCreateFile rel) fs = tmp_create_file fs rel"
| "tmp_step (TWriteFile rel data) fs = tmp_write_file fs rel data"
| "tmp_step (TAppendFile rel data) fs = tmp_append_file fs rel data"
| "tmp_step (TCreateDir rel) fs = tmp_create_dir fs rel"
| "tmp_step (TRemove rel) fs = tmp_remove fs rel"

lemma tmp_step_node_ok: "node_ok (root fs) \<Longrightarrow> node_ok (root (snd (tmp_step op fs)))"
  by (cases op)
    (auto simp: tmp_create_file_def tmp_write_file_def tmp_append_file_def tmp_create_dir_def
      tmp_remove_def simp del: node_ok.simps(2)
      intro!: node_ok_in_parent node_ok_insert node_ok_remove split: option.split node.split,
     simp_all add: bt_ok_def)

text \<open>
  After any sequence of operations on a fresh tmpfs, \<open>list_dir\<close> on a directory returns its
  names in strictly increasing order (so without duplicates) and they are exactly the names that
  resolve below it.
\<close>

theorem tmp_list_dir_sorted_complete:
  assumes "fs = fold (\<lambda>op s. snd (tmp_step op s)) ops tmp_new" and "tmp_list_dir fs rel = Ok names"
  shows "sorted_wrt (<) names \<and> set names = {s. view (root fs) (segments rel @ [s]) \<noteq> None}"
proof -
  have "node_ok (root s) \<Longrightarrow> node_ok (root (fold (\<lambda>op s. snd (tmp_step op s)) ops s))" for s
    by (induction ops arbitrary: s) (simp_all add: tmp_step_node_ok)
  then have "node_ok (root fs)" by (simp add: assms(1) tmp_new_def bt_ok_def)
  moreover from assms(2) obtain d where w: "walk (root fs) (segments rel) = Ok (Dir d)"
    and names: "names = bt_keys d"
    by (auto simp: tmp_list_dir_def split: outcome.splits node.splits)
  ultimately have "bt_ok d" using node_ok_walk [OF w] by simp
  then show ?thesis
    by (auto simp: names bt.sorted_keys bt.set_keys view_child [OF w])
qed

theorem tmp_list_dir_sorted_complete_witness:
  "\<exists>fs. fs = fold (\<lambda>op s. snd (tmp_step op s)) [TCreateDir ''/b'', TCreateFile ''/a''] tmp_new
     \<and> tmp_list_dir fs ''/'' = Ok [''a'', ''b''] \<and> sorted_wrt (<) [''a'', ''b'']
     \<and> set [''a'', ''b''] = {s. view (root fs) (segments ''/'' @ [s]) \<noteq> None}"
proof -
  let ?fs = "fold (\<lambda>op s. snd (tmp_step op s)) [TCreateDir ''/b'', TCreateFile ''/a''] tmp_new"
  have "tmp_list_dir ?fs ''/'' = Ok [''a'', ''b'']" by code_simp
  with tmp_list_dir_sorted_complete [OF refl this] show ?thesis by blast
qed

end
