(* ===== verification/RamFs.thy ===== *)
theory RamFs
  imports FsTypes BTree
begin

text \<open>
  The read-only seed file system of \<^verbatim>\<open>kernel/src/fs/ram.rs\<close>. A \<open>Special\<close> node holds a function
  that is called on every read; the only one, \<open>uptime_text\<close>, reads the timer-tick counter of
  \<^verbatim>\<open>interrupts.rs\<close>, so a special function takes the counter's value. \<open>RamFs\<close> implements the
  read methods of the trait only.
\<close>

section \<open>The model\<close>

datatype ram_node = RFile "u8 list" | RSpecial "u64 \<Rightarrow> string" | RDir "(string \<times> ram_node) list"

record RamFs =
  ram_root :: ram_node

fun ram_walk :: "ram_node \<Rightarrow> string list \<Rightarrow> (FsError, ram_node) outcome" where
  "ram_walk node [] = Ok node"
| "ram_walk node (seg # segs) =
     (case node of
        RDir entries \<Rightarrow>
          (case bt_get entries seg of None \<Rightarrow> Err NotFound | Some n \<Rightarrow> ram_walk n segs)
      | _ \<Rightarrow> Err NotADir)"

definition ram_lookup :: "RamFs \<Rightarrow> string \<Rightarrow> (FsError, ram_node) outcome" where
  "ram_lookup fs path = ram_walk (ram_root fs) (segments path)"

definition ram_read_file :: "u64 \<Rightarrow> RamFs \<Rightarrow> string \<Rightarrow> (FsError, u8 list) outcome" where
  "ram_read_file ticks fs path =
     (case ram_lookup fs path of
        Ok (RFile b) \<Rightarrow> Ok b
      | Ok (RSpecial f) \<Rightarrow> Ok (as_bytes (f ticks))
      | Ok (RDir _) \<Rightarrow> Err IsADir
      | Err e \<Rightarrow> Err e
      | Panic c \<Rightarrow> Panic c)"

definition ram_list_dir :: "RamFs \<Rightarrow> string \<Rightarrow> (FsError, string list) outcome" where
  "ram_list_dir fs path =
     (case ram_lookup fs path of
        Ok (RDir d) \<Rightarrow> Ok (bt_keys d)
      | Ok _ \<Rightarrow> Err NotADir
      | Err e \<Rightarrow> Err e
      | Panic c \<Rightarrow> Panic c)"

definition ram_is_dir :: "RamFs \<Rightarrow> string \<Rightarrow> bool" where
  "ram_is_dir fs path = (case ram_lookup fs path of Ok (RDir _) \<Rightarrow> True | _ \<Rightarrow> False)"

definition uptime_text :: "u64 \<Rightarrow> string" where
  "uptime_text ticks = show_nat (unat ticks) @ '' ticks'' @ [CHR 0x0A]"

definition ram_seed :: RamFs where
  "ram_seed =
     (let root = bt_insert ''welcome.txt''
            (RFile (as_bytes (''Welcome to Willo!'' @ [CHR 0x0A] @ ''Type '' @ [CHR 0x60] @ ''help''
               @ [CHR 0x60] @ ''.'' @ [CHR 0x0A]))) [];
          etc = bt_insert ''version'' (RFile (as_bytes (''willo 0.9 (M9)'' @ [CHR 0x0A]))) [];
          etc = bt_insert ''motd''
            (RFile (as_bytes (''the kernel that fits in your head'' @ [CHR 0x0A]))) etc;
          root = bt_insert ''etc'' (RDir etc) root;
          proc_dir = bt_insert ''uptime'' (RSpecial uptime_text) [];
          root = bt_insert ''proc'' (RDir proc_dir) root;
          root = bt_insert ''bin'' (RDir []) root
      in \<lparr>ram_root = RDir root\<rparr>)"

section \<open>Properties\<close>

lemma ram_walk_not_Panic [simp]: "ram_walk n p \<noteq> Panic c"
  by (induction n p rule: ram_walk.induct) (auto split: ram_node.splits option.splits)

lemma ram_walk_not_IsADir [simp]: "ram_walk n p \<noteq> Err IsADir"
  by (induction n p rule: ram_walk.induct) (auto split: ram_node.splits option.splits)

lemma ram_lookup_simps [simp]: "ram_lookup fs p \<noteq> Panic c" "ram_lookup fs p \<noteq> Err IsADir"
  by (simp_all add: ram_lookup_def)

text \<open>
  The three read methods of the seed file system agree on every path: a path is a directory
  exactly when it can be listed and exactly when reading it reports \<open>IsADir\<close>, a path that exists
  and is no directory can be read, and all three report the same error for a path that does not
  resolve.
\<close>

theorem ram_methods_agree:
  "case ram_lookup fs p of
     Ok (RDir d) \<Rightarrow> ram_is_dir fs p \<and> ram_list_dir fs p = Ok (bt_keys d) \<and> ram_read_file t fs p = Err IsADir
   | Ok n \<Rightarrow> \<not> ram_is_dir fs p \<and> ram_list_dir fs p = Err NotADir \<and> (\<exists>b. ram_read_file t fs p = Ok b)
   | Err e \<Rightarrow> \<not> ram_is_dir fs p \<and> ram_list_dir fs p = Err e \<and> ram_read_file t fs p = Err e
   | Panic _ \<Rightarrow> False"
  by (auto simp: ram_is_dir_def ram_list_dir_def ram_read_file_def split: outcome.split ram_node.split)

text \<open>
  The seed tree holds exactly the files the fallback promises: the root lists \<open>bin\<close>, \<open>etc\<close>,
  \<open>proc\<close> and \<open>welcome.txt\<close>, \<open>/etc\<close> lists \<open>motd\<close> and \<open>version\<close>, \<open>/bin\<close> is empty, and
  \<open>/proc/uptime\<close> reads the current tick count at each call.
\<close>

theorem ram_seed_contents:
  "ram_list_dir ram_seed ''/'' = Ok [''bin'', ''etc'', ''proc'', ''welcome.txt'']
   \<and> ram_list_dir ram_seed ''/etc'' = Ok [''motd'', ''version'']
   \<and> ram_list_dir ram_seed ''/bin'' = Ok []
   \<and> ram_read_file t ram_seed ''/etc/version'' = Ok (as_bytes (''willo 0.9 (M9)'' @ [CHR 0x0A]))
   \<and> ram_read_file t ram_seed ''/proc/uptime'' = Ok (as_bytes (show_nat (unat t) @ '' ticks'' @ [CHR 0x0A]))
   \<and> ram_read_file t ram_seed ''/etc/motd/x'' = Err NotADir"
proof -
  have ls: "ram_list_dir ram_seed ''/'' = Ok [''bin'', ''etc'', ''proc'', ''welcome.txt'']"
    "ram_list_dir ram_seed ''/etc'' = Ok [''motd'', ''version'']"
    "ram_list_dir ram_seed ''/bin'' = Ok []" by code_simp+
  have v: "ram_lookup ram_seed ''/etc/version'' = Ok (RFile (as_bytes (''willo 0.9 (M9)'' @ [CHR 0x0A])))"
    and u: "ram_lookup ram_seed ''/proc/uptime'' = Ok (RSpecial uptime_text)"
    and m: "ram_lookup ram_seed ''/etc/motd/x'' = Err NotADir"
    by (simp_all add: ram_lookup_def segments_def ram_seed_def Let_def bt_get_def)
  show ?thesis
    using ls by (simp add: ram_read_file_def v u m uptime_text_def)
qed

end
