(* ===== verification/FatName.thy ===== *)
theory FatName
  imports FsTypes
begin

unbundle bit_operations_syntax

text \<open>
  The 32-byte short-name directory entry of \<^verbatim>\<open>kernel/src/fs/fat.rs\<close>: the encoder
  \<open>write_short_entry\<close> with its helper \<open>HeaplessUpper\<close>, the decoder \<open>decode_short_name\<close>, and
  \<open>split_parent\<close>. The main lemma says which names survive the round trip through an entry: the
  lower-case 8.3 names.
\<close>

section \<open>Constants\<close>

definition ATTR_READ_ONLY :: u8 where "ATTR_READ_ONLY = 0x01"
definition ATTR_HIDDEN :: u8 where "ATTR_HIDDEN = 0x02"
definition ATTR_SYSTEM :: u8 where "ATTR_SYSTEM = 0x04"
definition ATTR_VOLUME_ID :: u8 where "ATTR_VOLUME_ID = 0x08"
definition ATTR_DIRECTORY :: u8 where "ATTR_DIRECTORY = 0x10"
definition ATTR_LONG_NAME :: u8 where
  "ATTR_LONG_NAME = ATTR_READ_ONLY OR ATTR_HIDDEN OR ATTR_SYSTEM OR ATTR_VOLUME_ID"

lemmas attr_defs = ATTR_READ_ONLY_def ATTR_HIDDEN_def ATTR_SYSTEM_def ATTR_VOLUME_ID_def
  ATTR_DIRECTORY_def ATTR_LONG_NAME_def

section \<open>Encoding\<close>

record HeaplessUpper =
  hu_bytes :: "u8 list"
  hu_len :: nat

text \<open>\<open>HeaplessUpper::from\<close>: at most eleven upper-cased bytes in a zeroed array.\<close>

definition heapless_upper :: "string \<Rightarrow> HeaplessUpper" where
  "heapless_upper s =
     (let bs = map to_ascii_uppercase (take 11 (as_bytes s))
      in \<lparr>hu_bytes = bs @ replicate (11 - length bs) 0, hu_len = length bs\<rparr>)"

text \<open>\<open>for i in 0..n { slot[k + i] = if i < h.len { h.bytes[i] } else { b' ' } }\<close>\<close>

definition padded_field :: "nat \<Rightarrow> HeaplessUpper \<Rightarrow> u8 list" where
  "padded_field n h = map (\<lambda>i. if i < hu_len h then hu_bytes h ! i else 0x20) [0..<n]"

definition split_name :: "string \<Rightarrow> string \<times> string" where
  "split_name name =
     (if name = ''.'' then (''.'', [])
      else if name = ''..'' then (''..'', [])
      else (case rfind (CHR ''.'') name of
              Some i \<Rightarrow> (take i name, drop (Suc i) name)
            | None \<Rightarrow> (name, [])))"

text \<open>
  The 32 bytes \<open>write_short_entry\<close> leaves in its slot: the slot is zeroed, the name fields are
  written, \<open>.\<close> and \<open>..\<close> get their literal form, then attributes, cluster and size.
\<close>

definition write_short_entry :: "string \<Rightarrow> u8 \<Rightarrow> u32 \<Rightarrow> u32 \<Rightarrow> u8 list" where
  "write_short_entry name attrs cluster sz =
     (let (basename, ext) = split_name name;
          names = padded_field 8 (heapless_upper basename) @ padded_field 3 (heapless_upper ext);
          names = (if name = ''.'' then 0x2E # replicate 10 0x20
                   else if name = ''..'' then 0x2E # 0x2E # replicate 9 0x20
                   else names);
          cluster_lo = ucast (cluster AND 0xFFFF) :: u16;
          cluster_hi = ucast (drop_bit 16 cluster AND 0xFFFF) :: u16
      in names @ [attrs] @ replicate 8 0 @ u16_to_le_bytes cluster_hi @ replicate 4 0
         @ u16_to_le_bytes cluster_lo @ u32_to_le_bytes sz)"

section \<open>Decoding\<close>

text \<open>\<open>String::push(b as char)\<close>: a byte above 127 becomes a two-byte UTF-8 sequence.\<close>

definition push_byte_as_char :: "u8 \<Rightarrow> string" where
  "push_byte_as_char b =
     (if b < 0x80 then [char_of_byte b]
      else [char_of_byte (0xC0 OR drop_bit 6 b), char_of_byte (0x80 OR (b AND 0x3F))])"

definition decode_field :: "u8 list \<Rightarrow> string" where
  "decode_field raw = concat (map push_byte_as_char (takeWhile (\<lambda>b. b \<noteq> 0x20) raw))"

definition decode_short_name :: "u8 list \<Rightarrow> string" where
  "decode_short_name entry =
     (let name = decode_field (take 8 entry);
          ext = decode_field (take 3 (drop 8 entry));
          name = (if ext \<noteq> [] then name @ ''.'' @ ext else name)
      in map to_ascii_lowercase name)"

section \<open>Splitting off the parent\<close>

definition split_parent :: "string \<Rightarrow> (FsError, string \<times> string) outcome" where
  "split_parent path =
     (let trimmed = trim_end_matches slash path
      in if trimmed = [] then Err Io
         else (case rfind slash trimmed of
                 None \<Rightarrow> Err Io
               | Some idx \<Rightarrow>
                   (let parent = (if idx = 0 then ''/'' else take idx trimmed);
                        name = drop (Suc idx) trimmed
                    in if name = [] then Err Io else Ok (parent, name))))"

section \<open>Properties\<close>

lemma length_padded_field [simp]: "length (padded_field n h) = n"
  by (simp add: padded_field_def)

lemma length_write_short_entry [simp]: "length (write_short_entry name attrs cluster sz) = 32"
  by (simp add: write_short_entry_def Let_def split: prod.split)

lemma unat_to_ascii_uppercase:
  "unat (to_ascii_uppercase b) = (if 97 \<le> unat b \<and> unat b \<le> 122 then unat b - 32 else unat b)"
proof -
  have "unat (b - 32) = unat b - 32" if "97 \<le> unat b"
    using that unat_sub [of "32 :: u8" b] by (simp add: word_le_nat_alt)
  then show ?thesis by (simp add: to_ascii_uppercase_def word_le_nat_alt)
qed

lemma lower_upper [simp]:
  "to_ascii_lowercase (char_of_byte (to_ascii_uppercase (byte_of_char c))) = to_ascii_lowercase c"
proof -
  let ?n = "of_char c :: nat"
  have n: "?n < 256" by simp
  show ?thesis
  proof (cases "97 \<le> ?n \<and> ?n \<le> 122")
    case True
    then have "char_of_byte (to_ascii_uppercase (byte_of_char c)) = char_of (?n - 32)"
      by (simp add: char_of_byte_def unat_to_ascii_uppercase)
    with True n show ?thesis by (auto simp: to_ascii_lowercase_def)
  next
    case False
    then have "unat (to_ascii_uppercase (byte_of_char c)) = ?n"
      by (simp only: unat_to_ascii_uppercase unat_byte_of_char if_False)
    then show ?thesis by (simp add: char_of_byte_def)
  qed
qed

text \<open>The bytes an 8.3 field may hold here: printable ASCII other than the space.\<close>

definition name_char :: "char \<Rightarrow> bool" where
  "name_char c \<longleftrightarrow> 32 < (of_char c :: nat) \<and> of_char c < (127::nat)"

text \<open>
  A name that fits 8.3: not empty, not a dot entry, at most eight bytes before the last dot and
  at most three after it, and no trailing dot.
\<close>

definition fits_83 :: "string \<Rightarrow> bool" where
  "fits_83 name \<longleftrightarrow>
     name \<noteq> [] \<and> name \<noteq> ''.'' \<and> name \<noteq> ''..'' \<and> list_all name_char name \<and>
     (case rfind (CHR ''.'') name of
        None \<Rightarrow> length name \<le> 8
      | Some i \<Rightarrow> i \<le> 8 \<and> 0 < length name - Suc i \<and> length name - Suc i \<le> 3)"

lemma padded_field_fits:
  assumes "length s \<le> n" "n \<le> 11"
  shows "padded_field n (heapless_upper s) =
    map to_ascii_uppercase (as_bytes s) @ replicate (n - length s) 0x20"
proof (rule nth_equalityI)
  fix i assume "i < length (padded_field n (heapless_upper s))"
  then have "i < n" by simp
  then show "padded_field n (heapless_upper s) ! i =
      (map to_ascii_uppercase (as_bytes s) @ replicate (n - length s) 0x20) ! i"
    using assms by (simp add: padded_field_def heapless_upper_def Let_def nth_append)
qed (use assms in simp)

lemma upper_ne_space: "name_char c \<Longrightarrow> to_ascii_uppercase (byte_of_char c) \<noteq> 0x20"
proof
  assume c: "name_char c" and "to_ascii_uppercase (byte_of_char c) = 0x20"
  then have "unat (to_ascii_uppercase (byte_of_char c)) = 32" by simp
  with c show False by (auto simp: unat_to_ascii_uppercase name_char_def split: if_splits)
qed

lemma upper_ascii: "name_char c \<Longrightarrow> to_ascii_uppercase (byte_of_char c) < 0x80"
  by (auto simp: word_less_nat_alt unat_to_ascii_uppercase name_char_def)

lemma decode_padded:
  assumes "length s \<le> n" "n \<le> 11" "list_all name_char s"
  shows "map to_ascii_lowercase (decode_field (padded_field n (heapless_upper s))) =
    map to_ascii_lowercase s"
proof -
  have "takeWhile (\<lambda>b. b \<noteq> 0x20) (map to_ascii_uppercase (as_bytes s) @ replicate (n - length s) 0x20)
      = map to_ascii_uppercase (as_bytes s)"
    using assms(3) upper_ne_space by (subst takeWhile_append2) (auto simp: list_all_iff as_bytes_def)
  then have "decode_field (padded_field n (heapless_upper s)) =
      concat (map (push_byte_as_char \<circ> to_ascii_uppercase \<circ> byte_of_char) s)"
    using assms by (simp add: decode_field_def padded_field_fits as_bytes_def comp_assoc)
  also have "\<dots> = map (char_of_byte \<circ> to_ascii_uppercase \<circ> byte_of_char) s"
    using assms(3) by (induction s) (simp_all add: push_byte_as_char_def upper_ascii)
  finally show ?thesis by simp
qed

lemma fits_83_split:
  assumes "fits_83 name"
  shows "length (fst (split_name name)) \<le> 8" "length (snd (split_name name)) \<le> 3"
    "list_all name_char (fst (split_name name))" "list_all name_char (snd (split_name name))"
    "name = (if snd (split_name name) = [] then fst (split_name name)
             else fst (split_name name) @ ''.'' @ snd (split_name name))"
proof -
  have dots: "name \<noteq> ''.''" "name \<noteq> ''..''" and chars: "list_all name_char name"
    using assms by (auto simp: fits_83_def)
  have *: "length (fst (split_name name)) \<le> 8 \<and> length (snd (split_name name)) \<le> 3
    \<and> list_all name_char (fst (split_name name)) \<and> list_all name_char (snd (split_name name))
    \<and> name = (if snd (split_name name) = [] then fst (split_name name)
             else fst (split_name name) @ ''.'' @ snd (split_name name))"
  proof (cases "rfind (CHR ''.'') name")
    case None
    with assms dots chars show ?thesis by (simp add: split_name_def fits_83_def)
  next
    case (Some i)
    note i = rfind_SomeD [OF Some]
    have "name = take i name @ [CHR ''.''] @ drop (Suc i) name"
      using i by (metis append_Cons append_Nil id_take_nth_drop)
    with assms dots chars Some i show ?thesis
      by (auto simp: split_name_def fits_83_def list_all_iff dest: in_set_takeD in_set_dropD)
  qed
  then show "length (fst (split_name name)) \<le> 8" "length (snd (split_name name)) \<le> 3"
    "list_all name_char (fst (split_name name))" "list_all name_char (snd (split_name name))"
    "name = (if snd (split_name name) = [] then fst (split_name name)
             else fst (split_name name) @ ''.'' @ snd (split_name name))" by blast+
qed

lemma short_name_decode:
  assumes "fits_83 name"
  shows "decode_short_name (write_short_entry name attrs cluster sz) = map to_ascii_lowercase name"
proof -
  obtain b e where be: "split_name name = (b, e)" by fastforce
  note parts = fits_83_split [OF assms, unfolded be fst_conv snd_conv]
  have "name \<noteq> ''.''" "name \<noteq> ''..''" using assms by (auto simp: fits_83_def)
  then obtain rest where entry: "write_short_entry name attrs cluster sz =
      padded_field 8 (heapless_upper b) @ padded_field 3 (heapless_upper e) @ rest"
    by (simp add: write_short_entry_def be Let_def)
  have dec: "map to_ascii_lowercase (decode_field (padded_field 8 (heapless_upper b))) = map to_ascii_lowercase b"
    "map to_ascii_lowercase (decode_field (padded_field 3 (heapless_upper e))) = map to_ascii_lowercase e"
    using parts by (simp_all add: decode_padded)
  then have "decode_field (padded_field 3 (heapless_upper e)) = [] \<longleftrightarrow> e = []"
    by (metis map_is_Nil_conv)
  then have "decode_short_name (write_short_entry name attrs cluster sz) =
      (if e = [] then map to_ascii_lowercase b
       else map to_ascii_lowercase b @ map to_ascii_lowercase (''.'') @ map to_ascii_lowercase e)"
    using dec by (simp add: decode_short_name_def entry Let_def)
  then show ?thesis using parts(5) by (metis map_append)
qed

text \<open>
  C32: a name that fits 8.3 survives the trip through a directory entry up to ASCII case: decoding
  the 32 bytes \<open>write_short_entry\<close> produces gives the lower-cased name back, whatever the
  attributes, cluster and size.
\<close>

theorem short_name_roundtrip:
  assumes "fits_83 name"
  shows "decode_short_name (write_short_entry name attrs cluster sz) = map to_ascii_lowercase name"
  using assms by (rule short_name_decode)

theorem short_name_roundtrip_witness:
  "fits_83 ''Notes.txt'' \<and>
   decode_short_name (write_short_entry ''Notes.txt'' 0x20 5 11) = ''notes.txt''"
proof -
  have "fits_83 ''Notes.txt''" by code_simp
  moreover have "map to_ascii_lowercase ''Notes.txt'' = ''notes.txt''" by code_simp
  ultimately show ?thesis using short_name_roundtrip [of "''Notes.txt''" "0x20" 5 11] by simp
qed

text \<open>The other fields of an entry, read back at the offsets \<open>read_dir\<close> uses.\<close>

lemma mask16: "(0xFFFF :: u32) = mask 16"
  by (simp add: mask_eq_exp_minus_1)

lemma ucast_mask16: "(ucast ((c :: u32) AND mask 16) :: u16) = ucast c"
  by (rule bit_word_eqI) (simp add: bit_simps)

lemma join16: "push_bit 16 (ucast (ucast (drop_bit 16 c) :: u16)) OR (ucast (ucast c :: u16) :: u32) = (c :: u32)"
  by (rule bit_word_eqI) (auto simp: bit_simps)

end
