(* ===== verification/Fat.thy ===== *)
theory Fat
  imports FatName Block
begin

unbundle bit_operations_syntax

text \<open>
  The FAT32 driver of \<^verbatim>\<open>kernel/src/fs/fat.rs\<close>, method by method. The global \<open>DRIVE\<close> is the
  device record \<open>dev\<close> and its state, which every method threads; a \<open>BlockError\<close> becomes \<open>Io\<close>.
  Cluster numbers and sector addresses are 32-bit words, computed with the checked operators of the dev profile: where a
  corrupted volume drives a sum or a product past 32 bits, the method panics. On a volume with the
  geometry \<open>fits\<close> of the theory \<open>FatImage\<close> no check fails. The loops that
  follow a cluster chain are instances of \<open>loopM\<close>: on a cyclic chain they do not return. \<open>mount\<close> is the only constructor of \<open>FatFs\<close>
  values and accepts 512-byte sectors and a one-byte cluster size only, so the product \<open>cluster_bytes\<close> is at most 130560.
\<close>

section \<open>Data\<close>

definition EOC_THRESHOLD :: u32 where "EOC_THRESHOLD = 0x0FFFFFF8"
definition CLUSTER_MASK :: u32 where "CLUSTER_MASK = 0x0FFFFFFF"

record FatFs =
  bytes_per_sector :: u32
  sectors_per_cluster :: u32
  reserved_sectors :: u32
  num_fats :: u32
  sectors_per_fat :: u32
  root_cluster :: u32
  fat_start_lba :: u32
  data_start_lba :: u32

record DirEntry =
  de_name :: string
  de_is_dir :: bool
  de_cluster :: u32
  de_size :: u32

definition USIZE_MAX :: nat where "USIZE_MAX = 2 ^ 64 - 1"

definition cluster_bytes :: "FatFs \<Rightarrow> nat" where
  "cluster_bytes fs = unat (sectors_per_cluster fs * bytes_per_sector fs)"

text \<open>The loop guard \<open>cluster >= 2 && cluster < EOC_THRESHOLD\<close>.\<close>

definition in_chain :: "u32 \<Rightarrow> bool" where
  "in_chain cluster \<longleftrightarrow> cluster \<ge> 2 \<and> cluster < EOC_THRESHOLD"

section \<open>The drive\<close>

text \<open>\<open>DRIVE.lock().read_block(lba, buf)?\<close> and \<open>DRIVE.lock().write_block(lba, buf)?\<close>\<close>

definition drive_read :: "'d BlockDevice \<Rightarrow> u64 \<Rightarrow> u8 list \<Rightarrow> ('d, FsError, u8 list) io" where
  "drive_read dev lba buf = attempt (read_block dev lba buf)
     (\<lambda>r. case r of Inl _ \<Rightarrow> fail Io | Inr (_, buf') \<Rightarrow> ret buf')"

definition drive_write :: "'d BlockDevice \<Rightarrow> u64 \<Rightarrow> u8 list \<Rightarrow> ('d, FsError, unit) io" where
  "drive_write dev lba buf = attempt (write_block dev lba buf)
     (\<lambda>r. case r of Inl _ \<Rightarrow> fail Io | Inr _ \<Rightarrow> ret ())"

definition zero_block :: "u8 list" where
  "zero_block = replicate BLOCK_SIZE 0"

section \<open>Mounting\<close>

definition mount :: "'d BlockDevice \<Rightarrow> ('d, FsError, FatFs) io" where
  "mount dev = bindM (drive_read dev 0 zero_block) (\<lambda>buf.
     let bps = ucast (u16_from_le_bytes (buf ! 0x0B) (buf ! 0x0C)) :: u32;
         spc = ucast (buf ! 0x0D) :: u32;
         rsv = ucast (u16_from_le_bytes (buf ! 0x0E) (buf ! 0x0F)) :: u32;
         nf = ucast (buf ! 0x10) :: u32;
         spf = u32_from_le_bytes (buf ! 0x24) (buf ! 0x25) (buf ! 0x26) (buf ! 0x27);
         rc = u32_from_le_bytes (buf ! 0x2C) (buf ! 0x2D) (buf ! 0x2E) (buf ! 0x2F)
     in if bps \<noteq> word_of_nat BLOCK_SIZE \<or> spc = 0 \<or> nf = 0 then fail Io
        else
          bindM (liftO (mul_chk nf spf)) (\<lambda>tables.
          bindM (liftO (add_chk rsv tables)) (\<lambda>data_start.
          ret \<lparr>bytes_per_sector = bps, sectors_per_cluster = spc, reserved_sectors = rsv,
               num_fats = nf, sectors_per_fat = spf, root_cluster = rc,
               fat_start_lba = rsv, data_start_lba = data_start\<rparr>)))"

section \<open>The table and the cluster chains\<close>

definition cluster_to_lba :: "FatFs \<Rightarrow> u32 \<Rightarrow> ('d, FsError, u32) io" where
  "cluster_to_lba fs cluster =
     bindM (liftO (sub_chk cluster 2)) (\<lambda>k.
     bindM (liftO (mul_chk k (sectors_per_cluster fs))) (\<lambda>offset.
     liftO (add_chk (data_start_lba fs) offset)))"

text \<open>The sector of the first table copy an entry lies in, and its offset in that sector.\<close>

definition fat_position :: "FatFs \<Rightarrow> u32 \<Rightarrow> ('d, FsError, u32 \<times> nat) io" where
  "fat_position fs cluster =
     bindM (liftO (mul_chk cluster 4)) (\<lambda>fat_offset.
     bindM (liftO (div_chk fat_offset (bytes_per_sector fs))) (\<lambda>k.
     bindM (liftO (add_chk (fat_start_lba fs) k)) (\<lambda>fat_sector.
     bindM (liftO (rem_chk fat_offset (bytes_per_sector fs))) (\<lambda>in_sector.
     ret (fat_sector, unat in_sector)))))"

definition next_cluster :: "'d BlockDevice \<Rightarrow> FatFs \<Rightarrow> u32 \<Rightarrow> ('d, FsError, u32) io" where
  "next_cluster dev fs cluster =
     bindM (fat_position fs cluster) (\<lambda>(fat_sector, in_sector).
     bindM (drive_read dev (ucast fat_sector) zero_block) (\<lambda>buf.
     bindM (liftO (le32_at buf in_sector)) (\<lambda>raw.
     ret (raw AND CLUSTER_MASK))))"

text \<open>\<open>for sec in 0..sectors_per_cluster { read_block(lba + sec, &mut buf[off..off + BLOCK_SIZE])? }\<close>\<close>

definition read_cluster :: "'d BlockDevice \<Rightarrow> FatFs \<Rightarrow> u32 \<Rightarrow> ('d, FsError, u8 list) io" where
  "read_cluster dev fs lba = foldM (\<lambda>sec buf.
     let off = sec * BLOCK_SIZE
     in if off + BLOCK_SIZE \<le> length buf
        then bindM (drive_read dev (ucast lba + word_of_nat sec) (take BLOCK_SIZE (drop off buf)))
               (\<lambda>b. ret (splice off b buf))
        else panic)
     [0..<unat (sectors_per_cluster fs)] (replicate (cluster_bytes fs) 0)"

definition read_chain_body ::
    "'d BlockDevice \<Rightarrow> FatFs \<Rightarrow> nat \<Rightarrow> u32 \<times> u8 list \<Rightarrow> ('d, FsError, (u32 \<times> u8 list) + u8 list) io" where
  "read_chain_body dev fs max_bytes = (\<lambda>(cluster, out).
     if in_chain cluster
     then bindM (cluster_to_lba fs cluster) (\<lambda>lba.
          bindM (read_cluster dev fs lba) (\<lambda>buf.
            if max_bytes \<le> length (out @ buf) then ret (Inr (out @ buf))
            else bindM (next_cluster dev fs cluster) (\<lambda>next. ret (Inl (next, out @ buf)))))
     else ret (Inr out))"

definition read_chain :: "'d BlockDevice \<Rightarrow> FatFs \<Rightarrow> u32 \<Rightarrow> nat \<Rightarrow> ('d, FsError, u8 list) io" where
  "read_chain dev fs start max_bytes = loopM (read_chain_body dev fs max_bytes) (start, [])"

section \<open>Directories\<close>

text \<open>The entries \<open>read_dir\<close> passes over: deleted, long-name and volume-label entries.\<close>

definition skipped_entry :: "u8 list \<Rightarrow> bool" where
  "skipped_entry chunk \<longleftrightarrow>
     chunk ! 0 = 0xE5 \<or> chunk ! 11 AND ATTR_LONG_NAME = ATTR_LONG_NAME \<or>
     chunk ! 11 AND ATTR_VOLUME_ID \<noteq> 0"

definition decode_entry :: "u8 list \<Rightarrow> DirEntry" where
  "decode_entry chunk =
     \<lparr>de_name = decode_short_name chunk,
      de_is_dir = (chunk ! 11 AND ATTR_DIRECTORY \<noteq> 0),
      de_cluster = push_bit 16 (ucast (u16_from_le_bytes (chunk ! 20) (chunk ! 21)))
        OR ucast (u16_from_le_bytes (chunk ! 26) (chunk ! 27)),
      de_size = u32_from_le_bytes (chunk ! 28) (chunk ! 29) (chunk ! 30) (chunk ! 31)\<rparr>"

text \<open>The loop over the 32-byte chunks: a first byte 0 ends the directory.\<close>

fun parse_dir :: "u8 list list \<Rightarrow> DirEntry list" where
  "parse_dir [] = []"
| "parse_dir (chunk # chunks) =
     (if chunk ! 0 = 0x00 then []
      else if skipped_entry chunk then parse_dir chunks
      else if decode_short_name chunk = ''.'' \<or> decode_short_name chunk = ''..'' then parse_dir chunks
      else decode_entry chunk # parse_dir chunks)"

definition read_dir :: "'d BlockDevice \<Rightarrow> FatFs \<Rightarrow> u32 \<Rightarrow> ('d, FsError, DirEntry list) io" where
  "read_dir dev fs cluster = bindM (read_chain dev fs cluster USIZE_MAX) (\<lambda>bytes.
     ret (parse_dir (chunks_exact 32 bytes)))"

definition find_entry :: "string \<Rightarrow> DirEntry list \<Rightarrow> DirEntry option" where
  "find_entry name entries = List.find (\<lambda>e. eq_ignore_ascii_case (de_name e) name) entries"

fun lookup_segs ::
    "'d BlockDevice \<Rightarrow> FatFs \<Rightarrow> nat \<Rightarrow> string list \<Rightarrow> u32 \<Rightarrow> DirEntry option \<Rightarrow> ('d, FsError, DirEntry) io" where
  "lookup_segs dev fs i [] current_cluster found =
     (case found of None \<Rightarrow> fail NotFound | Some e \<Rightarrow> ret e)"
| "lookup_segs dev fs i (seg # segs) current_cluster found =
     bindM (if 0 < i
            then (case found of
                    None \<Rightarrow> fail NotFound
                  | Some f \<Rightarrow> if \<not> de_is_dir f then fail NotADir else ret (de_cluster f))
            else ret current_cluster) (\<lambda>current_cluster.
     bindM (read_dir dev fs current_cluster) (\<lambda>entries.
       (case find_entry seg entries of
          None \<Rightarrow> fail NotFound
        | Some e \<Rightarrow> lookup_segs dev fs (Suc i) segs current_cluster (Some e))))"

definition lookup :: "'d BlockDevice \<Rightarrow> FatFs \<Rightarrow> string \<Rightarrow> ('d, FsError, DirEntry) io" where
  "lookup dev fs path =
     (if path = ''/'' \<or> path = []
      then ret \<lparr>de_name = ''/'', de_is_dir = True, de_cluster = root_cluster fs, de_size = 0\<rparr>
      else lookup_segs dev fs 0 (segments path) (root_cluster fs) None)"

definition read_file :: "'d BlockDevice \<Rightarrow> FatFs \<Rightarrow> string \<Rightarrow> ('d, FsError, u8 list) io" where
  "read_file dev fs path = bindM (lookup dev fs path) (\<lambda>entry.
     if de_is_dir entry then fail IsADir
     else if de_size entry = 0 \<or> de_cluster entry < 2 then ret []
     else bindM (read_chain dev fs (de_cluster entry) (unat (de_size entry))) (\<lambda>out.
            ret (take (unat (de_size entry)) out)))"

definition list_dir :: "'d BlockDevice \<Rightarrow> FatFs \<Rightarrow> string \<Rightarrow> ('d, FsError, string list) io" where
  "list_dir dev fs path = bindM (lookup dev fs path) (\<lambda>entry.
     if \<not> de_is_dir entry then fail NotADir
     else bindM (read_dir dev fs (if path = ''/'' then root_cluster fs else de_cluster entry)) (\<lambda>entries.
            ret (map de_name entries)))"

definition is_dir :: "'d BlockDevice \<Rightarrow> FatFs \<Rightarrow> string \<Rightarrow> ('d, FsError, bool) io" where
  "is_dir dev fs path = attempt (lookup dev fs path)
     (\<lambda>r. case r of Inr e \<Rightarrow> ret (de_is_dir e) | Inl _ \<Rightarrow> ret False)"

definition cluster_for :: "'d BlockDevice \<Rightarrow> FatFs \<Rightarrow> string \<Rightarrow> ('d, FsError, u32) io" where
  "cluster_for dev fs path =
     (if path = ''/'' then ret (root_cluster fs)
      else bindM (lookup dev fs path) (\<lambda>entry.
             if \<not> de_is_dir entry then fail NotADir else ret (de_cluster entry)))"

definition find_in_dir :: "'d BlockDevice \<Rightarrow> FatFs \<Rightarrow> u32 \<Rightarrow> string \<Rightarrow> ('d, FsError, DirEntry option) io" where
  "find_in_dir dev fs cluster name = bindM (read_dir dev fs cluster) (\<lambda>entries.
     ret (find_entry name entries))"

section \<open>Allocation\<close>

text \<open>The search keeps the sector it read last; \<open>u32::MAX\<close> stands for none.\<close>

fun find_free_loop ::
    "'d BlockDevice \<Rightarrow> FatFs \<Rightarrow> nat list \<Rightarrow> u32 \<Rightarrow> u8 list \<Rightarrow> ('d, FsError, u32) io" where
  "find_free_loop dev fs [] current_sector buf = fail Io"
| "find_free_loop dev fs (n # ns) current_sector buf =
     bindM (fat_position fs (word_of_nat n)) (\<lambda>(fat_sector, in_sector).
     bindM (if fat_sector \<noteq> current_sector
            then drive_read dev (ucast fat_sector) buf else ret buf) (\<lambda>buf.
     bindM (liftO (le32_at buf in_sector)) (\<lambda>raw.
       if raw AND CLUSTER_MASK = 0 then ret (word_of_nat n)
       else find_free_loop dev fs ns fat_sector buf)))"

definition find_free_cluster :: "'d BlockDevice \<Rightarrow> FatFs \<Rightarrow> ('d, FsError, u32) io" where
  "find_free_cluster dev fs =
     bindM (liftO (mul_chk (sectors_per_fat fs) (bytes_per_sector fs))) (\<lambda>fat_bytes.
       let total_clusters = fat_bytes div 4
       in find_free_loop dev fs [2..<unat total_clusters] (- 1) zero_block)"

definition write_fat_entry :: "'d BlockDevice \<Rightarrow> FatFs \<Rightarrow> u32 \<Rightarrow> u32 \<Rightarrow> ('d, FsError, unit) io" where
  "write_fat_entry dev fs cluster value =
     bindM (liftO (mul_chk cluster 4)) (\<lambda>fat_offset.
     bindM (liftO (rem_chk fat_offset (bytes_per_sector fs))) (\<lambda>in_sector.
       foldM (\<lambda>i _.
         bindM (liftO (mul_chk (word_of_nat i) (sectors_per_fat fs))) (\<lambda>copy.
         bindM (liftO (add_chk (fat_start_lba fs) copy)) (\<lambda>start.
         bindM (liftO (div_chk fat_offset (bytes_per_sector fs))) (\<lambda>k.
         bindM (liftO (add_chk start k)) (\<lambda>fat_sector.
         bindM (drive_read dev (ucast fat_sector) zero_block) (\<lambda>buf.
         bindM (liftO (le32_at buf (unat in_sector))) (\<lambda>old.
           let masked = (value AND CLUSTER_MASK) OR (old AND NOT CLUSTER_MASK)
           in drive_write dev (ucast fat_sector) (splice (unat in_sector) (u32_to_le_bytes masked) buf))))))))
         [0..<unat (num_fats fs)] ()))"

text \<open>
  \<open>delta_free\<close> is an \<open>i32\<close>, kept as its 32 bits and read with \<open>sint\<close>. A sector without both
  signatures is left alone.
\<close>

definition update_fsinfo :: "'d BlockDevice \<Rightarrow> FatFs \<Rightarrow> 32 word \<Rightarrow> u32 \<Rightarrow> ('d, FsError, unit) io" where
  "update_fsinfo dev fs delta_free last_alloc =
     bindM (drive_read dev 1 zero_block) (\<lambda>buf.
     bindM (liftO (le32_at buf 0)) (\<lambda>lead.
     bindM (liftO (le32_at buf 484)) (\<lambda>strct.
       if lead \<noteq> 0x41615252 \<or> strct \<noteq> 0x61417272 then ret ()
       else
         bindM (liftO (le32_at buf 0x1E8)) (\<lambda>free.
           let buf = (if free \<noteq> 0xFFFFFFFF
                      then splice 0x1E8 (u32_to_le_bytes
                             (word_of_int (max 0 (uint free + sint delta_free)))) buf
                      else buf);
               buf = (if last_alloc \<noteq> 0 then splice 0x1EC (u32_to_le_bytes last_alloc) buf else buf)
           in drive_write dev 1 buf))))"

text \<open>\<open>let _ = self.update_fsinfo(...)\<close>\<close>

definition update_fsinfo_ignored :: "'d BlockDevice \<Rightarrow> FatFs \<Rightarrow> 32 word \<Rightarrow> u32 \<Rightarrow> ('d, FsError, unit) io" where
  "update_fsinfo_ignored dev fs delta_free last_alloc =
     attempt (update_fsinfo dev fs delta_free last_alloc) (\<lambda>_. ret ())"

definition write_cluster :: "'d BlockDevice \<Rightarrow> FatFs \<Rightarrow> u32 \<Rightarrow> u8 list \<Rightarrow> ('d, FsError, unit) io" where
  "write_cluster dev fs cluster data =
     bindM (cluster_to_lba fs cluster) (\<lambda>lba.
       foldM (\<lambda>sec _.
         let off = sec * BLOCK_SIZE
         in if off + BLOCK_SIZE \<le> length data
            then drive_write dev (ucast lba + word_of_nat sec) (take BLOCK_SIZE (drop off data))
            else panic)
       [0..<unat (sectors_per_cluster fs)] ())"

definition zero_cluster :: "'d BlockDevice \<Rightarrow> FatFs \<Rightarrow> u32 \<Rightarrow> ('d, FsError, unit) io" where
  "zero_cluster dev fs cluster = write_cluster dev fs cluster (replicate (cluster_bytes fs) 0)"

text \<open>One iteration of \<open>allocate_chain\<close>; the loop carries \<open>(head, prev, last)\<close>.\<close>

definition allocate_step ::
    "'d BlockDevice \<Rightarrow> FatFs \<Rightarrow> u32 \<times> u32 \<times> u32 \<Rightarrow> ('d, FsError, u32 \<times> u32 \<times> u32) io" where
  "allocate_step dev fs = (\<lambda>(head, prev, last).
     bindM (find_free_cluster dev fs) (\<lambda>c.
     bindM (write_fat_entry dev fs c (EOC_THRESHOLD OR 0xF)) (\<lambda>_.
     bindM (zero_cluster dev fs c) (\<lambda>_.
     bindM (if prev = 0 then ret c else bindM (write_fat_entry dev fs prev c) (\<lambda>_. ret head)) (\<lambda>head.
     ret (head, c, c))))))"

definition allocate_chain :: "'d BlockDevice \<Rightarrow> FatFs \<Rightarrow> u32 \<Rightarrow> ('d, FsError, u32) io" where
  "allocate_chain dev fs count =
     (if count = 0 then ret 0
      else bindM (foldM (\<lambda>_. allocate_step dev fs) [0..<unat count] (0, 0, 0)) (\<lambda>(head, prev, last).
           bindM (liftO (neg_chk count)) (\<lambda>delta_free.
           bindM (update_fsinfo_ignored dev fs delta_free last) (\<lambda>_.
           ret head))))"

definition free_chain_body ::
    "'d BlockDevice \<Rightarrow> FatFs \<Rightarrow> u32 \<times> 32 word \<Rightarrow> ('d, FsError, (u32 \<times> 32 word) + 32 word) io" where
  "free_chain_body dev fs = (\<lambda>(cluster, freed).
     if in_chain cluster
     then bindM (next_cluster dev fs cluster) (\<lambda>next.
          bindM (write_fat_entry dev fs cluster 0) (\<lambda>_.
          bindM (liftO (sadd_chk freed 1)) (\<lambda>freed.
          ret (Inl (next, freed)))))
     else ret (Inr freed))"

definition free_chain :: "'d BlockDevice \<Rightarrow> FatFs \<Rightarrow> u32 \<Rightarrow> ('d, FsError, unit) io" where
  "free_chain dev fs start = bindM (loopM (free_chain_body dev fs) (start, 0)) (\<lambda>freed.
     if 0 < sint freed then update_fsinfo_ignored dev fs freed 0 else ret ())"

definition write_chain_body ::
    "'d BlockDevice \<Rightarrow> FatFs \<Rightarrow> u8 list \<Rightarrow> u32 \<times> nat \<Rightarrow> ('d, FsError, (u32 \<times> nat) + unit) io" where
  "write_chain_body dev fs data = (\<lambda>(cluster, offset).
     if offset < length data \<and> in_chain cluster
     then (let chunk_end = min (offset + cluster_bytes fs) (length data);
               buf = splice 0 (take (chunk_end - offset) (drop offset data)) (replicate (cluster_bytes fs) 0)
           in bindM (write_cluster dev fs cluster buf) (\<lambda>_.
              if length data \<le> chunk_end then ret (Inr ())
              else bindM (next_cluster dev fs cluster) (\<lambda>next. ret (Inl (next, chunk_end)))))
     else ret (Inr ()))"

definition write_chain :: "'d BlockDevice \<Rightarrow> FatFs \<Rightarrow> u32 \<Rightarrow> u8 list \<Rightarrow> ('d, FsError, unit) io" where
  "write_chain dev fs head data = loopM (write_chain_body dev fs data) (head, 0)"

section \<open>Changing directories\<close>

text \<open>\<open>for slot_in_sec in 0..(BLOCK_SIZE / 32)\<close>: the offset of the first free slot of a sector.\<close>

definition free_slot :: "u8 list \<Rightarrow> nat option" where
  "free_slot buf = List.find (\<lambda>off. buf ! off = 0x00 \<or> buf ! off = 0xE5)
     (map (\<lambda>slot_in_sec. slot_in_sec * 32) [0..<BLOCK_SIZE div 32])"

text \<open>The sectors of one cluster; \<open>True\<close> when the entry was written (\<open>return Ok(())\<close>).\<close>

fun add_in_sectors ::
    "'d BlockDevice \<Rightarrow> u32 \<Rightarrow> nat list \<Rightarrow> u8 list \<Rightarrow> ('d, FsError, bool) io" where
  "add_in_sectors dev lba [] entry = ret False"
| "add_in_sectors dev lba (sec # secs) entry =
     bindM (drive_read dev (ucast lba + word_of_nat sec) zero_block) (\<lambda>buf.
       (case free_slot buf of
          Some off \<Rightarrow>
            bindM (drive_write dev (ucast lba + word_of_nat sec) (splice off entry buf)) (\<lambda>_. ret True)
        | None \<Rightarrow> add_in_sectors dev lba secs entry))"

text \<open>No free slot: follow the chain, or append a zeroed cluster to it.\<close>

definition next_or_grow :: "'d BlockDevice \<Rightarrow> FatFs \<Rightarrow> u32 \<Rightarrow> ('d, FsError, u32) io" where
  "next_or_grow dev fs chain_cluster =
     bindM (next_cluster dev fs chain_cluster) (\<lambda>next.
       if next < 2 \<or> next \<ge> EOC_THRESHOLD
       then bindM (find_free_cluster dev fs) (\<lambda>new_cluster.
            bindM (write_fat_entry dev fs new_cluster (EOC_THRESHOLD OR 0xF)) (\<lambda>_.
            bindM (zero_cluster dev fs new_cluster) (\<lambda>_.
            bindM (write_fat_entry dev fs chain_cluster new_cluster) (\<lambda>_.
            bindM (update_fsinfo_ignored dev fs (- 1) new_cluster) (\<lambda>_.
            ret new_cluster)))))
       else ret next)"

definition add_dir_entry ::
    "'d BlockDevice \<Rightarrow> FatFs \<Rightarrow> u32 \<Rightarrow> string \<Rightarrow> u8 \<Rightarrow> u32 \<Rightarrow> u32 \<Rightarrow> ('d, FsError, unit) io" where
  "add_dir_entry dev fs parent_cluster name attrs cluster sz =
     loopM (\<lambda>chain_cluster.
       bindM (cluster_to_lba fs chain_cluster) (\<lambda>lba.
       bindM (add_in_sectors dev lba [0..<unat (sectors_per_cluster fs)] (write_short_entry name attrs cluster sz)) (\<lambda>written.
         if written then ret (Inr ())
         else bindM (next_or_grow dev fs chain_cluster) (\<lambda>next. ret (Inl next))))) parent_cluster"

text \<open>What the scan for a name finds in a sector: the end mark, the entry, or neither.\<close>

datatype scan_result = ScanEnd | ScanAt nat | ScanNone

fun scan_slots :: "u8 list \<Rightarrow> string \<Rightarrow> nat list \<Rightarrow> scan_result" where
  "scan_slots buf name [] = ScanNone"
| "scan_slots buf name (slot_in_sec # slots) =
     (let off = slot_in_sec * 32; chunk = take 32 (drop off buf)
      in if chunk ! 0 = 0x00 then ScanEnd
         else if skipped_entry chunk then scan_slots buf name slots
         else if eq_ignore_ascii_case (decode_short_name chunk) name then ScanAt off
         else scan_slots buf name slots)"

fun delete_in_sectors ::
    "'d BlockDevice \<Rightarrow> u32 \<Rightarrow> nat list \<Rightarrow> string \<Rightarrow> ('d, FsError, bool) io" where
  "delete_in_sectors dev lba [] name = ret False"
| "delete_in_sectors dev lba (sec # secs) name =
     bindM (drive_read dev (ucast lba + word_of_nat sec) zero_block) (\<lambda>buf.
       (case scan_slots buf name [0..<BLOCK_SIZE div 32] of
          ScanEnd \<Rightarrow> ret True
        | ScanAt off \<Rightarrow>
            bindM (drive_write dev (ucast lba + word_of_nat sec) (buf[off := 0xE5])) (\<lambda>_. ret True)
        | ScanNone \<Rightarrow> delete_in_sectors dev lba secs name))"

definition delete_dir_entry :: "'d BlockDevice \<Rightarrow> FatFs \<Rightarrow> u32 \<Rightarrow> string \<Rightarrow> ('d, FsError, unit) io" where
  "delete_dir_entry dev fs parent_cluster name =
     loopM (\<lambda>chain_cluster.
       bindM (cluster_to_lba fs chain_cluster) (\<lambda>lba.
       bindM (delete_in_sectors dev lba [0..<unat (sectors_per_cluster fs)] name) (\<lambda>returned.
         if returned then ret (Inr ())
         else bindM (next_cluster dev fs chain_cluster) (\<lambda>next.
                if next < 2 \<or> next \<ge> EOC_THRESHOLD then fail NotFound else ret (Inl next))))) parent_cluster"

section \<open>The write methods\<close>

text \<open>\<open>if entry.cluster >= 2 { self.free_chain(entry.cluster)?; }\<close>\<close>

definition free_entry_chain :: "'d BlockDevice \<Rightarrow> FatFs \<Rightarrow> DirEntry \<Rightarrow> ('d, FsError, unit) io" where
  "free_entry_chain dev fs entry =
     (if de_cluster entry \<ge> 2 then free_chain dev fs (de_cluster entry) else ret ())"

definition truncate_file :: "'d BlockDevice \<Rightarrow> FatFs \<Rightarrow> u32 \<Rightarrow> string \<Rightarrow> ('d, FsError, unit) io" where
  "truncate_file dev fs parent_cluster name =
     bindM (find_in_dir dev fs parent_cluster name) (\<lambda>found.
       (case found of
          None \<Rightarrow> fail NotFound
        | Some entry \<Rightarrow>
            if de_is_dir entry then fail IsADir
            else bindM (free_entry_chain dev fs entry) (\<lambda>_.
                 bindM (delete_dir_entry dev fs parent_cluster name) (\<lambda>_.
                 add_dir_entry dev fs parent_cluster name 0x20 0 0))))"

definition create_file :: "'d BlockDevice \<Rightarrow> FatFs \<Rightarrow> string \<Rightarrow> ('d, FsError, unit) io" where
  "create_file dev fs path =
     bindM (liftO (split_parent path)) (\<lambda>(parent, name).
     bindM (is_dir dev fs parent) (\<lambda>parent_is_dir.
       if \<not> parent_is_dir then fail NotADir
       else
         bindM (cluster_for dev fs parent) (\<lambda>parent_cluster.
         bindM (find_in_dir dev fs parent_cluster name) (\<lambda>found.
           if found \<noteq> None then truncate_file dev fs parent_cluster name
           else add_dir_entry dev fs parent_cluster name 0 0 0))))"

definition write_file :: "'d BlockDevice \<Rightarrow> FatFs \<Rightarrow> string \<Rightarrow> u8 list \<Rightarrow> ('d, FsError, unit) io" where
  "write_file dev fs path data =
     bindM (liftO (split_parent path)) (\<lambda>(parent, name).
     bindM (is_dir dev fs parent) (\<lambda>parent_is_dir.
       if \<not> parent_is_dir then fail NotADir
       else
         bindM (cluster_for dev fs parent) (\<lambda>parent_cluster.
         bindM (find_in_dir dev fs parent_cluster name) (\<lambda>found.
         bindM (case found of
                  None \<Rightarrow> ret ()
                | Some old \<Rightarrow>
                    if de_is_dir old then fail IsADir
                    else bindM (free_entry_chain dev fs old) (\<lambda>_.
                         delete_dir_entry dev fs parent_cluster name)) (\<lambda>_.
         bindM (if data = [] then ret 0
                else
                  let n_clusters = word_of_nat
                        ((length data + cluster_bytes fs - 1) div cluster_bytes fs)
                  in bindM (allocate_chain dev fs n_clusters) (\<lambda>head.
                     bindM (write_chain dev fs head data) (\<lambda>_.
                     ret head))) (\<lambda>first_cluster.
         add_dir_entry dev fs parent_cluster name 0x20 first_cluster
           (word_of_nat (length data))))))))"

definition append_file :: "'d BlockDevice \<Rightarrow> FatFs \<Rightarrow> string \<Rightarrow> u8 list \<Rightarrow> ('d, FsError, unit) io" where
  "append_file dev fs path data =
     attempt (read_file dev fs path) (\<lambda>r.
       (case r of
          Inr existing \<Rightarrow> write_file dev fs path (existing @ data)
        | Inl NotFound \<Rightarrow> write_file dev fs path data
        | Inl e \<Rightarrow> fail e))"

definition create_dir :: "'d BlockDevice \<Rightarrow> FatFs \<Rightarrow> string \<Rightarrow> ('d, FsError, unit) io" where
  "create_dir dev fs path =
     bindM (liftO (split_parent path)) (\<lambda>(parent, name).
     bindM (is_dir dev fs parent) (\<lambda>parent_is_dir.
       if \<not> parent_is_dir then fail NotADir
       else
         bindM (cluster_for dev fs parent) (\<lambda>parent_cluster.
         bindM (find_in_dir dev fs parent_cluster name) (\<lambda>found.
           if found \<noteq> None then fail Io
           else
             bindM (allocate_chain dev fs 1) (\<lambda>cluster.
               let buf = replicate (cluster_bytes fs) 0;
                   buf = splice 0 (write_short_entry ''.'' ATTR_DIRECTORY cluster 0) buf;
                   parent_for_dotdot = (if parent = ''/'' then 0 else parent_cluster);
                   buf = splice 32 (write_short_entry ''..'' ATTR_DIRECTORY parent_for_dotdot 0) buf
               in bindM (write_cluster dev fs cluster buf) (\<lambda>_.
                  add_dir_entry dev fs parent_cluster name ATTR_DIRECTORY cluster 0))))))"

definition remove :: "'d BlockDevice \<Rightarrow> FatFs \<Rightarrow> string \<Rightarrow> ('d, FsError, unit) io" where
  "remove dev fs path =
     bindM (liftO (split_parent path)) (\<lambda>(parent, name).
     bindM (cluster_for dev fs parent) (\<lambda>parent_cluster.
     bindM (find_in_dir dev fs parent_cluster name) (\<lambda>found.
       (case found of
          None \<Rightarrow> fail NotFound
        | Some entry \<Rightarrow>
            bindM (if de_is_dir entry
                   then bindM (read_dir dev fs (de_cluster entry)) (\<lambda>kids.
                          if kids \<noteq> [] then fail Io else ret ())
                   else ret ()) (\<lambda>_.
            bindM (free_entry_chain dev fs entry) (\<lambda>_.
            delete_dir_entry dev fs parent_cluster name))))))"

end
