(* ===== verification/Safety.thy ===== *)
theory Safety
  imports Prelude
begin

text \<open>
  Partial correctness with the absence of panics. \<open>safe ov I m Q\<close>: whenever \<open>m\<close> returns from a state
  satisfying \<open>I\<close>, it has not panicked, the state satisfies \<open>I\<close> again, and a normal result
  satisfies \<open>Q\<close>. When \<open>ov\<close> holds, one panic is admitted: a failed overflow check. The rules follow the structure of a computation.
\<close>

primrec panic_ok :: "bool \<Rightarrow> ('e, 'a) outcome \<Rightarrow> bool" where
  "panic_ok ov (Ok x) = True"
| "panic_ok ov (Err e) = True"
| "panic_ok ov (Panic c) = (ov \<and> c = Overflow)"

lemma panic_ok_iff: "panic_ok ov r \<longleftrightarrow> (\<forall>c. r = Panic c \<longrightarrow> ov \<and> c = Overflow)"
  by (cases r) simp_all

lemma panic_okI: "\<not> panics r \<Longrightarrow> panic_ok ov r"
  by (cases r) simp_all

lemma panic_ok_True: "panic_ok True r \<longleftrightarrow> r \<noteq> Panic Fault"
  by (cases r) (auto intro: panic_cause.exhaust)

lemma panic_ok_False [simp]: "panic_ok False r = (\<not> panics r)"
  by (cases r) simp_all

definition safe :: "bool \<Rightarrow> ('s \<Rightarrow> bool) \<Rightarrow> ('s, 'e, 'a) io \<Rightarrow> ('a \<Rightarrow> bool) \<Rightarrow> bool" where
  "safe ov I m Q \<longleftrightarrow> (\<forall>s r s'. I s \<longrightarrow> m s = Some (r, s') \<longrightarrow> I s' \<and> panic_ok ov r \<and> (\<forall>x. r = Ok x \<longrightarrow> Q x))"

named_theorems safe_intros

lemma safeI:
  "(\<And>s r s'. I s \<Longrightarrow> m s = Some (r, s') \<Longrightarrow> I s' \<and> panic_ok ov r \<and> (\<forall>x. r = Ok x \<longrightarrow> Q x)) \<Longrightarrow> safe ov I m Q"
  by (simp add: safe_def)

lemma safeD:
  assumes "safe ov I m Q" "I s" "m s = Some (r, s')"
  shows "I s'" "panic_ok ov r" "r = Ok x \<Longrightarrow> Q x"
  using assms by (auto simp: safe_def)

lemma safe_conseq: "safe ov I m Q \<Longrightarrow> (\<And>x. Q x \<Longrightarrow> R x) \<Longrightarrow> safe ov I m R"
  by (auto simp: safe_def)

lemma safe_weaken: "safe False I m Q \<Longrightarrow> safe ov I m Q"
  by (auto simp: safe_def intro: panic_okI)

lemma safe_ret [safe_intros]: "Q x \<Longrightarrow> safe ov I (ret x) Q"
  by (auto simp: safe_def ret_run)

lemma safe_fail [safe_intros]: "safe ov I (fail e) Q"
  by (auto simp: safe_def fail_run)

lemma safe_gets: "(\<And>s. I s \<Longrightarrow> Q (f s)) \<Longrightarrow> safe ov I (gets f) Q"
  by (auto simp: safe_def gets_run)

lemma safe_modify [safe_intros]: "(\<And>s. I s \<Longrightarrow> I (f s)) \<Longrightarrow> Q () \<Longrightarrow> safe ov I (modify f) Q"
  by (auto simp: safe_def modify_run)

lemma safe_liftO: "panic_ok ov r \<Longrightarrow> (\<And>x. r = Ok x \<Longrightarrow> Q x) \<Longrightarrow> safe ov I (liftO r) Q"
  by (auto simp: safe_def liftO_run)

text \<open>A checked integer operator.\<close>

lemma safe_chk [safe_intros]:
  "safe True I (liftO (add_chk a b)) (\<lambda>_. True)" "safe True I (liftO (sub_chk a b)) (\<lambda>_. True)"
  "safe True I (liftO (mul_chk a b)) (\<lambda>_. True)" "safe True I (liftO (sadd_chk a b)) (\<lambda>_. True)"
  "safe True I (liftO (neg_chk a)) (\<lambda>_. True)"
  by (rule safe_liftO; simp add: panic_ok_True)+

lemma safe_if [safe_intros]: "(b \<Longrightarrow> safe ov I m Q) \<Longrightarrow> (\<not> b \<Longrightarrow> safe ov I n Q) \<Longrightarrow> safe ov I (if b then m else n) Q"
  by simp

lemma safe_bindM:
  assumes "safe ov I m R" "\<And>x. R x \<Longrightarrow> safe ov I (k x) Q"
  shows "safe ov I (bindM m k) Q"
proof (rule safeI)
  fix s r s''
  assume "I s" and "bindM m k s = Some (r, s'')"
  from this(2) show "I s'' \<and> panic_ok ov r \<and> (\<forall>x. r = Ok x \<longrightarrow> Q x)"
  proof (cases rule: bindM_cases)
    case (1 x s')
    with safeD [OF assms(1) \<open>I s\<close> 1(1)] assms(2) show ?thesis by (auto simp: safe_def)
  next
    case (2 e)
    with safeD(1) [OF assms(1) \<open>I s\<close>] show ?thesis by auto
  next
    case (3 c)
    with safeD(1,2) [OF assms(1) \<open>I s\<close>] show ?thesis by auto
  qed
qed

lemma safe_seq [safe_intros]: "safe ov I m (\<lambda>_. True) \<Longrightarrow> (\<And>x. safe ov I (k x) Q) \<Longrightarrow> safe ov I (bindM m k) Q"
  by (rule safe_bindM) auto

lemma safe_gets_bind: "(\<And>s. I s \<Longrightarrow> safe ov I (k (f s)) Q) \<Longrightarrow> safe ov I (bindM (gets f) k) Q"
  by (rule safeI) (metis bindM_gets safeD)

lemma safe_attempt:
  assumes "safe ov I m R" "\<And>x. R x \<Longrightarrow> safe ov I (k (Inr x)) Q" "\<And>e. safe ov I (k (Inl e)) Q"
  shows "safe ov I (attempt m k) Q"
proof (rule safeI)
  fix s r s''
  assume I: "I s" and run: "attempt m k s = Some (r, s'')"
  then obtain a s' where m: "m s = Some (a, s')" by (auto simp: attempt_def bind_eq_Some_conv)
  note M = safeD [OF assms(1) I m]
  show "I s'' \<and> panic_ok ov r \<and> (\<forall>x. r = Ok x \<longrightarrow> Q x)"
  proof (cases a)
    case (Ok x)
    with run m have "k (Inr x) s' = Some (r, s'')" by (simp add: attempt_Ok)
    with assms(2) [OF M(3) [OF Ok]] M(1) show ?thesis by (auto simp: safe_def)
  next
    case (Err e)
    with run m have "k (Inl e) s' = Some (r, s'')" by (simp add: attempt_Err)
    with assms(3) [of e] M(1) show ?thesis by (auto simp: safe_def)
  qed (use M run m in \<open>auto simp: attempt_def\<close>)
qed

lemma safe_attempt_seq [safe_intros]:
  "safe ov I m (\<lambda>_. True) \<Longrightarrow> (\<And>x. safe ov I (k x) Q) \<Longrightarrow> safe ov I (attempt m k) Q"
  by (rule safe_attempt) auto

lemma safe_foldM:
  assumes "\<And>x a. x \<in> set xs \<Longrightarrow> Q a \<Longrightarrow> safe ov I (f x a) Q" "Q a"
  shows "safe ov I (foldM f xs a) Q"
  using assms
proof (induction xs arbitrary: a)
  case (Cons x xs)
  show ?case unfolding foldM.simps
    by (rule safe_bindM [OF Cons.prems(1) [of x a]]) (auto intro!: Cons.IH Cons.prems)
qed (auto intro: safe_ret)

lemma safe_foldM_True [safe_intros]: "(\<And>x a. safe ov I (f x a) (\<lambda>_. True)) \<Longrightarrow> safe ov I (foldM f xs a) (\<lambda>_. True)"
  by (rule safe_foldM) auto

lemma safe_loopM:
  fixes body :: "'a \<Rightarrow> ('s, 'e, 'a + 'b) io"
  assumes body: "\<And>a. P a \<Longrightarrow> safe ov I (body a) (\<lambda>r. case r of Inl a' \<Rightarrow> P a' | Inr y \<Rightarrow> Q y)" and a: "P a"
  shows "safe ov I (loopM body a) Q"
proof (rule safeI)
  let ?P = "\<lambda>b (a :: 'a) (s :: 's) (y :: ('e, 'b) outcome \<times> 's). b = body \<longrightarrow> P a \<longrightarrow> I s \<longrightarrow>
    I (snd y) \<and> panic_ok ov (fst y) \<and> (\<forall>x. fst y = Ok x \<longrightarrow> Q x)"
  fix s r s'
  assume I: "I s" and run: "loopM body a s = Some (r, s')"
  have "?P body a s (r, s')"
  proof (rule loopM.raw_induct [where P = ?P, OF _ run], intro impI)
    fix f b a s and y :: "('e, 'b) outcome \<times> 's"
    assume IH: "\<And>b a s y. f b a s = Some y \<Longrightarrow> ?P b a s y" and b: "b = body" and Pa: "P a" and I: "I s"
      and step: "bindM (b a) (\<lambda>r s. case r of Inl a' \<Rightarrow> f b a' s | Inr x \<Rightarrow> ret x s) s = Some y"
    obtain r s' where y: "y = (r, s')" by (cases y)
    from step [unfolded y] show "I (snd y) \<and> panic_ok ov (fst y) \<and> (\<forall>x. fst y = Ok x \<longrightarrow> Q x)"
    proof (cases rule: bindM_cases)
      case (1 x t)
      with safeD [OF body [OF Pa] I, of "Ok x" t] b have "I t" "case x of Inl a' \<Rightarrow> P a' | Inr y \<Rightarrow> Q y" by auto
      then show ?thesis using 1(2) y IH [of body _ t "(r, s')"] b
        by (cases x) (auto simp: ret_run)
    next
      case (2 e)
      with safeD(1) [OF body [OF Pa] I] b y show ?thesis by auto
    next
      case (3 c)
      with safeD(1,2) [OF body [OF Pa] I] b y show ?thesis by auto
    qed
  qed
  with I a show "I s' \<and> panic_ok ov r \<and> (\<forall>x. r = Ok x \<longrightarrow> Q x)" by simp
qed

lemma safe_on_part:
  "safe ov J m Q \<Longrightarrow> (\<And>s. I s \<Longrightarrow> J (get s)) \<Longrightarrow> (\<And>s p. I s \<Longrightarrow> J p \<Longrightarrow> I (put p s)) \<Longrightarrow> safe ov I (on_part get put m) Q"
  by (fastforce simp: safe_def on_part_def)

end
