(* ===== verification/Ata.thy ===== *)
theory Ata
  imports Block
begin

unbundle bit_operations_syntax

text \<open>
  The ATA PIO driver of \<^verbatim>\<open>kernel/src/ata.rs\<close>. The I/O ports are a parameter: a record of the four
  port instructions the driver uses, over an arbitrary hardware state. The driver itself is total
  and never panics whatever the ports return; on ports that behave as the ATA specification says
  for a disk in PIO mode (the locale \<open>ata_controller\<close>) the driver is a block device in the sense of
  \<open>block_device\<close>, so everything proved of the FAT driver on a disk image holds on the real drive.
\<close>

section \<open>Constants and state\<close>

definition PRIMARY_BASE :: u16 where "PRIMARY_BASE = 0x1F0"
definition PRIMARY_CTRL :: u16 where "PRIMARY_CTRL = 0x3F6"
definition REG_DATA :: u16 where "REG_DATA = 0"
definition REG_SECTOR_COUNT :: u16 where "REG_SECTOR_COUNT = 2"
definition REG_LBA_LO :: u16 where "REG_LBA_LO = 3"
definition REG_LBA_MID :: u16 where "REG_LBA_MID = 4"
definition REG_LBA_HI :: u16 where "REG_LBA_HI = 5"
definition REG_DRIVE_HEAD :: u16 where "REG_DRIVE_HEAD = 6"
definition REG_STATUS :: u16 where "REG_STATUS = 7"
definition REG_COMMAND :: u16 where "REG_COMMAND = 7"
definition STATUS_ERR :: u8 where "STATUS_ERR = 0x01"
definition STATUS_DRQ :: u8 where "STATUS_DRQ = 0x08"
definition STATUS_DF :: u8 where "STATUS_DF = 0x20"
definition STATUS_BSY :: u8 where "STATUS_BSY = 0x80"
definition CMD_READ_SECTORS :: u8 where "CMD_READ_SECTORS = 0x20"
definition CMD_WRITE_SECTORS :: u8 where "CMD_WRITE_SECTORS = 0x30"
definition CMD_IDENTIFY :: u8 where "CMD_IDENTIFY = 0xEC"
definition POLL_LIMIT :: nat where "POLL_LIMIT = 100000"

record 'h ports =
  inb :: "u16 \<Rightarrow> 'h \<Rightarrow> u8 \<times> 'h"
  outb :: "u16 \<Rightarrow> u8 \<Rightarrow> 'h \<Rightarrow> 'h"
  inw :: "u16 \<Rightarrow> 'h \<Rightarrow> u16 \<times> 'h"
  outw :: "u16 \<Rightarrow> u16 \<Rightarrow> 'h \<Rightarrow> 'h"

text \<open>The drive handle with the hardware behind its ports; \<open>initialised\<close> is the static flag.\<close>

record 'h AtaDrive =
  hw :: 'h
  sectors :: u32
  initialised :: bool

type_synonym ('h, 'a) ata = "('h AtaDrive, BlockError, 'a) io"

definition new_primary_slave :: "'h \<Rightarrow> 'h AtaDrive" where
  "new_primary_slave h = \<lparr>hw = h, sectors = 0, initialised = False\<rparr>"

definition port_read :: "'h ports \<Rightarrow> u16 \<Rightarrow> ('h, u8) ata" where
  "port_read P p = (\<lambda>d. let (b, h) = inb P p (hw d) in Some (Ok b, d\<lparr>hw := h\<rparr>))"

definition port_write :: "'h ports \<Rightarrow> u16 \<Rightarrow> u8 \<Rightarrow> ('h, unit) ata" where
  "port_write P p b = modify (\<lambda>d. d\<lparr>hw := outb P p b (hw d)\<rparr>)"

definition data_read :: "'h ports \<Rightarrow> ('h, u16) ata" where
  "data_read P = (\<lambda>d. let (w, h) = inw P (PRIMARY_BASE + REG_DATA) (hw d) in Some (Ok w, d\<lparr>hw := h\<rparr>))"

definition data_write :: "'h ports \<Rightarrow> u16 \<Rightarrow> ('h, unit) ata" where
  "data_write P w = modify (\<lambda>d. d\<lparr>hw := outw P (PRIMARY_BASE + REG_DATA) w (hw d)\<rparr>)"

definition status_read :: "'h ports \<Rightarrow> ('h, u8) ata" where
  "status_read P = port_read P (PRIMARY_BASE + REG_STATUS)"

section \<open>Operations\<close>

definition delay_400ns :: "'h ports \<Rightarrow> ('h, unit) ata" where
  "delay_400ns P = foldM (\<lambda>_ _. bindM (status_read P) (\<lambda>_. ret ())) [0..<4] ()"

text \<open>The polling loops, with the number of polls left.\<close>

fun not_busy_loop :: "'h ports \<Rightarrow> nat \<Rightarrow> ('h, unit) ata" where
  "not_busy_loop P 0 = fail Timeout"
| "not_busy_loop P (Suc n) = bindM (status_read P) (\<lambda>s.
     if s AND STATUS_BSY = 0
     then (if s AND STATUS_ERR \<noteq> 0 \<or> s AND STATUS_DF \<noteq> 0 then fail DriveError else ret ())
     else not_busy_loop P n)"

definition wait_not_busy :: "'h ports \<Rightarrow> ('h, unit) ata" where
  "wait_not_busy P = not_busy_loop P POLL_LIMIT"

fun drq_loop :: "'h ports \<Rightarrow> nat \<Rightarrow> ('h, unit) ata" where
  "drq_loop P 0 = fail Timeout"
| "drq_loop P (Suc n) = bindM (status_read P) (\<lambda>s.
     if s AND STATUS_BSY \<noteq> 0 then drq_loop P n
     else if s AND STATUS_ERR \<noteq> 0 \<or> s AND STATUS_DF \<noteq> 0 then fail DriveError
     else if s AND STATUS_DRQ \<noteq> 0 then ret ()
     else drq_loop P n)"

definition wait_drq :: "'h ports \<Rightarrow> ('h, unit) ata" where
  "wait_drq P = drq_loop P POLL_LIMIT"

definition select_lba28 :: "'h ports \<Rightarrow> u32 \<Rightarrow> u8 \<Rightarrow> ('h, unit) ata" where
  "select_lba28 P lba count =
     bindM (port_write P (PRIMARY_BASE + REG_DRIVE_HEAD) (0xF0 OR ucast (drop_bit 24 lba AND 0x0F))) (\<lambda>_.
     bindM (delay_400ns P) (\<lambda>_.
     bindM (port_write P (PRIMARY_BASE + REG_SECTOR_COUNT) count) (\<lambda>_.
     bindM (port_write P (PRIMARY_BASE + REG_LBA_LO) (ucast lba)) (\<lambda>_.
     bindM (port_write P (PRIMARY_BASE + REG_LBA_MID) (ucast (drop_bit 8 lba))) (\<lambda>_.
     port_write P (PRIMARY_BASE + REG_LBA_HI) (ucast (drop_bit 16 lba)))))))"

text \<open>The two bytes of a data word, low byte first, and the word of two bytes.\<close>

definition word_bytes :: "u16 \<Rightarrow> u8 list" where
  "word_bytes w = [ucast w, ucast (drop_bit 8 w)]"

definition bytes_word :: "u8 list \<Rightarrow> u16" where
  "bytes_word chunk = ucast (chunk ! 0) OR push_bit 8 (ucast (chunk ! 1))"

definition read_words :: "'h ports \<Rightarrow> nat \<Rightarrow> ('h, u16 list) ata" where
  "read_words P n = foldM (\<lambda>_ ws. bindM (data_read P) (\<lambda>w. ret (ws @ [w]))) [0..<n] []"

definition identify :: "'h ports \<Rightarrow> ('h, unit) ata" where
  "identify P =
     bindM (port_write P PRIMARY_CTRL 0x02) (\<lambda>_.
     bindM (port_write P (PRIMARY_BASE + REG_DRIVE_HEAD) 0xB0) (\<lambda>_.
     bindM (delay_400ns P) (\<lambda>_.
     bindM (port_write P (PRIMARY_BASE + REG_SECTOR_COUNT) 0) (\<lambda>_.
     bindM (port_write P (PRIMARY_BASE + REG_LBA_LO) 0) (\<lambda>_.
     bindM (port_write P (PRIMARY_BASE + REG_LBA_MID) 0) (\<lambda>_.
     bindM (port_write P (PRIMARY_BASE + REG_LBA_HI) 0) (\<lambda>_.
     bindM (port_write P (PRIMARY_BASE + REG_COMMAND) CMD_IDENTIFY) (\<lambda>_.
     bindM (delay_400ns P) (\<lambda>_.
     bindM (status_read P) (\<lambda>s.
       if s = 0 then fail DriveError
       else
         bindM (wait_not_busy P) (\<lambda>_.
         bindM (port_read P (PRIMARY_BASE + REG_LBA_MID)) (\<lambda>mid.
         bindM (if mid \<noteq> 0 then ret True
                else bindM (port_read P (PRIMARY_BASE + REG_LBA_HI)) (\<lambda>hi. ret (hi \<noteq> 0))) (\<lambda>not_ata.
           if not_ata then fail DriveError
           else
             bindM (wait_drq P) (\<lambda>_.
             bindM (read_words P 256) (\<lambda>ws.
             modify (\<lambda>d. d\<lparr>sectors := ucast (ws ! 60) OR push_bit 16 (ucast (ws ! 61))\<rparr>))))))))))))))))"

definition ata_read_block :: "'h ports \<Rightarrow> u64 \<Rightarrow> u8 list \<Rightarrow> ('h, nat \<times> u8 list) ata" where
  "ata_read_block P lba buf = bindM (gets sectors) (\<lambda>n.
     if lba \<ge> ucast n then fail OutOfRange
     else if length buf < BLOCK_SIZE then fail OutOfRange
     else
       bindM (wait_not_busy P) (\<lambda>_.
       bindM (select_lba28 P (ucast lba) 1) (\<lambda>_.
       bindM (port_write P (PRIMARY_BASE + REG_COMMAND) CMD_READ_SECTORS) (\<lambda>_.
       bindM (delay_400ns P) (\<lambda>_.
       bindM (wait_drq P) (\<lambda>_.
       bindM (liftO (slice_to BLOCK_SIZE buf)) (\<lambda>block.
       bindM (read_words P (length block div 2)) (\<lambda>ws.
       ret (BLOCK_SIZE, concat (map word_bytes ws) @ drop BLOCK_SIZE buf)))))))))"

definition ata_write_block :: "'h ports \<Rightarrow> u64 \<Rightarrow> u8 list \<Rightarrow> ('h, nat) ata" where
  "ata_write_block P lba buf = bindM (gets sectors) (\<lambda>n.
     if lba \<ge> ucast n then fail OutOfRange
     else if length buf < BLOCK_SIZE then fail OutOfRange
     else
       bindM (wait_not_busy P) (\<lambda>_.
       bindM (select_lba28 P (ucast lba) 1) (\<lambda>_.
       bindM (port_write P (PRIMARY_BASE + REG_COMMAND) CMD_WRITE_SECTORS) (\<lambda>_.
       bindM (delay_400ns P) (\<lambda>_.
       bindM (wait_drq P) (\<lambda>_.
       bindM (liftO (slice_to BLOCK_SIZE buf)) (\<lambda>block.
       bindM (foldM (\<lambda>chunk _. data_write P (bytes_word chunk)) (chunks_exact 2 block) ()) (\<lambda>_.
       bindM (wait_not_busy P) (\<lambda>_.
       ret BLOCK_SIZE)))))))))"

definition ata_device :: "'h ports \<Rightarrow> 'h AtaDrive BlockDevice" where
  "ata_device P = \<lparr>num_blocks = (\<lambda>d. ucast (sectors d)),
     read_block = ata_read_block P, write_block = ata_write_block P\<rparr>"

definition ata_init :: "'h ports \<Rightarrow> ('h, unit) ata" where
  "ata_init P = bindM (gets initialised) (\<lambda>i.
     if i then ret ()
     else bindM (identify P) (\<lambda>_. modify (\<lambda>d. d\<lparr>initialised := True\<rparr>)))"

section \<open>The driver on arbitrary hardware\<close>

lemma settles_ports [settles_intros]:
  "settles (port_read P p)" "settles (port_write P p b)" "settles (data_read P)" "settles (data_write P w)"
  by (auto simp: settles_def port_read_def port_write_def data_read_def data_write_def modify_run split: prod.split)

lemma settles_polls [settles_intros]:
  "settles (status_read P)" "settles (delay_400ns P)" "settles (wait_not_busy P)" "settles (wait_drq P)"
proof -
  show status: "settles (status_read P)" by (simp add: status_read_def settles_intros)
  then show "settles (delay_400ns P)" unfolding delay_400ns_def by (intro settles_intros)
  have "settles (not_busy_loop P n)" for n
    by (induction n) (auto intro!: settles_intros status)
  then show "settles (wait_not_busy P)" by (simp add: wait_not_busy_def)
  have "settles (drq_loop P n)" for n
    by (induction n) (auto intro!: settles_intros status)
  then show "settles (wait_drq P)" by (simp add: wait_drq_def)
qed

lemma settles_ata:
  "settles (ata_read_block P lba buf)" "settles (ata_write_block P lba buf)" "settles (ata_init P)"
  unfolding ata_read_block_def ata_write_block_def ata_init_def identify_def select_lba28_def read_words_def
  by (intro settles_intros; simp)+

text \<open>
  A request outside the disk, or with a buffer shorter than a block, is refused with
  \<open>OutOfRange\<close> before any port is touched.
\<close>

lemma ata_out_of_range:
  assumes "ucast (sectors d) \<le> lba \<or> length buf < 512"
  shows "ata_read_block P lba buf d = Some (Err OutOfRange, d)" "ata_write_block P lba buf d = Some (Err OutOfRange, d)"
  using assms by (auto simp: ata_read_block_def ata_write_block_def bindM_Ok gets_run fail_run BLOCK_SIZE_def)

text \<open>A drive whose status never leaves \<open>BSY\<close>: every poll is spent, then the request times out.\<close>

definition poll :: "'h ports \<Rightarrow> 'h \<Rightarrow> 'h" where
  "poll P h = snd (inb P 0x1F7 h)"

lemma not_busy_loop_stuck:
  assumes "\<And>h. fst (inb P 0x1F7 h) AND STATUS_BSY \<noteq> 0"
  shows "not_busy_loop P n d = Some (Err Timeout, d\<lparr>hw := (poll P ^^ n) (hw d)\<rparr>)"
proof (induction n arbitrary: d)
  case (Suc n)
  have "status_read P d = Some (Ok (fst (inb P 0x1F7 (hw d))), d\<lparr>hw := poll P (hw d)\<rparr>)"
    by (simp add: status_read_def port_read_def PRIMARY_BASE_def REG_STATUS_def poll_def split: prod.split)
  with Suc [of "d\<lparr>hw := poll P (hw d)\<rparr>"] assms [of "hw d"] show ?case by (simp add: bindM_Ok funpow_swap1)
qed (simp add: fail_run)

lemma ata_stuck:
  assumes "\<And>h. fst (inb P 0x1F7 h) AND STATUS_BSY \<noteq> 0" "lba < ucast (sectors d)" "512 \<le> length buf"
  shows "ata_read_block P lba buf d = Some (Err Timeout, d\<lparr>hw := (poll P ^^ 100000) (hw d)\<rparr>)"
    "ata_write_block P lba buf d = Some (Err Timeout, d\<lparr>hw := (poll P ^^ 100000) (hw d)\<rparr>)"
  using assms(2,3) not_busy_loop_stuck [OF assms(1), of POLL_LIMIT d]
  by (simp_all add: ata_read_block_def ata_write_block_def bindM_Ok gets_run BLOCK_SIZE_def wait_not_busy_def bindM_Err POLL_LIMIT_def flip: not_less)

text \<open>
  C40: the driver never hangs and never panics: on every hardware, faulty or absent, reading a block, writing one and probing the
  disk return a result or an error, and the 512 bytes they access of the caller's buffer are always there. A request
  outside the disk, or with a buffer shorter than a block, is refused with \<open>OutOfRange\<close> before any port is touched; on a drive that stays busy
  for ever a valid request gives up with \<open>Timeout\<close> after exactly 100000 reads of the status port.
\<close>

theorem ata_always_returns:
  "settles (ata_read_block P lba buf) \<and> settles (ata_write_block P lba buf) \<and> settles (ata_init P)
   \<and> (ucast (sectors d) \<le> lba \<or> length buf < 512 \<longrightarrow>
        ata_read_block P lba buf d = Some (Err OutOfRange, d) \<and> ata_write_block P lba buf d = Some (Err OutOfRange, d))
   \<and> ((\<forall>h. fst (inb P 0x1F7 h) AND STATUS_BSY \<noteq> 0) \<and> lba < ucast (sectors d) \<and> 512 \<le> length buf \<longrightarrow>
        ata_read_block P lba buf d = Some (Err Timeout, d\<lparr>hw := (poll P ^^ 100000) (hw d)\<rparr>)
        \<and> ata_write_block P lba buf d = Some (Err Timeout, d\<lparr>hw := (poll P ^^ 100000) (hw d)\<rparr>))"
  using settles_ata [of P] ata_out_of_range [of d lba buf P] ata_stuck [of P lba d buf] by blast

text \<open>Ports on which every byte read is \<open>0xFF\<close> - an empty bus - and the hardware counts the reads.\<close>

definition floating_bus :: "nat ports" where
  "floating_bus = \<lparr>inb = (\<lambda>_ n. (0xFF, Suc n)), outb = (\<lambda>_ _ n. n), inw = (\<lambda>_ n. (0xFFFF, Suc n)), outw = (\<lambda>_ _ n. n)\<rparr>"

theorem ata_always_returns_witness:
  "ata_read_block floating_bus 3 (replicate 512 0) \<lparr>hw = 0, sectors = 8, initialised = True\<rparr>
     = Some (Err Timeout, \<lparr>hw = 100000, sectors = 8, initialised = True\<rparr>)
   \<and> ata_write_block floating_bus 8 (replicate 512 0) \<lparr>hw = 0, sectors = 8, initialised = True\<rparr>
     = Some (Err OutOfRange, \<lparr>hw = 0, sectors = 8, initialised = True\<rparr>)"
proof -
  have "poll floating_bus = Suc" by (simp add: poll_def floating_bus_def fun_eq_iff)
  moreover have "(Suc ^^ n) 0 = n" for n by (induction n) simp_all
  moreover have "\<forall>h. fst (inb floating_bus 0x1F7 h) AND STATUS_BSY \<noteq> 0" by (simp add: floating_bus_def STATUS_BSY_def)
  ultimately show ?thesis
    using ata_always_returns [of floating_bus 3 "replicate 512 0" "\<lparr>hw = 0, sectors = 8, initialised = True\<rparr>"]
      ata_always_returns [of floating_bus 8 "replicate 512 0" "\<lparr>hw = 0, sectors = 8, initialised = True\<rparr>"] by simp
qed

section \<open>What a disk in PIO mode promises\<close>

datatype ata_phase = Idle | DataIn "u16 list" | DataOut nat "u16 list"

text \<open>
  The part of the controller's state the protocol is about: the transfer in progress, how many
  status reads will still see \<open>BSY\<close>, the task file registers, and the contents of the disk.
\<close>

record ata_view =
  phase :: ata_phase
  busy :: nat
  head :: u8
  cnt :: u8
  lba0 :: u8
  lba1 :: u8
  lba2 :: u8
  disk :: "nat \<Rightarrow> u8 list"
  capacity :: nat

definition reg_lba :: "ata_view \<Rightarrow> u32" where
  "reg_lba v = ucast (lba0 v) OR push_bit 8 (ucast (lba1 v)) OR push_bit 16 (ucast (lba2 v))
     OR push_bit 24 (ucast (head v AND 0x0F))"

definition block_words :: "u8 list \<Rightarrow> u16 list" where
  "block_words b = map bytes_word (chunks_exact 2 b)"

text \<open>
  A drive that answers every command within the polling limit. The laws are those of the ATA
  specification for IDENTIFY DEVICE, READ SECTORS and WRITE SECTORS with a sector count of one,
  addressed to device 1 in LBA mode; nothing is assumed of any other access.
\<close>

locale ata_controller =
  fixes P :: "'h ports"
    and view :: "'h \<Rightarrow> ata_view"
  assumes status_busy: "0 < busy (view h) \<Longrightarrow>
      \<exists>s h'. inb P 0x1F7 h = (s, h') \<and> s AND STATUS_BSY \<noteq> 0 \<and> view h' = (view h)\<lparr>busy := busy (view h) - 1\<rparr>"
    and status_idle: "busy (view h) = 0 \<Longrightarrow>
      \<exists>s h'. inb P 0x1F7 h = (s, h') \<and> s \<noteq> 0 \<and> s AND STATUS_BSY = 0 \<and> s AND STATUS_ERR = 0 \<and> s AND STATUS_DF = 0
        \<and> (s AND STATUS_DRQ \<noteq> 0 \<longleftrightarrow> phase (view h) \<noteq> Idle) \<and> view h' = view h"
    and write_ctrl: "view (outb P 0x3F6 b h) = view h"
    and write_regs: "busy (view h) = 0 \<Longrightarrow> view (outb P 0x1F6 b h) = (view h)\<lparr>head := b\<rparr>"
      "busy (view h) = 0 \<Longrightarrow> view (outb P 0x1F2 b h) = (view h)\<lparr>cnt := b\<rparr>"
      "busy (view h) = 0 \<Longrightarrow> view (outb P 0x1F3 b h) = (view h)\<lparr>lba0 := b\<rparr>"
      "busy (view h) = 0 \<Longrightarrow> view (outb P 0x1F4 b h) = (view h)\<lparr>lba1 := b\<rparr>"
      "busy (view h) = 0 \<Longrightarrow> view (outb P 0x1F5 b h) = (view h)\<lparr>lba2 := b\<rparr>"
    and read_regs: "busy (view h) = 0 \<Longrightarrow> \<exists>h'. inb P 0x1F4 h = (lba1 (view h), h') \<and> view h' = view h"
      "busy (view h) = 0 \<Longrightarrow> \<exists>h'. inb P 0x1F5 h = (lba2 (view h), h') \<and> view h' = view h"
    and cmd_identify: "\<lbrakk>busy (view h) = 0; phase (view h) = Idle\<rbrakk> \<Longrightarrow>
      \<exists>n ws. n < POLL_LIMIT \<and> length ws = 256
        \<and> unat (ucast (ws ! 60) OR push_bit 16 (ucast (ws ! 61)) :: u32) = capacity (view h)
        \<and> view (outb P 0x1F7 CMD_IDENTIFY h) = (view h)\<lparr>phase := DataIn ws, busy := n, lba1 := 0, lba2 := 0\<rparr>"
    and cmd_read: "\<lbrakk>busy (view h) = 0; phase (view h) = Idle; cnt (view h) = 1; head (view h) AND 0xF0 = 0xF0;
        unat (reg_lba (view h)) < capacity (view h)\<rbrakk> \<Longrightarrow>
      \<exists>n. n < POLL_LIMIT \<and> view (outb P 0x1F7 CMD_READ_SECTORS h)
        = (view h)\<lparr>phase := DataIn (block_words (disk (view h) (unat (reg_lba (view h))))), busy := n\<rparr>"
    and cmd_write: "\<lbrakk>busy (view h) = 0; phase (view h) = Idle; cnt (view h) = 1; head (view h) AND 0xF0 = 0xF0;
        unat (reg_lba (view h)) < capacity (view h)\<rbrakk> \<Longrightarrow>
      \<exists>n. n < POLL_LIMIT \<and> view (outb P 0x1F7 CMD_WRITE_SECTORS h)
        = (view h)\<lparr>phase := DataOut (unat (reg_lba (view h))) [], busy := n\<rparr>"
    and data_in: "\<lbrakk>busy (view h) = 0; phase (view h) = DataIn (w # ws)\<rbrakk> \<Longrightarrow>
      \<exists>h'. inw P 0x1F0 h = (w, h') \<and> view h' = (view h)\<lparr>phase := if ws = [] then Idle else DataIn ws\<rparr>"
    and data_out: "\<lbrakk>busy (view h) = 0; phase (view h) = DataOut lba ws; Suc (length ws) < 256\<rbrakk> \<Longrightarrow>
      view (outw P 0x1F0 w h) = (view h)\<lparr>phase := DataOut lba (ws @ [w])\<rparr>"
    and data_out_last: "\<lbrakk>busy (view h) = 0; phase (view h) = DataOut lba ws; Suc (length ws) = 256\<rbrakk> \<Longrightarrow>
      \<exists>n. n < POLL_LIMIT \<and> view (outw P 0x1F0 w h) = (view h)\<lparr>phase := Idle, busy := n,
        disk := (disk (view h))(lba := concat (map word_bytes (ws @ [w])))\<rparr>"

text \<open>The drive between two requests.\<close>

definition ata_ok :: "('h \<Rightarrow> ata_view) \<Rightarrow> 'h AtaDrive \<Rightarrow> bool" where
  "ata_ok view d \<longleftrightarrow> phase (view (hw d)) = Idle \<and> busy (view (hw d)) < POLL_LIMIT
     \<and> unat (sectors d) = capacity (view (hw d)) \<and> capacity (view (hw d)) \<le> 2 ^ 28
     \<and> (\<forall>n. length (disk (view (hw d)) n) = BLOCK_SIZE)"

definition ata_blk :: "('h \<Rightarrow> ata_view) \<Rightarrow> 'h AtaDrive \<Rightarrow> nat \<Rightarrow> u8 list" where
  "ata_blk view d = disk (view (hw d))"

text \<open>A drive whose hardware shows the given view.\<close>

definition shows_view :: "('h \<Rightarrow> ata_view) \<Rightarrow> u32 \<Rightarrow> ata_view \<Rightarrow> 'h AtaDrive \<Rightarrow> bool" where
  "shows_view view n v d \<longleftrightarrow> view (hw d) = v \<and> sectors d = n"

lemmas port_numbers = PRIMARY_BASE_def PRIMARY_CTRL_def REG_DATA_def REG_SECTOR_COUNT_def REG_LBA_LO_def
  REG_LBA_MID_def REG_LBA_HI_def REG_DRIVE_HEAD_def REG_STATUS_def REG_COMMAND_def

lemma word_bytes_bytes_word: "length c = 2 \<Longrightarrow> word_bytes (bytes_word c) = c"
proof -
  assume "length c = 2"
  then obtain a b where c: "c = [a, b]" by (auto simp: numeral_2_eq_2 length_Suc_conv)
  have "ucast (ucast a OR push_bit 8 (ucast b) :: u16) = a"
    by (rule bit_word_eqI) (auto simp: bit_simps)
  moreover have "ucast (drop_bit 8 (ucast a OR push_bit 8 (ucast b) :: u16)) = b"
    by (rule bit_word_eqI) (auto simp: bit_simps dest: bit_imp_le_length)
  ultimately show ?thesis by (simp add: c word_bytes_def bytes_word_def)
qed

lemma words_of_bytes:
  "length b = 2 * n \<Longrightarrow> concat (map word_bytes (block_words b)) = b \<and> length (block_words b) = n"
proof (induction n arbitrary: b)
  case (Suc n)
  then obtain c b' where b: "b = c @ b'" "length c = 2" "length b' = 2 * n"
    by (metis append_take_drop_id length_drop length_take add_diff_cancel_left' le_add1 min.absorb2 mult_Suc_right)
  with Suc.IH [of b'] show ?case by (simp add: block_words_def word_bytes_bytes_word)
qed (simp add: block_words_def)

text \<open>The address split over the registers is put together again.\<close>

lemma reg_lba_select:
  fixes lba :: u32
  assumes "unat lba < 2 ^ 28"
  shows "ucast (ucast lba :: u8) OR push_bit 8 (ucast (ucast (drop_bit 8 lba) :: u8))
     OR push_bit 16 (ucast (ucast (drop_bit 16 lba) :: u8))
     OR push_bit 24 (ucast ((0xF0 OR ucast (drop_bit 24 lba AND 0x0F) :: u8) AND 0x0F)) = lba"
proof (rule bit_word_eqI)
  fix n assume n: "n < LENGTH(32)"
  have "take_bit 28 (unat lba) = unat lba" using assms by (rule take_bit_nat_eq_self)
  moreover have "bit lba n = bit (unat lba) n" using n by (simp add: bit_unsigned_iff)
  ultimately have hi: "\<not> bit lba n" if "28 \<le> n" using that by (metis bit_take_bit_iff not_le)
  have f: "(0x0F :: u8) = mask 4" "(0x0F :: u32) = mask 4" "(0xF0 :: u8) = push_bit 4 (mask 4)"
    by (simp_all add: mask_eq_exp_minus_1 push_bit_eq_mult)
  consider "n < 8" | "8 \<le> n" "n < 16" | "16 \<le> n" "n < 24" | "24 \<le> n" "n < 28" | "28 \<le> n" "n < 32"
    using n by force
  then show "bit (ucast (ucast lba :: u8) OR push_bit 8 (ucast (ucast (drop_bit 8 lba) :: u8))
     OR push_bit 16 (ucast (ucast (drop_bit 16 lba) :: u8))
     OR push_bit 24 (ucast ((0xF0 OR ucast (drop_bit 24 lba AND 0x0F) :: u8) AND 0x0F)) :: u32) n = bit lba n"
    unfolding f by cases (use hi in \<open>auto simp: bit_simps\<close>)
qed

lemma head_select: "(0xF0 OR b :: u8) AND 0xF0 = 0xF0"
  by (rule bit_word_eqI) (auto simp: bit_simps)

lemma unat_ucast_64 [simp]: "unat (ucast (n :: u32) :: u64) = unat n"
  using unsigned_less [of n, where 'a = nat] by (simp add: unsigned_ucast_eq take_bit_nat_eq_self)

lemma unat_ucast_32: "unat (lba :: u64) < 2 ^ 32 \<Longrightarrow> unat (ucast lba :: u32) = unat lba"
  by (simp add: unsigned_ucast_eq take_bit_nat_eq_self)

text \<open>The view when these words remain to be read.\<close>

definition after_in :: "ata_view \<Rightarrow> u16 list \<Rightarrow> ata_view" where
  "after_in v ws = v\<lparr>phase := if ws = [] then Idle else DataIn ws\<rparr>"

context ata_controller
begin

abbreviation at_view :: "u32 \<Rightarrow> ata_view \<Rightarrow> 'h AtaDrive \<Rightarrow> bool" where
  "at_view \<equiv> shows_view view"

lemma returns_status:
  "returns (at_view n v) (status_read P) (\<lambda>s d. s \<noteq> 0 \<and> at_view n (v\<lparr>busy := busy v - 1\<rparr>) d
     \<and> (s AND STATUS_BSY = 0 \<longleftrightarrow> busy v = 0)
     \<and> (busy v = 0 \<longrightarrow> s AND STATUS_ERR = 0 \<and> s AND STATUS_DF = 0 \<and> (s AND STATUS_DRQ \<noteq> 0 \<longleftrightarrow> phase v \<noteq> Idle)))"
proof (rule returnsI)
  fix d assume d: "at_view n v d"
  then have v: "view (hw d) = v" by (simp add: shows_view_def)
  show "\<exists>s d'. status_read P d = Some (Ok s, d') \<and> s \<noteq> 0 \<and> at_view n (v\<lparr>busy := busy v - 1\<rparr>) d'
     \<and> (s AND STATUS_BSY = 0 \<longleftrightarrow> busy v = 0)
     \<and> (busy v = 0 \<longrightarrow> s AND STATUS_ERR = 0 \<and> s AND STATUS_DF = 0 \<and> (s AND STATUS_DRQ \<noteq> 0 \<longleftrightarrow> phase v \<noteq> Idle))"
  proof (cases "busy v = 0")
    case True
    from status_idle [of "hw d"] v True obtain s h' where
      "inb P 0x1F7 (hw d) = (s, h')" "s \<noteq> 0" "s AND STATUS_BSY = 0" "s AND STATUS_ERR = 0" "s AND STATUS_DF = 0"
      "s AND STATUS_DRQ \<noteq> 0 \<longleftrightarrow> phase v \<noteq> Idle" "view h' = v" by auto
    moreover have "v\<lparr>busy := busy v - 1\<rparr> = v" using True by simp
    ultimately show ?thesis using d True
      by (simp add: status_read_def port_read_def port_numbers shows_view_def)
  next
    case False
    from status_busy [of "hw d"] v False obtain s h' where
      s: "inb P 0x1F7 (hw d) = (s, h')" "s AND STATUS_BSY \<noteq> 0" "view h' = v\<lparr>busy := busy v - 1\<rparr>" by auto
    moreover have "s \<noteq> 0" using s(2) by auto
    ultimately show ?thesis using d False
      by (simp add: status_read_def port_read_def port_numbers shows_view_def)
  qed
qed

lemma returns_delay: "returns (at_view n v) (delay_400ns P) (\<lambda>_. at_view n (v\<lparr>busy := busy v - 4\<rparr>))"
proof -
  have "returns (at_view n v) (foldM (\<lambda>_ _. bindM (status_read P) (\<lambda>_. ret ())) xs u)
      (\<lambda>_. at_view n (v\<lparr>busy := busy v - length xs\<rparr>))" for xs :: "nat list" and u v
  proof (induction xs arbitrary: u v)
    case (Cons x xs)
    have "returns (at_view n v) (bindM (status_read P) (\<lambda>_. ret ())) (\<lambda>_. at_view n (v\<lparr>busy := busy v - 1\<rparr>))"
      by (rule returns_bindM [OF returns_status]) (auto intro: returns_ret)
    from returns_bindM [OF this Cons.IH] show ?case by simp
  qed (auto intro: returns_ret)
  from this [where xs = "[0..<4]"] show ?thesis by (simp add: delay_400ns_def)
qed

lemma returns_not_busy_loop:
  "busy v < k \<Longrightarrow> returns (at_view n v) (not_busy_loop P k) (\<lambda>_. at_view n (v\<lparr>busy := 0\<rparr>))"
proof (induction k arbitrary: v)
  case (Suc k)
  show ?case unfolding not_busy_loop.simps
  proof (rule returns_bindM [OF returns_status])
    fix s
    show "returns (\<lambda>d. s \<noteq> 0 \<and> at_view n (v\<lparr>busy := busy v - 1\<rparr>) d
       \<and> (s AND STATUS_BSY = 0 \<longleftrightarrow> busy v = 0)
       \<and> (busy v = 0 \<longrightarrow> s AND STATUS_ERR = 0 \<and> s AND STATUS_DF = 0 \<and> (s AND STATUS_DRQ \<noteq> 0 \<longleftrightarrow> phase v \<noteq> Idle)))
     (if s AND STATUS_BSY = 0
      then if s AND STATUS_ERR \<noteq> 0 \<or> s AND STATUS_DF \<noteq> 0 then fail DriveError else ret ()
      else not_busy_loop P k) (\<lambda>_. at_view n (v\<lparr>busy := 0\<rparr>))"
    proof (cases "busy v = 0")
      case True
      then show ?thesis by (auto simp: returns_def ret_run)
    next
      case False
      with Suc.prems Suc.IH [of "v\<lparr>busy := busy v - 1\<rparr>"] show ?thesis by (auto simp: returns_def)
    qed
  qed
qed simp

lemma returns_wait_not_busy:
  "busy v < POLL_LIMIT \<Longrightarrow> returns (at_view n v) (wait_not_busy P) (\<lambda>_. at_view n (v\<lparr>busy := 0\<rparr>))"
  unfolding wait_not_busy_def by (rule returns_not_busy_loop)

lemma returns_drq_loop:
  "busy v < k \<Longrightarrow> phase v \<noteq> Idle \<Longrightarrow> returns (at_view n v) (drq_loop P k) (\<lambda>_. at_view n (v\<lparr>busy := 0\<rparr>))"
proof (induction k arbitrary: v)
  case (Suc k)
  show ?case unfolding drq_loop.simps
  proof (rule returns_bindM [OF returns_status])
    fix s
    show "returns (\<lambda>d. s \<noteq> 0 \<and> at_view n (v\<lparr>busy := busy v - 1\<rparr>) d
       \<and> (s AND STATUS_BSY = 0 \<longleftrightarrow> busy v = 0)
       \<and> (busy v = 0 \<longrightarrow> s AND STATUS_ERR = 0 \<and> s AND STATUS_DF = 0 \<and> (s AND STATUS_DRQ \<noteq> 0 \<longleftrightarrow> phase v \<noteq> Idle)))
     (if s AND STATUS_BSY \<noteq> 0 then drq_loop P k
      else if s AND STATUS_ERR \<noteq> 0 \<or> s AND STATUS_DF \<noteq> 0 then fail DriveError
      else if s AND STATUS_DRQ \<noteq> 0 then ret () else drq_loop P k) (\<lambda>_. at_view n (v\<lparr>busy := 0\<rparr>))"
    proof (cases "busy v = 0")
      case True
      then show ?thesis using Suc.prems by (auto simp: returns_def ret_run)
    next
      case False
      with Suc.prems Suc.IH [of "v\<lparr>busy := busy v - 1\<rparr>"] show ?thesis by (auto simp: returns_def)
    qed
  qed
qed simp

lemma returns_wait_drq:
  "busy v < POLL_LIMIT \<Longrightarrow> phase v \<noteq> Idle \<Longrightarrow> returns (at_view n v) (wait_drq P) (\<lambda>_. at_view n (v\<lparr>busy := 0\<rparr>))"
  unfolding wait_drq_def by (rule returns_drq_loop)

lemma returns_port_write:
  "(\<And>h. view h = v \<Longrightarrow> view (outb P p b h) = v') \<Longrightarrow>
   returns (at_view n v) (port_write P p b) (\<lambda>_. at_view n v')"
  unfolding port_write_def by (rule returns_modify) (simp add: shows_view_def)

lemma returns_select:
  assumes "busy v = 0" "unat lba < 2 ^ 28"
  shows "returns (at_view n v) (select_lba28 P lba 1) (\<lambda>_ d. \<exists>v'. at_view n v' d \<and> busy v' = 0
    \<and> phase v' = phase v \<and> disk v' = disk v \<and> capacity v' = capacity v \<and> cnt v' = 1
    \<and> head v' AND 0xF0 = 0xF0 \<and> reg_lba v' = lba)"
proof -
  let ?hd = "0xF0 OR ucast (drop_bit 24 lba AND 0x0F) :: u8"
  let ?v1 = "v\<lparr>head := ?hd\<rparr>"
  let ?v2 = "?v1\<lparr>cnt := 1\<rparr>"
  let ?v3 = "?v2\<lparr>lba0 := ucast lba\<rparr>"
  let ?v4 = "?v3\<lparr>lba1 := ucast (drop_bit 8 lba)\<rparr>"
  let ?v = "?v4\<lparr>lba2 := ucast (drop_bit 16 lba)\<rparr>"
  have w: "returns (at_view n v) (port_write P (PRIMARY_BASE + REG_DRIVE_HEAD) ?hd) (\<lambda>_. at_view n ?v1)"
    "returns (at_view n ?v1) (port_write P (PRIMARY_BASE + REG_SECTOR_COUNT) 1) (\<lambda>_. at_view n ?v2)"
    "returns (at_view n ?v2) (port_write P (PRIMARY_BASE + REG_LBA_LO) (ucast lba)) (\<lambda>_. at_view n ?v3)"
    "returns (at_view n ?v3) (port_write P (PRIMARY_BASE + REG_LBA_MID) (ucast (drop_bit 8 lba))) (\<lambda>_. at_view n ?v4)"
    "returns (at_view n ?v4) (port_write P (PRIMARY_BASE + REG_LBA_HI) (ucast (drop_bit 16 lba))) (\<lambda>_. at_view n ?v)"
    by (rule returns_port_write, simp add: port_numbers write_regs assms)+
  have "?v1\<lparr>busy := busy ?v1 - 4\<rparr> = ?v1" using assms by simp
  then have d: "returns (at_view n ?v1) (delay_400ns P) (\<lambda>_. at_view n ?v1)"
    using returns_delay [of n ?v1] by simp
  have "returns (at_view n v) (select_lba28 P lba 1) (\<lambda>_. at_view n ?v)"
    unfolding select_lba28_def
    by (rule returns_seq [OF w(1)], rule returns_seq [OF d], rule returns_seq [OF w(2)],
        rule returns_seq [OF w(3)], rule returns_seq [OF w(4)], rule w(5))
  then show ?thesis
    by (rule returns_conseq) (use assms reg_lba_select [OF assms(2)] head_select in \<open>fastforce simp: reg_lba_def\<close>)+
qed

lemma returns_read_words_aux:
  "busy v = 0 \<Longrightarrow> phase v = DataIn (ws @ rest) \<Longrightarrow> ws @ rest \<noteq> [] \<Longrightarrow> length xs = length ws \<Longrightarrow>
   returns (at_view n v) (foldM (\<lambda>_ ws. bindM (data_read P) (\<lambda>w. ret (ws @ [w]))) xs acc)
     (\<lambda>r d. r = acc @ ws \<and> at_view n (after_in v rest) d)"
proof (induction xs arbitrary: v ws acc)
  case Nil
  then have "after_in v rest = v" by (simp add: after_in_def)
  with Nil show ?case by (auto intro: returns_ret)
next
  case (Cons x xs)
  then obtain w ws' where ws: "ws = w # ws'" by (cases ws) auto
  let ?v = "after_in v (ws' @ rest)"
  have one: "returns (at_view n v) (bindM (data_read P) (\<lambda>w. ret (acc @ [w]))) (\<lambda>r d. r = acc @ [w] \<and> at_view n ?v d)"
  proof (rule returnsI)
    fix d assume d: "at_view n v d"
    with data_in [of "hw d" w "ws' @ rest"] Cons.prems ws obtain h' where
      "inw P 0x1F0 (hw d) = (w, h')" "view h' = ?v" by (auto simp: shows_view_def after_in_def)
    then show "\<exists>r d'. bindM (data_read P) (\<lambda>w. ret (acc @ [w])) d = Some (Ok r, d') \<and> r = acc @ [w] \<and> at_view n ?v d'"
      using d by (simp add: data_read_def port_numbers bindM_def ret_run shows_view_def)
  qed
  show ?case
  proof (cases "ws' @ rest = []")
    case True
    then have xs: "xs = []" using Cons.prems ws by simp
    show ?thesis unfolding foldM.simps xs
      by (rule returns_bindM [OF one], rule returns_ret) (use True ws in auto)
  next
    case False
    have rec: "returns (at_view n ?v) (foldM (\<lambda>_ ws. bindM (data_read P) (\<lambda>w. ret (ws @ [w]))) xs (acc @ [w]))
        (\<lambda>r d. r = (acc @ [w]) @ ws' \<and> at_view n (after_in ?v rest) d)"
      by (rule Cons.IH) (use Cons.prems ws False in \<open>auto simp: after_in_def\<close>)
    have fin: "after_in ?v rest = after_in v rest" by (simp add: after_in_def)
    show ?thesis unfolding foldM.simps
      by (rule returns_bindM [OF one]) (use rec fin ws in \<open>auto simp: returns_def\<close>)
  qed
qed

lemma returns_read_words:
  assumes "busy v = 0" "phase v = DataIn ws" "ws \<noteq> []" "length ws = k"
  shows "returns (at_view n v) (read_words P k) (\<lambda>r d. r = ws \<and> at_view n (v\<lparr>phase := Idle\<rparr>) d)"
  using returns_read_words_aux [of v ws "[]" "[0..<k]" n "[]"] assms by (simp add: read_words_def after_in_def)

text \<open>Sending the words of a block: all but the last, then the last.\<close>

lemma returns_write_words:
  "busy v = 0 \<Longrightarrow> phase v = DataOut lba ws \<Longrightarrow> length ws + length cs = 256 \<Longrightarrow> cs \<noteq> [] \<Longrightarrow>
   returns (at_view n v) (foldM (\<lambda>chunk _. data_write P (bytes_word chunk)) cs ())
     (\<lambda>_ d. \<exists>k < POLL_LIMIT. at_view n (v\<lparr>phase := Idle, busy := k,
        disk := (disk v)(lba := concat (map word_bytes (ws @ map bytes_word cs)))\<rparr>) d)"
proof (induction cs arbitrary: v ws)
  case (Cons c cs)
  let ?w = "bytes_word c"
  show ?case
  proof (cases "cs = []")
    case True
    show ?thesis
    proof (rule returnsI)
      fix d assume d: "at_view n v d"
      with data_out_last [of "hw d" lba ws ?w] Cons.prems True obtain k where
        "k < POLL_LIMIT" "view (outw P 0x1F0 ?w (hw d)) = v\<lparr>phase := Idle, busy := k,
          disk := (disk v)(lba := concat (map word_bytes (ws @ [?w])))\<rparr>" by (auto simp: shows_view_def)
      then show "\<exists>x d'. foldM (\<lambda>chunk _. data_write P (bytes_word chunk)) (c # cs) () d = Some (Ok x, d')
          \<and> (\<exists>k < POLL_LIMIT. at_view n (v\<lparr>phase := Idle, busy := k,
            disk := (disk v)(lba := concat (map word_bytes (ws @ map bytes_word (c # cs))))\<rparr>) d')"
        using d True by (auto simp: data_write_def port_numbers bindM_Ok modify_run ret_run shows_view_def)
    qed
  next
    case False
    let ?v = "v\<lparr>phase := DataOut lba (ws @ [?w])\<rparr>"
    have len: "Suc (length ws) < 256" using Cons.prems(3) False by (cases cs) auto
    have one: "returns (at_view n v) (data_write P ?w) (\<lambda>_. at_view n ?v)"
      unfolding data_write_def using Cons.prems(1,2) data_out [OF _ _ len]
      by (intro returns_modify) (auto simp: shows_view_def port_numbers)
    have "returns (at_view n ?v) (foldM (\<lambda>chunk _. data_write P (bytes_word chunk)) cs ())
        (\<lambda>_ d. \<exists>k < POLL_LIMIT. at_view n (?v\<lparr>phase := Idle, busy := k,
          disk := (disk ?v)(lba := concat (map word_bytes ((ws @ [?w]) @ map bytes_word cs)))\<rparr>) d)"
      by (rule Cons.IH) (use Cons.prems False in auto)
    then show ?thesis unfolding foldM.simps by (intro returns_seq [OF one]) (simp add: fun_upd_def)
  qed
qed simp

lemma returns_command:
  assumes "busy v = 0" "phase v = Idle" "cnt v = 1" "head v AND 0xF0 = 0xF0" "unat (reg_lba v) < capacity v"
  shows "returns (at_view n v) (port_write P (PRIMARY_BASE + REG_COMMAND) CMD_READ_SECTORS)
      (\<lambda>_ d. \<exists>k < POLL_LIMIT. at_view n (v\<lparr>phase := DataIn (block_words (disk v (unat (reg_lba v)))), busy := k\<rparr>) d)"
    and "returns (at_view n v) (port_write P (PRIMARY_BASE + REG_COMMAND) CMD_WRITE_SECTORS)
      (\<lambda>_ d. \<exists>k < POLL_LIMIT. at_view n (v\<lparr>phase := DataOut (unat (reg_lba v)) [], busy := k\<rparr>) d)"
  unfolding port_write_def
  by (rule returns_modify, use cmd_read cmd_write assms in \<open>fastforce simp: shows_view_def port_numbers\<close>)+

lemma returns_ex:
  "(\<And>k. C k \<Longrightarrow> returns (P' k) m Q) \<Longrightarrow> returns (\<lambda>d. \<exists>k. C k \<and> P' k d) m Q"
  by (auto simp: returns_def)

text \<open>The common part of both requests, up to the data phase.\<close>

lemma returns_drq_after:
  assumes "k < POLL_LIMIT" "phase v \<noteq> Idle" "busy v = k"
    and "returns (at_view n (v\<lparr>busy := 0\<rparr>)) m Q"
  shows "returns (at_view n v) (bindM (delay_400ns P) (\<lambda>_. bindM (wait_drq P) (\<lambda>_. m))) Q"
proof -
  have "returns (at_view n (v\<lparr>busy := busy v - 4\<rparr>)) (wait_drq P) (\<lambda>_. at_view n (v\<lparr>busy := 0\<rparr>))"
    using returns_wait_drq [of "v\<lparr>busy := busy v - 4\<rparr>" n] assms by simp
  from returns_seq [OF returns_delay returns_seq [OF this assms(4)]] show ?thesis .
qed

lemma returns_request:
  assumes v: "busy v < POLL_LIMIT" "phase v = Idle" and lba: "unat lba < capacity v" "capacity v \<le> 2 ^ 28"
    and m: "\<And>v'. \<lbrakk>busy v' = 0; phase v' = Idle; disk v' = disk v; capacity v' = capacity v; cnt v' = 1;
      head v' AND 0xF0 = 0xF0; reg_lba v' = lba\<rbrakk> \<Longrightarrow> returns (at_view n v') m Q"
  shows "returns (at_view n v) (bindM (wait_not_busy P) (\<lambda>_. bindM (select_lba28 P lba 1) (\<lambda>_. m))) Q"
proof (rule returns_seq [OF returns_wait_not_busy [OF v(1)]], rule returns_seq)
  show "returns (at_view n (v\<lparr>busy := 0\<rparr>)) (select_lba28 P lba 1) (\<lambda>_ d. \<exists>v'. at_view n v' d \<and> busy v' = 0
    \<and> phase v' = Idle \<and> disk v' = disk v \<and> capacity v' = capacity v \<and> cnt v' = 1
    \<and> head v' AND 0xF0 = 0xF0 \<and> reg_lba v' = lba)"
    using returns_select [of "v\<lparr>busy := 0\<rparr>" lba n] lba v by simp
  show "returns (\<lambda>d. \<exists>v'. at_view n v' d \<and> busy v' = 0
    \<and> phase v' = Idle \<and> disk v' = disk v \<and> capacity v' = capacity v \<and> cnt v' = 1
    \<and> head v' AND 0xF0 = 0xF0 \<and> reg_lba v' = lba) m Q"
    using m unfolding returns_def by blast
qed

lemma returns_ata_read:
  assumes v: "busy v < POLL_LIMIT" "phase v = Idle" "capacity v \<le> 2 ^ 28" "length (disk v (unat lba)) = BLOCK_SIZE"
    and n: "unat n = capacity v" and lba: "lba < ucast n" and buf: "BLOCK_SIZE \<le> length buf"
  shows "returns (at_view n v) (ata_read_block P lba buf) (\<lambda>r d. r = (BLOCK_SIZE, disk v (unat lba) @ drop BLOCK_SIZE buf)
    \<and> (\<exists>v'. at_view n v' d \<and> busy v' = 0 \<and> phase v' = Idle \<and> disk v' = disk v \<and> capacity v' = capacity v))"
proof -
  have lt: "unat lba < capacity v" using lba n by (simp add: word_less_nat_alt)
  then have "unat lba < 2 ^ 32" using v(3) by simp
  then have ul: "unat (ucast lba :: u32) = unat lba" by (rule unat_ucast_32)
  have words: "concat (map word_bytes (block_words (disk v (unat lba)))) = disk v (unat lba)"
    "length (block_words (disk v (unat lba))) = 256"
    using words_of_bytes [of "disk v (unat lba)" 256] v(4) by (simp_all add: BLOCK_SIZE_def)
  let ?Q = "\<lambda>r d. r = (BLOCK_SIZE, disk v (unat lba) @ drop BLOCK_SIZE buf)
    \<and> (\<exists>v'. at_view n v' d \<and> busy v' = 0 \<and> phase v' = Idle \<and> disk v' = disk v \<and> capacity v' = capacity v)"
  let ?rest = "bindM (read_words P (BLOCK_SIZE div 2)) (\<lambda>ws. ret (BLOCK_SIZE, concat (map word_bytes ws) @ drop BLOCK_SIZE buf))"
  have body: "returns (at_view n v') (bindM (port_write P (PRIMARY_BASE + REG_COMMAND) CMD_READ_SECTORS) (\<lambda>_.
      bindM (delay_400ns P) (\<lambda>_. bindM (wait_drq P) (\<lambda>_. ?rest)))) ?Q"
    if v': "busy v' = 0" "phase v' = Idle" "disk v' = disk v" "capacity v' = capacity v" "cnt v' = 1"
      "head v' AND 0xF0 = 0xF0" "reg_lba v' = ucast lba" for v'
  proof (rule returns_seq [OF returns_command(1)], use v' lt ul in simp_all)
    show "returns (\<lambda>d. \<exists>k<POLL_LIMIT. at_view n (v'\<lparr>phase := DataIn (block_words (disk v (unat lba))), busy := k\<rparr>) d)
      (bindM (delay_400ns P) (\<lambda>_. bindM (wait_drq P) (\<lambda>_. ?rest))) ?Q"
    proof (rule returns_ex, rule returns_drq_after)
      fix k
      let ?v2 = "v'\<lparr>phase := DataIn (block_words (disk v (unat lba))), busy := k\<rparr>\<lparr>busy := 0\<rparr>"
      have "returns (at_view n ?v2) (read_words P (BLOCK_SIZE div 2))
          (\<lambda>r d. r = block_words (disk v (unat lba)) \<and> at_view n (?v2\<lparr>phase := Idle\<rparr>) d)"
        by (rule returns_read_words) (use words in \<open>auto simp: BLOCK_SIZE_def\<close>)
      then show "returns (at_view n ?v2) ?rest ?Q"
        by (rule returns_bindM, intro returns_ret) (use words v' in fastforce)
    qed auto
  qed
  have block: "bindM (liftO (slice_to BLOCK_SIZE buf)) (\<lambda>block. bindM (read_words P (length block div 2)) (\<lambda>ws.
      ret (BLOCK_SIZE, concat (map word_bytes ws) @ drop BLOCK_SIZE buf))) = ?rest" using buf by (simp add: slice_to_Ok)
  show ?thesis unfolding ata_read_block_def block
  proof (rule returns_get_bind)
    fix d assume "at_view n v d"
    then have d: "at_view n v d" "sectors d = n" by (auto simp: shows_view_def)
    have "returns (at_view n v) (bindM (wait_not_busy P) (\<lambda>_. bindM (select_lba28 P (ucast lba) 1) (\<lambda>_.
        bindM (port_write P (PRIMARY_BASE + REG_COMMAND) CMD_READ_SECTORS) (\<lambda>_.
        bindM (delay_400ns P) (\<lambda>_. bindM (wait_drq P) (\<lambda>_. ?rest)))))) ?Q"
      by (rule returns_request) (use v lt ul body in auto)
    then show "returns (\<lambda>s. s = d) (if ucast (sectors d) \<le> lba then fail OutOfRange
        else if length buf < BLOCK_SIZE then fail OutOfRange
        else bindM (wait_not_busy P) (\<lambda>_. bindM (select_lba28 P (ucast lba) 1) (\<lambda>_.
        bindM (port_write P (PRIMARY_BASE + REG_COMMAND) CMD_READ_SECTORS) (\<lambda>_.
        bindM (delay_400ns P) (\<lambda>_. bindM (wait_drq P) (\<lambda>_. ?rest)))))) ?Q"
      using lba buf d by (auto simp: returns_def)
  qed
qed

lemma returns_ata_write:
  assumes v: "busy v < POLL_LIMIT" "phase v = Idle" "capacity v \<le> 2 ^ 28"
    and n: "unat n = capacity v" and lba: "lba < ucast n" and buf: "BLOCK_SIZE \<le> length buf"
  shows "returns (at_view n v) (ata_write_block P lba buf) (\<lambda>r d. r = BLOCK_SIZE
    \<and> (\<exists>v'. at_view n v' d \<and> busy v' = 0 \<and> phase v' = Idle \<and> capacity v' = capacity v
         \<and> disk v' = (disk v)(unat lba := take BLOCK_SIZE buf)))"
proof -
  have lt: "unat lba < capacity v" using lba n by (simp add: word_less_nat_alt)
  then have ul: "unat (ucast lba :: u32) = unat lba" using v(3) by (intro unat_ucast_32) simp
  let ?cs = "chunks_exact 2 (take BLOCK_SIZE buf)"
  have words: "concat (map word_bytes (map bytes_word ?cs)) = take BLOCK_SIZE buf" "length ?cs = 256"
    using words_of_bytes [of "take BLOCK_SIZE buf" 256] buf by (simp_all add: BLOCK_SIZE_def block_words_def)
  let ?Q = "\<lambda>r d. r = BLOCK_SIZE \<and> (\<exists>v'. at_view n v' d \<and> busy v' = 0 \<and> phase v' = Idle \<and> capacity v' = capacity v
         \<and> disk v' = (disk v)(unat lba := take BLOCK_SIZE buf))"
  let ?rest = "bindM (foldM (\<lambda>chunk _. data_write P (bytes_word chunk)) ?cs ()) (\<lambda>_.
      bindM (wait_not_busy P) (\<lambda>_. ret BLOCK_SIZE))"
  have body: "returns (at_view n v') (bindM (port_write P (PRIMARY_BASE + REG_COMMAND) CMD_WRITE_SECTORS) (\<lambda>_.
      bindM (delay_400ns P) (\<lambda>_. bindM (wait_drq P) (\<lambda>_. ?rest)))) ?Q"
    if v': "busy v' = 0" "phase v' = Idle" "disk v' = disk v" "capacity v' = capacity v" "cnt v' = 1"
      "head v' AND 0xF0 = 0xF0" "reg_lba v' = ucast lba" for v'
  proof (rule returns_seq [OF returns_command(2)], use v' lt ul in simp_all)
    show "returns (\<lambda>d. \<exists>k<POLL_LIMIT. at_view n (v'\<lparr>phase := DataOut (unat lba) [], busy := k\<rparr>) d)
      (bindM (delay_400ns P) (\<lambda>_. bindM (wait_drq P) (\<lambda>_. ?rest))) ?Q"
    proof (rule returns_ex, rule returns_drq_after)
      fix k
      let ?v2 = "v'\<lparr>phase := DataOut (unat lba) [], busy := k\<rparr>\<lparr>busy := 0\<rparr>"
      let ?v3 = "\<lambda>k. ?v2\<lparr>phase := Idle, busy := k, disk := (disk ?v2)(unat lba := concat (map word_bytes ([] @ map bytes_word ?cs)))\<rparr>"
      have sent: "returns (at_view n ?v2) (foldM (\<lambda>chunk _. data_write P (bytes_word chunk)) ?cs ())
          (\<lambda>_ d. \<exists>k < POLL_LIMIT. at_view n (?v3 k) d)"
        by (rule returns_write_words) (use words in auto)
      have fin: "returns (at_view n (?v3 k)) (bindM (wait_not_busy P) (\<lambda>_. ret BLOCK_SIZE)) ?Q"
        if "k < POLL_LIMIT" for k
      proof (rule returns_seq [OF returns_wait_not_busy])
        show "returns (at_view n (?v3 k\<lparr>busy := 0\<rparr>)) (ret BLOCK_SIZE) ?Q"
          by (intro returns_ret) (use words(1) v' in fastforce)
      qed (use that in simp)
      from sent show "returns (at_view n ?v2) ?rest ?Q"
        by (rule returns_seq) (rule returns_ex, rule fin)
    qed auto
  qed
  have block: "bindM (liftO (slice_to BLOCK_SIZE buf)) (\<lambda>block. bindM (foldM (\<lambda>chunk _. data_write P (bytes_word chunk)) (chunks_exact 2 block) ()) (\<lambda>_.
      bindM (wait_not_busy P) (\<lambda>_. ret BLOCK_SIZE))) = ?rest" using buf by (simp add: slice_to_Ok)
  show ?thesis unfolding ata_write_block_def block
  proof (rule returns_get_bind)
    fix d assume "at_view n v d"
    then have d: "at_view n v d" "sectors d = n" by (auto simp: shows_view_def)
    have "returns (at_view n v) (bindM (wait_not_busy P) (\<lambda>_. bindM (select_lba28 P (ucast lba) 1) (\<lambda>_.
        bindM (port_write P (PRIMARY_BASE + REG_COMMAND) CMD_WRITE_SECTORS) (\<lambda>_.
        bindM (delay_400ns P) (\<lambda>_. bindM (wait_drq P) (\<lambda>_. ?rest)))))) ?Q"
      by (rule returns_request) (use v lt ul body in auto)
    then show "returns (\<lambda>s. s = d) (if ucast (sectors d) \<le> lba then fail OutOfRange
        else if length buf < BLOCK_SIZE then fail OutOfRange
        else bindM (wait_not_busy P) (\<lambda>_. bindM (select_lba28 P (ucast lba) 1) (\<lambda>_.
        bindM (port_write P (PRIMARY_BASE + REG_COMMAND) CMD_WRITE_SECTORS) (\<lambda>_.
        bindM (delay_400ns P) (\<lambda>_. bindM (wait_drq P) (\<lambda>_. ?rest)))))) ?Q"
      using lba buf d by (auto simp: returns_def)
  qed
qed

end

sublocale ata_controller \<subseteq> drive: block_device "ata_device P" "ata_ok view" "ata_blk view"
proof unfold_locales
  fix d :: "'h AtaDrive" and lba :: u64 and buf :: "u8 list"
  assume ok: "ata_ok view d" and lba: "lba < num_blocks (ata_device P) d" and buf: "BLOCK_SIZE \<le> length buf"
  let ?v = "view (hw d)" and ?n = "sectors d"
  have v: "busy ?v < POLL_LIMIT" "phase ?v = Idle" "capacity ?v \<le> 2 ^ 28" "unat ?n = capacity ?v"
    "length (disk ?v (unat lba)) = BLOCK_SIZE" using ok by (auto simp: ata_ok_def)
  have lba': "lba < ucast ?n" using lba by (simp add: ata_device_def)
  have d: "at_view ?n ?v d" by (simp add: shows_view_def)
  from returnsD [OF returns_ata_read [OF v(1,2,3,5,4) lba' buf] d]
  show "\<exists>d'. read_block (ata_device P) lba buf d = Some (Ok (BLOCK_SIZE, ata_blk view d (unat lba) @ drop BLOCK_SIZE buf), d')
    \<and> ata_ok view d' \<and> ata_blk view d' = ata_blk view d \<and> num_blocks (ata_device P) d' = num_blocks (ata_device P) d"
    using ok by (auto simp: ata_device_def ata_blk_def ata_ok_def shows_view_def)
  from returnsD [OF returns_ata_write [OF v(1,2,3,4) lba' buf] d] v buf
  show "\<exists>d'. write_block (ata_device P) lba buf d = Some (Ok BLOCK_SIZE, d')
    \<and> ata_ok view d' \<and> ata_blk view d' = (ata_blk view d)(unat lba := take BLOCK_SIZE buf)
    \<and> num_blocks (ata_device P) d' = num_blocks (ata_device P) d"
    using ok by (auto simp: ata_device_def ata_blk_def ata_ok_def shows_view_def)
next
  fix d :: "'h AtaDrive" and lba :: u64 and buf :: "u8 list"
  assume "\<not> (lba < num_blocks (ata_device P) d \<and> BLOCK_SIZE \<le> length buf)"
  then show "read_block (ata_device P) lba buf d = Some (Err OutOfRange, d)"
    "write_block (ata_device P) lba buf d = Some (Err OutOfRange, d)"
    by (auto simp: ata_device_def ata_read_block_def ata_write_block_def bindM_Ok gets_run fail_run)
qed (simp_all add: ata_ok_def ata_blk_def)

text \<open>The view while the answer to IDENTIFY DEVICE for the disk of \<open>v\<close> is being read.\<close>

definition identifying :: "ata_view \<Rightarrow> ata_view \<Rightarrow> bool" where
  "identifying v u \<longleftrightarrow> busy u < POLL_LIMIT \<and> lba1 u = 0 \<and> lba2 u = 0 \<and> disk u = disk v \<and> capacity u = capacity v
    \<and> (\<exists>ws. phase u = DataIn ws \<and> length ws = 256
         \<and> unat (ucast (ws ! 60) OR push_bit 16 (ucast (ws ! 61)) :: u32) = capacity v)"

lemma identifying_busy: "identifying v u \<Longrightarrow> b < POLL_LIMIT \<Longrightarrow> identifying v (u\<lparr>busy := b\<rparr>)"
  by (simp add: identifying_def)

lemma identifying_less: "identifying v u \<Longrightarrow> identifying v (u\<lparr>busy := busy u - b\<rparr>)"
  by (rule identifying_busy) (auto simp: identifying_def)

context ata_controller
begin

abbreviation answering :: "u32 \<Rightarrow> ata_view \<Rightarrow> 'h AtaDrive \<Rightarrow> bool" where
  "answering n v d \<equiv> \<exists>u. identifying v u \<and> at_view n u d"

abbreviation answered :: "u32 \<Rightarrow> ata_view \<Rightarrow> 'h AtaDrive \<Rightarrow> bool" where
  "answered n v d \<equiv> \<exists>u. (identifying v u \<and> busy u = 0) \<and> at_view n u d"

lemma returns_cmd_identify:
  assumes v: "busy v = 0" "phase v = Idle"
  shows "returns (at_view n v) (port_write P (PRIMARY_BASE + REG_COMMAND) CMD_IDENTIFY) (\<lambda>_. answering n v)"
  unfolding port_write_def
proof (rule returns_modify)
  fix d assume "at_view n v d"
  then have *: "view (hw d) = v" "sectors d = n" by (auto simp: shows_view_def)
  with cmd_identify [of "hw d"] v obtain k ws where
    "k < POLL_LIMIT" "length ws = 256" "unat (ucast (ws ! 60) OR push_bit 16 (ucast (ws ! 61)) :: u32) = capacity v"
    "view (outb P 0x1F7 CMD_IDENTIFY (hw d)) = v\<lparr>phase := DataIn ws, busy := k, lba1 := 0, lba2 := 0\<rparr>" by auto
  then show "answering n v (d\<lparr>hw := outb P (PRIMARY_BASE + REG_COMMAND) CMD_IDENTIFY (hw d)\<rparr>)"
    using * by (intro exI [of _ "v\<lparr>phase := DataIn ws, busy := k, lba1 := 0, lba2 := 0\<rparr>"])
      (simp add: shows_view_def port_numbers identifying_def)
qed

lemma returns_answering:
  "returns (answering n v) (delay_400ns P) (\<lambda>_. answering n v)"
  "returns (answering n v) (status_read P) (\<lambda>s d. s \<noteq> 0 \<and> answering n v d)"
  "returns (answering n v) (wait_not_busy P) (\<lambda>_. answered n v)"
  "returns (answered n v) (wait_drq P) (\<lambda>_. answered n v)"
proof -
  show "returns (answering n v) (delay_400ns P) (\<lambda>_. answering n v)"
    by (rule returns_ex, rule returns_conseq [OF returns_delay]) (auto dest: identifying_less)
  show "returns (answering n v) (status_read P) (\<lambda>s d. s \<noteq> 0 \<and> answering n v d)"
    by (rule returns_ex, rule returns_conseq [OF returns_status]) (auto dest: identifying_less)
  have z: "answered n v d" if "identifying v u" "at_view n (u\<lparr>busy := 0\<rparr>) d" for u d
    using that by (intro exI [of _ "u\<lparr>busy := 0\<rparr>"]) (simp add: identifying_def)
  have b: "busy u < POLL_LIMIT" "phase u \<noteq> Idle" if "identifying v u" for u
    using that by (auto simp: identifying_def)
  show "returns (answering n v) (wait_not_busy P) (\<lambda>_. answered n v)"
    by (rule returns_ex, rule returns_conseq [OF returns_wait_not_busy]) (use z b in blast)+
  show "returns (answered n v) (wait_drq P) (\<lambda>_. answered n v)"
    by (rule returns_ex, rule returns_conseq [OF returns_wait_drq]) (use z b in blast)+
qed

lemma returns_signature:
  "returns (answered n v) (port_read P (PRIMARY_BASE + REG_LBA_MID)) (\<lambda>b d. b = 0 \<and> answered n v d)"
  "returns (answered n v) (port_read P (PRIMARY_BASE + REG_LBA_HI)) (\<lambda>b d. b = 0 \<and> answered n v d)"
proof -
  have *: "returns (at_view n u) (port_read P (PRIMARY_BASE + r)) (\<lambda>b d. b = x \<and> at_view n u d)"
    if "\<And>h. view h = u \<Longrightarrow> \<exists>h'. inb P (PRIMARY_BASE + r) h = (x, h') \<and> view h' = u" for u r x
    using that unfolding returns_def port_read_def shows_view_def by fastforce
  show "returns (answered n v) (port_read P (PRIMARY_BASE + REG_LBA_MID)) (\<lambda>b d. b = 0 \<and> answered n v d)"
  proof (rule returns_ex)
    fix u assume u: "identifying v u \<and> busy u = 0"
    have "\<exists>h'. inb P (PRIMARY_BASE + REG_LBA_MID) h = (0, h') \<and> view h' = u" if "view h = u" for h
      using read_regs(1) [of h] that u by (simp add: identifying_def port_numbers)
    from * [OF this] u show "returns (at_view n u) (port_read P (PRIMARY_BASE + REG_LBA_MID)) (\<lambda>b d. b = 0 \<and> answered n v d)"
      unfolding returns_def by blast
  qed
  show "returns (answered n v) (port_read P (PRIMARY_BASE + REG_LBA_HI)) (\<lambda>b d. b = 0 \<and> answered n v d)"
  proof (rule returns_ex)
    fix u assume u: "identifying v u \<and> busy u = 0"
    have "\<exists>h'. inb P (PRIMARY_BASE + REG_LBA_HI) h = (0, h') \<and> view h' = u" if "view h = u" for h
      using read_regs(2) [of h] that u by (simp add: identifying_def port_numbers)
    from * [OF this] u show "returns (at_view n u) (port_read P (PRIMARY_BASE + REG_LBA_HI)) (\<lambda>b d. b = 0 \<and> answered n v d)"
      unfolding returns_def by blast
  qed
qed

text \<open>A drive that was identified: the sector count is the capacity and the contents are untouched.\<close>

abbreviation identified :: "ata_view \<Rightarrow> 'h AtaDrive \<Rightarrow> bool" where
  "identified v d \<equiv> unat (sectors d) = capacity v \<and> busy (view (hw d)) = 0 \<and> phase (view (hw d)) = Idle
    \<and> disk (view (hw d)) = disk v \<and> capacity (view (hw d)) = capacity v"

lemma returns_identify_data:
  "returns (answered n v) (bindM (read_words P 256) (\<lambda>ws.
     modify (\<lambda>d. d\<lparr>sectors := ucast (ws ! 60) OR push_bit 16 (ucast (ws ! 61))\<rparr>))) (\<lambda>_. identified v)"
proof (rule returns_ex)
  fix u assume u: "identifying v u \<and> busy u = 0"
  then obtain ws where ws: "phase u = DataIn ws" "length ws = 256"
    "unat (ucast (ws ! 60) OR push_bit 16 (ucast (ws ! 61)) :: u32) = capacity v" by (auto simp: identifying_def)
  have "returns (at_view n u) (read_words P 256) (\<lambda>r d. r = ws \<and> at_view n (u\<lparr>phase := Idle\<rparr>) d)"
    by (rule returns_read_words) (use u ws in auto)
  then show "returns (at_view n u) (bindM (read_words P 256) (\<lambda>ws.
      modify (\<lambda>d. d\<lparr>sectors := ucast (ws ! 60) OR push_bit 16 (ucast (ws ! 61))\<rparr>))) (\<lambda>_. identified v)"
    by (rule returns_bindM, intro returns_modify)
      (use u ws in \<open>auto simp: shows_view_def identifying_def\<close>)
qed

lemma returns_guard: "(C \<Longrightarrow> returns R m Q) \<Longrightarrow> returns (\<lambda>d. C \<and> R d) m Q"
  by (auto simp: returns_def)

lemma returns_identify:
  assumes v: "busy v = 0" "phase v = Idle"
  shows "returns (at_view n v) (identify P) (\<lambda>_. identified v)"
proof -
  let ?v1 = "v\<lparr>head := 0xB0\<rparr>"
  let ?v2 = "?v1\<lparr>cnt := 0\<rparr>"
  let ?v3 = "?v2\<lparr>lba0 := 0\<rparr>"
  let ?v4 = "?v3\<lparr>lba1 := 0\<rparr>"
  let ?v5 = "?v4\<lparr>lba2 := 0\<rparr>"
  have w: "returns (at_view n v) (port_write P PRIMARY_CTRL 2) (\<lambda>_. at_view n v)"
    "returns (at_view n v) (port_write P (PRIMARY_BASE + REG_DRIVE_HEAD) 0xB0) (\<lambda>_. at_view n ?v1)"
    "returns (at_view n ?v1) (port_write P (PRIMARY_BASE + REG_SECTOR_COUNT) 0) (\<lambda>_. at_view n ?v2)"
    "returns (at_view n ?v2) (port_write P (PRIMARY_BASE + REG_LBA_LO) 0) (\<lambda>_. at_view n ?v3)"
    "returns (at_view n ?v3) (port_write P (PRIMARY_BASE + REG_LBA_MID) 0) (\<lambda>_. at_view n ?v4)"
    "returns (at_view n ?v4) (port_write P (PRIMARY_BASE + REG_LBA_HI) 0) (\<lambda>_. at_view n ?v5)"
    by (rule returns_port_write, simp add: port_numbers write_regs write_ctrl v)+
  have "?v1\<lparr>busy := busy ?v1 - 4\<rparr> = ?v1" using v by simp
  then have d: "returns (at_view n ?v1) (delay_400ns P) (\<lambda>_. at_view n ?v1)"
    using returns_delay [of n ?v1] by simp
  have cmd: "returns (at_view n ?v5) (port_write P (PRIMARY_BASE + REG_COMMAND) CMD_IDENTIFY) (\<lambda>_. answering n ?v5)"
    by (rule returns_cmd_identify) (use v in auto)
  have fin: "returns (answered n ?v5) (bindM (wait_drq P) (\<lambda>_. bindM (read_words P 256) (\<lambda>ws.
      modify (\<lambda>d. d\<lparr>sectors := ucast (ws ! 60) OR push_bit 16 (ucast (ws ! 61))\<rparr>)))) (\<lambda>_. identified v)"
    by (rule returns_seq [OF returns_answering(4)], rule returns_conseq [OF returns_identify_data [of ?v5 n]]) auto
  have sig: "returns (answered n ?v5) (bindM (port_read P (PRIMARY_BASE + REG_LBA_MID)) (\<lambda>mid.
         bindM (if mid \<noteq> 0 then ret True
                else bindM (port_read P (PRIMARY_BASE + REG_LBA_HI)) (\<lambda>hi. ret (hi \<noteq> 0))) (\<lambda>not_ata.
           if not_ata then fail DriveError else bindM (wait_drq P) (\<lambda>_. bindM (read_words P 256) (\<lambda>ws.
             modify (\<lambda>d. d\<lparr>sectors := ucast (ws ! 60) OR push_bit 16 (ucast (ws ! 61))\<rparr>)))))) (\<lambda>_. identified v)"
  proof (rule returns_bindM [OF returns_signature(1)], rule returns_guard)
    fix mid :: u8 assume mid: "mid = 0"
    have "returns (answered n ?v5) (bindM (port_read P (PRIMARY_BASE + REG_LBA_HI)) (\<lambda>hi. ret (hi \<noteq> 0)))
        (\<lambda>b d. b = False \<and> answered n ?v5 d)"
      by (rule returns_bindM [OF returns_signature(2)]) (auto intro: returns_ret)
    then have tst: "returns (answered n ?v5) (if mid \<noteq> 0 then ret True
        else bindM (port_read P (PRIMARY_BASE + REG_LBA_HI)) (\<lambda>hi. ret (hi \<noteq> 0))) (\<lambda>b d. b = False \<and> answered n ?v5 d)"
      by (simp add: mid)
    show "returns (answered n ?v5) (bindM (if mid \<noteq> 0 then ret True
        else bindM (port_read P (PRIMARY_BASE + REG_LBA_HI)) (\<lambda>hi. ret (hi \<noteq> 0))) (\<lambda>not_ata.
           if not_ata then fail DriveError else bindM (wait_drq P) (\<lambda>_. bindM (read_words P 256) (\<lambda>ws.
             modify (\<lambda>d. d\<lparr>sectors := ucast (ws ! 60) OR push_bit 16 (ucast (ws ! 61))\<rparr>))))) (\<lambda>_. identified v)"
    proof (rule returns_bindM [OF tst], rule returns_guard)
      fix b assume "b = False"
      with fin show "returns (answered n ?v5) (if b then fail DriveError else bindM (wait_drq P) (\<lambda>_.
          bindM (read_words P 256) (\<lambda>ws. modify (\<lambda>d. d\<lparr>sectors := ucast (ws ! 60) OR push_bit 16 (ucast (ws ! 61))\<rparr>))))
          (\<lambda>_. identified v)" by (simp only: if_False)
    qed
  qed
  have rest: "returns (\<lambda>d. s \<noteq> 0 \<and> answering n ?v5 d) (if s = 0 then fail DriveError
       else bindM (wait_not_busy P) (\<lambda>_. bindM (port_read P (PRIMARY_BASE + REG_LBA_MID)) (\<lambda>mid.
         bindM (if mid \<noteq> 0 then ret True
                else bindM (port_read P (PRIMARY_BASE + REG_LBA_HI)) (\<lambda>hi. ret (hi \<noteq> 0))) (\<lambda>not_ata.
           if not_ata then fail DriveError else bindM (wait_drq P) (\<lambda>_. bindM (read_words P 256) (\<lambda>ws.
             modify (\<lambda>d. d\<lparr>sectors := ucast (ws ! 60) OR push_bit 16 (ucast (ws ! 61))\<rparr>))))))) (\<lambda>_. identified v)" for s
    by (rule returns_guard) (use returns_seq [OF returns_answering(3) sig] in simp)
  show ?thesis unfolding identify_def
    by (rule returns_seq [OF w(1)], rule returns_seq [OF w(2)], rule returns_seq [OF d],
        rule returns_seq [OF w(3)], rule returns_seq [OF w(4)], rule returns_seq [OF w(5)],
        rule returns_seq [OF w(6)], rule returns_seq [OF cmd], rule returns_seq [OF returns_answering(1)],
        rule returns_bindM [OF returns_answering(2)], rule rest)
qed

end

section \<open>The driver on a disk\<close>

context ata_controller
begin

lemma is_block_device: "block_device (ata_device P) (ata_ok view) (ata_blk view)"
  by (rule drive.block_device_axioms)

end

text \<open>A software disk that follows the protocol: every command is busy for two status reads.\<close>

definition sim_status :: "ata_view \<Rightarrow> u8" where
  "sim_status v = (if 0 < busy v then 0x80 else if phase v = Idle then 0x40 else 0x48)"

definition sim_inb :: "u16 \<Rightarrow> ata_view \<Rightarrow> u8 \<times> ata_view" where
  "sim_inb p v = (if p = 0x1F7 then (sim_status v, v\<lparr>busy := busy v - 1\<rparr>)
     else if p = 0x1F4 then (lba1 v, v) else if p = 0x1F5 then (lba2 v, v) else (0xFF, v))"

definition sim_identify :: "ata_view \<Rightarrow> u16 list" where
  "sim_identify v = replicate 60 0 @ [word_of_nat (capacity v), word_of_nat (capacity v div 2 ^ 16)] @ replicate 194 0"

definition sim_outb :: "u16 \<Rightarrow> u8 \<Rightarrow> ata_view \<Rightarrow> ata_view" where
  "sim_outb p b v =
     (if p = 0x1F6 then v\<lparr>head := b\<rparr> else if p = 0x1F2 then v\<lparr>cnt := b\<rparr>
      else if p = 0x1F3 then v\<lparr>lba0 := b\<rparr> else if p = 0x1F4 then v\<lparr>lba1 := b\<rparr> else if p = 0x1F5 then v\<lparr>lba2 := b\<rparr>
      else if p = 0x1F7 then
        (if b = CMD_READ_SECTORS then v\<lparr>phase := DataIn (block_words (disk v (unat (reg_lba v)))), busy := 2\<rparr>
         else if b = CMD_WRITE_SECTORS then v\<lparr>phase := DataOut (unat (reg_lba v)) [], busy := 2\<rparr>
         else if b = CMD_IDENTIFY then v\<lparr>phase := DataIn (sim_identify v), busy := 2, lba1 := 0, lba2 := 0\<rparr>
         else v)
      else v)"

definition sim_inw :: "u16 \<Rightarrow> ata_view \<Rightarrow> u16 \<times> ata_view" where
  "sim_inw p v = (case phase v of
     DataIn (w # ws) \<Rightarrow> (w, v\<lparr>phase := if ws = [] then Idle else DataIn ws\<rparr>) | _ \<Rightarrow> (0xFFFF, v))"

definition sim_outw :: "u16 \<Rightarrow> u16 \<Rightarrow> ata_view \<Rightarrow> ata_view" where
  "sim_outw p w v = (case phase v of
     DataOut lba ws \<Rightarrow>
       if Suc (length ws) < 256 then v\<lparr>phase := DataOut lba (ws @ [w])\<rparr>
       else v\<lparr>phase := Idle, busy := 2, disk := (disk v)(lba := concat (map word_bytes (ws @ [w])))\<rparr>
   | _ \<Rightarrow> v)"

definition sim_ports :: "ata_view ports" where
  "sim_ports = \<lparr>inb = sim_inb, outb = sim_outb, inw = sim_inw, outw = sim_outw\<rparr>"

text \<open>Its capacity has to fit the two IDENTIFY words.\<close>

definition sim_view :: "ata_view \<Rightarrow> ata_view" where
  "sim_view v = v\<lparr>capacity := capacity v mod 2 ^ 32\<rparr>"

lemma identify_words: "unat (ucast (word_of_nat c :: u16) OR push_bit 16 (ucast (word_of_nat (c div 2 ^ 16) :: u16)) :: u32) = c mod 2 ^ 32"
proof -
  have "ucast (word_of_nat c :: u16) OR push_bit 16 (ucast (word_of_nat (c div 2 ^ 16) :: u16)) = (word_of_nat c :: u32)"
    unfolding drop_bit_eq_div [symmetric] by (rule bit_word_eqI) (auto simp: bit_simps)
  then show ?thesis by (simp add: unsigned_of_nat take_bit_eq_mod)
qed

interpretation sim: ata_controller sim_ports sim_view
proof unfold_locales
  fix h :: ata_view
  show "0 < busy (sim_view h) \<Longrightarrow> \<exists>s h'. inb sim_ports 0x1F7 h = (s, h') \<and> s AND STATUS_BSY \<noteq> 0
      \<and> sim_view h' = (sim_view h)\<lparr>busy := busy (sim_view h) - 1\<rparr>"
    by (simp add: sim_ports_def sim_inb_def sim_status_def sim_view_def STATUS_BSY_def)
  show "busy (sim_view h) = 0 \<Longrightarrow> \<exists>s h'. inb sim_ports 0x1F7 h = (s, h') \<and> s \<noteq> 0 \<and> s AND STATUS_BSY = 0
      \<and> s AND STATUS_ERR = 0 \<and> s AND STATUS_DF = 0 \<and> (s AND STATUS_DRQ \<noteq> 0 \<longleftrightarrow> phase (sim_view h) \<noteq> Idle) \<and> sim_view h' = sim_view h"
    by (auto simp: sim_ports_def sim_inb_def sim_status_def sim_view_def STATUS_BSY_def STATUS_ERR_def
        STATUS_DF_def STATUS_DRQ_def)
  show "\<lbrakk>busy (sim_view h) = 0; phase (sim_view h) = Idle\<rbrakk> \<Longrightarrow>
      \<exists>n ws. n < POLL_LIMIT \<and> length ws = 256
        \<and> unat (ucast (ws ! 60) OR push_bit 16 (ucast (ws ! 61)) :: u32) = capacity (sim_view h)
        \<and> sim_view (outb sim_ports 0x1F7 CMD_IDENTIFY h) = (sim_view h)\<lparr>phase := DataIn ws, busy := n, lba1 := 0, lba2 := 0\<rparr>"
    using identify_words [of "capacity h"]
    by (intro exI [of _ 2] exI [of _ "sim_identify h"])
      (simp add: sim_ports_def sim_outb_def sim_view_def sim_identify_def nth_append POLL_LIMIT_def
        CMD_READ_SECTORS_def CMD_WRITE_SECTORS_def CMD_IDENTIFY_def)
qed (auto simp: sim_ports_def sim_outb_def sim_inb_def sim_inw_def sim_outw_def sim_view_def reg_lba_def POLL_LIMIT_def
    CMD_READ_SECTORS_def CMD_WRITE_SECTORS_def fun_upd_def intro!: exI [of _ 2])

text \<open>
  C22: on a controller that follows the ATA specification, the driver meets the block-device contract:
  in range, a read returns the sector and a write replaces exactly that sector, whatever the number
  of busy polls in between; every other request is refused without effect.
\<close>

theorem ata_block_device:
  "ata_controller P view \<Longrightarrow> block_device (ata_device P) (ata_ok view) (ata_blk view)"
  by (rule ata_controller.is_block_device)

theorem ata_block_device_witness: "block_device (ata_device sim_ports) (ata_ok sim_view) (ata_blk sim_view)"
  by (rule ata_block_device [OF sim.ata_controller_axioms])

text \<open>
  Probing an idle disk succeeds: \<open>init\<close> learns the sector count from the IDENTIFY data, leaves
  the contents alone and the drive ready for requests, and a second \<open>init\<close> does nothing.
\<close>

theorem ata_init_ready:
  assumes "ata_controller P view" "busy (view h) = 0" "phase (view h) = Idle" "capacity (view h) \<le> 2 ^ 28"
    and "\<And>n. length (disk (view h) n) = 512"
  shows "\<exists>d. ata_init P (new_primary_slave h) = Some (Ok (), d) \<and> ata_ok view d \<and> ata_blk view d = disk (view h)
    \<and> unat (sectors d) = capacity (view h) \<and> ata_init P d = Some (Ok (), d)"
proof -
  from returnsD [OF ata_controller.returns_identify [OF assms(1-3), of 0], of "new_primary_slave h"]
  obtain d where "identify P (new_primary_slave h) = Some (Ok (), d)" "unat (sectors d) = capacity (view h)"
    "busy (view (hw d)) = 0" "phase (view (hw d)) = Idle" "disk (view (hw d)) = disk (view h)"
    "capacity (view (hw d)) = capacity (view h)" by (auto simp: shows_view_def new_primary_slave_def)
  then show ?thesis using assms(4,5)
    by (intro exI [of _ "d\<lparr>initialised := True\<rparr>"])
      (auto simp: ata_init_def bindM_gets bindM_Ok gets_run modify_run ret_run new_primary_slave_def ata_ok_def ata_blk_def
        BLOCK_SIZE_def POLL_LIMIT_def)
qed

text \<open>A blank disk of 100 sectors.\<close>

definition blank_disk :: ata_view where
  "blank_disk = \<lparr>phase = Idle, busy = 0, head = 0, cnt = 0, lba0 = 0, lba1 = 0, lba2 = 0,
     disk = (\<lambda>_. replicate 512 0), capacity = 100\<rparr>"

theorem ata_init_ready_witness:
  "\<exists>d. ata_init sim_ports (new_primary_slave blank_disk) = Some (Ok (), d) \<and> ata_ok sim_view d
    \<and> unat (sectors d) = 100 \<and> ata_init sim_ports d = Some (Ok (), d)"
  using ata_init_ready [OF sim.ata_controller_axioms, of blank_disk] by (auto simp: sim_view_def blank_disk_def)

end
