(* ===== verification/FatSafe.thy ===== *)
theory FatSafe
  imports Fat Safety Ata
begin

text \<open>
  The FAT driver never faults. The only assumption on the device is \<open>dev_sane\<close>: its methods do not
  panic and leave the length of the caller's buffer alone; the contents of the disk are arbitrary.
  A corrupted volume can make a method fail, run forever, or panic in an overflow check of the address arithmetic, but not in any
  other way: every index, slice and division of \<^verbatim>\<open>kernel/src/fs/fat.rs\<close> is in range because \<open>mount\<close> accepts 512-byte sectors
  and a non-zero one-byte cluster size only.
\<close>

definition dev_sane :: "'d BlockDevice \<Rightarrow> bool" where
  "dev_sane dev \<longleftrightarrow>
     (\<forall>lba buf. safe False (\<lambda>_. True) (read_block dev lba buf) (\<lambda>(n, b). length b = length buf))
     \<and> (\<forall>lba buf. safe False (\<lambda>_. True) (write_block dev lba buf) (\<lambda>_. True))"

definition vol_ok :: "FatFs \<Rightarrow> bool" where
  "vol_ok vol \<longleftrightarrow> bytes_per_sector vol = 512 \<and> 0 < unat (sectors_per_cluster vol) \<and> unat (sectors_per_cluster vol) < 256"

lemma cluster_bytes_eq: "vol_ok vol \<Longrightarrow> cluster_bytes vol = unat (sectors_per_cluster vol) * 512"
  by (simp add: vol_ok_def cluster_bytes_def unat_word_ariths)

lemma fat_slot: "vol_ok vol \<Longrightarrow> unat ((c * 4) mod bytes_per_sector vol) + 3 < 512"
proof -
  assume "vol_ok vol"
  then have "unat ((c * 4) mod bytes_per_sector vol) = (unat c * 4 mod 2 ^ 32) mod 512"
    by (simp add: vol_ok_def unat_mod unat_word_ariths)
  also have "\<dots> = (unat c * 4) mod (128 * 4)" by (simp add: mod_mod_cancel)
  also have "\<dots> = (unat c mod 128) * 4" by (simp only: mult_mod_left)
  finally have "unat ((c * 4) mod bytes_per_sector vol) = (unat c mod 128) * 4" .
  moreover have "unat c mod 128 < 128" by simp
  ultimately show ?thesis by linarith
qed

text \<open>
  The largest cluster number a chain can contain is in the address range of the volume: every cluster a chain can name, valid or not, has a 32-bit
  sector address. With at most eight sectors per cluster every volume whose data start below sector \<open>2 ^ 31\<close> is in reach.
\<close>

definition reach :: "FatFs \<Rightarrow> bool" where
  "reach vol \<longleftrightarrow> bytes_per_sector vol = 512 \<and> unat (data_start_lba vol) + 0x0FFFFFF5 * unat (sectors_per_cluster vol) < 2 ^ 32
     \<and> unat (fat_start_lba vol) < 2 ^ 16"

lemma in_chain_unat: "in_chain c \<longleftrightarrow> 2 \<le> unat c \<and> unat c < 0x0FFFFFF8"
  by (simp add: in_chain_def EOC_THRESHOLD_def word_le_nat_alt word_less_nat_alt)

lemma cluster_to_lba_reach:
  assumes "reach vol" "in_chain c"
  shows "cluster_to_lba vol c = ret (data_start_lba vol + (c - 2) * sectors_per_cluster vol)"
proof -
  have c: "2 \<le> unat c" "unat c < 0x0FFFFFF8" using assms(2) by (simp_all add: in_chain_unat)
  then have sub: "2 \<le> c" "unat (c - 2) = unat c - 2" by (simp_all add: word_le_nat_alt unat_sub)
  have "(unat c - 2) * unat (sectors_per_cluster vol) \<le> 0x0FFFFFF5 * unat (sectors_per_cluster vol)"
    using c by (intro mult_le_mono1) simp
  then have le: "unat (data_start_lba vol) + (unat c - 2) * unat (sectors_per_cluster vol) < 2 ^ 32"
    using assms(1) unfolding reach_def by linarith
  then have mul: "unat ((c - 2) * sectors_per_cluster vol) = (unat c - 2) * unat (sectors_per_cluster vol)"
    using sub by (simp add: unat_word_ariths)
  show ?thesis using le sub mul by (simp add: cluster_to_lba_def chk_defs)
qed

lemma fat_position_small:
  assumes "bytes_per_sector vol = 512" "unat c < 2 ^ 30" "unat (fat_start_lba vol) + unat c div 128 < 2 ^ 32"
  shows "fat_position vol c = ret (fat_start_lba vol + (c * 4) div bytes_per_sector vol, unat ((c * 4) mod bytes_per_sector vol))"
proof -
  have "unat (c * 4) = unat c * 4" using assms(2) by (simp add: unat_word_ariths)
  then have "unat ((c * 4) div 512) = unat c div 128" by (simp add: unat_div)
  then show ?thesis using assms by (simp add: fat_position_def chk_defs)
qed

lemma fat_position_reach:
  assumes "reach vol" "in_chain c"
  shows "fat_position vol c = ret (fat_start_lba vol + (c * 4) div bytes_per_sector vol, unat ((c * 4) mod bytes_per_sector vol))"
proof (rule fat_position_small)
  have c: "unat c < 0x0FFFFFF8" using assms(2) by (simp add: in_chain_unat)
  then have "unat c div 128 < 2 ^ 21" by simp
  then show "unat (fat_start_lba vol) + unat c div 128 < 2 ^ 32" using assms(1) by (simp add: reach_def)
qed (use assms in \<open>simp_all add: reach_def in_chain_unat\<close>)

lemma length_zero_block [simp]: "length zero_block = 512"
  by (simp add: zero_block_def BLOCK_SIZE_def)

section \<open>The volume\<close>

text \<open>What the driver relies on: a device that neither panics nor resizes a buffer.\<close>

locale sane_device =
  fixes dev :: "'d BlockDevice"
  assumes dev: "dev_sane dev"
begin

abbreviation okv :: "bool \<Rightarrow> ('d, FsError, 'a) io \<Rightarrow> ('a \<Rightarrow> bool) \<Rightarrow> bool" where
  "okv ov \<equiv> safe ov (\<lambda>_. True)"

abbreviation ok :: "('d, FsError, 'a) io \<Rightarrow> ('a \<Rightarrow> bool) \<Rightarrow> bool" where
  "ok \<equiv> safe True (\<lambda>_. True)"

lemma ok_drive_read: "okv ov (drive_read dev lba buf) (\<lambda>b. length b = length buf)"
  unfolding drive_read_def
  by (rule safe_attempt [where R = "\<lambda>(n, b). length b = length buf"])
    (use dev in \<open>auto simp: dev_sane_def intro: safe_intros safe_weaken\<close>)

lemma ok_drive_write [safe_intros]: "okv ov (drive_write dev lba buf) (\<lambda>_. True)"
  unfolding drive_write_def
  by (rule safe_attempt_seq) (use dev in \<open>auto simp: dev_sane_def intro: safe_intros safe_weaken split: sum.split\<close>)

lemma ok_read_block512: "(\<And>b. length b = 512 \<Longrightarrow> okv ov (k b) Q) \<Longrightarrow> okv ov (bindM (drive_read dev lba zero_block) k) Q"
  by (rule safe_bindM [OF ok_drive_read]) simp

lemma ok_le32:
  "length buf = 512 \<Longrightarrow> i + 3 < 512 \<Longrightarrow> (\<And>w. okv ov (k w) Q) \<Longrightarrow> okv ov (bindM (liftO (le32_at buf i)) k) Q"
  by (rule safe_seq, rule safe_liftO) (simp_all add: le32_at_def)

text \<open>Address computations: without a panic for the clusters of a chain when the volume is in \<open>reach\<close>.\<close>

lemma ok_cluster_to_lba: "ov \<or> reach vol \<and> in_chain c \<Longrightarrow> okv ov (cluster_to_lba vol c) (\<lambda>_. True)"
proof (cases ov)
  case True
  then show ?thesis unfolding cluster_to_lba_def by (simp add: safe_intros)
next
  case False
  moreover assume "ov \<or> reach vol \<and> in_chain c"
  ultimately show ?thesis by (simp add: cluster_to_lba_reach safe_ret)
qed

lemma ok_fat_position:
  assumes "vol_ok vol" "ov \<or> reach vol \<and> in_chain c"
  shows "okv ov (fat_position vol c) (\<lambda>(sec, off). off + 3 < 512)"
proof (cases ov)
  case True
  have bps: "bytes_per_sector vol \<noteq> 0" using assms(1) by (simp add: vol_ok_def)
  show ?thesis unfolding fat_position_def div_chk_def rem_chk_def if_not_P [OF bps] liftO_Ok bindM_ret
  proof (rule safe_bindM [OF safe_liftO [where Q = "\<lambda>x. x = c * 4"]])
    fix x assume "x = c * 4"
    then show "okv ov (bindM (liftO (add_chk (fat_start_lba vol) (x div bytes_per_sector vol)))
        (\<lambda>sec. ret (sec, unat (x mod bytes_per_sector vol)))) (\<lambda>(sec, off). off + 3 < 512)"
      using True fat_slot [OF assms(1), of c] by (auto intro!: safe_seq safe_chk safe_ret)
  qed (use True in \<open>auto simp: panic_ok_True dest: chk_OkD(3)\<close>)
next
  case False
  with assms fat_slot [OF assms(1), of c] show ?thesis by (simp add: fat_position_reach safe_ret)
qed

lemma ok_next_cluster [safe_intros]:
  assumes "vol_ok vol" "ov \<or> reach vol \<and> in_chain c"
  shows "okv ov (next_cluster dev vol c) (\<lambda>_. True)"
  unfolding next_cluster_def
  by (rule safe_bindM [OF ok_fat_position [OF assms]]) (auto intro!: ok_read_block512 ok_le32 safe_ret)

lemma ok_read_cluster: "vol_ok vol \<Longrightarrow> okv ov (read_cluster dev vol lba) (\<lambda>b. length b = cluster_bytes vol)"
  unfolding read_cluster_def Let_def
proof (rule safe_foldM)
  fix sec and buf :: "u8 list"
  assume vol: "vol_ok vol"
  assume sec: "sec \<in> set [0..<unat (sectors_per_cluster vol)]" and len: "length buf = cluster_bytes vol"
  then have le: "sec * BLOCK_SIZE + BLOCK_SIZE \<le> length buf"
    using mult_le_mono1 [of "Suc sec" "unat (sectors_per_cluster vol)" 512]
    by (simp add: cluster_bytes_eq [OF vol] BLOCK_SIZE_def)
  show "okv ov (if sec * BLOCK_SIZE + BLOCK_SIZE \<le> length buf
      then bindM (drive_read dev (ucast lba + word_of_nat sec) (take BLOCK_SIZE (drop (sec * BLOCK_SIZE) buf)))
        (\<lambda>b. ret (splice (sec * BLOCK_SIZE) b buf)) else panic) (\<lambda>b. length b = cluster_bytes vol)"
    using le len by (auto intro!: safe_bindM [OF ok_drive_read] safe_ret)
qed simp

lemma ok_read_chain [safe_intros]:
  assumes "vol_ok vol" "ov \<or> reach vol"
  shows "okv ov (read_chain dev vol c mx) (\<lambda>_. True)"
  unfolding read_chain_def read_chain_body_def
  by (rule safe_loopM [where P = "\<lambda>_. True"])
    (use assms in \<open>auto intro!: safe_intros ok_cluster_to_lba safe_conseq [OF ok_read_cluster] split: prod.split\<close>)

lemma ok_read_dir [safe_intros]: "vol_ok vol \<Longrightarrow> ov \<or> reach vol \<Longrightarrow> okv ov (read_dir dev vol c) (\<lambda>_. True)"
  unfolding read_dir_def by (auto intro!: safe_intros)

lemma ok_lookup_segs: "vol_ok vol \<Longrightarrow> ov \<or> reach vol \<Longrightarrow> okv ov (lookup_segs dev vol i segs c found) (\<lambda>_. True)"
proof (induction segs arbitrary: i c found)
  case (Cons seg segs)
  show ?case unfolding lookup_segs.simps
    by (auto intro!: safe_intros Cons.IH Cons.prems split: option.split)
qed (auto intro!: safe_intros split: option.split)

lemma ok_lookup [safe_intros]: "vol_ok vol \<Longrightarrow> ov \<or> reach vol \<Longrightarrow> okv ov (lookup dev vol p) (\<lambda>_. True)"
  unfolding lookup_def by (auto intro!: safe_intros ok_lookup_segs)

lemma ok_read_file [safe_intros]: "vol_ok vol \<Longrightarrow> ov \<or> reach vol \<Longrightarrow> okv ov (Fat.read_file dev vol p) (\<lambda>_. True)"
  unfolding read_file_def by (auto intro!: safe_intros)

lemma ok_list_dir [safe_intros]: "vol_ok vol \<Longrightarrow> ov \<or> reach vol \<Longrightarrow> okv ov (Fat.list_dir dev vol p) (\<lambda>_. True)"
  unfolding list_dir_def by (auto intro!: safe_intros)

lemma ok_is_dir [safe_intros]: "vol_ok vol \<Longrightarrow> ov \<or> reach vol \<Longrightarrow> okv ov (Fat.is_dir dev vol p) (\<lambda>_. True)"
  unfolding is_dir_def by (auto intro!: safe_intros split: sum.split)

lemma ok_cluster_for [safe_intros]: "vol_ok vol \<Longrightarrow> ok (cluster_for dev vol p) (\<lambda>_. True)"
  unfolding cluster_for_def by (auto intro!: safe_intros)

lemma ok_find_in_dir [safe_intros]: "vol_ok vol \<Longrightarrow> ok (find_in_dir dev vol c n) (\<lambda>_. True)"
  unfolding find_in_dir_def by (auto intro!: safe_intros)

section \<open>The write methods\<close>

lemma ok_find_free_loop: "vol_ok vol \<Longrightarrow> length buf = 512 \<Longrightarrow> ok (find_free_loop dev vol ns cur buf) (\<lambda>_. True)"
proof (induction ns arbitrary: cur buf)
  case (Cons n ns)
  have read: "ok (if b then drive_read dev lba buf else ret buf) (\<lambda>b. length b = 512)" for b lba
    by (auto intro!: safe_ret safe_conseq [OF ok_drive_read] simp: Cons.prems)
  show ?case unfolding find_free_loop.simps
    by (rule safe_bindM [OF ok_fat_position [OF Cons.prems(1)]])
      (auto intro!: safe_bindM [OF read] ok_le32 safe_if safe_ret Cons.IH simp: Cons.prems)
qed (simp add: safe_intros)

lemma ok_find_free_cluster [safe_intros]: "vol_ok vol \<Longrightarrow> ok (find_free_cluster dev vol) (\<lambda>_. True)"
  unfolding find_free_cluster_def Let_def by (intro safe_seq safe_chk ok_find_free_loop) simp_all

lemma ok_write_fat_entry [safe_intros]: "vol_ok vol \<Longrightarrow> ok (write_fat_entry dev vol c v) (\<lambda>_. True)"
proof -
  assume vol: "vol_ok vol"
  show "ok (write_fat_entry dev vol c v) (\<lambda>_. True)"
    unfolding write_fat_entry_def Let_def
  proof (rule safe_bindM [OF safe_liftO [where Q = "\<lambda>x. x = c * 4"]])
    fix x assume x: "x = c * 4"
    show "ok (bindM (liftO (rem_chk x (bytes_per_sector vol))) (\<lambda>in_sector. foldM (\<lambda>i _.
         bindM (liftO (mul_chk (word_of_nat i) (sectors_per_fat vol))) (\<lambda>copy.
         bindM (liftO (add_chk (fat_start_lba vol) copy)) (\<lambda>start.
         bindM (liftO (div_chk x (bytes_per_sector vol))) (\<lambda>k.
         bindM (liftO (add_chk start k)) (\<lambda>fat_sector.
         bindM (drive_read dev (ucast fat_sector) zero_block) (\<lambda>buf.
         bindM (liftO (le32_at buf (unat in_sector))) (\<lambda>old.
           drive_write dev (ucast fat_sector) (splice (unat in_sector)
             (u32_to_le_bytes ((v AND CLUSTER_MASK) OR (old AND NOT CLUSTER_MASK))) buf))))))))
         [0..<unat (num_fats vol)] ())) (\<lambda>_. True)"
      unfolding x rem_chk_def div_chk_def
      by (use vol fat_slot [OF vol, of c] in \<open>auto simp: vol_ok_def intro!: safe_foldM_True ok_read_block512 ok_le32 ok_drive_write
          safe_seq [OF safe_chk(1)] safe_seq [OF safe_chk(3)]\<close>)
  qed (auto simp: panic_ok_True dest: chk_OkD(3))
qed

lemma ok_update_fsinfo_ignored [safe_intros]: "vol_ok vol \<Longrightarrow> ok (update_fsinfo_ignored dev vol n l) (\<lambda>_. True)"
  unfolding update_fsinfo_ignored_def update_fsinfo_def Let_def
  by (auto intro!: safe_intros ok_read_block512 safe_liftO simp: le32_at_def)

lemma ok_write_cluster [safe_intros]:
  assumes vol: "vol_ok vol" and "cluster_bytes vol \<le> length data"
  shows "ok (write_cluster dev vol c data) (\<lambda>_. True)"
  unfolding write_cluster_def Let_def
proof (rule safe_seq [OF ok_cluster_to_lba], simp, rule safe_foldM)
  fix sec lba
  assume "sec \<in> set [0..<unat (sectors_per_cluster vol)]"
  then have "sec * BLOCK_SIZE + BLOCK_SIZE \<le> length data"
    using assms mult_le_mono1 [of "Suc sec" "unat (sectors_per_cluster vol)" 512]
    by (simp add: cluster_bytes_eq [OF vol] BLOCK_SIZE_def)
  then show "ok (if sec * BLOCK_SIZE + BLOCK_SIZE \<le> length data
      then drive_write dev (ucast lba + word_of_nat sec) (take BLOCK_SIZE (drop (sec * BLOCK_SIZE) data))
      else panic) (\<lambda>_. True)" by (simp add: safe_intros)
qed simp

lemma ok_zero_cluster [safe_intros]: "vol_ok vol \<Longrightarrow> ok (zero_cluster dev vol c) (\<lambda>_. True)"
  unfolding zero_cluster_def by (rule ok_write_cluster) simp_all

lemma ok_allocate_chain [safe_intros]: "vol_ok vol \<Longrightarrow> ok (allocate_chain dev vol n) (\<lambda>_. True)"
  unfolding allocate_chain_def allocate_step_def by (auto intro!: safe_intros split: prod.split)

lemma ok_free_chain [safe_intros]: "vol_ok vol \<Longrightarrow> ok (free_chain dev vol c) (\<lambda>_. True)"
proof -
  assume vol: "vol_ok vol"
  then have "ok (loopM (free_chain_body dev vol) (c, 0)) (\<lambda>_. True)"
    unfolding free_chain_body_def
    by - (rule safe_loopM [where P = "\<lambda>_. True"], auto intro!: safe_intros split: prod.split)
  with vol show ?thesis unfolding free_chain_def by (auto intro!: safe_intros)
qed

lemma ok_write_chain [safe_intros]: "vol_ok vol \<Longrightarrow> ok (write_chain dev vol c data) (\<lambda>_. True)"
  unfolding write_chain_def write_chain_body_def Let_def
  by (rule safe_loopM [where P = "\<lambda>_. True"]) (auto intro!: safe_intros split: prod.split)

lemma ok_add_in_sectors [safe_intros]: "ok (add_in_sectors dev lba secs e) (\<lambda>_. True)"
  by (induction secs) (auto intro!: safe_intros ok_read_block512 split: option.split)

lemma ok_next_or_grow [safe_intros]: "vol_ok vol \<Longrightarrow> ok (next_or_grow dev vol c) (\<lambda>_. True)"
  unfolding next_or_grow_def by (auto intro!: safe_intros)

lemma ok_add_dir_entry [safe_intros]: "vol_ok vol \<Longrightarrow> ok (add_dir_entry dev vol p n a c s) (\<lambda>_. True)"
  unfolding add_dir_entry_def
  by (rule safe_loopM [where P = "\<lambda>_. True"]) (auto intro!: safe_intros ok_cluster_to_lba)

lemma ok_delete_in_sectors [safe_intros]: "ok (delete_in_sectors dev lba secs n) (\<lambda>_. True)"
  by (induction secs) (auto intro!: safe_intros ok_read_block512 split: scan_result.split)

lemma ok_delete_dir_entry [safe_intros]: "vol_ok vol \<Longrightarrow> ok (delete_dir_entry dev vol p n) (\<lambda>_. True)"
  unfolding delete_dir_entry_def
  by (rule safe_loopM [where P = "\<lambda>_. True"]) (auto intro!: safe_intros ok_cluster_to_lba)

lemma ok_free_entry_chain [safe_intros]: "vol_ok vol \<Longrightarrow> ok (free_entry_chain dev vol e) (\<lambda>_. True)"
  unfolding free_entry_chain_def by (auto intro!: safe_intros)

lemma ok_truncate_file [safe_intros]: "vol_ok vol \<Longrightarrow> ok (truncate_file dev vol c n) (\<lambda>_. True)"
  unfolding truncate_file_def by (auto intro!: safe_intros split: option.split)

lemma ok_split_parent [safe_intros]: "ok (liftO (split_parent p)) (\<lambda>_. True)"
  by (rule safe_liftO) (auto simp: split_parent_def Let_def split: option.splits)

lemma ok_create_file [safe_intros]: "vol_ok vol \<Longrightarrow> ok (Fat.create_file dev vol p) (\<lambda>_. True)"
  unfolding create_file_def by (auto intro!: safe_intros split: prod.split)

lemma ok_write_file [safe_intros]: "vol_ok vol \<Longrightarrow> ok (Fat.write_file dev vol p data) (\<lambda>_. True)"
  unfolding write_file_def Let_def by (auto intro!: safe_intros split: prod.split option.split)

lemma ok_append_file [safe_intros]: "vol_ok vol \<Longrightarrow> ok (Fat.append_file dev vol p data) (\<lambda>_. True)"
  unfolding append_file_def by (auto intro!: safe_intros split: sum.split FsError.split)

lemma ok_create_dir [safe_intros]: "vol_ok vol \<Longrightarrow> ok (Fat.create_dir dev vol p) (\<lambda>_. True)"
proof -
  assume vol: "vol_ok vol"
  then have "64 \<le> cluster_bytes vol" by (simp add: cluster_bytes_eq [OF vol] vol_ok_def)
  with vol show ?thesis
    unfolding create_dir_def Let_def by (auto intro!: safe_intros split: prod.split)
qed

lemma ok_remove [safe_intros]: "vol_ok vol \<Longrightarrow> ok (Fat.remove dev vol p) (\<lambda>_. True)"
  unfolding remove_def by (auto intro!: safe_intros split: prod.split option.split)

end

section \<open>Mounting\<close>

text \<open>A boot sector \<open>mount\<close> does not refuse, and one whose reserved sectors and tables reach past sector \<open>2 ^ 32\<close>.\<close>

definition fat_sector :: "u8 list \<Rightarrow> bool" where
  "fat_sector buf \<longleftrightarrow> u16_from_le_bytes (buf ! 0x0B) (buf ! 0x0C) = 512 \<and> buf ! 0x0D \<noteq> 0 \<and> buf ! 0x10 \<noteq> 0"

definition bpb_overflows :: "u8 list \<Rightarrow> bool" where
  "bpb_overflows buf \<longleftrightarrow> fat_sector buf
     \<and> 2 ^ 32 \<le> unat (u16_from_le_bytes (buf ! 0x0E) (buf ! 0x0F))
         + unat (buf ! 0x10) * unat (u32_from_le_bytes (buf ! 0x24) (buf ! 0x25) (buf ! 0x26) (buf ! 0x27))"

lemma unat_ucast_8_32 [simp]: "unat (ucast (w :: u8) :: u32) = unat w"
  using unsigned_less [of w, where 'a = nat] by (simp add: unsigned_ucast_eq take_bit_nat_eq_self)

lemma unat_ucast_16_32 [simp]: "unat (ucast (w :: u16) :: u32) = unat w"
  using unsigned_less [of w, where 'a = nat] by (simp add: unsigned_ucast_eq take_bit_nat_eq_self)

lemma ucast_32_eq_iff: "(ucast (w :: u8) :: u32) = 0 \<longleftrightarrow> w = 0" "(ucast (v :: u16) :: u32) = 512 \<longleftrightarrow> v = 512"
  by (simp_all add: word_unat_eq_iff [where 'a = 32] word_unat_eq_iff [where 'a = 8] word_unat_eq_iff [where 'a = 16])

text \<open>What \<open>mount\<close> does with the boot sector it read.\<close>

lemma mount_of_sector:
  assumes "drive_read dev 0 zero_block d = Some (Ok buf, d')"
  shows "\<exists>r. Fat.mount dev d = Some (r, d') \<and> (r = Panic Overflow \<longleftrightarrow> bpb_overflows buf) \<and> r \<noteq> Panic Fault \<and> (\<forall>vol. r = Ok vol \<longrightarrow> vol_ok vol)
    \<and> ((\<exists>e. r = Err e) \<longleftrightarrow> \<not> fat_sector buf)"
proof -
  let ?spf = "u32_from_le_bytes (buf ! 0x24) (buf ! 0x25) (buf ! 0x26) (buf ! 0x27)"
  let ?nf = "ucast (buf ! 0x10) :: u32" and ?rsv = "ucast (u16_from_le_bytes (buf ! 0x0E) (buf ! 0x0F)) :: u32"
  have byte: "unat (w :: u8) < 256" for w using unsigned_less [of w, where 'a = nat] by simp
  have mul: "unat (?nf * ?spf) = unat ?nf * unat ?spf" if "unat ?nf * unat ?spf < 2 ^ 32" using that by (simp add: unat_word_ariths)
  show ?thesis
    unfolding mount_def
    by (subst (1) bindM_Ok [where m = "drive_read dev 0 zero_block", OF assms])
      (use mul byte in \<open>auto simp: Let_def fail_run BLOCK_SIZE_def bpb_overflows_def fat_sector_def ucast_32_eq_iff chk_defs bindM_def liftO_run ret_run
        vol_ok_def unat_gt_0 not_less\<close>)
qed

lemma mount_cases:
  assumes "dev_sane dev" "Fat.mount dev d = Some (r, d')"
  shows "r \<noteq> Panic Fault" "r = Ok vol \<Longrightarrow> vol_ok vol"
    "r = Panic Overflow \<Longrightarrow> \<exists>buf d1. drive_read dev 0 zero_block d = Some (Ok buf, d1) \<and> bpb_overflows buf"
proof -
  obtain q d1 where q: "drive_read dev 0 zero_block d = Some (q, d1)" using assms(2) by (auto simp: mount_def bindM_def bind_eq_Some_conv)
  have "sane_device dev" using assms(1) by unfold_locales
  from safeD(2) [OF sane_device.ok_drive_read [OF this, of False] _ q] have "\<not> panics q" by simp
  then consider buf where "q = Ok buf" | e where "q = Err e" by (cases q) auto
  then have "r \<noteq> Panic Fault \<and> (r = Ok vol \<longrightarrow> vol_ok vol)
    \<and> (r = Panic Overflow \<longrightarrow> (\<exists>buf d1. drive_read dev 0 zero_block d = Some (Ok buf, d1) \<and> bpb_overflows buf))"
  proof cases
    case (1 buf)
    with q mount_of_sector [of dev d buf d1] assms(2) show ?thesis by auto
  next
    case (2 e)
    then have "Fat.mount dev d = Some (Err e, d1)" unfolding mount_def by (intro bindM_Err) (simp add: q)
    with assms(2) show ?thesis by auto
  qed
  then show "r \<noteq> Panic Fault" "r = Ok vol \<Longrightarrow> vol_ok vol"
    "r = Panic Overflow \<Longrightarrow> \<exists>buf d1. drive_read dev 0 zero_block d = Some (Ok buf, d1) \<and> bpb_overflows buf" by blast+
qed

lemma safe_mount: "dev_sane dev \<Longrightarrow> safe True (\<lambda>_. True) (Fat.mount dev) vol_ok"
  by (rule safeI) (simp add: panic_ok_True mount_cases)


section \<open>The driver on the ATA disk\<close>

lemma settles_safe: "settles m \<Longrightarrow> safe ov (\<lambda>_. True) m (\<lambda>_. True)"
  unfolding settles_def safe_def by (metis option.inject prod.inject panic_okI)

lemma safe_read_words: "safe ov (\<lambda>_. True) (read_words P n) (\<lambda>ws. length ws = n)"
  unfolding read_words_def
proof (induction n)
  case (Suc n)
  have e: "[0..<Suc n] = [0..<n] @ [n]" by simp
  show ?case unfolding e foldM_append
    by (rule safe_bindM [OF Suc.IH]) (auto intro!: safe_intros settles_safe settles_intros)
qed (auto intro!: safe_ret)

lemma length_word_bytes_concat: "length (concat (map word_bytes ws)) = 2 * length ws"
  by (induction ws) (simp_all add: word_bytes_def)

lemma ata_sane: "dev_sane (ata_device P)"
proof -
  have "safe False (\<lambda>_. True) (ata_read_block P lba buf) (\<lambda>(n, b). length b = length buf)" for lba buf
  proof -
    have rest: "safe False (\<lambda>_. True) (bindM (liftO (slice_to BLOCK_SIZE buf)) (\<lambda>block. bindM (read_words P (length block div 2)) (\<lambda>ws.
        ret (BLOCK_SIZE, concat (map word_bytes ws) @ drop BLOCK_SIZE buf)))) (\<lambda>(n, b). length b = length buf)" if "\<not> length buf < BLOCK_SIZE"
      using that by (auto intro!: safe_bindM [OF safe_read_words] safe_ret simp: slice_to_Ok length_word_bytes_concat BLOCK_SIZE_def)
    show ?thesis unfolding ata_read_block_def
      by (intro safe_seq safe_if safe_fail rest) (auto intro!: safe_gets settles_safe settles_intros simp: select_lba28_def)
  qed
  moreover have "safe False (\<lambda>_. True) (ata_write_block P lba buf) (\<lambda>_. True)" for lba buf
    by (rule settles_safe [OF settles_ata(2)])
  ultimately show ?thesis by (simp add: dev_sane_def ata_device_def)
qed

interpretation fat_on_ata: sane_device "ata_device P" for P
  by unfold_locales (rule ata_sane)

text \<open>A volume with one sector per cluster, in reach of every chain.\<close>

definition small_volume :: FatFs where
  "small_volume = \<lparr>bytes_per_sector = 512, sectors_per_cluster = 1, reserved_sectors = 32, num_fats = 2, sectors_per_fat = 4,
     root_cluster = 2, fat_start_lba = 32, data_start_lba = 40\<rparr>"


end
