(* ===== verification/FatRefine.thy ===== *)
theory FatRefine
  imports Fat
begin

text \<open>
  Every method of the FAT driver is device independent: on any device that meets the
  \<open>block_device\<close> contract it returns what it returns on the disk image, and leaves the image it
  would leave. The following theories can therefore work on images only.
\<close>

lemma refines_case_option [sim_intros]:
  "refines R m m' \<Longrightarrow> (\<And>x. refines R (k x) (k' x)) \<Longrightarrow>
   refines R (case a of None \<Rightarrow> m | Some x \<Rightarrow> k x) (case a of None \<Rightarrow> m' | Some x \<Rightarrow> k' x)"
  by (cases a) simp_all

lemma refines_case_sum [sim_intros]:
  "(\<And>x. refines R (f x) (f' x)) \<Longrightarrow> (\<And>x. refines R (g x) (g' x)) \<Longrightarrow>
   refines R (case a of Inl x \<Rightarrow> f x | Inr x \<Rightarrow> g x) (case a of Inl x \<Rightarrow> f' x | Inr x \<Rightarrow> g' x)"
  by (cases a) simp_all

lemma refines_case_prod [sim_intros]:
  "(\<And>x y. refines R (f x y) (f' x y)) \<Longrightarrow>
   refines R (case a of (x, y) \<Rightarrow> f x y) (case a of (x, y) \<Rightarrow> f' x y)"
  by (cases a) simp_all

lemma refines_case_scan [sim_intros]:
  "refines R e e' \<Longrightarrow> (\<And>x. refines R (f x) (f' x)) \<Longrightarrow> refines R n n' \<Longrightarrow>
   refines R (case a of ScanEnd \<Rightarrow> e | ScanAt x \<Rightarrow> f x | ScanNone \<Rightarrow> n)
     (case a of ScanEnd \<Rightarrow> e' | ScanAt x \<Rightarrow> f' x | ScanNone \<Rightarrow> n')"
  by (cases a) simp_all

lemma refines_case_fs_error [sim_intros]:
  "refines R a a' \<Longrightarrow> refines R b b' \<Longrightarrow> refines R c c' \<Longrightarrow> refines R d d' \<Longrightarrow> refines R e e' \<Longrightarrow>
   refines R (case x of NotFound \<Rightarrow> a | NotADir \<Rightarrow> b | IsADir \<Rightarrow> c | Io \<Rightarrow> d | Unsupported \<Rightarrow> e)
     (case x of NotFound \<Rightarrow> a' | NotADir \<Rightarrow> b' | IsADir \<Rightarrow> c' | Io \<Rightarrow> d' | Unsupported \<Rightarrow> e')"
  by (cases x) simp_all

context block_device
begin

lemma refines_drive_read [sim_intros]:
  "refines rel (drive_read image_device lba buf) (drive_read dev lba buf)"
  unfolding drive_read_def by (intro sim_intros)

lemma refines_drive_write [sim_intros]:
  "refines rel (drive_write image_device lba buf) (drive_write dev lba buf)"
  unfolding drive_write_def by (intro sim_intros)

lemma refines_mount [sim_intros]: "refines rel (mount image_device) (mount dev)"
  unfolding mount_def Let_def by (intro sim_intros)

lemma refines_cluster_to_lba [sim_intros]: "refines rel (cluster_to_lba fs c) (cluster_to_lba fs c)"
  unfolding cluster_to_lba_def by (intro sim_intros)

lemma refines_fat_position [sim_intros]: "refines rel (fat_position fs c) (fat_position fs c)"
  unfolding fat_position_def by (intro sim_intros)

lemma refines_next_cluster [sim_intros]:
  "refines rel (next_cluster image_device fs c) (next_cluster dev fs c)"
  unfolding next_cluster_def Let_def by (intro sim_intros)

lemma refines_read_cluster [sim_intros]:
  "refines rel (read_cluster image_device fs lba) (read_cluster dev fs lba)"
  unfolding read_cluster_def Let_def by (intro sim_intros)

lemma refines_read_chain [sim_intros]:
  "refines rel (read_chain image_device fs c mx) (read_chain dev fs c mx)"
  unfolding read_chain_def read_chain_body_def by (intro sim_intros)

lemma refines_read_dir [sim_intros]: "refines rel (read_dir image_device fs c) (read_dir dev fs c)"
  unfolding read_dir_def by (intro sim_intros)

lemma refines_lookup_segs:
  "refines rel (lookup_segs image_device fs i segs c found) (lookup_segs dev fs i segs c found)"
proof (induction segs arbitrary: i c found)
  case (Cons seg segs)
  show ?case unfolding lookup_segs.simps by (intro sim_intros Cons.IH)
qed (simp, intro sim_intros)

lemma refines_lookup [sim_intros]: "refines rel (lookup image_device fs p) (lookup dev fs p)"
  unfolding lookup_def by (intro sim_intros refines_lookup_segs)

lemma refines_read_file [sim_intros]: "refines rel (read_file image_device fs p) (read_file dev fs p)"
  unfolding read_file_def by (intro sim_intros)

lemma refines_list_dir [sim_intros]: "refines rel (list_dir image_device fs p) (list_dir dev fs p)"
  unfolding list_dir_def by (intro sim_intros)

lemma refines_is_dir [sim_intros]: "refines rel (is_dir image_device fs p) (is_dir dev fs p)"
  unfolding is_dir_def by (intro sim_intros)

lemma refines_cluster_for [sim_intros]:
  "refines rel (cluster_for image_device fs p) (cluster_for dev fs p)"
  unfolding cluster_for_def by (intro sim_intros)

lemma refines_find_in_dir [sim_intros]:
  "refines rel (find_in_dir image_device fs c n) (find_in_dir dev fs c n)"
  unfolding find_in_dir_def by (intro sim_intros)

lemma refines_find_free_loop:
  "refines rel (find_free_loop image_device fs ns cur buf) (find_free_loop dev fs ns cur buf)"
proof (induction ns arbitrary: cur buf)
  case (Cons n ns)
  show ?case unfolding find_free_loop.simps Let_def by (intro sim_intros Cons.IH)
qed (simp, intro sim_intros)

lemma refines_find_free_cluster [sim_intros]:
  "refines rel (find_free_cluster image_device fs) (find_free_cluster dev fs)"
  unfolding find_free_cluster_def Let_def by (intro sim_intros refines_find_free_loop)

lemma refines_write_fat_entry [sim_intros]:
  "refines rel (write_fat_entry image_device fs c v) (write_fat_entry dev fs c v)"
  unfolding write_fat_entry_def Let_def by (intro sim_intros)

lemma refines_update_fsinfo_ignored [sim_intros]:
  "refines rel (update_fsinfo_ignored image_device fs n l) (update_fsinfo_ignored dev fs n l)"
  unfolding update_fsinfo_ignored_def update_fsinfo_def Let_def by (intro sim_intros)

lemma refines_write_cluster [sim_intros]:
  "refines rel (write_cluster image_device fs c b) (write_cluster dev fs c b)"
  unfolding write_cluster_def Let_def by (intro sim_intros)

lemma refines_zero_cluster [sim_intros]:
  "refines rel (zero_cluster image_device fs c) (zero_cluster dev fs c)"
  unfolding zero_cluster_def by (intro sim_intros)

lemma refines_allocate_chain [sim_intros]:
  "refines rel (allocate_chain image_device fs n) (allocate_chain dev fs n)"
  unfolding allocate_chain_def allocate_step_def by (intro sim_intros)

lemma refines_free_chain [sim_intros]:
  "refines rel (free_chain image_device fs c) (free_chain dev fs c)"
  unfolding free_chain_def free_chain_body_def by (intro sim_intros)

lemma refines_free_entry_chain [sim_intros]:
  "refines rel (free_entry_chain image_device fs e) (free_entry_chain dev fs e)"
  unfolding free_entry_chain_def by (intro sim_intros)

lemma refines_write_chain [sim_intros]:
  "refines rel (write_chain image_device fs c b) (write_chain dev fs c b)"
  unfolding write_chain_def write_chain_body_def Let_def by (intro sim_intros)

lemma refines_add_in_sectors [sim_intros]:
  "refines rel (add_in_sectors image_device lba secs e) (add_in_sectors dev lba secs e)"
proof (induction secs)
  case (Cons sec secs)
  show ?case unfolding add_in_sectors.simps by (intro sim_intros Cons.IH)
qed (simp, intro sim_intros)

lemma refines_next_or_grow [sim_intros]:
  "refines rel (next_or_grow image_device fs c) (next_or_grow dev fs c)"
  unfolding next_or_grow_def by (intro sim_intros)

lemma refines_add_dir_entry [sim_intros]:
  "refines rel (add_dir_entry image_device fs p n a c s) (add_dir_entry dev fs p n a c s)"
  unfolding add_dir_entry_def by (intro sim_intros)

lemma refines_delete_in_sectors [sim_intros]:
  "refines rel (delete_in_sectors image_device lba secs n) (delete_in_sectors dev lba secs n)"
proof (induction secs)
  case (Cons sec secs)
  show ?case unfolding delete_in_sectors.simps by (intro sim_intros Cons.IH)
qed (simp, intro sim_intros)

lemma refines_delete_dir_entry [sim_intros]:
  "refines rel (delete_dir_entry image_device fs p n) (delete_dir_entry dev fs p n)"
  unfolding delete_dir_entry_def by (intro sim_intros)

lemma refines_truncate_file [sim_intros]:
  "refines rel (truncate_file image_device fs c n) (truncate_file dev fs c n)"
  unfolding truncate_file_def by (intro sim_intros)

lemma refines_create_file [sim_intros]:
  "refines rel (create_file image_device fs p) (create_file dev fs p)"
  unfolding create_file_def by (intro sim_intros)

lemma refines_write_file [sim_intros]:
  "refines rel (write_file image_device fs p b) (write_file dev fs p b)"
  unfolding write_file_def Let_def by (intro sim_intros)

lemma refines_append_file [sim_intros]:
  "refines rel (append_file image_device fs p b) (append_file dev fs p b)"
  unfolding append_file_def by (intro sim_intros)

lemma refines_create_dir [sim_intros]:
  "refines rel (create_dir image_device fs p) (create_dir dev fs p)"
  unfolding create_dir_def Let_def by (intro sim_intros)

lemma refines_remove [sim_intros]: "refines rel (remove image_device fs p) (remove dev fs p)"
  unfolding remove_def by (intro sim_intros)

end

end
