(* ===== verification/FatImage.thy ===== *)
theory FatImage
  imports FatRefine FatSafe
begin

unbundle bit_operations_syntax

text \<open>
  The FAT driver on a well-formed volume. \<open>holds vol n f d im\<close> relates a disk image to its abstract
  contents: every copy of the allocation table is the function \<open>f\<close> from clusters to links, and \<open>d\<close>
  gives the bytes of each data cluster. The first half shows that the sector-level helpers of
  \<^verbatim>\<open>kernel/src/fs/fat.rs\<close> are reads and updates of \<open>f\<close> and \<open>d\<close>; no 32-bit computation on sector addresses
  wraps, because \<open>fits\<close> bounds the geometry by the size of the disk. \<open>does\<close> states a run as a step on \<open>(f, d)\<close>;
  from there on the proofs speak of links and bytes only.
\<close>

section \<open>Geometry\<close>

text \<open>The number of entries of the table, and the blocks of an entry and of a cluster.\<close>

definition cap :: "FatFs \<Rightarrow> nat" where
  "cap vol = unat (sectors_per_fat vol) * 128"

definition fat_sec :: "FatFs \<Rightarrow> nat \<Rightarrow> nat \<Rightarrow> nat" where
  "fat_sec vol i c = unat (fat_start_lba vol) + i * unat (sectors_per_fat vol) + c div 128"

definition cluster_blk :: "FatFs \<Rightarrow> nat \<Rightarrow> nat" where
  "cluster_blk vol c = unat (data_start_lba vol) + (c - 2) * unat (sectors_per_cluster vol)"

text \<open>
  A volume that fits a disk of \<open>n\<close> blocks: the FsInfo sector lies before the table, the data follow
  its copies. The clusters from 2 up to \<open>lim\<close> lie on the disk; the table may have surplus entries, as formatters
  round its size up to whole sectors.
\<close>

definition lim :: "FatFs \<Rightarrow> nat \<Rightarrow> nat" where
  "lim vol n = min (cap vol) (2 + (n - unat (data_start_lba vol)) div unat (sectors_per_cluster vol))"

definition fits :: "FatFs \<Rightarrow> nat \<Rightarrow> bool" where
  "fits vol n \<longleftrightarrow> vol_ok vol \<and> 1 < unat (fat_start_lba vol)
     \<and> 0 < unat (num_fats vol)
     \<and> unat (data_start_lba vol) = unat (fat_start_lba vol) + unat (num_fats vol) * unat (sectors_per_fat vol)
     \<and> 2 < lim vol n \<and> cap vol \<le> 0x0FFFFFF8 \<and> n < 2 ^ 32"

lemma fitsD:
  assumes "fits vol n"
  shows "vol_ok vol" "1 < unat (fat_start_lba vol)" "0 < unat (num_fats vol)"
    "unat (data_start_lba vol) = unat (fat_start_lba vol) + unat (num_fats vol) * unat (sectors_per_fat vol)"
    "2 < lim vol n" "cap vol \<le> 0x0FFFFFF8" "cluster_blk vol (lim vol n) \<le> n" "n < 2 ^ 32" "unat (data_start_lba vol) \<le> n"
proof -
  let ?spc = "unat (sectors_per_cluster vol)" and ?k = "n - unat (data_start_lba vol)"
  have k: "0 < ?k div ?spc" using assms unfolding fits_def lim_def by linarith
  then show le: "unat (data_start_lba vol) \<le> n" by (cases "unat (data_start_lba vol) \<le> n") simp_all
  have "(lim vol n - 2) * ?spc \<le> ?k div ?spc * ?spc" by (intro mult_le_mono1) (simp add: lim_def)
  also have "\<dots> \<le> ?k" by simp
  finally show "cluster_blk vol (lim vol n) \<le> n" using le by (simp add: cluster_blk_def)
qed (use assms in \<open>simp_all add: fits_def\<close>)

lemma lim_cap: "lim vol n \<le> cap vol" "c < lim vol n \<Longrightarrow> c < cap vol"
  by (simp_all add: lim_def)

lemma fat_sec_less:
  assumes "fits vol n" "i < unat (num_fats vol)" "c < cap vol"
  shows "fat_sec vol i c < unat (data_start_lba vol)" "unat (fat_start_lba vol) \<le> fat_sec vol i c"
proof -
  let ?spf = "unat (sectors_per_fat vol)"
  have "c div 128 < ?spf" using assms(3) unfolding cap_def by (simp add: less_mult_imp_div_less)
  then have "i * ?spf + c div 128 < (i + 1) * ?spf" by simp
  also have "\<dots> \<le> unat (num_fats vol) * ?spf" using assms(2) by (intro mult_le_mono1) simp
  finally show "fat_sec vol i c < unat (data_start_lba vol)" using fitsD(4) [OF assms(1)] by (simp add: fat_sec_def)
  show "unat (fat_start_lba vol) \<le> fat_sec vol i c" by (simp add: fat_sec_def)
qed

lemma fat_sec_eq:
  assumes "c < cap vol" "c' < cap vol" "fat_sec vol i c = fat_sec vol j c'"
  shows "i = j \<and> c div 128 = c' div 128"
proof -
  let ?spf = "unat (sectors_per_fat vol)"
  have "c div 128 < ?spf" "c' div 128 < ?spf" using assms(1,2) unfolding cap_def by (simp_all add: less_mult_imp_div_less)
  moreover have "i * ?spf + c div 128 = j * ?spf + c' div 128" using assms(3) by (simp add: fat_sec_def)
  then have "(i * ?spf + c div 128) div ?spf = (j * ?spf + c' div 128) div ?spf"
    "(i * ?spf + c div 128) mod ?spf = (j * ?spf + c' div 128) mod ?spf" by simp_all
  ultimately show ?thesis by simp
qed

lemma cluster_blk_less:
  assumes "fits vol n" "2 \<le> c" "c < lim vol n" "s < unat (sectors_per_cluster vol)"
  shows "cluster_blk vol c + s < n" "unat (data_start_lba vol) \<le> cluster_blk vol c + s"
proof -
  let ?spc = "unat (sectors_per_cluster vol)"
  have "(c - 2) * ?spc + s < (c - 2 + 1) * ?spc" using assms(4) by simp
  also have "\<dots> \<le> (lim vol n - 2) * ?spc" using assms(2,3) by (intro mult_le_mono1) simp
  finally show "cluster_blk vol c + s < n" using fitsD(7) [OF assms(1)] by (simp add: cluster_blk_def)
  show "unat (data_start_lba vol) \<le> cluster_blk vol c + s" by (simp add: cluster_blk_def)
qed

lemma cluster_blk_eq:
  assumes "2 \<le> c" "2 \<le> c'" "s < unat (sectors_per_cluster vol)" "s' < unat (sectors_per_cluster vol)"
    and "cluster_blk vol c + s = cluster_blk vol c' + s'"
  shows "c = c' \<and> s = s'"
proof -
  let ?spc = "unat (sectors_per_cluster vol)"
  have "(c - 2) * ?spc + s = (c' - 2) * ?spc + s'" using assms(5) by (simp add: cluster_blk_def)
  then have "((c - 2) * ?spc + s) div ?spc = ((c' - 2) * ?spc + s') div ?spc" "((c - 2) * ?spc + s) mod ?spc = ((c' - 2) * ?spc + s') mod ?spc"
    by simp_all
  then have "c - 2 = c' - 2" "s = s'" using assms(3,4) by simp_all
  then show ?thesis using assms(1,2) by simp
qed

section \<open>Addresses do not wrap\<close>

lemma unat_fat_offset:
  assumes "fits vol n" "unat c < cap vol"
  shows "unat ((c * 4) div bytes_per_sector vol) = unat c div 128"
    "unat ((c * 4) mod bytes_per_sector vol) = 4 * (unat c mod 128)"
proof -
  have "unat (c * 4) = unat c * 4"
    using assms fitsD(6) [OF assms(1)] by (simp add: unat_word_ariths)
  moreover have "bytes_per_sector vol = 512" using fitsD(1) [OF assms(1)] by (simp add: vol_ok_def)
  ultimately show "unat ((c * 4) div bytes_per_sector vol) = unat c div 128"
    "unat ((c * 4) mod bytes_per_sector vol) = 4 * (unat c mod 128)"
    using mult_mod_right [of 4 "unat c" 128] by (simp_all add: unat_div unat_mod mult.commute)
qed

lemma unat_fat_sector:
  assumes "fits vol n" "i < unat (num_fats vol)" "unat c < cap vol"
  shows "unat (fat_start_lba vol + word_of_nat i * sectors_per_fat vol + (c * 4) div bytes_per_sector vol) = fat_sec vol i (unat c)"
proof -
  have le: "fat_sec vol i (unat c) < 2 ^ 32"
    using fat_sec_less(1) [OF assms] fitsD(8,9) [OF assms(1)] by linarith
  have i: "i < 2 ^ 32" using assms(2) unsigned_less [of "num_fats vol", where 'a = nat] by simp
  have "unat (word_of_nat i * sectors_per_fat vol) = i * unat (sectors_per_fat vol)"
    using le i by (simp add: unat_word_ariths unat_of_nat fat_sec_def)
  then show ?thesis
    using le unat_fat_offset(1) [OF assms(1,3)] by (simp add: unat_word_ariths fat_sec_def)
qed

lemma fat_position_fits:
  assumes "fits vol n" "unat c < cap vol"
  shows "fat_position vol c = ret (fat_start_lba vol + (c * 4) div bytes_per_sector vol, unat ((c * 4) mod bytes_per_sector vol))"
proof (rule fat_position_small)
  have "fat_sec vol 0 (unat c) < 2 ^ 32"
    using fat_sec_less(1) [OF assms(1) fitsD(3) [OF assms(1)] assms(2)] fitsD(8,9) [OF assms(1)] by linarith
  then show "unat (fat_start_lba vol) + unat c div 128 < 2 ^ 32" by (simp add: fat_sec_def)
qed (use assms fitsD(1,6) [OF assms(1)] in \<open>simp_all add: vol_ok_def\<close>)

text \<open>The checked address of an entry in copy \<open>i\<close> of the table.\<close>

lemma fat_entry_checks:
  assumes "fits vol n" "i < unat (num_fats vol)" "unat c < cap vol"
  shows "mul_chk c 4 = Ok (c * 4)" "mul_chk (word_of_nat i) (sectors_per_fat vol) = Ok (word_of_nat i * sectors_per_fat vol)"
    "add_chk (fat_start_lba vol) (word_of_nat i * sectors_per_fat vol) = Ok (fat_start_lba vol + word_of_nat i * sectors_per_fat vol)"
    "add_chk (fat_start_lba vol + word_of_nat i * sectors_per_fat vol) (c * 4 div bytes_per_sector vol)
       = Ok (fat_start_lba vol + word_of_nat i * sectors_per_fat vol + c * 4 div bytes_per_sector vol)"
proof -
  have le: "unat (fat_start_lba vol) + i * unat (sectors_per_fat vol) + unat c div 128 < 2 ^ 32"
    using fat_sec_less(1) [OF assms] fitsD(8,9) [OF assms(1)] by (simp add: fat_sec_def)
  have i: "unat (word_of_nat i :: u32) = i" using assms(2) unsigned_less [of "num_fats vol", where 'a = nat] by (simp add: unat_of_nat)
  have m: "unat (word_of_nat i * sectors_per_fat vol) = i * unat (sectors_per_fat vol)" using le i by (simp add: unat_word_ariths)
  have a: "unat (fat_start_lba vol + word_of_nat i * sectors_per_fat vol) = unat (fat_start_lba vol) + i * unat (sectors_per_fat vol)"
    using le m by (simp add: unat_word_ariths)
  show "mul_chk c 4 = Ok (c * 4)" using assms(3) fitsD(6) [OF assms(1)] by (simp add: mul_chk_def)
  show "mul_chk (word_of_nat i) (sectors_per_fat vol) = Ok (word_of_nat i * sectors_per_fat vol)" using le i by (simp add: mul_chk_def)
  show "add_chk (fat_start_lba vol) (word_of_nat i * sectors_per_fat vol) = Ok (fat_start_lba vol + word_of_nat i * sectors_per_fat vol)"
    using le m by (simp add: add_chk_def)
  show "add_chk (fat_start_lba vol + word_of_nat i * sectors_per_fat vol) (c * 4 div bytes_per_sector vol)
       = Ok (fat_start_lba vol + word_of_nat i * sectors_per_fat vol + c * 4 div bytes_per_sector vol)"
    using le a unat_fat_offset(1) [OF assms(1,3)] by (simp add: add_chk_def)
qed

text \<open>The first sector of a cluster.\<close>

definition lba_of :: "FatFs \<Rightarrow> u32 \<Rightarrow> u32" where
  "lba_of vol c = data_start_lba vol + (c - 2) * sectors_per_cluster vol"

lemma cluster_lba:
  assumes "fits vol n" "2 \<le> unat c" "unat c < lim vol n"
  shows "unat (lba_of vol c) = cluster_blk vol (unat c)" "cluster_to_lba vol c = ret (lba_of vol c)"
proof -
  have pos: "0 < unat (sectors_per_cluster vol)" using fitsD(1) [OF assms(1)] by (simp add: vol_ok_def)
  have le: "cluster_blk vol (unat c) < 2 ^ 32"
    using cluster_blk_less(1) [OF assms pos] fitsD(8) [OF assms(1)] by linarith
  have "2 \<le> c" using assms(2) by (simp add: word_le_nat_alt)
  then have sub: "2 \<le> c" "unat (c - 2) = unat c - 2" by (simp_all add: unat_sub)
  then have mul: "unat ((c - 2) * sectors_per_cluster vol) = (unat c - 2) * unat (sectors_per_cluster vol)"
    using le by (simp add: unat_word_ariths cluster_blk_def)
  show "unat (lba_of vol c) = cluster_blk vol (unat c)" using le mul by (simp add: lba_of_def unat_word_ariths cluster_blk_def)
  show "cluster_to_lba vol c = ret (lba_of vol c)"
    using le sub mul by (simp add: cluster_to_lba_def chk_defs cluster_blk_def lba_of_def)
qed

lemma unat_cluster_sector:
  assumes "fits vol n" "2 \<le> unat c" "unat c < lim vol n" "s < unat (sectors_per_cluster vol)"
  shows "unat (ucast (lba_of vol c) + word_of_nat s :: u64) = cluster_blk vol (unat c) + s"
  using cluster_blk_less(1) [OF assms] fitsD(8) [OF assms(1)] assms(4) cluster_lba(1) [OF assms(1-3)]
  by (simp add: unat_word_ariths unat_of_nat)

section \<open>The abstract contents\<close>

definition word_at :: "u8 list \<Rightarrow> nat \<Rightarrow> u32" where
  "word_at b k = u32_from_le_bytes (b ! k) (b ! (k + 1)) (b ! (k + 2)) (b ! (k + 3))"

definition fat_copy :: "FatFs \<Rightarrow> nat \<Rightarrow> image \<Rightarrow> u32 \<Rightarrow> u32" where
  "fat_copy vol i im c = word_at (im ! fat_sec vol i (unat c)) (4 * (unat c mod 128)) AND CLUSTER_MASK"

definition cluster_data :: "FatFs \<Rightarrow> image \<Rightarrow> u32 \<Rightarrow> u8 list" where
  "cluster_data vol im c = concat (map (\<lambda>s. im ! (cluster_blk vol (unat c) + s)) [0..<unat (sectors_per_cluster vol)])"

definition data_cluster :: "FatFs \<Rightarrow> nat \<Rightarrow> u32 \<Rightarrow> bool" where
  "data_cluster vol n c \<longleftrightarrow> 2 \<le> unat c \<and> unat c < lim vol n"

text \<open>Block 0 describes the volume: the fields \<open>mount\<close> decodes are the ones of \<open>vol\<close>.\<close>

definition boot_block :: "FatFs \<Rightarrow> u8 list \<Rightarrow> bool" where
  "boot_block vol b \<longleftrightarrow>
     bytes_per_sector vol = ucast (u16_from_le_bytes (b ! 0x0B) (b ! 0x0C))
     \<and> sectors_per_cluster vol = ucast (b ! 0x0D)
     \<and> reserved_sectors vol = ucast (u16_from_le_bytes (b ! 0x0E) (b ! 0x0F))
     \<and> num_fats vol = ucast (b ! 0x10)
     \<and> sectors_per_fat vol = u32_from_le_bytes (b ! 0x24) (b ! 0x25) (b ! 0x26) (b ! 0x27)
     \<and> root_cluster vol = u32_from_le_bytes (b ! 0x2C) (b ! 0x2D) (b ! 0x2E) (b ! 0x2F)
     \<and> fat_start_lba vol = reserved_sectors vol
     \<and> data_start_lba vol = reserved_sectors vol + num_fats vol * sectors_per_fat vol"

text \<open>The links and the bytes of the clusters a disk holds. Surplus entries of the table are marked as used.\<close>

definition holds :: "FatFs \<Rightarrow> nat \<Rightarrow> (u32 \<Rightarrow> u32) \<Rightarrow> (u32 \<Rightarrow> u8 list) \<Rightarrow> image \<Rightarrow> bool" where
  "holds vol n f d im \<longleftrightarrow> length im = n \<and> (\<forall>b<n. length (im ! b) = 512) \<and> boot_block vol (im ! 0)
     \<and> (\<forall>i<unat (num_fats vol). \<forall>c. unat c < cap vol \<longrightarrow> fat_copy vol i im c = f c)
     \<and> (\<forall>c. data_cluster vol n c \<longrightarrow> cluster_data vol im c = d c)
     \<and> (\<forall>c. lim vol n \<le> unat c \<and> unat c < cap vol \<longrightarrow> f c \<noteq> 0)"

lemma drive_read_run:
  "unat lba < length im \<Longrightarrow> length buf = 512 \<Longrightarrow> drive_read image_device lba buf im = Some (Ok (im ! unat lba), im)"
  by (simp add: drive_read_def attempt_def image_device_def BLOCK_SIZE_def ret_run)

lemma drive_write_run:
  "unat lba < length im \<Longrightarrow> length b = 512 \<Longrightarrow> drive_write image_device lba b im = Some (Ok (), im[unat lba := b])"
  by (simp add: drive_write_def attempt_def image_device_def BLOCK_SIZE_def ret_run)

lemma length_cluster_data:
  assumes "fits vol n" "data_cluster vol n c" "length im = n" "\<forall>b<n. length (im ! b) = 512"
  shows "length (cluster_data vol im c) = cluster_bytes vol"
proof -
  have "length (im ! (cluster_blk vol (unat c) + s)) = 512" if "s < unat (sectors_per_cluster vol)" for s
    using cluster_blk_less(1) [OF assms(1) _ _ that] assms by (simp add: data_cluster_def)
  then have "map (length \<circ> (\<lambda>s. im ! (cluster_blk vol (unat c) + s))) [0..<unat (sectors_per_cluster vol)]
      = map (\<lambda>_. 512) [0..<unat (sectors_per_cluster vol)]" by (intro map_cong) auto
  then show ?thesis
    using cluster_bytes_eq [OF fitsD(1) [OF assms(1)]]
    by (simp add: cluster_data_def length_concat map_replicate_const sum_list_replicate)
qed

text \<open>A block outside the table, or outside the data, does not show in that part of the contents.\<close>

lemma fat_copy_other:
  assumes "fits vol n" "i < unat (num_fats vol)" "unat c < cap vol" "unat (data_start_lba vol) \<le> k \<or> k < unat (fat_start_lba vol)"
  shows "fat_copy vol i (im[k := b]) c = fat_copy vol i im c"
proof -
  have "fat_sec vol i (unat c) \<noteq> k" using fat_sec_less [OF assms(1-3)] assms(4) by linarith
  then show ?thesis by (simp add: fat_copy_def nth_list_update)
qed

lemma cluster_data_other:
  assumes "fits vol n" "data_cluster vol n c" "k < unat (data_start_lba vol)"
  shows "cluster_data vol (im[k := b]) c = cluster_data vol im c"
proof -
  have "k \<noteq> cluster_blk vol (unat c) + s" for s using assms(3) by (simp add: cluster_blk_def)
  then show ?thesis by (simp add: cluster_data_def)
qed

section \<open>The table\<close>

lemma le32_at_run: "k + 3 < length b \<Longrightarrow> le32_at b k = Ok (word_at b k)"
  by (simp add: le32_at_def word_at_def)

lemma slot_bound: "4 * (c mod 128) + 3 < (512 :: nat)"
  using mod_less_divisor [of 128 c] by linarith

lemma next_cluster_entry:
  assumes "fits vol n" "length im = n" "\<forall>b<n. length (im ! b) = 512" "unat c < cap vol"
  shows "next_cluster image_device vol c im = Some (Ok (fat_copy vol 0 im c), im)"
proof -
  note O = unat_fat_offset [OF assms(1,4)]
  have sec: "unat (fat_start_lba vol + (c * 4) div bytes_per_sector vol) = fat_sec vol 0 (unat c)"
    using unat_fat_sector [OF assms(1) fitsD(3) [OF assms(1)] assms(4)] by simp
  have lt: "fat_sec vol 0 (unat c) < n"
    using fat_sec_less(1) [OF assms(1) fitsD(3) [OF assms(1)] assms(4)] fitsD(9) [OF assms(1)] by linarith
  have len: "length im = n" "length (im ! fat_sec vol 0 (unat c)) = 512" using assms(2,3) lt by simp_all
  have rd: "drive_read image_device (ucast (fat_start_lba vol + (c * 4) div bytes_per_sector vol)) zero_block im
      = Some (Ok (im ! fat_sec vol 0 (unat c)), im)"
    using drive_read_run [of "ucast (fat_start_lba vol + (c * 4) div bytes_per_sector vol)" im zero_block] sec lt len by simp
  show ?thesis
    unfolding next_cluster_def fat_position_fits [OF assms(1,4)] bindM_ret prod.case O(2)
    by (subst bindM_Ok, rule rd)
      (simp add: le32_at_run len slot_bound liftO_run bindM_Ok ret_run fat_copy_def)
qed

lemma next_cluster_run:
  "fits vol n \<Longrightarrow> holds vol n f d im \<Longrightarrow> unat c < cap vol \<Longrightarrow> next_cluster image_device vol c im = Some (Ok (f c), im)"
  using next_cluster_entry [of vol n im c] fitsD(3) [of vol n] by (simp add: holds_def)

text \<open>One entry of one copy is replaced; its top four bits are kept.\<close>

definition set_entry :: "FatFs \<Rightarrow> u32 \<Rightarrow> u32 \<Rightarrow> nat \<Rightarrow> image \<Rightarrow> image" where
  "set_entry vol c v i im =
     (let k = fat_sec vol i (unat c); b = im ! k; j = 4 * (unat c mod 128)
      in im[k := splice j (u32_to_le_bytes ((v AND CLUSTER_MASK) OR (word_at b j AND NOT CLUSTER_MASK))) b])"

lemma word_at_splice_same: "k + 4 \<le> length b \<Longrightarrow> word_at (splice k (u32_to_le_bytes w) b) k = w"
  by (simp add: word_at_def splice_nth u32_to_le_bytes_def)

lemma word_at_splice_other:
  "k + 4 \<le> length b \<Longrightarrow> j + 4 \<le> length b \<Longrightarrow> j + 4 \<le> k \<or> k + 4 \<le> j \<Longrightarrow> word_at (splice k (u32_to_le_bytes w) b) j = word_at b j"
  by (auto simp: word_at_def splice_nth)

lemma mask_merge: "((v AND CLUSTER_MASK) OR (w AND NOT CLUSTER_MASK)) AND CLUSTER_MASK = v AND (CLUSTER_MASK :: u32)"
  by (rule bit_word_eqI) (auto simp: bit_simps)

lemma set_entry_fat:
  assumes "fits vol n" "length im = n" "\<forall>b<n. length (im ! b) = 512" "i < unat (num_fats vol)" "j < unat (num_fats vol)"
    and "unat c < cap vol" "unat c' < cap vol"
  shows "fat_copy vol j (set_entry vol c v i im) c' = (if j = i \<and> c' = c then v AND CLUSTER_MASK else fat_copy vol j im c')"
proof -
  let ?k = "fat_sec vol i (unat c)" and ?s = "4 * (unat c mod 128)"
  have k: "?k < length im"
    using fat_sec_less(1) [OF assms(1,4,6)] fitsD(9) [OF assms(1)] assms(2) by linarith
  then have len: "length (im ! ?k) = 512" using assms(2,3) by simp
  show ?thesis
  proof (cases "fat_sec vol j (unat c') = ?k")
    case True
    then have ij: "j = i" "unat c' div 128 = unat c div 128" using fat_sec_eq [OF assms(7,6) True] by auto
    show ?thesis
    proof (cases "c' = c")
      case True
      with ij k len slot_bound [of "unat c"] show ?thesis
        by (simp add: fat_copy_def set_entry_def Let_def word_at_splice_same mask_merge)
    next
      case False
      then have "unat c' \<noteq> unat c" by (metis word_unat_eq_iff)
      with ij(2) have "unat c' mod 128 \<noteq> unat c mod 128" by (metis div_mult_mod_eq)
      then have "4 * (unat c' mod 128) + 4 \<le> ?s \<or> ?s + 4 \<le> 4 * (unat c' mod 128)" by linarith
      with False True k len slot_bound [of "unat c"] slot_bound [of "unat c'"] show ?thesis
        by (simp add: fat_copy_def set_entry_def Let_def word_at_splice_other)
    qed
  next
    case False
    then show ?thesis by (auto simp: fat_copy_def set_entry_def Let_def)
  qed
qed

lemma set_entry_frame:
  assumes "fits vol n" "length im = n" "\<forall>b<n. length (im ! b) = 512" "i < unat (num_fats vol)" "unat c < cap vol"
  shows "length (set_entry vol c v i im) = n" "\<forall>b<n. length (set_entry vol c v i im ! b) = 512"
    "set_entry vol c v i im ! 0 = im ! 0"
    "data_cluster vol n x \<Longrightarrow> cluster_data vol (set_entry vol c v i im) x = cluster_data vol im x"
proof -
  have "fat_sec vol i (unat c) < n"
    using fat_sec_less(1) [OF assms(1,4,5)] fitsD(9) [OF assms(1)] by linarith
  then show "length (set_entry vol c v i im) = n" "\<forall>b<n. length (set_entry vol c v i im ! b) = 512"
    using assms(2,3) slot_bound [of "unat c"] by (auto simp: set_entry_def Let_def nth_list_update)
  show "set_entry vol c v i im ! 0 = im ! 0"
    using fat_sec_less(2) [OF assms(1,4,5)] fitsD(2) [OF assms(1)] by (simp add: set_entry_def Let_def)
  show "data_cluster vol n x \<Longrightarrow> cluster_data vol (set_entry vol c v i im) x = cluster_data vol im x"
    using cluster_data_other [OF assms(1) _ fat_sec_less(1) [OF assms(1,4,5)]] by (simp add: set_entry_def Let_def)
qed

lemma write_fat_entry_step:
  assumes "fits vol n" "length im = n" "\<forall>b<n. length (im ! b) = 512" "i < unat (num_fats vol)" "unat c < cap vol"
  shows "(let fat_sector = fat_start_lba vol + word_of_nat i * sectors_per_fat vol + (c * 4) div bytes_per_sector vol
     in bindM (drive_read image_device (ucast fat_sector) zero_block) (\<lambda>buf.
        bindM (liftO (le32_at buf (unat ((c * 4) mod bytes_per_sector vol)))) (\<lambda>old.
          let masked = (v AND CLUSTER_MASK) OR (old AND NOT CLUSTER_MASK)
          in drive_write image_device (ucast fat_sector)
               (splice (unat ((c * 4) mod bytes_per_sector vol)) (u32_to_le_bytes masked) buf)))) im
    = Some (Ok (), set_entry vol c v i im)"
proof -
  let ?w = "ucast (fat_start_lba vol + word_of_nat i * sectors_per_fat vol + (c * 4) div bytes_per_sector vol) :: u64"
  let ?k = "fat_sec vol i (unat c)"
  have u: "unat ?w = ?k" using unat_fat_sector [OF assms(1,4,5)] by simp
  have k: "?k < length im"
    using fat_sec_less(1) [OF assms(1,4,5)] fitsD(9) [OF assms(1)] assms(2) by linarith
  then have len: "length (im ! ?k) = 512" using assms(2,3) by simp
  have rd: "drive_read image_device ?w zero_block im = Some (Ok (im ! ?k), im)" using drive_read_run [of ?w im zero_block] u k by simp
  have wr: "drive_write image_device ?w b im = Some (Ok (), im[?k := b])" if "length b = 512" for b
    using drive_write_run [of ?w im b] u k that by simp
  show ?thesis
    unfolding Let_def unat_fat_offset(2) [OF assms(1,5)]
    by (subst bindM_Ok, rule rd)
      (simp add: le32_at_run len slot_bound liftO_run bindM_Ok wr set_entry_def Let_def less_imp_le_nat [OF slot_bound, simplified])
qed

lemma set_entries_fat:
  assumes "fits vol n" "length im = n" "\<forall>b<n. length (im ! b) = 512" "unat c < cap vol" "k \<le> unat (num_fats vol)"
  shows "length (fold (set_entry vol c v) [0..<k] im) = n
    \<and> (\<forall>b<n. length (fold (set_entry vol c v) [0..<k] im ! b) = 512) \<and> fold (set_entry vol c v) [0..<k] im ! 0 = im ! 0
    \<and> (\<forall>x. data_cluster vol n x \<longrightarrow> cluster_data vol (fold (set_entry vol c v) [0..<k] im) x = cluster_data vol im x)
    \<and> (\<forall>j x. j < unat (num_fats vol) \<and> unat x < cap vol \<longrightarrow> fat_copy vol j (fold (set_entry vol c v) [0..<k] im) x
         = (if j < k \<and> x = c then v AND CLUSTER_MASK else fat_copy vol j im x))"
  using assms(5)
proof (induction k)
  case (Suc k)
  let ?im = "fold (set_entry vol c v) [0..<k] im"
  from Suc have IH: "length ?im = n" "\<forall>b<n. length (?im ! b) = 512" "?im ! 0 = im ! 0"
    "\<And>x. data_cluster vol n x \<Longrightarrow> cluster_data vol ?im x = cluster_data vol im x"
    "\<And>j x. j < unat (num_fats vol) \<Longrightarrow> unat x < cap vol \<Longrightarrow>
       fat_copy vol j ?im x = (if j < k \<and> x = c then v AND CLUSTER_MASK else fat_copy vol j im x)"
    and k: "k < unat (num_fats vol)" by simp_all
  note frame = set_entry_frame [OF assms(1) IH(1,2) k assms(4), where v = v]
  have "fat_copy vol j (set_entry vol c v k ?im) x = (if j < Suc k \<and> x = c then v AND CLUSTER_MASK else fat_copy vol j im x)"
    if "j < unat (num_fats vol)" "unat x < cap vol" for j x
    using set_entry_fat [OF assms(1) IH(1,2) k that(1) assms(4) that(2)] IH(5) [OF that] by auto
  then show ?case using frame IH(3,4) by simp
qed (use assms in simp)

lemma write_fat_entries:
  assumes "fits vol n" "length im = n" "\<forall>b<n. length (im ! b) = 512" "unat c < cap vol"
  shows "write_fat_entry image_device vol c v im = Some (Ok (), fold (set_entry vol c v) [0..<unat (num_fats vol)] im)"
proof -
  have "foldM (\<lambda>i _. let fat_sector = fat_start_lba vol + word_of_nat i * sectors_per_fat vol + (c * 4) div bytes_per_sector vol
       in bindM (drive_read image_device (ucast fat_sector) zero_block) (\<lambda>buf.
          bindM (liftO (le32_at buf (unat ((c * 4) mod bytes_per_sector vol)))) (\<lambda>old.
            let masked = (v AND CLUSTER_MASK) OR (old AND NOT CLUSTER_MASK)
            in drive_write image_device (ucast fat_sector)
                 (splice (unat ((c * 4) mod bytes_per_sector vol)) (u32_to_le_bytes masked) buf)))) [0..<k] () im
      = Some (Ok (), fold (set_entry vol c v) [0..<k] im)" if "k \<le> unat (num_fats vol)" for k
    using that
  proof (induction k)
    case (Suc k)
    have IH: "length (fold (set_entry vol c v) [0..<k] im) = n" "\<forall>b<n. length (fold (set_entry vol c v) [0..<k] im ! b) = 512"
      using set_entries_fat [OF assms] Suc.prems by simp_all
    show ?case using foldM_snoc [OF Suc.IH] write_fat_entry_step [OF assms(1) IH _ assms(4), of k v] Suc.prems by simp
  qed (simp add: ret_run)
  note run = this [OF order_refl]
  have bps: "bytes_per_sector vol \<noteq> 0" using fitsD(1) [OF assms(1)] by (simp add: vol_ok_def)
  show ?thesis
    unfolding write_fat_entry_def fat_entry_checks(1) [OF assms(1) fitsD(3) [OF assms(1)] assms(4)] rem_chk_def div_chk_def
      if_not_P [OF bps] liftO_Ok bindM_ret run [symmetric]
    by (rule fun_cong [OF foldM_cong]) (simp add: fat_entry_checks [OF assms(1) _ assms(4)] Let_def)
qed

section \<open>Runs on the abstract contents\<close>

text \<open>
  On every image of the contents \<open>(f, d)\<close> the computation ends with the outcome \<open>r\<close> and leaves an image of
  the contents \<open>(f', d')\<close>; \<open>does\<close> is the case of a result.
\<close>

definition yields :: "FatFs \<Rightarrow> nat \<Rightarrow> (u32 \<Rightarrow> u32) \<Rightarrow> (u32 \<Rightarrow> u8 list) \<Rightarrow> (image, 'e, 'a) io \<Rightarrow> ('e, 'a) outcome
    \<Rightarrow> (u32 \<Rightarrow> u32) \<Rightarrow> (u32 \<Rightarrow> u8 list) \<Rightarrow> bool" where
  "yields vol n f d m r f' d' \<longleftrightarrow>
     (\<forall>im. holds vol n f d im \<longrightarrow> (\<exists>im'. m im = Some (r, im') \<and> holds vol n f' d' im'))"

abbreviation does :: "FatFs \<Rightarrow> nat \<Rightarrow> (u32 \<Rightarrow> u32) \<Rightarrow> (u32 \<Rightarrow> u8 list) \<Rightarrow> (image, 'e, 'a) io \<Rightarrow> 'a
    \<Rightarrow> (u32 \<Rightarrow> u32) \<Rightarrow> (u32 \<Rightarrow> u8 list) \<Rightarrow> bool" where
  "does vol n f d m x f' d' \<equiv> yields vol n f d m (Ok x) f' d'"

lemma yieldsI: "(\<And>im. holds vol n f d im \<Longrightarrow> \<exists>im'. m im = Some (r, im') \<and> holds vol n f' d' im') \<Longrightarrow> yields vol n f d m r f' d'"
  by (simp add: yields_def)

lemma yieldsD: "yields vol n f d m r f' d' \<Longrightarrow> holds vol n f d im \<Longrightarrow> \<exists>im'. m im = Some (r, im') \<and> holds vol n f' d' im'"
  by (simp add: yields_def)

lemma does_ret: "does vol n f d (ret x) x f d"
  by (simp add: yields_def ret_run)

lemma yields_fail: "yields vol n f d (fail e) (Err e) f d"
  by (simp add: yields_def fail_run)

lemma does_bindM:
  assumes "does vol n f d m x f' d'" "yields vol n f' d' (k x) r f'' d''"
  shows "yields vol n f d (bindM m k) r f'' d''"
proof (rule yieldsI)
  fix im assume "holds vol n f d im"
  with yieldsD [OF assms(1)] obtain im' where m: "m im = Some (Ok x, im')" and h: "holds vol n f' d' im'" by blast
  from yieldsD [OF assms(2) h] show "\<exists>im'. bindM m k im = Some (r, im') \<and> holds vol n f'' d'' im'"
    by (simp add: bindM_Ok [of m, OF m])
qed

lemma yields_bindM_Err:
  assumes "yields vol n f d m (Err e) f' d'"
  shows "yields vol n f d (bindM m k) (Err e) f' d'"
proof (rule yieldsI)
  fix im assume "holds vol n f d im"
  with yieldsD [OF assms] obtain im' where m: "m im = Some (Err e, im')" and h: "holds vol n f' d' im'" by blast
  then show "\<exists>im'. bindM m k im = Some (Err e, im') \<and> holds vol n f' d' im'" by (simp add: bindM_Err [of m, OF m])
qed

lemma does_attempt:
  assumes "does vol n f d m x f' d'" "yields vol n f' d' (k (Inr x)) r f'' d''"
  shows "yields vol n f d (attempt m k) r f'' d''"
proof (rule yieldsI)
  fix im assume "holds vol n f d im"
  with yieldsD [OF assms(1)] obtain im' where m: "m im = Some (Ok x, im')" and h: "holds vol n f' d' im'" by blast
  from yieldsD [OF assms(2) h] show "\<exists>im'. attempt m k im = Some (r, im') \<and> holds vol n f'' d'' im'"
    by (simp add: attempt_Ok [of m, OF m])
qed

lemma yields_attempt_Err:
  assumes "yields vol n f d m (Err e) f' d'" "yields vol n f' d' (k (Inl e)) r f'' d''"
  shows "yields vol n f d (attempt m k) r f'' d''"
proof (rule yieldsI)
  fix im assume "holds vol n f d im"
  with yieldsD [OF assms(1)] obtain im' where m: "m im = Some (Err e, im')" and h: "holds vol n f' d' im'" by blast
  from yieldsD [OF assms(2) h] show "\<exists>im'. attempt m k im = Some (r, im') \<and> holds vol n f'' d'' im'"
    by (simp add: attempt_Err [of m, OF m])
qed

lemma does_loop_continue:
  "does vol n f d (body a) (Inl a') f' d' \<Longrightarrow> yields vol n f' d' (loopM body a') r f'' d'' \<Longrightarrow> yields vol n f d (loopM body a) r f'' d''"
  by (subst loopM_unfold, erule does_bindM) simp

lemma does_loop_break: "does vol n f d (body a) (Inr y) f' d' \<Longrightarrow> does vol n f d (loopM body a) y f' d'"
  by (subst loopM_unfold, erule does_bindM) (simp add: does_ret)

lemma yields_loop_Err: "yields vol n f d (body a) (Err e) f' d' \<Longrightarrow> yields vol n f d (loopM body a) (Err e) f' d'"
  by (subst loopM_unfold) (rule yields_bindM_Err)

lemma does_fold_snoc:
  "does vol n f d (foldM g xs a) b f' d' \<Longrightarrow> yields vol n f' d' (g x b) r f'' d'' \<Longrightarrow> yields vol n f d (foldM g (xs @ [x]) a) r f'' d''"
  unfolding foldM_append by (erule does_bindM) (simp add: bindM_ret_right)

lemma yields_fold_Err:
  "yields vol n f d (foldM g xs a) (Err e) f' d' \<Longrightarrow> yields vol n f d (foldM g (xs @ ys) a) (Err e) f' d'"
  unfolding foldM_append by (rule yields_bindM_Err)

lemma yields_liftO: "yields vol n f d (liftO r) r f d"
  by (simp add: yields_def liftO_run)

lemma does_liftO: "r = Ok x \<Longrightarrow> does vol n f d (liftO r) x f d"
  using yields_liftO [of vol n f d r] by simp

text \<open>Data clusters have their full length, and links have 28 bits.\<close>

definition well_sized :: "FatFs \<Rightarrow> nat \<Rightarrow> (u32 \<Rightarrow> u8 list) \<Rightarrow> bool" where
  "well_sized vol n d \<longleftrightarrow> (\<forall>c. data_cluster vol n c \<longrightarrow> length (d c) = cluster_bytes vol)"

lemma holds_well_sized:
  assumes "fits vol n" "holds vol n f d im"
  shows "well_sized vol n d"
  unfolding well_sized_def
proof (intro allI impI)
  fix c assume "data_cluster vol n c"
  with assms(2) length_cluster_data [OF assms(1) this, of im] show "length (d c) = cluster_bytes vol" by (simp add: holds_def)
qed

lemma does_well_sized: "fits vol n \<Longrightarrow> (well_sized vol n d \<Longrightarrow> yields vol n f d m r f' d') \<Longrightarrow> yields vol n f d m r f' d'"
  by (auto simp: yields_def dest: holds_well_sized)

text \<open>Mounting a volume that fits its disk finds exactly this volume.\<close>

lemma does_mount:
  assumes "fits vol n"
  shows "does vol n f d (mount image_device) vol f d"
proof (rule yieldsI)
  fix im assume h: "holds vol n f d im"
  have n: "unat (0 :: u64) < length im" using h fitsD(2,4,9) [OF assms] by (simp add: holds_def)
  have rd: "drive_read image_device 0 zero_block im = Some (Ok (im ! 0), im)" using drive_read_run [OF n, of zero_block] by simp
  have b: "boot_block vol (im ! 0)" using h by (simp add: holds_def)
  have v: "bytes_per_sector vol = 512" "sectors_per_cluster vol \<noteq> 0" "num_fats vol \<noteq> 0"
    using fitsD(1,3) [OF assms] by (auto simp: vol_ok_def)
  have "unat (reserved_sectors vol) + unat (num_fats vol) * unat (sectors_per_fat vol) < 2 ^ 32"
    using b fitsD(4,8,9) [OF assms] by (simp add: boot_block_def)
  then have chk: "mul_chk (num_fats vol) (sectors_per_fat vol) = (Ok (num_fats vol * sectors_per_fat vol) :: (FsError, u32) outcome)"
    "add_chk (reserved_sectors vol) (num_fats vol * sectors_per_fat vol) = (Ok (reserved_sectors vol + num_fats vol * sectors_per_fat vol) :: (FsError, u32) outcome)"
    by (simp_all add: chk_defs unat_word_ariths)
  have "mount image_device im = Some (Ok vol, im)"
    unfolding mount_def
    by (subst bindM_Ok, rule rd) (use b v chk in \<open>simp add: Let_def BLOCK_SIZE_def ret_run boot_block_def\<close>)
  with h show "\<exists>im'. mount image_device im = Some (Ok vol, im') \<and> holds vol n f d im'" by blast
qed

lemma does_next_cluster:
  assumes "fits vol n" "unat c < cap vol"
  shows "does vol n f d (next_cluster image_device vol c) (f c) f d"
  using next_cluster_run [OF assms(1) _ assms(2)] by (auto simp: yields_def)

lemma data_cluster_unat: "data_cluster vol n c \<Longrightarrow> unat c < cap vol"
  by (auto simp: data_cluster_def dest: lim_cap(2))

lemma does_write_fat_entry:
  assumes "fits vol n" "data_cluster vol n c"
  shows "does vol n f d (write_fat_entry image_device vol c v) () (f(c := v AND CLUSTER_MASK)) d"
proof (rule yieldsI)
  fix im assume h: "holds vol n f d im"
  then have im: "length im = n" "\<forall>b<n. length (im ! b) = 512" by (simp_all add: holds_def)
  have "holds vol n (f(c := v AND CLUSTER_MASK)) d (fold (set_entry vol c v) [0..<unat (num_fats vol)] im)"
    using set_entries_fat [OF assms(1) im data_cluster_unat [OF assms(2)] order_refl, of v] h assms(2) by (auto simp: holds_def data_cluster_def)
  then show "\<exists>im'. write_fat_entry image_device vol c v im = Some (Ok (), im') \<and> holds vol n (f(c := v AND CLUSTER_MASK)) d im'"
    using write_fat_entries [OF assms(1) im data_cluster_unat [OF assms(2)]] by blast
qed

section \<open>The sectors of a cluster\<close>

lemma concat_blocks_decomp:
  assumes "s < m" "\<forall>i<m. length (g i) = k"
  shows "concat (map g [0..<m]) = concat (map g [0..<s]) @ g s @ concat (map g [Suc s..<m])"
    "length (concat (map g [0..<s])) = s * k"
proof -
  have "[0..<m] = [0..<s] @ s # [Suc s..<m]"
    using assms(1) by (metis less_imp_add_positive upt_add_eq_append upt_conv_Cons zero_le)
  then show "concat (map g [0..<m]) = concat (map g [0..<s]) @ g s @ concat (map g [Suc s..<m])" by simp
  have "map (\<lambda>i. length (g i)) [0..<s] = map (\<lambda>_. k) [0..<s]" using assms by (intro map_cong) auto
  then show "length (concat (map g [0..<s])) = s * k"
    by (simp add: length_concat comp_def map_replicate_const sum_list_replicate)
qed

lemma concat_block: "s < m \<Longrightarrow> \<forall>i<m. length (g i) = k \<Longrightarrow> take k (drop (s * k) (concat (map g [0..<m]))) = g s"
  using concat_blocks_decomp [of s m g k] by simp

lemma concat_blocks_upd:
  assumes "s < m" "\<forall>i<m. length (g i) = k" "length b = k"
  shows "concat (map (g(s := b)) [0..<m]) = splice (s * k) b (concat (map g [0..<m]))"
proof -
  have "map (g(s := b)) [0..<s] = map g [0..<s]" "map (g(s := b)) [Suc s..<m] = map g [Suc s..<m]" by auto
  moreover have "\<forall>i<m. length ((g(s := b)) i) = k" using assms(2,3) by simp
  ultimately show ?thesis
    using concat_blocks_decomp [OF assms(1,2)] concat_blocks_decomp(1) [OF assms(1), of "g(s := b)" k] assms
    by (simp add: splice_def)
qed

lemma does_read_sector:
  assumes "fits vol n" "data_cluster vol n c" "s < unat (sectors_per_cluster vol)" "length buf = 512"
  shows "does vol n f d (drive_read image_device (ucast (lba_of vol c) + word_of_nat s) buf)
    (take 512 (drop (s * 512) (d c))) f d"
proof (rule yieldsI)
  fix im assume h: "holds vol n f d im"
  have c: "2 \<le> unat c" "unat c < lim vol n" using assms(2) by (simp_all add: data_cluster_def)
  have "\<forall>i<unat (sectors_per_cluster vol). length (im ! (cluster_blk vol (unat c) + i)) = 512"
    using h cluster_blk_less(1) [OF assms(1) c] by (simp add: holds_def)
  then have "take 512 (drop (s * 512) (d c)) = im ! (cluster_blk vol (unat c) + s)"
    using h assms(2) concat_block [OF assms(3), of "\<lambda>i. im ! (cluster_blk vol (unat c) + i)" 512]
    by (auto simp: holds_def cluster_data_def)
  then show "\<exists>im'. drive_read image_device (ucast (lba_of vol c) + word_of_nat s) buf im
      = Some (Ok (take 512 (drop (s * 512) (d c))), im') \<and> holds vol n f d im'"
    using drive_read_run [of "ucast (lba_of vol c) + word_of_nat s" im buf] unat_cluster_sector [OF assms(1) c assms(3)]
      cluster_blk_less(1) [OF assms(1) c assms(3)] assms(4) h by (simp add: holds_def)
qed

lemma cluster_data_upd:
  assumes "fits vol n" "data_cluster vol n c" "data_cluster vol n x" "s < unat (sectors_per_cluster vol)" "length b = 512"
    and "length im = n" "\<forall>k<n. length (im ! k) = 512"
  shows "cluster_data vol (im[cluster_blk vol (unat c) + s := b]) x
    = (if x = c then splice (s * 512) b (cluster_data vol im c) else cluster_data vol im x)"
proof -
  let ?m = "unat (sectors_per_cluster vol)" and ?k = "cluster_blk vol (unat c) + s"
  let ?g = "\<lambda>i. im ! (cluster_blk vol (unat c) + i)"
  have c: "2 \<le> unat c" "unat c < lim vol n" "2 \<le> unat x" using assms(2,3) by (simp_all add: data_cluster_def)
  have k: "?k < length im" using cluster_blk_less(1) [OF assms(1) c(1,2) assms(4)] assms(6) by simp
  have len: "\<forall>i<?m. length (?g i) = 512" using cluster_blk_less(1) [OF assms(1) c(1,2)] assms(6,7) by simp
  have at: "im[?k := b] ! (cluster_blk vol (unat x) + i) = (if x = c \<and> i = s then b else im ! (cluster_blk vol (unat x) + i))"
    if "i < ?m" for i
    using cluster_blk_eq [OF c(3) c(1) that assms(4)] k by (auto simp: nth_list_update word_unat_eq_iff)
  show ?thesis
  proof (cases "x = c")
    case True
    have "map (\<lambda>i. im[?k := b] ! (cluster_blk vol (unat x) + i)) [0..<?m] = map (?g(s := b)) [0..<?m]"
      using at True by (intro map_cong) auto
    then show ?thesis using True concat_blocks_upd [OF assms(4) len assms(5)] unfolding cluster_data_def by argo
  next
    case False
    have "map (\<lambda>i. im[?k := b] ! (cluster_blk vol (unat x) + i)) [0..<?m] = map (\<lambda>i. im ! (cluster_blk vol (unat x) + i)) [0..<?m]"
      using at False by (intro map_cong) auto
    then show ?thesis using False unfolding cluster_data_def by argo
  qed
qed

lemma does_write_sector:
  assumes "fits vol n" "data_cluster vol n c" "s < unat (sectors_per_cluster vol)" "length b = 512"
  shows "does vol n f d (drive_write image_device (ucast (lba_of vol c) + word_of_nat s) b) () f
    (d(c := splice (s * 512) b (d c)))"
proof (rule yieldsI)
  fix im assume h: "holds vol n f d im"
  let ?k = "cluster_blk vol (unat c) + s"
  have c: "2 \<le> unat c" "unat c < lim vol n" using assms(2) by (simp_all add: data_cluster_def)
  have im: "length im = n" "\<forall>k<n. length (im ! k) = 512" using h by (simp_all add: holds_def)
  note k = cluster_blk_less [OF assms(1) c assms(3)]
  have "holds vol n f (d(c := splice (s * 512) b (d c))) (im[?k := b])"
    using h assms(2,4) fat_copy_other [OF assms(1) _ _ disjI1 [OF k(2)], of _ _ im b]
      cluster_data_upd [OF assms(1,2) _ assms(3,4) im] k fitsD(2,4) [OF assms(1)]
    by (auto simp: holds_def nth_list_update)
  moreover have "drive_write image_device (ucast (lba_of vol c) + word_of_nat s) b im = Some (Ok (), im[?k := b])"
    using drive_write_run [of "ucast (lba_of vol c) + word_of_nat s" im b] unat_cluster_sector [OF assms(1) c assms(3)]
      k(1) assms(4) im by simp
  ultimately show "\<exists>im'. drive_write image_device (ucast (lba_of vol c) + word_of_nat s) b im = Some (Ok (), im')
      \<and> holds vol n f (d(c := splice (s * 512) b (d c))) im'" by blast
qed

lemma lba_of_cluster:
  assumes "fits vol n" "data_cluster vol n c"
  shows "cluster_to_lba vol c = ret (lba_of vol c)"
  by (rule cluster_lba(2) [OF assms(1)]) (use assms(2) in \<open>simp_all add: data_cluster_def\<close>)

lemma sector_end: "vol_ok vol \<Longrightarrow> s < unat (sectors_per_cluster vol) \<Longrightarrow> s * 512 + 512 \<le> cluster_bytes vol"
  using mult_le_mono1 [of "Suc s" "unat (sectors_per_cluster vol)" 512] by (simp add: cluster_bytes_eq)

lemma does_read_cluster:
  assumes "fits vol n" "data_cluster vol n c"
  shows "does vol n f d (read_cluster image_device vol (lba_of vol c)) (d c) f d"
proof (rule does_well_sized [OF assms(1)])
  assume "well_sized vol n d"
  then have len: "length (d c) = cluster_bytes vol" using assms(2) by (simp add: well_sized_def)
  note cb = cluster_bytes_eq [OF fitsD(1) [OF assms(1)]]
  let ?step = "\<lambda>sec buf. let off = sec * BLOCK_SIZE
     in if off + BLOCK_SIZE \<le> length buf
        then bindM (drive_read image_device (ucast (lba_of vol c) + word_of_nat sec) (take BLOCK_SIZE (drop off buf)))
               (\<lambda>b. ret (splice off b buf)) else panic"
  have "does vol n f d (foldM ?step [0..<k] (replicate (cluster_bytes vol) 0))
      (take (k * 512) (d c) @ replicate (cluster_bytes vol - k * 512) 0) f d" if "k \<le> unat (sectors_per_cluster vol)" for k
    using that
  proof (induction k)
    case (Suc k)
    let ?buf = "take (k * 512) (d c) @ replicate (cluster_bytes vol - k * 512) 0"
    have le: "k * 512 + 512 \<le> cluster_bytes vol" using sector_end [OF fitsD(1) [OF assms(1)]] Suc.prems by simp
    then have "splice (k * 512) (take 512 (drop (k * 512) (d c))) ?buf = take (Suc k * 512) (d c) @ replicate (cluster_bytes vol - Suc k * 512) 0"
      using len by (simp add: splice_def min_def take_add [symmetric] add.commute)
    moreover have "does vol n f d (bindM (drive_read image_device (ucast (lba_of vol c) + word_of_nat k) (take 512 (drop (k * 512) ?buf)))
        (\<lambda>b. ret (splice (k * 512) b ?buf))) (splice (k * 512) (take 512 (drop (k * 512) (d c))) ?buf) f d"
      by (rule does_bindM [OF does_read_sector [OF assms]]) (use Suc.prems le len in \<open>simp_all add: does_ret\<close>)
    moreover have "k * 512 + 512 \<le> length ?buf" using le len by simp
    ultimately have "does vol n f d (?step k ?buf) (take (Suc k * 512) (d c) @ replicate (cluster_bytes vol - Suc k * 512) 0) f d"
      by (simp only: Let_def BLOCK_SIZE_def if_True)
    then show ?case using does_fold_snoc [OF Suc.IH [OF Suc_leD [OF Suc.prems]]] by (simp only: upt_Suc_append [OF le0])
  qed (simp add: does_ret)
  from this [OF order_refl] show "does vol n f d (read_cluster image_device vol (lba_of vol c)) (d c) f d"
    unfolding read_cluster_def using cb len by simp
qed

lemma does_write_cluster:
  assumes "fits vol n" "data_cluster vol n c" "length b = cluster_bytes vol"
  shows "does vol n f d (write_cluster image_device vol c b) () f (d(c := b))"
proof (rule does_well_sized [OF assms(1)])
  assume "well_sized vol n d"
  then have len: "length (d c) = cluster_bytes vol" using assms(2) by (simp add: well_sized_def)
  note cb = cluster_bytes_eq [OF fitsD(1) [OF assms(1)]]
  let ?step = "\<lambda>sec _. let off = sec * BLOCK_SIZE
     in if off + BLOCK_SIZE \<le> length b
        then drive_write image_device (ucast (lba_of vol c) + word_of_nat sec) (take BLOCK_SIZE (drop off b)) else panic"
  have "does vol n f d (foldM ?step [0..<k] ()) () f (d(c := take (k * 512) b @ drop (k * 512) (d c)))"
    if "k \<le> unat (sectors_per_cluster vol)" for k
    using that
  proof (induction k)
    case (Suc k)
    let ?d = "d(c := take (k * 512) b @ drop (k * 512) (d c))"
    have le: "k * 512 + 512 \<le> cluster_bytes vol" using sector_end [OF fitsD(1) [OF assms(1)]] Suc.prems by simp
    then have "splice (k * 512) (take 512 (drop (k * 512) b)) (?d c) = take (Suc k * 512) b @ drop (Suc k * 512) (d c)"
      using len assms(3) by (simp add: splice_def min_def take_add [symmetric] add.commute)
    then have "does vol n f ?d (?step k ()) () f (d(c := take (Suc k * 512) b @ drop (Suc k * 512) (d c)))"
      using does_write_sector [OF assms(1,2), of k "take 512 (drop (k * 512) b)" f ?d] Suc.prems le assms(3)
      by (simp add: Let_def BLOCK_SIZE_def)
    then show ?case using does_fold_snoc [OF Suc.IH [OF Suc_leD [OF Suc.prems]]] by (simp only: upt_Suc_append [OF le0])
  qed (simp add: does_ret)
  from this [OF order_refl] show "does vol n f d (write_cluster image_device vol c b) () f (d(c := b))"
    unfolding write_cluster_def Let_def using cb len assms(2,3) by (simp add: cluster_lba(2) [OF assms(1)] data_cluster_def)
qed

lemma does_zero_cluster:
  "fits vol n \<Longrightarrow> data_cluster vol n c \<Longrightarrow>
    does vol n f d (zero_cluster image_device vol c) () f (d(c := replicate (cluster_bytes vol) 0))"
  unfolding zero_cluster_def by (rule does_write_cluster) simp_all

section \<open>FsInfo and the search for a free cluster\<close>

lemma holds_block1: "fits vol n \<Longrightarrow> holds vol n f d im \<Longrightarrow> length b = 512 \<Longrightarrow> holds vol n f d (im[1 := b])"
  using fitsD(2,4,9) [of vol n] fat_copy_other [of vol n _ _ 1 im b] cluster_data_other [of vol n _ 1 im b]
  by (auto simp: holds_def nth_list_update)

text \<open>The FsInfo sector lies before the table: updating the hints changes no link and no data.\<close>

lemma does_update_fsinfo_ignored:
  assumes "fits vol n"
  shows "does vol n f d (update_fsinfo_ignored image_device vol delta c) () f d"
proof (rule yieldsI)
  fix im assume h: "holds vol n f d im"
  have n: "1 < n" using fitsD(2,4,9) [OF assms] by linarith
  then have len: "length (im ! 1) = 512" "unat (1 :: u64) < length im" using h by (simp_all add: holds_def)
  have rd: "drive_read image_device 1 zero_block im = Some (Ok (im ! 1), im)" using drive_read_run [OF len(2), of zero_block] by simp
  have wr: "drive_write image_device 1 b im = Some (Ok (), im[1 := b])" if "length b = 512" for b
    using drive_write_run [OF len(2) that] by simp
  have "\<exists>im'. update_fsinfo image_device vol delta c im = Some (Ok (), im') \<and> holds vol n f d im'"
    unfolding update_fsinfo_def
    apply (subst bindM_Ok, rule rd)
    using h holds_block1 [OF assms h] len
    by (auto simp: le32_at_run liftO_run bindM_Ok ret_run wr Let_def)
  then show "\<exists>im'. update_fsinfo_ignored image_device vol delta c im = Some (Ok (), im') \<and> holds vol n f d im'"
    by (auto simp: update_fsinfo_ignored_def attempt_Ok ret_run)
qed

definition first_free :: "FatFs \<Rightarrow> nat \<Rightarrow> (u32 \<Rightarrow> u32) \<Rightarrow> nat option" where
  "first_free vol n f = List.find (\<lambda>k. f (word_of_nat k) = 0) [2..<lim vol n]"

lemma unat_cluster: "fits vol n \<Longrightarrow> k < cap vol \<Longrightarrow> unat (word_of_nat k :: u32) = k"
  using fitsD(6) [of vol n] by (simp add: unat_of_nat)

text \<open>The search reads each sector of the table once; the one in the buffer is the current one.\<close>

lemma find_free_loop_run:
  assumes "fits vol n" and im: "length im = n" "\<forall>b<n. length (im ! b) = 512" "\<forall>c. unat c < cap vol \<longrightarrow> fat_copy vol 0 im c = f c"
  shows "list_all (\<lambda>k. k < cap vol) ks \<Longrightarrow> length buf = 512 \<Longrightarrow> cur = - 1 \<or> buf = im ! unat cur \<Longrightarrow>
    find_free_loop image_device vol ks cur buf im =
      Some (case List.find (\<lambda>k. f (word_of_nat k) = 0) ks of None \<Rightarrow> Err Io | Some k \<Rightarrow> Ok (word_of_nat k), im)"
proof (induction ks arbitrary: cur buf)
  case (Cons k ks)
  let ?c = "word_of_nat k :: u32"
  let ?w = "fat_start_lba vol + (?c * 4) div bytes_per_sector vol"
  have c: "unat ?c < cap vol" using Cons.prems(1) unat_cluster [OF assms(1)] by simp
  note O = unat_fat_offset [OF assms(1) c]
  have w: "unat ?w = fat_sec vol 0 (unat ?c)" using unat_fat_sector [OF assms(1) fitsD(3) [OF assms(1)] c] by simp
  have lt: "fat_sec vol 0 (unat ?c) < n"
    using fat_sec_less(1) [OF assms(1) fitsD(3) [OF assms(1)] c] fitsD(9) [OF assms(1)] by linarith
  have buf: "length im = n" "length (im ! unat ?w) = 512" using im lt w by simp_all
  have "unat ?w \<noteq> unat (- 1 :: u32)"
    using w lt fitsD(8,9) [OF assms(1)] fat_sec_less(1) [OF assms(1) fitsD(3) [OF assms(1)] c] by (simp add: unsigned_minus_1_eq_mask mask_eq_exp_minus_1)
  then have ne: "?w \<noteq> - 1" by metis
  have "drive_read image_device (ucast ?w) buf im = Some (Ok (im ! unat ?w), im)"
    using drive_read_run [of "ucast ?w" im buf] w lt buf Cons.prems(2) by simp
  then have rd: "(if ?w \<noteq> cur then drive_read image_device (ucast ?w) buf else ret buf) im = Some (Ok (im ! unat ?w), im)"
    using Cons.prems(3) ne by (auto simp: ret_run)
  have fc: "word_at (im ! unat ?w) (4 * (unat ?c mod 128)) AND CLUSTER_MASK = f ?c"
    using im(3) c w by (auto simp: fat_copy_def)
  have tail: "find_free_loop image_device vol ks ?w (im ! unat ?w) im =
      Some (case List.find (\<lambda>k. f (word_of_nat k) = 0) ks of None \<Rightarrow> Err Io | Some k \<Rightarrow> Ok (word_of_nat k), im)"
    using Cons.IH [of "im ! unat ?w" ?w] Cons.prems(1) buf by simp
  show ?case
    unfolding find_free_loop.simps fat_position_fits [OF assms(1) c] bindM_ret prod.case O(2)
    by (subst bindM_Ok, rule rd) (use tail buf in \<open>simp add: le32_at_run slot_bound liftO_run bindM_Ok ret_run fc\<close>)
qed (simp add: fail_run)

lemma find_free_cluster_entries:
  assumes "fits vol n" "length im = n" "\<forall>b<n. length (im ! b) = 512" "\<forall>c. unat c < cap vol \<longrightarrow> fat_copy vol 0 im c = f c"
  shows "find_free_cluster image_device vol im =
    Some (case List.find (\<lambda>k. f (word_of_nat k) = 0) [2..<cap vol] of None \<Rightarrow> Err Io | Some k \<Rightarrow> Ok (word_of_nat k), im)"
proof -
  have le: "unat (sectors_per_fat vol) * 512 < 2 ^ 32" using fitsD(6) [OF assms(1)] by (simp add: cap_def)
  then have "unat ((sectors_per_fat vol * bytes_per_sector vol) div 4) = cap vol"
    using fitsD(1) [OF assms(1)] by (simp add: vol_ok_def unat_div unat_word_ariths cap_def)
  then show ?thesis
    using find_free_loop_run [OF assms, of "[2..<cap vol]" zero_block "- 1"] le fitsD(1) [OF assms(1)]
    by (simp add: find_free_cluster_def list_all_iff mul_chk_def vol_ok_def)
qed

lemma find_append: "List.find P (xs @ ys) = (case List.find P xs of None \<Rightarrow> List.find P ys | Some x \<Rightarrow> Some x)"
  by (induction xs) simp_all

text \<open>The surplus entries of the table are not free, so the search ends on the disk.\<close>

lemma find_free_cluster_run:
  assumes "fits vol n" "holds vol n f d im"
  shows "find_free_cluster image_device vol im =
    Some (case first_free vol n f of None \<Rightarrow> Err Io | Some k \<Rightarrow> Ok (word_of_nat k), im)"
proof -
  have "[2..<cap vol] = [2..<lim vol n] @ [lim vol n..<cap vol]"
    using upt_add_eq_append [of 2 "lim vol n" "cap vol - lim vol n"] fitsD(5) [OF assms(1)] lim_cap(1) [of vol n] by simp
  moreover have "List.find (\<lambda>k. f (word_of_nat k) = 0) [lim vol n..<cap vol] = None"
    using assms(2) unat_cluster [OF assms(1)] by (auto simp: find_None_iff holds_def)
  ultimately have "List.find (\<lambda>k. f (word_of_nat k) = 0) [2..<cap vol] = first_free vol n f"
    by (simp add: first_free_def find_append split: option.split)
  then show ?thesis using find_free_cluster_entries [OF assms(1), of im f] assms(2) fitsD(3) [OF assms(1)] by (simp add: holds_def)
qed

lemma first_free_SomeD:
  assumes "fits vol n" "first_free vol n f = Some k"
  shows "data_cluster vol n (word_of_nat k)" "f (word_of_nat k) = 0"
proof -
  have "2 \<le> k" "k < lim vol n" "f (word_of_nat k) = 0" using assms(2) by (auto simp: first_free_def find_Some_iff)
  then show "data_cluster vol n (word_of_nat k)" "f (word_of_nat k) = 0"
    using unat_cluster [OF assms(1) lim_cap(2)] by (simp_all add: data_cluster_def)
qed

lemma first_free_exists:
  assumes "data_cluster vol n c" "f c = 0"
  shows "\<exists>k. first_free vol n f = Some k"
proof (rule ccontr)
  assume "\<not> (\<exists>k. first_free vol n f = Some k)"
  then have "f (word_of_nat (unat c)) \<noteq> 0" using assms(1) by (auto simp: first_free_def find_None_iff data_cluster_def)
  with assms(2) show False by simp
qed

text \<open>
  A new cluster is the lowest-numbered free one: \<open>find_free_cluster\<close> only reads, returns a data
  cluster whose link is zero while every lower data cluster is in use, and fails with \<open>Io\<close> exactly when no data
  cluster is free.
\<close>

theorem free_cluster_lowest:
  assumes "fits vol n" "holds vol n f d im"
  shows "find_free_cluster image_device vol im = Some (Err Io, im) \<and> (\<forall>c. data_cluster vol n c \<longrightarrow> f c \<noteq> 0)
    \<or> (\<exists>c. find_free_cluster image_device vol im = Some (Ok c, im) \<and> data_cluster vol n c \<and> f c = 0
         \<and> (\<forall>c'. data_cluster vol n c' \<and> c' < c \<longrightarrow> f c' \<noteq> 0))"
proof (cases "first_free vol n f")
  case None
  have "f c \<noteq> 0" if "data_cluster vol n c" for c using first_free_exists [OF that] None by fastforce
  then show ?thesis using find_free_cluster_run [OF assms] None by simp
next
  case (Some k)
  then obtain i where i: "i < length [2..<lim vol n]" "k = [2..<lim vol n] ! i" "\<forall>j<i. f (word_of_nat ([2..<lim vol n] ! j)) \<noteq> 0"
    by (auto simp: first_free_def find_Some_iff)
  have k: "k = 2 + i" "k < lim vol n" using i(1,2) by simp_all
  have "f c' \<noteq> 0" if "data_cluster vol n c'" "c' < word_of_nat k" for c'
  proof -
    have c: "2 \<le> unat c'" "unat c' < k" using that unat_cluster [OF assms(1) lim_cap(2) [OF k(2)]] by (simp_all add: data_cluster_def word_less_nat_alt)
    have "f (word_of_nat ([2..<lim vol n] ! (unat c' - 2))) \<noteq> 0" by (rule i(3) [rule_format]) (use c k in simp)
    moreover have "[2..<lim vol n] ! (unat c' - 2) = unat c'" using c k(2) by simp
    ultimately show ?thesis by simp
  qed
  then show ?thesis using find_free_cluster_run [OF assms] first_free_SomeD [OF assms(1) Some] Some by auto
qed

text \<open>
  The guard the search lacks: it runs over every entry the table has room for. When a surplus entry is zero and all clusters of the disk are in use,
  it returns a cluster that reaches past the last block.
\<close>

lemma free_cluster_past_end:
  assumes "fits vol n" "length im = n" "\<forall>b<n. length (im ! b) = 512" "\<forall>c. unat c < cap vol \<longrightarrow> fat_copy vol 0 im c = f c"
    and "\<forall>c. data_cluster vol n c \<longrightarrow> f c \<noteq> 0" "lim vol n \<le> unat c" "unat c < cap vol" "f c = 0"
  shows "\<exists>c'. find_free_cluster image_device vol im = Some (Ok c', im) \<and> n < cluster_blk vol (unat c') + unat (sectors_per_cluster vol)"
proof -
  let ?spc = "unat (sectors_per_cluster vol)" and ?P = "\<lambda>k. f (word_of_nat k) = 0" and ?k = "n - unat (data_start_lba vol)"
  have "?P (unat c)" "unat c \<in> set [2..<cap vol]" using assms(6-8) fitsD(5) [OF assms(1)] by auto
  then obtain k where k: "List.find ?P [2..<cap vol] = Some k" by (cases "List.find ?P [2..<cap vol]") (auto simp: find_None_iff)
  then have kP: "?P k" "2 \<le> k" "k < cap vol" by (auto simp: find_Some_iff)
  have u: "unat (word_of_nat k :: u32) = k" by (rule unat_cluster [OF assms(1) kP(3)])
  have "lim vol n \<le> k" using assms(5) kP u by (force simp: data_cluster_def)
  then have "?k div ?spc \<le> k - 2" using assms(6,7) unfolding lim_def by linarith
  then have "?k div ?spc * ?spc \<le> (k - 2) * ?spc" by (rule mult_le_mono1)
  moreover have "?k < ?k div ?spc * ?spc + ?spc" using fitsD(1) [OF assms(1)] by (simp add: vol_ok_def dividend_less_div_times unat_gt_0 add.commute)
  ultimately have "n < cluster_blk vol k + ?spc" using fitsD(9) [OF assms(1)] unfolding cluster_blk_def by linarith
  with find_free_cluster_entries [OF assms(1-4)] k u show ?thesis by auto
qed

lemma does_find_free_cluster:
  "fits vol n \<Longrightarrow> first_free vol n f = Some k \<Longrightarrow> does vol n f d (find_free_cluster image_device vol) (word_of_nat k) f d"
  "fits vol n \<Longrightarrow> first_free vol n f = None \<Longrightarrow> yields vol n f d (find_free_cluster image_device vol) (Err Io) f d"
  by (simp_all add: yields_def find_free_cluster_run)

section \<open>The blocks the driver touches\<close>

text \<open>The block-level effect of the four accesses, on any image of the right size, whatever it contains.\<close>

lemma set_entry_nth:
  "b < length im \<Longrightarrow> set_entry vol c v i im ! b = (if b = fat_sec vol i (unat c)
     then splice (4 * (unat c mod 128)) (u32_to_le_bytes ((v AND CLUSTER_MASK) OR (word_at (im ! b) (4 * (unat c mod 128)) AND NOT CLUSTER_MASK))) (im ! b)
     else im ! b)"
  by (simp add: set_entry_def Let_def nth_list_update)

lemma set_entries_nth:
  assumes "unat c < cap vol" "b < length im"
  shows "length (fold (set_entry vol c v) [0..<k] im) = length im \<and> fold (set_entry vol c v) [0..<k] im ! b = (if \<exists>i<k. b = fat_sec vol i (unat c)
     then splice (4 * (unat c mod 128)) (u32_to_le_bytes ((v AND CLUSTER_MASK) OR (word_at (im ! b) (4 * (unat c mod 128)) AND NOT CLUSTER_MASK))) (im ! b)
     else im ! b)"
proof (induction k)
  case (Suc k)
  have len: "length (set_entry vol c v i im') = length im'" for i im' by (simp add: set_entry_def Let_def)
  have "\<not> (\<exists>i<k. b = fat_sec vol i (unat c))" if "b = fat_sec vol k (unat c)"
    using fat_sec_eq [OF assms(1,1)] that by fastforce
  then show ?case using Suc assms(2) by (auto simp: set_entry_nth len less_Suc_eq)
qed simp

lemma read_cluster_blocks:
  assumes "fits vol n" "length im = n" "\<forall>b<n. length (im ! b) = 512" "data_cluster vol n c"
  shows "read_cluster image_device vol (lba_of vol c) im
    = Some (Ok (concat (map (\<lambda>s. im ! (cluster_blk vol (unat c) + s)) [0..<unat (sectors_per_cluster vol)])), im)"
proof -
  let ?g = "\<lambda>s. im ! (cluster_blk vol (unat c) + s)"
  have c: "2 \<le> unat c" "unat c < lim vol n" using assms(4) by (simp_all add: data_cluster_def)
  have blk: "cluster_blk vol (unat c) + s < length im" "length (?g s) = 512" if "s < unat (sectors_per_cluster vol)" for s
    using cluster_blk_less(1) [OF assms(1) c that] assms(2,3) by simp_all
  have len: "length (concat (map ?g [0..<k])) = k * 512" if "k \<le> unat (sectors_per_cluster vol)" for k
    using that by (induction k) (simp_all add: blk(2))
  let ?step = "\<lambda>sec buf. let off = sec * BLOCK_SIZE
     in if off + BLOCK_SIZE \<le> length buf
        then bindM (drive_read image_device (ucast (lba_of vol c) + word_of_nat sec) (take BLOCK_SIZE (drop off buf)))
               (\<lambda>b. ret (splice off b buf)) else panic"
  have "foldM ?step [0..<k] (replicate (cluster_bytes vol) 0) im = Some (Ok (concat (map ?g [0..<k]) @ replicate (cluster_bytes vol - k * 512) 0), im)"
    if "k \<le> unat (sectors_per_cluster vol)" for k
    using that
  proof (induction k)
    case (Suc k)
    let ?buf = "concat (map ?g [0..<k]) @ replicate (cluster_bytes vol - k * 512) 0"
    have k: "k < unat (sectors_per_cluster vol)" using Suc.prems by simp
    have le: "k * 512 + 512 \<le> cluster_bytes vol" by (rule sector_end [OF fitsD(1) [OF assms(1)] k])
    have lk: "length (concat (map ?g [0..<k])) = k * 512" using len [of k] k by simp
    have rd: "drive_read image_device (ucast (lba_of vol c) + word_of_nat k) (take 512 (drop (k * 512) ?buf)) im = Some (Ok (?g k), im)"
      using drive_read_run [of "ucast (lba_of vol c) + word_of_nat k" im "take 512 (drop (k * 512) ?buf)"] unat_cluster_sector [OF assms(1) c k]
        blk(1) [OF k] le lk by simp
    have sp: "splice (k * 512) (?g k) ?buf = concat (map ?g [0..<Suc k]) @ replicate (cluster_bytes vol - Suc k * 512) 0"
      using blk(2) [OF k] lk by (simp add: splice_def)
    have lb: "k * 512 + 512 \<le> length ?buf" using lk le by simp
    have "?step k ?buf im = Some (Ok (concat (map ?g [0..<Suc k]) @ replicate (cluster_bytes vol - Suc k * 512) 0), im)"
      unfolding Let_def BLOCK_SIZE_def if_P [OF lb] by (subst bindM_Ok, rule rd) (simp only: sp ret_run)
    then show ?case using foldM_snoc [OF Suc.IH] k by (simp only: upt_Suc_append [OF le0] Suc_leD [OF Suc.prems])
  qed (simp add: ret_run)
  from this [OF order_refl] show ?thesis by (simp add: read_cluster_def cluster_bytes_eq [OF fitsD(1) [OF assms(1)]])
qed

lemma write_cluster_blocks:
  assumes "fits vol n" "length im = n" "data_cluster vol n c" "length data = cluster_bytes vol"
  shows "\<exists>im'. write_cluster image_device vol c data im = Some (Ok (), im') \<and> length im' = n
    \<and> (\<forall>b<n. im' ! b = (if cluster_blk vol (unat c) \<le> b \<and> b < cluster_blk vol (unat c) + unat (sectors_per_cluster vol)
         then take 512 (drop ((b - cluster_blk vol (unat c)) * 512) data) else im ! b))"
proof -
  let ?k = "cluster_blk vol (unat c)"
  have c: "2 \<le> unat c" "unat c < lim vol n" using assms(3) by (simp_all add: data_cluster_def)
  let ?step = "\<lambda>sec _. let off = sec * BLOCK_SIZE
     in if off + BLOCK_SIZE \<le> length data
        then drive_write image_device (ucast (lba_of vol c) + word_of_nat sec) (take BLOCK_SIZE (drop off data)) else panic"
  have "\<exists>im'. foldM ?step [0..<k] () im = Some (Ok (), im') \<and> length im' = n
      \<and> (\<forall>b<n. im' ! b = (if ?k \<le> b \<and> b < ?k + k then take 512 (drop ((b - ?k) * 512) data) else im ! b))"
    if "k \<le> unat (sectors_per_cluster vol)" for k
    using that
  proof (induction k)
    case (Suc k)
    then obtain im' where IH: "foldM ?step [0..<k] () im = Some (Ok (), im')" "length im' = n"
      "\<forall>b<n. im' ! b = (if ?k \<le> b \<and> b < ?k + k then take 512 (drop ((b - ?k) * 512) data) else im ! b)" by auto
    have k: "k < unat (sectors_per_cluster vol)" using Suc.prems by simp
    have le: "k * 512 + 512 \<le> length data" using sector_end [OF fitsD(1) [OF assms(1)] k] assms(4) by simp
    have lt: "?k + k < n" by (rule cluster_blk_less(1) [OF assms(1) c k])
    have "drive_write image_device (ucast (lba_of vol c) + word_of_nat k) (take 512 (drop (k * 512) data)) im'
        = Some (Ok (), im'[?k + k := take 512 (drop (k * 512) data)])"
      using drive_write_run [of "ucast (lba_of vol c) + word_of_nat k" im' "take 512 (drop (k * 512) data)"] unat_cluster_sector [OF assms(1) c k]
        lt le IH(2) by simp
    then have "foldM ?step [0..<Suc k] () im = Some (Ok (), im'[?k + k := take 512 (drop (k * 512) data)])"
      using foldM_snoc [OF IH(1), of k] le by (simp add: BLOCK_SIZE_def)
    moreover have "im'[?k + k := take 512 (drop (k * 512) data)] ! b
        = (if ?k \<le> b \<and> b < ?k + Suc k then take 512 (drop ((b - ?k) * 512) data) else im ! b)" if "b < n" for b
      using that IH(2,3) by (cases "b = ?k + k") auto
    ultimately show ?case using IH(2) by auto
  qed (auto simp: ret_run assms(2))
  from this [OF order_refl] show ?thesis by (simp add: write_cluster_def cluster_lba(2) [OF assms(1) c])
qed

text \<open>
  C14: the driver touches exactly the blocks the FAT layout assigns. On any disk of \<open>n\<close> 512-byte blocks and any volume that fits it, for each cluster
  of the volume: reading it returns the blocks from \<open>data_start + (c - 2) * sectors_per_cluster\<close> on and writing it changes those blocks and no other; the link of the cluster
  is read from the entry in the first table copy; and writing its entry changes, in every copy and at the offset of this entry only, the low 28 bits. No
  32-bit or 64-bit address computation overflows. The blocks of the cluster lie on the disk behind the tables, those of the entry within the tables.
\<close>

theorem fat_addresses_exact:
  assumes "fits vol n" "length im = n" "\<forall>b<n. length (im ! b) = 512" "data_cluster vol n c" "length data = cluster_bytes vol"
    and "start = unat (data_start_lba vol) + (unat c - 2) * unat (sectors_per_cluster vol)" "off = 4 * (unat c mod 128)"
    and "sec = (\<lambda>i. unat (fat_start_lba vol) + i * unat (sectors_per_fat vol) + unat c div 128)"
  shows "bindM (cluster_to_lba vol c) (read_cluster image_device vol) im
      = Some (Ok (concat (map (\<lambda>s. im ! (start + s)) [0..<unat (sectors_per_cluster vol)])), im)
    \<and> (\<exists>im'. write_cluster image_device vol c data im = Some (Ok (), im') \<and> length im' = n
         \<and> (\<forall>b<n. im' ! b = (if start \<le> b \<and> b < start + unat (sectors_per_cluster vol) then take 512 (drop ((b - start) * 512) data) else im ! b)))
    \<and> next_cluster image_device vol c im = Some (Ok (word_at (im ! sec 0) off AND CLUSTER_MASK), im)
    \<and> (\<exists>im'. write_fat_entry image_device vol c v im = Some (Ok (), im') \<and> length im' = n
         \<and> (\<forall>b<n. im' ! b = (if \<exists>i<unat (num_fats vol). b = sec i
              then splice off (u32_to_le_bytes ((v AND CLUSTER_MASK) OR (word_at (im ! b) off AND NOT CLUSTER_MASK))) (im ! b) else im ! b)))
    \<and> unat (data_start_lba vol) \<le> start \<and> start + unat (sectors_per_cluster vol) \<le> n \<and> off + 4 \<le> 512
    \<and> (\<forall>i<unat (num_fats vol). unat (fat_start_lba vol) \<le> sec i \<and> sec i < unat (data_start_lba vol))"
proof -
  have c: "2 \<le> unat c" "unat c < lim vol n" "unat c < cap vol"
    using assms(4) lim_cap(2) by (auto simp: data_cluster_def)
  have start: "start = cluster_blk vol (unat c)" and sec: "sec = (\<lambda>i. fat_sec vol i (unat c))"
    using assms(6,8) by (simp_all add: cluster_blk_def fat_sec_def fun_eq_iff)
  have pos: "0 < unat (sectors_per_cluster vol)" using fitsD(1) [OF assms(1)] by (simp add: vol_ok_def)
  have bounds: "unat (data_start_lba vol) \<le> start" "start + unat (sectors_per_cluster vol) \<le> n"
    using cluster_blk_less(1) [OF assms(1) c(1,2), of "unat (sectors_per_cluster vol) - 1"] pos by (simp_all add: start cluster_blk_def)
  have rd: "bindM (cluster_to_lba vol c) (read_cluster image_device vol) im
      = Some (Ok (concat (map (\<lambda>s. im ! (start + s)) [0..<unat (sectors_per_cluster vol)])), im)"
    using read_cluster_blocks [OF assms(1-4)] by (simp add: cluster_lba(2) [OF assms(1) c(1,2)] start)
  have link: "next_cluster image_device vol c im = Some (Ok (word_at (im ! sec 0) off AND CLUSTER_MASK), im)"
    using next_cluster_entry [OF assms(1-3) c(3)] by (simp add: sec assms(7) fat_copy_def)
  have entry: "\<exists>im'. write_fat_entry image_device vol c v im = Some (Ok (), im') \<and> length im' = n
     \<and> (\<forall>b<n. im' ! b = (if \<exists>i<unat (num_fats vol). b = sec i
          then splice off (u32_to_le_bytes ((v AND CLUSTER_MASK) OR (word_at (im ! b) off AND NOT CLUSTER_MASK))) (im ! b) else im ! b))"
  proof (intro exI conjI allI impI)
    show "write_fat_entry image_device vol c v im = Some (Ok (), fold (set_entry vol c v) [0..<unat (num_fats vol)] im)"
      by (rule write_fat_entries [OF assms(1-3) c(3)])
    show "length (fold (set_entry vol c v) [0..<unat (num_fats vol)] im) = n"
      using set_entries_fat [OF assms(1-3) c(3) order_refl, of v] by blast
    fix b assume "b < n"
    then show "fold (set_entry vol c v) [0..<unat (num_fats vol)] im ! b = (if \<exists>i<unat (num_fats vol). b = sec i
          then splice off (u32_to_le_bytes ((v AND CLUSTER_MASK) OR (word_at (im ! b) off AND NOT CLUSTER_MASK))) (im ! b) else im ! b)"
      using set_entries_nth [OF c(3), of b im v "unat (num_fats vol)"] assms(2) unfolding sec assms(7) by blast
  qed
  show ?thesis
    by (intro conjI rd write_cluster_blocks [OF assms(1,2,4,5), folded start] link entry bounds allI impI)
      (use fat_sec_less [OF assms(1) _ c(3)] slot_bound [of "unat c"] in \<open>simp_all add: sec assms(7)\<close>)
qed

end
