(* ===== verification/FatChain.thy ===== *)
theory FatChain
  imports FatImage
begin

unbundle bit_operations_syntax

text \<open>
  Cluster chains on the abstract contents of \<open>FatImage\<close>. \<open>chain vol n f c cs\<close> says that following
  the links \<open>f\<close> from \<open>c\<close> visits the data clusters \<open>cs\<close> and then leaves the loop guard of the code. On such a
  chain \<open>read_chain\<close>, \<open>write_chain\<close> and \<open>free_chain\<close> return and do what their names say; \<open>allocate_chain\<close>
  returns a fresh chain of zeroed clusters when enough clusters are free.
\<close>

section \<open>Chains\<close>

fun chain :: "FatFs \<Rightarrow> nat \<Rightarrow> (u32 \<Rightarrow> u32) \<Rightarrow> u32 \<Rightarrow> u32 list \<Rightarrow> bool" where
  "chain vol n f c [] \<longleftrightarrow> \<not> in_chain c"
| "chain vol n f c (x # xs) \<longleftrightarrow> c = x \<and> data_cluster vol n x \<and> chain vol n f (f x) xs"

lemma data_cluster_in_chain: "fits vol n \<Longrightarrow> data_cluster vol n c \<Longrightarrow> in_chain c"
  using fitsD(6) [of vol n] data_cluster_unat [of vol n c] by (simp add: data_cluster_def in_chain_def EOC_THRESHOLD_def word_le_nat_alt word_less_nat_alt)

lemma chain_data: "chain vol n f c cs \<Longrightarrow> x \<in> set cs \<Longrightarrow> data_cluster vol n x"
  by (induction cs arbitrary: c) auto

lemma chain_cong: "(\<forall>x\<in>set cs. f x = g x) \<Longrightarrow> chain vol n f c cs = chain vol n g c cs"
  by (induction cs arbitrary: c) auto

lemma chain_suffix: "chain vol n f c (xs @ y # ys) \<Longrightarrow> chain vol n f y (y # ys)"
  by (induction xs arbitrary: c) auto

lemma chain_det: "fits vol n \<Longrightarrow> chain vol n f c xs \<Longrightarrow> chain vol n f c ys \<Longrightarrow> xs = ys"
proof (induction xs arbitrary: c ys)
  case Nil
  then show ?case by (cases ys) (auto dest: data_cluster_in_chain)
next
  case (Cons x xs)
  then show ?case by (cases ys) (auto dest: data_cluster_in_chain)
qed

text \<open>A terminated chain visits no cluster twice.\<close>

lemma chain_distinct: "fits vol n \<Longrightarrow> chain vol n f c cs \<Longrightarrow> distinct cs"
proof (induction cs arbitrary: c)
  case (Cons x xs)
  have "x \<notin> set xs"
  proof
    assume "x \<in> set xs"
    then obtain as bs where xs: "xs = as @ x # bs" by (meson split_list)
    then have "chain vol n f x (x # bs)" "chain vol n f x (x # xs)"
      using Cons.prems(2) chain_suffix [of vol n f "f x" as x bs] by auto
    then have "x # bs = x # xs" using chain_det [OF Cons.prems(1)] by blast
    with xs show False by simp
  qed
  with Cons show ?case by auto
qed simp

lemma chain_snoc:
  "chain vol n f a cs \<Longrightarrow> cs \<noteq> [] \<Longrightarrow> distinct cs \<Longrightarrow> c \<notin> set cs \<Longrightarrow> data_cluster vol n c \<Longrightarrow> \<not> in_chain e \<Longrightarrow>
    chain vol n (f(c := e, last cs := c)) a (cs @ [c])"
proof (induction cs arbitrary: a)
  case (Cons x xs)
  show ?case
  proof (cases xs)
    case Nil
    with Cons.prems show ?thesis by auto
  next
    case (Cons y ys)
    have "chain vol n (f(c := e, last xs := c)) (f x) (xs @ [c])"
      by (rule Cons.IH) (use Cons Cons.prems in auto)
    moreover have "x \<noteq> last xs" "x \<noteq> c" using Cons.prems Cons by auto
    moreover have "last (x # xs) = last xs" using Cons by simp
    ultimately show ?thesis using Cons.prems(1) by (simp del: fun_upd_apply last.simps add: fun_upd_other)
  qed
qed simp

section \<open>Reading\<close>

text \<open>What \<open>read_chain\<close> collects: whole clusters, until \<open>max_bytes\<close> are there.\<close>

fun gather :: "(u32 \<Rightarrow> u8 list) \<Rightarrow> nat \<Rightarrow> u8 list \<Rightarrow> u32 list \<Rightarrow> u8 list" where
  "gather d mx out [] = out"
| "gather d mx out (x # xs) = (if mx \<le> length (out @ d x) then out @ d x else gather d mx (out @ d x) xs)"

lemma gather_take: "take mx (gather d mx out cs) = take mx (out @ concat (map d cs))"
  by (induction cs arbitrary: out) auto

lemma gather_all: "length (out @ concat (map d cs)) < mx \<Longrightarrow> gather d mx out cs = out @ concat (map d cs)"
  by (induction cs arbitrary: out) auto

lemma does_read_chain:
  assumes "fits vol n" "chain vol n f c cs"
  shows "does vol n f d (read_chain image_device vol c mx) (gather d mx [] cs) f d"
proof -
  have "does vol n f d (loopM (read_chain_body image_device vol mx) (c, out)) (gather d mx out cs) f d" for out
    using assms(2)
  proof (induction cs arbitrary: c out)
    case Nil
    then show ?case by (intro does_loop_break) (simp add: read_chain_body_def does_ret)
  next
    case (Cons x xs)
    then have c: "c = x" "data_cluster vol n x" "in_chain x" "chain vol n f (f x) xs"
      using data_cluster_in_chain [OF assms(1)] by auto
    note rd = does_bindM [OF does_read_cluster [OF assms(1) c(2)]]
    show ?case
    proof (cases "mx \<le> length (out @ d x)")
      case True
      with c have "does vol n f d (read_chain_body image_device vol mx (c, out)) (Inr (out @ d x)) f d"
        by (auto simp: read_chain_body_def lba_of_cluster [OF assms(1) c(2)] intro!: rd does_ret)
      with True show ?thesis by (simp add: does_loop_break)
    next
      case False
      with c have "does vol n f d (read_chain_body image_device vol mx (c, out)) (Inl (f x, out @ d x)) f d"
        by (auto simp: read_chain_body_def lba_of_cluster [OF assms(1) c(2)] data_cluster_unat intro!: rd does_bindM [OF does_next_cluster [OF assms(1)]] does_ret)
      with False Cons.IH [OF c(4)] show ?thesis by (simp add: does_loop_continue)
    qed
  qed
  then show ?thesis by (simp add: read_chain_def)
qed

section \<open>Writing\<close>

text \<open>What \<open>write_chain\<close> leaves: the data in cluster-sized pieces, the last one padded with zeros.\<close>

fun store :: "nat \<Rightarrow> (u32 \<Rightarrow> u8 list) \<Rightarrow> u32 list \<Rightarrow> u8 list \<Rightarrow> u32 \<Rightarrow> u8 list" where
  "store k d [] bs = d"
| "store k d (x # xs) bs =
     (if bs = [] then d else store k (d(x := take k bs @ replicate (k - length bs) 0)) xs (drop k bs))"

lemma store_other: "x \<notin> set cs \<Longrightarrow> store k d cs bs x = d x"
  by (induction cs arbitrary: d bs) auto

lemma store_gives: "distinct cs \<Longrightarrow> length bs \<le> k * length cs \<Longrightarrow> take (length bs) (concat (map (store k d cs bs) cs)) = bs"
proof (induction cs arbitrary: d bs)
  case (Cons x xs)
  let ?d = "d(x := take k bs @ replicate (k - length bs) 0)"
  have x: "store k ?d xs (drop k bs) x = take k bs @ replicate (k - length bs) 0" using Cons.prems(1) by (simp add: store_other)
  have "take (length bs - k) (concat (map (store k ?d xs (drop k bs)) xs)) = drop k bs"
    by (rule Cons.IH [of "drop k bs", unfolded length_drop]) (use Cons.prems in auto)
  then show ?case using x by (cases "length bs \<le> k") simp_all
qed simp

lemma write_chain_body_step:
  assumes "off < length bs" "in_chain c"
  shows "write_chain_body dev vol bs (c, off) =
    bindM (write_cluster dev vol c (take (cluster_bytes vol) (drop off bs) @ replicate (cluster_bytes vol - length (drop off bs)) 0))
      (\<lambda>_. if length bs \<le> off + cluster_bytes vol then ret (Inr ())
           else bindM (next_cluster dev vol c) (\<lambda>next. ret (Inl (next, off + cluster_bytes vol))))"
proof -
  let ?k = "cluster_bytes vol"
  have "splice 0 (take (min (off + ?k) (length bs) - off) (drop off bs)) (replicate ?k 0)
      = take ?k (drop off bs) @ replicate (?k - length (drop off bs)) 0" by (auto simp: splice_def min_def)
  then show ?thesis using assms by (auto simp: write_chain_body_def Let_def min_def)
qed

lemma does_write_chain:
  assumes "fits vol n" "chain vol n f c cs"
  shows "does vol n f d (write_chain image_device vol c bs) () f (store (cluster_bytes vol) d cs bs)"
proof -
  let ?k = "cluster_bytes vol"
  have "does vol n f d (loopM (write_chain_body image_device vol bs) (c, off)) () f (store ?k d cs (drop off bs))" for off
    using assms(2)
  proof (induction cs arbitrary: c off d)
    case Nil
    then show ?case by (intro does_loop_break) (simp add: write_chain_body_def does_ret)
  next
    case (Cons x xs)
    then have c: "c = x" "data_cluster vol n x" "in_chain x" "chain vol n f (f x) xs"
      using data_cluster_in_chain [OF assms(1)] by auto
    let ?buf = "take ?k (drop off bs) @ replicate (?k - length (drop off bs)) 0"
    have len: "length ?buf = ?k" by simp
    note wr = does_bindM [OF does_write_cluster [OF assms(1) c(2) len]]
    consider "length bs \<le> off" | "off < length bs" "length bs \<le> off + ?k" | "off + ?k < length bs" by linarith
    then show ?case
    proof cases
      case 1
      then show ?thesis by (intro does_loop_break) (simp add: write_chain_body_def does_ret)
    next
      case 2
      with c have "does vol n f d (write_chain_body image_device vol bs (c, off)) (Inr ()) f (d(x := ?buf))"
        unfolding c(1) write_chain_body_step [OF 2(1) c(3)] by (intro wr) (simp add: does_ret)
      with 2 show ?thesis by (cases xs) (simp_all add: does_loop_break del: fun_upd_apply)
    next
      case 3
      then have off: "off < length bs" by simp
      from 3 c have "does vol n f d (write_chain_body image_device vol bs (c, off)) (Inl (f x, off + ?k)) f (d(x := ?buf))"
        unfolding c(1) write_chain_body_step [OF off c(3)]
        by (intro wr) (auto simp: data_cluster_unat intro!: does_bindM [OF does_next_cluster [OF assms(1)]] does_ret)
      from does_loop_continue [OF this Cons.IH [OF c(4)]] 3 show ?thesis by (simp add: add.commute del: fun_upd_apply)
    qed
  qed
  from this [of 0] show ?thesis by (simp add: write_chain_def)
qed

section \<open>Allocation\<close>

definition free_set :: "FatFs \<Rightarrow> nat \<Rightarrow> (u32 \<Rightarrow> u32) \<Rightarrow> u32 set" where
  "free_set vol n f = {c. data_cluster vol n c \<and> f c = 0}"

lemma finite_free_set [simp]: "finite (free_set vol n f)"
  by simp

text \<open>
  \<open>fresh vol n f d cs f' d'\<close>: the contents \<open>(f', d')\<close> are \<open>(f, d)\<close> with the free clusters \<open>cs\<close> zeroed and
  linked into a chain.
\<close>

definition fresh :: "FatFs \<Rightarrow> nat \<Rightarrow> (u32 \<Rightarrow> u32) \<Rightarrow> (u32 \<Rightarrow> u8 list) \<Rightarrow> u32 list \<Rightarrow> (u32 \<Rightarrow> u32) \<Rightarrow> (u32 \<Rightarrow> u8 list) \<Rightarrow> bool" where
  "fresh vol n f d cs f' d' \<longleftrightarrow> distinct cs \<and> set cs \<subseteq> free_set vol n f
     \<and> (\<forall>x. x \<notin> set cs \<longrightarrow> f' x = f x \<and> d' x = d x)
     \<and> (\<forall>x\<in>set cs. f' x \<noteq> 0 \<and> d' x = replicate (cluster_bytes vol) 0)
     \<and> (cs \<noteq> [] \<longrightarrow> chain vol n f' (hd cs) cs)"

lemma eoc_link: "(EOC_THRESHOLD OR 0xF) AND CLUSTER_MASK = 0x0FFFFFFF" "\<not> in_chain 0x0FFFFFFF" "(0x0FFFFFFF :: u32) \<noteq> 0"
  by (simp_all add: EOC_THRESHOLD_def CLUSTER_MASK_def in_chain_def)

lemma cluster_mask_id:
  assumes "fits vol n" "data_cluster vol n c"
  shows "c AND CLUSTER_MASK = c" "c \<noteq> 0"
proof -
  have "unat c < 2 ^ 28" using data_cluster_unat [OF assms(2)] fitsD(6) [OF assms(1)] by simp
  then have "c < 2 ^ 28" by (simp add: word_less_nat_alt)
  then have "c AND mask 28 = c" by (simp add: less_mask_eq)
  moreover have "CLUSTER_MASK = mask 28" by (simp add: CLUSTER_MASK_def mask_eq_exp_minus_1)
  ultimately show "c AND CLUSTER_MASK = c" by simp
  show "c \<noteq> 0" using assms(2) by (auto simp: data_cluster_def)
qed

lemma fresh_step:
  assumes "fits vol n" "fresh vol n f d cs f' d'" "data_cluster vol n c" "f' c = 0"
  shows "fresh vol n f d (cs @ [c])
    ((if cs = [] then f'(c := 0x0FFFFFFF) else f'(c := 0x0FFFFFFF, last cs := c))) (d'(c := replicate (cluster_bytes vol) 0))"
proof -
  note fr = assms(2) [unfolded fresh_def]
  have c: "c \<notin> set cs" using fr assms(4) by auto
  then have "f c = 0" using fr assms(4) by auto
  then have "c \<in> free_set vol n f" using assms(3) by (simp add: free_set_def)
  moreover have "chain vol n (f'(c := 0x0FFFFFFF, last cs := c)) (hd cs) (cs @ [c])" if "cs \<noteq> []"
    using chain_snoc [of vol n f' "hd cs" cs c "0x0FFFFFFF"] fr c that assms(3) eoc_link(2) by blast
  moreover have "last cs \<in> set cs" if "cs \<noteq> []" using that by simp
  ultimately show ?thesis
    using fr c assms(3) eoc_link cluster_mask_id(2) [OF assms(1,3)]
    unfolding fresh_def by (cases "cs = []") auto
qed

text \<open>The loop state after \<open>cs\<close> have been linked.\<close>

definition alloc_state :: "u32 list \<Rightarrow> u32 \<times> u32 \<times> u32" where
  "alloc_state cs = (if cs = [] then (0, 0, 0) else (hd cs, last cs, last cs))"

lemma does_allocate_step:
  assumes "fits vol n" "fresh vol n f d cs f' d'" "first_free vol n f' = Some k"
  shows "does vol n f' d' (allocate_step image_device vol (alloc_state cs)) (alloc_state (cs @ [word_of_nat k]))
    (if cs = [] then f'(word_of_nat k := 0x0FFFFFFF) else f'(word_of_nat k := 0x0FFFFFFF, last cs := word_of_nat k))
    (d'(word_of_nat k := replicate (cluster_bytes vol) 0))"
proof -
  let ?c = "word_of_nat k :: u32" and ?d = "d'(word_of_nat k := replicate (cluster_bytes vol) 0)"
  have c: "data_cluster vol n ?c" by (rule first_free_SomeD [OF assms(1,3)])
  have mark: "does vol n f' d' (write_fat_entry image_device vol ?c (EOC_THRESHOLD OR 0xF)) () (f'(?c := 0x0FFFFFFF)) d'"
    using does_write_fat_entry [OF assms(1) c, of f' d' "EOC_THRESHOLD OR 0xF"] by (simp only: eoc_link)
  have link: "does vol n (f'(?c := 0x0FFFFFFF)) ?d (if prev = 0 then ret ?c else bindM (write_fat_entry image_device vol prev ?c) (\<lambda>_. ret hd'))
      (if cs = [] then ?c else hd')
      (if cs = [] then f'(?c := 0x0FFFFFFF) else f'(?c := 0x0FFFFFFF, last cs := ?c)) ?d"
    if "prev = (if cs = [] then 0 else last cs)" for prev hd'
  proof (cases "cs = []")
    case False
    then have "last cs \<in> free_set vol n f" using assms(2) last_in_set by (fastforce simp: fresh_def)
    then have "data_cluster vol n (last cs)" by (simp add: free_set_def)
    with False that cluster_mask_id [OF assms(1)] c show ?thesis
      using does_bindM [OF does_write_fat_entry [OF assms(1), of "last cs" _ ?d ?c] does_ret]
      by (simp del: fun_upd_apply)
  qed (use that in \<open>simp add: does_ret\<close>)
  show ?thesis
    unfolding allocate_step_def alloc_state_def
    by (cases "cs = []")
      (auto simp del: fun_upd_apply intro!: does_bindM [OF does_find_free_cluster(1) [OF assms(1,3)]] does_bindM [OF mark]
        does_bindM [OF does_zero_cluster [OF assms(1) c]] does_bindM [OF link] does_ret split: if_splits)
qed

lemma fresh_free_set: "fresh vol n f d cs f' d' \<Longrightarrow> free_set vol n f' = free_set vol n f - set cs"
  by (auto simp: fresh_def free_set_def)

text \<open>As long as clusters are free, the loop of \<open>allocate_chain\<close> goes on.\<close>

lemma allocate_loop:
  assumes "fits vol n" "m \<le> card (free_set vol n f)"
  shows "\<exists>cs f' d'. length cs = m \<and> fresh vol n f d cs f' d'
    \<and> does vol n f d (foldM (\<lambda>_. allocate_step image_device vol) [0..<m] (alloc_state [])) (alloc_state cs) f' d'"
  using assms(2)
proof (induction m)
  case 0
  have "fresh vol n f d [] f d" by (simp add: fresh_def)
  then show ?case using does_ret by (intro exI [of _ "[]"] exI [of _ f] exI [of _ d]) simp
next
  case (Suc m)
  then obtain cs f' d' where IH: "length cs = m" "fresh vol n f d cs f' d'"
    "does vol n f d (foldM (\<lambda>_. allocate_step image_device vol) [0..<m] (alloc_state [])) (alloc_state cs) f' d'" by auto
  have "card (free_set vol n f') = card (free_set vol n f) - m"
    using IH(1,2) unfolding fresh_free_set [OF IH(2)] by (simp add: fresh_def card_Diff_subset distinct_card)
  then have "free_set vol n f' \<noteq> {}" using Suc.prems by force
  then obtain k where k: "first_free vol n f' = Some k" using first_free_exists [of vol n _ f'] by (auto simp: free_set_def)
  note c = first_free_SomeD [OF assms(1) k]
  have "does vol n f d (foldM (\<lambda>_. allocate_step image_device vol) ([0..<m] @ [m]) (alloc_state [])) (alloc_state (cs @ [word_of_nat k]))
     (if cs = [] then f'(word_of_nat k := 0x0FFFFFFF) else f'(word_of_nat k := 0x0FFFFFFF, last cs := word_of_nat k))
     (d'(word_of_nat k := replicate (cluster_bytes vol) 0))"
    by (rule does_fold_snoc [OF IH(3) does_allocate_step [OF assms(1) IH(2) k]])
  moreover have "length (cs @ [word_of_nat k :: u32]) = Suc m" using IH(1) by simp
  ultimately show ?case using fresh_step [OF assms(1) IH(2) c] unfolding upt_Suc_append [OF le0] by blast
qed

lemma few_clusters:
  assumes "fits vol n" "\<forall>c\<in>C. data_cluster vol n c"
  shows "card C < 2 ^ 31"
proof -
  have "card C = card (unat ` C)" by (rule card_image [symmetric]) (simp add: inj_on_def word_unat_eq_iff)
  also have "\<dots> \<le> card {0..<cap vol}" using assms(2) by (intro card_mono) (auto simp: data_cluster_unat)
  finally show ?thesis using fitsD(6) [OF assms(1)] by simp
qed

lemma does_allocate_chain:
  assumes "fits vol n" "0 < unat count" "unat count \<le> card (free_set vol n f)"
  shows "\<exists>cs f' d'. length cs = unat count \<and> fresh vol n f d cs f' d'
    \<and> does vol n f d (allocate_chain image_device vol count) (hd cs) f' d'"
proof -
  obtain cs f' d' where cs: "length cs = unat count" "fresh vol n f d cs f' d'"
    and loop: "does vol n f d (foldM (\<lambda>_. allocate_step image_device vol) [0..<unat count] (alloc_state [])) (alloc_state cs) f' d'"
    using allocate_loop [OF assms(1,3)] by blast
  have "card (free_set vol n f) < 2 ^ 31" by (rule few_clusters [OF assms(1)]) (simp add: free_set_def)
  then have neg: "neg_chk count = (Ok (- count) :: (FsError, u32) outcome)" using assms(3) by (intro neg_chk_small) linarith
  have "count \<noteq> 0" "cs \<noteq> []" using assms(2) cs(1) by auto
  then have "does vol n f d (allocate_chain image_device vol count) (hd cs) f' d'"
    unfolding allocate_chain_def alloc_state_def [of "[]", simplified, symmetric]
    by (auto intro!: does_bindM [OF loop] does_bindM [OF does_update_fsinfo_ignored [OF assms(1)]] does_ret simp: alloc_state_def [of cs] neg)
  with cs show ?thesis by blast
qed

text \<open>
  Too few free clusters: the loop stops with \<open>Io\<close>; only clusters that were free have changed, and the loop has taken every one of
  them.
\<close>

lemma fresh_frame: "fresh vol n f d cs f' d' \<Longrightarrow> f x \<noteq> 0 \<Longrightarrow> f' x = f x \<and> d' x = d x"
  by (auto simp: fresh_def free_set_def)

lemma yields_allocate_full:
  assumes "fits vol n" "card (free_set vol n f) < unat count"
  shows "\<exists>f' d'. yields vol n f d (allocate_chain image_device vol count) (Err Io) f' d' \<and> (\<forall>x. f x \<noteq> 0 \<longrightarrow> f' x = f x \<and> d' x = d x)
    \<and> free_set vol n f' = {}"
proof -
  let ?m = "card (free_set vol n f)"
  obtain cs f' d' where cs: "length cs = ?m" "fresh vol n f d cs f' d'"
    and loop: "does vol n f d (foldM (\<lambda>_. allocate_step image_device vol) [0..<?m] (alloc_state [])) (alloc_state cs) f' d'"
    using allocate_loop [OF assms(1) order_refl] by blast
  have "card (free_set vol n f') = 0"
    using cs unfolding fresh_free_set [OF cs(2)] by (simp add: fresh_def card_Diff_subset distinct_card)
  then have full: "free_set vol n f' = {}" by simp
  then have "first_free vol n f' = None"
    using first_free_SomeD [OF assms(1), of f'] by (cases "first_free vol n f'") (fastforce simp: free_set_def)+
  then have step: "yields vol n f' d' (allocate_step image_device vol (alloc_state cs)) (Err Io) f' d'"
    by (auto simp: allocate_step_def alloc_state_def intro!: yields_bindM_Err does_find_free_cluster(2) [OF assms(1)])
  have "[0..<unat count] = ([0..<?m] @ [?m]) @ [Suc ?m..<unat count]"
    using assms(2) upt_add_eq_append [of 0 "Suc ?m" "unat count - Suc ?m"] by simp
  then have "yields vol n f d (foldM (\<lambda>_. allocate_step image_device vol) [0..<unat count] (0, 0, 0)) (Err Io) f' d'"
    using yields_fold_Err [OF does_fold_snoc [OF loop step]] by (simp only: alloc_state_def simp_thms if_True)
  moreover have "count \<noteq> 0" using assms(2) by auto
  ultimately have "yields vol n f d (allocate_chain image_device vol count) (Err Io) f' d'"
    by (simp add: allocate_chain_def yields_bindM_Err)
  with fresh_frame [OF cs(2)] full show ?thesis by blast
qed

section \<open>Release\<close>

lemma does_free_chain:
  assumes "fits vol n" "chain vol n f c cs"
  shows "does vol n f d (free_chain image_device vol c) () (\<lambda>x. if x \<in> set cs then 0 else f x) d"
proof -
  have "\<exists>r'. does vol n f d (loopM (free_chain_body image_device vol) (c, r)) r' (\<lambda>x. if x \<in> set cs then 0 else f x) d"
    if "unat r + length cs < 2 ^ 31" for r
    using assms(2) that
  proof (induction cs arbitrary: c f r)
    case Nil
    then show ?case by (auto simp: free_chain_body_def intro!: exI does_loop_break does_ret)
  next
    case (Cons x xs)
    then have c: "c = x" "data_cluster vol n x" "in_chain x" "chain vol n f (f x) xs" and x: "x \<notin> set xs"
      using data_cluster_in_chain [OF assms(1)] chain_distinct [OF assms(1) Cons.prems(1)] by auto
    then have next_chain: "chain vol n (f(x := 0)) (f x) xs" using chain_cong [of xs "f(x := 0)" f vol] by auto
    have inc: "sadd_chk r 1 = (Ok (r + 1) :: (FsError, u32) outcome)" "unat (r + 1) + length xs < 2 ^ 31"
      using sadd_chk_small [of r] Cons.prems(2) by simp_all
    from Cons.IH [OF next_chain inc(2)] obtain r' where
      IH: "does vol n (f(x := 0)) d (loopM (free_chain_body image_device vol) (f x, r + 1)) r' (\<lambda>y. if y \<in> set xs then 0 else (f(x := 0)) y) d" by blast
    have zero: "does vol n f d (write_fat_entry image_device vol x 0) () (f(x := 0)) d"
      using does_write_fat_entry [OF assms(1) c(2), of f d 0] by (simp del: fun_upd_apply)
    have step: "does vol n f d (free_chain_body image_device vol (c, r)) (Inl (f x, r + 1)) (f(x := 0)) d"
      using c unfolding free_chain_body_def
      by (simp add: inc(1) del: fun_upd_apply) (intro does_bindM [OF does_next_cluster [OF assms(1)]] does_bindM [OF zero] does_ret data_cluster_unat)
    have eq: "(\<lambda>y. if y \<in> set xs then 0 else (f(x := 0)) y) = (\<lambda>y. if y \<in> set (x # xs) then 0 else f y)" by auto
    show ?case using does_loop_continue [OF step IH] unfolding eq by (rule exI)
  qed
  moreover have "length cs < 2 ^ 31"
    using few_clusters [OF assms(1), of "set cs"] chain_distinct [OF assms] chain_data [OF assms(2)] by (auto simp: distinct_card)
  ultimately obtain r where loop: "does vol n f d (loopM (free_chain_body image_device vol) (c, 0)) r (\<lambda>x. if x \<in> set cs then 0 else f x) d"
    by fastforce
  show ?thesis
    unfolding free_chain_def by (rule does_bindM [OF loop]) (auto intro: does_update_fsinfo_ignored [OF assms(1)] does_ret)
qed

end
