(* ===== verification/FatDir.thy ===== *)
theory FatDir
  imports FatChain
begin

unbundle bit_operations_syntax

text \<open>
  Directories on the abstract contents: a directory is the list of 32-byte slots of its cluster
  chain. \<open>read_dir\<close> parses the slots, \<open>add_dir_entry\<close> overwrites the first free one or extends the
  chain by a zeroed cluster, and \<open>delete_dir_entry\<close> marks the first slot with the given name.
\<close>

section \<open>Slots\<close>

lemma chunks_exact_map: "0 < k \<Longrightarrow> length xs = m * k \<Longrightarrow> chunks_exact k xs = map (\<lambda>i. take k (drop (i * k) xs)) [0..<m]"
proof (induction m arbitrary: xs)
  case (Suc m)
  then have "chunks_exact k xs = take k xs # chunks_exact k (drop k xs)" by (subst chunks_exact.simps) simp
  also have "chunks_exact k (drop k xs) = map (\<lambda>i. take k (drop (i * k) (drop k xs))) [0..<m]" using Suc by simp
  also have "\<dots> = map (\<lambda>i. take k (drop (i * k) xs)) [1..<Suc m]" by (simp add: map_Suc_upt [symmetric] add.commute comp_def del: upt_Suc)
  finally show ?case by (simp add: upt_conv_Cons del: upt_Suc)
qed simp

lemma length_chunks_exact: "0 < k \<Longrightarrow> length xs = m * k \<Longrightarrow> length (chunks_exact k xs) = m"
  by (simp add: chunks_exact_map)

lemma chunks_exact_nth: "0 < k \<Longrightarrow> length xs = m * k \<Longrightarrow> i < m \<Longrightarrow> chunks_exact k xs ! i = take k (drop (i * k) xs)"
  by (simp add: chunks_exact_map)

lemma chunks_exact_splice:
  assumes "0 < k" "length xs = m * k" "i < m" "length e = k"
  shows "chunks_exact k (splice (i * k) e xs) = (chunks_exact k xs)[i := e]"
proof -
  have le: "j * k + k \<le> length xs" if "j < m" for j
    using that assms(2) mult_le_mono1 [of "Suc j" m k] by simp
  have len: "length (splice (i * k) e xs) = m * k" using assms(2,4) le [OF assms(3)] by simp
  have "take k (drop (j * k) (splice (i * k) e xs)) = (if j = i then e else take k (drop (j * k) xs))" if "j < m" for j
  proof (rule nth_equalityI)
    fix a assume "a < length (take k (drop (j * k) (splice (i * k) e xs)))"
    then have a: "a < k" using le [OF that] len assms(2) by simp
    have jk: "j * k \<le> length (splice (i * k) e xs)" "j * k \<le> length xs" using le [OF that] len assms(2) by linarith+
    have "i * k \<le> j * k + a \<and> j * k + a < i * k + k \<longleftrightarrow> j = i"
    proof
      assume "i * k \<le> j * k + a \<and> j * k + a < i * k + k"
      then have "(j * k + a) div k = i" using assms(1) by (intro div_nat_eqI) (simp_all add: mult.commute)
      then show "j = i" using a by simp
    qed (use a in simp)
    moreover have "take k (drop (j * k) (splice (i * k) e xs)) ! a = splice (i * k) e xs ! (j * k + a)"
      using a by (simp add: nth_drop [OF jk(1)])
    moreover have "\<dots> = (if i * k \<le> j * k + a \<and> j * k + a < i * k + k then e ! (j * k + a - i * k) else xs ! (j * k + a))"
      using splice_nth [of "i * k" e xs "j * k + a"] a le [OF that] le [OF assms(3)] assms(4) by simp
    ultimately show "take k (drop (j * k) (splice (i * k) e xs)) ! a = (if j = i then e else take k (drop (j * k) xs)) ! a"
      using a by (simp add: nth_drop [OF jk(2)])
  qed (use le [OF that] len assms(2,4) in simp)
  then show ?thesis
    using assms len by (intro nth_equalityI) (simp_all add: chunks_exact_map nth_list_update)
qed

definition slots :: "(u32 \<Rightarrow> u8 list) \<Rightarrow> u32 list \<Rightarrow> u8 list list" where
  "slots d cs = concat (map (\<lambda>c. chunks_exact 32 (d c)) cs)"

lemma slots_simps [simp]: "slots d [] = []" "slots d (c # cs) = chunks_exact 32 (d c) @ slots d cs"
  by (simp_all add: slots_def)

lemma slots_cong: "(\<forall>c\<in>set cs. d c = d' c) \<Longrightarrow> slots d cs = slots d' cs"
  by (induction cs) simp_all

definition n_slots :: "FatFs \<Rightarrow> nat" where
  "n_slots vol = unat (sectors_per_cluster vol) * 16"

lemma well_sized_slots: "fits vol n \<Longrightarrow> well_sized vol n d \<Longrightarrow> data_cluster vol n c \<Longrightarrow> length (d c) = n_slots vol * 32"
  using cluster_bytes_eq [OF fitsD(1)] by (simp add: well_sized_def n_slots_def)

lemma slots_concat:
  assumes "fits vol n" "well_sized vol n d" "\<forall>c\<in>set cs. data_cluster vol n c"
  shows "chunks_exact 32 (concat (map d cs)) = slots d cs"
  using assms(3)
proof (induction cs)
  case (Cons c cs)
  then show ?case using chunks_exact_mult [of 32 "d c" "n_slots vol"] well_sized_slots [OF assms(1,2)] by simp
qed simp

section \<open>Reading\<close>

lemma chain_bytes_bound:
  assumes "fits vol n" "well_sized vol n d" "chain vol n f c cs"
  shows "length (concat (map d cs)) < USIZE_MAX"
proof -
  have data: "\<forall>x\<in>set cs. data_cluster vol n x" using chain_data [OF assms(3)] by blast
  have "card (unat ` set cs) = length cs"
    using chain_distinct [OF assms(1,3)] by (simp add: card_image inj_on_def word_unat_eq_iff distinct_card)
  moreover have "unat ` set cs \<subseteq> {..<cap vol}" using data by (auto dest: data_cluster_unat)
  ultimately have "length cs \<le> cap vol" by (metis card_lessThan card_mono finite_lessThan)
  then have cs: "length cs \<le> 2 ^ 28" using fitsD(6) [OF assms(1)] by simp
  have cb: "cluster_bytes vol \<le> 2 ^ 17"
    using cluster_bytes_eq [OF fitsD(1) [OF assms(1)]] fitsD(1) [OF assms(1)] by (simp add: vol_ok_def)
  have "map (\<lambda>x. length (d x)) cs = map (\<lambda>_. cluster_bytes vol) cs" using data assms(2) by (simp add: well_sized_def)
  then have "length (concat (map d cs)) = length cs * cluster_bytes vol"
    by (simp add: length_concat comp_def map_replicate_const sum_list_replicate)
  also have "\<dots> \<le> 2 ^ 28 * 2 ^ 17" by (rule mult_le_mono [OF cs cb])
  also have "\<dots> < USIZE_MAX" by (simp add: USIZE_MAX_def)
  finally show ?thesis .
qed

lemma does_read_dir:
  assumes "fits vol n" "chain vol n f c cs"
  shows "does vol n f d (read_dir image_device vol c) (parse_dir (slots d cs)) f d"
proof (rule does_well_sized [OF assms(1)])
  assume ws: "well_sized vol n d"
  have "gather d USIZE_MAX [] cs = concat (map d cs)"
    using gather_all [of "[]" d cs] chain_bytes_bound [OF assms(1) ws assms(2)] by simp
  moreover have "chunks_exact 32 (concat (map d cs)) = slots d cs"
    using slots_concat [OF assms(1) ws] chain_data [OF assms(2)] by blast
  ultimately show "does vol n f d (read_dir image_device vol c) (parse_dir (slots d cs)) f d"
    unfolding read_dir_def by (intro does_bindM [OF does_read_chain [OF assms]]) (simp add: does_ret)
qed

lemma parse_dir_append: "\<forall>x\<in>set xs. x ! 0 \<noteq> 0 \<Longrightarrow> parse_dir (xs @ ys) = parse_dir xs @ parse_dir ys"
  by (induction xs) simp_all

section \<open>The slots of a sector\<close>

definition free_chunk :: "u8 list \<Rightarrow> bool" where
  "free_chunk ch \<longleftrightarrow> ch ! 0 = 0x00 \<or> ch ! 0 = 0xE5"

lemma sector_chunk:
  assumes "length bs = n_slots vol * 32" "s < unat (sectors_per_cluster vol)" "j < 16"
  shows "take 32 (drop (j * 32) (take 512 (drop (s * 512) bs))) = chunks_exact 32 bs ! (s * 16 + j)"
proof -
  have "s * 16 + j < n_slots vol" using assms(2,3) by (simp add: n_slots_def)
  then have "chunks_exact 32 bs ! (s * 16 + j) = take 32 (drop ((s * 16 + j) * 32) bs)"
    using chunks_exact_nth [of 32 bs "n_slots vol"] assms(1) by simp
  moreover have "min 32 (512 - j * 32) = 32" using assms(3) by simp
  ultimately show ?thesis by (simp add: drop_take add.commute mult.commute distrib_left)
qed

lemma sector_byte:
  assumes "length bs = n_slots vol * 32" "s < unat (sectors_per_cluster vol)" "j < 16"
  shows "take 512 (drop (s * 512) bs) ! (j * 32) = chunks_exact 32 bs ! (s * 16 + j) ! 0"
proof -
  have "s * 512 + 512 \<le> length bs"
    using assms(1,2) mult_le_mono1 [of "Suc s" "unat (sectors_per_cluster vol)" 512] by (simp add: n_slots_def)
  then have "take 32 (drop (j * 32) (take 512 (drop (s * 512) bs))) ! 0 = take 512 (drop (s * 512) bs) ! (j * 32)"
    using assms(3) by simp
  then show ?thesis using sector_chunk [OF assms] by simp
qed

lemma free_slot_cases:
  assumes "length bs = n_slots vol * 32" "s < unat (sectors_per_cluster vol)"
  shows "free_slot (take 512 (drop (s * 512) bs)) = None \<longleftrightarrow> (\<forall>j<16. \<not> free_chunk (chunks_exact 32 bs ! (s * 16 + j)))"
    "free_slot (take 512 (drop (s * 512) bs)) = Some off \<Longrightarrow>
      \<exists>j<16. off = j * 32 \<and> free_chunk (chunks_exact 32 bs ! (s * 16 + j)) \<and> (\<forall>i<j. \<not> free_chunk (chunks_exact 32 bs ! (s * 16 + i)))"
proof -
  define buf where "buf = take 512 (drop (s * 512) bs)"
  have B: "free_chunk (chunks_exact 32 bs ! (s * 16 + j)) \<longleftrightarrow> buf ! (j * 32) = 0x00 \<or> buf ! (j * 32) = 0xE5" if "j < 16" for j
    using sector_byte [OF assms that] by (simp add: free_chunk_def buf_def)
  show "free_slot (take 512 (drop (s * 512) bs)) = None \<longleftrightarrow> (\<forall>j<16. \<not> free_chunk (chunks_exact 32 bs ! (s * 16 + j)))"
    unfolding buf_def [symmetric] free_slot_def find_None_iff by (auto simp: B BLOCK_SIZE_def)
  assume "free_slot (take 512 (drop (s * 512) bs)) = Some off"
  then obtain j where "j < 16" "off = j * 32" "buf ! (j * 32) = 0x00 \<or> buf ! (j * 32) = 0xE5"
    "\<forall>i<j. \<not> (buf ! (i * 32) = 0x00 \<or> buf ! (i * 32) = 0xE5)"
    unfolding buf_def [symmetric] free_slot_def find_Some_iff BLOCK_SIZE_def by auto
  then show "\<exists>j<16. off = j * 32 \<and> free_chunk (chunks_exact 32 bs ! (s * 16 + j)) \<and> (\<forall>i<j. \<not> free_chunk (chunks_exact 32 bs ! (s * 16 + i)))"
    using B by (intro exI [of _ j]) auto
qed

lemma splice_nested:
  assumes "a + k \<le> length bs" "i + length e \<le> k"
  shows "splice a (splice i e (take k (drop a bs))) bs = splice (a + i) e bs"
proof -
  obtain A B C where bs: "bs = A @ B @ C" "length A = a" "length B = k"
  proof
    show "bs = take a bs @ take k (drop a bs) @ drop k (drop a bs)" by (simp only: append_take_drop_id)
    show "length (take a bs) = a" "length (take k (drop a bs)) = k" using assms(1) by simp_all
  qed
  then show ?thesis using assms(2) by (simp add: splice_def)
qed

section \<open>Adding an entry\<close>

text \<open>The sectors of one cluster, from sector \<open>s\<close> on: no free slot, or the first one at \<open>p\<close>.\<close>

lemma does_add_miss:
  assumes "fits vol n" "data_cluster vol n c" "well_sized vol n d"
    and "\<forall>i<n_slots vol. \<not> free_chunk (chunks_exact 32 (d c) ! i)"
  shows "does vol n f d (add_in_sectors image_device (lba_of vol c) [s..<unat (sectors_per_cluster vol)] e) False f d"
proof (induction "unat (sectors_per_cluster vol) - s" arbitrary: s)
  case 0
  then show ?case by (simp add: does_ret)
next
  case (Suc k)
  have len: "length (d c) = n_slots vol * 32" by (rule well_sized_slots [OF assms(1,3,2)])
  from Suc have s: "s < unat (sectors_per_cluster vol)" by simp
  then have "free_slot (take 512 (drop (s * 512) (d c))) = None"
    using assms(4) free_slot_cases(1) [OF len s] by (simp add: n_slots_def)
  moreover have "does vol n f d (add_in_sectors image_device (lba_of vol c) [Suc s..<unat (sectors_per_cluster vol)] e) False f d"
    using Suc by simp
  ultimately show ?case
    unfolding upt_conv_Cons [OF s] add_in_sectors.simps
    by (intro does_bindM [OF does_read_sector [OF assms(1,2) s]]) simp_all
qed

lemma does_add_hit:
  assumes "fits vol n" "data_cluster vol n c" "well_sized vol n d" "length e = 32"
    and "p < n_slots vol" "free_chunk (chunks_exact 32 (d c) ! p)" "\<forall>i<p. \<not> free_chunk (chunks_exact 32 (d c) ! i)"
  shows "s * 16 \<le> p \<Longrightarrow>
    does vol n f d (add_in_sectors image_device (lba_of vol c) [s..<unat (sectors_per_cluster vol)] e) True f (d(c := splice (p * 32) e (d c)))"
proof (induction "unat (sectors_per_cluster vol) - s" arbitrary: s)
  case 0
  then show ?case using assms(5) by (simp add: n_slots_def)
next
  case (Suc k)
  have len: "length (d c) = n_slots vol * 32" by (rule well_sized_slots [OF assms(1,3,2)])
  from Suc have s: "s < unat (sectors_per_cluster vol)" by simp
  note rd = does_bindM [OF does_read_sector [OF assms(1,2) s, of zero_block, simplified]]
  have sec: "s * 512 + 512 \<le> length (d c)" using sector_end [OF fitsD(1) [OF assms(1)] s] cluster_bytes_eq [OF fitsD(1) [OF assms(1)]] len
    by (simp add: n_slots_def)
  show ?case
  proof (cases "free_slot (take 512 (drop (s * 512) (d c)))")
    case None
    then have "s * 16 + 16 \<le> p" using free_slot_cases(1) [OF len s] assms(6) Suc.prems
      by (metis add.commute le_add_diff_inverse2 less_diff_conv2 not_less)
    then have "does vol n f d (add_in_sectors image_device (lba_of vol c) [Suc s..<unat (sectors_per_cluster vol)] e) True f (d(c := splice (p * 32) e (d c)))"
      using Suc(1) [of "Suc s"] Suc(2) by simp
    with None show ?thesis unfolding upt_conv_Cons [OF s] add_in_sectors.simps by (intro rd) simp
  next
    case (Some off)
    from free_slot_cases(2) [OF len s Some] obtain j where j: "j < 16" "off = j * 32"
      "free_chunk (chunks_exact 32 (d c) ! (s * 16 + j))" "\<forall>i<j. \<not> free_chunk (chunks_exact 32 (d c) ! (s * 16 + i))" by blast
    have "p = s * 16 + j"
    proof (rule linorder_cases)
      assume "p < s * 16 + j"
      then have "p = s * 16 + (p - s * 16)" "p - s * 16 < j" using Suc.prems by simp_all
      with j(4) assms(6) show ?thesis by metis
    next
      assume "s * 16 + j < p"
      with assms(7) j(3) show ?thesis by blast
    qed
    then have off: "s * 512 + off = p * 32" "off + length e \<le> 512" using j(1,2) assms(4) by simp_all
    have sp: "splice (s * 512) (splice off e (take 512 (drop (s * 512) (d c)))) (d c) = splice (p * 32) e (d c)"
      unfolding splice_nested [OF sec off(2)] off(1) ..
    have "length (splice off e (take 512 (drop (s * 512) (d c)))) = 512" using j(1,2) assms(4) sec by simp
    from does_write_sector [OF assms(1,2) s this, of f d] Some sp show ?thesis
      unfolding upt_conv_Cons [OF s] add_in_sectors.simps by (intro rd) (auto intro!: does_bindM does_ret simp del: fun_upd_apply)
  qed
qed

lemma does_next_or_grow_next:
  assumes "fits vol n" "data_cluster vol n x" "in_chain (f x)"
  shows "does vol n f d (next_or_grow image_device vol x) (f x) f d"
  using assms(3) unfolding next_or_grow_def
  by (intro does_bindM [OF does_next_cluster [OF assms(1) data_cluster_unat [OF assms(2)]]]) (auto simp: in_chain_def does_ret)

lemma does_grow:
  assumes "fits vol n" "data_cluster vol n x" "\<not> in_chain (f x)" "first_free vol n f = Some k"
  shows "does vol n f d (next_or_grow image_device vol x) (word_of_nat k)
    (f(word_of_nat k := 0x0FFFFFFF, x := word_of_nat k)) (d(word_of_nat k := replicate (cluster_bytes vol) 0))"
proof -
  let ?c = "word_of_nat k :: u32"
  have c: "data_cluster vol n ?c" by (rule first_free_SomeD [OF assms(1,4)])
  have mark: "does vol n f d (write_fat_entry image_device vol ?c (EOC_THRESHOLD OR 0xF)) () (f(?c := 0x0FFFFFFF)) d"
    using does_write_fat_entry [OF assms(1) c, of f d "EOC_THRESHOLD OR 0xF"] by (simp only: eoc_link)
  have link: "does vol n (f(?c := 0x0FFFFFFF)) d' (write_fat_entry image_device vol x ?c) () (f(?c := 0x0FFFFFFF, x := ?c)) d'" for d'
    using does_write_fat_entry [OF assms(1,2), of "f(?c := 0x0FFFFFFF)" d' ?c]
    by (simp only: cluster_mask_id [OF assms(1) c])
  have "f x < 2 \<or> EOC_THRESHOLD \<le> f x" using assms(3) by (auto simp: in_chain_def)
  then show ?thesis
    unfolding next_or_grow_def
    by (intro does_bindM [OF does_next_cluster [OF assms(1) data_cluster_unat [OF assms(2)]]])
      (simp del: fun_upd_apply, intro does_bindM [OF does_find_free_cluster(1) [OF assms(1,4)]] does_bindM [OF mark]
        does_bindM [OF does_zero_cluster [OF assms(1) c]] does_bindM [OF link] does_bindM [OF does_update_fsinfo_ignored [OF assms(1)]] does_ret)
qed

text \<open>One round of the loop: the entry goes into this cluster, or the loop moves on.\<close>

lemma does_add_round:
  assumes "fits vol n" "well_sized vol n d" "data_cluster vol n x" "p < n_slots vol" "free_chunk (chunks_exact 32 (d x) ! p)"
    "\<forall>i<p. \<not> free_chunk (chunks_exact 32 (d x) ! i)"
  shows "does vol n f d (add_dir_entry image_device vol x name attrs cl sz) () f
      (d(x := splice (p * 32) (write_short_entry name attrs cl sz) (d x)))"
  unfolding add_dir_entry_def
  by (rule does_loop_break, unfold lba_of_cluster [OF assms(1,3)] bindM_ret, rule does_bindM [OF does_add_hit [OF assms(1,3,2) _ assms(4-6)]])
    (simp_all add: does_ret)

lemma does_add_next:
  assumes "fits vol n" "well_sized vol n d" "data_cluster vol n x" "\<forall>i<n_slots vol. \<not> free_chunk (chunks_exact 32 (d x) ! i)"
    and "does vol n f d (next_or_grow image_device vol x) y f' d'"
    and "yields vol n f' d' (add_dir_entry image_device vol y name attrs cl sz) r f'' d''"
  shows "yields vol n f d (add_dir_entry image_device vol x name attrs cl sz) r f'' d''"
proof -
  note miss = does_add_miss [OF assms(1,3,2,4)]
  show ?thesis
    using assms(6) unfolding add_dir_entry_def
    by (elim does_loop_continue [rotated]) (auto simp: lba_of_cluster [OF assms(1,3)] intro!: does_bindM [OF miss] does_bindM [OF assms(5)] does_ret)
qed

text \<open>
  \<open>enters f d cs e f' d' cs'\<close>: the directory on the chain \<open>cs\<close> has become the one on \<open>cs'\<close>, in which the
  entry \<open>e\<close> replaces the first free slot or follows all slots, before zeroed ones; no other allocated
  cluster changed, and no other cluster has been allocated.
\<close>

definition enters ::
    "(u32 \<Rightarrow> u32) \<Rightarrow> (u32 \<Rightarrow> u8 list) \<Rightarrow> u32 list \<Rightarrow> u8 list \<Rightarrow> (u32 \<Rightarrow> u32) \<Rightarrow> (u32 \<Rightarrow> u8 list) \<Rightarrow> u32 list \<Rightarrow> bool" where
  "enters f d cs e f' d' cs' \<longleftrightarrow>
     (\<exists>pre rest post. slots d cs = pre @ rest \<and> slots d' cs' = pre @ e # post \<and> (\<forall>ch\<in>set pre. \<not> free_chunk ch)
        \<and> ((\<exists>z. rest = z # post \<and> free_chunk z) \<or> rest = [] \<and> (\<forall>ch\<in>set post. ch ! 0 = 0)))
     \<and> set cs' \<subseteq> set cs \<union> {x. f x = 0} \<and> (\<forall>x\<in>set cs'. f' x \<noteq> 0) \<and> set cs \<subseteq> set cs' \<and> (\<forall>x. x \<notin> set cs' \<and> f x = 0 \<longrightarrow> f' x = 0)
     \<and> (\<forall>x. x \<notin> set cs \<and> f x \<noteq> 0 \<longrightarrow> f' x = f x \<and> d' x = d x)"

lemma entersI:
  "slots d cs = pre @ rest \<Longrightarrow> slots d' cs' = pre @ e # post \<Longrightarrow> \<forall>ch\<in>set pre. \<not> free_chunk ch \<Longrightarrow>
   (\<exists>z. rest = z # post \<and> free_chunk z) \<or> rest = [] \<and> (\<forall>ch\<in>set post. ch ! 0 = 0) \<Longrightarrow>
   set cs' \<subseteq> set cs \<union> {x. f x = 0} \<Longrightarrow> \<forall>x\<in>set cs'. f' x \<noteq> 0 \<Longrightarrow> set cs \<subseteq> set cs' \<Longrightarrow> \<forall>x. x \<notin> set cs' \<and> f x = 0 \<longrightarrow> f' x = 0 \<Longrightarrow>
   \<forall>x. x \<notin> set cs \<and> f x \<noteq> 0 \<longrightarrow> f' x = f x \<and> d' x = d x \<Longrightarrow> enters f d cs e f' d' cs'"
  unfolding enters_def by blast

lemma entersD:
  assumes "enters f d cs e f' d' cs'"
  shows "\<exists>pre rest post. slots d cs = pre @ rest \<and> slots d' cs' = pre @ e # post \<and> (\<forall>ch\<in>set pre. \<not> free_chunk ch)
      \<and> ((\<exists>z. rest = z # post \<and> free_chunk z) \<or> rest = [] \<and> (\<forall>ch\<in>set post. ch ! 0 = 0))"
    "x \<in> set cs' \<Longrightarrow> x \<in> set cs \<or> f x = 0" "x \<in> set cs' \<Longrightarrow> f' x \<noteq> 0" "set cs \<subseteq> set cs'" "x \<notin> set cs' \<Longrightarrow> f x = 0 \<Longrightarrow> f' x = 0"
    "x \<notin> set cs \<Longrightarrow> f x \<noteq> 0 \<Longrightarrow> f' x = f x \<and> d' x = d x"
  using assms unfolding enters_def by simp_all (use assms in \<open>auto simp: enters_def\<close>)

lemma enters_here:
  assumes "fits vol n" "well_sized vol n d" "data_cluster vol n x" "x \<notin> set xs" "length e = 32"
    and "p < n_slots vol" "\<forall>i<p. \<not> free_chunk (chunks_exact 32 (d x) ! i)" "free_chunk (chunks_exact 32 (d x) ! p)"
    and "\<forall>y\<in>set (x # xs). f y \<noteq> 0"
  shows "enters f d (x # xs) e f (d(x := splice (p * 32) e (d x))) (x # xs)"
proof -
  let ?S = "chunks_exact 32 (d x)"
  have len: "length (d x) = n_slots vol * 32" by (rule well_sized_slots [OF assms(1-3)])
  have S: "length ?S = n_slots vol" using length_chunks_exact [of 32 "d x"] len by simp
  have "chunks_exact 32 (splice (p * 32) e (d x)) = ?S[p := e]"
    using chunks_exact_splice [of 32 "d x" "n_slots vol" p e] len assms(5,6) by simp
  then have new: "slots (d(x := splice (p * 32) e (d x))) (x # xs) = take p ?S @ e # drop (Suc p) ?S @ slots d xs"
    using slots_cong [of xs d "d(x := splice (p * 32) e (d x))"] assms(4,6) S by (auto simp: upd_conv_take_nth_drop)
  have old: "slots d (x # xs) = take p ?S @ (?S ! p # drop (Suc p) ?S @ slots d xs)"
    using assms(6) S by (simp add: Cons_nth_drop_Suc [symmetric] append_assoc [symmetric] id_take_nth_drop [symmetric] del: append_assoc)
  have "\<forall>ch\<in>set (take p ?S). \<not> free_chunk ch" using assms(6,7) S by (auto simp: in_set_conv_nth)
  then show ?thesis by (rule entersI [OF old new]) (use assms(8,9) in auto)
qed

lemma enters_later:
  assumes "fits vol n" "well_sized vol n d" "data_cluster vol n x" "x \<notin> set xs" "f x \<noteq> 0"
    and "\<forall>i<n_slots vol. \<not> free_chunk (chunks_exact 32 (d x) ! i)" "enters f d xs e f' d' xs'"
  shows "enters f d (x # xs) e f' d' (x # xs')"
proof -
  let ?S = "chunks_exact 32 (d x)"
  have "length ?S = n_slots vol" using length_chunks_exact [of 32 "d x"] well_sized_slots [OF assms(1-3)] by simp
  then have S: "\<forall>ch\<in>set ?S. \<not> free_chunk ch" using assms(6) by (auto simp: in_set_conv_nth)
  from assms(7) obtain pre rest post where "slots d xs = pre @ rest" "slots d' xs' = pre @ e # post" "\<forall>ch\<in>set pre. \<not> free_chunk ch"
    and tail: "(\<exists>z. rest = z # post \<and> free_chunk z) \<or> rest = [] \<and> (\<forall>ch\<in>set post. ch ! 0 = 0)"
    and cl: "set xs' \<subseteq> set xs \<union> {x. f x = 0}" "\<forall>x\<in>set xs'. f' x \<noteq> 0" "set xs \<subseteq> set xs'" "\<forall>x. x \<notin> set xs' \<and> f x = 0 \<longrightarrow> f' x = 0"
    and frame: "\<forall>x. x \<notin> set xs \<and> f x \<noteq> 0 \<longrightarrow> f' x = f x \<and> d' x = d x" by (auto simp: enters_def)
  moreover have "d' x = d x" and fx: "f' x = f x" using frame assms(4,5) by blast+
  ultimately have "slots d (x # xs) = (?S @ pre) @ rest" "slots d' (x # xs') = (?S @ pre) @ e # post" "\<forall>ch\<in>set (?S @ pre). \<not> free_chunk ch"
    using S by auto
  then show ?thesis by (rule entersI [OF _ _ _ tail]) (use frame cl fx assms(5) in auto)
qed

lemma does_add_dir_entry:
  assumes "fits vol n" "well_sized vol n d"
  shows "chain vol n f c cs \<Longrightarrow> cs \<noteq> [] \<Longrightarrow> \<forall>x\<in>set cs. f x \<noteq> 0 \<Longrightarrow>
    free_set vol n f \<noteq> {} \<or> (\<exists>ch\<in>set (slots d cs). free_chunk ch) \<Longrightarrow>
    \<exists>f' d' cs'. does vol n f d (add_dir_entry image_device vol c name attrs cl sz) () f' d' \<and> chain vol n f' c cs'
      \<and> enters f d cs (write_short_entry name attrs cl sz) f' d' cs'"
proof (induction cs arbitrary: c)
  case (Cons x xs)
  then have c: "c = x" "data_cluster vol n x" "f x \<noteq> 0" "chain vol n f (f x) xs" and x: "x \<notin> set xs"
    using chain_distinct [OF assms(1) Cons.prems(1)] by auto
  let ?e = "write_short_entry name attrs cl sz"
  show ?case
  proof (cases "\<exists>p. p < n_slots vol \<and> free_chunk (chunks_exact 32 (d x) ! p)")
    case True
    then obtain p where p: "p < n_slots vol" "free_chunk (chunks_exact 32 (d x) ! p)"
      "\<forall>i<p. \<not> free_chunk (chunks_exact 32 (d x) ! i)" using exists_least_iff [of "\<lambda>p. p < n_slots vol \<and> free_chunk (chunks_exact 32 (d x) ! p)"]
      by (meson less_trans)
    have "enters f d (x # xs) ?e f (d(x := splice (p * 32) ?e (d x))) (x # xs)"
      by (rule enters_here [OF assms(1,2) c(2) x _ p(1,3,2) Cons.prems(3)]) simp
    with does_add_round [OF assms(1,2) c(2) p] Cons.prems(1) show ?thesis unfolding c(1) by blast
  next
    case False
    then have full: "\<forall>i<n_slots vol. \<not> free_chunk (chunks_exact 32 (d x) ! i)" by blast
    then have "\<forall>ch\<in>set (chunks_exact 32 (d x)). \<not> free_chunk ch"
      using length_chunks_exact [OF _ well_sized_slots [OF assms(1,2) c(2)]] by (auto simp: in_set_conv_nth)
    with Cons.prems(4) have room: "free_set vol n f \<noteq> {} \<or> (\<exists>ch\<in>set (slots d xs). free_chunk ch)" by auto
    note next_round = does_add_next [OF assms(1,2) c(2) full]
    show ?thesis
    proof (cases xs)
      case (Cons y ys)
      then have y: "in_chain (f x)" using c(4) data_cluster_in_chain [OF assms(1)] by auto
      obtain f' d' cs' where IH: "does vol n f d (add_dir_entry image_device vol (f x) name attrs cl sz) () f' d'"
        "chain vol n f' (f x) cs'" "enters f d xs ?e f' d' cs'"
        using Cons.IH [OF c(4) _ _ room] Cons Cons.prems(3) by auto
      have "f' x = f x" using IH(3) x c(3) by (simp add: enters_def)
      then have "chain vol n f' c (x # cs')" using IH(2) c by simp
      with next_round [OF does_next_or_grow_next [of vol n x f, OF assms(1) c(2) y] IH(1)] enters_later [OF assms(1,2) c(2) x c(3) full IH(3)]
      show ?thesis unfolding c(1) by blast
    next
      case Nil
      with c(4) have end_x: "\<not> in_chain (f x)" by simp
      obtain k where k: "first_free vol n f = Some k" using room Nil first_free_exists [of vol n _ f] by (auto simp: free_set_def)
      let ?y = "word_of_nat k :: u32" and ?z = "replicate (cluster_bytes vol) 0 :: u8 list"
      note y = first_free_SomeD [OF assms(1) k]
      have ne: "?y \<noteq> x" using y(2) c(3) by metis
      let ?d = "d(?y := ?z)" and ?f = "f(?y := 0x0FFFFFFF, x := ?y)"
      have ws: "well_sized vol n ?d" using assms(2) by (simp add: well_sized_def)
      have pos: "0 < n_slots vol" using fitsD(1) [OF assms(1)] by (simp add: n_slots_def vol_ok_def)
      then have z: "free_chunk (chunks_exact 32 (?d ?y) ! 0)"
        using well_sized_slots [OF assms(1) ws y(1)] chunks_exact_nth [of 32 "?d ?y" "n_slots vol" 0] by (simp add: free_chunk_def)
      note add = does_add_round [OF assms(1) ws y(1) pos z, of ?f name attrs cl sz]
      have len: "length (?d ?y) = n_slots vol * 32" by (rule well_sized_slots [OF assms(1) ws y(1)])
      have "chunks_exact 32 (splice (0 * 32) ?e (?d ?y)) = (chunks_exact 32 (?d ?y))[0 := ?e]"
        by (rule chunks_exact_splice [OF _ len pos]) simp_all
      also have "\<dots> = ?e # drop 1 (chunks_exact 32 (?d ?y))"
        using pos length_chunks_exact [OF _ len] by (subst upd_conv_take_nth_drop) simp_all
      finally have new: "slots (?d(?y := splice (0 * 32) ?e (?d ?y))) [x, ?y] = chunks_exact 32 (d x) @ ?e # drop 1 (chunks_exact 32 (?d ?y))"
        using ne by (simp del: mult_zero_left)
      have zeros: "\<forall>ch\<in>set (drop 1 (chunks_exact 32 (?d ?y))). ch ! 0 = 0"
      proof
        fix ch assume "ch \<in> set (drop 1 (chunks_exact 32 (?d ?y)))"
        then obtain i where i: "i < n_slots vol" "ch = take 32 (drop (i * 32) (?d ?y))"
          using chunks_exact_map [OF _ len] by (auto dest!: in_set_dropD)
        moreover have "cluster_bytes vol = n_slots vol * 32" using len by simp
        ultimately show "ch ! 0 = 0" by simp
      qed
      note new
      moreover have "\<forall>ch\<in>set (chunks_exact 32 (d x)). \<not> free_chunk ch"
        using full length_chunks_exact [OF _ well_sized_slots [OF assms(1,2) c(2)]] by (auto simp: in_set_conv_nth)
      ultimately have "enters f d [x] ?e ?f (?d(?y := splice (0 * 32) ?e (?d ?y))) [x, ?y]"
        using y(2) zeros c(3) cluster_mask_id(2) [OF assms(1) y(1)] eoc_link(3)
        by (intro entersI [of _ _ "chunks_exact 32 (d x)" "[]"]) auto
      moreover have "chain vol n ?f c [x, ?y]" using c(1,2) y(1) ne eoc_link(2) by simp
      ultimately show ?thesis using next_round [OF does_grow [OF assms(1) c(2) end_x k] add] Nil unfolding c(1) by blast
    qed
  qed
qed simp

text \<open>A full directory on a full volume: \<open>Io\<close>, and nothing has changed.\<close>

lemma yields_add_full:
  assumes "fits vol n" "well_sized vol n d" "free_set vol n f = {}"
  shows "chain vol n f c cs \<Longrightarrow> cs \<noteq> [] \<Longrightarrow> \<forall>ch\<in>set (slots d cs). \<not> free_chunk ch \<Longrightarrow>
    yields vol n f d (add_dir_entry image_device vol c name attrs cl sz) (Err Io) f d"
proof (induction cs arbitrary: c)
  case (Cons x xs)
  then have c: "c = x" "data_cluster vol n x" "chain vol n f (f x) xs" by auto
  have full: "\<forall>i<n_slots vol. \<not> free_chunk (chunks_exact 32 (d x) ! i)"
    using Cons.prems(3) length_chunks_exact [OF _ well_sized_slots [OF assms(1,2) c(2)]] by auto
  show ?case
  proof (cases xs)
    case Nil
    then have e: "\<not> in_chain (f x)" using c(3) by simp
    have "first_free vol n f = None"
      using assms(3) first_free_SomeD [OF assms(1), of f] by (cases "first_free vol n f") (fastforce simp: free_set_def)+
    then have grow: "yields vol n f d (next_or_grow image_device vol x) (Err Io) f d"
      using e unfolding next_or_grow_def
      by (intro does_bindM [OF does_next_cluster [OF assms(1) data_cluster_unat [OF c(2)]]])
        (auto simp: in_chain_def intro!: yields_bindM_Err does_find_free_cluster(2) [OF assms(1)])
    show ?thesis
      unfolding add_dir_entry_def c(1)
      by (rule yields_loop_Err, unfold lba_of_cluster [OF assms(1) c(2)] bindM_ret,
          rule does_bindM [OF does_add_miss [OF assms(1) c(2) assms(2) full]]) (simp add: yields_bindM_Err [OF grow])
  next
    case (Cons y ys)
    then have y: "in_chain (f x)" using c(3) data_cluster_in_chain [OF assms(1)] by auto
    have "yields vol n f d (add_dir_entry image_device vol (f x) name attrs cl sz) (Err Io) f d"
      using Cons.IH [OF c(3)] Cons Cons.prems(3) by simp
    then show ?thesis
      unfolding c(1) by (rule does_add_next [OF assms(1,2) c(2) full does_next_or_grow_next [of vol n x f, OF assms(1) c(2) y]])
  qed
qed simp

section \<open>Deleting an entry\<close>

definition named :: "string \<Rightarrow> u8 list \<Rightarrow> bool" where
  "named name ch \<longleftrightarrow> ch ! 0 \<noteq> 0x00 \<and> \<not> skipped_entry ch \<and> eq_ignore_ascii_case (decode_short_name ch) name"

definition passed :: "string \<Rightarrow> u8 list \<Rightarrow> bool" where
  "passed name ch \<longleftrightarrow> ch ! 0 \<noteq> 0x00 \<and> \<not> named name ch"

lemma scan_pass: "\<forall>j\<in>set js. passed name (take 32 (drop (j * 32) buf)) \<Longrightarrow> scan_slots buf name (js @ ks) = scan_slots buf name ks"
  by (induction js) (auto simp: Let_def passed_def named_def)

lemma scan_hit:
  assumes "j < 16" "\<forall>i<j. passed name (take 32 (drop (i * 32) buf))" "named name (take 32 (drop (j * 32) buf))"
  shows "scan_slots buf name [0..<BLOCK_SIZE div 32] = ScanAt (j * 32)"
proof -
  have "[0..<BLOCK_SIZE div 32] = [0..<j] @ j # [Suc j..<16]"
    using assms(1) upt_add_eq_append [of 0 j "16 - j"] by (simp add: BLOCK_SIZE_def upt_conv_Cons)
  then show ?thesis using scan_pass [of "[0..<j]" name buf "j # [Suc j..<16]"] assms(2,3) by (simp add: named_def Let_def)
qed

lemma scan_miss: "\<forall>i<16. passed name (take 32 (drop (i * 32) buf)) \<Longrightarrow> scan_slots buf name [0..<BLOCK_SIZE div 32] = ScanNone"
  using scan_pass [of "[0..<16]" name buf "[]"] by (simp add: BLOCK_SIZE_def)

lemma list_update_splice: "i < length xs \<Longrightarrow> xs[i := v] = splice i [v] xs"
  by (simp add: splice_def upd_conv_take_nth_drop)

lemma does_delete_miss:
  assumes "fits vol n" "data_cluster vol n c" "well_sized vol n d" "\<forall>i<n_slots vol. passed name (chunks_exact 32 (d c) ! i)"
  shows "does vol n f d (delete_in_sectors image_device (lba_of vol c) [s..<unat (sectors_per_cluster vol)] name) False f d"
proof (induction "unat (sectors_per_cluster vol) - s" arbitrary: s)
  case 0
  then show ?case by (simp add: does_ret)
next
  case (Suc k)
  have len: "length (d c) = n_slots vol * 32" by (rule well_sized_slots [OF assms(1,3,2)])
  from Suc have s: "s < unat (sectors_per_cluster vol)" by simp
  then have "scan_slots (take 512 (drop (s * 512) (d c))) name [0..<BLOCK_SIZE div 32] = ScanNone"
    using assms(4) by (intro scan_miss allI impI, subst sector_chunk [OF len s]) (simp_all add: n_slots_def)
  moreover have "does vol n f d (delete_in_sectors image_device (lba_of vol c) [Suc s..<unat (sectors_per_cluster vol)] name) False f d"
    using Suc by simp
  ultimately show ?case
    unfolding upt_conv_Cons [OF s] delete_in_sectors.simps
    by (intro does_bindM [OF does_read_sector [OF assms(1,2) s]]) simp_all
qed

lemma does_delete_hit:
  assumes "fits vol n" "data_cluster vol n c" "well_sized vol n d" "p < n_slots vol" "named name (chunks_exact 32 (d c) ! p)"
    and "\<forall>i<p. passed name (chunks_exact 32 (d c) ! i)"
  shows "s * 16 \<le> p \<Longrightarrow>
    does vol n f d (delete_in_sectors image_device (lba_of vol c) [s..<unat (sectors_per_cluster vol)] name) True f
      (d(c := splice (p * 32) [0xE5] (d c)))"
proof (induction "unat (sectors_per_cluster vol) - s" arbitrary: s)
  case 0
  then show ?case using assms(4) by (simp add: n_slots_def)
next
  case (Suc k)
  have len: "length (d c) = n_slots vol * 32" by (rule well_sized_slots [OF assms(1,3,2)])
  from Suc have s: "s < unat (sectors_per_cluster vol)" by simp
  note rd = does_bindM [OF does_read_sector [OF assms(1,2) s, of zero_block, simplified]]
  define buf where "buf = take 512 (drop (s * 512) (d c))"
  note chunk = sector_chunk [OF len s, folded buf_def]
  show ?case
  proof (cases "s * 16 + 16 \<le> p")
    case True
    have "scan_slots buf name [0..<BLOCK_SIZE div 32] = ScanNone"
      using assms(6) True by (intro scan_miss allI impI, subst chunk) simp_all
    moreover have "does vol n f d (delete_in_sectors image_device (lba_of vol c) [Suc s..<unat (sectors_per_cluster vol)] name) True f
      (d(c := splice (p * 32) [0xE5] (d c)))" using Suc True by simp
    ultimately show ?thesis unfolding upt_conv_Cons [OF s] delete_in_sectors.simps by (intro rd) (simp add: buf_def del: fun_upd_apply)
  next
    case False
    define j where "j = p - s * 16"
    have j: "j < 16" "p = s * 16 + j" using False Suc.prems by (simp_all add: j_def)
    have sec: "s * 512 + 512 \<le> length (d c)" using sector_end [OF fitsD(1) [OF assms(1)] s] cluster_bytes_eq [OF fitsD(1) [OF assms(1)]] len
      by (simp add: n_slots_def)
    have scan: "scan_slots buf name [0..<BLOCK_SIZE div 32] = ScanAt (j * 32)"
    proof (rule scan_hit [OF j(1)])
      show "\<forall>i<j. passed name (take 32 (drop (i * 32) buf))" using assms(6) j by (auto simp: chunk)
      show "named name (take 32 (drop (j * 32) buf))" using assms(5) j by (simp add: chunk)
    qed
    have blen: "length buf = 512" using sec by (simp add: buf_def)
    then have "buf[j * 32 := 0xE5] = splice (j * 32) [0xE5] buf" using j(1) by (intro list_update_splice) simp
    then have sp: "splice (s * 512) (buf[j * 32 := 0xE5]) (d c) = splice (p * 32) [0xE5] (d c)"
      using splice_nested [OF sec, of "j * 32" "[0xE5]"] j by (simp add: buf_def add.commute mult.commute)
    from does_write_sector [OF assms(1,2) s, of "buf[j * 32 := 0xE5]" f d] scan sp blen show ?thesis
      unfolding upt_conv_Cons [OF s] delete_in_sectors.simps by (intro rd) (auto intro!: does_bindM does_ret simp: buf_def simp del: fun_upd_apply)
  qed
qed

lemma chunks_exact_mark:
  assumes "length bs = m * 32" "p < m"
  shows "chunks_exact 32 (splice (p * 32) [v] bs) = (chunks_exact 32 bs)[p := (chunks_exact 32 bs ! p)[0 := v]]"
proof -
  let ?h = "chunks_exact 32 bs ! p"
  have h: "?h = take 32 (drop (p * 32) bs)" using chunks_exact_nth [of 32 bs m p] assms by simp
  have le: "p * 32 + 32 \<le> length bs" using assms mult_le_mono1 [of "Suc p" m 32] by simp
  then have "?h[0 := v] = splice 0 [v] (take 32 (drop (p * 32) bs))" unfolding h by (intro list_update_splice) simp
  then have "splice (p * 32) [v] bs = splice (p * 32) (?h[0 := v]) bs" using splice_nested [OF le, of 0 "[v]"] by simp
  moreover have "length (?h[0 := v]) = 32" using h le by simp
  ultimately show ?thesis using chunks_exact_splice [of 32 bs m p "?h[0 := v]"] assms by simp
qed

lemma does_delete_dir_entry:
  assumes "fits vol n" "well_sized vol n d" "named name h"
  shows "chain vol n f c cs \<Longrightarrow> slots d cs = pre @ h # post \<Longrightarrow> \<forall>ch\<in>set pre. passed name ch \<Longrightarrow>
    \<exists>d'. does vol n f d (delete_dir_entry image_device vol c name) () f d'
      \<and> slots d' cs = pre @ h[0 := 0xE5] # post \<and> (\<forall>x. x \<notin> set cs \<longrightarrow> d' x = d x)"
proof (induction cs arbitrary: c pre)
  case (Cons x xs)
  then have c: "c = x" "data_cluster vol n x" "chain vol n f (f x) xs" and x: "x \<notin> set xs"
    using chain_distinct [OF assms(1) Cons.prems(1)] by auto
  let ?S = "chunks_exact 32 (d x)"
  have len: "length (d x) = n_slots vol * 32" by (rule well_sized_slots [OF assms(1,2) c(2)])
  have S: "length ?S = n_slots vol" using length_chunks_exact [OF _ len] by simp
  have app: "?S @ slots d xs = pre @ h # post" using Cons.prems(2) by simp
  show ?case
  proof (cases "length pre < n_slots vol")
    case True
    let ?d = "d(x := splice (length pre * 32) [0xE5] (d x))"
    have at: "?S ! i = (pre @ h # post) ! i" if "i < n_slots vol" for i using that S app by (metis nth_append)
    have "named name (?S ! length pre)" "\<forall>i<length pre. passed name (?S ! i)"
      using at True assms(3) Cons.prems(3) by (auto simp: nth_append)
    note hit = does_delete_hit [OF assms(1) c(2) assms(2) True this, of 0, simplified]
    have "does vol n f d (delete_dir_entry image_device vol c name) () f ?d"
      unfolding delete_dir_entry_def c(1)
      by (rule does_loop_break, unfold lba_of_cluster [OF assms(1) c(2)] bindM_ret, rule does_bindM [OF hit]) (simp add: does_ret)
    moreover have "slots ?d (x # xs) = (pre @ h # post)[length pre := h[0 := 0xE5]]"
      using chunks_exact_mark [OF len True] at [OF True] slots_cong [of xs d ?d] x S True app
      by (simp add: list_update_append1 [symmetric])
    moreover have "\<forall>y. y \<notin> set (x # xs) \<longrightarrow> ?d y = d y" by simp
    ultimately show ?thesis unfolding list_update_length by blast
  next
    case False
    then have "?S = take (n_slots vol) pre" using S app by (metis append_eq_append_conv_if append_take_drop_id not_less order.refl take_all)
    then obtain pre' where pre: "pre = ?S @ pre'" by (metis append_take_drop_id)
    then have app': "slots d xs = pre' @ h # post" using app by simp
    then have nx: "in_chain (f x)" using c(3) data_cluster_in_chain [OF assms(1)] by (cases xs) auto
    obtain d' where IH: "does vol n f d (delete_dir_entry image_device vol (f x) name) () f d'"
      "slots d' xs = pre' @ h[0 := 0xE5] # post" "\<forall>x. x \<notin> set xs \<longrightarrow> d' x = d x"
      using Cons.IH [OF c(3) app'] Cons.prems(3) pre by auto
    have "\<forall>i<n_slots vol. passed name (?S ! i)" using Cons.prems(3) pre S by (metis in_set_conv_nth Un_iff set_append)
    note miss = does_delete_miss [OF assms(1) c(2) assms(2) this, of f 0]
    have "does vol n f d (delete_dir_entry image_device vol c name) () f d'"
      using IH(1) nx unfolding delete_dir_entry_def c(1)
      by (elim does_loop_continue [rotated], unfold lba_of_cluster [OF assms(1) c(2)] bindM_ret, intro does_bindM [OF miss])
        (auto simp: in_chain_def intro!: does_bindM [OF does_next_cluster [OF assms(1) data_cluster_unat [OF c(2)]]] does_ret)
    moreover have "slots d' (x # xs) = pre @ h[0 := 0xE5] # post" using IH(2,3) x pre by simp
    ultimately show ?thesis using IH(3) by (intro exI [of _ d']) auto
  qed
qed simp

end
