(* ===== verification/FatFile.thy ===== *)
theory FatFile
  imports FatDir
begin

unbundle bit_operations_syntax

text \<open>
  Files in the root directory of a FAT volume: \<open>write_file\<close> creates or replaces a file, and a later
  \<open>read_file\<close> returns exactly the bytes written. The lemmas compose the directory, chain and
  allocation lemmas in the order of the code: look the name up, release the old file, allocate and
  fill a chain, enter the new name.
\<close>

section \<open>Directory entries\<close>

lemma to_lower_dot: "to_ascii_lowercase c = CHR ''.'' \<longleftrightarrow> c = CHR ''.''"
proof -
  have "of_char (to_ascii_lowercase c) = (46 :: nat) \<longleftrightarrow> of_char c = (46 :: nat)"
    by (auto simp: to_ascii_lowercase_def of_char_of)
  moreover have "(of_char (CHR ''.'') :: nat) = 46" by simp
  ultimately show ?thesis by (metis of_char_eq_iff)
qed

lemma to_lower_idem: "to_ascii_lowercase (to_ascii_lowercase c) = to_ascii_lowercase c"
  by (auto simp: to_ascii_lowercase_def of_char_of)

lemma lower_not_dots:
  assumes "fits_83 name"
  shows "map to_ascii_lowercase name \<noteq> ''.''" "map to_ascii_lowercase name \<noteq> ''..''"
  using assms by (auto simp: fits_83_def to_lower_dot map_eq_Cons_conv)

text \<open>The first byte of the entry of an 8.3 name is a printable ASCII character.\<close>

lemma short_entry_first:
  assumes "fits_83 name"
  shows "write_short_entry name attrs cl sz ! 0 \<noteq> 0x00" "write_short_entry name attrs cl sz ! 0 \<noteq> 0xE5"
proof -
  obtain b e where be: "split_name name = (b, e)" by fastforce
  note parts = fits_83_split [OF assms, unfolded be fst_conv snd_conv]
  have dots: "name \<noteq> ''.''" "name \<noteq> ''..''" using assms by (auto simp: fits_83_def)
  have "padded_field 8 (heapless_upper b) = map to_ascii_uppercase (as_bytes b) @ replicate (8 - length b) 0x20"
    by (rule padded_field_fits) (use parts in simp_all)
  then have "write_short_entry name attrs cl sz ! 0 = (if b = [] then 0x20 else to_ascii_uppercase (byte_of_char (hd b)))"
    using dots by (cases b) (simp_all add: write_short_entry_def be Let_def nth_append)
  moreover have "to_ascii_uppercase (byte_of_char (hd b)) \<noteq> 0x00 \<and> to_ascii_uppercase (byte_of_char (hd b)) \<noteq> 0xE5" if "b \<noteq> []"
  proof -
    have c: "name_char (hd b)" using parts(3) that by (cases b) auto
    then have "unat (to_ascii_uppercase (byte_of_char (hd b))) \<noteq> unat (0x00 :: u8)"
      "unat (to_ascii_uppercase (byte_of_char (hd b))) \<noteq> unat (0xE5 :: u8)"
      by (auto simp: unat_to_ascii_uppercase name_char_def)
    then show ?thesis by metis
  qed
  ultimately show "write_short_entry name attrs cl sz ! 0 \<noteq> 0x00" "write_short_entry name attrs cl sz ! 0 \<noteq> 0xE5" by auto
qed

text \<open>The other fields of an entry, read back at the offsets \<open>read_dir\<close> uses.\<close>

lemma short_entry_fields:
  "write_short_entry name attrs cl sz ! 11 = attrs"
  "push_bit 16 (ucast (u16_from_le_bytes (write_short_entry name attrs cl sz ! 20) (write_short_entry name attrs cl sz ! 21)))
     OR ucast (u16_from_le_bytes (write_short_entry name attrs cl sz ! 26) (write_short_entry name attrs cl sz ! 27)) = cl"
  "u32_from_le_bytes (write_short_entry name attrs cl sz ! 28) (write_short_entry name attrs cl sz ! 29)
     (write_short_entry name attrs cl sz ! 30) (write_short_entry name attrs cl sz ! 31) = sz"
proof -
  define N where "N = take 11 (write_short_entry name attrs cl sz)"
  have N: "length N = 11" "write_short_entry name attrs cl sz =
      N @ [attrs] @ replicate 8 0 @ u16_to_le_bytes (ucast (drop_bit 16 cl AND 0xFFFF)) @ replicate 4 0
        @ u16_to_le_bytes (ucast (cl AND 0xFFFF)) @ u32_to_le_bytes sz"
    by (cases "split_name name", simp add: N_def write_short_entry_def Let_def)+
  show "write_short_entry name attrs cl sz ! 11 = attrs" using N by (simp add: nth_append)
  show "push_bit 16 (ucast (u16_from_le_bytes (write_short_entry name attrs cl sz ! 20) (write_short_entry name attrs cl sz ! 21)))
     OR ucast (u16_from_le_bytes (write_short_entry name attrs cl sz ! 26) (write_short_entry name attrs cl sz ! 27)) = cl"
    using N(1) join16 [of cl] unfolding N(2) by (simp add: nth_append u16_to_le_bytes_def mask16 ucast_mask16)
  show "u32_from_le_bytes (write_short_entry name attrs cl sz ! 28) (write_short_entry name attrs cl sz ! 29)
     (write_short_entry name attrs cl sz ! 30) (write_short_entry name attrs cl sz ! 31) = sz"
    using N by (simp add: nth_append u32_to_le_bytes_def)
qed

lemma short_entry_decodes:
  assumes "fits_83 name"
  shows "decode_entry (write_short_entry name attrs cl sz) =
    \<lparr>de_name = map to_ascii_lowercase name, de_is_dir = (attrs AND ATTR_DIRECTORY \<noteq> 0), de_cluster = cl, de_size = sz\<rparr>"
  unfolding decode_entry_def short_entry_fields short_name_decode [OF assms] ..

lemma short_entry_kept:
  assumes "fits_83 name" "attrs AND ATTR_VOLUME_ID = 0"
  shows "\<not> skipped_entry (write_short_entry name attrs cl sz)"
proof -
  have "attrs AND ATTR_LONG_NAME \<noteq> ATTR_LONG_NAME"
  proof
    assume "attrs AND ATTR_LONG_NAME = ATTR_LONG_NAME"
    then have "ATTR_LONG_NAME AND ATTR_VOLUME_ID = (attrs AND ATTR_LONG_NAME) AND ATTR_VOLUME_ID" by (simp only:)
    also have "\<dots> = ATTR_LONG_NAME AND (attrs AND ATTR_VOLUME_ID)" by (simp only: ac_simps)
    finally show False using assms(2) by (simp add: attr_defs)
  qed
  with assms short_entry_first [OF assms(1)] show ?thesis by (simp add: skipped_entry_def short_entry_fields)
qed

section \<open>Looking a name up\<close>

text \<open>After \<open>enters\<close>, the lookup of a name that was not there finds the new entry.\<close>

lemma find_entered:
  assumes "fits_83 name" "attrs AND ATTR_VOLUME_ID = 0" "find_entry name (parse_dir (slots d cs)) = None"
    and "enters f d cs (write_short_entry name attrs cl sz) f' d' cs'"
  shows "find_entry name (parse_dir (slots d' cs')) =
    Some \<lparr>de_name = map to_ascii_lowercase name, de_is_dir = (attrs AND ATTR_DIRECTORY \<noteq> 0), de_cluster = cl, de_size = sz\<rparr>"
proof -
  let ?e = "write_short_entry name attrs cl sz"
  obtain pre rest post where S: "slots d cs = pre @ rest" "slots d' cs' = pre @ ?e # post" "\<forall>ch\<in>set pre. ch ! 0 \<noteq> 0"
    using entersD(1) [OF assms(4)] unfolding free_chunk_def by blast
  have "find_entry name (parse_dir pre) = None"
    using assms(3) parse_dir_append [OF S(3)] by (simp add: S(1) find_entry_def find_append split: option.splits)
  moreover have "parse_dir (?e # post) = decode_entry ?e # parse_dir post"
    using short_entry_first [OF assms(1)] short_entry_kept [OF assms(1,2)] lower_not_dots [OF assms(1)]
    by (simp add: short_name_decode [OF assms(1)])
  moreover have "eq_ignore_ascii_case (map to_ascii_lowercase name) name" by (simp add: eq_ignore_ascii_case_def to_lower_idem)
  ultimately show ?thesis
    using parse_dir_append [OF S(3)] by (simp add: S(2) find_entry_def find_append short_entry_decodes [OF assms(1)])
qed

text \<open>The entry a lookup finds is the first slot that \<open>delete_dir_entry\<close> stops at.\<close>

lemma parse_dir_no_dots: "e \<in> set (parse_dir chs) \<Longrightarrow> de_name e \<noteq> ''.'' \<and> de_name e \<noteq> ''..'' \<and> map to_ascii_lowercase (de_name e) = de_name e"
proof (induction chs)
  case (Cons ch chs)
  have "map to_ascii_lowercase (decode_short_name ch) = decode_short_name ch"
    by (simp add: decode_short_name_def Let_def to_lower_idem)
  with Cons show ?case by (auto simp: decode_entry_def split: if_splits)
qed simp

lemma find_entry_slot:
  "find_entry name (parse_dir chs) = Some old \<Longrightarrow>
    \<exists>pre h post. chs = pre @ h # post \<and> (\<forall>ch\<in>set pre. passed name ch) \<and> named name h \<and> parse_dir chs = parse_dir pre @ old # parse_dir post
      \<and> find_entry name (parse_dir pre) = None"
proof (induction chs)
  case (Cons ch chs)
  from Cons.prems have nz: "ch ! 0 \<noteq> 0" by (auto simp: find_entry_def split: if_splits)
  have old: "old \<in> set (parse_dir (ch # chs))" "eq_ignore_ascii_case (de_name old) name"
    using Cons.prems by (auto simp: find_entry_def find_Some_iff simp del: parse_dir.simps)
  note nd = parse_dir_no_dots [OF old(1)]
  have "map to_ascii_lowercase name = de_name old" using nd old(2) by (simp add: eq_ignore_ascii_case_def)
  with nd have dots: "\<not> eq_ignore_ascii_case ''.'' name" "\<not> eq_ignore_ascii_case ''..'' name"
    by (auto simp: eq_ignore_ascii_case_def to_ascii_lowercase_def)
  show ?case
  proof (cases "named name ch")
    case True
    with nz dots have "parse_dir (ch # chs) = decode_entry ch # parse_dir chs" by (auto simp: named_def)
    with True Cons.prems show ?thesis
      by (intro exI [of _ "[]"] exI [of _ ch] exI [of _ chs]) (auto simp: find_entry_def named_def decode_entry_def)
  next
    case False
    with nz have pass: "passed name ch" by (simp add: passed_def)
    have step: "parse_dir (ch # chs) = parse_dir chs \<or> parse_dir (ch # chs) = decode_entry ch # parse_dir chs \<and> \<not> eq_ignore_ascii_case (de_name (decode_entry ch)) name"
      using nz False by (auto simp: named_def decode_entry_def)
    then have "find_entry name (parse_dir chs) = Some old" using Cons.prems by (auto simp: find_entry_def)
    then obtain pre h post where IH: "chs = pre @ h # post" "\<forall>ch\<in>set pre. passed name ch" "named name h"
      "parse_dir chs = parse_dir pre @ old # parse_dir post" "find_entry name (parse_dir pre) = None" using Cons.IH by blast
    have "parse_dir (ch # chs) = parse_dir (ch # pre) @ old # parse_dir post" using nz IH(4) by simp
    moreover have "find_entry name (parse_dir (ch # pre)) = None"
      using IH(5) nz False by (auto simp: find_entry_def named_def decode_entry_def)
    ultimately show ?thesis using IH pass by (intro exI [of _ "ch # pre"] exI [of _ h] exI [of _ post]) simp
  qed
qed (simp add: find_entry_def)

text \<open>With a single entry of that name, nothing is found once it is marked deleted.\<close>

lemma find_deleted:
  assumes "fits_83 name" "find_entry name (parse_dir chs) = Some old"
    and "length (filter (\<lambda>e. eq_ignore_ascii_case (de_name e) name) (parse_dir chs)) = 1"
    and "chs = pre @ h # post" "\<forall>ch\<in>set pre. passed name ch" "parse_dir chs = parse_dir pre @ old # parse_dir post"
    "find_entry name (parse_dir pre) = None" "length h = 32"
  shows "find_entry name (parse_dir (pre @ h[0 := 0xE5] # post)) = None"
proof -
  have "eq_ignore_ascii_case (de_name old) name" using assms(2) by (auto simp: find_entry_def find_Some_iff)
  then have "filter (\<lambda>e. eq_ignore_ascii_case (de_name e) name) (parse_dir post) = []"
    using assms(3,6) by simp
  then have "find_entry name (parse_dir post) = None" by (simp add: find_entry_def find_None_iff filter_empty_conv)
  moreover have "\<forall>ch\<in>set pre. ch ! 0 \<noteq> 0" using assms(5) by (simp add: passed_def)
  moreover have "parse_dir (h[0 := 0xE5] # post) = parse_dir post" using assms(8) by (cases h) (simp_all add: skipped_entry_def)
  ultimately show ?thesis using assms(7) by (simp add: parse_dir_append find_entry_def find_append)
qed

section \<open>The stages of \<open>write_file\<close>\<close>

text \<open>
  What replacing the file \<open>name\<close> needs: if the directory has an entry for it, it is the only one, it is
  a file, and its clusters \<open>os\<close> are a chain apart from the directory's own clusters \<open>rs\<close>.
\<close>

definition replaceable :: "FatFs \<Rightarrow> nat \<Rightarrow> (u32 \<Rightarrow> u32) \<Rightarrow> DirEntry list \<Rightarrow> string \<Rightarrow> u32 list \<Rightarrow> u32 list \<Rightarrow> bool" where
  "replaceable vol n f entries name rs os \<longleftrightarrow>
     (case find_entry name entries of
        None \<Rightarrow> os = []
      | Some old \<Rightarrow> \<not> de_is_dir old
          \<and> (if de_cluster old \<ge> 2 then chain vol n f (de_cluster old) os else os = [])
          \<and> set os \<inter> set rs = {}
          \<and> length (filter (\<lambda>e. eq_ignore_ascii_case (de_name e) name) entries) = 1)"

lemma does_release:
  assumes "fits vol n" "well_sized vol n d" "fits_83 name" "chain vol n f r rs" "\<forall>x\<in>set rs. f x \<noteq> 0"
    and "replaceable vol n f (parse_dir (slots d rs)) name rs os"
  shows "\<exists>f1 d1. does vol n f d
      (case find_entry name (parse_dir (slots d rs)) of None \<Rightarrow> ret ()
       | Some old \<Rightarrow> if de_is_dir old then fail IsADir
           else bindM (free_entry_chain image_device vol old) (\<lambda>_. delete_dir_entry image_device vol r name)) () f1 d1
    \<and> chain vol n f1 r rs \<and> (\<forall>x\<in>set rs. f1 x \<noteq> 0) \<and> find_entry name (parse_dir (slots d1 rs)) = None
    \<and> free_set vol n f \<subseteq> free_set vol n f1 \<and> (\<forall>x. x \<notin> set rs \<union> set os \<longrightarrow> f1 x = f x \<and> d1 x = d x)
    \<and> (\<forall>x\<in>set os. f1 x = 0)"
proof (cases "find_entry name (parse_dir (slots d rs))")
  case None
  with assms show ?thesis by (intro exI [of _ f] exI [of _ d]) (simp add: does_ret replaceable_def)
next
  case (Some old)
  with assms(6) have old: "\<not> de_is_dir old" "if de_cluster old \<ge> 2 then chain vol n f (de_cluster old) os else os = []"
    "set os \<inter> set rs = {}" "length (filter (\<lambda>e. eq_ignore_ascii_case (de_name e) name) (parse_dir (slots d rs))) = 1"
    by (simp_all add: replaceable_def)
  let ?f = "\<lambda>x. if x \<in> set os then 0 else f x"
  have "does vol n f d (free_entry_chain image_device vol old) () ?f d"
    using old(2) does_free_chain [OF assms(1), of f "de_cluster old" os d] by (auto simp: free_entry_chain_def does_ret)
  note free = does_bindM [OF this]
  have same: "\<forall>x\<in>set rs. ?f x = f x" using old(3) by auto
  then have ch: "chain vol n ?f r rs" using chain_cong [of rs ?f f vol n r] assms(4) by blast
  obtain pre h post where S: "slots d rs = pre @ h # post" "\<forall>ch\<in>set pre. passed name ch" "named name h"
    "parse_dir (slots d rs) = parse_dir pre @ old # parse_dir post" "find_entry name (parse_dir pre) = None"
    using find_entry_slot [OF Some] by blast
  then have "h \<in> set (slots d rs)" by simp
  then have "length h = 32" by (auto simp: slots_def dest: chunks_exact_length)
  note gone = find_deleted [OF assms(3) Some old(4) S(1,2,4,5) this]
  obtain d1 where d1: "does vol n ?f d (delete_dir_entry image_device vol r name) () ?f d1"
    "slots d1 rs = pre @ h[0 := 0xE5] # post" "\<forall>x. x \<notin> set rs \<longrightarrow> d1 x = d x"
    using does_delete_dir_entry [OF assms(1,2) S(3) ch S(1,2)] by blast
  have "does vol n f d (bindM (free_entry_chain image_device vol old) (\<lambda>_. delete_dir_entry image_device vol r name)) () ?f d1"
    by (rule free) (rule d1(1))
  then show ?thesis
    using Some old(1) ch same assms(5) gone d1 by (intro exI [of _ ?f] exI [of _ d1]) (auto simp: free_set_def)
qed

definition clusters_for :: "FatFs \<Rightarrow> u8 list \<Rightarrow> nat" where
  "clusters_for vol data = (length data + cluster_bytes vol - 1) div cluster_bytes vol"

lemma clusters_for_zero:
  assumes "fits vol n"
  shows "clusters_for vol data = 0 \<longleftrightarrow> data = []"
proof -
  have "0 < cluster_bytes vol" using cluster_bytes_eq fitsD(1) [OF assms] by (simp add: vol_ok_def)
  then show ?thesis by (cases data) (simp_all add: clusters_for_def div_eq_0_iff)
qed

lemma card_free_set: "card (free_set vol n f) \<le> cap vol"
proof -
  have "card (unat ` free_set vol n f) = card (free_set vol n f)" by (simp add: card_image inj_on_def word_unat_eq_iff)
  moreover have "unat ` free_set vol n f \<subseteq> {..<cap vol}" by (auto simp: free_set_def dest: data_cluster_unat)
  ultimately show ?thesis by (metis card_lessThan card_mono finite_lessThan)
qed

lemma does_fill:
  assumes "fits vol n" "clusters_for vol data \<le> card (free_set vol n f)"
  shows "\<exists>first cs f' d'. does vol n f d
      (if data = [] then ret 0
       else let n_clusters = word_of_nat ((length data + cluster_bytes vol - 1) div cluster_bytes vol)
            in bindM (allocate_chain image_device vol n_clusters) (\<lambda>head.
               bindM (write_chain image_device vol head data) (\<lambda>_. ret head))) first f' d'
    \<and> chain vol n f' first cs \<and> set cs \<subseteq> free_set vol n f \<and> (\<forall>x\<in>set cs. f' x \<noteq> 0) \<and> (\<forall>x. x \<notin> set cs \<longrightarrow> f' x = f x \<and> d' x = d x)
    \<and> take (length data) (concat (map d' cs)) = data \<and> length cs = clusters_for vol data \<and> distinct cs"
proof (cases "data = []")
  case True
  then show ?thesis using clusters_for_zero [OF assms(1), of data]
    by (intro exI [of _ 0] exI [of _ "[]"] exI [of _ f] exI [of _ d]) (simp add: does_ret in_chain_def)
next
  case False
  let ?k = "cluster_bytes vol"
  have k: "0 < ?k" using cluster_bytes_eq fitsD(1) [OF assms(1)] by (simp add: vol_ok_def)
  let ?m = "word_of_nat (clusters_for vol data) :: u32"
  have "clusters_for vol data \<le> cap vol" using assms(2) card_free_set [of vol n f] by linarith
  then have m: "unat ?m = clusters_for vol data" using fitsD(6) [OF assms(1)] by (simp add: unat_of_nat)
  have pos: "0 < clusters_for vol data" using False clusters_for_zero [OF assms(1), of data] by simp
  obtain cs f' d' where cs: "length cs = unat ?m" "fresh vol n f d cs f' d'"
    and alloc: "does vol n f d (allocate_chain image_device vol ?m) (hd cs) f' d'"
    using does_allocate_chain [OF assms(1), of ?m f d] pos assms(2) m by auto
  from cs m pos have "cs \<noteq> []" by auto
  with cs(2) have ch: "chain vol n f' (hd cs) cs" by (simp add: fresh_def)
  let ?d = "store ?k d' cs data"
  have "length data \<le> ?k * clusters_for vol data"
    using k div_mult_mod_eq [of "length data + ?k - 1" ?k] mod_less_divisor [OF k, of "length data + ?k - 1"]
    unfolding clusters_for_def mult.commute [of ?k] by linarith
  then have "take (length data) (concat (map ?d cs)) = data" using cs m by (intro store_gives) (simp_all add: fresh_def)
  moreover have "does vol n f d (bindM (allocate_chain image_device vol ?m) (\<lambda>head. bindM (write_chain image_device vol head data) (\<lambda>_. ret head))) (hd cs) f' ?d"
    by (intro does_bindM [OF alloc] does_bindM [OF does_write_chain [OF assms(1) ch]] does_ret)
  moreover have "\<forall>x. x \<notin> set cs \<longrightarrow> f' x = f x \<and> ?d x = d x" using cs(2) by (simp add: fresh_def store_other)
  ultimately show ?thesis using False ch cs m
    by (intro exI [of _ "hd cs"] exI [of _ cs] exI [of _ f'] exI [of _ ?d]) (simp add: fresh_def Let_def clusters_for_def)
qed

lemma split_parent_root: "name \<noteq> [] \<Longrightarrow> slash \<notin> set name \<Longrightarrow> split_parent (slash # name) = Ok (''/'', name)"
proof -
  assume n: "name \<noteq> []" "slash \<notin> set name"
  then have "last (slash # name) \<noteq> slash" using last_in_set [OF n(1)] by (metis last_ConsR)
  then have "trim_end_matches slash (slash # name) = slash # name" by (intro trim_end_matches_id) simp
  then show ?thesis using n rfind_append [of slash name "[]"] by (simp add: split_parent_def Let_def)
qed

lemma does_root:
  "does vol n f d (is_dir image_device vol ''/'') True f d" "does vol n f d (cluster_for image_device vol ''/'') (root_cluster vol) f d"
  by (auto simp: is_dir_def lookup_def cluster_for_def intro!: does_attempt does_ret)

lemma does_holds: "does vol n f d m x f' d' \<Longrightarrow> holds vol n f d im \<Longrightarrow> \<exists>im'. holds vol n f' d' im'"
  by (auto simp: yields_def)

text \<open>
  \<open>stored vol n f d name data\<close>: the root directory has an entry for \<open>name\<close> and its size and cluster chain
  hold exactly \<open>data\<close>.
\<close>

definition stored :: "FatFs \<Rightarrow> nat \<Rightarrow> (u32 \<Rightarrow> u32) \<Rightarrow> (u32 \<Rightarrow> u8 list) \<Rightarrow> string \<Rightarrow> u8 list \<Rightarrow> bool" where
  "stored vol n f d name data \<longleftrightarrow> (\<exists>rs cs e. chain vol n f (root_cluster vol) rs
     \<and> find_entry name (parse_dir (slots d rs)) = Some e \<and> \<not> de_is_dir e \<and> de_size e = word_of_nat (length data)
     \<and> chain vol n f (de_cluster e) cs \<and> (data = [] \<longleftrightarrow> cs = []) \<and> take (length data) (concat (map d cs)) = data)"

lemma storedI:
  assumes "chain vol n f (root_cluster vol) rs" "find_entry name (parse_dir (slots d rs)) = Some e" "\<not> de_is_dir e"
    "de_size e = word_of_nat (length data)" "chain vol n f (de_cluster e) cs" "data = [] \<longleftrightarrow> cs = []" "take (length data) (concat (map d cs)) = data"
  shows "stored vol n f d name data"
  unfolding stored_def using assms by blast

lemma does_read_stored:
  assumes "fits vol n" "stored vol n f d name data" "length data < 2 ^ 32" "name \<noteq> []" "slash \<notin> set name"
  shows "does vol n f d (Fat.read_file image_device vol (slash # name)) data f d"
proof -
  from assms(2) obtain rs cs e where S: "chain vol n f (root_cluster vol) rs" "find_entry name (parse_dir (slots d rs)) = Some e"
    "\<not> de_is_dir e" "de_size e = word_of_nat (length data)" "chain vol n f (de_cluster e) cs" "data = [] \<longleftrightarrow> cs = []"
    "take (length data) (concat (map d cs)) = data" by (auto simp: stored_def)
  have sz: "unat (de_size e) = length data" using S(4) assms(3) by (simp add: unat_of_nat)
  have "does vol n f d (lookup_segs image_device vol 0 [name] (root_cluster vol) None) e f d"
    using S(2) by (auto intro!: does_bindM [OF does_read_dir [OF assms(1) S(1)]] does_ret)
  then have look: "does vol n f d (lookup image_device vol (slash # name)) e f d"
    using assms(4,5) by (simp add: lookup_def segments_single)
  have "does vol n f d (if de_size e = 0 \<or> de_cluster e < 2 then ret []
      else bindM (read_chain image_device vol (de_cluster e) (unat (de_size e))) (\<lambda>out. ret (take (unat (de_size e)) out))) data f d"
  proof (cases "data = []")
    case True
    then show ?thesis using S(4) by (simp add: does_ret)
  next
    case False
    then obtain c cs' where "cs = c # cs'" using S(6) by (cases cs) auto
    then have "\<not> de_cluster e < 2" using S(5) by (auto simp: data_cluster_def word_less_nat_alt)
    moreover have "de_size e \<noteq> 0" using sz False by auto
    ultimately show ?thesis using gather_take [of "length data" d "[]" cs] S(7) sz
      by (auto intro!: does_bindM [OF does_read_chain [OF assms(1) S(5)]] simp: does_ret)
  qed
  then show ?thesis unfolding read_file_def using S(3) by (intro does_bindM [OF look]) simp
qed

lemma does_write_file:
  assumes "fits vol n" "holds vol n f d im" "fits_83 name" "slash \<notin> set name" "chain vol n f (root_cluster vol) rs" "rs \<noteq> []" "\<forall>x\<in>set rs. f x \<noteq> 0"
    and "replaceable vol n f (parse_dir (slots d rs)) name rs os" "clusters_for vol data < card (free_set vol n f)"
  shows "\<exists>f' d'. does vol n f d (Fat.write_file image_device vol (slash # name) data) () f' d' \<and> stored vol n f' d' name data
    \<and> (\<forall>x. f x \<noteq> 0 \<and> x \<notin> set rs \<union> set os \<longrightarrow> f' x = f x \<and> d' x = d x)"
proof -
  have name: "name \<noteq> []" using assms(3) by (simp add: fits_83_def)
  obtain f1 d1 where st1: "does vol n f d
      (case find_entry name (parse_dir (slots d rs)) of None \<Rightarrow> ret ()
       | Some old \<Rightarrow> if de_is_dir old then fail IsADir
           else bindM (free_entry_chain image_device vol old) (\<lambda>_. delete_dir_entry image_device vol (root_cluster vol) name)) () f1 d1"
    and A: "chain vol n f1 (root_cluster vol) rs" "\<forall>x\<in>set rs. f1 x \<noteq> 0" "find_entry name (parse_dir (slots d1 rs)) = None"
    "free_set vol n f \<subseteq> free_set vol n f1" "\<forall>x. x \<notin> set rs \<union> set os \<longrightarrow> f1 x = f x \<and> d1 x = d x"
    using does_release [OF assms(1) holds_well_sized [OF assms(1,2)] assms(3,5,7,8)] by blast
  have room: "clusters_for vol data < card (free_set vol n f1)" using assms(9) card_mono [OF _ A(4)] by simp
  obtain first cs f2 d2 where st2: "does vol n f1 d1
      (if data = [] then ret 0
       else let n_clusters = word_of_nat ((length data + cluster_bytes vol - 1) div cluster_bytes vol)
            in bindM (allocate_chain image_device vol n_clusters) (\<lambda>head.
               bindM (write_chain image_device vol head data) (\<lambda>_. ret head))) first f2 d2"
    and B: "chain vol n f2 first cs" "set cs \<subseteq> free_set vol n f1" "\<forall>x\<in>set cs. f2 x \<noteq> 0" "\<forall>x. x \<notin> set cs \<longrightarrow> f2 x = f1 x \<and> d2 x = d1 x"
    "take (length data) (concat (map d2 cs)) = data" "length cs = clusters_for vol data" "distinct cs"
    using does_fill [OF assms(1) less_imp_le [OF room]] by blast
  have apart: "set cs \<inter> set rs = {}" using A(2) B(2) by (auto simp: free_set_def)
  have ch2: "chain vol n f2 (root_cluster vol) rs" using A(1) B(4) apart chain_cong [of rs f2 f1 vol] by blast
  have sl2: "slots d2 rs = slots d1 rs" using B(4) apart by (intro slots_cong) blast
  have "free_set vol n f2 = free_set vol n f1 - set cs" using B(3,4) by (auto simp: free_set_def)
  then have "card (free_set vol n f2) = card (free_set vol n f1) - length cs" using B(2,7) by (simp add: card_Diff_subset distinct_card)
  then have "free_set vol n f2 \<noteq> {}" using room B(6) by force
  moreover obtain im2 where "holds vol n f2 d2 im2" using does_holds [OF st2] does_holds [OF st1 assms(2)] by blast
  moreover have "\<forall>x\<in>set rs. f2 x \<noteq> 0" using A(2) B(4) apart by auto
  ultimately obtain f3 d3 rs3 where st3: "does vol n f2 d2 (add_dir_entry image_device vol (root_cluster vol) name 0x20 first (word_of_nat (length data))) () f3 d3"
    and C: "chain vol n f3 (root_cluster vol) rs3" "enters f2 d2 rs (write_short_entry name 0x20 first (word_of_nat (length data))) f3 d3 rs3"
    using does_add_dir_entry [OF assms(1) holds_well_sized [OF assms(1)] ch2 assms(6)] by blast
  have look: "does vol n f d (find_in_dir image_device vol (root_cluster vol) name) (find_entry name (parse_dir (slots d rs))) f d"
    unfolding find_in_dir_def by (intro does_bindM [OF does_read_dir [OF assms(1,5)]] does_ret)
  have parent: "does vol n f d (liftO (split_parent (slash # name))) (''/'', name) f d"
    by (rule does_liftO) (rule split_parent_root [OF name assms(4)])
  have run: "does vol n f d (Fat.write_file image_device vol (slash # name) data) () f3 d3"
    unfolding write_file_def
    by (rule does_bindM [OF parent], unfold prod.case, rule does_bindM [OF does_root(1)], unfold not_True_eq_False if_False,
        intro does_bindM [OF does_root(2)] does_bindM [OF look] does_bindM [OF st1] does_bindM [OF st2] st3)
  have keep: "\<forall>x. x \<notin> set rs \<and> f2 x \<noteq> 0 \<longrightarrow> f3 x = f2 x \<and> d3 x = d2 x" using C(2) by (simp add: enters_def)
  then have cs3: "\<forall>x\<in>set cs. f3 x = f2 x \<and> d3 x = d2 x" using B(3) apart by blast
  then have "map d3 cs = map d2 cs" by simp
  then have "take (length data) (concat (map d3 cs)) = data" using B(5) by (simp only:)
  moreover have "chain vol n f3 first cs" using cs3 B(1) chain_cong [of cs f3 f2 vol] by auto
  moreover have "find_entry name (parse_dir (slots d2 rs)) = None" using A(3) sl2 by simp
  moreover have "(0x20 :: u8) AND ATTR_VOLUME_ID = 0" "(0x20 :: u8) AND ATTR_DIRECTORY = 0" by (simp_all add: attr_defs)
  moreover have "data = [] \<longleftrightarrow> cs = []" using B(6) clusters_for_zero [OF assms(1), of data] by auto
  ultimately have "stored vol n f3 d3 name data"
    using find_entered [OF assms(3) _ _ C(2)] 
    by (intro storedI [OF C(1), of _ _ "\<lparr>de_name = map to_ascii_lowercase name, de_is_dir = False, de_cluster = first,
          de_size = word_of_nat (length data)\<rparr>" _ cs]) simp_all
  moreover have "f3 x = f x \<and> d3 x = d x" if "f x \<noteq> 0" "x \<notin> set rs \<union> set os" for x
  proof -
    have 1: "f1 x = f x" "d1 x = d x" using A(5) that(2) by auto
    then have "x \<notin> set cs" using B(2) that(1) by (auto simp: free_set_def)
    with 1 B(4) keep that show ?thesis by auto
  qed
  ultimately show ?thesis using run by blast
qed

lemma does_append_file:
  assumes "fits vol n" "holds vol n f d im" "fits_83 name" "slash \<notin> set name" "chain vol n f (root_cluster vol) rs" "rs \<noteq> []" "\<forall>x\<in>set rs. f x \<noteq> 0"
    and "replaceable vol n f (parse_dir (slots d rs)) name rs os" "stored vol n f d name existing"
    and "clusters_for vol (existing @ data) < card (free_set vol n f)" "length existing < 2 ^ 32"
  shows "\<exists>f' d'. does vol n f d (Fat.append_file image_device vol (slash # name) data) () f' d' \<and> stored vol n f' d' name (existing @ data)
    \<and> (\<forall>x. f x \<noteq> 0 \<and> x \<notin> set rs \<union> set os \<longrightarrow> f' x = f x \<and> d' x = d x)"
proof -
  have name: "name \<noteq> []" using assms(3) by (simp add: fits_83_def)
  obtain f' d' where w: "does vol n f d (Fat.write_file image_device vol (slash # name) (existing @ data)) () f' d'"
    "stored vol n f' d' name (existing @ data)" "\<forall>x. f x \<noteq> 0 \<and> x \<notin> set rs \<union> set os \<longrightarrow> f' x = f x \<and> d' x = d x"
    using does_write_file [OF assms(1-8,10)] by blast
  have "does vol n f d (Fat.append_file image_device vol (slash # name) data) () f' d'"
    unfolding append_file_def by (rule does_attempt [OF does_read_stored [OF assms(1,9,11) name assms(4)]]) (simp add: w(1))
  with w show ?thesis by blast
qed

lemma does_remove:
  assumes "fits vol n" "holds vol n f d im" "fits_83 name" "slash \<notin> set name" "chain vol n f (root_cluster vol) rs" "\<forall>x\<in>set rs. f x \<noteq> 0"
    and "replaceable vol n f (parse_dir (slots d rs)) name rs os" "find_entry name (parse_dir (slots d rs)) = Some old"
  shows "\<exists>f' d'. does vol n f d (Fat.remove image_device vol (slash # name)) () f' d'
    \<and> chain vol n f' (root_cluster vol) rs \<and> find_entry name (parse_dir (slots d' rs)) = None \<and> (\<forall>x\<in>set os. f' x = 0)
    \<and> (\<forall>x. x \<notin> set rs \<union> set os \<longrightarrow> f' x = f x \<and> d' x = d x)"
proof -
  have name: "name \<noteq> []" using assms(3) by (simp add: fits_83_def)
  have isfile: "\<not> de_is_dir old" using assms(7,8) by (simp add: replaceable_def)
  obtain f1 d1 where st: "does vol n f d (bindM (free_entry_chain image_device vol old) (\<lambda>_. delete_dir_entry image_device vol (root_cluster vol) name)) () f1 d1"
    and A: "chain vol n f1 (root_cluster vol) rs" "find_entry name (parse_dir (slots d1 rs)) = None"
    "\<forall>x. x \<notin> set rs \<union> set os \<longrightarrow> f1 x = f x \<and> d1 x = d x" "\<forall>x\<in>set os. f1 x = 0"
    using does_release [OF assms(1) holds_well_sized [OF assms(1,2)] assms(3,5,6,7)] assms(8) isfile by auto
  have look: "does vol n f d (find_in_dir image_device vol (root_cluster vol) name) (Some old) f d"
    unfolding find_in_dir_def using assms(8) by (auto intro!: does_bindM [OF does_read_dir [OF assms(1,5)]] does_ret)
  have parent: "does vol n f d (liftO (split_parent (slash # name))) (''/'', name) f d"
    by (rule does_liftO) (rule split_parent_root [OF name assms(4)])
  have "does vol n f d (Fat.remove image_device vol (slash # name)) () f1 d1"
    unfolding remove_def
    by (rule does_bindM [OF parent], unfold prod.case, rule does_bindM [OF does_root(2)], rule does_bindM [OF look])
      (use st isfile in simp)
  with A show ?thesis by blast
qed

lemma read_missing:
  assumes "fits vol n" "holds vol n f d im" "name \<noteq> []" "slash \<notin> set name" "chain vol n f (root_cluster vol) rs"
    "find_entry name (parse_dir (slots d rs)) = None"
  shows "\<exists>im'. Fat.read_file image_device vol (slash # name) im = Some (Err NotFound, im') \<and> holds vol n f d im'"
proof -
  obtain im' where rd: "read_dir image_device vol (root_cluster vol) im = Some (Ok (parse_dir (slots d rs)), im')" "holds vol n f d im'"
    using yieldsD [OF does_read_dir [OF assms(1,5)] assms(2)] by blast
  have "lookup image_device vol (slash # name) im = Some (Err NotFound, im')"
    using assms(3,4,6) rd(1) by (simp add: lookup_def segments_single bindM_Ok fail_run)
  then have "Fat.read_file image_device vol (slash # name) im = Some (Err NotFound, im')"
    unfolding read_file_def by (rule bindM_Err)
  with rd(2) show ?thesis by blast
qed

section \<open>On any block device\<close>

text \<open>The driver on a device behaves as on the device's image.\<close>

lemma does_on_device:
  assumes "refines (device_rel dev ok blk) m m'" "ok s" "holds vol n f d (device_image dev blk s)" "does vol n f d m x f' d'"
  shows "\<exists>s'. m' s = Some (Ok x, s') \<and> ok s' \<and> holds vol n f' d' (device_image dev blk s')"
proof -
  obtain im' where "m (device_image dev blk s) = Some (Ok x, im')" "holds vol n f' d' im'" using yieldsD [OF assms(4,3)] by blast
  with refinesD [OF assms(1), of s "device_image dev blk s"] assms(2) show ?thesis by (fastforce simp: device_rel_def)
qed

text \<open>
  What is written to a file of the root directory is what a later read returns. On any block
  device that holds a well-formed FAT volume with enough free clusters, \<open>write_file\<close> of an 8.3 name
  returns (whether it creates the file, replaces an old one, reuses a deleted slot or has to extend the
  directory), \<open>read_file\<close> then returns exactly the written bytes, the volume is still well-formed, and no allocated
  cluster outside the directory and the replaced file has changed its link or its contents.
\<close>

theorem fat_write_read:
  assumes "block_device dev ok blk" "ok s" "fits vol n" "holds vol n f d (device_image dev blk s)"
    and "fits_83 name" "slash \<notin> set name" "length data < 2 ^ 32"
    and "chain vol n f (root_cluster vol) rs" "rs \<noteq> []" "\<forall>x\<in>set rs. f x \<noteq> 0"
    and "replaceable vol n f (parse_dir (slots d rs)) name rs os" "clusters_for vol data < card (free_set vol n f)"
  shows "\<exists>s1 s2 f' d'. Fat.write_file dev vol (slash # name) data s = Some (Ok (), s1)
    \<and> Fat.read_file dev vol (slash # name) s1 = Some (Ok data, s2)
    \<and> ok s2 \<and> holds vol n f' d' (device_image dev blk s2)
    \<and> (\<forall>x. f x \<noteq> 0 \<and> x \<notin> set rs \<union> set os \<longrightarrow> f' x = f x \<and> d' x = d x)"
proof -
  have name: "name \<noteq> []" using assms(5) by (simp add: fits_83_def)
  obtain f' d' where w: "does vol n f d (Fat.write_file image_device vol (slash # name) data) () f' d'" "stored vol n f' d' name data"
    "\<forall>x. f x \<noteq> 0 \<and> x \<notin> set rs \<union> set os \<longrightarrow> f' x = f x \<and> d' x = d x"
    using does_write_file [OF assms(3,4,5,6,8,9,10,11,12)] by blast
  obtain s1 where s1: "Fat.write_file dev vol (slash # name) data s = Some (Ok (), s1)" "ok s1" "holds vol n f' d' (device_image dev blk s1)"
    using does_on_device [OF block_device.refines_write_file [OF assms(1)] assms(2,4) w(1)] by blast
  obtain s2 where "Fat.read_file dev vol (slash # name) s1 = Some (Ok data, s2)" "ok s2" "holds vol n f' d' (device_image dev blk s2)"
    using does_on_device [OF block_device.refines_read_file [OF assms(1)] s1(2,3) does_read_stored [OF assms(3) w(2) assms(7) name assms(6)]] by blast
  with s1 w(3) show ?thesis by blast
qed

text \<open>
  Appending to a file of the root directory concatenates: if the file holds \<open>existing\<close>, then after
  \<open>append_file\<close> with \<open>data\<close> a read returns \<open>existing\<close> followed by \<open>data\<close>, and no allocated cluster outside
  the directory and the file has changed.
\<close>

theorem fat_append_read:
  assumes "block_device dev ok blk" "ok s" "fits vol n" "holds vol n f d (device_image dev blk s)"
    and "fits_83 name" "slash \<notin> set name" "length (existing @ data) < 2 ^ 32"
    and "chain vol n f (root_cluster vol) rs" "rs \<noteq> []" "\<forall>x\<in>set rs. f x \<noteq> 0"
    and "replaceable vol n f (parse_dir (slots d rs)) name rs os" "stored vol n f d name existing"
    and "clusters_for vol (existing @ data) < card (free_set vol n f)"
  shows "\<exists>s1 s2 f' d'. Fat.append_file dev vol (slash # name) data s = Some (Ok (), s1)
    \<and> Fat.read_file dev vol (slash # name) s1 = Some (Ok (existing @ data), s2)
    \<and> ok s2 \<and> holds vol n f' d' (device_image dev blk s2)
    \<and> (\<forall>x. f x \<noteq> 0 \<and> x \<notin> set rs \<union> set os \<longrightarrow> f' x = f x \<and> d' x = d x)"
proof -
  have name: "name \<noteq> []" "length existing < 2 ^ 32" using assms(5,7) by (simp_all add: fits_83_def)
  obtain f' d' where w: "does vol n f d (Fat.append_file image_device vol (slash # name) data) () f' d'" "stored vol n f' d' name (existing @ data)"
    "\<forall>x. f x \<noteq> 0 \<and> x \<notin> set rs \<union> set os \<longrightarrow> f' x = f x \<and> d' x = d x"
    using does_append_file [OF assms(3,4,5,6,8,9,10,11,12,13) name(2)] by blast
  obtain s1 where s1: "Fat.append_file dev vol (slash # name) data s = Some (Ok (), s1)" "ok s1" "holds vol n f' d' (device_image dev blk s1)"
    using does_on_device [OF block_device.refines_append_file [OF assms(1)] assms(2,4) w(1)] by blast
  obtain s2 where "Fat.read_file dev vol (slash # name) s1 = Some (Ok (existing @ data), s2)" "ok s2" "holds vol n f' d' (device_image dev blk s2)"
    using does_on_device [OF block_device.refines_read_file [OF assms(1)] s1(2,3) does_read_stored [OF assms(3) w(2) assms(7) name(1) assms(6)]] by blast
  with s1 w(3) show ?thesis by blast
qed

text \<open>
  Removing a file of the root directory takes its name out of the directory and gives its
  clusters back: a later read reports \<open>NotFound\<close>, every cluster of the file is marked free, and all
  other clusters outside the directory keep their links and contents.
\<close>

theorem fat_remove_frees:
  assumes "block_device dev ok blk" "ok s" "fits vol n" "holds vol n f d (device_image dev blk s)"
    and "fits_83 name" "slash \<notin> set name" "chain vol n f (root_cluster vol) rs" "\<forall>x\<in>set rs. f x \<noteq> 0"
    and "replaceable vol n f (parse_dir (slots d rs)) name rs os" "find_entry name (parse_dir (slots d rs)) \<noteq> None"
  shows "\<exists>s1 s2 f' d'. Fat.remove dev vol (slash # name) s = Some (Ok (), s1)
    \<and> Fat.read_file dev vol (slash # name) s1 = Some (Err NotFound, s2)
    \<and> ok s2 \<and> holds vol n f' d' (device_image dev blk s2) \<and> (\<forall>x\<in>set os. f' x = 0)
    \<and> (\<forall>x. x \<notin> set rs \<union> set os \<longrightarrow> f' x = f x \<and> d' x = d x)"
proof -
  have name: "name \<noteq> []" using assms(5) by (simp add: fits_83_def)
  obtain f' d' where w: "does vol n f d (Fat.remove image_device vol (slash # name)) () f' d'" "chain vol n f' (root_cluster vol) rs"
    "find_entry name (parse_dir (slots d' rs)) = None" "\<forall>x\<in>set os. f' x = 0" "\<forall>x. x \<notin> set rs \<union> set os \<longrightarrow> f' x = f x \<and> d' x = d x"
    using does_remove [OF assms(3-9)] assms(10) by blast
  obtain s1 where s1: "Fat.remove dev vol (slash # name) s = Some (Ok (), s1)" "ok s1" "holds vol n f' d' (device_image dev blk s1)"
    using does_on_device [OF block_device.refines_remove [OF assms(1)] assms(2,4) w(1)] by blast
  obtain im where "Fat.read_file image_device vol (slash # name) (device_image dev blk s1) = Some (Err NotFound, im)" "holds vol n f' d' im"
    using read_missing [OF assms(3) s1(3) name assms(6) w(2,3)] by blast
  with refinesD [OF block_device.refines_read_file [OF assms(1)], of s1 "device_image dev blk s1"] s1(2)
  obtain s2 where "Fat.read_file dev vol (slash # name) s1 = Some (Err NotFound, s2)" "ok s2" "holds vol n f' d' (device_image dev blk s2)"
    by (fastforce simp: device_rel_def)
  with s1 w(4,5) show ?thesis by blast
qed

section \<open>A concrete volume\<close>

text \<open>
  127 blocks: the boot block, one table of 128 entries in block 2 and the one-block clusters 2 to 125 from block 3 on; the last two
  entries of the table have no cluster and are marked as used. The root directory is
  cluster 2; its only entry is \<open>old.txt\<close> with the five bytes of \<open>hello\<close> in cluster 3.
\<close>

definition sample_vol :: FatFs where
  "sample_vol = \<lparr>bytes_per_sector = 512, sectors_per_cluster = 1, reserved_sectors = 2, num_fats = 1, sectors_per_fat = 1,
     root_cluster = 2, fat_start_lba = 2, data_start_lba = 3\<rparr>"

definition sample_image :: image where
  "sample_image = (replicate 127 zero_block)
     [0 := splice 0x24 [1, 0, 0, 0, 0, 0, 0, 0, 2] (splice 0x0B [0x00, 0x02, 1, 2, 0, 1] zero_block),
      2 := splice 504 [0xFF, 0xFF, 0xFF, 0x0F, 0xFF, 0xFF, 0xFF, 0x0F] (splice 8 [0xFF, 0xFF, 0xFF, 0x0F, 0xFF, 0xFF, 0xFF, 0x0F] zero_block),
      3 := splice 0 (write_short_entry ''old.txt'' 0x20 3 5) zero_block,
      4 := splice 0 [104, 101, 108, 108, 111] zero_block]"

lemma sample_lim: "lim sample_vol 127 = 126" "cap sample_vol = 128"
  by (simp_all add: lim_def cap_def sample_vol_def)

lemma sample_fits: "fits sample_vol 127"
  unfolding fits_def sample_lim by (simp add: vol_ok_def sample_vol_def)

lemma sample_blocks: "length sample_image = 127" "b < 127 \<Longrightarrow> length (sample_image ! b) = 512"
  by (simp_all add: sample_image_def nth_list_update)

lemma sample_device: "image_ok sample_image" "device_image image_device image_blk sample_image = sample_image"
proof -
  show "image_ok sample_image"
    using sample_blocks by (auto simp: image_ok_def list_all_length BLOCK_SIZE_def)
  show "device_image image_device image_blk sample_image = sample_image"
    by (rule nth_equalityI) (simp_all add: device_image_def image_device_def image_blk_def sample_blocks)
qed

abbreviation sample_links :: "u32 \<Rightarrow> u32" where
  "sample_links \<equiv> fat_copy sample_vol 0 sample_image"

abbreviation sample_data :: "u32 \<Rightarrow> u8 list" where
  "sample_data \<equiv> cluster_data sample_vol sample_image"

lemma sample_boot: "boot_block sample_vol (sample_image ! 0)"
  by code_simp

lemma sample_surplus: "sample_links 126 = 0x0FFFFFFF" "sample_links 127 = 0x0FFFFFFF"
  by code_simp+

lemma sample_holds: "holds sample_vol 127 sample_links sample_data sample_image"
proof -
  have "c = 126 \<or> c = 127" if "126 \<le> unat c" "unat c < 128" for c :: u32
  proof -
    have "unat c = unat (126 :: u32) \<or> unat c = unat (127 :: u32)" using that by simp linarith
    then show ?thesis unfolding word_unat_eq_iff .
  qed
  then have "sample_links c \<noteq> 0" if "126 \<le> unat c \<and> unat c < 128" for c using that sample_surplus by fastforce
  then show ?thesis using sample_blocks sample_boot unfolding holds_def sample_lim by (auto simp: sample_vol_def)
qed

lemma sample_facts:
  "sample_links 2 = 0x0FFFFFFF" "sample_links 3 = 0x0FFFFFFF" "sample_links 4 = 0" "sample_links 5 = 0"
  "parse_dir (slots sample_data [2]) = [\<lparr>de_name = ''old.txt'', de_is_dir = False, de_cluster = 3, de_size = 5\<rparr>]"
  "take 5 (sample_data 3) = [104, 101, 108, 108, 111]" "fits_83 ''old.txt''"
  by code_simp+

lemma sample_root: "root_cluster sample_vol = 2"
  by (simp add: sample_vol_def)

lemma sample_chains: "chain sample_vol 127 sample_links 2 [2]" "chain sample_vol 127 sample_links 3 [3]"
  using sample_facts(1,2) eoc_link(2) by (simp_all add: data_cluster_def sample_lim)

lemma sample_replaceable: "replaceable sample_vol 127 sample_links (parse_dir (slots sample_data [2])) ''old.txt'' [2] [3]"
  unfolding sample_facts(5) using sample_chains(2)
  by (simp add: replaceable_def find_entry_def eq_ignore_ascii_case_def)

lemma sample_entry:
  "find_entry ''old.txt'' (parse_dir (slots sample_data [2])) = Some \<lparr>de_name = ''old.txt'', de_is_dir = False, de_cluster = 3, de_size = 5\<rparr>"
  unfolding sample_facts(5) by (simp add: find_entry_def eq_ignore_ascii_case_def)

lemma sample_stored: "stored sample_vol 127 sample_links sample_data ''old.txt'' [104, 101, 108, 108, 111]"
  by (rule storedI [OF _ sample_entry, of _ _ _ _ "[3]"]) (use sample_chains sample_facts(6) in \<open>simp_all add: sample_root eval_nat_numeral\<close>)

lemma sample_room:
  assumes "length data \<le> 512"
  shows "clusters_for sample_vol data < card (free_set sample_vol 127 sample_links)"
proof -
  have "{4, 5} \<subseteq> free_set sample_vol 127 sample_links"
    using sample_facts(3,4) by (simp add: free_set_def data_cluster_def sample_lim)
  then have "card {4, 5 :: u32} \<le> card (free_set sample_vol 127 sample_links)" by (intro card_mono) simp_all
  moreover have "clusters_for sample_vol data < 2" using assms by (simp add: clusters_for_def cluster_bytes_def sample_vol_def div_less_iff_less_mult)
  ultimately show ?thesis by simp
qed

lemma sample_held: "holds sample_vol 127 sample_links sample_data (device_image image_device image_blk sample_image)"
  unfolding sample_device(2) by (rule sample_holds)

lemmas sample_volume = img.block_device_axioms sample_device(1) sample_fits sample_held

theorem fat_addresses_exact_witness:
  "\<exists>im. write_cluster image_device sample_vol 3 (replicate 512 7) sample_image = Some (Ok (), im)
    \<and> im ! 4 = replicate 512 7 \<and> im ! 3 = sample_image ! 3
    \<and> next_cluster image_device sample_vol 3 sample_image = Some (Ok 0x0FFFFFFF, sample_image)"
proof -
  have dc: "data_cluster sample_vol 127 3" "length (replicate 512 (7 :: u8)) = cluster_bytes sample_vol" "\<forall>b<127. length (sample_image ! b) = 512"
    using sample_blocks(2) by (simp_all add: data_cluster_def sample_lim, simp add: cluster_bytes_def sample_vol_def)
  have "word_at (sample_image ! 2) 12 AND CLUSTER_MASK = 0x0FFFFFFF" by code_simp
  then show ?thesis
    using fat_addresses_exact [OF sample_fits sample_blocks(1) dc(3,1,2) refl refl refl] by (fastforce simp: sample_vol_def)
qed

theorem free_cluster_lowest_witness: "\<exists>c. find_free_cluster image_device sample_vol sample_image = Some (Ok c, sample_image)"
  using free_cluster_lowest [OF sample_fits sample_holds] sample_facts(3)
  by (auto simp: data_cluster_def sample_lim)

theorem fat_write_read_witness:
  "\<exists>s1 s2. Fat.write_file image_device sample_vol ''/old.txt'' [1, 2, 3] sample_image = Some (Ok (), s1)
    \<and> Fat.read_file image_device sample_vol ''/old.txt'' s1 = Some (Ok [1, 2, 3], s2)"
  using fat_write_read [OF sample_volume sample_facts(7), of "[1, 2, 3]" "[2]" "[3]"] sample_chains(1) sample_replaceable
    sample_facts(1) sample_room [of "[1, 2, 3]"] by (auto simp: sample_root sample_device(2))

theorem fat_append_read_witness:
  "\<exists>s1 s2. Fat.append_file image_device sample_vol ''/old.txt'' [33] sample_image = Some (Ok (), s1)
    \<and> Fat.read_file image_device sample_vol ''/old.txt'' s1 = Some (Ok [104, 101, 108, 108, 111, 33], s2)"
  using fat_append_read [OF sample_volume sample_facts(7), of "[104, 101, 108, 108, 111]" "[33]" "[2]" "[3]"] sample_chains(1) sample_replaceable
    sample_facts(1) sample_stored sample_room [of "[104, 101, 108, 108, 111, 33]"] by (auto simp: sample_root sample_device(2))

theorem fat_remove_frees_witness:
  "\<exists>s1 s2. Fat.remove image_device sample_vol ''/old.txt'' sample_image = Some (Ok (), s1)
    \<and> Fat.read_file image_device sample_vol ''/old.txt'' s1 = Some (Err NotFound, s2)"
  using fat_remove_frees [OF sample_volume sample_facts(7), of "[2]" "[3]"] sample_chains(1) sample_replaceable
    sample_facts(1) sample_entry by (auto simp: sample_root sample_device(2))

end
