(* ===== verification/FatTree.thy ===== *)
theory FatTree
  imports FatFile FsSpec
begin

unbundle bit_operations_syntax

text \<open>
  The directory tree of a FAT volume. A ghost table \<open>T\<close> maps case-folded paths to objects: a directory
  with its clusters, or a file with its clusters and bytes. \<open>tree_ok\<close> says that the contents \<open>(f, d)\<close> of
  the disk are such a tree: every directory lists exactly its children, every entry leads to the chain of its
  object, names are unique, no cluster belongs to two objects or is free, and
  the slots after an end mark are unused. Seen as the map of \<open>FsSpec\<close>, the tree is what the methods of
  \<^verbatim>\<open>kernel/src/fs/fat.rs\<close> read and update, and every method keeps \<open>tree_ok\<close>, also when the volume is full.
\<close>

section \<open>Trees\<close>

datatype obj = FileO "u32 list" "u8 list" | DirO "u32 list"

fun obj_clusters :: "obj \<Rightarrow> u32 list" where
  "obj_clusters (FileO cs bs) = cs"
| "obj_clusters (DirO cs) = cs"

fun obj_entry :: "obj \<Rightarrow> entry" where
  "obj_entry (FileO cs bs) = FileE bs"
| "obj_entry (DirO cs) = DirE"

type_synonym tree = "string list \<rightharpoonup> obj"

definition tree_view :: "tree \<Rightarrow> fs_map" where
  "tree_view T p = map_option obj_entry (T p)"

text \<open>Names are compared without regard to ASCII case; the table holds them folded.\<close>

definition fold_case :: "string \<Rightarrow> string" where
  "fold_case s = map to_ascii_lowercase s"

definition keys :: "string \<Rightarrow> string list" where
  "keys path = map fold_case (segments path)"

text \<open>A directory entry that leads to an object.\<close>

fun entry_ok :: "FatFs \<Rightarrow> nat \<Rightarrow> (u32 \<Rightarrow> u32) \<Rightarrow> (u32 \<Rightarrow> u8 list) \<Rightarrow> DirEntry \<Rightarrow> obj \<Rightarrow> bool" where
  "entry_ok vol n f d e (FileO cs bs) \<longleftrightarrow> \<not> de_is_dir e \<and> length bs < 2 ^ 32 \<and> de_size e = word_of_nat (length bs)
     \<and> chain vol n f (de_cluster e) cs \<and> take (length bs) (concat (map d cs)) = bs"
| "entry_ok vol n f d e (DirO cs) \<longleftrightarrow> de_is_dir e \<and> cs \<noteq> [] \<and> chain vol n f (de_cluster e) cs"

definition tidy :: "u8 list list \<Rightarrow> bool" where
  "tidy chs \<longleftrightarrow> list_all (\<lambda>ch. ch ! 0 = 0) (dropWhile (\<lambda>ch. ch ! 0 \<noteq> 0) chs)"

text \<open>The directory on the clusters \<open>cs\<close> lists exactly the children \<open>C\<close>.\<close>

definition dir_ok :: "FatFs \<Rightarrow> nat \<Rightarrow> (u32 \<Rightarrow> u32) \<Rightarrow> (u32 \<Rightarrow> u8 list) \<Rightarrow> (string \<rightharpoonup> obj) \<Rightarrow> u32 list \<Rightarrow> bool" where
  "dir_ok vol n f d C cs \<longleftrightarrow> tidy (slots d cs)
     \<and> distinct (map de_name (parse_dir (slots d cs)))
     \<and> (\<forall>e\<in>set (parse_dir (slots d cs)). \<exists>ob. C (de_name e) = Some ob \<and> entry_ok vol n f d e ob)
     \<and> (\<forall>k. C k \<noteq> None \<longrightarrow> k \<in> de_name ` set (parse_dir (slots d cs)))"

definition tree_ok :: "FatFs \<Rightarrow> nat \<Rightarrow> (u32 \<Rightarrow> u32) \<Rightarrow> (u32 \<Rightarrow> u8 list) \<Rightarrow> tree \<Rightarrow> bool" where
  "tree_ok vol n f d T \<longleftrightarrow>
     (\<exists>rs. T [] = Some (DirO rs) \<and> rs \<noteq> [] \<and> chain vol n f (root_cluster vol) rs)
     \<and> (\<forall>p cs. T p = Some (DirO cs) \<longrightarrow> dir_ok vol n f d (\<lambda>k. T (p @ [k])) cs)
     \<and> (\<forall>p k. T (p @ [k]) \<noteq> None \<longrightarrow> (\<exists>cs. T p = Some (DirO cs)))
     \<and> (\<forall>p ob x. T p = Some ob \<and> x \<in> set (obj_clusters ob) \<longrightarrow> f x \<noteq> 0)
     \<and> (\<forall>p q a b. T p = Some a \<and> T q = Some b \<and> p \<noteq> q \<longrightarrow> set (obj_clusters a) \<inter> set (obj_clusters b) = {})"

lemma tree_okD:
  assumes "tree_ok vol n f d T"
  shows "\<exists>rs. T [] = Some (DirO rs) \<and> rs \<noteq> [] \<and> chain vol n f (root_cluster vol) rs"
    "T p = Some (DirO cs) \<Longrightarrow> dir_ok vol n f d (\<lambda>k. T (p @ [k])) cs"
    "T (p @ [k]) = Some ob \<Longrightarrow> \<exists>cs. T p = Some (DirO cs)"
    "T p = Some ob \<Longrightarrow> x \<in> set (obj_clusters ob) \<Longrightarrow> f x \<noteq> 0"
    "T p = Some a \<Longrightarrow> T q = Some b \<Longrightarrow> p \<noteq> q \<Longrightarrow> set (obj_clusters a) \<inter> set (obj_clusters b) = {}"
  using assms unfolding tree_ok_def by blast+

lemma view_simps:
  "tree_view T p = None \<longleftrightarrow> T p = None" "tree_view T p = Some DirE \<longleftrightarrow> (\<exists>cs. T p = Some (DirO cs))"
  "tree_view T p = Some (FileE bs) \<longleftrightarrow> (\<exists>cs. T p = Some (FileO cs bs))"
proof -
  have *: "obj_entry ob = DirE \<longleftrightarrow> (\<exists>cs. ob = DirO cs)" "obj_entry ob = FileE bs \<longleftrightarrow> (\<exists>cs. ob = FileO cs bs)" for ob
    by (cases ob; auto)+
  then show "tree_view T p = None \<longleftrightarrow> T p = None" "tree_view T p = Some DirE \<longleftrightarrow> (\<exists>cs. T p = Some (DirO cs))"
    "tree_view T p = Some (FileE bs) \<longleftrightarrow> (\<exists>cs. T p = Some (FileO cs bs))" by (auto simp: tree_view_def)
qed

lemma file_has_no_child:
  assumes "tree_ok vol n f d T"
  shows "T p = None \<or> T p = Some (FileO cs bs) \<Longrightarrow> q \<noteq> [] \<Longrightarrow> T (p @ q) = None"
proof (induction q rule: rev_induct)
  case (snoc k q)
  then have "T (p @ q) = None \<or> (\<exists>cs bs. T (p @ q) = Some (FileO cs bs))" by (cases "q = []") auto
  then show ?case using tree_okD(3) [OF assms, of "p @ q" k] by (cases "T ((p @ q) @ [k])") auto
qed simp

section \<open>Names\<close>

lemma fold_case_idem [simp]: "fold_case (fold_case s) = fold_case s"
  by (simp add: fold_case_def to_lower_idem)

lemma parse_dir_folded: "e \<in> set (parse_dir chs) \<Longrightarrow> fold_case (de_name e) = de_name e"
  using parse_dir_no_dots by (simp add: fold_case_def)

lemma dir_ok_find:
  assumes "dir_ok vol n f d C cs"
  shows "C (fold_case s) = None \<Longrightarrow> find_entry s (parse_dir (slots d cs)) = None"
    "C (fold_case s) = Some ob \<Longrightarrow>
      \<exists>e. find_entry s (parse_dir (slots d cs)) = Some e \<and> de_name e = fold_case s \<and> entry_ok vol n f d e ob"
proof -
  let ?es = "parse_dir (slots d cs)"
  note D = assms [unfolded dir_ok_def]
  have match: "eq_ignore_ascii_case (de_name e) s \<longleftrightarrow> de_name e = fold_case s" if "e \<in> set ?es" for e
    using parse_dir_folded [OF that] by (simp add: eq_ignore_ascii_case_def fold_case_def)
  show "find_entry s ?es = None" if "C (fold_case s) = None"
    using that D match by (force simp: find_entry_def find_None_iff)
  assume C: "C (fold_case s) = Some ob"
  then obtain e0 where e0: "e0 \<in> set ?es" "de_name e0 = fold_case s" using D by fastforce
  then obtain e where e: "find_entry s ?es = Some e"
    using match by (cases "find_entry s ?es") (auto simp: find_entry_def find_None_iff)
  then have "e \<in> set ?es" "eq_ignore_ascii_case (de_name e) s" by (auto simp: find_entry_def find_Some_iff)
  then have "e \<in> set ?es" "de_name e = fold_case s" using match by auto
  moreover from this obtain ob' where "C (de_name e) = Some ob'" "entry_ok vol n f d e ob'" using D by blast
  ultimately show "\<exists>e. find_entry s ?es = Some e \<and> de_name e = fold_case s \<and> entry_ok vol n f d e ob" using e C by auto
qed

section \<open>Looking a path up\<close>

definition found :: "FatFs \<Rightarrow> nat \<Rightarrow> (u32 \<Rightarrow> u32) \<Rightarrow> (u32 \<Rightarrow> u8 list) \<Rightarrow> tree \<Rightarrow> string list \<Rightarrow> FsError \<Rightarrow> (FsError, DirEntry) outcome \<Rightarrow> bool" where
  "found vol n f d T p err r \<longleftrightarrow>
     (case T p of Some ob \<Rightarrow> (\<exists>e. r = Ok e \<and> entry_ok vol n f d e ob) | None \<Rightarrow> r = Err err)"

lemma yields_lookup_segs:
  assumes "fits vol n" "tree_ok vol n f d T"
  shows "T pre = Some ob \<Longrightarrow> entry_ok vol n f d e ob \<Longrightarrow> 0 < i \<Longrightarrow>
    \<exists>r. yields vol n f d (lookup_segs image_device vol i segs c (Some e)) r f d
      \<and> found vol n f d T (pre @ map fold_case segs) (the (dir_error (tree_view T) pre (map fold_case segs))) r"
proof (induction segs arbitrary: pre ob e i c)
  case Nil
  then show ?case by (intro exI [of _ "Ok e"]) (simp add: does_ret found_def)
next
  case (Cons s segs)
  show ?case
  proof (cases ob)
    case (FileO cs bs)
    then have "T (pre @ map fold_case (s # segs)) = None" using file_has_no_child [OF assms(2), of pre cs bs] Cons.prems(1) by simp
    moreover have "tree_view T pre = Some (FileE bs)" using Cons.prems(1) FileO by (simp add: tree_view_def)
    ultimately show ?thesis using Cons.prems FileO
      by (intro exI [of _ "Err NotADir"]) (auto simp: found_def intro!: yields_bindM_Err yields_fail)
  next
    case (DirO cs)
    with Cons.prems have e: "de_is_dir e" "chain vol n f (de_cluster e) cs" and v: "tree_view T pre = Some DirE" by (auto simp: tree_view_def)
    have D: "dir_ok vol n f d (\<lambda>k. T (pre @ [k])) cs" using tree_okD(2) [OF assms(2)] Cons.prems(1) DirO by simp
    note rd = does_bindM [OF does_read_dir [OF assms(1) e(2)]]
    have step: "yields vol n f d (lookup_segs image_device vol i (s # segs) c (Some e)) r f d"
      if "yields vol n f d (case find_entry s (parse_dir (slots d cs)) of None \<Rightarrow> fail NotFound
            | Some e' \<Rightarrow> lookup_segs image_device vol (Suc i) segs (de_cluster e) (Some e')) r f d" for r
      using that e(1) Cons.prems(3) by (auto intro!: rd)
    show ?thesis
    proof (cases "T (pre @ [fold_case s])")
      case None
      then have "T (pre @ map fold_case (s # segs)) = None"
        using file_has_no_child [OF assms(2), of "pre @ [fold_case s]" undefined undefined "map fold_case segs"] by (cases segs) auto
      moreover have "dir_error (tree_view T) pre (map fold_case (s # segs)) = Some NotFound"
        using v None by (cases segs) (auto simp: tree_view_def)
      ultimately show ?thesis
        using step [of "Err NotFound"] dir_ok_find(1) [OF D None] by (intro exI [of _ "Err NotFound"]) (simp add: yields_fail found_def)
    next
      case (Some ob')
      then obtain e' where e': "find_entry s (parse_dir (slots d cs)) = Some e'" "entry_ok vol n f d e' ob'"
        using dir_ok_find(2) [OF D] by blast
      from Cons.IH [OF Some e'(2), of "Suc i" "de_cluster e"] obtain r where
        "yields vol n f d (lookup_segs image_device vol (Suc i) segs (de_cluster e) (Some e')) r f d"
        "found vol n f d T ((pre @ [fold_case s]) @ map fold_case segs)
           (the (dir_error (tree_view T) (pre @ [fold_case s]) (map fold_case segs))) r" by auto
      then show ?thesis using step [of r] e'(1) v by (intro exI [of _ r]) simp
    qed
  qed
qed

text \<open>Paths the VFS passes on: the root, or at least one segment.\<close>

definition good_path :: "string \<Rightarrow> bool" where
  "good_path path \<longleftrightarrow> path = ''/'' \<or> segments path \<noteq> []"

lemma lookup_segs_pos: "0 < i \<Longrightarrow> 0 < j \<Longrightarrow> lookup_segs dev vol i segs c (Some e) = lookup_segs dev vol j segs c (Some e)"
proof (induction segs arbitrary: i j c e)
  case (Cons s segs)
  have "lookup_segs dev vol (Suc i) segs c (Some e) = lookup_segs dev vol (Suc j) segs c (Some e)" for c e by (rule Cons.IH) simp_all
  then show ?case using Cons.prems by (simp cong: option.case_cong)
qed simp

lemma yields_lookup:
  assumes "fits vol n" "tree_ok vol n f d T" "good_path path"
  shows "\<exists>r. yields vol n f d (lookup image_device vol path) r f d
    \<and> found vol n f d T (keys path) (the (dir_error (tree_view T) [] (keys path))) r"
proof -
  obtain rs where root: "T [] = Some (DirO rs)" "rs \<noteq> []" "chain vol n f (root_cluster vol) rs" using tree_okD(1) [OF assms(2)] by blast
  let ?root = "\<lparr>de_name = ''/'', de_is_dir = True, de_cluster = root_cluster vol, de_size = 0\<rparr>"
  have e: "entry_ok vol n f d ?root (DirO rs)" using root by simp
  show ?thesis
  proof (cases "path = ''/''")
    case True
    moreover have "keys ''/'' = []" by (simp add: keys_def)
    ultimately show ?thesis using root e by (intro exI [of _ "Ok ?root"]) (simp add: lookup_def does_ret found_def)
  next
    case False
    then obtain s segs where segs: "segments path = s # segs" using assms(3) by (cases "segments path") (auto simp: good_path_def)
    then have ne: "path \<noteq> []" by auto
    have "lookup_segs image_device vol 0 (s # segs) (root_cluster vol) None
        = lookup_segs image_device vol 1 (s # segs) c (Some ?root)" for c by (simp add: lookup_segs_pos [of "Suc (Suc 0)" "Suc 0"] cong: option.case_cong)
    then have "lookup image_device vol path = lookup_segs image_device vol 1 (s # segs) 0 (Some ?root)"
      using False ne segs by (simp add: lookup_def del: lookup_segs.simps)
    then show ?thesis using yields_lookup_segs [OF assms(1,2) root(1) e, of 1 "s # segs" 0] segs by (simp add: keys_def)
  qed
qed

section \<open>Reading\<close>

definition spec_read :: "string list \<Rightarrow> fs_map \<Rightarrow> (FsError, u8 list) outcome" where
  "spec_read p v = (case v p of Some (FileE bs) \<Rightarrow> Ok bs | Some DirE \<Rightarrow> Err IsADir | None \<Rightarrow> Err (the (dir_error v [] p)))"

lemma does_read_entry:
  assumes "fits vol n" "entry_ok vol n f d e (FileO cs bs)"
  shows "does vol n f d (if de_size e = 0 \<or> de_cluster e < 2 then ret []
      else bindM (read_chain image_device vol (de_cluster e) (unat (de_size e))) (\<lambda>out. ret (take (unat (de_size e)) out))) bs f d"
proof (cases "bs = []")
  case True
  then show ?thesis using assms(2) by (simp add: does_ret)
next
  case False
  have sz: "unat (de_size e) = length bs" using assms(2) by (simp add: unat_of_nat)
  from False assms(2) obtain c cs' where "cs = c # cs'" by (cases cs) auto
  then have "\<not> de_cluster e < 2" using assms(2) by (auto simp: data_cluster_def word_less_nat_alt)
  moreover have "de_size e \<noteq> 0" using sz False by auto
  moreover have "chain vol n f (de_cluster e) cs" "take (length bs) (concat (map d cs)) = bs" using assms(2) by simp_all
  ultimately show ?thesis using gather_take [of "length bs" d "[]" cs] sz
    by (auto intro!: does_bindM [OF does_read_chain [OF assms(1)]] simp: does_ret)
qed

lemma yields_read_file:
  assumes "fits vol n" "tree_ok vol n f d T" "good_path path"
  shows "yields vol n f d (Fat.read_file image_device vol path) (spec_read (keys path) (tree_view T)) f d"
proof -
  obtain r where r: "yields vol n f d (lookup image_device vol path) r f d"
    "found vol n f d T (keys path) (the (dir_error (tree_view T) [] (keys path))) r" using yields_lookup [OF assms] by blast
  show ?thesis
  proof (cases "T (keys path)")
    case None
    with r have "yields vol n f d (lookup image_device vol path) (Err (the (dir_error (tree_view T) [] (keys path)))) f d" by (simp add: found_def)
    with None show ?thesis unfolding read_file_def by (simp add: spec_read_def tree_view_def yields_bindM_Err)
  next
    case (Some ob)
    with r obtain e where e: "does vol n f d (lookup image_device vol path) e f d" "entry_ok vol n f d e ob" by (auto simp: found_def)
    then show ?thesis unfolding read_file_def
      using Some does_read_entry [OF assms(1), of f d e]
      by (cases ob) (auto simp: spec_read_def tree_view_def intro!: does_bindM [OF e(1)] yields_fail)
  qed
qed

lemma does_is_dir:
  assumes "fits vol n" "tree_ok vol n f d T" "good_path path"
  shows "does vol n f d (Fat.is_dir image_device vol path) (tree_view T (keys path) = Some DirE) f d"
proof -
  obtain r where r: "yields vol n f d (lookup image_device vol path) r f d"
    "found vol n f d T (keys path) (the (dir_error (tree_view T) [] (keys path))) r" using yields_lookup [OF assms] by blast
  show ?thesis
  proof (cases "T (keys path)")
    case None
    with r show ?thesis unfolding is_dir_def by (auto simp: found_def view_simps intro!: yields_attempt_Err does_ret)
  next
    case (Some ob)
    with r obtain e where e: "does vol n f d (lookup image_device vol path) e f d" "entry_ok vol n f d e ob" by (auto simp: found_def)
    then have "de_is_dir e = (tree_view T (keys path) = Some DirE)" using Some by (cases ob) (simp_all add: view_simps)
    then show ?thesis unfolding is_dir_def using does_attempt [OF e(1)] by (auto intro!: does_attempt [OF e(1)] simp: does_ret)
  qed
qed

text \<open>\<open>list_dir\<close> returns the folded names of the children, each once.\<close>

lemma yields_list_dir:
  assumes "fits vol n" "tree_ok vol n f d T" "good_path path"
  shows "\<exists>r. yields vol n f d (Fat.list_dir image_device vol path) r f d
    \<and> (case tree_view T (keys path) of
         Some DirE \<Rightarrow> (\<exists>names. r = Ok names \<and> distinct names \<and> set names = {k. tree_view T (keys path @ [k]) \<noteq> None})
       | Some (FileE _) \<Rightarrow> r = Err NotADir
       | None \<Rightarrow> r = Err (the (dir_error (tree_view T) [] (keys path))))"
proof -
  obtain r where r: "yields vol n f d (lookup image_device vol path) r f d"
    "found vol n f d T (keys path) (the (dir_error (tree_view T) [] (keys path))) r" using yields_lookup [OF assms] by blast
  show ?thesis
  proof (cases "T (keys path)")
    case None
    with r show ?thesis unfolding list_dir_def
      by (intro exI [of _ "Err (the (dir_error (tree_view T) [] (keys path)))"]) (simp add: found_def tree_view_def yields_bindM_Err)
  next
    case (Some ob)
    with r obtain e where e: "does vol n f d (lookup image_device vol path) e f d" "entry_ok vol n f d e ob" by (auto simp: found_def)
    show ?thesis
    proof (cases ob)
      case (FileO cs bs)
      with e Some show ?thesis unfolding list_dir_def
        by (intro exI [of _ "Err NotADir"]) (auto simp: tree_view_def intro!: does_bindM [OF e(1)] yields_fail)
    next
      case (DirO cs)
      have D: "dir_ok vol n f d (\<lambda>k. T (keys path @ [k])) cs" using tree_okD(2) [OF assms(2)] Some DirO by simp
      have ch: "chain vol n f (if path = ''/'' then root_cluster vol else de_cluster e) cs"
        using tree_okD(1) [OF assms(2)] e(2) DirO Some by (auto simp: keys_def)
      have isdir: "\<not> \<not> de_is_dir e" using e(2) DirO by simp
      let ?names = "map de_name (parse_dir (slots d cs))"
      have "does vol n f d (Fat.list_dir image_device vol path) ?names f d"
        unfolding list_dir_def
        by (rule does_bindM [OF e(1)], unfold if_not_P [OF isdir], rule does_bindM [OF does_read_dir [OF assms(1) ch]], rule does_ret)
      moreover have "set ?names = {k. T (keys path @ [k]) \<noteq> None}" using D by (auto simp: dir_ok_def)
      moreover have "distinct ?names" using D by (simp add: dir_ok_def)
      ultimately show ?thesis using Some DirO by (intro exI [of _ "Ok ?names"]) (simp add: tree_view_def)
    qed
  qed
qed

section \<open>Framing\<close>

text \<open>What is outside the clusters of an object does not matter to it.\<close>

lemma entry_ok_frame:
  assumes "entry_ok vol n f d e ob" "\<forall>x\<in>set (obj_clusters ob). f' x = f x \<and> d' x = d x"
  shows "entry_ok vol n f' d' e ob"
proof -
  have "map d' (obj_clusters ob) = map d (obj_clusters ob)" using assms(2) by simp
  moreover have "chain vol n f' c (obj_clusters ob) = chain vol n f c (obj_clusters ob)" for c using assms(2) by (intro chain_cong) simp
  ultimately show ?thesis using assms(1) by (cases ob) (simp_all cong: map_cong)
qed

lemma entry_ok_dir_frame:
  assumes "entry_ok vol n f d e (DirO cs)" "\<forall>x\<in>set cs. f' x = f x"
  shows "entry_ok vol n f' d' e (DirO cs)"
  using assms chain_cong [of cs f' f] by simp

text \<open>A directory whose own clusters are as before, and whose children have moved consistently.\<close>

lemma dir_ok_map:
  assumes "dir_ok vol n f d C cs" "\<forall>x\<in>set cs. d' x = d x"
    and "\<And>k e ob. C k = Some ob \<Longrightarrow> entry_ok vol n f d e ob \<Longrightarrow> \<exists>ob'. C' k = Some ob' \<and> entry_ok vol n f' d' e ob'"
    and "\<And>k. C' k \<noteq> None \<Longrightarrow> C k \<noteq> None"
  shows "dir_ok vol n f' d' C' cs"
proof -
  have s: "slots d' cs = slots d cs" using assms(2) by (intro slots_cong) simp
  have "\<exists>ob. C' (de_name e) = Some ob \<and> entry_ok vol n f' d' e ob" if "e \<in> set (parse_dir (slots d cs))" for e
    using that assms(1,3) by (auto simp: dir_ok_def)
  with assms(1,4) show ?thesis unfolding dir_ok_def s by blast
qed

lemma tree_frame:
  assumes "tree_ok vol n f d T" "\<forall>x. f x \<noteq> 0 \<longrightarrow> f' x = f x \<and> d' x = d x"
  shows "tree_ok vol n f' d' T"
proof -
  note D = tree_okD [OF assms(1)]
  have keep: "f' x = f x \<and> d' x = d x" if "T p = Some ob" "x \<in> set (obj_clusters ob)" for p ob x
    using D(4) [OF that] assms(2) by blast
  obtain rs where rs: "T [] = Some (DirO rs)" "rs \<noteq> []" "chain vol n f (root_cluster vol) rs" using D(1) by blast
  then have "chain vol n f' (root_cluster vol) rs" using chain_cong [of rs f' f] keep [OF rs(1)] by simp
  moreover have "dir_ok vol n f' d' (\<lambda>k. T (p @ [k])) cs" if "T p = Some (DirO cs)" for p cs
    by (rule dir_ok_map [OF D(2) [OF that]]) (use keep [OF that] keep entry_ok_frame in \<open>auto dest!: keep\<close>)
  moreover have "f' x \<noteq> 0" if "T p = Some ob" "x \<in> set (obj_clusters ob)" for p ob x using keep [OF that] D(4) [OF that] by simp
  ultimately show ?thesis using rs D(3,5) unfolding tree_ok_def by blast
qed

section \<open>Taking a name out\<close>

lemma tidy_mark: "ch ! 0 \<noteq> 0 \<Longrightarrow> ch' ! 0 \<noteq> 0 \<Longrightarrow> tidy (pre @ ch # post) = tidy (pre @ ch' # post)"
  unfolding tidy_def by (induction pre) auto

text \<open>The entry the lookup finds is marked deleted: the directory has lost exactly this name.\<close>

lemma dir_unbind:
  assumes "dir_ok vol n f d C cs" "slots d cs = pre @ h # post" "\<forall>ch\<in>set pre. passed name ch" "named name h"
    and "parse_dir (slots d cs) = parse_dir pre @ old # parse_dir post" "length h = 32"
    and "slots d' cs = pre @ h[0 := 0xE5] # post"
    and "\<forall>k ob. k \<noteq> de_name old \<longrightarrow> C k = Some ob \<longrightarrow> (\<forall>x\<in>set (obj_clusters ob). f' x = f x \<and> d' x = d x)"
  shows "dir_ok vol n f' d' (C(de_name old := None)) cs"
proof -
  have pre: "\<forall>ch\<in>set pre. ch ! 0 \<noteq> 0" using assms(3) by (simp add: passed_def)
  have h: "h ! 0 \<noteq> 0" "h[0 := 0xE5] ! 0 = (0xE5 :: u8)" using assms(4,6) by (auto simp: named_def)
  have "parse_dir (h[0 := 0xE5] # post) = parse_dir post" using h(2) by (simp add: skipped_entry_def)
  then have p: "parse_dir (slots d' cs) = parse_dir pre @ parse_dir post" by (simp add: assms(7) parse_dir_append [OF pre])
  have "tidy (slots d' cs)" using assms(1,2,7) tidy_mark [of h "h[0 := 0xE5]" pre post] h by (simp add: dir_ok_def)
  moreover have dist: "distinct (map de_name (parse_dir pre @ parse_dir post))" "de_name old \<notin> de_name ` set (parse_dir pre @ parse_dir post)"
    using assms(1) by (auto simp: dir_ok_def assms(5))
  moreover have "\<exists>ob. (C(de_name old := None)) (de_name e) = Some ob \<and> entry_ok vol n f' d' e ob" if "e \<in> set (parse_dir pre @ parse_dir post)" for e
  proof -
    have ne: "de_name e \<noteq> de_name old" using that dist(2) by (metis image_eqI)
    have "e \<in> set (parse_dir (slots d cs))" using that by (auto simp: assms(5))
    then obtain ob where "C (de_name e) = Some ob" "entry_ok vol n f d e ob" using assms(1) by (auto simp: dir_ok_def)
    with ne assms(8) entry_ok_frame show ?thesis by (metis fun_upd_other)
  qed
  moreover have "k \<in> de_name ` set (parse_dir pre @ parse_dir post)" if "(C(de_name old := None)) k \<noteq> None" for k
    using that assms(1) by (auto simp: dir_ok_def assms(5) split: if_splits)
  ultimately show ?thesis unfolding dir_ok_def p by blast
qed

text \<open>The object at \<open>p @ [k]\<close> is gone and its clusters are free; the directory \<open>p\<close> no longer lists it.\<close>

lemma tree_unbind:
  assumes "tree_ok vol n f d T" "T p = Some (DirO cs)" "T (p @ [k]) = Some ob" "\<And>j. T ((p @ [k]) @ [j]) = None"
    and f': "f' = (\<lambda>x. if x \<in> set (obj_clusters ob) then 0 else f x)" and d': "\<forall>x. x \<notin> set cs \<longrightarrow> d' x = d x"
    and dir: "dir_ok vol n f' d' ((\<lambda>j. T (p @ [j]))(k := None)) cs"
  shows "tree_ok vol n f' d' (T(p @ [k] := None))"
proof -
  note D = tree_okD [OF assms(1)]
  have fq: "f' x = f x" if "T q = Some b" "q \<noteq> p @ [k]" "x \<in> set (obj_clusters b)" for q b x
    using D(5) [OF that(1) assms(3) that(2)] that(3) by (auto simp: f')
  have dq: "d' x = d x" if "T q = Some b" "q \<noteq> p" "x \<in> set (obj_clusters b)" for q b x
    using D(5) [OF that(1) assms(2) that(2)] that(3) d' by auto
  obtain rs where rs: "T [] = Some (DirO rs)" "rs \<noteq> []" "chain vol n f (root_cluster vol) rs" using D(1) by blast
  then have root: "chain vol n f' (root_cluster vol) rs" using chain_cong [of rs f' f] fq [OF rs(1)] by simp
  have dirs: "dir_ok vol n f' d' (\<lambda>j. (T(p @ [k] := None)) (q @ [j])) cq" if "T q = Some (DirO cq)" "q \<noteq> p @ [k]" for q cq
  proof (cases "q = p")
    case True
    have "(\<lambda>j. (T(p @ [k] := None)) (p @ [j])) = (\<lambda>j. T (p @ [j]))(k := None)" by auto
    with True that assms(2) dir show ?thesis by simp
  next
    case False
    have "\<exists>ob'. (T(p @ [k] := None)) (q @ [j]) = Some ob' \<and> entry_ok vol n f' d' e ob'"
      if "T (q @ [j]) = Some b" "entry_ok vol n f d e b" for j e b
    proof (cases "q @ [j] = p")
      case True
      then have b: "b = DirO cs" using that(1) assms(2) by simp
      have "p \<noteq> p @ [k]" by simp
      then have "\<forall>x\<in>set cs. f' x = f x" using fq [OF assms(2)] by simp
      then have "entry_ok vol n f' d' e (DirO cs)" using entry_ok_dir_frame that(2) unfolding b by blast
      with True that(1) b show ?thesis by simp
    next
      case F: False
      have ne: "q @ [j] \<noteq> p @ [k]" using False by simp
      have "entry_ok vol n f' d' e b" using fq [OF that(1) ne] dq [OF that(1) F] by (intro entry_ok_frame [OF that(2)]) blast
      with that(1) ne show ?thesis by simp
    qed
    then show ?thesis using dq [OF that(1) False] D(2) [OF that(1)] by (intro dir_ok_map [OF D(2) [OF that(1)]]) (auto split: if_splits)
  qed
  show ?thesis
    unfolding tree_ok_def
  proof (intro conjI allI impI)
    show "\<exists>rs. (T(p @ [k] := None)) [] = Some (DirO rs) \<and> rs \<noteq> [] \<and> chain vol n f' (root_cluster vol) rs" using rs root by auto
    fix q cq assume "(T(p @ [k] := None)) q = Some (DirO cq)"
    then show "dir_ok vol n f' d' (\<lambda>j. (T(p @ [k] := None)) (q @ [j])) cq" using dirs by (auto split: if_splits)
  next
    fix q j assume "(T(p @ [k] := None)) (q @ [j]) \<noteq> None"
    then have "T (q @ [j]) \<noteq> None" by (auto split: if_splits)
    moreover from this have "q \<noteq> p @ [k]" using assms(4) by auto
    ultimately show "\<exists>cs. (T(p @ [k] := None)) q = Some (DirO cs)" using D(3) by fastforce
  next
    fix q b x assume "(T(p @ [k] := None)) q = Some b \<and> x \<in> set (obj_clusters b)"
    then have "T q = Some b" "q \<noteq> p @ [k]" "x \<in> set (obj_clusters b)" by (auto split: if_splits)
    then show "f' x \<noteq> 0" using fq D(4) by metis
  next
    fix q q' a b assume "(T(p @ [k] := None)) q = Some a \<and> (T(p @ [k] := None)) q' = Some b \<and> q \<noteq> q'"
    then have "T q = Some a" "T q' = Some b" "q \<noteq> q'" by (auto split: if_splits)
    then show "set (obj_clusters a) \<inter> set (obj_clusters b) = {}" by (rule D(5))
  qed
qed

section \<open>Entering a name\<close>

lemma tidy_append: "\<forall>ch\<in>set pre. ch ! 0 \<noteq> 0 \<Longrightarrow> tidy (pre @ chs) = tidy chs"
  by (induction pre) (simp_all add: tidy_def)

lemma unused_slots: "\<forall>ch\<in>set chs. ch ! 0 = 0 \<Longrightarrow> tidy chs \<and> parse_dir chs = []"
  by (cases chs) (auto simp: tidy_def list_all_iff)

text \<open>The slots around a new entry list the entries there were, and stay tidy.\<close>

lemma enters_parse:
  assumes "enters f d cs e f' d' cs'" "tidy (slots d cs)" "e ! 0 \<noteq> 0" "\<not> skipped_entry e" "decode_short_name e \<noteq> ''.''" "decode_short_name e \<noteq> ''..''"
  shows "\<exists>as bs. parse_dir (slots d cs) = as @ bs \<and> parse_dir (slots d' cs') = as @ decode_entry e # bs \<and> tidy (slots d' cs')"
proof -
  obtain pre rest post where S: "slots d cs = pre @ rest" "slots d' cs' = pre @ e # post" "\<forall>ch\<in>set pre. \<not> free_chunk ch"
    and tail: "(\<exists>z. rest = z # post \<and> free_chunk z) \<or> rest = [] \<and> (\<forall>ch\<in>set post. ch ! 0 = 0)" using entersD(1) [OF assms(1)] by blast
  have pre: "\<forall>ch\<in>set pre. ch ! 0 \<noteq> 0" using S(3) by (simp add: free_chunk_def)
  have rest: "parse_dir rest = parse_dir post \<and> tidy post"
  proof (cases "\<forall>ch\<in>set post. ch ! 0 = 0")
    case True
    with tail unused_slots [OF True] show ?thesis by (auto simp: free_chunk_def skipped_entry_def)
  next
    case False
    then obtain z where z: "rest = z # post" "free_chunk z" using tail by blast
    have t: "tidy (z # post)" using assms(2) tidy_append [OF pre] by (simp add: S(1) z(1))
    have "z ! 0 \<noteq> 0"
    proof
      assume "z ! 0 = 0"
      then have "list_all (\<lambda>ch. ch ! 0 = 0) (z # post)" using t by (simp add: tidy_def)
      with False show False by (auto simp: list_all_iff)
    qed
    then have "z ! 0 = 0xE5" using z(2) by (simp add: free_chunk_def)
    with t z(1) show ?thesis by (simp add: tidy_def skipped_entry_def)
  qed
  have "parse_dir (e # post) = decode_entry e # parse_dir post" using assms(3-6) by simp
  moreover have "tidy (e # post)" using rest assms(3) by (simp add: tidy_def)
  ultimately show ?thesis
    using rest by (intro exI [of _ "parse_dir pre"] exI [of _ "parse_dir post"]) (simp add: S parse_dir_append [OF pre] tidy_append [OF pre])
qed

lemma dir_bind:
  assumes "dir_ok vol n f d C cs" "enters f d cs e f' d' cs'"
    and e: "e ! 0 \<noteq> 0" "\<not> skipped_entry e" "decode_short_name e \<noteq> ''.''" "decode_short_name e \<noteq> ''..''"
    and "C (de_name (decode_entry e)) = None" "entry_ok vol n f' d' (decode_entry e) ob"
    and "\<And>k b. C k = Some b \<Longrightarrow> \<forall>x\<in>set (obj_clusters b). f' x = f x \<and> d' x = d x"
  shows "dir_ok vol n f' d' (C(de_name (decode_entry e) \<mapsto> ob)) cs'"
proof -
  have "tidy (slots d cs)" using assms(1) by (simp add: dir_ok_def)
  then obtain as bs where P: "parse_dir (slots d cs) = as @ bs" "parse_dir (slots d' cs') = as @ decode_entry e # bs" "tidy (slots d' cs')"
    using enters_parse [OF assms(2) _ e] by blast
  let ?k = "de_name (decode_entry e)"
  have k: "?k \<notin> de_name ` set (as @ bs)"
  proof
    assume "?k \<in> de_name ` set (as @ bs)"
    then obtain x where x: "x \<in> set (as @ bs)" "de_name x = ?k" by (metis imageE)
    have "\<exists>b. C (de_name x) = Some b" using assms(1) x(1) by (auto simp: dir_ok_def P(1))
    with x(2) assms(7) show False by simp
  qed
  then have "distinct (map de_name (as @ decode_entry e # bs))" using assms(1) by (auto simp: dir_ok_def P(1))
  moreover have "\<exists>b. (C(?k \<mapsto> ob)) (de_name x) = Some b \<and> entry_ok vol n f' d' x b" if "x \<in> set (as @ decode_entry e # bs)" for x
  proof (cases "x \<in> set (as @ bs)")
    case True
    have "\<forall>x\<in>set (as @ bs). \<exists>b. C (de_name x) = Some b \<and> entry_ok vol n f d x b" using assms(1) by (simp add: dir_ok_def P(1))
    with True obtain b where b: "C (de_name x) = Some b" "entry_ok vol n f d x b" by blast
    have "entry_ok vol n f' d' x b" by (rule entry_ok_frame [OF b(2)]) (rule assms(9) [OF b(1)])
    moreover have "de_name x \<noteq> ?k" using True k by (metis image_eqI)
    ultimately show ?thesis using b(1) by simp
  next
    case False
    with that assms(8) show ?thesis by auto
  qed
  moreover have "j \<in> de_name ` set (as @ decode_entry e # bs)" if "(C(?k \<mapsto> ob)) j \<noteq> None" for j
    using that assms(1) by (auto simp: dir_ok_def P(1) split: if_splits)
  ultimately show ?thesis using P(3) unfolding dir_ok_def P(2) by blast
qed

text \<open>An object that belongs to no tree yet, with clusters of its own, has been entered under a new name.\<close>

definition loose :: "FatFs \<Rightarrow> nat \<Rightarrow> (u32 \<Rightarrow> u32) \<Rightarrow> (u32 \<Rightarrow> u8 list) \<Rightarrow> tree \<Rightarrow> obj \<Rightarrow> bool" where
  "loose vol n f d T ob \<longleftrightarrow> (\<forall>x\<in>set (obj_clusters ob). f x \<noteq> 0 \<and> (\<forall>q b. T q = Some b \<longrightarrow> x \<notin> set (obj_clusters b)))
     \<and> (\<forall>cs. ob = DirO cs \<longrightarrow> dir_ok vol n f d Map.empty cs)"

lemma chain_hd: "chain vol n f c cs \<Longrightarrow> cs \<noteq> [] \<Longrightarrow> c = hd cs"
  by (cases cs) simp_all

lemma tree_bind:
  assumes "tree_ok vol n f d T" "T p = Some (DirO cs)" "T (p @ [k]) = None" "enters f d cs e f' d' cs'" "chain vol n f' (hd cs) cs'" "cs' \<noteq> []"
    and e: "e ! 0 \<noteq> 0" "\<not> skipped_entry e" "decode_short_name e \<noteq> ''.''" "decode_short_name e \<noteq> ''..''" "de_name (decode_entry e) = k"
    and ob: "entry_ok vol n f d (decode_entry e) ob" "loose vol n f d T ob"
  shows "tree_ok vol n f' d' (T(p \<mapsto> DirO cs', p @ [k] \<mapsto> ob))"
proof -
  note D = tree_okD [OF assms(1)]
  let ?T = "T(p \<mapsto> DirO cs', p @ [k] \<mapsto> ob)"
  have frame: "f' x = f x \<and> d' x = d x" if "x \<notin> set cs" "f x \<noteq> 0" for x by (rule entersD(6) [OF assms(4) that])
  have cs': "x \<in> set cs \<or> f x = 0" "f' x \<noteq> 0" if "x \<in> set cs'" for x using entersD(2,3) [OF assms(4) that] by blast+
  have keep: "x \<notin> set cs \<and> f x \<noteq> 0 \<and> f' x = f x \<and> d' x = d x" if "T q = Some b" "q \<noteq> p" "x \<in> set (obj_clusters b)" for q b x
    using D(5) [OF that(1) assms(2) that(2)] D(4) [OF that(1,3)] that(3) frame by auto
  have new: "x \<notin> set cs \<and> f x \<noteq> 0 \<and> f' x = f x \<and> d' x = d x" if "x \<in> set (obj_clusters ob)" for x
  proof -
    have "f x \<noteq> 0" "x \<notin> set (obj_clusters (DirO cs))" using ob(2) that assms(2) unfolding loose_def by blast+
    with frame show ?thesis by simp
  qed
  have ob': "entry_ok vol n f' d' (decode_entry e) ob" by (rule entry_ok_frame [OF ob(1)]) (use new in blast)
  have cases_T: "q = p \<and> b = DirO cs' \<or> q = p @ [k] \<and> b = ob \<or> q \<noteq> p \<and> q \<noteq> p @ [k] \<and> T q = Some b" if "?T q = Some b" for q b
    using that by (auto split: if_splits)
  have head: "entry_ok vol n f' d' x (DirO cs')" if "entry_ok vol n f d x (DirO cs)" for x
    using that assms(5,6) chain_hd [of vol n f "de_cluster x" cs] by simp
  have root: "\<exists>rs. ?T [] = Some (DirO rs) \<and> rs \<noteq> [] \<and> chain vol n f' (root_cluster vol) rs"
  proof -
    obtain rs where rs: "T [] = Some (DirO rs)" "rs \<noteq> []" "chain vol n f (root_cluster vol) rs" using D(1) by blast
    show ?thesis
    proof (cases "p = []")
      case True
      then show ?thesis using rs assms(2,5,6) chain_hd [OF rs(3)] by auto
    next
      case False
      then have "chain vol n f' (root_cluster vol) rs" using rs(3) chain_cong [of rs f' f] keep [OF rs(1)] by simp
      with False rs show ?thesis by auto
    qed
  qed
  have other: "dir_ok vol n f' d' (\<lambda>j. ?T (q @ [j])) cq" if q: "T q = Some (DirO cq)" "q \<noteq> p" "q \<noteq> p @ [k]" for q cq
  proof (rule dir_ok_map [OF D(2) [OF q(1)]])
    show "\<forall>x\<in>set cq. d' x = d x" using keep [OF q(1,2)] by simp
    fix j x b assume b: "T (q @ [j]) = Some b" "entry_ok vol n f d x b"
    show "\<exists>b'. ?T (q @ [j]) = Some b' \<and> entry_ok vol n f' d' x b'"
    proof (cases "q @ [j] = p")
      case True
      then show ?thesis using b assms(2) head by auto
    next
      case False
      have "entry_ok vol n f' d' x b" by (rule entry_ok_frame [OF b(2)]) (use keep [OF b(1) False] in blast)
      with False q(2) b(1) show ?thesis by simp
    qed
  next
    fix j assume "?T (q @ [j]) \<noteq> None"
    then show "T (q @ [j]) \<noteq> None" using assms(2) q(2) by (auto split: if_splits)
  qed
  have here: "dir_ok vol n f' d' (\<lambda>j. ?T (p @ [j])) cs'"
  proof -
    have "(\<lambda>j. ?T (p @ [j])) = (\<lambda>j. T (p @ [j]))(k \<mapsto> ob)" by auto
    moreover have "dir_ok vol n f' d' ((\<lambda>j. T (p @ [j]))(de_name (decode_entry e) \<mapsto> ob)) cs'"
      by (rule dir_bind [OF D(2) [OF assms(2)] assms(4) e(1-4) _ ob']) (use assms(3) e(5) keep in auto)
    ultimately show ?thesis using e(5) by simp
  qed
  have fresh_dir: "dir_ok vol n f' d' (\<lambda>j. ?T ((p @ [k]) @ [j])) os" if "ob = DirO os" for os
  proof (rule dir_ok_map [where C = Map.empty])
    show "dir_ok vol n f d Map.empty os" using ob(2) that by (simp add: loose_def)
    show "\<forall>x\<in>set os. d' x = d x" using new that by simp
    have "T ((p @ [k]) @ [j]) = None" for j using D(3) assms(3) by (cases "T ((p @ [k]) @ [j])") fastforce+
    then show "?T ((p @ [k]) @ [j]) \<noteq> None \<Longrightarrow> Map.empty j \<noteq> None" for j by simp
  qed simp
  have dirs: "dir_ok vol n f' d' (\<lambda>j. ?T (q @ [j])) cq" if "?T q = Some (DirO cq)" for q cq
    using cases_T [OF that] here fresh_dir other by blast
  have closed: "\<exists>cq. ?T q = Some (DirO cq)" if "?T (q @ [j]) = Some b" for q j b
  proof (cases "q @ [j] = p @ [k]")
    case False
    then have "T (q @ [j]) \<noteq> None" using that assms(2) by (auto split: if_splits)
    then obtain cq where cq: "T q = Some (DirO cq)" using D(3) by blast
    then have "q \<noteq> p @ [k]" using assms(3) by auto
    with cq show ?thesis by auto
  qed simp
  have used: "f' x \<noteq> 0" if "?T q = Some b" "x \<in> set (obj_clusters b)" for q b x
    using cases_T [OF that(1)] that(2) cs'(2) new keep by fastforce
  have own: "x \<notin> set cs'" if "x \<notin> set cs" "f x \<noteq> 0" for x using cs'(1) that by blast
  have apart: "x \<notin> set cs'" "x \<notin> set (obj_clusters ob)" if "T q = Some b" "q \<noteq> p" "x \<in> set (obj_clusters b)" for q b x
    using keep [OF that] own ob(2) that unfolding loose_def by blast+
  have disj: "set (obj_clusters a) \<inter> set (obj_clusters b) = {}" if "?T q = Some a" "?T r = Some b" "q \<noteq> r" for q r a b
    using cases_T [OF that(1)] cases_T [OF that(2)]
  proof (elim disjE conjE)
    assume "q \<noteq> p" "q \<noteq> p @ [k]" "T q = Some a" "r \<noteq> p" "r \<noteq> p @ [k]" "T r = Some b"
    then show ?thesis using D(5) that(3) by blast
  qed (use that(3) apart new own in fastforce)+
  show ?thesis unfolding tree_ok_def using root dirs closed used disj by blast
qed

section \<open>Lost clusters\<close>

text \<open>
  \<open>tight vol n f T X\<close>: every allocated cluster belongs to an object of the tree or to \<open>X\<close>. With \<open>X\<close> empty no cluster is lost.
\<close>

definition tree_clusters :: "tree \<Rightarrow> u32 set" where
  "tree_clusters T = {c. \<exists>p ob. T p = Some ob \<and> c \<in> set (obj_clusters ob)}"

definition tight :: "FatFs \<Rightarrow> nat \<Rightarrow> (u32 \<Rightarrow> u32) \<Rightarrow> tree \<Rightarrow> u32 set \<Rightarrow> bool" where
  "tight vol n f T X \<longleftrightarrow> (\<forall>c. data_cluster vol n c \<longrightarrow> f c \<noteq> 0 \<longrightarrow> c \<in> tree_clusters T \<union> X)"

lemma tight_unbind:
  assumes "tight vol n f T {}" "T q = Some ob"
  shows "tight vol n (\<lambda>x. if x \<in> set (obj_clusters ob) then 0 else f x) (T(q := None)) {}"
  unfolding tight_def
proof (intro allI impI)
  fix c assume c: "data_cluster vol n c" "(if c \<in> set (obj_clusters ob) then 0 else f c) \<noteq> 0"
  then have "c \<notin> set (obj_clusters ob)" "f c \<noteq> 0" by (auto split: if_splits)
  moreover from this c(1) assms(1) obtain p b where b: "T p = Some b" "c \<in> set (obj_clusters b)" by (auto simp: tight_def tree_clusters_def)
  ultimately have "p \<noteq> q" using assms(2) by auto
  with b show "c \<in> tree_clusters (T(q := None)) \<union> {}" by (auto simp: tree_clusters_def intro!: exI [of _ p])
qed

lemma tight_fresh:
  "tight vol n f T {} \<Longrightarrow> \<forall>x. x \<notin> set cs \<longrightarrow> f' x = f x \<Longrightarrow> tight vol n f' T (set cs)"
  by (auto simp: tight_def)

lemma tight_bind:
  assumes "tight vol n f T (set (obj_clusters ob))" "T p = Some (DirO cs)" "T (p @ [k]) = None" "enters f d cs e f' d' cs'"
  shows "tight vol n f' (T(p \<mapsto> DirO cs', p @ [k] \<mapsto> ob)) {}"
  unfolding tight_def
proof (intro allI impI)
  fix c assume c: "data_cluster vol n c" "f' c \<noteq> 0"
  let ?T = "T(p \<mapsto> DirO cs', p @ [k] \<mapsto> ob)"
  have here: "c \<in> tree_clusters ?T" if "c \<in> set cs'" using that by (auto simp: tree_clusters_def intro!: exI [of _ p])
  show "c \<in> tree_clusters ?T \<union> {}"
  proof (cases "f c = 0")
    case True
    then show ?thesis using entersD(5) [OF assms(4)] c(2) here by blast
  next
    case False
    then consider "c \<in> set (obj_clusters ob)" | q b where "T q = Some b" "c \<in> set (obj_clusters b)"
      using assms(1) c(1) by (auto simp: tight_def tree_clusters_def)
    then show ?thesis
    proof cases
      case 1
      then show ?thesis by (auto simp: tree_clusters_def intro!: exI [of _ "p @ [k]"])
    next
      case (2 q b)
      then show ?thesis using here entersD(4) [OF assms(4)] assms(2,3)
        by (cases "q = p") (auto simp: tree_clusters_def intro!: exI [of _ q])
    qed
  qed
qed

end
