(* ===== verification/FatOps.thy ===== *)
theory FatOps
  imports FatTree Path
begin

unbundle bit_operations_syntax

text \<open>
  The writing methods of \<^verbatim>\<open>kernel/src/fs/fat.rs\<close> on the directory tree. Each is run stage by stage: find
  the parent, release what the name stood for, fill a chain, enter the name. Its result and the tree it leaves
  are those of the specification in \<open>FsSpec\<close>, up to the error for a missing parent, or the volume is full and the
  result is \<open>Io\<close>.
\<close>

section \<open>Paths\<close>

lemma canonical_parts:
  assumes "canonical path" "segments path \<noteq> []"
  obtains parent name where "split_parent path = Ok (parent, name)" "good_path parent" "keys path = keys parent @ [fold_case name]"
    "name = last (segments path)" "canonical parent" "name \<noteq> []" "slash \<notin> set name"
proof
  define ps where "ps = butlast (segments path)"
  define name where "name = last (segments path)"
  define parent where "parent = (if ps = [] then ''/'' else render ps)"
  have segs: "segments path = ps @ [name]" using assms(2) by (simp add: ps_def name_def)
  then have path: "path = render ps @ slash # name" using assms by (simp add: canonical_def)
  have sl: "seg_list (ps @ [name])" using seg_list_segments [of path] segs by simp
  then show n: "name \<noteq> []" "slash \<notin> set name" by simp_all
  have "last path \<noteq> slash" using n by (metis path last_ConsR last_appendR last_in_set list.discI)
  then have "trim_end_matches slash path = path" by (rule trim_end_matches_id [OF disjI2])
  then show "split_parent path = Ok (parent, name)"
    using n rfind_append [of slash name "render ps"] by (simp add: split_parent_def path parent_def)
  have "segments parent = ps" using sl by (simp add: parent_def)
  then show "good_path parent" "keys path = keys parent @ [fold_case name]"
    by (simp_all add: good_path_def keys_def segs parent_def)
  show "canonical parent" unfolding parent_def using assms(1) sl by (intro canonicalI) (simp_all add: canonical_def segs)
  show "name = last (segments path)" by (simp add: name_def)
qed

lemma canonical_root: "canonical path \<Longrightarrow> segments path = [] \<Longrightarrow> path = ''/''"
  by (simp add: canonical_def)

lemma split_root: "split_parent ''/'' = Err Io" "keys ''/'' = []"
  by (simp_all add: split_parent_def trim_end_matches_def keys_def)

section \<open>The disk between the stages\<close>

definition live :: "FatFs \<Rightarrow> nat \<Rightarrow> (u32 \<Rightarrow> u32) \<Rightarrow> (u32 \<Rightarrow> u8 list) \<Rightarrow> bool" where
  "live vol n f d \<longleftrightarrow> (\<exists>im. holds vol n f d im)"

lemma live_yields: "live vol n f d \<Longrightarrow> yields vol n f d m r f' d' \<Longrightarrow> live vol n f' d'"
  by (auto simp: live_def yields_def)

lemma live_sized: "fits vol n \<Longrightarrow> live vol n f d \<Longrightarrow> well_sized vol n d"
  by (auto simp: live_def holds_well_sized)

section \<open>Finding the parent\<close>

text \<open>The entries of a directory object all start at the head of its chain.\<close>

lemma dir_chain:
  assumes "tree_ok vol n f d T" "T p = Some (DirO cs)"
  shows "cs \<noteq> [] \<and> chain vol n f (hd cs) cs"
proof (cases p rule: rev_cases)
  case Nil
  then show ?thesis using tree_okD(1) [OF assms(1)] assms(2) chain_hd by fastforce
next
  case (snoc q k)
  obtain cq where q: "T q = Some (DirO cq)" using tree_okD(3) [OF assms(1)] assms(2) snoc by blast
  have D: "dir_ok vol n f d (\<lambda>k. T (q @ [k])) cq" by (rule tree_okD(2) [OF assms(1) q])
  then have "k \<in> de_name ` set (parse_dir (slots d cq))" using assms(2) snoc unfolding dir_ok_def by blast
  then obtain e where "entry_ok vol n f d e (DirO cs)" using D assms(2) snoc unfolding dir_ok_def by fastforce
  then show ?thesis using chain_hd by fastforce
qed

lemma does_cluster_for:
  assumes "fits vol n" "tree_ok vol n f d T" "good_path path" "T (keys path) = Some (DirO cs)"
  shows "does vol n f d (cluster_for image_device vol path) (hd cs) f d"
proof (cases "path = ''/''")
  case True
  then have "root_cluster vol = hd cs" using tree_okD(1) [OF assms(2)] assms(4) chain_hd by (auto simp: split_root)
  with True show ?thesis by (simp add: cluster_for_def does_ret)
next
  case False
  obtain e where e: "does vol n f d (lookup image_device vol path) e f d" "entry_ok vol n f d e (DirO cs)"
    using yields_lookup [OF assms(1-3)] assms(4) by (auto simp: found_def)
  then have "de_is_dir e" "de_cluster e = hd cs" using chain_hd by auto
  with False show ?thesis by (auto simp: cluster_for_def does_ret intro!: does_bindM [OF e(1)])
qed

text \<open>What \<open>dir_error\<close> says on a tree.\<close>

lemma dir_error_tree:
  assumes "tree_ok vol n f d T"
  shows "(case T (pre @ q) of
      Some (DirO _) \<Rightarrow> dir_error (tree_view T) pre q = None
    | Some (FileO _ _) \<Rightarrow> dir_error (tree_view T) pre q = Some NotADir
    | None \<Rightarrow> dir_error (tree_view T) pre q \<noteq> None)"
proof (induction q arbitrary: pre)
  case Nil
  then show ?case by (cases "T pre" rule: option.exhaust; cases "the (T pre)") (auto simp: tree_view_def)
next
  case (Cons s q)
  consider (gone) "T pre = None" | (leaf) cs bs where "T pre = Some (FileO cs bs)" | (dir) cs where "T pre = Some (DirO cs)"
    by (metis obj.exhaust option.exhaust)
  then show ?case
  proof cases
    case dir
    then have "dir_error (tree_view T) pre (s # q) = dir_error (tree_view T) (pre @ [s]) q" by (simp add: tree_view_def)
    then show ?thesis using Cons [of "pre @ [s]"] by (simp only: append_assoc append_Cons append_Nil)
  qed (use file_has_no_child [OF assms, of pre _ _ "s # q"] in \<open>auto simp: tree_view_def\<close>)
qed

lemma yields_cluster_for_Err:
  assumes "fits vol n" "tree_ok vol n f d T" "good_path path" "tree_view T (keys path) \<noteq> Some DirE"
  shows "\<exists>e. yields vol n f d (cluster_for image_device vol path) (Err e) f d \<and> dir_error (tree_view T) [] (keys path) = Some e"
proof -
  obtain r where r: "yields vol n f d (lookup image_device vol path) r f d"
    "found vol n f d T (keys path) (the (dir_error (tree_view T) [] (keys path))) r" using yields_lookup [OF assms(1-3)] by blast
  note E = dir_error_tree [OF assms(2), of "[]" "keys path", simplified]
  have ne: "path \<noteq> ''/''" using assms(4) tree_okD(1) [OF assms(2)] by (auto simp: split_root view_simps)
  show ?thesis
  proof (cases "T (keys path)")
    case None
    with E obtain e where "dir_error (tree_view T) [] (keys path) = Some e" by auto
    with None r ne show ?thesis by (auto simp: cluster_for_def found_def intro!: yields_bindM_Err)
  next
    case (Some ob)
    with assms(4) obtain cs bs where ob: "ob = FileO cs bs" by (cases ob) (auto simp: view_simps)
    with Some r obtain e where e: "does vol n f d (lookup image_device vol path) e f d" "\<not> de_is_dir e" by (auto simp: found_def)
    then have "yields vol n f d (cluster_for image_device vol path) (Err NotADir) f d"
      using ne by (auto simp: cluster_for_def intro!: does_bindM [OF e(1)] yields_fail)
    with E Some ob show ?thesis by auto
  qed
qed

lemma does_find_in_dir:
  "fits vol n \<Longrightarrow> chain vol n f c cs \<Longrightarrow> does vol n f d (find_in_dir image_device vol c name) (find_entry name (parse_dir (slots d cs))) f d"
  unfolding find_in_dir_def by (rule does_bindM [OF does_read_dir does_ret])

section \<open>Releasing a name\<close>

lemma does_free_entry:
  assumes "fits vol n" "entry_ok vol n f d e ob"
  shows "does vol n f d (free_entry_chain image_device vol e) () (\<lambda>x. if x \<in> set (obj_clusters ob) then 0 else f x) d"
proof -
  have ch: "chain vol n f (de_cluster e) (obj_clusters ob)" using assms(2) by (cases ob) auto
  show ?thesis
  proof (cases "de_cluster e \<ge> 2")
    case True
    then show ?thesis using does_free_chain [OF assms(1) ch] by (simp add: free_entry_chain_def)
  next
    case False
    then have "obj_clusters ob = []" using ch by (cases "obj_clusters ob") (auto simp: data_cluster_def word_le_nat_alt)
    with False show ?thesis by (simp add: free_entry_chain_def does_ret)
  qed
qed

lemma entry_data: "entry_ok vol n f d e ob \<Longrightarrow> x \<in> set (obj_clusters ob) \<Longrightarrow> data_cluster vol n x"
  by (cases ob) (auto dest: chain_data)

lemma does_unbind:
  assumes "fits vol n" "live vol n f d" "tree_ok vol n f d T" "T p = Some (DirO cs)"
    and "find_entry name (parse_dir (slots d cs)) = Some e" "T (p @ [fold_case name]) = Some ob" "\<And>j. T ((p @ [fold_case name]) @ [j]) = None"
  shows "\<exists>f1 d1. does vol n f d (bindM (free_entry_chain image_device vol e) (\<lambda>_. delete_dir_entry image_device vol (hd cs) name)) () f1 d1
    \<and> tree_ok vol n f1 d1 (T(p @ [fold_case name] := None)) \<and> free_set vol n f1 = free_set vol n f \<union> set (obj_clusters ob)
    \<and> (\<exists>ch\<in>set (slots d1 cs). free_chunk ch) \<and> (tight vol n f T {} \<longrightarrow> tight vol n f1 (T(p @ [fold_case name] := None)) {})"
proof -
  let ?f = "\<lambda>x. if x \<in> set (obj_clusters ob) then 0 else f x"
  have D: "dir_ok vol n f d (\<lambda>k. T (p @ [k])) cs" by (rule tree_okD(2) [OF assms(3,4)])
  have e: "entry_ok vol n f d e ob" "de_name e = fold_case name" using dir_ok_find(2) [OF D assms(6)] assms(5) by auto
  have apart: "set (obj_clusters ob) \<inter> set cs = {}" using tree_okD(5) [OF assms(3,6,4)] by simp
  have ch: "chain vol n f (hd cs) cs" using dir_chain [OF assms(3,4)] by blast
  have "\<forall>x\<in>set cs. ?f x = f x" using apart by auto
  with ch have ch1: "chain vol n ?f (hd cs) cs" using chain_cong [of cs ?f f] by blast
  obtain pre h post where S: "slots d cs = pre @ h # post" "\<forall>ch\<in>set pre. passed name ch" "named name h"
    "parse_dir (slots d cs) = parse_dir pre @ e # parse_dir post" using find_entry_slot [OF assms(5)] by blast
  then have "h \<in> set (slots d cs)" by simp
  then have h: "length h = 32" by (auto simp: slots_def dest: chunks_exact_length)
  obtain d1 where d1: "does vol n ?f d (delete_dir_entry image_device vol (hd cs) name) () ?f d1"
    "slots d1 cs = pre @ h[0 := 0xE5] # post" "\<forall>x. x \<notin> set cs \<longrightarrow> d1 x = d x"
    using does_delete_dir_entry [OF assms(1) live_sized [OF assms(1,2)] S(3) ch1 S(1,2)] by blast
  have keep: "?f x = f x \<and> d1 x = d x" if "k \<noteq> fold_case name" "T (p @ [k]) = Some b" "x \<in> set (obj_clusters b)" for k b x
    using tree_okD(5) [OF assms(3) that(2) assms(6)] tree_okD(5) [OF assms(3) that(2) assms(4)] that(1,3) d1(3) by auto
  have dir: "dir_ok vol n ?f d1 ((\<lambda>j. T (p @ [j]))(fold_case name := None)) cs"
    using dir_unbind [OF D S(1-4) h d1(2), of ?f] keep by (simp add: e(2))
  have "tree_ok vol n ?f d1 (T(p @ [fold_case name] := None))"
    by (rule tree_unbind [OF assms(3,4,6) assms(7) refl d1(3) dir])
  moreover have "does vol n f d (bindM (free_entry_chain image_device vol e) (\<lambda>_. delete_dir_entry image_device vol (hd cs) name)) () ?f d1"
    by (rule does_bindM [OF does_free_entry [OF assms(1) e(1)] d1(1)])
  moreover have "free_chunk (h[0 := 0xE5])" using h by (cases h) (simp_all add: free_chunk_def)
  moreover have "free_set vol n ?f = free_set vol n f \<union> set (obj_clusters ob)" using entry_data [OF e(1)] by (auto simp: free_set_def)
  moreover have "tight vol n f T {} \<longrightarrow> tight vol n ?f (T(p @ [fold_case name] := None)) {}" using tight_unbind [of vol n f T "p @ [fold_case name]" ob] assms(6) by blast
  ultimately show ?thesis using d1(2) by (intro exI [of _ ?f] exI [of _ d1]) (auto simp del: fun_upd_apply)
qed

section \<open>Entering a name\<close>

lemma yields_bind:
  assumes "fits vol n" "live vol n f d" "tree_ok vol n f d T" "T p = Some (DirO cs)" "T (p @ [fold_case name]) = None"
    and "fits_83 name" "attrs AND ATTR_VOLUME_ID = 0"
    and "entry_ok vol n f d \<lparr>de_name = fold_case name, de_is_dir = (attrs AND ATTR_DIRECTORY \<noteq> 0), de_cluster = c, de_size = sz\<rparr> ob" "loose vol n f d T ob"
  shows "\<exists>r f' d' T'. yields vol n f d (add_dir_entry image_device vol (hd cs) name attrs c sz) r f' d' \<and> tree_ok vol n f' d' T'
    \<and> (r = Ok () \<and> tree_view T' = (tree_view T)(p @ [fold_case name] \<mapsto> obj_entry ob) \<and> (tight vol n f T (set (obj_clusters ob)) \<longrightarrow> tight vol n f' T' {})
       \<or> r = Err Io \<and> T' = T \<and> free_set vol n f = {} \<and> (\<forall>ch\<in>set (slots d cs). \<not> free_chunk ch))"
proof (cases "free_set vol n f \<noteq> {} \<or> (\<exists>ch\<in>set (slots d cs). free_chunk ch)")
  case True
  let ?e = "write_short_entry name attrs c sz"
  have ch: "cs \<noteq> []" "chain vol n f (hd cs) cs" using dir_chain [OF assms(3,4)] by auto
  have used: "\<forall>x\<in>set cs. f x \<noteq> 0" using tree_okD(4) [OF assms(3,4)] by simp
  obtain f' d' cs' where A: "does vol n f d (add_dir_entry image_device vol (hd cs) name attrs c sz) () f' d'"
    "chain vol n f' (hd cs) cs'" "enters f d cs ?e f' d' cs'"
    using does_add_dir_entry [OF assms(1) live_sized [OF assms(1,2)] ch(2,1) used True] by blast
  have "cs' \<noteq> []" using A(3) by (auto simp: enters_def)
  moreover have "decode_short_name ?e \<noteq> ''.''" "decode_short_name ?e \<noteq> ''..''"
    using lower_not_dots [OF assms(6)] by (simp_all add: short_name_decode [OF assms(6)])
  moreover have "decode_entry ?e = \<lparr>de_name = fold_case name, de_is_dir = (attrs AND ATTR_DIRECTORY \<noteq> 0), de_cluster = c, de_size = sz\<rparr>"
    by (simp add: short_entry_decodes [OF assms(6)] fold_case_def)
  ultimately have "tree_ok vol n f' d' (T(p \<mapsto> DirO cs', p @ [fold_case name] \<mapsto> ob))"
    using tree_bind [OF assms(3,4,5) A(3,2) _ short_entry_first(1) [OF assms(6)] short_entry_kept [OF assms(6,7)]] assms(8,9) by simp
  moreover have "tree_view (T(p \<mapsto> DirO cs', p @ [fold_case name] \<mapsto> ob)) = (tree_view T)(p @ [fold_case name] \<mapsto> obj_entry ob)"
    using assms(4) by (auto simp: tree_view_def fun_eq_iff)
  ultimately show ?thesis using A(1) tight_bind [OF _ assms(4,5) A(3), of vol n ob] by blast
next
  case False
  have "yields vol n f d (add_dir_entry image_device vol (hd cs) name attrs c sz) (Err Io) f d"
    using False dir_chain [OF assms(3,4)] by (intro yields_add_full [OF assms(1) live_sized [OF assms(1,2)]]) auto
  with False assms(3) show ?thesis by blast
qed

section \<open>The specification, as the FAT driver meets it\<close>

text \<open>
  The driver reports a missing parent and a parent that is a file alike. Apart from that its results are
  those of \<open>FsSpec\<close>, unless there are no more than \<open>need\<close> free clusters: then a call that should succeed may return
  \<open>Io\<close>, and the name \<open>p\<close> is unbound, whatever it was before.
\<close>

fun fat_result :: "(FsError, 'a) outcome \<Rightarrow> (FsError, 'a) outcome" where
  "fat_result (Err NotFound) = Err NotADir"
| "fat_result r = r"

definition meets :: "nat \<Rightarrow> nat \<Rightarrow> string list \<Rightarrow> fs_map \<Rightarrow> (FsError, unit) outcome \<times> fs_map \<Rightarrow> (FsError, unit) outcome \<Rightarrow> fs_map \<Rightarrow> bool" where
  "meets free need p v spec r v' \<longleftrightarrow>
     r = fat_result (fst spec) \<and> v' = snd spec \<or> fst spec = Ok () \<and> r = Err Io \<and> v' = v(p := None) \<and> free \<le> need"

lemma dir_error_range: "dir_error v pre q = None \<or> dir_error v pre q = Some NotFound \<or> dir_error v pre q = Some NotADir"
  by (induction q arbitrary: pre) (auto split: option.splits entry.splits)

lemma in_parent_spec:
  assumes "tree_ok vol n f d T"
  shows "tree_view T p \<noteq> Some DirE \<Longrightarrow> meets free need (p @ [k]) (tree_view T) (spec_in_parent g (p @ [k]) (tree_view T)) (Err NotADir) (tree_view T)"
    "tree_view T p = Some DirE \<Longrightarrow> spec_in_parent g (p @ [k]) (tree_view T) = g (tree_view T)"
proof -
  note E = dir_error_tree [OF assms, of "[]" p, simplified]
  assume "tree_view T p \<noteq> Some DirE"
  then have "dir_error (tree_view T) [] p \<noteq> None" using E by (auto simp: view_simps split: option.splits obj.splits)
  then show "meets free need (p @ [k]) (tree_view T) (spec_in_parent g (p @ [k]) (tree_view T)) (Err NotADir) (tree_view T)"
    using dir_error_range [of "tree_view T" "[]" p] by (auto simp: meets_def spec_in_parent_def)
next
  note E = dir_error_tree [OF assms, of "[]" p, simplified]
  assume "tree_view T p = Some DirE"
  then show "spec_in_parent g (p @ [k]) (tree_view T) = g (tree_view T)"
    using E by (auto simp: view_simps spec_in_parent_def)
qed

lemma in_root_spec: "meets free need [] v (spec_in_parent g [] v) (Err Io) v"
  by (simp add: meets_def spec_in_parent_def)

text \<open>The opening lines of the writing methods.\<close>

lemma yields_in_parent:
  assumes "fits vol n" "tree_ok vol n f d T" "split_parent path = Ok (parent, name)" "good_path parent"
  shows "T (keys parent) = Some (DirO cs) \<Longrightarrow> yields vol n f d (K parent name (hd cs)) r f' d' \<Longrightarrow>
    yields vol n f d (bindM (liftO (split_parent path)) (\<lambda>(parent, name). bindM (is_dir image_device vol parent) (\<lambda>b.
      if \<not> b then fail NotADir else bindM (cluster_for image_device vol parent) (K parent name)))) r f' d'"
    "tree_view T (keys parent) \<noteq> Some DirE \<Longrightarrow>
    yields vol n f d (bindM (liftO (split_parent path)) (\<lambda>(parent, name). bindM (is_dir image_device vol parent) (\<lambda>b.
      if \<not> b then fail NotADir else bindM (cluster_for image_device vol parent) (K parent name)))) (Err NotADir) f d"
proof -
  note parent = does_bindM [OF does_liftO [OF assms(3)]] and isdir = does_bindM [OF does_is_dir [OF assms(1,2,4)]]
  assume "T (keys parent) = Some (DirO cs)" "yields vol n f d (K parent name (hd cs)) r f' d'"
  then show "yields vol n f d (bindM (liftO (split_parent path)) (\<lambda>(parent, name). bindM (is_dir image_device vol parent) (\<lambda>b.
      if \<not> b then fail NotADir else bindM (cluster_for image_device vol parent) (K parent name)))) r f' d'"
    by (auto simp: view_simps intro!: parent isdir does_bindM [OF does_cluster_for [OF assms(1,2,4)]])
next
  note parent = does_bindM [OF does_liftO [OF assms(3)]] and isdir = does_bindM [OF does_is_dir [OF assms(1,2,4)]]
  assume "tree_view T (keys parent) \<noteq> Some DirE"
  then show "yields vol n f d (bindM (liftO (split_parent path)) (\<lambda>(parent, name). bindM (is_dir image_device vol parent) (\<lambda>b.
      if \<not> b then fail NotADir else bindM (cluster_for image_device vol parent) (K parent name)))) (Err NotADir) f d"
    by (auto intro!: parent isdir yields_fail)
qed

text \<open>
  A method that starts so meets \<open>spec_in_parent g\<close> if its remaining lines, run in the parent directory, meet \<open>g\<close>.
\<close>

definition keeps_tight :: "FatFs \<Rightarrow> nat \<Rightarrow> (u32 \<Rightarrow> u32) \<Rightarrow> tree \<Rightarrow> (FsError, 'a) outcome \<Rightarrow> (u32 \<Rightarrow> u32) \<Rightarrow> tree \<Rightarrow> bool" where
  "keeps_tight vol n f T r f' T' \<longleftrightarrow> (tight vol n f T {} \<longrightarrow> r \<noteq> Err Io \<longrightarrow> tight vol n f' T' {})"

lemma keeps_tight_same: "keeps_tight vol n f T r f T"
  by (simp add: keeps_tight_def)

lemma yields_method:
  assumes "fits vol n" "tree_ok vol n f d T" "canonical path"
    and body: "\<And>parent name cs. keys path = keys parent @ [fold_case name] \<Longrightarrow> name = last (segments path) \<Longrightarrow> segments path \<noteq> [] \<Longrightarrow>
      T (keys parent) = Some (DirO cs) \<Longrightarrow> chain vol n f (hd cs) cs \<Longrightarrow>
      \<exists>r f' d' T'. yields vol n f d (K parent name (hd cs)) r f' d' \<and> tree_ok vol n f' d' T' \<and> meets free need (keys path) (tree_view T) (g (tree_view T)) r (tree_view T')
        \<and> keeps_tight vol n f T r f' T'"
  shows "\<exists>r f' d' T'. yields vol n f d (bindM (liftO (split_parent path)) (\<lambda>(parent, name). bindM (is_dir image_device vol parent) (\<lambda>b.
      if \<not> b then fail NotADir else bindM (cluster_for image_device vol parent) (K parent name)))) r f' d' \<and> tree_ok vol n f' d' T'
    \<and> meets free need (keys path) (tree_view T) (spec_in_parent g (keys path) (tree_view T)) r (tree_view T') \<and> keeps_tight vol n f T r f' T'"
proof (cases "segments path = []")
  case True
  then have "yields vol n f d (liftO (split_parent path)) (Err Io) f d"
    using canonical_root [OF assms(3) True] yields_liftO [of vol n f d "split_parent path"] by (simp add: split_root)
  moreover have "keys path = []" using True by (simp add: keys_def)
  ultimately show ?thesis using in_root_spec [of free need "tree_view T" g] assms(2)
    by (intro exI [of _ "Err Io"] exI [of _ f] exI [of _ d] exI [of _ T]) (simp add: yields_bindM_Err keeps_tight_same)
next
  case False
  obtain parent name where P: "split_parent path = Ok (parent, name)" "good_path parent" "keys path = keys parent @ [fold_case name]"
    "name = last (segments path)" using canonical_parts [OF assms(3) False] by metis
  note start = yields_in_parent [OF assms(1,2) P(1,2)]
  show ?thesis
  proof (cases "tree_view T (keys parent) = Some DirE")
    case True
    then obtain cs where cs: "T (keys parent) = Some (DirO cs)" by (auto simp: view_simps)
    note spec = in_parent_spec(2) [OF assms(2) True, of g "fold_case name", folded P(3)]
    have "chain vol n f (hd cs) cs" using dir_chain [OF assms(2) cs] by blast
    from body [OF P(3,4) False cs this] start(1) [OF cs] show ?thesis unfolding spec by blast
  next
    case False
    with start(2) in_parent_spec(1) [OF assms(2) False, of free need "fold_case name" g, folded P(3)] assms(2) keeps_tight_same show ?thesis by blast
  qed
qed

section \<open>Writing\<close>

abbreviation release_entry :: "FatFs \<Rightarrow> u32 \<Rightarrow> string \<Rightarrow> DirEntry option \<Rightarrow> (image, FsError, unit) io" where
  "release_entry vol c name entry \<equiv>
     (case entry of None \<Rightarrow> ret ()
      | Some old \<Rightarrow> if de_is_dir old then fail IsADir
          else bindM (free_entry_chain image_device vol old) (\<lambda>_. delete_dir_entry image_device vol c name))"

abbreviation fill_chain :: "FatFs \<Rightarrow> u8 list \<Rightarrow> (image, FsError, u32) io" where
  "fill_chain vol data \<equiv>
     (if data = [] then ret 0
      else let n_clusters = word_of_nat ((length data + cluster_bytes vol - 1) div cluster_bytes vol)
           in bindM (allocate_chain image_device vol n_clusters) (\<lambda>head.
              bindM (write_chain image_device vol head data) (\<lambda>_. ret head)))"

fun clusters_of :: "obj option \<Rightarrow> u32 set" where
  "clusters_of None = {}"
| "clusters_of (Some ob) = set (obj_clusters ob)"

lemma does_release_entry:
  assumes "fits vol n" "live vol n f d" "tree_ok vol n f d T" "T p = Some (DirO cs)" "tree_view T (p @ [fold_case name]) \<noteq> Some DirE"
  shows "\<exists>f1 d1. does vol n f d (release_entry vol (hd cs) name (find_entry name (parse_dir (slots d cs)))) () f1 d1
    \<and> tree_ok vol n f1 d1 (T(p @ [fold_case name] := None)) \<and> free_set vol n f1 = free_set vol n f \<union> clusters_of (T (p @ [fold_case name]))
    \<and> (tight vol n f T {} \<longrightarrow> tight vol n f1 (T(p @ [fold_case name] := None)) {})"
proof -
  have D: "dir_ok vol n f d (\<lambda>k. T (p @ [k])) cs" by (rule tree_okD(2) [OF assms(3,4)])
  show ?thesis
  proof (cases "T (p @ [fold_case name])")
    case None
    then have "T(p @ [fold_case name] := None) = T" by (simp add: fun_upd_idem)
    with dir_ok_find(1) [OF D None] assms(3) show ?thesis
      by (intro exI [of _ f] exI [of _ d]) (simp add: does_ret None)
  next
    case (Some ob)
    then obtain os bs where ob: "ob = FileO os bs" using assms(5) by (cases ob) (auto simp: view_simps)
    obtain e where e: "find_entry name (parse_dir (slots d cs)) = Some e" "\<not> de_is_dir e" using dir_ok_find(2) [OF D Some] ob by auto
    have "\<And>j. T ((p @ [fold_case name]) @ [j]) = None" using file_has_no_child [OF assms(3)] Some ob by blast
    from does_unbind [OF assms(1-4) e(1) Some this] e Some show ?thesis by auto
  qed
qed

text \<open>The byte counts the driver can handle: the number of clusters and, if they fit the volume, the size are 32-bit.\<close>

definition storable :: "FatFs \<Rightarrow> u8 list \<Rightarrow> bool" where
  "storable vol data \<longleftrightarrow> clusters_for vol data < 2 ^ 32 \<and> (clusters_for vol data \<le> cap vol \<longrightarrow> length data < 2 ^ 32)"

lemma fill_tree:
  assumes "fits vol n" "tree_ok vol n f d T" "storable vol data"
  shows "clusters_for vol data \<le> card (free_set vol n f) \<Longrightarrow> \<exists>first cs f' d'. does vol n f d (fill_chain vol data) first f' d' \<and> tree_ok vol n f' d' T
      \<and> loose vol n f' d' T (FileO cs data)
      \<and> (\<forall>nm. entry_ok vol n f' d' \<lparr>de_name = nm, de_is_dir = False, de_cluster = first, de_size = word_of_nat (length data)\<rparr> (FileO cs data))
      \<and> card (free_set vol n f') = card (free_set vol n f) - clusters_for vol data \<and> (tight vol n f T {} \<longrightarrow> tight vol n f' T (set cs))" (is "_ \<Longrightarrow> ?filled")
    "card (free_set vol n f) < clusters_for vol data \<Longrightarrow> \<exists>f' d'. yields vol n f d (fill_chain vol data) (Err Io) f' d' \<and> tree_ok vol n f' d' T
      \<and> free_set vol n f' = {}"
proof -
  assume room: "clusters_for vol data \<le> card (free_set vol n f)"
  then have len: "length data < 2 ^ 32" using assms(3) card_free_set [of vol n f] by (simp add: storable_def)
  obtain first cs f' d' where A: "does vol n f d (fill_chain vol data) first f' d'" "chain vol n f' first cs" "set cs \<subseteq> free_set vol n f"
    "\<forall>x\<in>set cs. f' x \<noteq> 0" "\<forall>x. x \<notin> set cs \<longrightarrow> f' x = f x \<and> d' x = d x"
    "take (length data) (concat (map d' cs)) = data" "length cs = clusters_for vol data" "distinct cs"
    using does_fill [OF assms(1) room] by blast
  have zero: "f x = 0" if "x \<in> set cs" for x using A(3) that by (auto simp: free_set_def)
  have T: "tree_ok vol n f' d' T" by (rule tree_frame [OF assms(2)]) (use A(5) zero in blast)
  have "x \<notin> set (obj_clusters b)" if "x \<in> set cs" "T q = Some b" for x q b using zero [OF that(1)] tree_okD(4) [OF assms(2) that(2)] by blast
  with A(4) have "loose vol n f' d' T (FileO cs data)" by (simp add: loose_def)
  moreover have "free_set vol n f' = free_set vol n f - set cs" using A(4,5) by (auto simp: free_set_def)
  then have "card (free_set vol n f') = card (free_set vol n f) - clusters_for vol data" using A(3,7,8) by (simp add: card_Diff_subset distinct_card)
  moreover have "tight vol n f T {} \<longrightarrow> tight vol n f' T (set cs)" using tight_fresh [of vol n f T cs f'] A(5) by blast
  ultimately show ?filled using A(1,2,6) T len by (intro exI [of _ first] exI [of _ cs] exI [of _ f'] exI [of _ d']) simp
next
  assume full: "card (free_set vol n f) < clusters_for vol data"
  let ?m = "word_of_nat (clusters_for vol data) :: u32"
  have m: "unat ?m = clusters_for vol data" using assms(3) by (simp add: storable_def unat_of_nat)
  obtain f' d' where A: "yields vol n f d (allocate_chain image_device vol ?m) (Err Io) f' d'" "\<forall>x. f x \<noteq> 0 \<longrightarrow> f' x = f x \<and> d' x = d x"
    "free_set vol n f' = {}" using yields_allocate_full [OF assms(1), of f ?m d] full m by auto
  have "data \<noteq> []" using full clusters_for_zero [OF assms(1), of data] by auto
  then have "yields vol n f d (fill_chain vol data) (Err Io) f' d'"
    using yields_bindM_Err [OF A(1)] by (simp add: clusters_for_def)
  with tree_frame [OF assms(2) A(2)] A(3)
  show "\<exists>f' d'. yields vol n f d (fill_chain vol data) (Err Io) f' d' \<and> tree_ok vol n f' d' T \<and> free_set vol n f' = {}" by blast
qed

lemma view_upd: "tree_view (T(p := x)) = (tree_view T)(p := map_option obj_entry x)"
  by (auto simp: tree_view_def fun_eq_iff)

lemma write_stages:
  assumes "fits vol n" "live vol n f d" "tree_ok vol n f d T" "T p = Some (DirO cs)" "tree_view T (p @ [fold_case name]) \<noteq> Some DirE"
    and "fits_83 name" "storable vol data"
  shows "\<exists>r f' d' T'. yields vol n f d
      (bindM (release_entry vol (hd cs) name (find_entry name (parse_dir (slots d cs)))) (\<lambda>_. bindM (fill_chain vol data) (\<lambda>first_cluster.
         add_dir_entry image_device vol (hd cs) name 0x20 first_cluster (word_of_nat (length data))))) r f' d' \<and> tree_ok vol n f' d' T'
    \<and> (r = Ok () \<and> tree_view T' = (tree_view T)(p @ [fold_case name] \<mapsto> FileE data) \<and> (tight vol n f T {} \<longrightarrow> tight vol n f' T' {})
       \<or> r = Err Io \<and> tree_view T' = (tree_view T)(p @ [fold_case name] := None) \<and> card (free_set vol n f) \<le> clusters_for vol data)"
proof -
  let ?T = "T(p @ [fold_case name] := None)"
  obtain f1 d1 where st1: "does vol n f d (release_entry vol (hd cs) name (find_entry name (parse_dir (slots d cs)))) () f1 d1"
    and A: "tree_ok vol n f1 d1 ?T" "free_set vol n f1 = free_set vol n f \<union> clusters_of (T (p @ [fold_case name]))" "tight vol n f T {} \<longrightarrow> tight vol n f1 ?T {}"
    using does_release_entry [OF assms(1-5)] by blast
  have card: "card (free_set vol n f) \<le> card (free_set vol n f1)" using A(2) by (simp add: card_mono)
  have p: "?T p = Some (DirO cs)" "?T (p @ [fold_case name]) = None" using assms(4) by simp_all
  have gone: "tree_view ?T = (tree_view T)(p @ [fold_case name] := None)" by (simp add: view_upd)
  show ?thesis
  proof (cases "clusters_for vol data \<le> card (free_set vol n f1)")
    case True
    obtain first os f2 d2 where st2: "does vol n f1 d1 (fill_chain vol data) first f2 d2" and B: "tree_ok vol n f2 d2 ?T" "loose vol n f2 d2 ?T (FileO os data)"
      "\<And>nm. entry_ok vol n f2 d2 \<lparr>de_name = nm, de_is_dir = False, de_cluster = first, de_size = word_of_nat (length data)\<rparr> (FileO os data)"
      "card (free_set vol n f2) = card (free_set vol n f1) - clusters_for vol data" "tight vol n f1 ?T {} \<longrightarrow> tight vol n f2 ?T (set os)" using fill_tree(1) [OF assms(1) A(1) assms(7) True] by blast
    have "(0x20 :: u8) AND ATTR_VOLUME_ID = 0" and plain: "((0x20 :: u8) AND ATTR_DIRECTORY \<noteq> 0) = False" by (simp_all add: attr_defs)
    from yields_bind [OF assms(1) live_yields [OF live_yields [OF assms(2) st1] st2] B(1) p assms(6) this(1), unfolded plain, OF B(3,2)]
    obtain r f' d' T' where st3: "yields vol n f2 d2 (add_dir_entry image_device vol (hd cs) name 0x20 first (word_of_nat (length data))) r f' d'"
      "tree_ok vol n f' d' T'" and C: "r = Ok () \<and> tree_view T' = (tree_view ?T)(p @ [fold_case name] \<mapsto> FileE data) \<and> (tight vol n f2 ?T (set os) \<longrightarrow> tight vol n f' T' {})
        \<or> r = Err Io \<and> T' = ?T \<and> free_set vol n f2 = {}"
      unfolding obj_entry.simps obj_clusters.simps by blast
    let ?K = "\<lambda>first_cluster. add_dir_entry image_device vol (hd cs) name 0x20 first_cluster (word_of_nat (length data))"
    have run: "yields vol n f d (bindM (release_entry vol (hd cs) name (find_entry name (parse_dir (slots d cs)))) (\<lambda>_. bindM (fill_chain vol data) ?K)) r f' d'"
      by (rule does_bindM [OF st1], rule does_bindM [OF st2], rule st3(1))
    have "card (free_set vol n f) \<le> clusters_for vol data" if "free_set vol n f2 = {}" using that B(4) card by simp
    with C A(3) B(5) have "r = Ok () \<and> tree_view T' = (tree_view T)(p @ [fold_case name] \<mapsto> FileE data) \<and> (tight vol n f T {} \<longrightarrow> tight vol n f' T' {})
       \<or> r = Err Io \<and> tree_view T' = (tree_view T)(p @ [fold_case name] := None) \<and> card (free_set vol n f) \<le> clusters_for vol data"
      using gone by auto
    with run st3(2) show ?thesis by blast
  next
    case False
    then obtain f2 d2 where st2: "yields vol n f1 d1 (fill_chain vol data) (Err Io) f2 d2" and B: "tree_ok vol n f2 d2 ?T"
      using fill_tree(2) [OF assms(1) A(1) assms(7)] by auto
    note run = does_bindM [OF st1 yields_bindM_Err [OF st2]]
    show ?thesis by (rule exI, rule exI, rule exI, rule exI [of _ ?T], rule conjI [OF run]) (use B False card in \<open>simp add: view_upd\<close>)
  qed
qed

lemma yields_write_file:
  assumes "fits vol n" "live vol n f d" "tree_ok vol n f d T" "canonical path" "segments path \<noteq> [] \<Longrightarrow> fits_83 (last (segments path))" "storable vol data"
  shows "\<exists>r f' d' T'. yields vol n f d (Fat.write_file image_device vol path data) r f' d' \<and> tree_ok vol n f' d' T'
    \<and> meets (card (free_set vol n f)) (clusters_for vol data) (keys path) (tree_view T) (spec_write (keys path) data (tree_view T)) r (tree_view T')
    \<and> keeps_tight vol n f T r f' T'"
  unfolding write_file_def spec_write_def
proof (rule yields_method [OF assms(1,3,4)])
  fix parent name cs
  assume P: "keys path = keys parent @ [fold_case name]" "name = last (segments path)" "segments path \<noteq> []"
    "T (keys parent) = Some (DirO cs)" "chain vol n f (hd cs) cs"
  let ?body = "bindM (find_in_dir image_device vol (hd cs) name) (\<lambda>found. bindM (release_entry vol (hd cs) name found) (\<lambda>_.
    bindM (fill_chain vol data) (\<lambda>first. add_dir_entry image_device vol (hd cs) name 0x20 first (word_of_nat (length data)))))"
  let ?g = "if tree_view T (keys path) = Some DirE then (Err IsADir, tree_view T) else (Ok (), (tree_view T)(keys path \<mapsto> FileE data))"
  note look = does_bindM [OF does_find_in_dir [OF assms(1) P(5)]]
  show "\<exists>r f' d' T'. yields vol n f d ?body r f' d' \<and> tree_ok vol n f' d' T'
    \<and> meets (card (free_set vol n f)) (clusters_for vol data) (keys path) (tree_view T) ?g r (tree_view T') \<and> keeps_tight vol n f T r f' T'"
  proof (cases "tree_view T (keys path) = Some DirE")
    case True
    then obtain e where e: "find_entry name (parse_dir (slots d cs)) = Some e" "de_is_dir e"
      using dir_ok_find(2) [OF tree_okD(2) [OF assms(3) P(4)], of name] by (auto simp: view_simps P(1))
    have "yields vol n f d ?body (Err IsADir) f d" by (rule look) (simp add: e yields_bindM_Err [OF yields_fail])
    with assms(3) True show ?thesis by (intro exI [of _ "Err IsADir"] exI [of _ f] exI [of _ d] exI [of _ T]) (simp add: meets_def keeps_tight_same)
  next
    case False
    have "fits_83 name" using assms(5) [OF P(3)] P(2) by simp
    then obtain r f' d' T' where st: "yields vol n f d
        (bindM (release_entry vol (hd cs) name (find_entry name (parse_dir (slots d cs)))) (\<lambda>_. bindM (fill_chain vol data) (\<lambda>first.
           add_dir_entry image_device vol (hd cs) name 0x20 first (word_of_nat (length data))))) r f' d'" "tree_ok vol n f' d' T'"
      and R: "r = Ok () \<and> tree_view T' = (tree_view T)(keys path \<mapsto> FileE data) \<and> (tight vol n f T {} \<longrightarrow> tight vol n f' T' {})
       \<or> r = Err Io \<and> tree_view T' = (tree_view T)(keys path := None) \<and> card (free_set vol n f) \<le> clusters_for vol data"
      using write_stages [OF assms(1-3) P(4) _ _ assms(6)] False unfolding P(1) by blast
    have "yields vol n f d ?body r f' d'" by (rule look) (rule st(1))
    moreover have "meets (card (free_set vol n f)) (clusters_for vol data) (keys path) (tree_view T) ?g r (tree_view T') \<and> keeps_tight vol n f T r f' T'"
      using R False by (auto simp: meets_def keeps_tight_def)
    ultimately show ?thesis using st(2) by blast
  qed
qed

text \<open>
  When the data need more clusters than are free after the old file has been released, the write fails, the old file is gone, and no
  cluster is free any more.
\<close>

lemma yields_write_full:
  assumes "fits vol n" "live vol n f d" "tree_ok vol n f d T" "canonical path" "T (keys path) = Some (FileO os bs)" "storable vol data"
    and full: "card (free_set vol n f) + length os < clusters_for vol data"
  shows "\<exists>f' d'. yields vol n f d (Fat.write_file image_device vol path data) (Err Io) f' d' \<and> tree_ok vol n f' d' (T(keys path := None))
    \<and> free_set vol n f' = {}"
proof -
  have segs: "segments path \<noteq> []" using assms(5) tree_okD(1) [OF assms(3)] by (auto simp: keys_def)
  obtain parent name where P: "split_parent path = Ok (parent, name)" "good_path parent" "keys path = keys parent @ [fold_case name]"
    using canonical_parts [OF assms(4) segs] by metis
  obtain cs where cs: "T (keys parent) = Some (DirO cs)" using tree_okD(3) [OF assms(3)] assms(5) P(3) by metis
  have ch: "chain vol n f (hd cs) cs" using dir_chain [OF assms(3) cs] by blast
  obtain f1 d1 where st1: "does vol n f d (release_entry vol (hd cs) name (find_entry name (parse_dir (slots d cs)))) () f1 d1"
    and A: "tree_ok vol n f1 d1 (T(keys path := None))" "free_set vol n f1 = free_set vol n f \<union> set os"
    using does_release_entry [OF assms(1-3) cs, of name] assms(5) unfolding P(3) by (auto simp: view_simps)
  have "card (free_set vol n f1) < clusters_for vol data" using card_Un_le [of "free_set vol n f" "set os"] card_length [of os] full A(2) by simp
  then obtain f2 d2 where st2: "yields vol n f1 d1 (fill_chain vol data) (Err Io) f2 d2" and B: "tree_ok vol n f2 d2 (T(keys path := None))" "free_set vol n f2 = {}"
    using fill_tree(2) [OF assms(1) A(1) assms(6)] by blast
  have "yields vol n f d (Fat.write_file image_device vol path data) (Err Io) f2 d2" unfolding write_file_def
    by (rule yields_in_parent(1) [OF assms(1,3) P(1,2) cs], rule does_bindM [OF does_find_in_dir [OF assms(1) ch]], rule does_bindM [OF st1],
        rule yields_bindM_Err [OF st2])
  with B show ?thesis by blast
qed

section \<open>Creating and truncating\<close>

lemma empty_file:
  "entry_ok vol n f d \<lparr>de_name = nm, de_is_dir = False, de_cluster = 0, de_size = 0\<rparr> (FileO [] [])" "loose vol n f d T (FileO [] [])"
  by (simp_all add: in_chain_def loose_def)

lemma truncate_stages:
  assumes "fits vol n" "live vol n f d" "tree_ok vol n f d T" "T p = Some (DirO cs)" "T (p @ [fold_case name]) = Some (FileO os bs)" "fits_83 name"
  shows "\<exists>f' d' T'. does vol n f d (truncate_file image_device vol (hd cs) name) () f' d' \<and> tree_ok vol n f' d' T'
    \<and> tree_view T' = (tree_view T)(p @ [fold_case name] \<mapsto> FileE []) \<and> (tight vol n f T {} \<longrightarrow> tight vol n f' T' {})"
proof -
  let ?T = "T(p @ [fold_case name] := None)"
  have D: "dir_ok vol n f d (\<lambda>k. T (p @ [k])) cs" by (rule tree_okD(2) [OF assms(3,4)])
  have ch: "chain vol n f (hd cs) cs" using dir_chain [OF assms(3,4)] by blast
  obtain e where e: "find_entry name (parse_dir (slots d cs)) = Some e" "\<not> de_is_dir e" using dir_ok_find(2) [OF D assms(5)] by auto
  have "\<And>j. T ((p @ [fold_case name]) @ [j]) = None" using file_has_no_child [OF assms(3)] assms(5) by blast
  from does_unbind [OF assms(1-4) e(1) assms(5) this] obtain f1 d1 where
    st: "does vol n f d (bindM (free_entry_chain image_device vol e) (\<lambda>_. delete_dir_entry image_device vol (hd cs) name)) () f1 d1"
    and A: "tree_ok vol n f1 d1 ?T" "\<exists>ch\<in>set (slots d1 cs). free_chunk ch" "tight vol n f T {} \<longrightarrow> tight vol n f1 ?T {}" by blast
  have "(0x20 :: u8) AND ATTR_VOLUME_ID = 0" and plain: "((0x20 :: u8) AND ATTR_DIRECTORY \<noteq> 0) = False" by (simp_all add: attr_defs)
  from yields_bind [OF assms(1) live_yields [OF assms(2) st] A(1) _ _ assms(6) this(1), of p cs 0 0 "FileO [] []", unfolded plain, OF _ _ empty_file]
  obtain f' d' T' where B: "does vol n f1 d1 (add_dir_entry image_device vol (hd cs) name 0x20 0 0) () f' d'" "tree_ok vol n f' d' T'"
    "tree_view T' = (tree_view ?T)(p @ [fold_case name] \<mapsto> FileE [])" "tight vol n f1 ?T {} \<longrightarrow> tight vol n f' T' {}" using A(2) assms(4) by auto
  have "does vol n f d (bindM (bindM (free_entry_chain image_device vol e) (\<lambda>_. delete_dir_entry image_device vol (hd cs) name))
      (\<lambda>_. add_dir_entry image_device vol (hd cs) name 0x20 0 0)) () f' d'" by (rule does_bindM [OF st], rule B(1))
  then have "does vol n f d (truncate_file image_device vol (hd cs) name) () f' d'"
    unfolding truncate_file_def using e by (intro does_bindM [OF does_find_in_dir [OF assms(1) ch]]) (simp add: bindM_assoc)
  moreover have "tree_view T' = (tree_view T)(p @ [fold_case name] \<mapsto> FileE [])" using B(3) by (simp add: view_upd)
  ultimately show ?thesis using A(3) B(2,4) by blast
qed

lemma yields_create_file:
  assumes "fits vol n" "live vol n f d" "tree_ok vol n f d T" "canonical path" "segments path \<noteq> [] \<Longrightarrow> fits_83 (last (segments path))"
  shows "\<exists>r f' d' T'. yields vol n f d (Fat.create_file image_device vol path) r f' d' \<and> tree_ok vol n f' d' T'
    \<and> meets (card (free_set vol n f)) 0 (keys path) (tree_view T) (spec_write (keys path) [] (tree_view T)) r (tree_view T')
    \<and> keeps_tight vol n f T r f' T'"
  unfolding create_file_def spec_write_def
proof (rule yields_method [OF assms(1,3,4)])
  fix parent name cs
  assume P: "keys path = keys parent @ [fold_case name]" "name = last (segments path)" "segments path \<noteq> []"
    "T (keys parent) = Some (DirO cs)" "chain vol n f (hd cs) cs"
  let ?body = "bindM (find_in_dir image_device vol (hd cs) name) (\<lambda>found. if found \<noteq> None then truncate_file image_device vol (hd cs) name
    else add_dir_entry image_device vol (hd cs) name 0 0 0)"
  let ?g = "if tree_view T (keys path) = Some DirE then (Err IsADir, tree_view T) else (Ok (), (tree_view T)(keys path \<mapsto> FileE []))"
  note look = does_bindM [OF does_find_in_dir [OF assms(1) P(5)]]
  note find = dir_ok_find [OF tree_okD(2) [OF assms(3) P(4)], of name, folded P(1)]
  have nm: "fits_83 name" using assms(5) [OF P(3)] P(2) by simp
  consider (gone) "T (keys path) = None" | (dir) os where "T (keys path) = Some (DirO os)" | (leaf) os bs where "T (keys path) = Some (FileO os bs)"
    by (metis obj.exhaust option.exhaust)
  then show "\<exists>r f' d' T'. yields vol n f d ?body r f' d' \<and> tree_ok vol n f' d' T'
    \<and> meets (card (free_set vol n f)) 0 (keys path) (tree_view T) ?g r (tree_view T') \<and> keeps_tight vol n f T r f' T'"
  proof cases
    case gone
    have plain: "((0 :: u8) AND ATTR_DIRECTORY \<noteq> 0) = False" by simp
    from yields_bind [OF assms(1-3) P(4) gone [unfolded P(1)] nm, of 0 0 0 "FileO [] []", unfolded plain, OF _ empty_file]
    obtain r f' d' T' where B: "yields vol n f d (add_dir_entry image_device vol (hd cs) name 0 0 0) r f' d'" "tree_ok vol n f' d' T'"
      "r = Ok () \<and> tree_view T' = (tree_view T)(keys path \<mapsto> FileE []) \<and> (tight vol n f T {} \<longrightarrow> tight vol n f' T' {}) \<or> r = Err Io \<and> T' = T \<and> free_set vol n f = {}"
      unfolding P(1) by auto
    have "yields vol n f d ?body r f' d'" by (rule look) (simp add: find(1) [OF gone] B(1))
    moreover have "(tree_view T)(keys path := None) = tree_view T" using gone by (simp add: view_simps fun_upd_idem)
    then have "meets (card (free_set vol n f)) 0 (keys path) (tree_view T) ?g r (tree_view T') \<and> keeps_tight vol n f T r f' T'"
      using B(3) gone by (auto simp: meets_def view_simps keeps_tight_def)
    ultimately show ?thesis using B(2) by blast
  next
    case dir
    then obtain e where e: "find_entry name (parse_dir (slots d cs)) = Some e" "de_is_dir e" using find(2) by auto
    have "yields vol n f d (truncate_file image_device vol (hd cs) name) (Err IsADir) f d"
      unfolding truncate_file_def by (rule look) (simp add: e yields_fail)
    then have "yields vol n f d ?body (Err IsADir) f d" by (intro look) (simp add: e)
    with assms(3) dir show ?thesis
      by (intro exI [of _ "Err IsADir"] exI [of _ f] exI [of _ d] exI [of _ T]) (simp add: meets_def view_simps keeps_tight_same)
  next
    case (leaf os bs)
    obtain f' d' T' where B: "does vol n f d (truncate_file image_device vol (hd cs) name) () f' d'" "tree_ok vol n f' d' T'"
      "tree_view T' = (tree_view T)(keys path \<mapsto> FileE [])" "tight vol n f T {} \<longrightarrow> tight vol n f' T' {}"
      using truncate_stages [OF assms(1-3) P(4) leaf [unfolded P(1)] nm] unfolding P(1) by blast
    have "does vol n f d ?body () f' d'" using find(2) [OF leaf] B(1) by (intro look) auto
    with B(2-4) leaf show ?thesis
      by (intro exI [of _ "Ok ()"] exI [of _ f'] exI [of _ d'] exI [of _ T']) (auto simp: meets_def view_simps keeps_tight_def)
  qed
qed

section \<open>Creating a directory\<close>

definition new_dir_block :: "FatFs \<Rightarrow> u32 \<Rightarrow> u32 \<Rightarrow> u8 list" where
  "new_dir_block vol c up = splice 32 (write_short_entry ''..'' ATTR_DIRECTORY up 0)
     (splice 0 (write_short_entry ''.'' ATTR_DIRECTORY c 0) (replicate (cluster_bytes vol) 0))"

lemma dot_entries:
  "decode_short_name (write_short_entry ''.'' attrs c sz) = ''.''" "write_short_entry ''.'' attrs c sz ! 0 \<noteq> 0"
  "decode_short_name (write_short_entry ''..'' attrs c sz) = ''..''" "write_short_entry ''..'' attrs c sz ! 0 \<noteq> 0"
proof -
  have pad: "replicate 10 (0x20 :: u8) = replicate 7 0x20 @ replicate 3 0x20" "replicate 9 (0x20 :: u8) = replicate 6 0x20 @ replicate 3 0x20"
    by (simp_all add: replicate_add [symmetric])
  have "\<exists>rest. write_short_entry ''.'' attrs c sz = (0x2E # replicate 7 0x20) @ replicate 3 0x20 @ rest"
    "\<exists>rest. write_short_entry ''..'' attrs c sz = (0x2E # 0x2E # replicate 6 0x20) @ replicate 3 0x20 @ rest"
    by (auto simp: write_short_entry_def Let_def pad split: prod.split)
  then obtain r1 r2 where e: "write_short_entry ''.'' attrs c sz = (0x2E # replicate 7 0x20) @ replicate 3 0x20 @ r1"
    "write_short_entry ''..'' attrs c sz = (0x2E # 0x2E # replicate 6 0x20) @ replicate 3 0x20 @ r2" by blast
  have t: "take 8 ((0x2E # replicate 7 0x20) @ replicate 3 0x20 @ r1) = (0x2E # replicate 7 0x20 :: u8 list)"
    "take 8 ((0x2E # 0x2E # replicate 6 0x20) @ replicate 3 0x20 @ r2) = (0x2E # 0x2E # replicate 6 0x20 :: u8 list)"
    "take 3 (drop 8 ((0x2E # replicate 7 0x20) @ replicate 3 0x20 @ r1)) = (replicate 3 0x20 :: u8 list)"
    "take 3 (drop 8 ((0x2E # 0x2E # replicate 6 0x20) @ replicate 3 0x20 @ r2)) = (replicate 3 0x20 :: u8 list)"
    by simp_all
  have dot: "push_byte_as_char 0x2E = ''.''" by code_simp
  show "write_short_entry ''.'' attrs c sz ! 0 \<noteq> 0" "write_short_entry ''..'' attrs c sz ! 0 \<noteq> 0" unfolding e by simp_all
  show "decode_short_name (write_short_entry ''.'' attrs c sz) = ''.''" "decode_short_name (write_short_entry ''..'' attrs c sz) = ''..''"
    unfolding e decode_short_name_def t by (simp_all add: decode_field_def dot to_lower_dot)
qed

lemma new_dir:
  assumes "fits vol n"
  shows "length (new_dir_block vol c up) = cluster_bytes vol" "d c = new_dir_block vol c up \<Longrightarrow> dir_ok vol n f d Map.empty [c]"
proof -
  let ?Z = "replicate (cluster_bytes vol) 0 :: u8 list"
  let ?e = "write_short_entry ''.'' ATTR_DIRECTORY c 0" and ?e' = "write_short_entry ''..'' ATTR_DIRECTORY up 0"
  have cb: "cluster_bytes vol = n_slots vol * 32" using cluster_bytes_eq [OF fitsD(1) [OF assms]] by (simp add: n_slots_def)
  have pos: "2 \<le> n_slots vol" using fitsD(1) [OF assms] by (simp add: n_slots_def vol_ok_def)
  show len: "length (new_dir_block vol c up) = cluster_bytes vol" using pos by (simp add: new_dir_block_def cb)
  let ?S = "chunks_exact 32 ?Z"
  have S: "length ?S = n_slots vol" "\<forall>i<n_slots vol. ?S ! i ! 0 = 0"
    using length_chunks_exact [of 32 ?Z "n_slots vol"] chunks_exact_nth [of 32 ?Z "n_slots vol"] by (auto simp: cb)
  have 1: "chunks_exact 32 (splice (0 * 32) ?e ?Z) = ?S[0 := ?e]" by (rule chunks_exact_splice [where m = "n_slots vol"]) (use pos cb in simp_all)
  have "chunks_exact 32 (splice (1 * 32) ?e' (splice (0 * 32) ?e ?Z)) = (chunks_exact 32 (splice (0 * 32) ?e ?Z))[1 := ?e']"
    by (rule chunks_exact_splice [where m = "n_slots vol"]) (use pos cb in simp_all)
  then have block: "chunks_exact 32 (new_dir_block vol c up) = ?S[0 := ?e, 1 := ?e']" unfolding 1 by (simp add: new_dir_block_def)
  obtain a b rest where abr: "?S = a # b # rest" using S(1) pos by (cases ?S; cases "tl ?S") auto
  have "ch ! 0 = 0" if "ch \<in> set rest" for ch
  proof -
    have "ch \<in> set ?S" using that abr by simp
    then show ?thesis using S by (auto simp: in_set_conv_nth)
  qed
  then have rest: "tidy rest \<and> parse_dir rest = []" by (intro unused_slots) blast
  have new: "chunks_exact 32 (new_dir_block vol c up) = ?e # ?e' # rest" unfolding block abr by simp
  have "parse_dir (?e # ?e' # rest) = []" using rest by (simp add: dot_entries)
  moreover have "tidy (?e # ?e' # rest)" using rest tidy_append [of "[?e, ?e']" rest] by (simp add: dot_entries)
  ultimately show "dir_ok vol n f d Map.empty [c]" if "d c = new_dir_block vol c up" by (simp add: dir_ok_def that new)
qed

lemma mkdir_stages:
  assumes "fits vol n" "live vol n f d" "tree_ok vol n f d T" "T p = Some (DirO cs)" "T (p @ [fold_case name]) = None" "fits_83 name"
  shows "\<exists>r f' d' T'. yields vol n f d (bindM (allocate_chain image_device vol 1) (\<lambda>cluster.
        bindM (write_cluster image_device vol cluster (new_dir_block vol cluster up)) (\<lambda>_.
          add_dir_entry image_device vol (hd cs) name ATTR_DIRECTORY cluster 0))) r f' d' \<and> tree_ok vol n f' d' T'
    \<and> (r = Ok () \<and> tree_view T' = (tree_view T)(p @ [fold_case name] \<mapsto> DirE) \<and> (tight vol n f T {} \<longrightarrow> tight vol n f' T' {})
       \<or> r = Err Io \<and> T' = T \<and> card (free_set vol n f) \<le> 1)"
proof (cases "1 \<le> card (free_set vol n f)")
  case True
  obtain xs f1 d1 where A: "length xs = unat (1 :: u32)" "fresh vol n f d xs f1 d1" "does vol n f d (allocate_chain image_device vol 1) (hd xs) f1 d1"
    using does_allocate_chain [OF assms(1), of 1 f d] True by auto
  then obtain c where xs: "xs = [c]" by (cases xs) auto
  have alloc: "does vol n f d (allocate_chain image_device vol 1) c f1 d1" using A(3) xs by simp
  note F = A(2) [unfolded fresh_def xs, simplified]
  have c: "data_cluster vol n c" "f c = 0" "f1 c \<noteq> 0" "chain vol n f1 c [c]" using F by (auto simp: free_set_def)
  let ?d = "d1(c := new_dir_block vol c up)"
  have wr: "does vol n f1 d1 (write_cluster image_device vol c (new_dir_block vol c up)) () f1 ?d"
    by (rule does_write_cluster [OF assms(1) c(1) new_dir(1) [OF assms(1)]])
  note live1 = live_yields [OF live_yields [OF assms(2) alloc] wr]
  have T: "tree_ok vol n f1 ?d T" by (rule tree_frame [OF assms(3)]) (use F c in auto)
  have "c \<notin> set (obj_clusters b)" if "T q = Some b" for q b using tree_okD(4) [OF assms(3) that] c(2) by blast
  moreover have "dir_ok vol n f1 ?d Map.empty [c]" by (rule new_dir(2) [OF assms(1)]) simp
  ultimately have loose: "loose vol n f1 ?d T (DirO [c])" using c(3) by (simp add: loose_def)
  have "ATTR_DIRECTORY AND ATTR_VOLUME_ID = 0" and isdir: "(ATTR_DIRECTORY AND ATTR_DIRECTORY \<noteq> 0) = True" by (simp_all add: attr_defs)
  moreover have "entry_ok vol n f1 ?d \<lparr>de_name = fold_case name, de_is_dir = True, de_cluster = c, de_size = 0\<rparr> (DirO [c])" using c(4) by simp
  ultimately have "\<exists>r f' d' T'. yields vol n f1 ?d (add_dir_entry image_device vol (hd cs) name ATTR_DIRECTORY c 0) r f' d' \<and> tree_ok vol n f' d' T'
    \<and> (r = Ok () \<and> tree_view T' = (tree_view T)(p @ [fold_case name] \<mapsto> obj_entry (DirO [c])) \<and> (tight vol n f1 T (set (obj_clusters (DirO [c]))) \<longrightarrow> tight vol n f' T' {})
       \<or> r = Err Io \<and> T' = T \<and> free_set vol n f1 = {} \<and> (\<forall>ch\<in>set (slots ?d cs). \<not> free_chunk ch))"
    by (intro yields_bind [OF assms(1) live1 T assms(4-6) _ _ loose]) (simp_all only:)
  then obtain r f' d' T' where B: "yields vol n f1 ?d (add_dir_entry image_device vol (hd cs) name ATTR_DIRECTORY c 0) r f' d'" "tree_ok vol n f' d' T'"
    "r = Ok () \<and> tree_view T' = (tree_view T)(p @ [fold_case name] \<mapsto> DirE) \<and> (tight vol n f1 T (set [c]) \<longrightarrow> tight vol n f' T' {})
     \<or> r = Err Io \<and> T' = T \<and> free_set vol n f1 = {}"
    unfolding obj_entry.simps obj_clusters.simps by blast
  have "yields vol n f d (bindM (allocate_chain image_device vol 1) (\<lambda>cluster.
      bindM (write_cluster image_device vol cluster (new_dir_block vol cluster up)) (\<lambda>_.
        add_dir_entry image_device vol (hd cs) name ATTR_DIRECTORY cluster 0))) r f' d'"
    by (rule does_bindM [OF alloc], rule does_bindM [OF wr], rule B(1))
  moreover have "card (free_set vol n f) \<le> 1" if "free_set vol n f1 = {}"
    using that fresh_free_set [OF A(2)] xs card_mono [of "{c}" "free_set vol n f"] by auto
  moreover have "tight vol n f T {} \<longrightarrow> tight vol n f1 T (set [c])" using tight_fresh [of vol n f T "[c]" f1] F by simp
  ultimately show ?thesis using B(2,3) by blast
next
  case False
  then have "card (free_set vol n f) < unat (1 :: u32)" unfolding unat_1 by linarith
  from yields_allocate_full [OF assms(1) this, of d] obtain f1 d1 where A: "yields vol n f d (allocate_chain image_device vol 1) (Err Io) f1 d1"
    "\<forall>x. f x \<noteq> 0 \<longrightarrow> f1 x = f x \<and> d1 x = d x" by blast
  note run = yields_bindM_Err [OF A(1)]
  show ?thesis by (rule exI, rule exI, rule exI, rule exI [of _ T], rule conjI [OF run]) (use False tree_frame [OF assms(3) A(2)] in simp_all)
qed

lemma yields_create_dir:
  assumes "fits vol n" "live vol n f d" "tree_ok vol n f d T" "canonical path" "segments path \<noteq> [] \<Longrightarrow> fits_83 (last (segments path))"
  shows "\<exists>r f' d' T'. yields vol n f d (Fat.create_dir image_device vol path) r f' d' \<and> tree_ok vol n f' d' T'
    \<and> meets (card (free_set vol n f)) 1 (keys path) (tree_view T) (spec_create_dir (keys path) (tree_view T)) r (tree_view T')
    \<and> keeps_tight vol n f T r f' T'"
  unfolding create_dir_def spec_create_dir_def Let_def
proof (rule yields_method [OF assms(1,3,4)])
  fix parent name cs
  assume P: "keys path = keys parent @ [fold_case name]" "name = last (segments path)" "segments path \<noteq> []"
    "T (keys parent) = Some (DirO cs)" "chain vol n f (hd cs) cs"
  let ?up = "if parent = ''/'' then 0 else hd cs"
  let ?body = "bindM (find_in_dir image_device vol (hd cs) name) (\<lambda>found. if found \<noteq> None then fail Io
    else bindM (allocate_chain image_device vol 1) (\<lambda>cluster. bindM (write_cluster image_device vol cluster
        (splice 32 (write_short_entry ''..'' ATTR_DIRECTORY ?up 0) (splice 0 (write_short_entry ''.'' ATTR_DIRECTORY cluster 0) (replicate (cluster_bytes vol) 0)))) (\<lambda>_.
      add_dir_entry image_device vol (hd cs) name ATTR_DIRECTORY cluster 0)))"
  let ?g = "if tree_view T (keys path) \<noteq> None then (Err Io, tree_view T) else (Ok (), (tree_view T)(keys path \<mapsto> DirE))"
  note look = does_bindM [OF does_find_in_dir [OF assms(1) P(5)]]
  note find = dir_ok_find [OF tree_okD(2) [OF assms(3) P(4)], of name, folded P(1)]
  show "\<exists>r f' d' T'. yields vol n f d ?body r f' d' \<and> tree_ok vol n f' d' T'
    \<and> meets (card (free_set vol n f)) 1 (keys path) (tree_view T) ?g r (tree_view T') \<and> keeps_tight vol n f T r f' T'"
  proof (cases "T (keys path)")
    case None
    have nm: "fits_83 name" using assms(5) [OF P(3)] P(2) by simp
    obtain r f' d' T' where B: "yields vol n f d (bindM (allocate_chain image_device vol 1) (\<lambda>cluster.
        bindM (write_cluster image_device vol cluster (new_dir_block vol cluster ?up)) (\<lambda>_.
          add_dir_entry image_device vol (hd cs) name ATTR_DIRECTORY cluster 0))) r f' d'" "tree_ok vol n f' d' T'"
      "r = Ok () \<and> tree_view T' = (tree_view T)(keys path \<mapsto> DirE) \<and> (tight vol n f T {} \<longrightarrow> tight vol n f' T' {}) \<or> r = Err Io \<and> T' = T \<and> card (free_set vol n f) \<le> 1"
      using mkdir_stages [OF assms(1-3) P(4) None [unfolded P(1)] nm] unfolding P(1) by blast
    have "yields vol n f d ?body r f' d'"
      by (rule look) (use find(1) [OF None] B(1) in \<open>simp add: new_dir_block_def\<close>)
    moreover have "(tree_view T)(keys path := None) = tree_view T" using None by (simp add: view_simps fun_upd_idem)
    then have "meets (card (free_set vol n f)) 1 (keys path) (tree_view T) ?g r (tree_view T') \<and> keeps_tight vol n f T r f' T'"
      using B(3) None by (auto simp: meets_def view_simps keeps_tight_def)
    ultimately show ?thesis using B(2) by blast
  next
    case (Some ob)
    then have "yields vol n f d ?body (Err Io) f d" using find(2) by (intro look) (auto simp: yields_fail)
    with assms(3) Some show ?thesis
      by (intro exI [of _ "Err Io"] exI [of _ f] exI [of _ d] exI [of _ T]) (simp add: meets_def view_simps keeps_tight_same)
  qed
qed

section \<open>Appending\<close>

lemma dir_error_snoc:
  "dir_error v pre (q @ [k]) = (case dir_error v pre q of None \<Rightarrow> dir_error v (pre @ q @ [k]) [] | Some e \<Rightarrow> Some e)"
  by (induction q arbitrary: pre) (auto split: option.splits entry.splits)

text \<open>The bytes the file has after \<open>append_file\<close>.\<close>

definition appended :: "string list \<Rightarrow> u8 list \<Rightarrow> fs_map \<Rightarrow> u8 list" where
  "appended p data v = (case v p of Some (FileE bs) \<Rightarrow> bs @ data | _ \<Rightarrow> data)"

lemma yields_append_file:
  assumes "fits vol n" "live vol n f d" "tree_ok vol n f d T" "canonical path" "segments path \<noteq> []" "fits_83 (last (segments path))"
    and "storable vol (appended (keys path) data (tree_view T))"
  shows "\<exists>r f' d' T'. yields vol n f d (Fat.append_file image_device vol path data) r f' d' \<and> tree_ok vol n f' d' T'
    \<and> meets (card (free_set vol n f)) (clusters_for vol (appended (keys path) data (tree_view T))) (keys path) (tree_view T)
        (spec_append (keys path) data (tree_view T)) r (tree_view T') \<and> keeps_tight vol n f T r f' T'"
proof -
  let ?bs = "appended (keys path) data (tree_view T)"
  obtain parent name where P: "keys path = keys parent @ [fold_case name]" using canonical_parts [OF assms(4,5)] by metis
  have good: "good_path path" using assms(5) by (simp add: good_path_def)
  note rd = yields_read_file [OF assms(1,3) good]
  obtain r f' d' T' where W: "yields vol n f d (Fat.write_file image_device vol path ?bs) r f' d'" "tree_ok vol n f' d' T'"
    "meets (card (free_set vol n f)) (clusters_for vol ?bs) (keys path) (tree_view T) (spec_write (keys path) ?bs (tree_view T)) r (tree_view T') \<and> keeps_tight vol n f T r f' T'"
    using yields_write_file [OF assms(1-4) _ assms(7)] assms(6) by blast
  have same: "spec_append (keys path) data (tree_view T) = spec_write (keys path) ?bs (tree_view T)"
    by (simp add: spec_append_def spec_write_def spec_in_parent_def appended_def split: option.split entry.split)
  show ?thesis
  proof (cases "spec_read (keys path) (tree_view T)")
    case (Ok bs)
    then have "tree_view T (keys path) = Some (FileE bs)" by (simp add: spec_read_def split: option.splits entry.splits)
    then have "yields vol n f d (Fat.append_file image_device vol path data) r f' d'"
      unfolding append_file_def using W(1) by (intro does_attempt [OF rd [unfolded Ok]]) (simp add: appended_def)
    with W(2,3) show ?thesis unfolding same by blast
  next
    case (Err e)
    then have a: "?bs = data" by (simp add: spec_read_def appended_def split: option.splits entry.splits)
    show ?thesis
    proof (cases "e = NotFound")
      case True
      then have "yields vol n f d (Fat.append_file image_device vol path data) r f' d'"
        unfolding append_file_def using W(1) a by (intro yields_attempt_Err [OF rd [unfolded Err]]) simp
      with W(2,3) show ?thesis unfolding same by blast
    next
      case False
      then have run: "yields vol n f d (Fat.append_file image_device vol path data) (Err e) f d"
        unfolding append_file_def by (intro yields_attempt_Err [OF rd [unfolded Err]]) (cases e; simp add: yields_fail)
      have "meets (card (free_set vol n f)) (clusters_for vol ?bs) (keys path) (tree_view T) (spec_append (keys path) data (tree_view T)) (Err e) (tree_view T)"
      proof (cases "tree_view T (keys parent) = Some DirE")
        case True
        note in_parent_spec(2) [OF assms(3) True, of _ "fold_case name", folded P]
        moreover have "dir_error (tree_view T) [] (keys parent) = None" using True dir_error_tree [OF assms(3), of "[]" "keys parent"] by (auto simp: view_simps)
        ultimately show ?thesis using Err False dir_error_snoc [of "tree_view T" "[]" "keys parent" "fold_case name", folded P]
          by (auto simp: spec_read_def spec_append_def meets_def split: option.splits entry.splits)
      next
        case F: False
        then have "T (keys path) = None" using tree_okD(3) [OF assms(3), of "keys parent"] unfolding P by (metis option.exhaust view_simps(2))
        then have "e = NotADir" using Err False dir_error_range [of "tree_view T" "[]" "keys path"] dir_error_tree [OF assms(3), of "[]" "keys path"]
          by (auto simp: spec_read_def tree_view_def)
        then show ?thesis using in_parent_spec(1) [OF assms(3) F, of _ _ "fold_case name", folded P] by (simp add: spec_append_def)
      qed
      with run assms(3) keeps_tight_same show ?thesis by blast
    qed
  qed (simp add: spec_read_def split: option.splits entry.splits)
qed

section \<open>Removing\<close>

lemma yields_kids:
  assumes "fits vol n" "tree_ok vol n f d T" "T p = Some ob" "entry_ok vol n f d e ob"
  shows "yields vol n f d
      (if de_is_dir e then bindM (read_dir image_device vol (de_cluster e)) (\<lambda>kids. if kids \<noteq> [] then fail Io else ret ()) else ret ())
      (if tree_view T p = Some DirE \<and> has_children (tree_view T) p then Err Io else Ok ()) f d"
proof (cases ob)
  case (FileO cs bs)
  then show ?thesis using assms(3,4) by (simp add: view_simps does_ret)
next
  case (DirO cs)
  then have D: "dir_ok vol n f d (\<lambda>k. T (p @ [k])) cs" and ch: "chain vol n f (de_cluster e) cs" and isdir: "de_is_dir e"
    using tree_okD(2) [OF assms(2)] assms(3,4) by auto
  have "has_children (tree_view T) p \<longleftrightarrow> parse_dir (slots d cs) \<noteq> []"
  proof
    assume "has_children (tree_view T) p"
    then obtain k where "T (p @ [k]) \<noteq> None" by (auto simp: has_children_def view_simps)
    then show "parse_dir (slots d cs) \<noteq> []" using D unfolding dir_ok_def by auto
  next
    assume "parse_dir (slots d cs) \<noteq> []"
    then obtain x where "x \<in> set (parse_dir (slots d cs))" by (metis list.set_intros(1) neq_Nil_conv)
    then obtain b where "T (p @ [de_name x]) = Some b" using D unfolding dir_ok_def by blast
    then show "has_children (tree_view T) p" unfolding has_children_def by (metis option.discI view_simps(1))
  qed
  with DirO assms(3) isdir show ?thesis
    by (auto simp: view_simps intro!: does_bindM [OF does_read_dir [OF assms(1) ch]] does_ret yields_fail)
qed

lemma yields_remove:
  assumes "fits vol n" "live vol n f d" "tree_ok vol n f d T" "canonical path"
  shows "\<exists>f' d' T'. yields vol n f d (Fat.remove image_device vol path) (fst (spec_remove (keys path) (tree_view T))) f' d' \<and> tree_ok vol n f' d' T'
    \<and> tree_view T' = snd (spec_remove (keys path) (tree_view T)) \<and> (tight vol n f T {} \<longrightarrow> tight vol n f' T' {})"
proof (cases "segments path = []")
  case True
  then have "yields vol n f d (liftO (split_parent path)) (Err Io) f d"
    using canonical_root [OF assms(4) True] yields_liftO [of vol n f d "split_parent path"] by (simp add: split_root)
  moreover have "keys path = []" using True by (simp add: keys_def)
  ultimately show ?thesis using assms(3) unfolding remove_def
    by (intro exI [of _ f] exI [of _ d] exI [of _ T]) (simp add: yields_bindM_Err spec_remove_def spec_in_parent_def)
next
  case False
  obtain parent name where P: "split_parent path = Ok (parent, name)" "good_path parent" "keys path = keys parent @ [fold_case name]"
    using canonical_parts [OF assms(4) False] by metis
  note start = does_bindM [OF does_liftO [OF P(1)]]
  show ?thesis
  proof (cases "tree_view T (keys parent) = Some DirE")
    case False
    from yields_cluster_for_Err [OF assms(1,3) P(2) False] obtain e where
      e: "yields vol n f d (cluster_for image_device vol parent) (Err e) f d" "dir_error (tree_view T) [] (keys parent) = Some e" by blast
    have "yields vol n f d (Fat.remove image_device vol path) (Err e) f d" unfolding remove_def by (rule start) (simp add: yields_bindM_Err [OF e(1)])
    with e(2) assms(3) show ?thesis by (intro exI [of _ f] exI [of _ d] exI [of _ T]) (simp add: spec_remove_def spec_in_parent_def P(3))
  next
    case True
    then obtain cs where cs: "T (keys parent) = Some (DirO cs)" by (auto simp: view_simps)
    have ch: "chain vol n f (hd cs) cs" using dir_chain [OF assms(3) cs] by blast
    note spec = in_parent_spec(2) [OF assms(3) True, of _ "fold_case name", folded P(3)]
    note find = dir_ok_find [OF tree_okD(2) [OF assms(3) cs], of name, folded P(3)]
    let ?kids = "\<lambda>entry. if de_is_dir entry then bindM (read_dir image_device vol (de_cluster entry)) (\<lambda>kids. if kids \<noteq> [] then fail Io else ret ()) else ret ()"
    let ?body = "\<lambda>entry. bindM (?kids entry) (\<lambda>_. bindM (free_entry_chain image_device vol entry) (\<lambda>_. delete_dir_entry image_device vol (hd cs) name))"
    have run: "yields vol n f d (Fat.remove image_device vol path) r f' d'"
      if "yields vol n f d (case find_entry name (parse_dir (slots d cs)) of None \<Rightarrow> fail NotFound | Some entry \<Rightarrow> ?body entry) r f' d'" for r f' d'
      unfolding remove_def by (rule start, unfold prod.case, rule does_bindM [OF does_cluster_for [OF assms(1,3) P(2) cs]],
          rule does_bindM [OF does_find_in_dir [OF assms(1) ch]], rule that)
    show ?thesis
    proof (cases "T (keys path)")
      case None
      have "yields vol n f d (Fat.remove image_device vol path) (Err NotFound) f d" by (rule run) (simp add: find(1) [OF None] yields_fail)
      with None assms(3) show ?thesis by (intro exI [of _ f] exI [of _ d] exI [of _ T]) (simp add: spec_remove_def spec view_simps)
    next
      case (Some ob)
      then obtain e where e: "find_entry name (parse_dir (slots d cs)) = Some e" "entry_ok vol n f d e ob" using find(2) by blast
      have kids: "yields vol n f d (?kids e) (if tree_view T (keys path) = Some DirE \<and> has_children (tree_view T) (keys path) then Err Io else Ok ()) f d"
        by (rule yields_kids [OF assms(1,3) Some e(2)])
      show ?thesis
      proof (cases "tree_view T (keys path) = Some DirE \<and> has_children (tree_view T) (keys path)")
        case True
        have "yields vol n f d (Fat.remove image_device vol path) (Err Io) f d"
          using kids True by (intro run) (simp add: e(1) yields_bindM_Err)
        with True Some assms(3) show ?thesis by (intro exI [of _ f] exI [of _ d] exI [of _ T]) (auto simp: spec_remove_def spec view_simps)
      next
        case F: False
        have empty: "T ((keys parent @ [fold_case name]) @ [j]) = None" for j
          using F file_has_no_child [OF assms(3), of "keys path" _ _ "[j]"] Some by (cases ob) (auto simp: has_children_def view_simps P(3))
        obtain f' d' where B: "does vol n f d (bindM (free_entry_chain image_device vol e) (\<lambda>_. delete_dir_entry image_device vol (hd cs) name)) () f' d'"
          "tree_ok vol n f' d' (T(keys path := None))" "tight vol n f T {} \<longrightarrow> tight vol n f' (T(keys path := None)) {}"
          using does_unbind [OF assms(1-3) cs e(1) Some [unfolded P(3)] empty] unfolding P(3) by blast
        have "does vol n f d (?kids e) () f d" using kids F by (simp only: if_False)
        then have "does vol n f d (?body e) () f' d'" by (rule does_bindM) (rule B(1))
        then have "does vol n f d (Fat.remove image_device vol path) () f' d'" by (intro run) (simp add: e(1))
        moreover have "spec_remove (keys path) (tree_view T) = (Ok (), (tree_view T)(keys path := None))"
          using F Some by (auto simp: spec_remove_def spec view_simps)
        ultimately show ?thesis using B(2,3) by (intro exI [of _ f'] exI [of _ d'] exI [of _ "T(keys path := None)"]) (simp add: view_upd del: fun_upd_apply)
      qed
    qed
  qed
qed

end
