(* ===== verification/FatVolume.thy ===== *)
theory FatVolume
  imports FatOps
begin

text \<open>
  The FAT driver on a block device, as its clients see it. \<open>fat_volume vol n T im\<close> says that the disk image \<open>im\<close> is a
  volume with the directory tree \<open>T\<close>. On any device that meets the \<open>block_device\<close> contract every method returns, keeps
  the disk such a volume, and does what \<open>FsSpec\<close> says to the map from paths to contents, unless the volume is full. A sequence of
  calls therefore acts on that map, and mounting the disk again finds what the calls left. \<open>no_leaks\<close> says that every
  allocated cluster belongs to the tree; calls keep it unless they report \<open>Io\<close>.
\<close>

section \<open>Volumes\<close>

definition fat_volume :: "FatFs \<Rightarrow> nat \<Rightarrow> tree \<Rightarrow> image \<Rightarrow> bool" where
  "fat_volume vol n T im \<longleftrightarrow> fits vol n \<and> (\<exists>f d. holds vol n f d im \<and> tree_ok vol n f d T)"

definition free_clusters :: "FatFs \<Rightarrow> image \<Rightarrow> nat" where
  "free_clusters vol im = card (free_set vol (length im) (fat_copy vol 0 im))"

lemma free_clusters_held:
  assumes "fits vol n" "holds vol n f d im"
  shows "free_clusters vol im = card (free_set vol n f)"
proof -
  have "0 < unat (num_fats vol)" using fitsD(3) [OF assms(1)] by simp
  then have "fat_copy vol 0 im c = f c" if "data_cluster vol n c" for c using assms(2) data_cluster_unat [OF that] by (simp add: holds_def)
  then have "free_set vol n (fat_copy vol 0 im) = free_set vol n f" by (auto simp: free_set_def)
  moreover have "length im = n" using assms(2) by (simp add: holds_def)
  ultimately show ?thesis by (simp add: free_clusters_def)
qed

text \<open>No cluster is lost: every allocated one belongs to a file or a directory of the tree.\<close>

definition no_leaks :: "FatFs \<Rightarrow> tree \<Rightarrow> image \<Rightarrow> bool" where
  "no_leaks vol T im \<longleftrightarrow> tight vol (length im) (fat_copy vol 0 im) T {}"

lemma no_leaks_held:
  assumes "fits vol n" "holds vol n f d im"
  shows "no_leaks vol T im = tight vol n f T {}"
proof -
  have "0 < unat (num_fats vol)" using fitsD(3) [OF assms(1)] by simp
  then have "fat_copy vol 0 im c = f c" if "data_cluster vol n c" for c using assms(2) data_cluster_unat [OF that] by (simp add: holds_def)
  moreover have "length im = n" using assms(2) by (simp add: holds_def)
  ultimately show ?thesis by (auto simp: no_leaks_def tight_def)
qed

lemma card_data_clusters:
  assumes "fits vol n"
  shows "card {c. data_cluster vol n c} = lim vol n - 2"
proof -
  have "unat ` {c. data_cluster vol n c} = {2..<lim vol n}"
  proof
    show "{2..<lim vol n} \<subseteq> unat ` {c. data_cluster vol n c}"
    proof
      fix k assume k: "k \<in> {2..<lim vol n}"
      then have "unat (word_of_nat k :: u32) = k" by (intro unat_cluster [OF assms] lim_cap(2) [of _ _ n]) simp
      with k show "k \<in> unat ` {c. data_cluster vol n c}" by (intro image_eqI [of _ _ "word_of_nat k"]) (auto simp: data_cluster_def)
    qed
  qed (auto simp: data_cluster_def)
  moreover have "card (unat ` {c. data_cluster vol n c}) = card {c. data_cluster vol n c}" by (simp add: card_image inj_on_def word_unat_eq_iff)
  ultimately show ?thesis by (metis card_atLeastLessThan)
qed

lemma tree_data:
  assumes "tree_ok vol n f d T" "T p = Some ob" "x \<in> set (obj_clusters ob)"
  shows "data_cluster vol n x"
proof (cases ob)
  case (DirO cs)
  then show ?thesis using dir_chain [OF assms(1)] assms(2,3) chain_data by fastforce
next
  case (FileO cs bs)
  then obtain q k where p: "p = q @ [k]" using tree_okD(1) [OF assms(1)] assms(2) by (cases p rule: rev_cases) auto
  obtain cq where "T q = Some (DirO cq)" using tree_okD(3) [OF assms(1)] assms(2) p by blast
  from tree_okD(2) [OF assms(1) this] assms(2) p obtain e where "entry_ok vol n f d e ob" unfolding dir_ok_def by fastforce
  then show ?thesis using entry_data assms(3) by blast
qed

lemma space_exact:
  assumes "fat_volume vol n T im" "no_leaks vol T im"
  shows "free_clusters vol im + card (tree_clusters T) = lim vol n - 2"
proof -
  from assms(1) obtain f d where h: "fits vol n" "holds vol n f d im" "tree_ok vol n f d T" by (auto simp: fat_volume_def)
  have data: "data_cluster vol n c" if "c \<in> tree_clusters T" for c
    using that tree_data [OF h(3)] by (auto simp: tree_clusters_def)
  have used: "f c \<noteq> 0" if "c \<in> tree_clusters T" for c using that tree_okD(4) [OF h(3)] by (auto simp: tree_clusters_def)
  have "{c. data_cluster vol n c} = free_set vol n f \<union> tree_clusters T"
    using assms(2) data no_leaks_held [OF h(1,2), of T] by (auto simp: tight_def free_set_def)
  moreover have "free_set vol n f \<inter> tree_clusters T = {}" using used by (auto simp: free_set_def)
  ultimately have "card (free_set vol n f) + card (tree_clusters T) = lim vol n - 2"
    using card_data_clusters [OF h(1)] card_Un_disjoint [of "free_set vol n f" "tree_clusters T"] by simp
  then show ?thesis using free_clusters_held [OF h(1,2)] by simp
qed

lemma live_held: "holds vol n f d im \<Longrightarrow> live vol n f d"
  by (auto simp: live_def)

text \<open>Paths whose last segment the driver can store, and the root.\<close>

definition short_path :: "string \<Rightarrow> bool" where
  "short_path path \<longleftrightarrow> canonical path \<and> (segments path = [] \<or> fits_83 (last (segments path)))"

lemma canonical_good: "canonical path \<Longrightarrow> good_path path"
  by (auto simp: good_path_def canonical_def)

lemma clusters_for_le:
  assumes "fits vol n"
  shows "clusters_for vol data \<le> length data div 512 + 1" "length data \<le> clusters_for vol data * cluster_bytes vol"
proof -
  let ?k = "cluster_bytes vol"
  have k: "512 \<le> ?k" using cluster_bytes_eq fitsD(1) [OF assms] by (simp add: vol_ok_def)
  have "(length data + ?k - 1) div ?k \<le> (length data + ?k) div ?k" by (rule div_le_mono) simp
  also have "\<dots> = length data div ?k + 1" using k by (intro div_add_self2) auto
  also have "\<dots> \<le> length data div 512 + 1" using k by (simp add: div_le_mono2)
  finally show "clusters_for vol data \<le> length data div 512 + 1" by (simp add: clusters_for_def)
  have "0 < ?k" using k by simp
  then show "length data \<le> clusters_for vol data * ?k"
    using div_mult_mod_eq [of "length data + ?k - 1" ?k] mod_less_divisor [of ?k "length data + ?k - 1"] unfolding clusters_for_def by linarith
qed

lemma storable_length: "fits vol n \<Longrightarrow> length data < 2 ^ 32 \<Longrightarrow> storable vol data"
  using clusters_for_le(1) [of vol n data] by (simp add: storable_def)

lemma volume_storable: "fat_volume vol n T im \<Longrightarrow> length data < 2 ^ 32 \<Longrightarrow> storable vol data"
  by (auto simp: fat_volume_def intro: storable_length)

text \<open>On a volume below 4 GiB what fits is below 4 GiB.\<close>

lemma storable_small:
  assumes "fits vol n" "cap vol * cluster_bytes vol < 2 ^ 32" "length data < 2 ^ 40"
  shows "storable vol data"
proof -
  have "length data < 2 ^ 32" if "clusters_for vol data \<le> cap vol"
    using clusters_for_le(2) [OF assms(1), of data] mult_le_mono1 [OF that, of "cluster_bytes vol"] assms(2) by linarith
  then show ?thesis using clusters_for_le(1) [OF assms(1), of data] assms(3) by (simp add: storable_def)
qed

lemma tree_file_size:
  assumes "tree_ok vol n f d T" "tree_view T p = Some (FileE bs)"
  shows "length bs < 2 ^ 32"
proof -
  obtain cs where cs: "T p = Some (FileO cs bs)" using assms(2) by (auto simp: view_simps)
  then obtain q k where p: "p = q @ [k]" using tree_okD(1) [OF assms(1)] by (cases p rule: rev_cases) auto
  obtain cq where "T q = Some (DirO cq)" using tree_okD(3) [OF assms(1)] cs p by blast
  from tree_okD(2) [OF assms(1) this] cs p obtain e where "entry_ok vol n f d e (FileO cs bs)" unfolding dir_ok_def by fastforce
  then show ?thesis by simp
qed

lemma read_unbound:
  assumes "tree_ok vol n f d T" "T p = Some (FileO os bs)" "tree_ok vol n f' d' (T(p := None))"
  shows "spec_read p (tree_view (T(p := None))) = Err NotFound"
proof -
  obtain q k where p: "p = q @ [k]" using assms(2) tree_okD(1) [OF assms(1)] by (cases p rule: rev_cases) auto
  then obtain cs where "T q = Some (DirO cs)" using tree_okD(3) [OF assms(1)] assms(2) by blast
  then have "(T(p := None)) q = Some (DirO cs)" using p by simp
  then have "dir_error (tree_view (T(p := None))) [] q = None" using dir_error_tree [OF assms(3), of "[]" q] by simp
  then show ?thesis by (simp add: spec_read_def view_upd dir_error_snoc p)
qed

section \<open>The methods on a device\<close>

context block_device
begin

lemma yields_dev:
  assumes "refines rel m m'" "ok s" "holds vol n f d (image_of s)" "yields vol n f d m r f' d'"
  shows "\<exists>s'. m' s = Some (r, s') \<and> ok s' \<and> holds vol n f' d' (image_of s')"
proof -
  obtain im' where "m (image_of s) = Some (r, im')" "holds vol n f' d' im'" using yieldsD [OF assms(4,3)] by blast
  with refinesD [OF assms(1), of s "image_of s"] assms(2) show ?thesis by (fastforce simp: rel_def)
qed

lemma read_dev:
  assumes "refines rel m m'" "ok s" "fat_volume vol n T (image_of s)" "\<And>f d. tree_ok vol n f d T \<Longrightarrow> yields vol n f d m r f d"
  shows "\<exists>s'. m' s = Some (r, s') \<and> ok s' \<and> fat_volume vol n T (image_of s')"
proof -
  from assms(3) obtain f d where h: "fits vol n" "holds vol n f d (image_of s)" "tree_ok vol n f d T" by (auto simp: fat_volume_def)
  from yields_dev [OF assms(1,2) h(2) assms(4) [OF h(3)]] h show ?thesis unfolding fat_volume_def by blast
qed

text \<open>A method that is right on the tree is right on the device.\<close>

lemma method_dev:
  assumes "refines rel m m'" "ok s" "fat_volume vol n T (image_of s)"
    and "\<And>f d. fits vol n \<Longrightarrow> live vol n f d \<Longrightarrow> tree_ok vol n f d T \<Longrightarrow>
      \<exists>r f' d' T'. yields vol n f d m r f' d' \<and> tree_ok vol n f' d' T' \<and> P (card (free_set vol n f)) r T' \<and> keeps_tight vol n f T r f' T'"
  shows "\<exists>r s' T'. m' s = Some (r, s') \<and> ok s' \<and> fat_volume vol n T' (image_of s') \<and> P (free_clusters vol (image_of s)) r T'
    \<and> (no_leaks vol T (image_of s) \<and> r \<noteq> Err Io \<longrightarrow> no_leaks vol T' (image_of s'))"
proof -
  from assms(3) obtain f d where h: "fits vol n" "holds vol n f d (image_of s)" "tree_ok vol n f d T" by (auto simp: fat_volume_def)
  obtain r f' d' T' where m: "yields vol n f d m r f' d'" "tree_ok vol n f' d' T'" "P (card (free_set vol n f)) r T'"
    "keeps_tight vol n f T r f' T'" using assms(4) [OF h(1) live_held [OF h(2)] h(3)] by blast
  obtain s' where s': "m' s = Some (r, s')" "ok s'" "holds vol n f' d' (image_of s')" using yields_dev [OF assms(1,2) h(2) m(1)] by blast
  have "no_leaks vol T (image_of s) \<and> r \<noteq> Err Io \<longrightarrow> no_leaks vol T' (image_of s')"
    using m(4) no_leaks_held [OF h(1,2)] no_leaks_held [OF h(1) s'(3)] by (simp add: keeps_tight_def)
  moreover have "P (free_clusters vol (image_of s)) r T'" using m(3) free_clusters_held [OF h(1,2)] by simp
  ultimately show ?thesis using s' m(2) h(1) unfolding fat_volume_def by blast
qed

lemma mount_dev:
  "ok s \<Longrightarrow> fat_volume vol n T (image_of s) \<Longrightarrow> \<exists>s'. mount dev s = Some (Ok vol, s') \<and> ok s' \<and> fat_volume vol n T (image_of s')"
  by (rule read_dev [OF refines_mount]) (auto simp: fat_volume_def intro: does_mount)

lemma read_file_dev:
  "ok s \<Longrightarrow> fat_volume vol n T (image_of s) \<Longrightarrow> good_path path \<Longrightarrow>
    \<exists>s'. Fat.read_file dev vol path s = Some (spec_read (keys path) (tree_view T), s') \<and> ok s' \<and> fat_volume vol n T (image_of s')"
  by (rule read_dev [OF refines_read_file]) (auto simp: fat_volume_def intro: yields_read_file)

lemma is_dir_dev:
  "ok s \<Longrightarrow> fat_volume vol n T (image_of s) \<Longrightarrow> good_path path \<Longrightarrow>
    \<exists>s'. Fat.is_dir dev vol path s = Some (Ok (tree_view T (keys path) = Some DirE), s') \<and> ok s' \<and> fat_volume vol n T (image_of s')"
  by (rule read_dev [OF refines_is_dir]) (auto simp: fat_volume_def intro: does_is_dir)

lemma list_dir_dev:
  assumes "ok s" "fat_volume vol n T (image_of s)" "good_path path"
  shows "\<exists>r s'. Fat.list_dir dev vol path s = Some (r, s') \<and> ok s' \<and> fat_volume vol n T (image_of s')
    \<and> (case tree_view T (keys path) of
         Some DirE \<Rightarrow> (\<exists>names. r = Ok names \<and> distinct names \<and> set names = {k. tree_view T (keys path @ [k]) \<noteq> None})
       | Some (FileE _) \<Rightarrow> r = Err NotADir
       | None \<Rightarrow> r = Err (the (dir_error (tree_view T) [] (keys path))))" (is "\<exists>r s'. _ \<and> _ \<and> _ \<and> ?lists r")
proof -
  have "\<exists>r s' T'. Fat.list_dir dev vol path s = Some (r, s') \<and> ok s' \<and> fat_volume vol n T' (image_of s') \<and> (T' = T \<and> ?lists r)
      \<and> (no_leaks vol T (image_of s) \<and> r \<noteq> Err Io \<longrightarrow> no_leaks vol T' (image_of s'))"
  proof (rule method_dev [OF refines_list_dir assms(1,2)])
    fix f d assume "fits vol n" "live vol n f d" "tree_ok vol n f d T"
    with yields_list_dir [OF _ _ assms(3)]
    show "\<exists>r f' d' T'. yields vol n f d (Fat.list_dir image_device vol path) r f' d' \<and> tree_ok vol n f' d' T' \<and> (T' = T \<and> ?lists r) \<and> keeps_tight vol n f T r f' T'"
      using keeps_tight_same by blast
  qed
  then show ?thesis by blast
qed

lemma write_file_dev:
  assumes "ok s" "fat_volume vol n T (image_of s)" "short_path path" "storable vol data"
  shows "\<exists>r s' T'. Fat.write_file dev vol path data s = Some (r, s') \<and> ok s' \<and> fat_volume vol n T' (image_of s')
    \<and> meets (free_clusters vol (image_of s)) (clusters_for vol data) (keys path) (tree_view T) (spec_write (keys path) data (tree_view T)) r (tree_view T')
    \<and> (no_leaks vol T (image_of s) \<and> r \<noteq> Err Io \<longrightarrow> no_leaks vol T' (image_of s'))"
  by (rule method_dev [OF refines_write_file assms(1,2)], rule yields_write_file) (use assms(3,4) in \<open>auto simp: short_path_def\<close>)

lemma create_file_dev:
  assumes "ok s" "fat_volume vol n T (image_of s)" "short_path path"
  shows "\<exists>r s' T'. Fat.create_file dev vol path s = Some (r, s') \<and> ok s' \<and> fat_volume vol n T' (image_of s')
    \<and> meets (free_clusters vol (image_of s)) 0 (keys path) (tree_view T) (spec_write (keys path) [] (tree_view T)) r (tree_view T')
    \<and> (no_leaks vol T (image_of s) \<and> r \<noteq> Err Io \<longrightarrow> no_leaks vol T' (image_of s'))"
  by (rule method_dev [OF refines_create_file assms(1,2)], rule yields_create_file) (use assms(3) in \<open>auto simp: short_path_def\<close>)

lemma append_file_dev:
  assumes "ok s" "fat_volume vol n T (image_of s)" "short_path path" "segments path \<noteq> []"
    and "storable vol (appended (keys path) data (tree_view T))"
  shows "\<exists>r s' T'. Fat.append_file dev vol path data s = Some (r, s') \<and> ok s' \<and> fat_volume vol n T' (image_of s')
    \<and> meets (free_clusters vol (image_of s)) (clusters_for vol (appended (keys path) data (tree_view T))) (keys path) (tree_view T)
        (spec_append (keys path) data (tree_view T)) r (tree_view T')
    \<and> (no_leaks vol T (image_of s) \<and> r \<noteq> Err Io \<longrightarrow> no_leaks vol T' (image_of s'))"
  by (rule method_dev [OF refines_append_file assms(1,2)], rule yields_append_file) (use assms(3-5) in \<open>auto simp: short_path_def\<close>)

lemma create_dir_dev:
  assumes "ok s" "fat_volume vol n T (image_of s)" "short_path path"
  shows "\<exists>r s' T'. Fat.create_dir dev vol path s = Some (r, s') \<and> ok s' \<and> fat_volume vol n T' (image_of s')
    \<and> meets (free_clusters vol (image_of s)) 1 (keys path) (tree_view T) (spec_create_dir (keys path) (tree_view T)) r (tree_view T')
    \<and> (no_leaks vol T (image_of s) \<and> r \<noteq> Err Io \<longrightarrow> no_leaks vol T' (image_of s'))"
  by (rule method_dev [OF refines_create_dir assms(1,2)], rule yields_create_dir) (use assms(3) in \<open>auto simp: short_path_def\<close>)

lemma remove_dev:
  assumes "ok s" "fat_volume vol n T (image_of s)" "canonical path"
  shows "\<exists>r s' T'. Fat.remove dev vol path s = Some (r, s') \<and> ok s' \<and> fat_volume vol n T' (image_of s')
    \<and> (r, tree_view T') = spec_remove (keys path) (tree_view T)
    \<and> (no_leaks vol T (image_of s) \<and> r \<noteq> Err Io \<longrightarrow> no_leaks vol T' (image_of s'))"
proof (rule method_dev [OF refines_remove assms(1,2)])
  fix f d assume "fits vol n" "live vol n f d" "tree_ok vol n f d T"
  from yields_remove [OF this assms(3)] show "\<exists>r f' d' T'. yields vol n f d (Fat.remove image_device vol path) r f' d' \<and> tree_ok vol n f' d' T'
    \<and> (r, tree_view T') = spec_remove (keys path) (tree_view T) \<and> keeps_tight vol n f T r f' T'" unfolding keeps_tight_def by (metis prod.collapse)
qed

lemma write_full_dev:
  assumes "ok s" "fat_volume vol n T (image_of s)" "canonical path" "T (keys path) = Some (FileO os bs)" "storable vol data"
    and "free_clusters vol (image_of s) + length os < clusters_for vol data"
  shows "\<exists>s'. Fat.write_file dev vol path data s = Some (Err Io, s') \<and> ok s' \<and> fat_volume vol n (T(keys path := None)) (image_of s')
    \<and> free_clusters vol (image_of s') = 0"
proof -
  from assms(2) obtain f d where h: "fits vol n" "holds vol n f d (image_of s)" "tree_ok vol n f d T" by (auto simp: fat_volume_def)
  obtain f' d' where m: "yields vol n f d (Fat.write_file image_device vol path data) (Err Io) f' d'" "tree_ok vol n f' d' (T(keys path := None))"
    "free_set vol n f' = {}" using yields_write_full [OF h(1) live_held [OF h(2)] h(3) assms(3-5)] assms(6) free_clusters_held [OF h(1,2)] by auto
  obtain s' where s': "Fat.write_file dev vol path data s = Some (Err Io, s')" "ok s'" "holds vol n f' d' (image_of s')"
    using yields_dev [OF refines_write_file assms(1) h(2) m(1)] by blast
  with m(2,3) h(1) free_clusters_held [OF h(1) s'(3)] show ?thesis unfolding fat_volume_def by auto
qed

end

section \<open>Sequences of calls\<close>

text \<open>The writing methods as data, so that a client is a list of calls. An error does not stop the client.\<close>

datatype fat_call = CreateFile string | WriteFile string "u8 list" | AppendFile string "u8 list" | CreateDir string | RemovePath string

fun fat_exec :: "'d BlockDevice \<Rightarrow> FatFs \<Rightarrow> fat_call \<Rightarrow> ('d, FsError, unit) io" where
  "fat_exec dev vol (CreateFile path) = Fat.create_file dev vol path"
| "fat_exec dev vol (WriteFile path data) = Fat.write_file dev vol path data"
| "fat_exec dev vol (AppendFile path data) = Fat.append_file dev vol path data"
| "fat_exec dev vol (CreateDir path) = Fat.create_dir dev vol path"
| "fat_exec dev vol (RemovePath path) = Fat.remove dev vol path"

fun call_path :: "fat_call \<Rightarrow> string" where
  "call_path (CreateFile path) = path"
| "call_path (WriteFile path data) = path"
| "call_path (AppendFile path data) = path"
| "call_path (CreateDir path) = path"
| "call_path (RemovePath path) = path"

fun call_data :: "fat_call \<Rightarrow> u8 list" where
  "call_data (WriteFile path data) = data"
| "call_data (AppendFile path data) = data"
| "call_data _ = []"

definition call_ok :: "fat_call \<Rightarrow> bool" where
  "call_ok c \<longleftrightarrow> short_path (call_path c) \<and> length (call_data c) < 2 ^ 32 \<and> (\<forall>path data. c = AppendFile path data \<longrightarrow> segments path \<noteq> [])"

fun call_spec :: "fat_call \<Rightarrow> fs_map \<Rightarrow> (FsError, unit) outcome \<times> fs_map" where
  "call_spec (CreateFile path) v = apfst fat_result (spec_write (keys path) [] v)"
| "call_spec (WriteFile path data) v = apfst fat_result (spec_write (keys path) data v)"
| "call_spec (AppendFile path data) v = apfst fat_result (spec_append (keys path) data v)"
| "call_spec (CreateDir path) v = apfst fat_result (spec_create_dir (keys path) v)"
| "call_spec (RemovePath path) v = spec_remove (keys path) v"

text \<open>
  What the specification allows: the specified step, or, when that would succeed but the volume is full, \<open>Io\<close> with the path
  unbound. Removing needs no room.
\<close>

inductive explains :: "fat_call list \<Rightarrow> fs_map \<Rightarrow> (FsError, unit) outcome list \<Rightarrow> fs_map \<Rightarrow> bool" where
  explains_done: "explains [] v [] v"
| explains_step: "(r, v1) = call_spec c v \<Longrightarrow> explains cs v1 rs v' \<Longrightarrow> explains (c # cs) v (r # rs) v'"
| explains_full: "fst (call_spec c v) = Ok () \<Longrightarrow> (\<And>path. c \<noteq> RemovePath path) \<Longrightarrow> explains cs (v(keys (call_path c) := None)) rs v' \<Longrightarrow>
    explains (c # cs) v (Err Io # rs) v'"

fun run_calls :: "'d BlockDevice \<Rightarrow> FatFs \<Rightarrow> fat_call list \<Rightarrow> 'd \<Rightarrow> ((FsError, unit) outcome list \<times> 'd) option" where
  "run_calls dev vol [] s = Some ([], s)"
| "run_calls dev vol (c # cs) s =
     (case fat_exec dev vol c s of
        None \<Rightarrow> None
      | Some (r, s1) \<Rightarrow> map_option (\<lambda>(rs, s'). (r # rs, s')) (run_calls dev vol cs s1))"

definition call_step :: "fat_call \<Rightarrow> fs_map \<Rightarrow> (FsError, unit) outcome \<Rightarrow> fs_map \<Rightarrow> bool" where
  "call_step c v r v1 \<longleftrightarrow> (r, v1) = call_spec c v
     \<or> fst (call_spec c v) = Ok () \<and> (\<forall>path. c \<noteq> RemovePath path) \<and> r = Err Io \<and> v1 = v(keys (call_path c) := None)"

lemma meets_step:
  "meets free need p v spec r v1 \<Longrightarrow> call_spec c v = apfst fat_result spec \<Longrightarrow> (\<And>path. c \<noteq> RemovePath path) \<Longrightarrow> p = keys (call_path c) \<Longrightarrow>
    call_step c v r v1"
  by (cases spec) (auto simp: meets_def call_step_def)

context block_device
begin

lemma call_dev:
  assumes "ok s" "fat_volume vol n T (image_of s)" "cap vol * cluster_bytes vol < 2 ^ 32" "call_ok c"
  shows "\<exists>r s' T'. fat_exec dev vol c s = Some (r, s') \<and> ok s' \<and> fat_volume vol n T' (image_of s') \<and> call_step c (tree_view T) r (tree_view T')
    \<and> (no_leaks vol T (image_of s) \<and> r \<noteq> Err Io \<longrightarrow> no_leaks vol T' (image_of s'))"
proof -
  have fits: "fits vol n" using assms(2) by (simp add: fat_volume_def)
  have c: "short_path (call_path c)" "length (call_data c) < 2 ^ 32" "\<forall>path data. c = AppendFile path data \<longrightarrow> segments path \<noteq> []"
    using assms(4) by (simp_all add: call_ok_def)
  have "storable vol (appended (keys path) data (tree_view T))" if "length data < 2 ^ 32" for path data
  proof (rule storable_small [OF fits assms(3)])
    have "length bs < 2 ^ 32" if "tree_view T p = Some (FileE bs)" for p bs using assms(2) tree_file_size that by (auto simp: fat_volume_def)
    then show "length (appended (keys path) data (tree_view T)) < 2 ^ 40"
      using that by (fastforce simp: appended_def split: option.split entry.split)
  qed
  note app = append_file_dev [OF assms(1,2) _ _ this]
  show ?thesis
  proof (cases c)
    case (CreateFile path)
    with create_file_dev [OF assms(1,2)] c(1) meets_step [of _ _ _ _ _ _ _ c] show ?thesis by simp blast
  next
    case (WriteFile path data)
    with write_file_dev [OF assms(1,2) _ storable_length [OF fits]] c meets_step [of _ _ _ _ _ _ _ c] show ?thesis by simp blast
  next
    case (AppendFile path data)
    with app c meets_step [of _ _ _ _ _ _ _ c] show ?thesis by simp blast
  next
    case (CreateDir path)
    with create_dir_dev [OF assms(1,2)] c(1) meets_step [of _ _ _ _ _ _ _ c] show ?thesis by simp blast
  next
    case (RemovePath path)
    with remove_dev [OF assms(1,2), of path] c(1) show ?thesis by (simp add: short_path_def call_step_def)
  qed
qed

lemma calls_dev:
  "ok s \<Longrightarrow> fat_volume vol n T (image_of s) \<Longrightarrow> cap vol * cluster_bytes vol < 2 ^ 32 \<Longrightarrow> list_all call_ok cs \<Longrightarrow>
    \<exists>rs s' T'. run_calls dev vol cs s = Some (rs, s') \<and> ok s' \<and> fat_volume vol n T' (image_of s') \<and> explains cs (tree_view T) rs (tree_view T')
      \<and> (no_leaks vol T (image_of s) \<and> Err Io \<notin> set rs \<longrightarrow> no_leaks vol T' (image_of s'))"
proof (induction cs arbitrary: s T)
  case Nil
  then show ?case by (auto intro: explains_done)
next
  case (Cons c cs)
  obtain r s1 T1 where 1: "fat_exec dev vol c s = Some (r, s1)" "ok s1" "fat_volume vol n T1 (image_of s1)"
    "call_step c (tree_view T) r (tree_view T1)" "no_leaks vol T (image_of s) \<and> r \<noteq> Err Io \<longrightarrow> no_leaks vol T1 (image_of s1)"
    using call_dev [OF Cons.prems(1-3), of c] Cons.prems(4) by auto
  obtain rs s' T' where 2: "run_calls dev vol cs s1 = Some (rs, s')" "ok s'" "fat_volume vol n T' (image_of s')" "explains cs (tree_view T1) rs (tree_view T')"
    "no_leaks vol T1 (image_of s1) \<and> Err Io \<notin> set rs \<longrightarrow> no_leaks vol T' (image_of s')" using Cons.IH [OF 1(2,3) Cons.prems(3)] Cons.prems(4) by auto
  have "explains (c # cs) (tree_view T) (r # rs) (tree_view T')" using 1(4) 2(4) by (auto simp: call_step_def intro: explains_step explains_full)
  moreover have "no_leaks vol T (image_of s) \<and> Err Io \<notin> set (r # rs) \<longrightarrow> no_leaks vol T' (image_of s')" using 1(5) 2(5) by auto
  moreover have "run_calls dev vol (c # cs) s = Some (r # rs, s')" using 1(1) 2(1) by simp
  ultimately show ?case using 2(2,3) by blast
qed

end

section \<open>What the driver promises\<close>

text \<open>
  C6: \<open>write_file\<close> is one update of the map from paths to contents. On any block device that holds a FAT volume, for any
  path whose last segment is an 8.3 name and any data below 4 GiB, the call returns and the disk is a volume again. The result and
  the new map are the specified ones, for every directory and every error (a missing parent counts as \<open>NotADir\<close>); only if
  there are no more free clusters than the data need may a call that should succeed return \<open>Io\<close> instead, and then the
  path, and no other, is unbound.
\<close>

theorem fat_write_refines:
  assumes "block_device dev ok blk" "ok s" "fat_volume vol n T (device_image dev blk s)" "short_path path" "length data < 2 ^ 32"
  shows "\<exists>r s' T'. Fat.write_file dev vol path data s = Some (r, s') \<and> ok s' \<and> fat_volume vol n T' (device_image dev blk s')
    \<and> meets (free_clusters vol (device_image dev blk s)) (clusters_for vol data) (keys path) (tree_view T)
        (spec_write (keys path) data (tree_view T)) r (tree_view T')"
  using block_device.write_file_dev [OF assms(1-4) volume_storable [OF assms(3,5)]] by blast

text \<open>
  C15: the reading methods return what the map says and change nothing: \<open>read_file\<close> the bytes of the file or the right error,
  \<open>is_dir\<close> whether the path is a directory, \<open>list_dir\<close> the name of every child once.
\<close>

theorem fat_reads_tree:
  assumes "block_device dev ok blk" "ok s" "fat_volume vol n T (device_image dev blk s)" "canonical path"
  shows "(\<exists>s'. Fat.read_file dev vol path s = Some (spec_read (keys path) (tree_view T), s') \<and> ok s' \<and> fat_volume vol n T (device_image dev blk s'))
    \<and> (\<exists>s'. Fat.is_dir dev vol path s = Some (Ok (tree_view T (keys path) = Some DirE), s') \<and> ok s' \<and> fat_volume vol n T (device_image dev blk s'))
    \<and> (\<exists>r s'. Fat.list_dir dev vol path s = Some (r, s') \<and> ok s' \<and> fat_volume vol n T (device_image dev blk s')
        \<and> (case tree_view T (keys path) of
             Some DirE \<Rightarrow> (\<exists>names. r = Ok names \<and> distinct names \<and> set names = {k. tree_view T (keys path @ [k]) \<noteq> None})
           | Some (FileE _) \<Rightarrow> r = Err NotADir
           | None \<Rightarrow> r = Err (the (dir_error (tree_view T) [] (keys path)))))"
  using block_device.read_file_dev [OF assms(1-3)] block_device.is_dir_dev [OF assms(1-3)] block_device.list_dir_dev [OF assms(1-3)]
    canonical_good [OF assms(4)] by blast

text \<open>
  C12: \<open>remove\<close> unbinds exactly the path, file or empty directory, at any depth; a missing path is \<open>NotFound\<close>, a directory
  with children is \<open>Io\<close>, and nothing has changed then.
\<close>

theorem fat_remove_refines:
  assumes "block_device dev ok blk" "ok s" "fat_volume vol n T (device_image dev blk s)" "canonical path"
  shows "\<exists>r s' T'. Fat.remove dev vol path s = Some (r, s') \<and> ok s' \<and> fat_volume vol n T' (device_image dev blk s')
    \<and> (r, tree_view T') = spec_remove (keys path) (tree_view T)"
  using block_device.remove_dev [OF assms] by blast

text \<open>
  \<open>append_file\<close> concatenates: the bytes of the file are the old ones followed by the data, a file that does not exist is created,
  a directory is refused; every other path keeps its contents.
\<close>

theorem fat_append_refines:
  assumes "block_device dev ok blk" "ok s" "fat_volume vol n T (device_image dev blk s)" "short_path path" "segments path \<noteq> []"
    and "length (appended (keys path) data (tree_view T)) < 2 ^ 32"
  shows "\<exists>r s' T'. Fat.append_file dev vol path data s = Some (r, s') \<and> ok s' \<and> fat_volume vol n T' (device_image dev blk s')
    \<and> meets (free_clusters vol (device_image dev blk s)) (clusters_for vol (appended (keys path) data (tree_view T))) (keys path) (tree_view T)
        (spec_append (keys path) data (tree_view T)) r (tree_view T')"
  using block_device.append_file_dev [OF assms(1-5) volume_storable [OF assms(3,6)]] by blast

text \<open>
  C13: \<open>create_dir\<close> makes an empty directory at any depth: its cluster with the two dot entries lists nothing, and what exists is
  refused with \<open>Io\<close>. With two free clusters it succeeds whenever the specification does.
\<close>

theorem fat_create_dir_refines:
  assumes "block_device dev ok blk" "ok s" "fat_volume vol n T (device_image dev blk s)" "short_path path"
  shows "\<exists>r s' T'. Fat.create_dir dev vol path s = Some (r, s') \<and> ok s' \<and> fat_volume vol n T' (device_image dev blk s')
    \<and> meets (free_clusters vol (device_image dev blk s)) 1 (keys path) (tree_view T) (spec_create_dir (keys path) (tree_view T)) r (tree_view T')"
  using block_device.create_dir_dev [OF assms] by blast

text \<open>
  C9: any sequence of writing calls on a volume below 4 GiB runs to its end, whatever fails on the way: the results and the map it
  leaves are explained call by call by the specification, and when the disk is mounted again, the mount finds the same volume and every
  path reads as the map says. Nothing a client wrote is lost by unmounting.
\<close>

theorem fat_calls_persist:
  assumes "block_device dev ok blk" "ok s" "fat_volume vol n T (device_image dev blk s)"
    and "cap vol * cluster_bytes vol < 2 ^ 32" "list_all call_ok cs"
  shows "\<exists>rs s1 s2 T'. run_calls dev vol cs s = Some (rs, s1) \<and> explains cs (tree_view T) rs (tree_view T')
    \<and> mount dev s1 = Some (Ok vol, s2)
    \<and> (\<forall>path. canonical path \<longrightarrow> (\<exists>s3. Fat.read_file dev vol path s2 = Some (spec_read (keys path) (tree_view T'), s3)))"
proof -
  obtain rs s1 T' where 1: "run_calls dev vol cs s = Some (rs, s1)" "ok s1" "fat_volume vol n T' (device_image dev blk s1)"
    "explains cs (tree_view T) rs (tree_view T')" using block_device.calls_dev [OF assms] by blast
  obtain s2 where 2: "mount dev s1 = Some (Ok vol, s2)" "ok s2" "fat_volume vol n T' (device_image dev blk s2)"
    using block_device.mount_dev [OF assms(1) 1(2,3)] by blast
  with 1 block_device.read_file_dev [OF assms(1) 2(2,3) canonical_good] show ?thesis by blast
qed

text \<open>
  C10: no space is lost as long as no call reports \<open>Io\<close>. On a volume on which every allocated cluster belongs to a file or a
  directory, after any sequence of calls without an \<open>Io\<close> that is so again: the free clusters and the clusters of the files and
  directories are all clusters there are. What is removed, replaced or truncated is free to be used again.
\<close>

theorem fat_space_exact:
  assumes "block_device dev ok blk" "ok s" "fat_volume vol n T (device_image dev blk s)" "no_leaks vol T (device_image dev blk s)"
    and "cap vol * cluster_bytes vol < 2 ^ 32" "list_all call_ok cs" "run_calls dev vol cs s = Some (rs, s')" "Err Io \<notin> set rs"
  shows "\<exists>T'. fat_volume vol n T' (device_image dev blk s') \<and> explains cs (tree_view T) rs (tree_view T')
    \<and> free_clusters vol (device_image dev blk s') + card (tree_clusters T') = lim vol n - 2"
proof -
  obtain T' where T': "fat_volume vol n T' (device_image dev blk s')" "explains cs (tree_view T) rs (tree_view T')"
    "no_leaks vol T' (device_image dev blk s')" using block_device.calls_dev [OF assms(1-3,5,6)] assms(4,7,8) by auto
  with space_exact show ?thesis by blast
qed

text \<open>
  C16: replacing a file on a full volume loses it. When the new data need more clusters than are free even after the old file has been
  released, \<open>write_file\<close> reports \<open>Io\<close>, and a later read of the path reports \<open>NotFound\<close>: the old contents are gone. The clusters taken before the
  allocation failed are not given back either: no cluster of the volume is free any more.
\<close>

theorem fat_full_write_loses:
  assumes "block_device dev ok blk" "ok s" "fat_volume vol n T (device_image dev blk s)" "canonical path"
    and "T (keys path) = Some (FileO os bs)" "length data < 2 ^ 32"
    and "free_clusters vol (device_image dev blk s) + length os < clusters_for vol data"
  shows "\<exists>s' s''. Fat.write_file dev vol path data s = Some (Err Io, s') \<and> Fat.read_file dev vol path s' = Some (Err NotFound, s'')
    \<and> free_clusters vol (device_image dev blk s') = 0"
proof -
  obtain s' where w: "Fat.write_file dev vol path data s = Some (Err Io, s')" "ok s'" "fat_volume vol n (T(keys path := None)) (device_image dev blk s')"
    "free_clusters vol (device_image dev blk s') = 0" using block_device.write_full_dev [OF assms(1-5) volume_storable [OF assms(3,6)] assms(7)] by blast
  have "spec_read (keys path) (tree_view (T(keys path := None))) = Err NotFound"
    using assms(3,5) w(3) read_unbound by (auto simp: fat_volume_def simp del: fun_upd_apply)
  with block_device.read_file_dev [OF assms(1) w(2,3) canonical_good [OF assms(4)]] w(1,4) show ?thesis by auto
qed

section \<open>A concrete volume\<close>

definition sample_tree :: tree where
  "sample_tree = [[] \<mapsto> DirO [2], [''old.txt''] \<mapsto> FileO [3] [104, 101, 108, 108, 111]]"

lemma sample_tree_simps:
  "sample_tree [] = Some (DirO [2])" "sample_tree [''old.txt''] = Some (FileO [3] [104, 101, 108, 108, 111])"
  "sample_tree p = Some ob \<Longrightarrow> p = [] \<and> ob = DirO [2] \<or> p = [''old.txt''] \<and> ob = FileO [3] [104, 101, 108, 108, 111]"
proof -
  have *: "sample_tree p = (if p = [''old.txt''] then Some (FileO [3] [104, 101, 108, 108, 111]) else if p = [] then Some (DirO [2]) else None)" for p
    unfolding sample_tree_def by simp
  show "sample_tree [] = Some (DirO [2])" "sample_tree [''old.txt''] = Some (FileO [3] [104, 101, 108, 108, 111])" by (simp_all add: *)
  show "sample_tree p = Some ob \<Longrightarrow> p = [] \<and> ob = DirO [2] \<or> p = [''old.txt''] \<and> ob = FileO [3] [104, 101, 108, 108, 111]"
    unfolding * by (metis option.discI option.inject)
qed

lemma sample_tidy: "tidy (slots sample_data [2])"
  by code_simp

lemma sample_dir_ok: "dir_ok sample_vol 127 sample_links sample_data (\<lambda>k. sample_tree [k]) [2]"
proof -
  have five: "length [104, 101, 108, 108, 111 :: u8] = 5" by simp
  have "entry_ok sample_vol 127 sample_links sample_data \<lparr>de_name = ''old.txt'', de_is_dir = False, de_cluster = 3, de_size = 5\<rparr>
      (FileO [3] [104, 101, 108, 108, 111])" using sample_chains(2) sample_facts(6) unfolding entry_ok.simps five by simp
  moreover have "k = ''old.txt''" if "sample_tree [k] = Some ob" for k ob using sample_tree_simps(3) [OF that] by simp
  ultimately show ?thesis unfolding dir_ok_def sample_facts(5)
    by (intro conjI [OF sample_tidy]) (auto simp: sample_tree_simps(2))
qed

lemma sample_tree_ok: "tree_ok sample_vol 127 sample_links sample_data sample_tree"
  unfolding tree_ok_def
proof (intro conjI allI impI)
  show "\<exists>rs. sample_tree [] = Some (DirO rs) \<and> rs \<noteq> [] \<and> chain sample_vol 127 sample_links (root_cluster sample_vol) rs"
    using sample_chains(1) by (simp add: sample_tree_simps sample_root)
  show "dir_ok sample_vol 127 sample_links sample_data (\<lambda>k. sample_tree (p @ [k])) cs" if "sample_tree p = Some (DirO cs)" for p cs
    using sample_tree_simps(3) [OF that] sample_dir_ok by auto
  show "\<exists>cs. sample_tree p = Some (DirO cs)" if "sample_tree (p @ [k]) \<noteq> None" for p k
    using that sample_tree_simps(3) [of "p @ [k]"] sample_tree_simps(1) by auto
  show "sample_links x \<noteq> 0" if "sample_tree p = Some ob \<and> x \<in> set (obj_clusters ob)" for p ob x
    using that sample_tree_simps(3) [of p ob] sample_facts(1,2) by auto
  show "set (obj_clusters a) \<inter> set (obj_clusters b) = {}" if "sample_tree p = Some a \<and> sample_tree q = Some b \<and> p \<noteq> q" for p q a b
    using that sample_tree_simps(3) [of p a] sample_tree_simps(3) [of q b] by auto
qed

lemma sample_fat_volume: "fat_volume sample_vol 127 sample_tree (device_image image_device image_blk sample_image)"
  unfolding fat_volume_def using sample_fits sample_held sample_tree_ok by blast

lemmas sample_disk = img.block_device_axioms sample_device(1) sample_fat_volume

lemma sample_free: "2 \<le> free_clusters sample_vol (device_image image_device image_blk sample_image)"
  "free_clusters sample_vol im \<le> 128" "cluster_bytes sample_vol = 512"
proof -
  have "{4, 5} \<subseteq> free_set sample_vol 127 sample_links"
    using sample_facts(3,4) by (simp add: free_set_def data_cluster_def sample_lim)
  then have "card {4, 5 :: u32} \<le> card (free_set sample_vol 127 sample_links)" by (intro card_mono) simp_all
  then show "2 \<le> free_clusters sample_vol (device_image image_device image_blk sample_image)" by (simp add: free_clusters_def sample_device(2) sample_blocks(1))
  show "free_clusters sample_vol im \<le> 128" using card_free_set [of sample_vol] by (metis free_clusters_def sample_lim(2))
  show "cluster_bytes sample_vol = 512" by (simp add: cluster_bytes_def sample_vol_def)
qed

lemma sample_paths:
  "short_path ''/NEW.TXT''" "short_path ''/old.txt''" "canonical ''/old.txt''" "segments ''/old.txt'' = [''old.txt'']"
  "keys ''/NEW.TXT'' = [''new.txt'']" "keys ''/old.txt'' = [''old.txt'']" "canonical ''/''" "segments ''/old.txt'' \<noteq> []"
  by code_simp+

lemma sample_view:
  "tree_view sample_tree [] = Some DirE" "tree_view sample_tree [''old.txt''] = Some (FileE [104, 101, 108, 108, 111])"
  "tree_view sample_tree [''new.txt''] = None"
  by (simp_all add: tree_view_def sample_tree_def)

theorem fat_write_refines_witness: "\<exists>s'. Fat.write_file image_device sample_vol ''/NEW.TXT'' [1, 2, 3] sample_image = Some (Ok (), s')"
  using fat_write_refines [OF sample_disk sample_paths(1), of "[1, 2, 3]"] sample_free
  by (auto simp: meets_def clusters_for_def sample_paths spec_write_def spec_in_parent_def sample_view)

theorem fat_reads_tree_witness:
  "\<exists>s'. Fat.read_file image_device sample_vol ''/old.txt'' sample_image = Some (Ok [104, 101, 108, 108, 111], s')"
  using fat_reads_tree [OF sample_disk sample_paths(3)] by (auto simp: spec_read_def sample_paths sample_view)

theorem fat_remove_refines_witness: "\<exists>s'. Fat.remove image_device sample_vol ''/old.txt'' sample_image = Some (Ok (), s')"
  using fat_remove_refines [OF sample_disk sample_paths(3)] by (auto simp: spec_remove_def spec_in_parent_def sample_paths sample_view)

theorem fat_append_refines_witness: "\<exists>s'. Fat.append_file image_device sample_vol ''/old.txt'' [33] sample_image = Some (Ok (), s')"
  using fat_append_refines [OF sample_disk sample_paths(2) sample_paths(8), of "[33]"] sample_free
  by (auto simp: meets_def clusters_for_def sample_paths spec_append_def spec_in_parent_def sample_view appended_def)

theorem fat_create_dir_refines_witness: "\<exists>s'. Fat.create_dir image_device sample_vol ''/NEW.TXT'' sample_image = Some (Ok (), s')"
  using fat_create_dir_refines [OF sample_disk sample_paths(1)] sample_free
  by (auto simp: meets_def sample_paths spec_create_dir_def spec_in_parent_def sample_view)

theorem fat_calls_persist_witness:
  "\<exists>rs s1. run_calls image_device sample_vol [CreateDir ''/NEW.TXT'', WriteFile ''/old.txt'' [1]] sample_image = Some (rs, s1)"
proof -
  have "list_all call_ok [CreateDir ''/NEW.TXT'', WriteFile ''/old.txt'' [1]]"
    using sample_paths by (simp add: call_ok_def)
  moreover have "cap sample_vol * cluster_bytes sample_vol < 2 ^ 32" by (simp add: cap_def sample_vol_def cluster_bytes_def)
  ultimately show ?thesis using fat_calls_persist [OF sample_disk] by blast
qed

text \<open>Of the 124 clusters of the sample volume only the two of the tree are allocated.\<close>

lemma sample_unused:
  assumes "4 \<le> unat c" "unat c < 126"
  shows "sample_links c = 0"
proof -
  have zero: "splice 504 [0xFF, 0xFF, 0xFF, 0x0F, 0xFF, 0xFF, 0xFF, 0x0F] (splice 8 [0xFF, 0xFF, 0xFF, 0x0F, 0xFF, 0xFF, 0xFF, 0x0F] zero_block) ! j = 0"
    if "16 \<le> j" "j < 504" for j
    using that by (simp add: splice_nth zero_block_def BLOCK_SIZE_def)
  have "fat_sec sample_vol 0 (unat c) = 2" using assms by (simp add: fat_sec_def sample_vol_def)
  then show ?thesis using assms zero by (simp add: fat_copy_def word_at_def sample_image_def u32_from_le_bytes_def)
qed

lemma sample_no_leaks: "no_leaks sample_vol sample_tree (device_image image_device image_blk sample_image)"
  unfolding no_leaks_def sample_device(2) sample_blocks(1) tight_def
proof (intro allI impI)
  fix c :: u32
  assume c: "data_cluster sample_vol 127 c" "sample_links c \<noteq> 0"
  have "\<not> 4 \<le> unat c" using c sample_unused [of c] by (auto simp: data_cluster_def sample_lim)
  then have "unat c = 2 \<or> unat c = 3" using c(1) by (auto simp: data_cluster_def)
  then have "c = 2 \<or> c = 3" by (simp add: word_unat_eq_iff)
  then show "c \<in> tree_clusters sample_tree \<union> {}" using sample_tree_simps(1,2) by (force simp: tree_clusters_def)
qed

theorem fat_space_exact_witness:
  "\<exists>s' T'. run_calls image_device sample_vol [RemovePath ''/old.txt''] sample_image = Some ([Ok ()], s')
    \<and> free_clusters sample_vol (device_image image_device image_blk s') + card (tree_clusters T') = 124"
proof -
  obtain s' where run: "run_calls image_device sample_vol [RemovePath ''/old.txt''] sample_image = Some ([Ok ()], s')"
    using img.remove_dev [OF sample_disk(2,3) sample_paths(3)] by (auto simp: spec_remove_def spec_in_parent_def sample_paths sample_view)
  have ok: "list_all call_ok [RemovePath ''/old.txt'']" using sample_paths by (simp add: call_ok_def)
  have "cap sample_vol * cluster_bytes sample_vol < 2 ^ 32" "lim sample_vol 127 - 2 = 124" by (simp_all add: sample_lim) (simp add: sample_vol_def cluster_bytes_def)
  with fat_space_exact [OF sample_disk sample_no_leaks _ ok run] run show ?thesis by auto
qed

theorem fat_full_write_loses_witness:
  "\<exists>s' s''. Fat.write_file image_device sample_vol ''/old.txt'' (replicate 66560 0) sample_image = Some (Err Io, s')
    \<and> Fat.read_file image_device sample_vol ''/old.txt'' s' = Some (Err NotFound, s'')
    \<and> free_clusters sample_vol (device_image image_device image_blk s') = 0"
proof (rule fat_full_write_loses [OF sample_disk sample_paths(3)])
  show "sample_tree (keys ''/old.txt'') = Some (FileO [3] [104, 101, 108, 108, 111])" by (simp add: sample_paths sample_tree_simps)
  show "free_clusters sample_vol (device_image image_device image_blk sample_image) + length [3 :: u32] < clusters_for sample_vol (replicate 66560 0)"
    using sample_free(2) [of "device_image image_device image_blk sample_image"] by (simp add: clusters_for_def sample_free(3))
qed simp

end
