(* ===== verification/Utf8.thy ===== *)
theory Utf8
  imports Prelude
begin

text \<open>
  UTF-8 as Rust's \<open>str\<close> uses it: \<open>char::encode_utf8\<close> and \<open>core::str::from_utf8\<close>, which rejects
  overlong forms, surrogates and code points above \<open>10FFFF\<close>. A \<open>char\<close> is its code point.
\<close>

type_synonym rchar = nat

definition is_scalar :: "rchar \<Rightarrow> bool" where
  "is_scalar c \<longleftrightarrow> c < 0xD800 \<or> 0xE000 \<le> c \<and> c < 0x110000"

text \<open>\<open>char::len_utf8\<close> and \<open>String::len\<close>\<close>

definition len_utf8 :: "rchar \<Rightarrow> nat" where
  "len_utf8 c = (if c < 0x80 then 1 else if c < 0x800 then 2 else if c < 0x10000 then 3 else 4)"

definition str_len :: "rchar list \<Rightarrow> nat" where
  "str_len s = sum_list (map len_utf8 s)"

definition encode_utf8 :: "rchar \<Rightarrow> u8 list" where
  "encode_utf8 c =
     (if c < 0x80 then [word_of_nat c]
      else if c < 0x800 then [word_of_nat (0xC0 + c div 64), word_of_nat (0x80 + c mod 64)]
      else if c < 0x10000 then
        [word_of_nat (0xE0 + c div 4096), word_of_nat (0x80 + c div 64 mod 64), word_of_nat (0x80 + c mod 64)]
      else [word_of_nat (0xF0 + c div 262144), word_of_nat (0x80 + c div 4096 mod 64),
            word_of_nat (0x80 + c div 64 mod 64), word_of_nat (0x80 + c mod 64)])"

definition encode_str :: "rchar list \<Rightarrow> u8 list" where
  "encode_str cs = concat (map encode_utf8 cs)"

definition between :: "nat \<Rightarrow> nat \<Rightarrow> nat \<Rightarrow> bool" where
  "between lo hi n \<longleftrightarrow> lo \<le> n \<and> n \<le> hi"

text \<open>The ranges of the second byte depend on the first.\<close>

fun decode :: "nat list \<Rightarrow> rchar list option" where
  "decode [] = Some []"
| "decode (a # bs) =
     (if a < 0x80 then map_option ((#) a) (decode bs)
      else if between 0xC2 0xDF a then
        (case bs of
           b # bs' \<Rightarrow> if between 0x80 0xBF b
             then map_option ((#) ((a - 0xC0) * 64 + (b - 0x80))) (decode bs') else None
         | _ \<Rightarrow> None)
      else if between 0xE0 0xEF a then
        (case bs of
           b # c # bs' \<Rightarrow>
             if between (if a = 0xE0 then 0xA0 else 0x80) (if a = 0xED then 0x9F else 0xBF) b \<and> between 0x80 0xBF c
             then map_option ((#) ((a - 0xE0) * 4096 + (b - 0x80) * 64 + (c - 0x80))) (decode bs') else None
         | _ \<Rightarrow> None)
      else if between 0xF0 0xF4 a then
        (case bs of
           b # c # d # bs' \<Rightarrow>
             if between (if a = 0xF0 then 0x90 else 0x80) (if a = 0xF4 then 0x8F else 0xBF) b
                \<and> between 0x80 0xBF c \<and> between 0x80 0xBF d
             then map_option ((#) ((a - 0xF0) * 262144 + (b - 0x80) * 4096 + (c - 0x80) * 64 + (d - 0x80))) (decode bs')
             else None
         | _ \<Rightarrow> None)
      else None)"

definition from_utf8 :: "u8 list \<Rightarrow> rchar list option" where
  "from_utf8 bs = decode (map unat bs)"

lemma unat_byte: "n < 256 \<Longrightarrow> unat (word_of_nat n :: u8) = n"
  by (simp add: unat_of_nat)

lemma decode_encode:
  assumes "is_scalar c"
  shows "from_utf8 (encode_utf8 c @ bs) = map_option ((#) c) (from_utf8 bs)"
proof -
  have m: "n mod 64 \<le> (63 :: nat)" for n by presburger
  have e: "n = n div 64 * 64 + n mod 64" for n :: nat by simp
  have d: "c div 64 div 64 = c div 4096" "c div 4096 div 64 = c div 262144"
    by (simp_all add: div_mult2_eq [symmetric])
  have c: "c < 0x110000" using assms by (auto simp: is_scalar_def)
  consider "c < 0x80" | "0x80 \<le> c" "c < 0x800" | "0x800 \<le> c" "c < 0x10000" | "0x10000 \<le> c" by linarith
  then show ?thesis
  proof cases
    case 1
    then show ?thesis by (simp add: encode_utf8_def from_utf8_def unat_byte)
  next
    case 2
    then have "c div 64 < 32" "2 \<le> c div 64" "c div 64 * 64 + c mod 64 = c" by auto
    moreover have "map unat (encode_utf8 c) = [0xC0 + c div 64, 0x80 + c mod 64]"
      using 2 by (simp add: encode_utf8_def unat_byte del: of_nat_add)
    ultimately show ?thesis by (simp add: from_utf8_def between_def m)
  next
    case 3
    define a b l where abl: "a = c div 4096" "b = c div 64 mod 64" "l = c mod 64"
    have r: "a * 4096 + b * 64 + l = c" using e [of c] e [of "c div 64"] unfolding d abl by linarith
    have lim: "a < 16" "b < 64" "l < 64" using 3 unfolding abl by simp_all
    have lo: "a = 0 \<Longrightarrow> 32 \<le> b" using r lim 3 by linarith
    have hi: "a = 13 \<Longrightarrow> b \<le> 31" using r lim 3 assms unfolding is_scalar_def by linarith
    have "map unat (encode_utf8 c) = [0xE0 + a, 0x80 + b, 0x80 + l]"
      using 3 lim by (simp add: encode_utf8_def unat_byte abl del: of_nat_add)
    then show ?thesis using lim lo hi r by (simp add: from_utf8_def between_def)
  next
    case 4
    define a b k l where abl: "a = c div 262144" "b = c div 4096 mod 64" "k = c div 64 mod 64" "l = c mod 64"
    have r: "a * 262144 + b * 4096 + k * 64 + l = c"
      using e [of c] e [of "c div 64"] e [of "c div 4096"] unfolding d abl by linarith
    have lim: "a < 5" "b < 64" "k < 64" "l < 64" using c unfolding abl by simp_all
    have lo: "a = 0 \<Longrightarrow> 16 \<le> b" using r lim 4 by linarith
    have hi: "a = 4 \<Longrightarrow> b \<le> 15" using r lim c by linarith
    have "map unat (encode_utf8 c) = [0xF0 + a, 0x80 + b, 0x80 + k, 0x80 + l]"
      using 4 lim by (simp add: encode_utf8_def unat_byte abl del: of_nat_add)
    then show ?thesis using lim lo hi r by (simp add: from_utf8_def between_def)
  qed
qed

lemma from_utf8_encode_str: "list_all is_scalar cs \<Longrightarrow> from_utf8 (encode_str cs) = Some cs"
  by (induction cs) (simp_all add: encode_str_def decode_encode, simp add: from_utf8_def)

lemma ascii_from_utf8: "list_all (\<lambda>b. b < 0x80) bs \<Longrightarrow> from_utf8 bs = Some (map unat bs)"
  by (induction bs) (auto simp: from_utf8_def word_less_nat_alt)

text \<open>\<open>str::chars\<close> of a string of the model.\<close>

definition chars :: "string \<Rightarrow> rchar list" where
  "chars s = (case from_utf8 (as_bytes s) of Some cs \<Rightarrow> cs | None \<Rightarrow> map of_char s)"

end
