(* ===== verification/Framebuffer.thy ===== *)
theory Framebuffer
  imports Utf8
begin

text \<open>
  The bitmap console of \<^verbatim>\<open>kernel/src/framebuffer.rs\<close>: the scrollback ring, the cursor and the pixel
  buffer. The glyphs come from the \<open>noto_sans_mono_bitmap\<close> crate and are a parameter \<open>font\<close>; the
  geometry comes from the boot loader. A Rust \<open>char\<close> is its code point. Every index into the pixel
  buffer is checked as Rust checks it, so an out-of-range pixel is a \<open>Panic\<close> of the model.

  Shown: on any screen that can hold one glyph, no operation panics and the cursor, the ring and the
  scroll offset stay in range; the ring is exactly the last 256 lines of what was written, whatever
  scrolling happens in between; and scrolling is a pure function of the history and the offset.
\<close>

section \<open>Data\<close>

definition LINE_SPACING :: nat where "LINE_SPACING = 2"
definition LETTER_SPACING :: nat where "LETTER_SPACING = 0"
definition BORDER_PADDING :: nat where "BORDER_PADDING = 1"
definition BACKUP_CHAR :: rchar where "BACKUP_CHAR = 0xFFFD"
definition RASTER_HEIGHT :: nat where "RASTER_HEIGHT = 16"
definition ROW_HEIGHT :: nat where "ROW_HEIGHT = RASTER_HEIGHT + LINE_SPACING"
definition SCROLLBACK_LINES :: nat where "SCROLLBACK_LINES = 256"
definition MAX_LINE_LEN :: nat where "MAX_LINE_LEN = 256"

text \<open>The font: the raster of a character (rows of intensities) if it has one, and the raster width.\<close>

record font =
  get_raster :: "rchar \<Rightarrow> u8 list list option"
  raster_width :: nat

datatype PixelFormat = Rgb | Bgr | U8 | Unknown

record FrameBufferInfo =
  width :: nat
  height :: nat
  pixel_format :: PixelFormat
  bytes_per_pixel :: nat
  stride :: nat

record FrameBufferWriter =
  framebuffer :: "u8 list"
  info :: FrameBufferInfo
  x_pos :: nat
  y_pos :: nat
  ring :: "rchar list list"
  current_line :: "rchar list"
  scroll_back :: nat
  viewport_rows :: nat

type_synonym 'a fb = "(FrameBufferWriter, unit, 'a) io"

section \<open>Operations\<close>

definition raster_for :: "font \<Rightarrow> rchar \<Rightarrow> u8 list list fb" where
  "raster_for ft c = (case get_raster ft c of
     Some g \<Rightarrow> ret g
   | None \<Rightarrow> (case get_raster ft BACKUP_CHAR of Some g \<Rightarrow> ret g | None \<Rightarrow> panic))"

definition clear_visible :: "unit fb" where
  "clear_visible = modify (\<lambda>w. w\<lparr>framebuffer := map (\<lambda>_. 0) (framebuffer w)\<rparr>)"

definition fb_new :: "u8 list \<Rightarrow> FrameBufferInfo \<Rightarrow> FrameBufferWriter" where
  "fb_new buf fbi = \<lparr>framebuffer = map (\<lambda>_. 0) buf, info = fbi,
     x_pos = BORDER_PADDING, y_pos = BORDER_PADDING, ring = [], current_line = [], scroll_back = 0,
     viewport_rows = (height fbi - 2 * BORDER_PADDING) div ROW_HEIGHT\<rparr>"

definition clear :: "unit fb" where
  "clear = modify (\<lambda>w. w\<lparr>x_pos := BORDER_PADDING, y_pos := BORDER_PADDING,
     framebuffer := map (\<lambda>_. 0) (framebuffer w)\<rparr>)"

definition color :: "PixelFormat \<Rightarrow> u8 \<Rightarrow> u8 list option" where
  "color fmt intensity = (case fmt of
     Rgb \<Rightarrow> Some [intensity, intensity, intensity div 2, 0]
   | Bgr \<Rightarrow> Some [intensity div 2, intensity, intensity, 0]
   | U8 \<Rightarrow> Some [if intensity > 200 then 0xf else 0, 0, 0, 0]
   | Unknown \<Rightarrow> None)"

definition write_pixel :: "nat \<Rightarrow> nat \<Rightarrow> u8 \<Rightarrow> unit fb" where
  "write_pixel x y intensity = bindM (gets id) (\<lambda>w.
     let pixel_offset = y * stride (info w) + x
     in case color (pixel_format (info w)) intensity of
          None \<Rightarrow> bindM (modify (\<lambda>w. w\<lparr>info := (info w)\<lparr>pixel_format := Rgb\<rparr>\<rparr>)) (\<lambda>_. panic)
        | Some col \<Rightarrow>
            let bpp = bytes_per_pixel (info w); byte_offset = pixel_offset * bpp
            in if byte_offset + bpp \<le> length (framebuffer w) \<and> bpp \<le> length col
                  \<and> byte_offset < length (framebuffer w)
               then modify (\<lambda>w. w\<lparr>framebuffer := splice byte_offset (take bpp col) (framebuffer w)\<rparr>)
               else panic)"

text \<open>The two nested loops that blit a glyph with its top left corner at \<open>(x, y)\<close>.\<close>

definition blit :: "nat \<Rightarrow> nat \<Rightarrow> u8 list list \<Rightarrow> unit fb" where
  "blit x0 y0 raster = foldM (\<lambda>(y, row) _.
     foldM (\<lambda>(x, byte) _. write_pixel (x0 + x) (y0 + y) byte) (enumerate 0 row) ())
     (enumerate 0 raster) ()"

definition write_rendered :: "font \<Rightarrow> u8 list list \<Rightarrow> unit fb" where
  "write_rendered ft glyph = bindM (gets id) (\<lambda>w.
     bindM (blit (x_pos w) (y_pos w) glyph) (\<lambda>_.
     modify (\<lambda>w. w\<lparr>x_pos := x_pos w + (raster_width ft + LETTER_SPACING)\<rparr>)))"

definition push_current_to_ring :: "unit fb" where
  "push_current_to_ring = modify (\<lambda>w.
     let r = (if length (ring w) = SCROLLBACK_LINES then tl (ring w) else ring w)
     in w\<lparr>ring := r @ [current_line w], current_line := []\<rparr>)"

definition carriage_return :: "unit fb" where
  "carriage_return = modify (\<lambda>w. w\<lparr>x_pos := BORDER_PADDING\<rparr>)"

text \<open>One line of \<open>redraw_visible\<close>, cut at the right border; the result is the final \<open>x\<close>.\<close>

fun draw_line :: "font \<Rightarrow> rchar list \<Rightarrow> nat \<Rightarrow> nat \<Rightarrow> nat fb" where
  "draw_line ft [] x y = ret x"
| "draw_line ft (c # cs) x y = bindM (gets (\<lambda>w. width (info w))) (\<lambda>wd.
     if x + raster_width ft \<ge> wd then ret x
     else bindM (raster_for ft c) (\<lambda>glyph.
          bindM (blit x y glyph) (\<lambda>_.
          draw_line ft cs (x + (raster_width ft + LETTER_SPACING)) y)))"

fun draw_rows :: "font \<Rightarrow> nat list \<Rightarrow> nat \<Rightarrow> nat \<Rightarrow> nat \<Rightarrow> (nat \<times> nat) fb" where
  "draw_rows ft [] row x y = ret (row, x)"
| "draw_rows ft (idx # idxs) row x y = bindM (gets id) (\<lambda>w.
     let line = (if idx < length (ring w) then ring w ! idx else current_line w)
     in bindM (draw_line ft line BORDER_PADDING y) (\<lambda>x.
        if row + 1 \<ge> viewport_rows w then ret (row + 1, x)
        else draw_rows ft idxs (row + 1) x (y + ROW_HEIGHT)))"

definition redraw_visible :: "font \<Rightarrow> nat \<Rightarrow> unit fb" where
  "redraw_visible ft back = bindM clear_visible (\<lambda>_. bindM (gets id) (\<lambda>w.
     let total = length (ring w) + 1;
         max_back = total - viewport_rows w;
         off = min back max_back;
         first = total - (viewport_rows w + off);
         last = total - off
     in bindM (draw_rows ft [first..<last] 0 BORDER_PADDING BORDER_PADDING) (\<lambda>(row, x).
        modify (\<lambda>w. w\<lparr>x_pos := x, y_pos := BORDER_PADDING + (row - 1) * ROW_HEIGHT\<rparr>))))"

definition advance_visual_row :: "font \<Rightarrow> unit fb" where
  "advance_visual_row ft =
     bindM (modify (\<lambda>w. w\<lparr>y_pos := y_pos w + ROW_HEIGHT, x_pos := BORDER_PADDING\<rparr>)) (\<lambda>_.
     bindM (gets id) (\<lambda>w.
       if y_pos w + RASTER_HEIGHT + BORDER_PADDING \<ge> height (info w)
       then bindM (redraw_visible ft 0) (\<lambda>_.
            modify (\<lambda>w. w\<lparr>y_pos := BORDER_PADDING + (viewport_rows w - 1) * ROW_HEIGHT,
                          x_pos := BORDER_PADDING\<rparr>))
       else ret ()))"

definition advance_if_live :: "font \<Rightarrow> unit fb" where
  "advance_if_live ft = bindM (gets scroll_back) (\<lambda>sb.
     if sb = 0 then advance_visual_row ft else ret ())"

definition newline :: "font \<Rightarrow> unit fb" where
  "newline ft = bindM push_current_to_ring (\<lambda>_. advance_if_live ft)"

definition draw_live :: "font \<Rightarrow> rchar \<Rightarrow> unit fb" where
  "draw_live ft c = bindM (gets id) (\<lambda>w.
     if scroll_back w = 0
     then bindM (if x_pos w + raster_width ft \<ge> width (info w) then advance_visual_row ft else ret ()) (\<lambda>_.
          bindM (raster_for ft c) (write_rendered ft))
     else ret ())"

definition write_char :: "font \<Rightarrow> rchar \<Rightarrow> unit fb" where
  "write_char ft c =
     (if c = 10 then newline ft
      else if c = 13 then carriage_return
      else
        bindM (gets id) (\<lambda>w.
        bindM (if str_len (current_line w) \<ge> MAX_LINE_LEN
               then bindM push_current_to_ring (\<lambda>_. advance_if_live ft) else ret ()) (\<lambda>_.
        bindM (draw_live ft c) (\<lambda>_.
        modify (\<lambda>w. w\<lparr>current_line := current_line w @ [c]\<rparr>)))))"

definition write_str :: "font \<Rightarrow> rchar list \<Rightarrow> unit fb" where
  "write_str ft s = foldM (\<lambda>c _. write_char ft c) s ()"

definition scroll_up :: "font \<Rightarrow> nat \<Rightarrow> unit fb" where
  "scroll_up ft n = bindM (gets id) (\<lambda>w.
     let total = length (ring w) + 1;
         max_back = total - viewport_rows w;
         new = min (scroll_back w + n) max_back
     in if new = scroll_back w then ret ()
        else bindM (modify (\<lambda>w. w\<lparr>scroll_back := new\<rparr>)) (\<lambda>_. redraw_visible ft new))"

definition scroll_down :: "font \<Rightarrow> nat \<Rightarrow> unit fb" where
  "scroll_down ft n = bindM (gets id) (\<lambda>w.
     let new = scroll_back w - n
     in if new = scroll_back w then ret ()
        else bindM (modify (\<lambda>w. w\<lparr>scroll_back := new\<rparr>)) (\<lambda>_. redraw_visible ft new))"

definition scroll_end :: "font \<Rightarrow> unit fb" where
  "scroll_end ft = bindM (gets scroll_back) (\<lambda>sb.
     if sb = 0 then ret ()
     else bindM (modify (\<lambda>w. w\<lparr>scroll_back := 0\<rparr>)) (\<lambda>_. redraw_visible ft 0))"

section \<open>Safety\<close>

text \<open>
  What the font crate documents: the replacement character has a glyph, and a glyph of height 16 has
  16 rows of the raster width each.
\<close>

definition font_ok :: "font \<Rightarrow> bool" where
  "font_ok ft \<longleftrightarrow> get_raster ft BACKUP_CHAR \<noteq> None \<and>
     (\<forall>c g. get_raster ft c = Some g \<longrightarrow>
        length g = RASTER_HEIGHT \<and> (\<forall>row \<in> set g. length row = raster_width ft))"

text \<open>
  The geometry the boot loader hands over: a supported pixel format, a buffer that holds all rows,
  and room for at least one glyph.
\<close>

definition screen_ok :: "font \<Rightarrow> FrameBufferInfo \<Rightarrow> nat \<Rightarrow> bool" where
  "screen_ok ft i len \<longleftrightarrow> pixel_format i \<noteq> Unknown \<and> 1 \<le> bytes_per_pixel i \<and> bytes_per_pixel i \<le> 4
     \<and> width i \<le> stride i \<and> height i * stride i * bytes_per_pixel i \<le> len
     \<and> BORDER_PADDING + raster_width ft < width i
     \<and> 2 * BORDER_PADDING + RASTER_HEIGHT < height i"

definition fb_inv :: "font \<Rightarrow> FrameBufferWriter \<Rightarrow> bool" where
  "fb_inv ft w \<longleftrightarrow> screen_ok ft (info w) (length (framebuffer w))
     \<and> viewport_rows w = (height (info w) - 2 * BORDER_PADDING) div ROW_HEIGHT
     \<and> y_pos w + RASTER_HEIGHT + BORDER_PADDING < height (info w)
     \<and> length (ring w) \<le> SCROLLBACK_LINES
     \<and> scroll_back w \<le> length (ring w) + 1 - viewport_rows w
     \<and> str_len (current_line w) < MAX_LINE_LEN + 4
     \<and> (\<forall>line \<in> set (ring w). str_len line < MAX_LINE_LEN + 4)"

lemmas fb_consts = LINE_SPACING_def LETTER_SPACING_def BORDER_PADDING_def RASTER_HEIGHT_def
  ROW_HEIGHT_def SCROLLBACK_LINES_def MAX_LINE_LEN_def

text \<open>Drawing changes pixels only.\<close>

definition drawn :: "FrameBufferWriter \<Rightarrow> FrameBufferWriter \<Rightarrow> bool" where
  "drawn w0 w \<longleftrightarrow> w = w0\<lparr>framebuffer := framebuffer w\<rparr> \<and> length (framebuffer w) = length (framebuffer w0)"

lemma drawn_refl [simp]: "drawn w w"
  by (simp add: drawn_def)

lemma drawnD:
  assumes "drawn w0 w"
  shows "info w = info w0" "length (framebuffer w) = length (framebuffer w0)"
    "x_pos w = x_pos w0" "y_pos w = y_pos w0" "ring w = ring w0" "current_line w = current_line w0"
    "scroll_back w = scroll_back w0" "viewport_rows w = viewport_rows w0"
proof -
  from assms have w: "w = w0\<lparr>framebuffer := framebuffer w\<rparr>" by (simp add: drawn_def)
  show "info w = info w0" by (subst w) simp
  show "x_pos w = x_pos w0" by (subst w) simp
  show "y_pos w = y_pos w0" by (subst w) simp
  show "ring w = ring w0" by (subst w) simp
  show "current_line w = current_line w0" by (subst w) simp
  show "scroll_back w = scroll_back w0" by (subst w) simp
  show "viewport_rows w = viewport_rows w0" by (subst w) simp
qed (use assms in \<open>simp add: drawn_def\<close>)

lemma pixel_in_range:
  assumes "screen_ok ft i len" "x < width i" "y < height i"
  shows "(y * stride i + x) * bytes_per_pixel i + bytes_per_pixel i \<le> len"
proof -
  have "y * stride i + x + 1 \<le> (y + 1) * stride i" using assms by (auto simp: screen_ok_def)
  also have "\<dots> \<le> height i * stride i" using assms by (intro mult_le_mono1) simp
  finally have "(y * stride i + x + 1) * bytes_per_pixel i \<le> height i * stride i * bytes_per_pixel i"
    by (rule mult_le_mono1)
  then show ?thesis using assms by (simp add: screen_ok_def algebra_simps)
qed

lemma returns_write_pixel:
  assumes "screen_ok ft (info w0) (length (framebuffer w0))"
    and x: "x < width (info w0)" and y: "y < height (info w0)"
  shows "returns (drawn w0) (write_pixel x y b) (\<lambda>_. drawn w0)"
proof (rule returnsI)
  fix w assume d: "drawn w0 w"
  note dd = drawnD [OF d]
  from assms have fmt: "pixel_format (info w0) \<noteq> Unknown" "1 \<le> bytes_per_pixel (info w0)"
    "bytes_per_pixel (info w0) \<le> 4" by (auto simp: screen_ok_def)
  then obtain col where col: "color (pixel_format (info w0)) b = Some col" "length col = 4"
    by (cases "pixel_format (info w0)") (auto simp: color_def)
  show "\<exists>x' s'. write_pixel x y b w = Some (Ok x', s') \<and> drawn w0 s'"
    using pixel_in_range [OF assms] d fmt col dd
    by (auto simp: write_pixel_def io_simps drawn_def Let_def)
qed

lemma returns_blit:
  assumes ok: "screen_ok ft (info w0) (length (framebuffer w0))" and g: "length g = RASTER_HEIGHT"
    "\<forall>row \<in> set g. length row = raster_width ft"
    and x: "x + raster_width ft < width (info w0)" and y: "y + RASTER_HEIGHT < height (info w0)"
  shows "returns (drawn w0) (blit x y g) (\<lambda>_. drawn w0)"
  unfolding blit_def
proof (rule returns_foldM, clarify, rule returns_foldM, clarify)
  fix r row c b
  assume "(r, row) \<in> set (enumerate 0 g)" "(c, b) \<in> set (enumerate 0 row)"
  then have "r < RASTER_HEIGHT" "c < raster_width ft"
    using g by (auto simp: in_set_enumerate_eq)
  with x y show "returns (drawn w0) (write_pixel (x + c) (y + r) b) (\<lambda>_. drawn w0)"
    by (intro returns_write_pixel [OF ok]) auto
qed

lemma raster_for_ok:
  assumes "font_ok ft"
  obtains g where "raster_for ft c = ret g" "length g = RASTER_HEIGHT"
    "\<forall>row \<in> set g. length row = raster_width ft"
proof -
  from assms obtain b where b: "get_raster ft BACKUP_CHAR = Some b" by (auto simp: font_ok_def)
  define g where "g = (case get_raster ft c of Some g \<Rightarrow> g | None \<Rightarrow> b)"
  have "raster_for ft c = ret g" by (simp add: raster_for_def g_def b split: option.split)
  moreover have "get_raster ft c = Some g \<or> get_raster ft BACKUP_CHAR = Some g"
    by (simp add: g_def b split: option.split)
  ultimately show ?thesis using assms that by (metis font_ok_def)
qed

lemma returns_draw_line:
  assumes ft: "font_ok ft" and ok: "screen_ok ft (info w0) (length (framebuffer w0))"
    and y: "y + RASTER_HEIGHT < height (info w0)"
  shows "returns (drawn w0) (draw_line ft cs x y) (\<lambda>_. drawn w0)"
proof (induction cs arbitrary: x)
  case Nil
  show ?case by (auto intro: returns_ret)
next
  case (Cons c cs)
  show ?case
  proof (simp only: draw_line.simps, rule returns_get_bind)
    fix w assume d: "drawn w0 w"
    obtain g where g: "raster_for ft c = ret g" "length g = RASTER_HEIGHT"
      "\<forall>row \<in> set g. length row = raster_width ft" using raster_for_ok [OF ft] .
    show "returns (\<lambda>s. s = w) (if width (info w) \<le> x + raster_width ft then ret x
        else bindM (raster_for ft c) (\<lambda>glyph. bindM (blit x y glyph) (\<lambda>_.
             draw_line ft cs (x + (raster_width ft + LETTER_SPACING)) y))) (\<lambda>_. drawn w0)"
    proof (rule returns_if)
      assume "\<not> width (info w) \<le> x + raster_width ft"
      then have "x + raster_width ft < width (info w0)" using drawnD [OF d] by simp
      then have "returns (drawn w0) (blit x y g) (\<lambda>_. drawn w0)"
        by (intro returns_blit [OF ok] g y)
      from returns_bindM [OF this Cons.IH]
      show "returns (\<lambda>s. s = w) (bindM (raster_for ft c) (\<lambda>glyph. bindM (blit x y glyph) (\<lambda>_.
             draw_line ft cs (x + (raster_width ft + LETTER_SPACING)) y))) (\<lambda>_. drawn w0)"
        unfolding g(1) bindM_ret by (rule returns_conseq) (auto simp: d)
    qed (auto intro: returns_ret d)
  qed
qed

text \<open>The rows of the viewport all lie on the screen.\<close>

lemma row_on_screen:
  assumes "2 * BORDER_PADDING + RASTER_HEIGHT < h" "row < max ((h - 2 * BORDER_PADDING) div ROW_HEIGHT) 1"
  shows "BORDER_PADDING + row * ROW_HEIGHT + RASTER_HEIGHT + BORDER_PADDING < h"
proof (cases row)
  case (Suc r)
  then have "row + 1 \<le> (h - 2) div 18" using assms by (auto simp: fb_consts max_def split: if_splits)
  then have "(row + 1) * 18 \<le> (h - 2) div 18 * 18" by (rule mult_le_mono1)
  also have "\<dots> \<le> h - 2" by simp
  finally show ?thesis using assms(1) by (simp add: fb_consts)
qed (use assms in \<open>simp add: fb_consts\<close>)

lemma returns_draw_rows:
  assumes ft: "font_ok ft" and ok: "screen_ok ft (info w0) (length (framebuffer w0))"
    and vr: "viewport_rows w0 = (height (info w0) - 2 * BORDER_PADDING) div ROW_HEIGHT"
  shows "row < max (viewport_rows w0) 1 \<Longrightarrow> y = BORDER_PADDING + row * ROW_HEIGHT \<Longrightarrow>
    returns (drawn w0) (draw_rows ft idxs row x y)
      (\<lambda>(row', _) w. drawn w0 w \<and> row' \<le> max (viewport_rows w0) 1)"
proof (induction idxs arbitrary: row x y)
  case Nil
  then show ?case by (auto intro: returns_ret)
next
  case (Cons idx idxs)
  have h: "2 * BORDER_PADDING + RASTER_HEIGHT < height (info w0)" using ok by (simp add: screen_ok_def)
  have y: "y + RASTER_HEIGHT < height (info w0)"
    using row_on_screen [OF h, of row] Cons.prems vr by simp
  show ?case
  proof (simp only: draw_rows.simps Let_def, rule returns_get_bind)
    fix w assume d: "drawn w0 w"
    let ?line = "if idx < length (ring w) then ring w ! idx else current_line w"
    have step: "returns (drawn w0) (if viewport_rows w \<le> row + 1 then ret (row + 1, x')
        else draw_rows ft idxs (row + 1) x' (y + ROW_HEIGHT))
        (\<lambda>(row', _) w. drawn w0 w \<and> row' \<le> max (viewport_rows w0) 1)" for x'
      using Cons.prems drawnD [OF d] by (intro returns_intros Cons.IH) auto
    have "returns (drawn w0) (bindM (draw_line ft ?line BORDER_PADDING y) (\<lambda>x.
        if row + 1 \<ge> viewport_rows w then ret (row + 1, x)
        else draw_rows ft idxs (row + 1) x (y + ROW_HEIGHT)))
        (\<lambda>(row', _) w. drawn w0 w \<and> row' \<le> max (viewport_rows w0) 1)"
      by (rule returns_bindM [OF returns_draw_line [OF ft ok y] step])
    then show "returns (\<lambda>s. s = w) (bindM (draw_line ft (if idx < length (ring (id w)) then ring (id w) ! idx
        else current_line (id w)) BORDER_PADDING y) (\<lambda>x.
        if viewport_rows (id w) \<le> row + 1 then ret (row + 1, x)
        else draw_rows ft idxs (row + 1) x (y + ROW_HEIGHT)))
        (\<lambda>(row', _) w. drawn w0 w \<and> row' \<le> max (viewport_rows w0) 1)"
      unfolding id_apply by (rule returns_conseq) (auto simp: d)
  qed
qed

text \<open>What a redraw may change: the pixels and the cursor, which stays on the screen.\<close>

definition repainted :: "FrameBufferWriter \<Rightarrow> FrameBufferWriter \<Rightarrow> bool" where
  "repainted w0 w \<longleftrightarrow> info w = info w0 \<and> length (framebuffer w) = length (framebuffer w0)
     \<and> ring w = ring w0 \<and> current_line w = current_line w0 \<and> scroll_back w = scroll_back w0
     \<and> viewport_rows w = viewport_rows w0
     \<and> y_pos w + RASTER_HEIGHT + BORDER_PADDING < height (info w)"

text \<open>The part of the invariant that does not depend on the cursor.\<close>

definition fb_geom :: "font \<Rightarrow> FrameBufferWriter \<Rightarrow> bool" where
  "fb_geom ft w \<longleftrightarrow> screen_ok ft (info w) (length (framebuffer w))
     \<and> viewport_rows w = (height (info w) - 2 * BORDER_PADDING) div ROW_HEIGHT"

lemma returns_redraw_visible:
  assumes ft: "font_ok ft"
  shows "returns (\<lambda>w. fb_geom ft w \<and> w = w0) (redraw_visible ft back) (\<lambda>_ w. repainted w0 w)"
proof (rule returnsI)
  fix w assume w: "fb_geom ft w \<and> w = w0"
  define w1 where "w1 = w0\<lparr>framebuffer := map (\<lambda>_. 0) (framebuffer w0)\<rparr>"
  from w have ok: "screen_ok ft (info w1) (length (framebuffer w1))"
    and vr: "viewport_rows w1 = (height (info w1) - 2 * BORDER_PADDING) div ROW_HEIGHT"
    by (auto simp: fb_geom_def w1_def)
  have h: "2 * BORDER_PADDING + RASTER_HEIGHT < height (info w1)" using ok by (simp add: screen_ok_def)
  let ?rows = "[length (ring w0) + 1 - (viewport_rows w0 + min back (length (ring w0) + 1 - viewport_rows w0))
      ..<length (ring w0) + 1 - min back (length (ring w0) + 1 - viewport_rows w0)]"
  have clr: "clear_visible w0 = Some (Ok (), w1)" by (simp add: clear_visible_def modify_run w1_def)
  have "returns (drawn w1) (draw_rows ft ?rows 0 BORDER_PADDING BORDER_PADDING)
      (\<lambda>(row', _) w. drawn w1 w \<and> row' \<le> max (viewport_rows w1) 1)"
    by (rule returns_draw_rows [OF ft ok vr]) auto
  from returnsD [OF this drawn_refl] obtain row x w2 where
    run: "draw_rows ft ?rows 0 BORDER_PADDING BORDER_PADDING w1 = Some (Ok (row, x), w2)"
    and d: "drawn w1 w2" and row: "row \<le> max (viewport_rows w1) 1" by blast
  have "BORDER_PADDING + (row - 1) * ROW_HEIGHT + RASTER_HEIGHT + BORDER_PADDING < height (info w1)"
    by (rule row_on_screen [OF h]) (use row vr in auto)
  then show "\<exists>u w'. redraw_visible ft back w = Some (Ok u, w') \<and> repainted w0 w'"
    using run w drawnD [OF d]
    by (simp add: redraw_visible_def clr gets_run bindM_Ok Let_def modify_run repainted_def w1_def)
qed

lemma fb_inv_repainted:
  "fb_geom ft w0 \<Longrightarrow> length (ring w0) \<le> SCROLLBACK_LINES \<Longrightarrow>
   scroll_back w0 \<le> length (ring w0) + 1 - viewport_rows w0 \<Longrightarrow>
   str_len (current_line w0) < MAX_LINE_LEN + 4 \<Longrightarrow>
   \<forall>line \<in> set (ring w0). str_len line < MAX_LINE_LEN + 4 \<Longrightarrow>
   repainted w0 w \<Longrightarrow> fb_inv ft w"
  by (auto simp: repainted_def fb_inv_def fb_geom_def)

lemma fb_inv_geom: "fb_inv ft w \<Longrightarrow> fb_geom ft w"
  by (simp add: fb_inv_def fb_geom_def)

lemma returns_advance_visual_row:
  assumes ft: "font_ok ft"
  shows "returns (\<lambda>w. fb_geom ft w \<and> w = w0) (advance_visual_row ft)
    (\<lambda>_ w. repainted w0 w \<and> x_pos w = BORDER_PADDING)"
proof (rule returnsI)
  fix w assume w: "fb_geom ft w \<and> w = w0"
  define w1 where "w1 = w0\<lparr>y_pos := y_pos w0 + ROW_HEIGHT, x_pos := BORDER_PADDING\<rparr>"
  have g1: "fb_geom ft w1" using w by (auto simp: fb_geom_def w1_def)
  have h: "2 * BORDER_PADDING + RASTER_HEIGHT < height (info w0)"
    using w by (auto simp: fb_geom_def screen_ok_def)
  from returnsD [OF returns_redraw_visible [OF ft, of w1 0], of w1] g1 obtain w2 where
    w2: "redraw_visible ft 0 w1 = Some (Ok (), w2)" "repainted w1 w2" by auto
  have "BORDER_PADDING + (viewport_rows w0 - 1) * ROW_HEIGHT + RASTER_HEIGHT + BORDER_PADDING < height (info w0)"
    by (rule row_on_screen [OF h]) (use w in \<open>auto simp: fb_geom_def\<close>)
  then show "\<exists>u w'. advance_visual_row ft w = Some (Ok u, w') \<and> repainted w0 w' \<and> x_pos w' = BORDER_PADDING"
    using w w2 by (auto simp: advance_visual_row_def bindM_Ok modify_run gets_run ret_run
        repainted_def w1_def [symmetric]) (simp_all add: w1_def)
qed

lemma returns_advance_if_live:
  assumes "font_ok ft"
  shows "returns (\<lambda>w. fb_geom ft w \<and> y_pos w + RASTER_HEIGHT + BORDER_PADDING < height (info w) \<and> w = w0)
    (advance_if_live ft) (\<lambda>_. repainted w0)"
  unfolding advance_if_live_def
proof (rule returns_get_bind, rule returns_if)
  fix w assume w: "fb_geom ft w \<and> y_pos w + RASTER_HEIGHT + BORDER_PADDING < height (info w) \<and> w = w0"
  show "returns (\<lambda>s. s = w) (advance_visual_row ft) (\<lambda>_. repainted w0)"
    by (rule returns_conseq [OF returns_advance_visual_row [OF assms, of w0]]) (use w in auto)
  show "returns (\<lambda>s. s = w) (ret ()) (\<lambda>_. repainted w0)"
    by (rule returns_ret) (use w in \<open>auto simp: repainted_def\<close>)
qed

lemma repainted_trans: "repainted a b \<Longrightarrow> repainted b c \<Longrightarrow> repainted a c"
  by (auto simp: repainted_def)

lemma fb_geom_repainted: "repainted a b \<Longrightarrow> fb_geom ft a \<Longrightarrow> fb_geom ft b"
  by (simp add: repainted_def fb_geom_def)

lemma returns_write_rendered:
  assumes "fb_geom ft w0" "length g = RASTER_HEIGHT" "\<forall>row \<in> set g. length row = raster_width ft"
    "x_pos w0 + raster_width ft < width (info w0)"
    "y_pos w0 + RASTER_HEIGHT + BORDER_PADDING < height (info w0)"
  shows "returns (\<lambda>w. w = w0) (write_rendered ft g) (\<lambda>_. repainted w0)"
proof (rule returnsI)
  fix w assume w: "w = w0"
  have "returns (drawn w0) (blit (x_pos w0) (y_pos w0) g) (\<lambda>_. drawn w0)"
    by (rule returns_blit [of ft]) (use assms in \<open>auto simp: fb_geom_def\<close>)
  from returnsD [OF this drawn_refl] obtain w2 where
    "blit (x_pos w0) (y_pos w0) g w0 = Some (Ok (), w2)" "drawn w0 w2" by auto
  then show "\<exists>u w'. write_rendered ft g w = Some (Ok u, w') \<and> repainted w0 w'"
    using assms w drawnD [of w0 w2]
    by (simp add: write_rendered_def bindM_Ok gets_run modify_run repainted_def)
qed

lemma returns_draw_live:
  assumes ft: "font_ok ft"
  shows "returns (\<lambda>w. fb_geom ft w \<and> y_pos w + RASTER_HEIGHT + BORDER_PADDING < height (info w) \<and> w = w0)
    (draw_live ft c) (\<lambda>_. repainted w0)"
  unfolding draw_live_def
proof (rule returns_get_bind, unfold id_apply, rule returns_if)
  fix w assume w: "fb_geom ft w \<and> y_pos w + RASTER_HEIGHT + BORDER_PADDING < height (info w) \<and> w = w0"
  show "returns (\<lambda>s. s = w) (ret ()) (\<lambda>_. repainted w0)"
    by (rule returns_ret) (use w in \<open>auto simp: repainted_def\<close>)
  obtain g where g: "raster_for ft c = ret g" "length g = RASTER_HEIGHT"
    "\<forall>row \<in> set g. length row = raster_width ft" using raster_for_ok [OF ft] .
  have "returns (\<lambda>s. s = w) (if width (info w) \<le> x_pos w + raster_width ft then advance_visual_row ft else ret ())
      (\<lambda>_ s. repainted w0 s \<and> x_pos s + raster_width ft < width (info s))"
  proof (rule returns_if)
    have "BORDER_PADDING + raster_width ft < width (info w0)"
      using w by (auto simp: fb_geom_def screen_ok_def)
    then show "returns (\<lambda>s. s = w) (advance_visual_row ft)
        (\<lambda>_ s. repainted w0 s \<and> x_pos s + raster_width ft < width (info s))"
      by (intro returns_conseq [OF returns_advance_visual_row [OF ft, of w0]])
        (use w in \<open>auto simp: repainted_def\<close>)
  qed (rule returns_ret, use w in \<open>auto simp: repainted_def\<close>)
  moreover have "returns (\<lambda>s. repainted w0 s \<and> x_pos s + raster_width ft < width (info s))
      (write_rendered ft g) (\<lambda>_. repainted w0)"
  proof (rule returnsI)
    fix s assume s: "repainted w0 s \<and> x_pos s + raster_width ft < width (info s)"
    have "returns (\<lambda>w. w = s) (write_rendered ft g) (\<lambda>_. repainted s)"
      by (rule returns_write_rendered)
        (use g s w fb_geom_repainted [of w0 s ft] in \<open>auto simp: repainted_def\<close>)
    from returnsD [OF this refl] s show "\<exists>u s'. write_rendered ft g s = Some (Ok u, s') \<and> repainted w0 s'"
      using repainted_trans [of w0 s] by blast
  qed
  ultimately show "returns (\<lambda>s. s = w) (bindM (if width (info w) \<le> x_pos w + raster_width ft
      then advance_visual_row ft else ret ()) (\<lambda>_. bindM (raster_for ft c) (write_rendered ft)))
      (\<lambda>_. repainted w0)"
    unfolding g(1) bindM_ret by (rule returns_bindM)
qed

section \<open>The history\<close>

text \<open>
  The specification of the scrollback: an unbounded log of finished lines and the line being
  composed. A line is finished by a newline or when it has reached 256 bytes.
\<close>

type_synonym history = "rchar list list \<times> rchar list"

definition log_char :: "rchar \<Rightarrow> history \<Rightarrow> history" where
  "log_char c = (\<lambda>(lines, cur).
     if c = 10 then (lines @ [cur], [])
     else if c = 13 then (lines, cur)
     else if str_len cur \<ge> MAX_LINE_LEN then (lines @ [cur], [c])
     else (lines, cur @ [c]))"

definition last_n :: "nat \<Rightarrow> 'a list \<Rightarrow> 'a list" where
  "last_n n xs = drop (length xs - n) xs"

definition shows_history :: "history \<Rightarrow> FrameBufferWriter \<Rightarrow> bool" where
  "shows_history h w \<longleftrightarrow> ring w = last_n SCROLLBACK_LINES (fst h) \<and> current_line w = snd h"

lemma length_last_n [simp]: "length (last_n n xs) = min n (length xs)"
  by (simp add: last_n_def min_def)

lemma last_n_push:
  "0 < n \<Longrightarrow> last_n n (xs @ [x]) = (if length (last_n n xs) = n then tl (last_n n xs) else last_n n xs) @ [x]"
  by (auto simp: last_n_def drop_Suc tl_drop Suc_diff_le min_def not_le)

text \<open>The ring after one push, and its effect on the log.\<close>

definition pushed :: "FrameBufferWriter \<Rightarrow> FrameBufferWriter" where
  "pushed w = w\<lparr>ring := (if length (ring w) = SCROLLBACK_LINES then tl (ring w) else ring w) @ [current_line w],
     current_line := []\<rparr>"

lemma push_run: "push_current_to_ring w = Some (Ok (), pushed w)"
  by (simp add: push_current_to_ring_def modify_run pushed_def Let_def)

lemma shows_history_pushed:
  "shows_history (lines, cur) w \<Longrightarrow> shows_history (lines @ [cur], []) (pushed w)"
  by (simp add: shows_history_def pushed_def last_n_push SCROLLBACK_LINES_def)

lemma fb_inv_pushed: "fb_inv ft w \<Longrightarrow> fb_inv ft (pushed w)"
  by (cases "ring w") (auto simp: fb_inv_def pushed_def str_len_def fb_consts)

lemma fb_inv_geomD:
  "fb_inv ft w \<Longrightarrow> fb_geom ft w \<and> y_pos w + RASTER_HEIGHT + BORDER_PADDING < height (info w)"
  by (simp add: fb_inv_def fb_geom_def)

lemma fb_inv_repaint: "fb_inv ft w0 \<Longrightarrow> repainted w0 w \<Longrightarrow> fb_inv ft w"
  by (rule fb_inv_repainted [OF fb_inv_geom]) (auto simp: fb_inv_def)

lemma shows_history_repaint: "shows_history h w0 \<Longrightarrow> repainted w0 w \<Longrightarrow> shows_history h w"
  by (simp add: shows_history_def repainted_def)

text \<open>The invariant together with the history, as the operations keep it.\<close>

definition console :: "font \<Rightarrow> history \<Rightarrow> FrameBufferWriter \<Rightarrow> bool" where
  "console ft h w \<longleftrightarrow> fb_inv ft w \<and> shows_history h w"

lemma console_repaint: "console ft h w0 \<Longrightarrow> repainted w0 w \<Longrightarrow> console ft h w"
  by (auto simp: console_def intro: fb_inv_repaint shows_history_repaint)

lemma returns_repaint:
  assumes "\<And>w0. returns (\<lambda>w. fb_geom ft w \<and> y_pos w + RASTER_HEIGHT + BORDER_PADDING < height (info w) \<and> w = w0)
    m (\<lambda>_. repainted w0)"
  shows "returns (console ft h) m (\<lambda>_. console ft h)"
proof (rule returnsI)
  fix w assume w: "console ft h w"
  with returnsD [OF assms [of w], of w] fb_inv_geomD obtain x w' where
    "m w = Some (Ok x, w')" "repainted w w'" by (auto simp: console_def)
  with console_repaint [OF w] show "\<exists>x w'. m w = Some (Ok x, w') \<and> console ft h w'" by blast
qed

lemma returns_push:
  "returns (console ft (lines, cur)) push_current_to_ring (\<lambda>_. console ft (lines @ [cur], []))"
  by (rule returnsI) (auto simp: push_run console_def intro: fb_inv_pushed shows_history_pushed)

lemma returns_newline:
  assumes "font_ok ft"
  shows "returns (console ft (lines, cur)) (newline ft) (\<lambda>_. console ft (lines @ [cur], []))"
  unfolding newline_def
  by (rule returns_bindM [OF returns_push returns_repaint [OF returns_advance_if_live [OF assms]]])

lemma len_utf8_le: "len_utf8 c \<le> 4"
  by (simp add: len_utf8_def)

lemma returns_put_char:
  "returns (\<lambda>w. console ft (lines, cur) w \<and> str_len cur < MAX_LINE_LEN)
     (modify (\<lambda>w. w\<lparr>current_line := current_line w @ [c]\<rparr>)) (\<lambda>_. console ft (lines, cur @ [c]))"
  using len_utf8_le [of c]
  by (intro returns_modify) (auto simp: console_def fb_inv_def shows_history_def str_len_def)

lemma returns_const: "returns P m Q \<Longrightarrow> returns (\<lambda>s. P s \<and> C) m (\<lambda>x s. Q x s \<and> C)"
  by (auto simp: returns_def)

lemma returns_char:
  assumes ft: "font_ok ft" and cur: "str_len cur < MAX_LINE_LEN"
  shows "returns (console ft (lines, cur)) (bindM (draw_live ft c) (\<lambda>_.
    modify (\<lambda>w. w\<lparr>current_line := current_line w @ [c]\<rparr>))) (\<lambda>_. console ft (lines, cur @ [c]))"
  by (rule returns_bindM [OF returns_repaint [OF returns_draw_live [OF ft]]],
      rule returns_conseq [OF returns_put_char]) (auto simp: cur)

lemma returns_write_char:
  assumes ft: "font_ok ft"
  shows "returns (console ft h) (write_char ft c) (\<lambda>_. console ft (log_char c h))"
proof (cases h)
  case h: (Pair lines cur)
  show ?thesis
  proof (cases "c = 10 \<or> c = 13")
    case True
    have "returns (console ft h) carriage_return (\<lambda>_. console ft h)"
      unfolding carriage_return_def
      by (rule returns_modify) (auto simp: console_def fb_inv_def shows_history_def)
    with True returns_newline [OF ft, of lines cur] show ?thesis
      by (auto simp: write_char_def log_char_def h)
  next
    case False
    let ?full = "str_len cur \<ge> MAX_LINE_LEN"
    let ?h = "if ?full then (lines @ [cur], []) else (lines, cur)"
    have "returns (console ft h) (if ?full then bindM push_current_to_ring (\<lambda>_. advance_if_live ft) else ret ())
        (\<lambda>_. console ft ?h)"
      using returns_newline [OF ft, of lines cur] by (auto simp: h newline_def intro: returns_ret)
    moreover have "returns (console ft ?h) (bindM (draw_live ft c) (\<lambda>_.
        modify (\<lambda>w. w\<lparr>current_line := current_line w @ [c]\<rparr>))) (\<lambda>_. console ft (log_char c h))"
      using False returns_char [OF ft, of "snd ?h" "fst ?h" c]
      by (auto simp: log_char_def h str_len_def MAX_LINE_LEN_def)
    ultimately have body: "returns (console ft h)
        (bindM (if ?full then bindM push_current_to_ring (\<lambda>_. advance_if_live ft) else ret ()) (\<lambda>_.
         bindM (draw_live ft c) (\<lambda>_. modify (\<lambda>w. w\<lparr>current_line := current_line w @ [c]\<rparr>))))
        (\<lambda>_. console ft (log_char c h))"
      by (rule returns_bindM)
    have cur: "console ft h w \<Longrightarrow> current_line w = cur" for w
      by (simp add: console_def shows_history_def h)
    have "returns (\<lambda>s. s = w) (bindM (if str_len (current_line (id w)) \<ge> MAX_LINE_LEN
        then bindM push_current_to_ring (\<lambda>_. advance_if_live ft) else ret ()) (\<lambda>_.
        bindM (draw_live ft c) (\<lambda>_. modify (\<lambda>w. w\<lparr>current_line := current_line w @ [c]\<rparr>))))
        (\<lambda>_. console ft (log_char c h))" if "console ft h w" for w
      unfolding id_apply cur [OF that] by (rule returns_conseq [OF body]) (auto simp: that)
    then show ?thesis using False by (auto simp: write_char_def intro: returns_get_bind)
  qed
qed

lemma returns_write_str:
  assumes ft: "font_ok ft"
  shows "returns (console ft h) (write_str ft s) (\<lambda>_. console ft (fold log_char s h))"
  unfolding write_str_def
proof (induction s arbitrary: h)
  case (Cons c s)
  show ?case unfolding foldM.simps fold.simps comp_def
    by (rule returns_seq [OF returns_write_char [OF ft]], rule Cons.IH)
qed (auto intro: returns_ret)

text \<open>Moving the viewport to an offset within the history.\<close>

lemma returns_scroll_to:
  assumes ft: "font_ok ft"
  shows "returns (\<lambda>w. console ft h w \<and> off \<le> length (ring w) + 1 - viewport_rows w)
    (bindM (modify (\<lambda>w. w\<lparr>scroll_back := off\<rparr>)) (\<lambda>_. redraw_visible ft off)) (\<lambda>_. console ft h)"
proof (rule returns_bindM [OF returns_modify])
  fix w assume "console ft h w \<and> off \<le> length (ring w) + 1 - viewport_rows w"
  then show "console ft h (w\<lparr>scroll_back := off\<rparr>)"
    by (auto simp: console_def fb_inv_def shows_history_def)
next
  show "returns (console ft h) (redraw_visible ft off) (\<lambda>_. console ft h)"
    by (rule returns_repaint) (rule returns_conseq [OF returns_redraw_visible [OF ft]], auto)
qed

lemma returns_scroll:
  assumes "font_ok ft"
  shows "returns (console ft h) (scroll_up ft n) (\<lambda>_. console ft h)"
    and "returns (console ft h) (scroll_down ft n) (\<lambda>_. console ft h)"
    and "returns (console ft h) (scroll_end ft) (\<lambda>_. console ft h)"
proof -
  have sb: "scroll_back w \<le> length (ring w) + 1 - viewport_rows w" if "console ft h w" for w
    using that by (auto simp: console_def fb_inv_def)
  note to = returns_conseq [OF returns_scroll_to [OF assms]]
  show "returns (console ft h) (scroll_up ft n) (\<lambda>_. console ft h)"
    unfolding scroll_up_def Let_def
    by (rule returns_get_bind, rule returns_if, rule returns_ret, simp, rule to) auto
  show "returns (console ft h) (scroll_down ft n) (\<lambda>_. console ft h)"
    unfolding scroll_down_def Let_def
    by (rule returns_get_bind, rule returns_if, rule returns_ret, simp, rule to) (auto dest: sb)
  show "returns (console ft h) (scroll_end ft) (\<lambda>_. console ft h)"
    unfolding scroll_end_def
    by (rule returns_get_bind, rule returns_if, rule returns_ret, simp, rule to) auto
qed

section \<open>Sequences of operations\<close>

datatype fb_op = WriteStr "rchar list" | ScrollUp nat | ScrollDown nat | ScrollEnd | Clear

fun fb_step :: "font \<Rightarrow> fb_op \<Rightarrow> unit fb" where
  "fb_step ft (WriteStr s) = write_str ft s"
| "fb_step ft (ScrollUp n) = scroll_up ft n"
| "fb_step ft (ScrollDown n) = scroll_down ft n"
| "fb_step ft ScrollEnd = scroll_end ft"
| "fb_step ft Clear = clear"

definition fb_run :: "font \<Rightarrow> fb_op list \<Rightarrow> unit fb" where
  "fb_run ft ops = foldM (\<lambda>op _. fb_step ft op) ops ()"

text \<open>The text an operation sequence writes.\<close>

definition written :: "fb_op list \<Rightarrow> rchar list" where
  "written ops = concat (map (\<lambda>op. case op of WriteStr s \<Rightarrow> s | _ \<Rightarrow> []) ops)"

lemma returns_fb_step:
  assumes "font_ok ft"
  shows "returns (console ft h) (fb_step ft op)
    (\<lambda>_. console ft (fold log_char (case op of WriteStr s \<Rightarrow> s | _ \<Rightarrow> []) h))"
proof (cases op)
  case Clear
  then show ?thesis
    by (auto simp: clear_def intro!: returns_modify simp: console_def fb_inv_def shows_history_def screen_ok_def)
qed (simp_all add: returns_write_str returns_scroll assms)

lemma returns_fb_run:
  assumes "font_ok ft"
  shows "returns (console ft h) (fb_run ft ops) (\<lambda>_. console ft (fold log_char (written ops) h))"
  unfolding fb_run_def
proof (induction ops arbitrary: h)
  case (Cons op ops)
  show ?case unfolding foldM.simps
    by (rule returns_seq [OF returns_fb_step [OF assms]], rule returns_conseq [OF Cons.IH])
      (auto simp: written_def)
qed (auto intro: returns_ret simp: written_def)

lemma console_new:
  "screen_ok ft i (length buf) \<Longrightarrow> console ft ([], []) (fb_new buf i)"
  by (auto simp: console_def fb_new_def fb_inv_def shows_history_def last_n_def str_len_def
      screen_ok_def fb_consts)

lemma fb_run_new:
  assumes "font_ok ft" "screen_ok ft i (length buf)"
  shows "\<exists>w. fb_run ft ops (fb_new buf i) = Some (Ok (), w) \<and> console ft (fold log_char (written ops) ([], [])) w"
  using returnsD [OF returns_fb_run [OF assms(1)] console_new [OF assms(2)]] by auto


text \<open>
  C37: the scrollback ring always holds exactly the last 256 finished lines of the text printed so
  far, and the current line its unfinished rest; scrolling and clearing change neither.
\<close>

theorem fb_run_history:
  assumes "font_ok ft" "screen_ok ft i (length buf)"
  shows "\<exists>w. fb_run ft ops (fb_new buf i) = Some (Ok (), w)
    \<and> ring w = last_n 256 (fst (fold log_char (written ops) ([], [])))
    \<and> current_line w = snd (fold log_char (written ops) ([], []))"
  using fb_run_new [OF assms] by (auto simp: console_def shows_history_def SCROLLBACK_LINES_def)

text \<open>A one-pixel-wide font and a screen of 3 by 19 pixels.\<close>

definition tiny_font :: font where
  "tiny_font = \<lparr>get_raster = (\<lambda>c. Some (replicate 16 [255])), raster_width = 1\<rparr>"

definition tiny_info :: FrameBufferInfo where
  "tiny_info = \<lparr>width = 3, height = 19, pixel_format = U8, bytes_per_pixel = 1, stride = 3\<rparr>"

lemma tiny_ok: "font_ok tiny_font" "screen_ok tiny_font tiny_info (length (replicate 57 (0 :: u8)))"
  by (simp_all add: font_ok_def tiny_font_def screen_ok_def tiny_info_def fb_consts)


theorem fb_run_history_witness:
  "\<exists>w. fb_run tiny_font [WriteStr [72, 105, 10], ScrollUp 5, WriteStr [33]] (fb_new (replicate 57 0) tiny_info)
     = Some (Ok (), w) \<and> ring w = [[72, 105]] \<and> current_line w = [33]"
  using fb_run_history [OF tiny_ok, of "[WriteStr [72, 105, 10], ScrollUp 5, WriteStr [33]]"]
  by (simp add: written_def log_char_def str_len_def len_utf8_def MAX_LINE_LEN_def last_n_def)

section \<open>Scrolling\<close>

text \<open>Drawing reads neither the cursor nor the scroll offset: it commutes with setting them.\<close>

definition commutes :: "('s \<Rightarrow> 's) \<Rightarrow> ('s, 'e, 'a) io \<Rightarrow> bool" where
  "commutes f m \<longleftrightarrow> (\<forall>s. m (f s) = map_option (\<lambda>(r, s'). (r, f s')) (m s))"

named_theorems commutes_intros

lemma commutes_ret [commutes_intros]: "commutes f (ret x)"
  by (simp add: commutes_def ret_run)

lemma commutes_panic [commutes_intros]: "commutes f panic"
  by (simp add: commutes_def panic_run)

lemma commutes_modify: "(\<And>s. g (f s) = f (g s)) \<Longrightarrow> commutes f (modify g)"
  by (simp add: commutes_def modify_run)

lemma commutes_bindM [commutes_intros]:
  assumes "commutes f m" "\<And>x. commutes f (k x)"
  shows "commutes f (bindM m k)"
  unfolding commutes_def
proof
  fix s
  show "bindM m k (f s) = map_option (\<lambda>(r, s'). (r, f s')) (bindM m k s)"
  proof (cases "m s")
    case (Some p)
    then show ?thesis using assms
      by (cases p; cases "fst p") (auto simp: commutes_def bindM_def)
  qed (use assms in \<open>simp add: commutes_def bindM_def\<close>)
qed

lemma commutes_gets:
  assumes "\<And>s. k (g (f s)) = k (g s)" "\<And>x. commutes f (k x)"
  shows "commutes f (bindM (gets g) k)"
  using assms by (simp add: commutes_def bindM_Ok gets_run)

lemma commutes_foldM [commutes_intros]:
  "(\<And>x a. commutes f (b x a)) \<Longrightarrow> commutes f (foldM b xs a)"
  by (induction xs arbitrary: a) (auto intro: commutes_intros)

lemma commutes_if [commutes_intros]:
  "commutes f m \<Longrightarrow> commutes f n \<Longrightarrow> commutes f (if b then m else n)"
  by simp

definition place :: "nat \<Rightarrow> nat \<Rightarrow> nat \<Rightarrow> FrameBufferWriter \<Rightarrow> FrameBufferWriter" where
  "place x y sb w = w\<lparr>x_pos := x, y_pos := y, scroll_back := sb\<rparr>"

lemma place_simps [simp]:
  "info (place a b c w) = info w" "ring (place a b c w) = ring w"
  "current_line (place a b c w) = current_line w" "viewport_rows (place a b c w) = viewport_rows w"
  "framebuffer (place a b c w) = framebuffer w"
  by (simp_all add: place_def)

lemma commutes_write_pixel [commutes_intros]: "commutes (place a b c) (write_pixel x y i)"
  unfolding write_pixel_def Let_def
  by (rule commutes_gets)
    (auto simp: place_def split: option.split intro!: commutes_intros commutes_modify)

lemma commutes_blit [commutes_intros]: "commutes (place a b c) (blit x y g)"
  unfolding blit_def by (auto split: prod.split intro!: commutes_intros)

lemma commutes_raster_for [commutes_intros]: "commutes f (raster_for ft ch)"
  unfolding raster_for_def by (auto split: option.split intro: commutes_intros)

lemma commutes_draw_line [commutes_intros]: "commutes (place a b c) (draw_line ft cs x y)"
proof (induction cs arbitrary: x)
  case (Cons ch cs)
  show ?case unfolding draw_line.simps
    by (rule commutes_gets) (auto intro!: commutes_intros Cons.IH)
qed (simp add: commutes_ret)

lemma commutes_draw_rows [commutes_intros]: "commutes (place a b c) (draw_rows ft idxs row x y)"
proof (induction idxs arbitrary: row x y)
  case (Cons idx idxs)
  show ?case unfolding draw_rows.simps Let_def
    by (rule commutes_gets) (auto intro!: commutes_intros Cons.IH)
qed (simp add: commutes_ret)

text \<open>A redraw does not depend on what an earlier redraw left on the screen.\<close>

lemma redraw_place:
  assumes "console ft h w" "font_ok ft"
  shows "redraw_visible ft back (place a b c w)
    = map_option (\<lambda>(r, w'). (r, place (x_pos w') (y_pos w') c w')) (redraw_visible ft back w)"
proof -
  define w1 where "w1 = w\<lparr>framebuffer := map (\<lambda>_. 0) (framebuffer w)\<rparr>"
  have clr: "clear_visible w = Some (Ok (), w1)"
      "clear_visible (place a b c w) = Some (Ok (), place a b c w1)"
    by (simp_all add: clear_visible_def modify_run w1_def place_def)
  let ?rows = "[length (ring w) + 1 - (viewport_rows w + min back (length (ring w) + 1 - viewport_rows w))
      ..<length (ring w) + 1 - min back (length (ring w) + 1 - viewport_rows w)]"
  have ok: "fb_geom ft w1" using assms by (auto simp: console_def fb_inv_def fb_geom_def w1_def)
  have "returns (drawn w1) (draw_rows ft ?rows 0 BORDER_PADDING BORDER_PADDING)
      (\<lambda>(row', _) w. drawn w1 w \<and> row' \<le> max (viewport_rows w1) 1)"
    by (rule returns_draw_rows [OF assms(2)]) (use ok in \<open>auto simp: fb_geom_def\<close>)
  from returnsD [OF this drawn_refl] obtain row x w2 where
    run: "draw_rows ft ?rows 0 BORDER_PADDING BORDER_PADDING w1 = Some (Ok (row, x), w2)" by blast
  then have run': "draw_rows ft ?rows 0 BORDER_PADDING BORDER_PADDING (place a b c w1)
      = Some (Ok (row, x), place a b c w2)"
    using commutes_draw_rows [of a b c ft ?rows 0 BORDER_PADDING BORDER_PADDING] by (simp add: commutes_def)
  have w1: "ring w1 = ring w" "viewport_rows w1 = viewport_rows w" by (simp_all add: w1_def)
  have "redraw_visible ft back w
      = Some (Ok (), w2\<lparr>x_pos := x, y_pos := BORDER_PADDING + (row - 1) * ROW_HEIGHT\<rparr>)"
    using run by (simp add: redraw_visible_def clr bindM_Ok gets_run Let_def modify_run w1)
  moreover have "redraw_visible ft back (place a b c w)
      = Some (Ok (), (place a b c w2)\<lparr>x_pos := x, y_pos := BORDER_PADDING + (row - 1) * ROW_HEIGHT\<rparr>)"
    using run' by (simp add: redraw_visible_def clr bindM_Ok gets_run Let_def modify_run w1)
  ultimately show ?thesis by (simp add: place_def)
qed

lemma redraw_after_repaint:
  assumes w: "console ft h w" "font_ok ft" and rep: "repainted w w'"
  shows "redraw_visible ft back (w'\<lparr>scroll_back := c\<rparr>) = redraw_visible ft back (w\<lparr>scroll_back := c\<rparr>)"
proof -
  have "clear_visible (w'\<lparr>scroll_back := c\<rparr>) = clear_visible (place (x_pos w') (y_pos w') c w)"
    using rep by (cases w; cases w')
      (auto simp: clear_visible_def modify_run place_def repainted_def map_replicate_const)
  then have "redraw_visible ft back (w'\<lparr>scroll_back := c\<rparr>)
      = redraw_visible ft back (place (x_pos w') (y_pos w') c w)"
    by (simp add: redraw_visible_def bindM_def)
  also have "\<dots> = redraw_visible ft back (place (x_pos w) (y_pos w) c w)"
    unfolding redraw_place [OF w] ..
  also have "place (x_pos w) (y_pos w) c w = w\<lparr>scroll_back := c\<rparr>" by (simp add: place_def)
  finally show ?thesis .
qed

lemma scroll_to_to:
  assumes w: "console ft h w" "font_ok ft" and i: "i \<le> length (ring w) + 1 - viewport_rows w"
    and run: "redraw_visible ft i (w\<lparr>scroll_back := i\<rparr>) = Some (Ok u, w')"
  shows "redraw_visible ft j (w'\<lparr>scroll_back := j\<rparr>) = redraw_visible ft j (w\<lparr>scroll_back := j\<rparr>)"
    and "scroll_back w' = i" "ring w' = ring w" "viewport_rows w' = viewport_rows w"
proof -
  let ?wi = "w\<lparr>scroll_back := i\<rparr>"
  have wi: "console ft h ?wi" using w i by (auto simp: console_def fb_inv_def shows_history_def)
  then have "fb_geom ft ?wi" by (simp add: console_def fb_inv_geom)
  with returnsD [OF returns_redraw_visible [OF w(2), of ?wi i], of ?wi] run
  have rep: "repainted ?wi w'" by simp
  then show "scroll_back w' = i" "ring w' = ring w" "viewport_rows w' = viewport_rows w"
    by (auto simp: repainted_def)
  show "redraw_visible ft j (w'\<lparr>scroll_back := j\<rparr>) = redraw_visible ft j (w\<lparr>scroll_back := j\<rparr>)"
    using redraw_after_repaint [OF wi w(2) rep] by simp
qed

text \<open>
  Scrolling up twice is scrolling up once by the sum, screen, cursor and offset included, in
  every state the console can reach: what the viewport shows is determined by the history and the
  clamped offset alone.
\<close>

theorem scroll_up_add:
  assumes "font_ok ft" "screen_ok ft i (length buf)"
    and "fb_run ft ops (fb_new buf i) = Some (Ok (), w)"
  shows "bindM (scroll_up ft a) (\<lambda>_. scroll_up ft b) w = scroll_up ft (a + b) w"
proof -
  from fb_run_new [OF assms(1,2), of ops] assms(3) obtain h where h: "console ft h w" by auto
  let ?max = "length (ring w) + 1 - viewport_rows w"
  let ?i = "min (scroll_back w + a) ?max"
  have sb: "scroll_back w \<le> ?max" using h by (auto simp: console_def fb_inv_def)
  show ?thesis
  proof (cases "?i = scroll_back w")
    case True
    then have "min (scroll_back w + b) ?max = min (scroll_back w + (a + b)) ?max" by linarith
    then show ?thesis using True by (simp add: scroll_up_def bindM_Ok gets_run ret_run Let_def)
  next
    case False
    have wi: "console ft h (w\<lparr>scroll_back := ?i\<rparr>)"
      using h by (auto simp: console_def fb_inv_def shows_history_def)
    from returnsD [OF returns_redraw_visible [OF assms(1)], of "w\<lparr>scroll_back := ?i\<rparr>"] wi
    obtain w' where w': "redraw_visible ft ?i (w\<lparr>scroll_back := ?i\<rparr>) = Some (Ok (), w')"
      by (auto simp: console_def dest: fb_inv_geom)
    note st = scroll_to_to [OF h assms(1) _ w']
    have a: "scroll_up ft a w = Some (Ok (), w')"
      using False w' by (simp add: scroll_up_def bindM_Ok gets_run modify_run Let_def)
    have m: "min (?i + b) ?max = min (scroll_back w + (a + b)) ?max" by linarith
    have n: "min (scroll_back w + (a + b)) ?max \<noteq> scroll_back w" using False sb by linarith
    have "bindM (scroll_up ft a) (\<lambda>_. scroll_up ft b) w = scroll_up ft b w'"
      using a by (rule bindM_Ok)
    then show ?thesis
      using m n w' st by (auto simp: scroll_up_def [of _ b] scroll_up_def [of _ "a + b"]
          bindM_Ok gets_run modify_run ret_run Let_def)
  qed
qed

theorem scroll_up_add_witness:
  "\<exists>w. fb_run tiny_font [WriteStr [72, 10, 105, 10]] (fb_new (replicate 57 0) tiny_info) = Some (Ok (), w)
     \<and> bindM (scroll_up tiny_font 1) (\<lambda>_. scroll_up tiny_font 1) w = scroll_up tiny_font 2 w"
  using fb_run_new [OF tiny_ok, of "[WriteStr [72, 10, 105, 10]]"] scroll_up_add [OF tiny_ok, where a = 1 and b = 1]
  by (auto simp: numeral_2_eq_2)

end
