(* ===== verification/Tasks.thy ===== *)
theory Tasks
  imports Prelude
begin

text \<open>
  The cooperative executors of \<^verbatim>\<open>kernel/src/task/\<close>. A future is a value of an arbitrary type \<open>'f\<close>; what
  polling it does is the parameter \<open>poll\<close>, which may read and change the rest of the world \<open>'s\<close> and
  report the wakers it called. The waker of a task is the task's id together with the shared run
  queue, so a cached waker is represented by the id it stands for.

  Shown: ids are fresh; the simple executor polls round-robin and ends when its futures do; the
  waker-aware executor drains its queue for any futures that end, completes every task that wakes
  itself, and keeps no waker of a task that is gone.
\<close>

section \<open>Tasks\<close>

type_synonym TaskId = u64

datatype Poll = Ready | Pending

text \<open>\<open>TaskId::new\<close> on the counter \<open>NEXT_ID\<close>: \<open>fetch_add\<close> wraps.\<close>

definition task_id_new :: "u64 \<Rightarrow> TaskId \<times> u64" where
  "task_id_new next_id = (next_id, next_id + 1)"

fun task_ids :: "nat \<Rightarrow> u64 \<Rightarrow> TaskId list" where
  "task_ids 0 next_id = []"
| "task_ids (Suc n) next_id = (let (i, next_id') = task_id_new next_id in i # task_ids n next_id')"

lemma task_ids_eq: "task_ids n k = map (\<lambda>j. k + word_of_nat j) [0..<n]"
proof (induction n arbitrary: k)
  case (Suc n)
  show ?case by (simp add: task_id_new_def Suc.IH map_upt_Suc del: upt_Suc)
qed simp

text \<open>
  The ids handed out by \<open>TaskId::new\<close> are pairwise different as long as fewer than
  \<open>2 ^ 64\<close> tasks are created, whatever value the counter starts from.
\<close>

theorem task_ids_distinct:
  assumes "n \<le> 2 ^ 64"
  shows "distinct (task_ids n k)"
proof -
  have "inj_on (\<lambda>j. k + word_of_nat j :: u64) {0..<n}"
  proof (rule inj_onI)
    fix i j assume "i \<in> {0..<n}" "j \<in> {0..<n}" "k + word_of_nat i = (k + word_of_nat j :: u64)"
    then have eq: "unat (word_of_nat i :: u64) = unat (word_of_nat j :: u64)"
      and "i < 2 ^ 64" "j < 2 ^ 64" using assms by auto
    then show "i = j" by (simp add: unat_of_nat)
  qed
  then show ?thesis by (simp add: task_ids_eq distinct_map)
qed

theorem task_ids_distinct_witness: "distinct (task_ids 3 (- 1))"
  by (rule task_ids_distinct) simp

section \<open>The simple executor\<close>

text \<open>
  \<open>SimpleExecutor\<close>: the state is the queue of futures and the world. The waker it passes does
  nothing, so the wake calls of a poll are ignored.
\<close>

record 'f SimpleExecutor =
  se_queue :: "'f list"

definition simple_new :: "'f SimpleExecutor" where
  "simple_new = \<lparr>se_queue = []\<rparr>"

definition simple_spawn :: "'f \<Rightarrow> 'f SimpleExecutor \<Rightarrow> 'f SimpleExecutor" where
  "simple_spawn task ex = ex\<lparr>se_queue := se_queue ex @ [task]\<rparr>"

text \<open>
  \<open>Task::poll\<close> is given a waker: the id it enqueues, or \<open>None\<close> for the no-op waker. It yields the
  result, the future afterwards and the ids of the wakers that were called meanwhile.
\<close>

type_synonym waker = "TaskId option"
type_synonym ('f, 's) poll = "waker \<Rightarrow> 'f \<Rightarrow> 's \<Rightarrow> (Poll \<times> 'f \<times> TaskId list) \<times> 's"

definition simple_body ::
    "('f, 's) poll \<Rightarrow> unit \<Rightarrow> ('f SimpleExecutor \<times> 's, unit, unit + unit) io" where
  "simple_body poll _ = (\<lambda>(ex, s).
     case se_queue ex of
       [] \<Rightarrow> ret (Inr ()) (ex, s)
     | task # rest \<Rightarrow>
         (case poll None task s of
            ((Ready, _, _), s') \<Rightarrow> ret (Inl ()) (ex\<lparr>se_queue := rest\<rparr>, s')
          | ((Pending, task', _), s') \<Rightarrow> ret (Inl ()) (ex\<lparr>se_queue := rest @ [task']\<rparr>, s')))"

definition simple_run :: "('f, 's) poll \<Rightarrow> ('f SimpleExecutor \<times> 's, unit, unit) io" where
  "simple_run poll = loopM (simple_body poll) ()"

text \<open>One round: every queued future is polled once, in order; the pending ones are kept in order.\<close>

fun poll_round :: "('f, 's) poll \<Rightarrow> 'f list \<Rightarrow> 's \<Rightarrow> 'f list \<times> 's" where
  "poll_round poll [] s = ([], s)"
| "poll_round poll (f # fs) s =
     (case poll None f s of
        ((Ready, _, _), s') \<Rightarrow> poll_round poll fs s'
      | ((Pending, f', _), s') \<Rightarrow> (let (fs', s'') = poll_round poll fs s' in (f' # fs', s'')))"

lemma simple_run_round_aux:
  "simple_run poll (\<lparr>se_queue = fs @ done\<rparr>, s)
    = simple_run poll (\<lparr>se_queue = done @ fst (poll_round poll fs s)\<rparr>, snd (poll_round poll fs s))"
proof (induction fs arbitrary: s "done")
  case (Cons f fs)
  obtain p f' ws s' where p: "poll None f s = ((p, f', ws), s')" by (metis prod.exhaust)
  have "simple_run poll (\<lparr>se_queue = (f # fs) @ done\<rparr>, s)
      = simple_run poll (\<lparr>se_queue = fs @ done @ (if p = Ready then [] else [f'])\<rparr>, s')"
    unfolding simple_run_def
    by (rule loopM_continue) (auto simp: simple_body_def p ret_run split: Poll.split)
  also have "\<dots> = simple_run poll (\<lparr>se_queue = (done @ (if p = Ready then [] else [f']))
      @ fst (poll_round poll fs s')\<rparr>, snd (poll_round poll fs s'))"
    using Cons.IH [of "done @ (if p = Ready then [] else [f'])" s'] by simp
  finally show ?case by (cases p) (auto simp: p split: prod.split)
qed simp

text \<open>
  The simple executor is round-robin: running a queue is polling every task of it once, in
  order, and then running the queue of the tasks that are still pending, in the same order.
\<close>

theorem simple_run_round:
  "simple_run poll (\<lparr>se_queue = fs\<rparr>, s)
    = (let (fs', s') = poll_round poll fs s in simple_run poll (\<lparr>se_queue = fs'\<rparr>, s'))"
  using simple_run_round_aux [of poll fs "[]" s] by (simp add: case_prod_unfold Let_def)

text \<open>
  If every pending poll brings a future closer to its end (a rank decreases), the simple
  executor returns and its queue is empty: every task has run to completion.
\<close>

theorem simple_run_returns:
  assumes rank: "\<And>f s f' ws s'. poll None f s = ((Pending, f', ws), s') \<Longrightarrow> rank f' < (rank f :: nat)"
  shows "\<exists>s'. simple_run poll (ex, s) = Some (Ok (), (\<lparr>se_queue = []\<rparr>, s'))"
proof -
  let ?m = "\<lambda>(a :: unit, e, s). sum_list (map (\<lambda>f. Suc (rank f)) (se_queue e))"
  have "returns (\<lambda>_. True) (simple_run poll) (\<lambda>_ (e, s). se_queue e = [])"
    unfolding simple_run_def
  proof (rule returns_loopM [where I = "\<lambda>_ _. True", OF wf_measure [of ?m]])
    fix a :: unit and es :: "'a SimpleExecutor \<times> 'b"
    obtain e s where es: "es = (e, s)" by (cases es)
    show "\<exists>r s'. simple_body poll a es = Some (Ok r, s') \<and> (case r of
        Inl a' \<Rightarrow> True \<and> ((a', s'), a, es) \<in> measure ?m
      | Inr b \<Rightarrow> case s' of (e', s') \<Rightarrow> se_queue e' = [])"
    proof (cases "se_queue e")
      case (Cons f fs)
      obtain p f' ws s' where p: "poll None f s = ((p, f', ws), s')" by (metis prod.exhaust)
      show ?thesis using Cons p rank [of f s f' ws s']
        by (cases p) (auto simp: simple_body_def ret_run es)
    qed (auto simp: simple_body_def ret_run es)
  qed
  from returnsD [OF this, of "(ex, s)"] show ?thesis
    by (auto intro: SimpleExecutor.equality)
qed

text \<open>A future that is pending a given number of times and wakes itself each time.\<close>

definition countdown :: "(nat, nat) poll" where
  "countdown w n s = (if n = 0 then (Ready, 0, []) else (Pending, n - 1, case w of None \<Rightarrow> [] | Some i \<Rightarrow> [i]), s + 1)"

theorem simple_run_returns_witness:
  "\<exists>s'. simple_run countdown (\<lparr>se_queue = [2, 0, 1]\<rparr>, 0) = Some (Ok (), (\<lparr>se_queue = []\<rparr>, s'))"
  by (rule simple_run_returns [where rank = id]) (auto simp: countdown_def split: if_splits)

section \<open>The bounded queue\<close>

text \<open>
  \<open>crossbeam_queue::ArrayQueue\<close> is a library the kernel only calls. It is the record of the four
  operations used; \<open>push\<close> yields \<open>None\<close> when it is refused. The locale states what the crate
  documents: a first-in first-out queue of a fixed capacity, each operation atomic.
\<close>

record ('q, 'a) ArrayQueue =
  queue_new :: "nat \<Rightarrow> 'q"
  queue_push :: "'a \<Rightarrow> 'q \<Rightarrow> 'q option"
  queue_pop :: "'q \<Rightarrow> ('a \<times> 'q) option"
  queue_is_empty :: "'q \<Rightarrow> bool"

locale array_queue =
  fixes Q :: "('q, 'a) ArrayQueue"
    and elems :: "'q \<Rightarrow> 'a list"
    and cap :: "'q \<Rightarrow> nat"
  assumes elems_new: "0 < n \<Longrightarrow> elems (queue_new Q n) = [] \<and> cap (queue_new Q n) = n"
    and push_ok: "length (elems q) < cap q \<Longrightarrow>
      \<exists>q'. queue_push Q x q = Some q' \<and> elems q' = elems q @ [x] \<and> cap q' = cap q"
    and push_full: "cap q \<le> length (elems q) \<Longrightarrow> queue_push Q x q = None"
    and pop_some: "elems q = x # xs \<Longrightarrow> \<exists>q'. queue_pop Q q = Some (x, q') \<and> elems q' = xs \<and> cap q' = cap q"
    and pop_none: "elems q = [] \<Longrightarrow> queue_pop Q q = None"
    and is_empty: "queue_is_empty Q q \<longleftrightarrow> elems q = []"
begin

text \<open>Pushing and ignoring a refusal, as both interrupt-side callers do.\<close>

lemma push_ignored:
  obtains q' where "(case queue_push Q x q of None \<Rightarrow> q | Some q' \<Rightarrow> q') = q'" "cap q' = cap q"
    "elems q' = elems q @ (if length (elems q) < cap q then [x] else [])"
proof (cases "length (elems q) < cap q")
  case True
  with push_ok [of q x] that show ?thesis by auto
next
  case False
  with push_full [of q x] that [of q] show ?thesis by auto
qed

end

text \<open>The sequential specification of the queue: a list with its capacity.\<close>

definition list_queue :: "('a list \<times> nat, 'a) ArrayQueue" where
  "list_queue = \<lparr>queue_new = (\<lambda>n. ([], n)),
     queue_push = (\<lambda>x (xs, n). if length xs < n then Some (xs @ [x], n) else None),
     queue_pop = (\<lambda>(xs, n). case xs of [] \<Rightarrow> None | x # xs \<Rightarrow> Some (x, (xs, n))),
     queue_is_empty = (\<lambda>(xs, n). xs = [])\<rparr>"

interpretation lq: array_queue list_queue fst snd
  by unfold_locales (auto simp: list_queue_def)

section \<open>The executor\<close>

record ('q, 'f) Executor =
  tasks :: "TaskId \<rightharpoonup> 'f"
  task_queue :: 'q
  waker_cache :: "TaskId set"

definition QUEUE_CAPACITY :: nat where
  "QUEUE_CAPACITY = 100"

definition executor_new :: "('q, TaskId) ArrayQueue \<Rightarrow> ('q, 'f) Executor" where
  "executor_new Q = \<lparr>tasks = Map.empty, task_queue = queue_new Q QUEUE_CAPACITY, waker_cache = {}\<rparr>"

text \<open>The map is updated before either panic.\<close>

definition spawn :: "('q, TaskId) ArrayQueue \<Rightarrow> TaskId \<Rightarrow> 'f \<Rightarrow> (('q, 'f) Executor, unit, unit) io" where
  "spawn Q task_id task = bindM (gets id) (\<lambda>ex.
     bindM (modify (\<lambda>ex. ex\<lparr>tasks := (tasks ex)(task_id \<mapsto> task)\<rparr>)) (\<lambda>_.
       if tasks ex task_id \<noteq> None then panic
       else (case queue_push Q task_id (task_queue ex) of
               None \<Rightarrow> panic
             | Some q \<Rightarrow> modify (\<lambda>ex. ex\<lparr>task_queue := q\<rparr>))))"

text \<open>\<open>TaskWaker::wake_task\<close>: a full queue is ignored.\<close>

definition wake_task :: "('q, TaskId) ArrayQueue \<Rightarrow> TaskId \<Rightarrow> ('q, 'f) Executor \<Rightarrow> ('q, 'f) Executor" where
  "wake_task Q task_id ex = ex\<lparr>task_queue :=
     (case queue_push Q task_id (task_queue ex) of None \<Rightarrow> task_queue ex | Some q \<Rightarrow> q)\<rparr>"

text \<open>
  One iteration of \<open>while let Some(task_id) = task_queue.pop()\<close>. The waker is cached before the
  poll; the wakes the poll performs reach the queue before its result is looked at.
\<close>

definition ready_body :: "('q, TaskId) ArrayQueue \<Rightarrow> ('f, 's) poll \<Rightarrow> unit \<Rightarrow>
    (('q, 'f) Executor \<times> 's, unit, unit + unit) io" where
  "ready_body Q poll _ = (\<lambda>(ex, s).
     case queue_pop Q (task_queue ex) of
       None \<Rightarrow> ret (Inr ()) (ex, s)
     | Some (task_id, queue) \<Rightarrow>
         (case tasks ex task_id of
            None \<Rightarrow> ret (Inl ()) (ex\<lparr>task_queue := queue\<rparr>, s)
          | Some task \<Rightarrow>
              (let ((result, task', wakes), s') = poll (Some task_id) task s;
                   ex1 = ex\<lparr>tasks := (tasks ex)(task_id \<mapsto> task'), task_queue := queue,
                            waker_cache := insert task_id (waker_cache ex)\<rparr>;
                   ex2 = fold (wake_task Q) wakes ex1
               in case result of
                    Ready \<Rightarrow> ret (Inl ()) (ex2\<lparr>tasks := (tasks ex2)(task_id := None),
                                   waker_cache := waker_cache ex2 - {task_id}\<rparr>, s')
                  | Pending \<Rightarrow> ret (Inl ()) (ex2, s'))))"

definition run_ready_tasks ::
    "('q, TaskId) ArrayQueue \<Rightarrow> ('f, 's) poll \<Rightarrow> (('q, 'f) Executor \<times> 's, unit, unit) io" where
  "run_ready_tasks Q poll = loopM (ready_body Q poll) ()"

lemma wake_task_simps [simp]:
  "tasks (wake_task Q i ex) = tasks ex" "waker_cache (wake_task Q i ex) = waker_cache ex"
  by (simp_all add: wake_task_def)

lemma fold_wake_task [simp]:
  "tasks (fold (wake_task Q) ws ex) = tasks ex" "waker_cache (fold (wake_task Q) ws ex) = waker_cache ex"
  by (induction ws arbitrary: ex) simp_all

text \<open>Total remaining work.\<close>

definition work :: "('f \<Rightarrow> nat) \<Rightarrow> ('q, 'f) Executor \<Rightarrow> nat" where
  "work rank ex = (\<Sum>i \<in> dom (tasks ex). Suc (rank (the (tasks ex i))))"

lemma work_update_less:
  assumes "finite (dom (tasks ex))" "tasks ex i = Some f" "tasks ex' = (tasks ex)(i \<mapsto> f')" "rank f' < rank f"
  shows "work rank ex' < work rank ex"
proof -
  have i: "i \<in> dom (tasks ex)" using assms by blast
  have rest: "(\<Sum>j \<in> dom (tasks ex) - {i}. Suc (rank (the (tasks ex' j))))
      = (\<Sum>j \<in> dom (tasks ex) - {i}. Suc (rank (the (tasks ex j))))"
    using assms(3) by (intro sum.cong) auto
  have "dom (tasks ex') = dom (tasks ex)" using assms i by auto
  then show ?thesis using assms rest by (simp add: work_def sum.remove [OF _ i])
qed

lemma work_remove_less:
  assumes "finite (dom (tasks ex))" "tasks ex i = Some f" "tasks ex' = (tasks ex)(i := None)"
  shows "work rank ex' < work rank ex"
proof -
  have i: "i \<in> dom (tasks ex)" using assms by blast
  have "work rank ex' = (\<Sum>j \<in> dom (tasks ex) - {i}. Suc (rank (the (tasks ex j))))"
    unfolding work_def using assms by (intro sum.cong) auto
  then show ?thesis using assms by (simp add: work_def sum.remove [OF _ i])
qed

definition closer :: "('f \<Rightarrow> nat) \<Rightarrow> ('q \<Rightarrow> 'a list) \<Rightarrow> (('q, 'f) Executor \<times> ('q, 'f) Executor) set" where
  "closer rank els = inv_image (less_than <*lex*> less_than) (\<lambda>ex. (work rank ex, length (els (task_queue ex))))"

lemma wf_closer: "wf (closer rank els)"
  unfolding closer_def by (intro wf_inv_image wf_lex_prod wf_less_than)

text \<open>
  The executor's invariant, over the view of its queue: capacity 100, finitely many tasks, and no
  waker of a task that is gone.
\<close>

definition executor_ok :: "('q \<Rightarrow> TaskId list) \<Rightarrow> ('q \<Rightarrow> nat) \<Rightarrow> ('q, 'f) Executor \<Rightarrow> bool" where
  "executor_ok els cp ex \<longleftrightarrow> cp (task_queue ex) = QUEUE_CAPACITY
     \<and> length (els (task_queue ex)) \<le> QUEUE_CAPACITY
     \<and> finite (dom (tasks ex)) \<and> waker_cache ex \<subseteq> dom (tasks ex)"

text \<open>Futures that end, and futures that wake themselves when they are pending.\<close>

definition futures_end :: "('f, 's) poll \<Rightarrow> ('f \<Rightarrow> nat) \<Rightarrow> bool" where
  "futures_end poll rank \<longleftrightarrow> (\<forall>w f s f' ws s'. poll w f s = ((Pending, f', ws), s') \<longrightarrow> rank f' < rank f)"

definition futures_self_wake :: "('f, 's) poll \<Rightarrow> bool" where
  "futures_self_wake poll \<longleftrightarrow> (\<forall>i f s p f' ws s'. poll (Some i) f s = ((p, f', ws), s') \<longrightarrow>
     ws = (if p = Pending then [i] else []))"

text \<open>The run queue of an executor: a bounded queue of task ids.\<close>

locale run_queue = array_queue Q elems cap
  for Q :: "('q, TaskId) ArrayQueue" and elems :: "'q \<Rightarrow> TaskId list" and cap :: "'q \<Rightarrow> nat"
begin

abbreviation ok :: "('q, 'f) Executor \<Rightarrow> bool" where
  "ok \<equiv> executor_ok elems cap"

lemma wake_task_elems:
  "elems (task_queue (wake_task Q i ex)) = elems (task_queue ex)
     @ (if length (elems (task_queue ex)) < cap (task_queue ex) then [i] else [])"
  "cap (task_queue (wake_task Q i ex)) = cap (task_queue ex)"
proof -
  obtain q where q: "(case queue_push Q i (task_queue ex) of None \<Rightarrow> task_queue ex | Some q' \<Rightarrow> q') = q"
    "cap q = cap (task_queue ex)"
    "elems q = elems (task_queue ex) @ (if length (elems (task_queue ex)) < cap (task_queue ex) then [i] else [])"
    by (rule push_ignored)
  then show "elems (task_queue (wake_task Q i ex)) = elems (task_queue ex)
     @ (if length (elems (task_queue ex)) < cap (task_queue ex) then [i] else [])"
    "cap (task_queue (wake_task Q i ex)) = cap (task_queue ex)" by (simp_all add: wake_task_def)
qed

lemma fold_wake_task_elems:
  "cap (task_queue (fold (wake_task Q) ws ex)) = cap (task_queue ex)"
  "length (elems (task_queue ex)) \<le> cap (task_queue ex) \<Longrightarrow>
    length (elems (task_queue (fold (wake_task Q) ws ex))) \<le> cap (task_queue ex)"
proof (induction ws arbitrary: ex)
  case (Cons w ws)
  {
    case 1
    show ?case using Cons.IH(1) by (simp add: wake_task_elems)
  next
    case 2
    then show ?case using Cons.IH(2) [of "wake_task Q w ex"] by (simp add: wake_task_elems)
  }
qed simp_all

text \<open>What one iteration does to the invariant and to the remaining work.\<close>

lemma ready_body_step:
  assumes rank: "futures_end poll rank" and ok: "ok ex"
  shows "ready_body Q poll u (ex, s) = Some (Ok (Inr ()), (ex, s)) \<and> elems (task_queue ex) = []
    \<or> (\<exists>ex' s'. ready_body Q poll u (ex, s) = Some (Ok (Inl ()), (ex', s')) \<and> ok ex'
         \<and> (ex', ex) \<in> closer rank elems
         \<and> (futures_self_wake poll \<longrightarrow> dom (tasks ex) \<subseteq> set (elems (task_queue ex)) \<longrightarrow>
            dom (tasks ex') \<subseteq> set (elems (task_queue ex'))))"
proof (cases "elems (task_queue ex)")
  case Nil
  then show ?thesis using pop_none by (simp add: ready_body_def ret_run)
next
  case (Cons i xs)
  then obtain q where pop: "queue_pop Q (task_queue ex) = Some (i, q)"
    and q: "elems q = xs" "cap q = cap (task_queue ex)" using pop_some by blast
  have queued: "x \<in> set xs" if "dom (tasks ex) \<subseteq> set (elems (task_queue ex))" "tasks ex x = Some y" "x \<noteq> i" for x y
    using that Cons by force
  show ?thesis
  proof (cases "tasks ex i")
    case None
    then have run: "ready_body Q poll u (ex, s) = Some (Ok (Inl ()), (ex\<lparr>task_queue := q\<rparr>, s))"
      by (simp add: ready_body_def pop ret_run)
    show ?thesis using run None Cons ok q queued
      by (auto simp: executor_ok_def closer_def work_def)
  next
    case (Some f)
    obtain p f' ws s' where p: "poll (Some i) f s = ((p, f', ws), s')" by (metis prod.exhaust)
    define ex1 where "ex1 = ex\<lparr>tasks := (tasks ex)(i \<mapsto> f'), task_queue := q, waker_cache := insert i (waker_cache ex)\<rparr>"
    define ex2 where "ex2 = fold (wake_task Q) ws ex1"
    have len: "cap (task_queue ex2) = QUEUE_CAPACITY" "length (elems (task_queue ex2)) \<le> QUEUE_CAPACITY"
      using fold_wake_task_elems [where ws = ws and ex = ex1] ok Cons q
      by (auto simp: ex2_def ex1_def executor_ok_def)
    have t2: "tasks ex2 = (tasks ex)(i \<mapsto> f')" "waker_cache ex2 = insert i (waker_cache ex)"
      by (simp_all add: ex2_def ex1_def)
    have self: "elems (task_queue ex2) = xs @ (if p = Pending then [i] else [])" if "futures_self_wake poll"
    proof -
      have ws: "ws = (if p = Pending then [i] else [])" using that p unfolding futures_self_wake_def by blast
      show ?thesis using ok Cons q
        by (cases p) (auto simp: ex2_def ex1_def ws wake_task_elems executor_ok_def)
    qed
    show ?thesis
    proof (cases p)
      case Ready
      let ?ex' = "ex2\<lparr>tasks := (tasks ex2)(i := None), waker_cache := waker_cache ex2 - {i}\<rparr>"
      have run: "ready_body Q poll u (ex, s) = Some (Ok (Inl ()), (?ex', s'))"
        using pop Some p Ready by (simp add: ready_body_def ret_run ex1_def ex2_def)
      have "work rank ?ex' < work rank ex"
        by (rule work_remove_less) (use ok Some in \<open>auto simp: executor_ok_def t2\<close>)
      then show ?thesis using run len t2 ok self queued Ready
        by (auto simp: executor_ok_def closer_def)
    next
      case Pending
      have run: "ready_body Q poll u (ex, s) = Some (Ok (Inl ()), (ex2, s'))"
        using pop Some p Pending by (simp add: ready_body_def ret_run ex1_def ex2_def)
      have "rank f' < rank f" using rank p Pending unfolding futures_end_def by blast
      then have "work rank ex2 < work rank ex"
        using ok Some by (intro work_update_less [of ex i f ex2 f']) (auto simp: executor_ok_def t2)
      then show ?thesis using run len t2 ok self queued Pending
        by (auto simp: executor_ok_def closer_def)
    qed
  qed
qed

lemma run_ready:
  assumes rank: "futures_end poll rank" and ok: "ok ex"
    and J: "futures_self_wake poll \<and> J \<longrightarrow> dom (tasks ex) \<subseteq> set (elems (task_queue ex))"
  shows "\<exists>ex' s'. run_ready_tasks Q poll (ex, s) = Some (Ok (), (ex', s')) \<and> ok ex' \<and> elems (task_queue ex') = []
    \<and> (futures_self_wake poll \<and> J \<longrightarrow> dom (tasks ex') = {})"
proof -
  let ?R = "inv_image (closer rank elems) (\<lambda>(u :: unit, ex, s). ex)"
  let ?I = "\<lambda>ex. ok ex \<and> (futures_self_wake poll \<and> J \<longrightarrow> dom (tasks ex) \<subseteq> set (elems (task_queue ex)))"
  have "returns (\<lambda>(ex, s). ?I ex) (run_ready_tasks Q poll) (\<lambda>_ (ex, s). ?I ex \<and> elems (task_queue ex) = [])"
    unfolding run_ready_tasks_def
  proof (rule returns_loopM [where I = "\<lambda>_ (ex, s). ?I ex", OF wf_inv_image [OF wf_closer, of rank elems]])
    fix u :: unit and es :: "('q, 'a) Executor \<times> 'b"
    assume "case es of (ex, s) \<Rightarrow> ?I ex"
    then obtain e s where es: "es = (e, s)" "ok e"
      "futures_self_wake poll \<and> J \<longrightarrow> dom (tasks e) \<subseteq> set (elems (task_queue e))" by (cases es) auto
    show "\<exists>r s'. ready_body Q poll u es = Some (Ok r, s') \<and> (case r of
        Inl u' \<Rightarrow> (case s' of (ex, s) \<Rightarrow> ?I ex) \<and> ((u', s'), u, es) \<in> ?R
      | Inr b \<Rightarrow> case s' of (ex, s) \<Rightarrow> ?I ex \<and> elems (task_queue ex) = [])"
      using ready_body_step [OF rank es(2), where u = u and s = s] es by fastforce
  qed
  from returnsD [OF this, of "(ex, s)"] ok J show ?thesis by fastforce
qed

end

interpretation lrq: run_queue list_queue fst snd
  by unfold_locales

text \<open>
  For futures that end (each pending poll decreases a rank) \<open>run_ready_tasks\<close> always returns,
  whatever wakers the futures call: the queue is then empty, no waker of a finished task is kept,
  and the executor's invariant holds.
\<close>

theorem run_ready_tasks_returns:
  assumes "run_queue Q elems cap" "futures_end poll rank" "executor_ok elems cap ex"
  shows "\<exists>ex' s'. run_ready_tasks Q poll (ex, s) = Some (Ok (), (ex', s')) \<and> executor_ok elems cap ex'
    \<and> elems (task_queue ex') = []"
  using run_queue.run_ready [OF assms, where J = False] by blast

text \<open>
  C35: the executor completes every spawned task whose future ends and wakes itself whenever it is
  pending: starting with all tasks queued, \<open>run_ready_tasks\<close> returns with no task and no waker left.
\<close>

theorem run_ready_tasks_completes:
  assumes "run_queue Q elems cap" "futures_end poll rank" "executor_ok elems cap ex"
    and "futures_self_wake poll" "dom (tasks ex) \<subseteq> set (elems (task_queue ex))"
  shows "\<exists>ex' s'. run_ready_tasks Q poll (ex, s) = Some (Ok (), (ex', s'))
    \<and> tasks ex' = Map.empty \<and> waker_cache ex' = {} \<and> elems (task_queue ex') = []"
  using run_queue.run_ready [OF assms(1-3), where J = True] assms(4,5) by (fastforce simp: executor_ok_def)

definition three_tasks :: "(TaskId list \<times> nat, nat) Executor" where
  "three_tasks = \<lparr>tasks = [0 \<mapsto> 2, 1 \<mapsto> 0, 2 \<mapsto> 1], task_queue = ([0, 1, 2], 100), waker_cache = {}\<rparr>"

lemma three_tasks_ok:
  "executor_ok fst snd three_tasks" "dom (tasks three_tasks) \<subseteq> set (fst (task_queue three_tasks))"
  by (auto simp: three_tasks_def executor_ok_def QUEUE_CAPACITY_def)

lemma countdown_ok: "futures_end countdown id" "futures_self_wake countdown"
  by (auto simp: countdown_def futures_end_def futures_self_wake_def split: if_splits)

theorem run_ready_tasks_returns_witness:
  "\<exists>ex' s'. run_ready_tasks list_queue countdown (three_tasks, 0) = Some (Ok (), (ex', s'))
     \<and> executor_ok fst snd ex' \<and> fst (task_queue ex') = []"
  by (rule run_ready_tasks_returns [OF lrq.run_queue_axioms countdown_ok(1) three_tasks_ok(1)])

theorem run_ready_tasks_completes_witness:
  "\<exists>ex' s'. run_ready_tasks list_queue countdown (three_tasks, 0) = Some (Ok (), (ex', s'))
     \<and> tasks ex' = Map.empty \<and> waker_cache ex' = {} \<and> fst (task_queue ex') = []"
  by (rule run_ready_tasks_completes [OF lrq.run_queue_axioms countdown_ok(1) three_tasks_ok(1)
        countdown_ok(2) three_tasks_ok(2)])

text \<open>
  \<open>spawn\<close> binds the task and returns normally exactly if the id is new and the queue has room;
  it then enqueues the id last and keeps the invariant. Otherwise it panics without queueing.
\<close>

theorem spawn_spec:
  assumes "run_queue Q elems cap" "executor_ok elems cap ex"
  shows "\<exists>r ex'. spawn Q i f ex = Some (r, ex') \<and> tasks ex' = (tasks ex)(i \<mapsto> f)
     \<and> (if tasks ex i = None \<and> length (elems (task_queue ex)) < 100
        then r = Ok () \<and> elems (task_queue ex') = elems (task_queue ex) @ [i] \<and> executor_ok elems cap ex'
        else r = Panic Fault \<and> task_queue ex' = task_queue ex)"
proof -
  have laws: "array_queue Q elems cap" using assms(1) by (rule run_queue.axioms)
  show ?thesis
  proof (cases "tasks ex i = None \<and> length (elems (task_queue ex)) < 100")
    case True
    then obtain q where "queue_push Q i (task_queue ex) = Some q" "elems q = elems (task_queue ex) @ [i]"
      "cap q = cap (task_queue ex)"
      using array_queue.push_ok [OF laws, of "task_queue ex" i] assms(2) by (auto simp: executor_ok_def QUEUE_CAPACITY_def)
    with True assms(2) show ?thesis
      by (auto simp: spawn_def bindM_Ok gets_run modify_run executor_ok_def QUEUE_CAPACITY_def)
  next
    case False
    then have "tasks ex i \<noteq> None \<or> queue_push Q i (task_queue ex) = None"
      using array_queue.push_full [OF laws, of "task_queue ex" i] assms(2) by (auto simp: executor_ok_def QUEUE_CAPACITY_def)
    with False show ?thesis
      by (auto simp: spawn_def bindM_Ok gets_run modify_run panic_run)
  qed
qed

theorem spawn_spec_witness:
  "\<exists>r ex'. spawn list_queue 3 7 three_tasks = Some (r, ex')
     \<and> r = Ok () \<and> tasks ex' 3 = Some 7 \<and> fst (task_queue ex') = [0, 1, 2, 3]"
  using spawn_spec [OF lrq.run_queue_axioms three_tasks_ok(1), of 3 7] by (auto simp: three_tasks_def)

end
