(* ===== verification/Keyboard.thy ===== *)
theory Keyboard
  imports Tasks
begin

text \<open>
  The interrupt-driven side of the kernel: the keyboard and timer handlers of
  \<^verbatim>\<open>kernel/src/interrupts.rs\<close>, the scancode stream of \<^verbatim>\<open>kernel/src/task/keyboard.rs\<close> and the idle
  logic \<open>sleep_if_idle\<close> of \<^verbatim>\<open>kernel/src/task/executor.rs\<close>, interleaved. The processor runs the one
  task the kernel spawns, whose future awaits scancodes for ever; between any two of its atomic
  actions an interrupt may be taken when the interrupt flag is set. \<open>enable_and_hlt\<close> is one action:
  the processor takes no interrupt between \<open>sti\<close> and \<open>hlt\<close>.

  Shown, by induction over the reachable states: the processor never halts while a scancode is
  waiting or a task is ready, scancodes are delivered in order, a scancode is lost only when 100 are waiting or
  before the stream exists, and a keystroke that arrives while it sleeps is delivered.
\<close>

section \<open>The waker cell\<close>

text \<open>
  \<open>futures_util::task::AtomicWaker\<close> is a library the kernel only calls: a cell that holds the last
  waker registered. A waker is the id of its task.
\<close>

record 'w AtomicWaker =
  waker_register :: "TaskId \<Rightarrow> 'w \<Rightarrow> 'w"
  waker_take :: "'w \<Rightarrow> TaskId option \<times> 'w"

locale atomic_waker =
  fixes W :: "'w AtomicWaker"
    and registered :: "'w \<Rightarrow> TaskId option"
  assumes register: "registered (waker_register W i w) = Some i"
    and take_fst: "fst (waker_take W w) = registered w"
    and take_snd: "registered (snd (waker_take W w)) = None"

definition option_waker :: "TaskId option AtomicWaker" where
  "option_waker = \<lparr>waker_register = (\<lambda>i _. Some i), waker_take = (\<lambda>w. (w, None))\<rparr>"

interpretation ow: atomic_waker option_waker id
  by unfold_locales (simp_all add: option_waker_def)

section \<open>State\<close>

text \<open>Where the processor is between two atomic actions.\<close>

datatype pc =
    Pop \<comment> \<open>\<open>run_ready_tasks\<close>, about to pop the run queue\<close>
  | Start \<comment> \<open>the task's first poll, about to create the stream\<close>
  | First \<comment> \<open>\<open>poll_next\<close>, about to pop the scancode queue\<close>
  | Register \<comment> \<open>about to register the waker\<close>
  | Second \<comment> \<open>about to pop again\<close>
  | Deliver u8 \<comment> \<open>about to hand a scancode to the shell\<close>
  | Disable \<comment> \<open>\<open>sleep_if_idle\<close>, about to disable interrupts\<close>
  | Check \<comment> \<open>about to look at the run queue\<close>
  | Halted

text \<open>
  What becomes of a scancode that arrives: it is queued, or dropped because there is no stream yet or because the queue is full. The last
  two fields record, for the statements only, every scancode that arrived with its fate, and those delivered to the shell.
\<close>

datatype fate = Queued | NoStream | QueueFull

record ('q, 'u, 'w, 'f) machine =
  exec :: "('q, 'f) Executor"
  scancode_queue :: "'u option"
  wakr :: 'w
  int_flag :: bool
  at :: pc
  timer_ticks :: u64
  eois :: "u8 list"
  arrived :: "(u8 \<times> fate) list"
  delivered :: "u8 list"

definition accepted :: "('q, 'u, 'w, 'f) machine \<Rightarrow> u8 list" where
  "accepted m = map fst (filter (\<lambda>(c, f). f = Queued) (arrived m))"

text \<open>The libraries: the run queue, the scancode queue and the waker cell.\<close>

record ('q, 'u, 'w) libs =
  run_q :: "('q, TaskId) ArrayQueue"
  scan_q :: "('u, u8) ArrayQueue"
  cell :: "'w AtomicWaker"

section \<open>Interrupt handlers\<close>

definition PIC_1_OFFSET :: u8 where "PIC_1_OFFSET = 32"

datatype Irq = Timer | KeyboardIrq

definition irq_as_u8 :: "Irq \<Rightarrow> u8" where
  "irq_as_u8 i = (case i of Timer \<Rightarrow> PIC_1_OFFSET | KeyboardIrq \<Rightarrow> PIC_1_OFFSET + 1)"

text \<open>\<open>WAKER.wake()\<close>: take the registered waker, if any, and enqueue its task.\<close>

definition wake_registered :: "('q, 'u, 'w) libs \<Rightarrow> ('q, 'u, 'w, 'f) machine \<Rightarrow> ('q, 'u, 'w, 'f) machine" where
  "wake_registered L m = (case waker_take (cell L) (wakr m) of
     (None, w) \<Rightarrow> m\<lparr>wakr := w\<rparr>
   | (Some i, w) \<Rightarrow> m\<lparr>wakr := w, exec := wake_task (run_q L) i (exec m)\<rparr>)"

definition arrives :: "u8 \<Rightarrow> fate \<Rightarrow> ('q, 'u, 'w, 'f) machine \<Rightarrow> ('q, 'u, 'w, 'f) machine" where
  "arrives c f m = m\<lparr>arrived := arrived m @ [(c, f)]\<rparr>"

definition add_scancode :: "('q, 'u, 'w) libs \<Rightarrow> u8 \<Rightarrow> ('q, 'u, 'w, 'f) machine \<Rightarrow> ('q, 'u, 'w, 'f) machine" where
  "add_scancode L scancode m = (case scancode_queue m of
     None \<Rightarrow> arrives scancode NoStream m
   | Some q \<Rightarrow> wake_registered L (case queue_push (scan_q L) scancode q of
       None \<Rightarrow> arrives scancode QueueFull m
     | Some q' \<Rightarrow> arrives scancode Queued (m\<lparr>scancode_queue := Some q'\<rparr>)))"

text \<open>An interrupt ends a \<open>hlt\<close>; the executor then goes round its loop.\<close>

definition resume :: "('q, 'u, 'w, 'f) machine \<Rightarrow> ('q, 'u, 'w, 'f) machine" where
  "resume m = (if at m = Halted then m\<lparr>at := Pop\<rparr> else m)"

definition keyboard_handler :: "('q, 'u, 'w) libs \<Rightarrow> u8 \<Rightarrow> ('q, 'u, 'w, 'f) machine \<Rightarrow> ('q, 'u, 'w, 'f) machine" where
  "keyboard_handler L scancode m =
     (let m1 = add_scancode L scancode m in m1\<lparr>eois := eois m1 @ [irq_as_u8 KeyboardIrq]\<rparr>)"

definition timer_handler :: "('q, 'u, 'w, 'f) machine \<Rightarrow> ('q, 'u, 'w, 'f) machine" where
  "timer_handler m = m\<lparr>timer_ticks := timer_ticks m + 1, eois := eois m @ [irq_as_u8 Timer]\<rparr>"

section \<open>The processor\<close>

text \<open>\<open>ScancodeStream::new\<close>; a second call would panic, which the model keeps as no progress.\<close>

definition stream_new :: "('q, 'u, 'w) libs \<Rightarrow> ('q, 'u, 'w, 'f) machine \<Rightarrow> ('q, 'u, 'w, 'f) machine" where
  "stream_new L m = (case scancode_queue m of
     None \<Rightarrow> m\<lparr>scancode_queue := Some (queue_new (scan_q L) 100), at := First\<rparr>
   | Some _ \<Rightarrow> m)"

text \<open>The three atomic actions of \<open>poll_next\<close>.\<close>

definition poll_first :: "('q, 'u, 'w) libs \<Rightarrow> ('q, 'u, 'w, 'f) machine \<Rightarrow> ('q, 'u, 'w, 'f) machine" where
  "poll_first L m = (case scancode_queue m of
     None \<Rightarrow> m
   | Some q \<Rightarrow> (case queue_pop (scan_q L) q of
       Some (scancode, q') \<Rightarrow> m\<lparr>scancode_queue := Some q', at := Deliver scancode\<rparr>
     | None \<Rightarrow> m\<lparr>at := Register\<rparr>))"

definition poll_register :: "('q, 'u, 'w) libs \<Rightarrow> TaskId \<Rightarrow> ('q, 'u, 'w, 'f) machine \<Rightarrow> ('q, 'u, 'w, 'f) machine" where
  "poll_register L tid m = m\<lparr>wakr := waker_register (cell L) tid (wakr m), at := Second\<rparr>"

definition poll_second :: "('q, 'u, 'w) libs \<Rightarrow> ('q, 'u, 'w, 'f) machine \<Rightarrow> ('q, 'u, 'w, 'f) machine" where
  "poll_second L m = (case scancode_queue m of
     None \<Rightarrow> m
   | Some q \<Rightarrow> (case queue_pop (scan_q L) q of
       Some (scancode, q') \<Rightarrow> m\<lparr>scancode_queue := Some q', wakr := snd (waker_take (cell L) (wakr m)),
                                at := Deliver scancode\<rparr>
     | None \<Rightarrow> m\<lparr>at := Pop\<rparr>))"

text \<open>The shell takes the scancode and awaits the next one.\<close>

definition deliver :: "u8 \<Rightarrow> ('q, 'u, 'w, 'f) machine \<Rightarrow> ('q, 'u, 'w, 'f) machine" where
  "deliver scancode m = m\<lparr>delivered := delivered m @ [scancode], at := First\<rparr>"

text \<open>\<open>while let Some(task_id) = task_queue.pop()\<close> up to the poll of the task.\<close>

definition pop_task :: "('q, 'u, 'w) libs \<Rightarrow> ('q, 'u, 'w, 'f) machine \<Rightarrow> ('q, 'u, 'w, 'f) machine" where
  "pop_task L m = (case queue_pop (run_q L) (task_queue (exec m)) of
     None \<Rightarrow> m\<lparr>at := Disable\<rparr>
   | Some (task_id, q) \<Rightarrow>
       (case tasks (exec m) task_id of
          None \<Rightarrow> m\<lparr>exec := (exec m)\<lparr>task_queue := q\<rparr>\<rparr>
        | Some _ \<Rightarrow> m\<lparr>exec := (exec m)\<lparr>task_queue := q, waker_cache := insert task_id (waker_cache (exec m))\<rparr>,
                      at := (if scancode_queue m = None then Start else First)\<rparr>))"

definition sleep_disable :: "('q, 'u, 'w, 'f) machine \<Rightarrow> ('q, 'u, 'w, 'f) machine" where
  "sleep_disable m = m\<lparr>int_flag := False, at := Check\<rparr>"

definition sleep_check :: "('q, 'u, 'w) libs \<Rightarrow> ('q, 'u, 'w, 'f) machine \<Rightarrow> ('q, 'u, 'w, 'f) machine" where
  "sleep_check L m = (if queue_is_empty (run_q L) (task_queue (exec m))
     then m\<lparr>int_flag := True, at := Halted\<rparr>
     else m\<lparr>int_flag := True, at := Pop\<rparr>)"

definition cpu :: "('q, 'u, 'w) libs \<Rightarrow> TaskId \<Rightarrow> ('q, 'u, 'w, 'f) machine \<Rightarrow> ('q, 'u, 'w, 'f) machine" where
  "cpu L tid m = (case at m of
     Pop \<Rightarrow> pop_task L m
   | Start \<Rightarrow> stream_new L m
   | First \<Rightarrow> poll_first L m
   | Register \<Rightarrow> poll_register L tid m
   | Second \<Rightarrow> poll_second L m
   | Deliver scancode \<Rightarrow> deliver scancode m
   | Disable \<Rightarrow> sleep_disable m
   | Check \<Rightarrow> sleep_check L m
   | Halted \<Rightarrow> m)"

inductive step :: "('q, 'u, 'w) libs \<Rightarrow> TaskId \<Rightarrow> ('q, 'u, 'w, 'f) machine \<Rightarrow> ('q, 'u, 'w, 'f) machine \<Rightarrow> bool"
  for L tid where
  step_cpu: "step L tid m (cpu L tid m)"
| step_key: "int_flag m \<Longrightarrow> step L tid m (resume (keyboard_handler L scancode m))"
| step_timer: "int_flag m \<Longrightarrow> step L tid m (resume (timer_handler m))"

text \<open>The state \<open>executor.run()\<close> starts from: the task spawned, interrupts on, nothing registered.\<close>

definition boots :: "('q, 'u, 'w) libs \<Rightarrow> TaskId \<Rightarrow> 'f \<Rightarrow> ('w \<Rightarrow> TaskId option) \<Rightarrow> ('q, 'u, 'w, 'f) machine \<Rightarrow> bool" where
  "boots L tid f reg m \<longleftrightarrow> spawn (run_q L) tid f (executor_new (run_q L)) = Some (Ok (), exec m)
     \<and> scancode_queue m = None \<and> reg (wakr m) = None \<and> int_flag m \<and> at m = Pop
     \<and> arrived m = [] \<and> delivered m = []"

inductive reachable :: "('q, 'u, 'w) libs \<Rightarrow> TaskId \<Rightarrow> 'f \<Rightarrow> ('w \<Rightarrow> TaskId option) \<Rightarrow> ('q, 'u, 'w, 'f) machine \<Rightarrow> bool"
  for L tid f reg where
  reachable_init: "boots L tid f reg m \<Longrightarrow> reachable L tid f reg m"
| reachable_step: "reachable L tid f reg m \<Longrightarrow> step L tid m m' \<Longrightarrow> reachable L tid f reg m'"

section \<open>The invariant\<close>

inductive_cases stepE: "step L tid m m'"

text \<open>
  The task is \<^emph>\<open>armed\<close> when it is queued, or when no scancode waits and its waker is registered, so
  that the next one queues it.
\<close>

definition armed :: "('q \<Rightarrow> TaskId list) \<Rightarrow> ('u \<Rightarrow> u8 list) \<Rightarrow> ('w \<Rightarrow> TaskId option) \<Rightarrow> TaskId \<Rightarrow>
    ('q, 'u, 'w, 'f) machine \<Rightarrow> bool" where
  "armed els sels reg tid m \<longleftrightarrow> tid \<in> set (els (task_queue (exec m)))
     \<or> (\<exists>q. scancode_queue m = Some q \<and> sels q = [] \<and> reg (wakr m) = Some tid)"

definition waiting :: "('u \<Rightarrow> u8 list) \<Rightarrow> ('q, 'u, 'w, 'f) machine \<Rightarrow> u8 list" where
  "waiting sels m = (case at m of Deliver scancode \<Rightarrow> [scancode] | _ \<Rightarrow> [])
     @ (case scancode_queue m of None \<Rightarrow> [] | Some q \<Rightarrow> sels q)"

definition machine_inv :: "('q \<Rightarrow> TaskId list) \<Rightarrow> ('q \<Rightarrow> nat) \<Rightarrow> ('u \<Rightarrow> u8 list) \<Rightarrow> ('u \<Rightarrow> nat) \<Rightarrow> ('w \<Rightarrow> TaskId option) \<Rightarrow>
    TaskId \<Rightarrow> ('q, 'u, 'w, 'f) machine \<Rightarrow> bool" where
  "machine_inv els cp sels scp reg tid m \<longleftrightarrow>
     (\<forall>q. scancode_queue m = Some q \<longrightarrow> scp q = 100 \<and> length (sels q) \<le> 100) \<and>
     tasks (exec m) tid \<noteq> None \<and> set (els (task_queue (exec m))) \<subseteq> {tid} \<and> 0 < cp (task_queue (exec m))
     \<and> (reg (wakr m) \<noteq> None \<longrightarrow> reg (wakr m) = Some tid)
     \<and> int_flag m = (at m \<noteq> Check)
     \<and> delivered m @ waiting sels m = accepted m
     \<and> (scancode_queue m = None \<longrightarrow> at m = Start \<or> at m = Pop \<and> tid \<in> set (els (task_queue (exec m))))
     \<and> (at m = Start \<longrightarrow> scancode_queue m = None)
     \<and> (at m \<in> {Pop, Disable, Check, Halted} \<longrightarrow> armed els sels reg tid m)
     \<and> (at m = Second \<longrightarrow> tid \<in> set (els (task_queue (exec m))) \<or> reg (wakr m) = Some tid)
     \<and> (at m = Halted \<longrightarrow> els (task_queue (exec m)) = [])"

locale idle_machine =
  rq: array_queue "run_q L" elems cap + sq: array_queue "scan_q L" selems scap + aw: atomic_waker "cell L" registered
  for L :: "('q, 'u, 'w) libs" and elems cap selems scap registered
begin

abbreviation kinv :: "TaskId \<Rightarrow> ('q, 'u, 'w, 'f) machine \<Rightarrow> bool" where
  "kinv \<equiv> machine_inv elems cap selems scap registered"

lemma run_queue: "run_queue (run_q L) elems cap"
  by (rule run_queue.intro) (rule rq.array_queue_axioms)

lemmas wake_elems = run_queue.wake_task_elems [OF run_queue]

lemma kinv_boots:
  assumes "boots L tid f registered m"
  shows "kinv tid m"
proof -
  obtain q where q: "queue_push (run_q L) tid (queue_new (run_q L) 100) = Some q" "elems q = [tid]" "cap q = 100"
    using rq.elems_new [of 100] rq.push_ok [of "queue_new (run_q L) 100" tid] by auto
  then have "exec m = \<lparr>tasks = [tid \<mapsto> f], task_queue = q, waker_cache = {}\<rparr>"
    using assms by (auto simp: boots_def spawn_def bindM_Ok gets_run modify_run executor_new_def QUEUE_CAPACITY_def)
  then show ?thesis using assms q by (auto simp: boots_def machine_inv_def armed_def waiting_def accepted_def)
qed

lemma kinv_pop_task:
  assumes "kinv tid m" "at m = Pop"
  shows "kinv tid (pop_task L m)"
proof (cases "elems (task_queue (exec m))")
  case Nil
  with rq.pop_none have "pop_task L m = m\<lparr>at := Disable\<rparr>" by (simp add: pop_task_def)
  then show ?thesis using assms Nil by (auto simp: machine_inv_def armed_def waiting_def accepted_def)
next
  case (Cons i xs)
  then obtain q where q: "queue_pop (run_q L) (task_queue (exec m)) = Some (i, q)" "elems q = xs"
    "cap q = cap (task_queue (exec m))" using rq.pop_some by blast
  have i: "i = tid" using Cons assms by (auto simp: machine_inv_def)
  obtain t where "tasks (exec m) tid = Some t" using assms by (auto simp: machine_inv_def)
  then show ?thesis using assms q Cons i
    by (auto simp: pop_task_def machine_inv_def armed_def waiting_def accepted_def)
qed

lemma kinv_poll_first:
  assumes "kinv tid m" "at m = First"
  shows "kinv tid (poll_first L m)"
proof -
  obtain q where q: "scancode_queue m = Some q" using assms by (auto simp: machine_inv_def)
  show ?thesis
  proof (cases "selems q")
    case Nil
    with sq.pop_none q assms show ?thesis by (auto simp: poll_first_def machine_inv_def waiting_def accepted_def)
  next
    case (Cons c cs)
    then obtain q' where "queue_pop (scan_q L) q = Some (c, q')" "selems q' = cs" "scap q' = scap q" using sq.pop_some by blast
    with q Cons assms show ?thesis by (auto simp: poll_first_def machine_inv_def waiting_def accepted_def)
  qed
qed

lemma kinv_poll_second:
  assumes "kinv tid m" "at m = Second"
  shows "kinv tid (poll_second L m)"
proof -
  obtain q where q: "scancode_queue m = Some q" using assms by (auto simp: machine_inv_def)
  show ?thesis
  proof (cases "selems q")
    case Nil
    with sq.pop_none q assms show ?thesis by (auto simp: poll_second_def machine_inv_def waiting_def armed_def accepted_def)
  next
    case (Cons c cs)
    then obtain q' where "queue_pop (scan_q L) q = Some (c, q')" "selems q' = cs" "scap q' = scap q" using sq.pop_some by blast
    with q Cons assms show ?thesis by (auto simp: poll_second_def machine_inv_def waiting_def aw.take_snd accepted_def)
  qed
qed

lemma kinv_cpu: "kinv tid m \<Longrightarrow> kinv tid (cpu L tid m)"
proof (cases "at m")
  case Pop
  then show "kinv tid m \<Longrightarrow> ?thesis" by (simp add: cpu_def kinv_pop_task)
next
  case First
  then show "kinv tid m \<Longrightarrow> ?thesis" by (simp add: cpu_def kinv_poll_first)
next
  case Second
  then show "kinv tid m \<Longrightarrow> ?thesis" by (simp add: cpu_def kinv_poll_second)
next
  case Start
  then show "kinv tid m \<Longrightarrow> ?thesis" using sq.elems_new [of 100]
    by (auto simp: cpu_def stream_new_def machine_inv_def waiting_def accepted_def split: option.split)
next
  case Register
  then show "kinv tid m \<Longrightarrow> ?thesis"
    by (auto simp: cpu_def poll_register_def machine_inv_def waiting_def aw.register accepted_def)
next
  case (Deliver c)
  then show "kinv tid m \<Longrightarrow> ?thesis" by (auto simp: cpu_def deliver_def machine_inv_def waiting_def accepted_def)
next
  case Disable
  then show "kinv tid m \<Longrightarrow> ?thesis"
    by (auto simp: cpu_def sleep_disable_def machine_inv_def waiting_def armed_def accepted_def)
next
  case Check
  then show "kinv tid m \<Longrightarrow> ?thesis"
    by (auto simp: cpu_def sleep_check_def machine_inv_def waiting_def armed_def rq.is_empty accepted_def)
next
  case Halted
  then show "kinv tid m \<Longrightarrow> ?thesis" by (simp add: cpu_def)
qed

text \<open>A wake-up: the registered task is queued, or was queued already if the queue is full.\<close>

lemma wake_registered_run:
  assumes "kinv tid m"
  obtains w ex where "wake_registered L m = m\<lparr>wakr := w, exec := ex\<rparr>" "registered w = None"
    "tasks ex = tasks (exec m)" "cap (task_queue ex) = cap (task_queue (exec m))"
    "set (elems (task_queue ex)) = set (elems (task_queue (exec m)))
       \<union> (if registered (wakr m) = None then {} else {tid})"
proof (cases "registered (wakr m)")
  case None
  have "wake_registered L m = m\<lparr>wakr := snd (waker_take (cell L) (wakr m)), exec := exec m\<rparr>"
    using None aw.take_fst [of "wakr m"] by (cases "waker_take (cell L) (wakr m)") (simp add: wake_registered_def)
  then show ?thesis by (rule that) (simp_all add: None aw.take_snd)
next
  case (Some i)
  have i: "i = tid" using assms Some by (auto simp: machine_inv_def)
  have full: "elems (task_queue (exec m)) \<noteq> [] \<Longrightarrow> tid \<in> set (elems (task_queue (exec m)))"
    using assms by (cases "elems (task_queue (exec m))") (auto simp: machine_inv_def)
  have run: "wake_registered L m
      = m\<lparr>wakr := snd (waker_take (cell L) (wakr m)), exec := wake_task (run_q L) tid (exec m)\<rparr>"
    using Some i aw.take_fst [of "wakr m"] by (cases "waker_take (cell L) (wakr m)") (simp add: wake_registered_def)
  have "0 < cap (task_queue (exec m))" using assms by (simp add: machine_inv_def)
  then have "length (elems (task_queue (exec m))) < cap (task_queue (exec m)) \<or> tid \<in> set (elems (task_queue (exec m)))"
    using full by fastforce
  with Some show ?thesis
    by (intro that [OF run]) (auto simp: wake_elems aw.take_snd)
qed

lemma kinv_other_fields: "kinv tid (m\<lparr>timer_ticks := t\<rparr>) = kinv tid m"
  "kinv tid (m\<lparr>eois := e\<rparr>) = kinv tid m" "f \<noteq> Queued \<Longrightarrow> kinv tid (arrives c f m) = kinv tid m"
  by (simp_all add: machine_inv_def armed_def waiting_def accepted_def arrives_def)

lemma kinv_resume:
  assumes "kinv tid m"
  shows "kinv tid (resume m)"
proof (cases "at m = Halted")
  case True
  then show ?thesis using assms by (auto simp add: resume_def machine_inv_def armed_def waiting_def accepted_def)
qed (use assms in \<open>simp add: resume_def\<close>)

text \<open>
  The keyboard handler changes the queues and the waker cell; afterwards the task is queued
  wherever it was armed before.
\<close>

lemma kinv_key:
  assumes inv: "kinv tid m"
  shows "kinv tid (resume (keyboard_handler L c m))"
proof (cases "scancode_queue m")
  case None
  then have "keyboard_handler L c m = (arrives c NoStream m)\<lparr>eois := eois m @ [irq_as_u8 KeyboardIrq]\<rparr>"
    by (simp add: keyboard_handler_def add_scancode_def arrives_def Let_def)
  then show ?thesis using inv by (simp add: kinv_resume kinv_other_fields)
next
  case (Some q)
  have cap: "scap q = 100" "length (selems q) \<le> 100" using inv Some by (simp_all add: machine_inv_def)
  obtain q' acc f where push: "(case queue_push (scan_q L) c q of
       None \<Rightarrow> arrives c QueueFull m | Some q' \<Rightarrow> arrives c Queued (m\<lparr>scancode_queue := Some q'\<rparr>))
       = m\<lparr>scancode_queue := Some q', arrived := arrived m @ [(c, f)]\<rparr>" "selems q' = selems q @ acc"
    "acc = (if f = Queued then [c] else [])" "scap q' = 100" "length (selems q') \<le> 100"
  proof (cases "length (selems q) < scap q")
    case True
    then obtain p where p: "queue_push (scan_q L) c q = Some p" "selems p = selems q @ [c]" "scap p = scap q" using sq.push_ok by blast
    show ?thesis by (rule that [of Queued p "[c]"]) (use p cap True in \<open>simp_all add: arrives_def\<close>)
  next
    case False
    then have p: "queue_push (scan_q L) c q = None" by (intro sq.push_full) simp
    show ?thesis by (rule that [of QueueFull q "[]"]) (use p cap Some in \<open>simp_all add: arrives_def\<close>)
  qed
  let ?m1 = "m\<lparr>scancode_queue := Some q', arrived := arrived m @ [(c, f)]\<rparr>"
  obtain w ex where wk: "wake_registered L m = m\<lparr>wakr := w, exec := ex\<rparr>" and w: "registered w = None"
    and ex: "tasks ex = tasks (exec m)" "cap (task_queue ex) = cap (task_queue (exec m))"
    "set (elems (task_queue ex)) = set (elems (task_queue (exec m)))
       \<union> (if registered (wakr m) = None then {} else {tid})"
    using wake_registered_run [OF inv] .
  have "wake_registered L ?m1 = (wake_registered L m)\<lparr>scancode_queue := Some q', arrived := arrived m @ [(c, f)]\<rparr>"
    by (cases "waker_take (cell L) (wakr m)"; cases "fst (waker_take (cell L) (wakr m))")
      (simp_all add: wake_registered_def)
  then have run: "keyboard_handler L c m = m\<lparr>wakr := w, exec := ex, scancode_queue := Some q',
      arrived := arrived m @ [(c, f)], eois := eois m @ [irq_as_u8 KeyboardIrq]\<rparr>"
    using Some by (simp add: keyboard_handler_def add_scancode_def Let_def push wk)
  have "waiting selems ?m1 = waiting selems m @ acc" using Some push by (simp add: waiting_def split: pc.split)
  then have dl: "delivered m @ waiting selems ?m1 = accepted m @ acc"
    using inv by (simp add: machine_inv_def)
  have log: "accepted (m\<lparr>wakr := w, exec := ex, scancode_queue := Some q', arrived := arrived m @ [(c, f)], eois := e, at := a\<rparr>) = accepted m @ acc"
    "accepted (m\<lparr>wakr := w, exec := ex, scancode_queue := Some q', arrived := arrived m @ [(c, f)], eois := e\<rparr>) = accepted m @ acc" for e a
    using push(3) by (simp_all add: accepted_def)
  have base: "tasks (exec m) tid \<noteq> None" "set (elems (task_queue (exec m))) \<subseteq> {tid}" "0 < cap (task_queue (exec m))"
    "int_flag m = (at m \<noteq> Check)" using inv by (simp_all add: machine_inv_def)
  have queued: "tid \<in> set (elems (task_queue ex))"
    if "armed elems selems registered tid m \<or> registered (wakr m) = Some tid"
    using that ex(3) by (auto simp: armed_def)
  have park: "at m \<in> {Pop, Disable, Check, Halted} \<longrightarrow> tid \<in> set (elems (task_queue ex))"
    using inv queued by (simp add: machine_inv_def)
  have sec: "at m = Second \<longrightarrow> tid \<in> set (elems (task_queue ex))"
    using inv queued ex(3) by (auto simp: machine_inv_def)
  have st: "at m \<noteq> Start" using inv Some by (auto simp: machine_inv_def)
  have sub: "set (elems (task_queue ex)) \<subseteq> {tid}" using ex(3) base(2) by auto
  show ?thesis
    using base(1,3,4) ex(1,2) w dl park sec st sub push(4,5)
    by (cases "at m = Halted") (simp_all add: run resume_def machine_inv_def armed_def waiting_def log)
qed

lemma kinv_timer: "kinv tid m \<Longrightarrow> kinv tid (resume (timer_handler m))"
  unfolding timer_handler_def by (rule kinv_resume) (simp only: kinv_other_fields)

lemma kinv_reachable: "reachable L tid f registered m \<Longrightarrow> kinv tid m"
proof (induction rule: reachable.induct)
  case (reachable_step m m')
  from reachable_step(2) reachable_step(3) show ?case
    by (cases rule: stepE) (auto intro: kinv_cpu kinv_key kinv_timer)
qed (rule kinv_boots)

lemma halted_facts:
  assumes "reachable L tid f registered m" "at m = Halted"
  shows "elems (task_queue (exec m)) = []" "registered (wakr m) = Some tid" "int_flag m"
    "delivered m = accepted m" "\<exists>q. scancode_queue m = Some q \<and> selems q = []" "tasks (exec m) tid \<noteq> None"
    "0 < cap (task_queue (exec m))"
  using kinv_reachable [OF assms(1)] assms(2) by (auto simp: machine_inv_def armed_def waiting_def)

end

section \<open>Properties\<close>

text \<open>
  C18: no lost wake-up. Whenever the processor has halted, under any interleaving of the executor with
  keyboard and timer interrupts, no task is ready, no scancode is waiting, everything queued has been
  delivered, and interrupts are on with the waker registered, so the next keystroke wakes the shell.
\<close>

theorem halts_only_when_idle:
  assumes "idle_machine L elems cap selems scap registered"
    and "reachable L tid f registered m" "at m = Halted"
  shows "elems (task_queue (exec m)) = [] \<and> (\<exists>q. scancode_queue m = Some q \<and> selems q = [])
    \<and> delivered m = accepted m \<and> int_flag m \<and> registered (wakr m) = Some tid"
  using idle_machine.halted_facts [OF assms] by blast

lemma arrived_wake: "arrived (wake_registered L m) = arrived m"
  by (simp add: wake_registered_def split: prod.split option.split)

lemma arrived_cpu: "arrived (cpu L tid m) = arrived m"
  by (simp add: cpu_def pop_task_def stream_new_def poll_first_def poll_register_def poll_second_def deliver_def sleep_disable_def sleep_check_def
      split: pc.split option.split prod.split)

lemma arrived_resume: "arrived (resume m) = arrived m"
  by (simp add: resume_def)

text \<open>
  C33: what becomes of the scancodes. Every keyboard interrupt, in any reachable state, logs its scancode with its fate, and nothing else writes to the
  log. The scancode is dropped exactly when the shell has not created its stream yet or when 100 scancodes are waiting in the queue; otherwise
  it is accepted. The accepted scancodes reach the shell in the order of their arrival, each once: what was delivered, followed by what is still waiting,
  is exactly what was accepted.
\<close>

theorem scancodes_in_order:
  assumes "idle_machine L elems cap selems scap registered" "reachable L tid f registered m"
  shows "delivered m @ waiting selems m = accepted m
    \<and> (\<exists>fate. arrived (resume (keyboard_handler L c m)) = arrived m @ [(c, fate)] \<and> (fate = NoStream \<longleftrightarrow> scancode_queue m = None)
         \<and> (fate = QueueFull \<longleftrightarrow> (\<exists>q. scancode_queue m = Some q \<and> length (selems q) = 100)))
    \<and> arrived (resume (timer_handler m)) = arrived m \<and> arrived (cpu L tid m) = arrived m"
proof -
  have inv: "machine_inv elems cap selems scap registered tid m" by (rule idle_machine.kinv_reachable [OF assms])
  note sq = idle_machine.axioms(2) [OF assms(1)]
  have "\<exists>fate. arrived (resume (keyboard_handler L c m)) = arrived m @ [(c, fate)] \<and> (fate = NoStream \<longleftrightarrow> scancode_queue m = None)
      \<and> (fate = QueueFull \<longleftrightarrow> (\<exists>q. scancode_queue m = Some q \<and> length (selems q) = 100))"
  proof (cases "scancode_queue m")
    case None
    then show ?thesis by (intro exI [of _ NoStream]) (simp add: arrived_resume keyboard_handler_def add_scancode_def arrives_def Let_def)
  next
    case (Some q)
    then have cap: "scap q = 100" "length (selems q) \<le> 100" using inv by (auto simp: machine_inv_def)
    show ?thesis
    proof (cases "length (selems q) = 100")
      case True
      with array_queue.push_full [OF sq, of q c] cap Some show ?thesis
        by (intro exI [of _ QueueFull]) (simp add: arrived_resume keyboard_handler_def add_scancode_def arrives_def arrived_wake Let_def)
    next
      case False
      with array_queue.push_ok [OF sq, of q c] cap obtain q' where "queue_push (scan_q L) c q = Some q'" by auto
      with Some False show ?thesis
        by (intro exI [of _ Queued]) (simp add: arrived_resume keyboard_handler_def add_scancode_def arrives_def arrived_wake Let_def)
    qed
  qed
  then show ?thesis using inv by (simp add: machine_inv_def arrived_resume arrived_cpu timer_handler_def)
qed

text \<open>
  C34: a key pressed while the processor sleeps is delivered: the interrupt wakes the executor, which
  pops the task, polls it and hands exactly this scancode to the shell.
\<close>

theorem keystroke_wakes_shell:
  assumes im: "idle_machine L elems cap selems scap registered"
    and "reachable L tid f registered m" "at m = Halted" "scancode_queue m = Some q" "0 < scap q"
  shows "at (cpu L tid (cpu L tid (resume (keyboard_handler L scancode m)))) = Deliver scancode"
proof -
  note rq = idle_machine.axioms(1) [OF im] and sq = idle_machine.axioms(2) [OF im]
    and aw = idle_machine.axioms(3) [OF im]
  note h = idle_machine.halted_facts [OF im assms(2,3)]
  from h(5) assms(4) have "selems q = []" by simp
  then obtain q1 where q1: "queue_push (scan_q L) scancode q = Some q1" "selems q1 = [scancode]"
    using array_queue.push_ok [OF sq, of q scancode] assms(5) by auto
  then obtain q2 where q2: "queue_pop (scan_q L) q1 = Some (scancode, q2)"
    using array_queue.pop_some [OF sq] by blast
  obtain t1 where t1: "queue_push (run_q L) tid (task_queue (exec m)) = Some t1" "elems t1 = [tid]"
    using array_queue.push_ok [OF rq, of "task_queue (exec m)" tid] h(1,7) by auto
  then obtain t2 where t2: "queue_pop (run_q L) t1 = Some (tid, t2)"
    using array_queue.pop_some [OF rq] by blast
  obtain fu where fu: "tasks (exec m) tid = Some fu" using h(6) by blast
  obtain w where w: "waker_take (cell L) (wakr m) = (Some tid, w)"
    using atomic_waker.take_fst [OF aw, of "wakr m"] h(2) by (metis prod.collapse)
  have "resume (keyboard_handler L scancode m) = m\<lparr>scancode_queue := Some q1, arrived := arrived m @ [(scancode, Queued)],
      wakr := w, exec := (exec m)\<lparr>task_queue := t1\<rparr>, eois := eois m @ [irq_as_u8 KeyboardIrq], at := Pop\<rparr>"
    using assms(3,4) by (simp add: keyboard_handler_def add_scancode_def arrives_def q1 wake_registered_def w wake_task_def
        t1 resume_def Let_def)
  then show ?thesis by (simp add: cpu_def pop_task_def t2 fu poll_first_def q2)
qed

text \<open>The machine over the sequential queues, halted after its first idle round.\<close>

definition demo_libs :: "(TaskId list \<times> nat, u8 list \<times> nat, TaskId option) libs" where
  "demo_libs = \<lparr>run_q = list_queue, scan_q = list_queue, cell = option_waker\<rparr>"

interpretation demo: idle_machine demo_libs fst snd fst snd id
  by unfold_locales (auto simp: demo_libs_def list_queue_def option_waker_def)

definition demo_boot :: "(TaskId list \<times> nat, u8 list \<times> nat, TaskId option, unit) machine" where
  "demo_boot = \<lparr>exec = \<lparr>tasks = [0 \<mapsto> ()], task_queue = ([0], 100), waker_cache = {}\<rparr>, scancode_queue = None,
     wakr = None, int_flag = True, at = Pop, timer_ticks = 0, eois = [], arrived = [], delivered = []\<rparr>"

fun cpu_steps :: "nat \<Rightarrow> (TaskId list \<times> nat, u8 list \<times> nat, TaskId option, unit) machine \<Rightarrow>
    (TaskId list \<times> nat, u8 list \<times> nat, TaskId option, unit) machine" where
  "cpu_steps 0 m = m"
| "cpu_steps (Suc n) m = cpu_steps n (cpu demo_libs 0 m)"

lemma reachable_cpu_steps: "reachable demo_libs 0 () id m \<Longrightarrow> reachable demo_libs 0 () id (cpu_steps n m)"
  by (induction n arbitrary: m) (auto intro: reachable_step step_cpu)

lemma demo_boots: "boots demo_libs 0 () id demo_boot"
  by (simp add: boots_def demo_libs_def demo_boot_def spawn_def executor_new_def list_queue_def
      bindM_Ok gets_run modify_run QUEUE_CAPACITY_def)

lemma demo_halted:
  "reachable demo_libs 0 () id (cpu_steps 8 demo_boot)" "at (cpu_steps 8 demo_boot) = Halted"
  "scancode_queue (cpu_steps 8 demo_boot) = Some ([], 100)"
proof -
  from demo_boots show "reachable demo_libs 0 () id (cpu_steps 8 demo_boot)"
    by (intro reachable_cpu_steps reachable_init)
  show "at (cpu_steps 8 demo_boot) = Halted" "scancode_queue (cpu_steps 8 demo_boot) = Some ([], 100)"
    by (simp_all add: eval_nat_numeral cpu_def demo_boot_def demo_libs_def pop_task_def stream_new_def
        poll_first_def poll_register_def poll_second_def sleep_disable_def sleep_check_def list_queue_def
        option_waker_def)
qed

theorem halts_only_when_idle_witness:
  "fst (task_queue (exec (cpu_steps 8 demo_boot))) = [] \<and> wakr (cpu_steps 8 demo_boot) = Some 0"
  using halts_only_when_idle [OF demo.idle_machine_axioms demo_halted(1,2)] by simp

text \<open>A key before the stream exists is lost; of two keys that wake the sleeping shell, the first is delivered and the second waits.\<close>

abbreviation demo_key :: "u8 \<Rightarrow> (TaskId list \<times> nat, u8 list \<times> nat, TaskId option, unit) machine \<Rightarrow>
    (TaskId list \<times> nat, u8 list \<times> nat, TaskId option, unit) machine" where
  "demo_key c m \<equiv> resume (keyboard_handler demo_libs c m)"

definition demo_typed :: "(TaskId list \<times> nat, u8 list \<times> nat, TaskId option, unit) machine" where
  "demo_typed = cpu_steps 3 (demo_key 48 (demo_key 30 (cpu_steps 8 (demo_key 7 demo_boot))))"

lemma demo_typed_run:
  "delivered demo_typed = [30]" "waiting fst demo_typed = [48]" "arrived demo_typed = [(7, NoStream), (30, Queued), (48, Queued)]"
  "int_flag (demo_key 30 (cpu_steps 8 (demo_key 7 demo_boot)))" "int_flag (cpu_steps 8 (demo_key 7 demo_boot))"
  by (simp_all add: demo_typed_def waiting_def eval_nat_numeral cpu_def demo_boot_def demo_libs_def pop_task_def stream_new_def
      poll_first_def poll_register_def poll_second_def sleep_disable_def sleep_check_def list_queue_def deliver_def
      option_waker_def keyboard_handler_def add_scancode_def arrives_def resume_def wake_registered_def wake_task_def Let_def)

lemma demo_typed_reachable: "reachable demo_libs 0 () id demo_typed"
proof -
  have key: "reachable demo_libs 0 () id (demo_key c m)" if "reachable demo_libs 0 () id m" "int_flag m" for c m
    by (rule reachable_step [OF that(1) step_key [OF that(2)]])
  have "int_flag demo_boot" by (simp add: demo_boot_def)
  then show ?thesis unfolding demo_typed_def
    by (intro reachable_cpu_steps key reachable_init demo_boots demo_typed_run(4,5))
qed

theorem scancodes_in_order_witness:
  "accepted demo_typed = [30, 48] \<and> arrived demo_typed = [(7, NoStream), (30, Queued), (48, Queued)]
   \<and> (\<exists>fate. arrived (demo_key 21 demo_typed) = [(7, NoStream), (30, Queued), (48, Queued), (21, fate)])"
  using scancodes_in_order [OF demo.idle_machine_axioms demo_typed_reachable, of 21] demo_typed_run(1-3) by auto

theorem keystroke_wakes_shell_witness:
  "at (cpu demo_libs 0 (cpu demo_libs 0 (resume (keyboard_handler demo_libs 28 (cpu_steps 8 demo_boot))))) = Deliver 28"
  by (rule keystroke_wakes_shell [OF demo.idle_machine_axioms demo_halted]) simp

end
