(* ===== verification/DevFs.thy ===== *)
theory DevFs
  imports Framebuffer Block FsTypes
begin

text \<open>
  The kernel's global devices and the device file system of \<^verbatim>\<open>kernel/src/fs/dev.rs\<close>. The globals
  \<open>FB_WRITER\<close>, \<open>SERIAL1\<close>, \<open>DRIVE\<close> and \<open>TIMER_TICKS\<close> are the fields of one record; the uart, the
  font and the disk driver are parameters. \<open>print!\<close> is \<open>_print\<close> of \<^verbatim>\<open>kernel/src/lib.rs\<close> and
  \<open>serial_print!\<close> that of \<^verbatim>\<open>kernel/src/serial.rs\<close>.

  Shown: the methods of \<open>/dev\<close> agree with its node table, the sinks and sources behave as their
  names say, and what is written to \<open>/dev/disk0\<close> in whole blocks is read back unchanged on any
  device that meets the block-device contract.
\<close>

section \<open>The globals\<close>

record ('d, 'p) hardware =
  blockdev :: "'d BlockDevice"
  uart_send :: "u8 \<Rightarrow> 'p \<Rightarrow> 'p"
  glyphs :: font

record ('d, 'p) globals =
  fb_writer :: "FrameBufferWriter option"
  serial1 :: "'p option"
  drive :: 'd
  ticks :: u64

type_synonym ('d, 'p, 'a) sys = "(('d, 'p) globals, FsError, 'a) io"

text \<open>A console operation never fails; a panic in it is a panic of the caller.\<close>

definition on_console :: "unit fb \<Rightarrow> (('d, 'p) globals, 'e, unit) io" where
  "on_console m = (\<lambda>g. case fb_writer g of
     None \<Rightarrow> Some (Ok (), g)
   | Some w \<Rightarrow> map_option (\<lambda>(r, w'). (case r of Panic c \<Rightarrow> Panic c | _ \<Rightarrow> Ok (), g\<lparr>fb_writer := Some w'\<rparr>)) (m w))"

definition print :: "('d, 'p) hardware \<Rightarrow> rchar list \<Rightarrow> (('d, 'p) globals, 'e, unit) io" where
  "print H cs = on_console (write_str (glyphs H) cs)"

definition serial_send :: "('d, 'p) hardware \<Rightarrow> u8 list \<Rightarrow> ('d, 'p) globals \<Rightarrow> ('d, 'p) globals" where
  "serial_send H bs g = g\<lparr>serial1 := map_option (fold (uart_send H) bs) (serial1 g)\<rparr>"

definition serial_print :: "('d, 'p) hardware \<Rightarrow> string \<Rightarrow> (('d, 'p) globals, 'e, unit) io" where
  "serial_print H s = modify (serial_send H (as_bytes s))"

section \<open>The nodes\<close>

datatype DevNode = ConsoleNode | NullNode | ZeroNode | Serial0Node | Disk0Node

text \<open>
  One block of \<open>Disk0Node::read\<close> and \<open>write\<close>: every \<open>BlockError\<close> becomes \<open>Io\<close>. The address sum \<open>start_lba + i\<close> of two numbers below
  \<open>2 ^ 55\<close> cannot overflow.
\<close>

definition disk_read_block :: "('d, 'p) hardware \<Rightarrow> u64 \<Rightarrow> u8 list \<Rightarrow> ('d, 'p, u8 list) sys" where
  "disk_read_block H lba dst = on_part drive (\<lambda>d g. g\<lparr>drive := d\<rparr>)
     (attempt (read_block (blockdev H) lba dst) (\<lambda>r. case r of Inl _ \<Rightarrow> fail Io | Inr (_, b) \<Rightarrow> ret b))"

definition disk_write_block :: "('d, 'p) hardware \<Rightarrow> u64 \<Rightarrow> u8 list \<Rightarrow> ('d, 'p, unit) sys" where
  "disk_write_block H lba src = on_part drive (\<lambda>d g. g\<lparr>drive := d\<rparr>)
     (attempt (write_block (blockdev H) lba src) (\<lambda>r. case r of Inl _ \<Rightarrow> fail Io | Inr _ \<Rightarrow> ret ()))"

definition aligned :: "u64 \<Rightarrow> u8 list \<Rightarrow> bool" where
  "aligned off buf \<longleftrightarrow> off mod word_of_nat BLOCK_SIZE = 0 \<and> length buf mod BLOCK_SIZE = 0"

definition disk0_read :: "('d, 'p) hardware \<Rightarrow> u64 \<Rightarrow> u8 list \<Rightarrow> ('d, 'p, nat \<times> u8 list) sys" where
  "disk0_read H off buf =
     (if buf = [] then ret (0, buf)
      else if \<not> aligned off buf then fail Io
      else
        (let blocks = length buf div BLOCK_SIZE; start_lba = off div word_of_nat BLOCK_SIZE
         in bindM (foldM (\<lambda>i buf.
              bindM (liftO (slice (i * BLOCK_SIZE) ((i + 1) * BLOCK_SIZE) buf)) (\<lambda>dst.
              bindM (disk_read_block H (start_lba + word_of_nat i) dst) (\<lambda>dst.
              ret (splice (i * BLOCK_SIZE) dst buf)))) [0..<blocks] buf) (\<lambda>buf.
            ret (length buf, buf))))"

definition disk0_write :: "('d, 'p) hardware \<Rightarrow> u64 \<Rightarrow> u8 list \<Rightarrow> ('d, 'p, nat) sys" where
  "disk0_write H off buf =
     (if buf = [] then ret 0
      else if \<not> aligned off buf then fail Io
      else
        (let blocks = length buf div BLOCK_SIZE; start_lba = off div word_of_nat BLOCK_SIZE
         in bindM (foldM (\<lambda>i _.
              bindM (liftO (slice (i * BLOCK_SIZE) ((i + 1) * BLOCK_SIZE) buf)) (\<lambda>src.
              disk_write_block H (start_lba + word_of_nat i) src)) [0..<blocks] ()) (\<lambda>_.
            ret (length buf))))"

definition node_read :: "('d, 'p) hardware \<Rightarrow> DevNode \<Rightarrow> u64 \<Rightarrow> u8 list \<Rightarrow> ('d, 'p, nat \<times> u8 list) sys" where
  "node_read H node off buf = (case node of
     ConsoleNode \<Rightarrow> fail Unsupported
   | NullNode \<Rightarrow> ret (0, buf)
   | ZeroNode \<Rightarrow> ret (length buf, map (\<lambda>_. 0) buf)
   | Serial0Node \<Rightarrow> ret (0, buf)
   | Disk0Node \<Rightarrow> disk0_read H off buf)"

text \<open>A byte string that is not UTF-8 prints as nothing.\<close>

definition console_write :: "('d, 'p) hardware \<Rightarrow> u8 list \<Rightarrow> ('d, 'p, nat) sys" where
  "console_write H buf = bindM (print H (case from_utf8 buf of Some s \<Rightarrow> s | None \<Rightarrow> [])) (\<lambda>_. ret (length buf))"

definition serial_write :: "('d, 'p) hardware \<Rightarrow> u8 list \<Rightarrow> ('d, 'p, nat) sys" where
  "serial_write H buf = bindM (gets serial1) (\<lambda>port.
     case port of None \<Rightarrow> fail Io | Some _ \<Rightarrow> bindM (modify (serial_send H buf)) (\<lambda>_. ret (length buf)))"

definition node_write :: "('d, 'p) hardware \<Rightarrow> DevNode \<Rightarrow> u64 \<Rightarrow> u8 list \<Rightarrow> ('d, 'p, nat) sys" where
  "node_write H node off buf = (case node of
     ConsoleNode \<Rightarrow> console_write H buf
   | NullNode \<Rightarrow> ret (length buf)
   | ZeroNode \<Rightarrow> ret (length buf)
   | Serial0Node \<Rightarrow> serial_write H buf
   | Disk0Node \<Rightarrow> disk0_write H off buf)"

section \<open>The file system\<close>

definition NODES :: "(string \<times> DevNode) list" where
  "NODES = [(''console'', ConsoleNode), (''null'', NullNode), (''zero'', ZeroNode),
     (''serial0'', Serial0Node), (''disk0'', Disk0Node)]"

definition ZERO_READ_FILE_BYTES :: nat where
  "ZERO_READ_FILE_BYTES = 4096"

definition node_of :: "string \<Rightarrow> DevNode option" where
  "node_of name = map_of NODES name"

definition flat_name :: "string \<Rightarrow> (FsError, string) outcome" where
  "flat_name rel =
     (let trimmed = (case strip_prefix ''/'' rel of Some t \<Rightarrow> t | None \<Rightarrow> rel)
      in if slash \<in> set trimmed then Err NotFound else Ok trimmed)"

definition dev_read_file :: "string \<Rightarrow> (FsError, u8 list) outcome" where
  "dev_read_file rel = (case flat_name rel of
     Ok name \<Rightarrow>
       if name = [] then Err IsADir
       else if name = ''null'' then Ok []
       else if name = ''zero'' then Ok (replicate ZERO_READ_FILE_BYTES 0)
       else if name = ''console'' \<or> name = ''serial0'' \<or> name = ''disk0'' then Err Unsupported
       else Err NotFound
   | Err e \<Rightarrow> Err e
   | Panic c \<Rightarrow> Panic c)"

definition dev_list_dir :: "string \<Rightarrow> (FsError, string list) outcome" where
  "dev_list_dir rel = (case flat_name rel of
     Ok name \<Rightarrow> if name \<noteq> [] then Err NotADir else Ok (map fst NODES)
   | Err e \<Rightarrow> Err e
   | Panic c \<Rightarrow> Panic c)"

definition dev_is_dir :: "string \<Rightarrow> bool" where
  "dev_is_dir rel = (flat_name rel = Ok [])"

definition dev_read_at :: "('d, 'p) hardware \<Rightarrow> string \<Rightarrow> u64 \<Rightarrow> u8 list \<Rightarrow> ('d, 'p, nat \<times> u8 list) sys" where
  "dev_read_at H rel off buf = bindM (liftO (flat_name rel)) (\<lambda>name.
     case node_of name of None \<Rightarrow> fail NotFound | Some node \<Rightarrow> node_read H node off buf)"

definition dev_write_at :: "('d, 'p) hardware \<Rightarrow> string \<Rightarrow> u64 \<Rightarrow> u8 list \<Rightarrow> ('d, 'p, nat) sys" where
  "dev_write_at H rel off buf = bindM (liftO (flat_name rel)) (\<lambda>name.
     case node_of name of None \<Rightarrow> fail NotFound | Some node \<Rightarrow> node_write H node off buf)"

definition dev_write_file :: "('d, 'p) hardware \<Rightarrow> string \<Rightarrow> u8 list \<Rightarrow> ('d, 'p, unit) sys" where
  "dev_write_file H rel data = bindM (dev_write_at H rel 0 data) (\<lambda>n.
     if n = length data then ret () else fail Io)"

section \<open>Properties\<close>

lemma flat_name_Ok: "flat_name rel \<noteq> Panic c" "flat_name rel \<noteq> Err IsADir"
  by (simp_all add: flat_name_def Let_def)

lemma node_of_names: "node_of name = None \<longleftrightarrow>
  name \<noteq> ''console'' \<and> name \<noteq> ''null'' \<and> name \<noteq> ''zero'' \<and> name \<noteq> ''serial0'' \<and> name \<noteq> ''disk0''"
  by (auto simp: node_of_def NODES_def)

lemma errors_in_node_read: "errors_in {Io, Unsupported} (node_read H n off buf)"
proof -
  have blk: "errors_in {Io, Unsupported} (disk_read_block H lba dst)" for lba dst
    unfolding disk_read_block_def
    by (auto intro!: err_intros errors_in_fail split: sum.split prod.split)
  show ?thesis
    unfolding node_read_def disk0_read_def Let_def
    by (cases n) (auto intro!: err_intros errors_in_fail blk)
qed

text \<open>
  The methods of the device file system agree: exactly the root is a directory, exactly the root
  can be listed, and it lists exactly the names under which \<open>read_at\<close> finds a node; every other path
  is reported missing by \<open>read_file\<close>.
\<close>

theorem dev_methods_agree:
  "(dev_is_dir rel \<longleftrightarrow> dev_read_file rel = Err IsADir)
   \<and> (dev_is_dir rel \<longleftrightarrow> dev_list_dir rel = Ok [''console'', ''null'', ''zero'', ''serial0'', ''disk0''])
   \<and> (\<not> dev_is_dir rel \<longleftrightarrow> dev_list_dir rel \<in> {Err NotADir, Err NotFound})
   \<and> (dev_read_file rel = Err NotFound \<longleftrightarrow> \<not> dev_is_dir rel \<and> dev_read_at H rel off buf g = Some (Err NotFound, g))"
proof (cases "flat_name rel")
  case (Ok name)
  have nd: "node_read H n off buf g \<noteq> Some (Err NotFound, g)" for n
    using errors_inD [OF errors_in_node_read] by blast
  have at: "dev_read_at H rel off buf g = Some (Err NotFound, g) \<longleftrightarrow> node_of name = None"
    using Ok nd by (auto simp: dev_read_at_def liftO_run bindM_Ok fail_run split: option.split)
  show ?thesis unfolding at node_of_names
    using Ok by (auto simp: dev_is_dir_def dev_read_file_def dev_list_dir_def NODES_def)
qed (auto simp: dev_is_dir_def dev_read_file_def dev_list_dir_def dev_read_at_def flat_name_Ok
    flat_name_def liftO_run bindM_Err Let_def split: if_splits)

section \<open>The raw disk\<close>

text \<open>The \<open>i\<close>-th block of a buffer.\<close>

definition block_of :: "u8 list \<Rightarrow> nat \<Rightarrow> u8 list" where
  "block_of buf i = take BLOCK_SIZE (drop (i * BLOCK_SIZE) buf)"

lemma length_block_of: "(i + 1) * BLOCK_SIZE \<le> length buf \<Longrightarrow> length (block_of buf i) = BLOCK_SIZE"
  by (simp add: block_of_def)

lemma take_block_snoc: "take ((j + 1) * BLOCK_SIZE) xs = take (j * BLOCK_SIZE) xs @ block_of xs j"
  using take_add [of "j * BLOCK_SIZE" BLOCK_SIZE xs] by (simp add: block_of_def add.commute)

lemma unat_lba_add:
  assumes "unat (start :: u64) + i < unat (n :: u64)"
  shows "unat (start + word_of_nat i) = unat start + i"
proof -
  have b: "unat n < 2 ^ 64" using unsigned_less [of n, where 'a = nat] by simp
  then have "unat (word_of_nat i :: u64) = i" using assms by (simp add: unat_of_nat)
  then show ?thesis using assms b by (simp add: unat_word_ariths)
qed

text \<open>The state between two blocks of a transfer: only the drive moves, and it stays healthy.\<close>

definition transfer_state :: "'d BlockDevice \<Rightarrow> ('d \<Rightarrow> bool) \<Rightarrow> ('d \<Rightarrow> nat \<Rightarrow> u8 list) \<Rightarrow> ('d, 'p) globals \<Rightarrow>
    (nat \<Rightarrow> u8 list) \<Rightarrow> ('d, 'p) globals \<Rightarrow> bool" where
  "transfer_state dev ok blk g0 contents g \<longleftrightarrow>
     fb_writer g = fb_writer g0 \<and> serial1 g = serial1 g0 \<and> ticks g = ticks g0
     \<and> ok (drive g) \<and> blk (drive g) = contents \<and> num_blocks dev (drive g) = num_blocks dev (drive g0)"

text \<open>The contents after the first \<open>j\<close> blocks of a write.\<close>

definition written_blocks :: "nat \<Rightarrow> u8 list \<Rightarrow> nat \<Rightarrow> (nat \<Rightarrow> u8 list) \<Rightarrow> nat \<Rightarrow> u8 list" where
  "written_blocks start buf j c n = (if start \<le> n \<and> n < start + j then block_of buf (n - start) else c n)"

context block_device
begin

abbreviation transfer :: "('d, 'p) globals \<Rightarrow> (nat \<Rightarrow> u8 list) \<Rightarrow> ('d, 'p) globals \<Rightarrow> bool" where
  "transfer \<equiv> transfer_state dev ok blk"

lemma disk_write_block_step:
  assumes "blockdev H = dev" "transfer g0 c g" "lba < num_blocks dev (drive g0)" "length b = BLOCK_SIZE"
  shows "\<exists>g'. disk_write_block H lba b g = Some (Ok (), g') \<and> transfer g0 (c(unat lba := b)) g'"
proof -
  from assms have ok: "ok (drive g)" and lt: "lba < num_blocks dev (drive g)" by (auto simp: transfer_state_def)
  from write_ok [OF ok lt, of b] assms(4) obtain d' where
    "write_block dev lba b (drive g) = Some (Ok BLOCK_SIZE, d')" "ok d'"
    "blk d' = (blk (drive g))(unat lba := b)" "num_blocks dev d' = num_blocks dev (drive g)" by auto
  then show ?thesis using assms
    by (auto simp: disk_write_block_def on_part_def attempt_Ok ret_run transfer_state_def)
qed

lemma disk_read_block_step:
  assumes "blockdev H = dev" "transfer g0 c g" "lba < num_blocks dev (drive g0)" "length b = BLOCK_SIZE"
  shows "\<exists>g'. disk_read_block H lba b g = Some (Ok (c (unat lba)), g') \<and> transfer g0 c g'"
proof -
  from assms have ok: "ok (drive g)" and lt: "lba < num_blocks dev (drive g)" by (auto simp: transfer_state_def)
  from read_ok [OF ok lt, of b] assms(4) obtain d' where
    "read_block dev lba b (drive g) = Some (Ok (BLOCK_SIZE, blk (drive g) (unat lba) @ drop BLOCK_SIZE b), d')" "ok d'"
    "blk d' = blk (drive g)" "num_blocks dev d' = num_blocks dev (drive g)" by auto
  then show ?thesis using assms
    by (auto simp: disk_read_block_def on_part_def attempt_Ok ret_run transfer_state_def)
qed

lemma disk_write_loop:
  assumes H: "blockdev H = dev" and g: "transfer g0 c g"
    and range: "unat start + k \<le> unat (num_blocks dev (drive g0))" and len: "length buf = k * BLOCK_SIZE"
  shows "j \<le> k \<Longrightarrow> \<exists>g'. foldM (\<lambda>i _. bindM (liftO (slice (i * BLOCK_SIZE) ((i + 1) * BLOCK_SIZE) buf)) (\<lambda>src.
      disk_write_block H (start + word_of_nat i) src)) [0..<j] () g = Some (Ok (), g')
    \<and> transfer g0 (written_blocks (unat start) buf j c) g'"
proof (induction j)
  case 0
  have "written_blocks (unat start) buf 0 c = c" by (rule ext) (auto simp: written_blocks_def)
  with g show ?case by (simp add: ret_run)
next
  case (Suc j)
  then obtain g' where run: "foldM (\<lambda>i _. bindM (liftO (slice (i * BLOCK_SIZE) ((i + 1) * BLOCK_SIZE) buf)) (\<lambda>src.
      disk_write_block H (start + word_of_nat i) src)) [0..<j] () g = Some (Ok (), g')"
    and g': "transfer g0 (written_blocks (unat start) buf j c) g'" by auto
  have u: "unat (start + word_of_nat j) = unat start + j"
    by (rule unat_lba_add [where n = "num_blocks dev (drive g0)"]) (use range Suc.prems in simp)
  have le: "(j + 1) * BLOCK_SIZE \<le> k * BLOCK_SIZE" using Suc.prems by (intro mult_le_mono1) simp
  then have "length (block_of buf j) = BLOCK_SIZE" by (intro length_block_of) (simp add: len)
  with disk_write_block_step [OF H g', of "start + word_of_nat j"] u range Suc.prems
  obtain g'' where "disk_write_block H (start + word_of_nat j) (block_of buf j) g' = Some (Ok (), g'')"
    "transfer g0 ((written_blocks (unat start) buf j c)(unat start + j := block_of buf j)) g''"
    by (auto simp: word_less_nat_alt)
  moreover have "(written_blocks (unat start) buf j c)(unat start + j := block_of buf j)
      = written_blocks (unat start) buf (Suc j) c"
    by (auto simp: written_blocks_def fun_eq_iff)
  moreover have "slice (j * BLOCK_SIZE) ((j + 1) * BLOCK_SIZE) buf = (Ok (block_of buf j) :: (FsError, u8 list) outcome)"
    using le len by (simp add: slice_Ok block_of_def)
  ultimately show ?case using foldM_snoc [OF run, of j] by auto
qed

lemma disk_read_loop:
  assumes H: "blockdev H = dev" and g: "transfer g0 c g"
    and range: "unat start + k \<le> unat (num_blocks dev (drive g0))" and len: "length buf = k * BLOCK_SIZE"
    and data: "length data = k * BLOCK_SIZE" "\<And>i. i < k \<Longrightarrow> c (unat start + i) = block_of data i"
  shows "j \<le> k \<Longrightarrow> \<exists>g'. foldM (\<lambda>i buf. bindM (liftO (slice (i * BLOCK_SIZE) ((i + 1) * BLOCK_SIZE) buf)) (\<lambda>dst.
      bindM (disk_read_block H (start + word_of_nat i) dst) (\<lambda>dst. ret (splice (i * BLOCK_SIZE) dst buf)))) [0..<j] buf g
      = Some (Ok (take (j * BLOCK_SIZE) data @ drop (j * BLOCK_SIZE) buf), g') \<and> transfer g0 c g'"
proof (induction j)
  case 0
  show ?case using g by (simp add: ret_run)
next
  case (Suc j)
  let ?buf = "take (j * BLOCK_SIZE) data @ drop (j * BLOCK_SIZE) buf"
  from Suc obtain g' where run: "foldM (\<lambda>i buf. bindM (liftO (slice (i * BLOCK_SIZE) ((i + 1) * BLOCK_SIZE) buf)) (\<lambda>dst.
      bindM (disk_read_block H (start + word_of_nat i) dst) (\<lambda>dst. ret (splice (i * BLOCK_SIZE) dst buf)))) [0..<j] buf g
      = Some (Ok ?buf, g')" and g': "transfer g0 c g'" by auto
  have u: "unat (start + word_of_nat j) = unat start + j"
    by (rule unat_lba_add [where n = "num_blocks dev (drive g0)"]) (use range Suc.prems in simp)
  have le: "(j + 1) * BLOCK_SIZE \<le> k * BLOCK_SIZE" using Suc.prems by (intro mult_le_mono1) simp
  then have jl: "length (take (j * BLOCK_SIZE) data) = j * BLOCK_SIZE" using data(1) by simp
  have lb: "length (take BLOCK_SIZE (drop (j * BLOCK_SIZE) ?buf)) = BLOCK_SIZE" using le len jl by simp
  have "start + word_of_nat j < num_blocks dev (drive g0)" using u range Suc.prems by (simp add: word_less_nat_alt)
  from disk_read_block_step [OF H g' this lb] data(2) [of j] Suc.prems u
  obtain g'' where rd: "disk_read_block H (start + word_of_nat j) (take BLOCK_SIZE (drop (j * BLOCK_SIZE) ?buf)) g'
      = Some (Ok (block_of data j), g'')" and g'': "transfer g0 c g''" by auto
  have sp: "splice (j * BLOCK_SIZE) (block_of data j) ?buf
      = take ((j + 1) * BLOCK_SIZE) data @ drop ((j + 1) * BLOCK_SIZE) buf"
    unfolding take_block_snoc using jl length_block_of [of j data] le data(1)
    by (simp add: splice_def add.commute)
  have sl: "slice (j * BLOCK_SIZE) ((j + 1) * BLOCK_SIZE) ?buf = (Ok (take BLOCK_SIZE (drop (j * BLOCK_SIZE) ?buf)) :: (FsError, u8 list) outcome)"
    using le len jl by (subst slice_Ok) simp_all
  have e: "[0..<Suc j] = [0..<j] @ [j]" by simp
  have "foldM (\<lambda>i buf. bindM (liftO (slice (i * BLOCK_SIZE) ((i + 1) * BLOCK_SIZE) buf)) (\<lambda>dst.
      bindM (disk_read_block H (start + word_of_nat i) dst) (\<lambda>dst. ret (splice (i * BLOCK_SIZE) dst buf)))) [0..<Suc j] buf g
      = Some (Ok (splice (j * BLOCK_SIZE) (block_of data j) ?buf), g'')"
    unfolding e by (subst foldM_snoc, rule run, unfold sl liftO_Ok bindM_ret, subst bindM_Ok, rule rd, rule ret_run)
  then show ?case using sp g'' by auto
qed

lemma disk0_write_run:
  assumes H: "blockdev H = dev" and g: "transfer g0 c g" and al: "aligned off data"
    and range: "unat off + length data \<le> unat (num_blocks dev (drive g0)) * BLOCK_SIZE"
  shows "\<exists>g'. disk0_write H off data g = Some (Ok (length data), g')
    \<and> transfer g0 (written_blocks (unat off div BLOCK_SIZE) data (length data div BLOCK_SIZE) c) g'"
proof (cases "data = []")
  case True
  have "written_blocks (unat off div BLOCK_SIZE) data (length data div BLOCK_SIZE) c = c"
    using True by (intro ext) (auto simp: written_blocks_def)
  with True g show ?thesis by (simp add: disk0_write_def ret_run)
next
  case False
  let ?k = "length data div BLOCK_SIZE" and ?start = "off div word_of_nat BLOCK_SIZE"
  have len: "length data = ?k * BLOCK_SIZE" using al by (auto simp: aligned_def BLOCK_SIZE_def)
  have st: "unat ?start = unat off div BLOCK_SIZE" by (simp add: unat_div BLOCK_SIZE_def)
  have "unat ?start + ?k \<le> unat (num_blocks dev (drive g0))"
    unfolding st using range by (simp add: BLOCK_SIZE_def)
  from disk_write_loop [OF H g this len order_refl] st False al show ?thesis
    by (auto simp: disk0_write_def Let_def bindM_Ok ret_run)
qed

lemma disk0_read_run:
  assumes H: "blockdev H = dev" and g: "transfer g0 c g" and al: "aligned off data"
    and range: "unat off + length data \<le> unat (num_blocks dev (drive g0)) * BLOCK_SIZE"
    and buf: "length buf = length data"
    and c: "\<And>i. i < length data div BLOCK_SIZE \<Longrightarrow> c (unat off div BLOCK_SIZE + i) = block_of data i"
  shows "\<exists>g'. disk0_read H off buf g = Some (Ok (length data, data), g') \<and> transfer g0 c g'"
proof (cases "data = []")
  case True
  with g buf show ?thesis by (simp add: disk0_read_def ret_run)
next
  case False
  let ?k = "length data div BLOCK_SIZE" and ?start = "off div word_of_nat BLOCK_SIZE"
  have len: "length data = ?k * BLOCK_SIZE" using al by (auto simp: aligned_def BLOCK_SIZE_def)
  have st: "unat ?start = unat off div BLOCK_SIZE" by (simp add: unat_div BLOCK_SIZE_def)
  have rg: "unat ?start + ?k \<le> unat (num_blocks dev (drive g0))"
    unfolding st using range by (simp add: BLOCK_SIZE_def)
  have lb: "length buf = ?k * BLOCK_SIZE" using len buf by simp
  have "c (unat ?start + i) = block_of data i" if "i < ?k" for i using c [OF that] st by simp
  from disk_read_loop [OF H g rg lb len this order_refl] len buf al False show ?thesis
    by (auto simp: disk0_read_def Let_def bindM_Ok ret_run aligned_def)
qed

lemma transfer_refl: "ok (drive g) \<Longrightarrow> transfer g (blk (drive g)) g"
  by (simp add: transfer_state_def)

lemma disk0_roundtrip_aux:
  assumes H: "blockdev H = dev" and g: "ok (drive g)" and al: "aligned off data"
    and range: "unat off + length data \<le> unat (num_blocks dev (drive g)) * BLOCK_SIZE" and buf: "length buf = length data"
  shows "\<exists>g' g''. disk0_write H off data g = Some (Ok (length data), g')
    \<and> disk0_read H off buf g' = Some (Ok (length data, data), g'')
    \<and> (\<forall>n. n < unat off div BLOCK_SIZE \<or> (unat off + length data) div BLOCK_SIZE \<le> n \<longrightarrow> blk (drive g'') n = blk (drive g) n)"
proof -
  let ?k = "length data div BLOCK_SIZE" and ?s = "unat off div BLOCK_SIZE"
  let ?c = "written_blocks ?s data ?k (blk (drive g))"
  from disk0_write_run [OF H transfer_refl [of g, OF g] al range] obtain g' where
    w: "disk0_write H off data g = Some (Ok (length data), g')" and g': "transfer g ?c g'" by blast
  from disk0_read_run [OF H g' al range buf] obtain g'' where
    r: "disk0_read H off buf g' = Some (Ok (length data, data), g'')" and g'': "transfer g ?c g''"
    by (auto simp: written_blocks_def)
  have "(unat off + length data) div BLOCK_SIZE = ?s + ?k"
    using al by (auto simp: aligned_def BLOCK_SIZE_def mod_eq_0_iff_dvd)
  then have "blk (drive g'') n = blk (drive g) n"
    if "n < ?s \<or> (unat off + length data) div BLOCK_SIZE \<le> n" for n
    using that g'' by (auto simp: transfer_state_def written_blocks_def)
  with w r show ?thesis by blast
qed

end

text \<open>
  C38: the raw disk node is faithful: on every device that meets the block-device contract, writing
  whole blocks at an aligned offset inside the disk and reading the same range back returns exactly
  the bytes written, and no block outside the range changes.
\<close>

theorem disk0_roundtrip:
  assumes "block_device (blockdev H) ok blk" "ok (drive g)" "aligned off data" "length buf = length data"
    and "unat off + length data \<le> unat (num_blocks (blockdev H) (drive g)) * 512"
  shows "\<exists>g' g''. dev_write_at H ''/disk0'' off data g = Some (Ok (length data), g')
    \<and> dev_read_at H ''/disk0'' off buf g' = Some (Ok (length data, data), g'')
    \<and> (\<forall>n. n < unat off div 512 \<or> (unat off + length data) div 512 \<le> n \<longrightarrow> blk (drive g'') n = blk (drive g) n)"
proof -
  have "dev_write_at H ''/disk0'' = disk0_write H" "dev_read_at H ''/disk0'' = disk0_read H"
    by (auto simp: dev_write_at_def dev_read_at_def flat_name_def strip_prefix_def starts_with_def node_of_def
        NODES_def node_write_def node_read_def liftO_def bindM_def fun_eq_iff)
  then show ?thesis
    using block_device.disk0_roundtrip_aux [OF assms(1) refl assms(2,3) _ assms(4)] assms(5)
    by (simp add: BLOCK_SIZE_def)
qed

definition demo_hardware :: "(image, u8 list) hardware" where
  "demo_hardware = \<lparr>blockdev = image_device, uart_send = (\<lambda>b l. l @ [b]), glyphs = tiny_font\<rparr>"

definition demo_globals :: "(image, u8 list) globals" where
  "demo_globals = \<lparr>fb_writer = None, serial1 = Some [], drive = replicate 4 (replicate 512 0), ticks = 0\<rparr>"

theorem disk0_roundtrip_witness:
  "\<exists>g' g''. dev_write_at demo_hardware ''/disk0'' 1024 (replicate 1024 7) demo_globals = Some (Ok 1024, g')
    \<and> dev_read_at demo_hardware ''/disk0'' 1024 (replicate 1024 0) g' = Some (Ok (1024, replicate 1024 7), g'')"
proof -
  have "block_device (blockdev demo_hardware) image_ok image_blk"
    by (simp add: demo_hardware_def img.block_device_axioms)
  from disk0_roundtrip [OF this, of demo_globals 1024 "replicate 1024 7" "replicate 1024 0"] show ?thesis
    by (auto simp: demo_globals_def demo_hardware_def image_ok_def aligned_def BLOCK_SIZE_def image_device_def list_all_iff)
qed

text \<open>
  \<open>/dev/null\<close> and \<open>/dev/zero\<close> swallow every write without effect, \<open>/dev/zero\<close> fills the whole
  buffer with zeros, and a write to \<open>/dev/serial0\<close> hands the bytes to the uart in order or, without
  a port, fails with \<open>Io\<close>.
\<close>

theorem dev_sinks:
  "dev_write_at H ''/null'' off data g = Some (Ok (length data), g)
   \<and> dev_write_at H ''/zero'' off data g = Some (Ok (length data), g)
   \<and> dev_read_at H ''/null'' off buf g = Some (Ok (0, buf), g)
   \<and> dev_read_at H ''/zero'' off buf g = Some (Ok (length buf, replicate (length buf) 0), g)
   \<and> dev_write_file H ''/serial0'' data g = (case serial1 g of
        None \<Rightarrow> Some (Err Io, g)
      | Some p \<Rightarrow> Some (Ok (), g\<lparr>serial1 := Some (fold (uart_send H) data p)\<rparr>))"
  by (auto simp: dev_write_at_def dev_read_at_def dev_write_file_def flat_name_def strip_prefix_def starts_with_def node_of_def
      NODES_def node_write_def node_read_def serial_write_def serial_send_def liftO_run bindM_Ok bindM_gets bindM_modify
      bindM_assoc ret_run fail_run bindM_Err map_replicate_const split: option.split)

end
