(* ===== verification/Vfs.thy ===== *)
theory Vfs
  imports Path TmpFs RamFs FatSafe DevFs
begin

text \<open>
  The virtual file system of \<^verbatim>\<open>kernel/src/fs/mod.rs\<close>: the mount table, the longest-prefix resolution
  of paths and the dispatch to the four backends. \<open>Box<dyn FileSystem>\<close> is the datatype of the
  backends the kernel has; a backend's own state (the tree of a tmpfs) lives in its mount, the
  state of the disk in the globals.

  Shown: mounting and unmounting keep the table well formed; \<open>resolve\<close> finds exactly the longest
  mounted prefix and never loses a part of the path; every backend meets the contract of the
  \<open>FileSystem\<close> trait, and so does the whole VFS; a write through a tmpfs mount is read back and
  leaves every other mount alone; and \<open>mount_root\<close> never panics.
\<close>

section \<open>Backends\<close>

datatype backend = FatBackend FatFs | RamBackend RamFs | TmpBackend TmpFs | DevBackend

type_synonym ('d, 'p, 'a) bk = "(('d, 'p) globals \<times> backend, FsError, 'a) io"

definition on_globals :: "(('d, 'p) globals, FsError, 'a) io \<Rightarrow> ('d, 'p, 'a) bk" where
  "on_globals m = on_part fst (\<lambda>g s. (g, snd s)) m"

definition on_drive :: "('d, FsError, 'a) io \<Rightarrow> ('d, 'p, 'a) bk" where
  "on_drive m = on_globals (on_part drive (\<lambda>d g. g\<lparr>drive := d\<rparr>) m)"

text \<open>A write method of the tmpfs: the result and the new tree.\<close>

definition on_tmp :: "(FsError, 'a) outcome \<times> TmpFs \<Rightarrow> ('d, 'p, 'a) bk" where
  "on_tmp x = (\<lambda>(g, _). Some (fst x, (g, TmpBackend (snd x))))"

definition bk_read_file :: "('d, 'p) hardware \<Rightarrow> string \<Rightarrow> ('d, 'p, u8 list) bk" where
  "bk_read_file H rel = bindM (gets snd) (\<lambda>b. case b of
     FatBackend fs \<Rightarrow> on_drive (Fat.read_file (blockdev H) fs rel)
   | RamBackend fs \<Rightarrow> bindM (gets (ticks \<circ> fst)) (\<lambda>t. liftO (ram_read_file t fs rel))
   | TmpBackend fs \<Rightarrow> liftO (tmp_read_file fs rel)
   | DevBackend \<Rightarrow> liftO (dev_read_file rel))"

definition bk_list_dir :: "('d, 'p) hardware \<Rightarrow> string \<Rightarrow> ('d, 'p, string list) bk" where
  "bk_list_dir H rel = bindM (gets snd) (\<lambda>b. case b of
     FatBackend fs \<Rightarrow> on_drive (Fat.list_dir (blockdev H) fs rel)
   | RamBackend fs \<Rightarrow> liftO (ram_list_dir fs rel)
   | TmpBackend fs \<Rightarrow> liftO (tmp_list_dir fs rel)
   | DevBackend \<Rightarrow> liftO (dev_list_dir rel))"

definition bk_is_dir :: "('d, 'p) hardware \<Rightarrow> string \<Rightarrow> ('d, 'p, bool) bk" where
  "bk_is_dir H rel = bindM (gets snd) (\<lambda>b. case b of
     FatBackend fs \<Rightarrow> on_drive (Fat.is_dir (blockdev H) fs rel)
   | RamBackend fs \<Rightarrow> ret (ram_is_dir fs rel)
   | TmpBackend fs \<Rightarrow> ret (tmp_is_dir fs rel)
   | DevBackend \<Rightarrow> ret (dev_is_dir rel))"

definition bk_writable :: "backend \<Rightarrow> bool" where
  "bk_writable b = (case b of FatBackend _ \<Rightarrow> True | RamBackend _ \<Rightarrow> False | TmpBackend _ \<Rightarrow> True | DevBackend \<Rightarrow> True)"

definition bk_backing :: "backend \<Rightarrow> string" where
  "bk_backing b = (case b of FatBackend _ \<Rightarrow> ''fat32 on /dev/ata1'' | RamBackend _ \<Rightarrow> ''ramfs (no data disk)''
     | TmpBackend _ \<Rightarrow> ''tmpfs'' | DevBackend \<Rightarrow> ''devfs'')"

definition bk_create_file :: "('d, 'p) hardware \<Rightarrow> string \<Rightarrow> ('d, 'p, unit) bk" where
  "bk_create_file H rel = bindM (gets snd) (\<lambda>b. case b of
     FatBackend fs \<Rightarrow> on_drive (Fat.create_file (blockdev H) fs rel)
   | RamBackend fs \<Rightarrow> liftO default_write_method
   | TmpBackend fs \<Rightarrow> on_tmp (tmp_create_file fs rel)
   | DevBackend \<Rightarrow> liftO default_write_method)"

definition bk_write_file :: "('d, 'p) hardware \<Rightarrow> string \<Rightarrow> u8 list \<Rightarrow> ('d, 'p, unit) bk" where
  "bk_write_file H rel data = bindM (gets snd) (\<lambda>b. case b of
     FatBackend fs \<Rightarrow> on_drive (Fat.write_file (blockdev H) fs rel data)
   | RamBackend fs \<Rightarrow> liftO default_write_method
   | TmpBackend fs \<Rightarrow> on_tmp (tmp_write_file fs rel data)
   | DevBackend \<Rightarrow> on_globals (dev_write_file H rel data))"

definition bk_append_file :: "('d, 'p) hardware \<Rightarrow> string \<Rightarrow> u8 list \<Rightarrow> ('d, 'p, unit) bk" where
  "bk_append_file H rel data = bindM (gets snd) (\<lambda>b. case b of
     FatBackend fs \<Rightarrow> on_drive (Fat.append_file (blockdev H) fs rel data)
   | RamBackend fs \<Rightarrow> liftO default_write_method
   | TmpBackend fs \<Rightarrow> on_tmp (tmp_append_file fs rel data)
   | DevBackend \<Rightarrow> liftO default_write_method)"

definition bk_create_dir :: "('d, 'p) hardware \<Rightarrow> string \<Rightarrow> ('d, 'p, unit) bk" where
  "bk_create_dir H rel = bindM (gets snd) (\<lambda>b. case b of
     FatBackend fs \<Rightarrow> on_drive (Fat.create_dir (blockdev H) fs rel)
   | RamBackend fs \<Rightarrow> liftO default_write_method
   | TmpBackend fs \<Rightarrow> on_tmp (tmp_create_dir fs rel)
   | DevBackend \<Rightarrow> liftO default_write_method)"

definition bk_remove :: "('d, 'p) hardware \<Rightarrow> string \<Rightarrow> ('d, 'p, unit) bk" where
  "bk_remove H rel = bindM (gets snd) (\<lambda>b. case b of
     FatBackend fs \<Rightarrow> on_drive (Fat.remove (blockdev H) fs rel)
   | RamBackend fs \<Rightarrow> liftO default_write_method
   | TmpBackend fs \<Rightarrow> on_tmp (tmp_remove fs rel)
   | DevBackend \<Rightarrow> liftO default_write_method)"

text \<open>Only devfs overrides \<open>read_at\<close> and \<open>write_at\<close>.\<close>

definition bk_read_at :: "('d, 'p) hardware \<Rightarrow> string \<Rightarrow> u64 \<Rightarrow> u8 list \<Rightarrow> ('d, 'p, nat \<times> u8 list) bk" where
  "bk_read_at H rel off buf = bindM (gets snd) (\<lambda>b. case b of
     DevBackend \<Rightarrow> on_globals (dev_read_at H rel off buf)
   | _ \<Rightarrow> bindM (bk_read_file H rel) (\<lambda>data. liftO (default_read_at (Ok data) off buf)))"

definition bk_write_at :: "('d, 'p) hardware \<Rightarrow> string \<Rightarrow> u64 \<Rightarrow> u8 list \<Rightarrow> ('d, 'p, nat) bk" where
  "bk_write_at H rel off buf = bindM (gets snd) (\<lambda>b. case b of
     DevBackend \<Rightarrow> on_globals (dev_write_at H rel off buf)
   | _ \<Rightarrow> liftO default_write_method)"

section \<open>The mount table\<close>

definition MAX_MOUNTS :: nat where
  "MAX_MOUNTS = 8"

record Mount =
  mprefix :: string
  fs :: backend

record Vfs =
  mounts :: "Mount list"

definition vfs_new :: Vfs where
  "vfs_new = \<lparr>mounts = []\<rparr>"

definition vfs_mount :: "string \<Rightarrow> backend \<Rightarrow> Vfs \<Rightarrow> (FsError, unit) outcome \<times> Vfs" where
  "vfs_mount p b v =
     (if MAX_MOUNTS \<le> length (mounts v) then (Err Unsupported, v)
      else if \<not> starts_with ''/'' p then (Err Io, v)
      else
        (let canonical = canonical_prefix p
         in if list_ex (\<lambda>m. mprefix m = canonical) (mounts v) then (Err Io, v)
            else (Ok (), v\<lparr>mounts := mounts v @ [\<lparr>mprefix = canonical, fs = b\<rparr>]\<rparr>)))"

text \<open>\<open>position\<close> and \<open>remove\<close>\<close>

fun remove_first :: "('a \<Rightarrow> bool) \<Rightarrow> 'a list \<Rightarrow> 'a list option" where
  "remove_first P [] = None"
| "remove_first P (x # xs) = (if P x then Some xs else map_option ((#) x) (remove_first P xs))"

definition vfs_unmount :: "string \<Rightarrow> Vfs \<Rightarrow> (FsError, unit) outcome \<times> Vfs" where
  "vfs_unmount p v = (case remove_first (\<lambda>m. mprefix m = canonical_prefix p) (mounts v) of
     None \<Rightarrow> (Err NotFound, v)
   | Some ms \<Rightarrow> (Ok (), v\<lparr>mounts := ms\<rparr>))"

definition vfs_mounts :: "Vfs \<Rightarrow> (string \<times> string) list" where
  "vfs_mounts v = map (\<lambda>m. (if mprefix m = [] then ''/'' else mprefix m, bk_backing (fs m))) (mounts v)"

text \<open>One iteration of the search; \<open>best\<close> is the position of the best mount so far.\<close>

definition mount_matches :: "string \<Rightarrow> Mount \<Rightarrow> bool" where
  "mount_matches path m \<longleftrightarrow> path = mprefix m
     \<or> length (mprefix m) < length path \<and> starts_with (mprefix m) path \<and> path ! length (mprefix m) = slash"

definition resolve_step :: "Mount list \<Rightarrow> string \<Rightarrow> nat \<Rightarrow> nat option \<Rightarrow> nat option" where
  "resolve_step ms path i best =
     (let m = ms ! i
      in if mprefix m = [] then (case best of None \<Rightarrow> Some i | Some b \<Rightarrow> Some b)
         else if mount_matches path m
         then (case best of
                 None \<Rightarrow> Some i
               | Some b \<Rightarrow> if length (mprefix (ms ! b)) < length (mprefix m) then Some i else Some b)
         else best)"

definition resolve :: "Vfs \<Rightarrow> string \<Rightarrow> (FsError, nat \<times> string) outcome" where
  "resolve v path =
     (if \<not> starts_with ''/'' path then Err NotFound
      else
        (case fold (resolve_step (mounts v) path) [0..<length (mounts v)] None of
           None \<Rightarrow> Err NotFound
         | Some i \<Rightarrow>
             (let m = mounts v ! i;
                  tail = drop (length (mprefix m)) path
              in Ok (i, if mprefix m = [] then path else if tail = [] then ''/'' else tail))))"

section \<open>Dispatch\<close>

record ('d, 'p) kernel =
  glob :: "('d, 'p) globals"
  vfs :: Vfs

type_synonym ('d, 'p, 'a) kio = "(('d, 'p) kernel, FsError, 'a) io"

definition set_fs :: "nat \<Rightarrow> backend \<Rightarrow> Vfs \<Rightarrow> Vfs" where
  "set_fs i b v = v\<lparr>mounts := (mounts v)[i := (mounts v ! i)\<lparr>fs := b\<rparr>]\<rparr>"

definition on_mount :: "nat \<Rightarrow> ('d, 'p, 'a) bk \<Rightarrow> ('d, 'p, 'a) kio" where
  "on_mount i m = on_part (\<lambda>k. (glob k, fs (mounts (vfs k) ! i)))
     (\<lambda>(g, b) k. k\<lparr>glob := g, vfs := set_fs i b (vfs k)\<rparr>) m"

text \<open>\<open>let (fs, rel) = self.resolve(abs)?; fs.op(&rel)\<close>\<close>

definition dispatch :: "string \<Rightarrow> (string \<Rightarrow> ('d, 'p, 'a) bk) \<Rightarrow> ('d, 'p, 'a) kio" where
  "dispatch path op = bindM (gets (\<lambda>k. resolve (vfs k) path)) (\<lambda>r.
     bindM (liftO r) (\<lambda>(i, rel). on_mount i (op rel)))"

definition vfs_read_file :: "('d, 'p) hardware \<Rightarrow> string \<Rightarrow> ('d, 'p, u8 list) kio" where
  "vfs_read_file H path = dispatch path (bk_read_file H)"

text \<open>The child mounts are appended in table order, unless their name is already listed.\<close>

definition add_child :: "string \<Rightarrow> Mount \<Rightarrow> string list \<Rightarrow> string list" where
  "add_child parent m entries = (case direct_child parent (mprefix m) of
     None \<Rightarrow> entries
   | Some child \<Rightarrow> if child \<in> set entries then entries else entries @ [child])"

definition vfs_list_dir :: "('d, 'p) hardware \<Rightarrow> string \<Rightarrow> ('d, 'p, string list) kio" where
  "vfs_list_dir H path = bindM (dispatch path (bk_list_dir H)) (\<lambda>entries.
     bindM (gets (mounts \<circ> vfs)) (\<lambda>ms.
     ret (fold (add_child (canonical_prefix path)) ms entries)))"

definition vfs_is_dir :: "('d, 'p) hardware \<Rightarrow> string \<Rightarrow> ('d, 'p, bool) kio" where
  "vfs_is_dir H path = bindM (gets vfs) (\<lambda>v.
     if list_ex (\<lambda>m. mprefix m = canonical_prefix path) (mounts v) then ret True
     else (case resolve v path of
             Ok (i, rel) \<Rightarrow> on_mount i (bk_is_dir H rel)
           | _ \<Rightarrow> ret False))"

definition vfs_writable :: "Vfs \<Rightarrow> string \<Rightarrow> bool" where
  "vfs_writable v path = (case resolve v path of Ok (i, _) \<Rightarrow> bk_writable (fs (mounts v ! i)) | _ \<Rightarrow> False)"

definition vfs_backing :: "Vfs \<Rightarrow> string \<Rightarrow> string" where
  "vfs_backing v path = (case resolve v path of Ok (i, _) \<Rightarrow> bk_backing (fs (mounts v ! i)) | _ \<Rightarrow> ''?'')"

definition vfs_create_file :: "('d, 'p) hardware \<Rightarrow> string \<Rightarrow> ('d, 'p, unit) kio" where
  "vfs_create_file H path = dispatch path (bk_create_file H)"

definition vfs_write_file :: "('d, 'p) hardware \<Rightarrow> string \<Rightarrow> u8 list \<Rightarrow> ('d, 'p, unit) kio" where
  "vfs_write_file H path data = dispatch path (\<lambda>rel. bk_write_file H rel data)"

definition vfs_append_file :: "('d, 'p) hardware \<Rightarrow> string \<Rightarrow> u8 list \<Rightarrow> ('d, 'p, unit) kio" where
  "vfs_append_file H path data = dispatch path (\<lambda>rel. bk_append_file H rel data)"

definition vfs_create_dir :: "('d, 'p) hardware \<Rightarrow> string \<Rightarrow> ('d, 'p, unit) kio" where
  "vfs_create_dir H path = dispatch path (bk_create_dir H)"

definition vfs_remove :: "('d, 'p) hardware \<Rightarrow> string \<Rightarrow> ('d, 'p, unit) kio" where
  "vfs_remove H path = dispatch path (bk_remove H)"

definition vfs_read_at :: "('d, 'p) hardware \<Rightarrow> string \<Rightarrow> u64 \<Rightarrow> u8 list \<Rightarrow> ('d, 'p, nat \<times> u8 list) kio" where
  "vfs_read_at H path off buf = dispatch path (\<lambda>rel. bk_read_at H rel off buf)"

definition vfs_write_at :: "('d, 'p) hardware \<Rightarrow> string \<Rightarrow> u64 \<Rightarrow> u8 list \<Rightarrow> ('d, 'p, nat) kio" where
  "vfs_write_at H path off buf = dispatch path (\<lambda>rel. bk_write_at H rel off buf)"

section \<open>The boot mounts\<close>

definition fs_error_debug :: "FsError \<Rightarrow> string" where
  "fs_error_debug e = (case e of NotFound \<Rightarrow> ''NotFound'' | NotADir \<Rightarrow> ''NotADir'' | IsADir \<Rightarrow> ''IsADir''
     | Io \<Rightarrow> ''Io'' | Unsupported \<Rightarrow> ''Unsupported'')"

definition block_error_debug :: "BlockError \<Rightarrow> string" where
  "block_error_debug e = (case e of Timeout \<Rightarrow> ''Timeout'' | DriveError \<Rightarrow> ''DriveError'' | OutOfRange \<Rightarrow> ''OutOfRange'')"

definition serial_println :: "('d, 'p) hardware \<Rightarrow> string \<Rightarrow> (('d, 'p) globals, 'e, unit) io" where
  "serial_println H s = serial_print H (s @ [CHR 0x0A])"

text \<open>The root file system: the disk when it answers and holds a FAT volume, the seed tree otherwise.\<close>

definition root_backend :: "('d, 'p) hardware \<Rightarrow> ('d, BlockError, unit) io \<Rightarrow> ('d, 'p, backend) sys" where
  "root_backend H disk_init =
     attempt (on_part drive (\<lambda>d g. g\<lparr>drive := d\<rparr>) disk_init) (\<lambda>r. case r of
       Inr _ \<Rightarrow>
         attempt (on_part drive (\<lambda>d g. g\<lparr>drive := d\<rparr>) (Fat.mount (blockdev H))) (\<lambda>r. case r of
           Inr fat \<Rightarrow>
             bindM (serial_println H ''[fs] mounted FAT32 on primary IDE slave'') (\<lambda>_. ret (FatBackend fat))
         | Inl e \<Rightarrow>
             bindM (serial_println H (''[fs] FAT mount failed ('' @ fs_error_debug e @ ''); falling back to ramfs''))
               (\<lambda>_. ret (RamBackend ram_seed)))
     | Inl e \<Rightarrow>
         bindM (serial_println H (''[fs] no data disk on primary IDE slave ('' @ block_error_debug e @ ''); using ramfs''))
           (\<lambda>_. ret (RamBackend ram_seed)))"

text \<open>\<open>vfs.mount(prefix, fs).expect(...)\<close>\<close>

definition mount_expect :: "string \<Rightarrow> backend \<Rightarrow> Vfs \<Rightarrow> ('s, FsError, Vfs) io" where
  "mount_expect p b v = (case vfs_mount p b v of (Ok _, v') \<Rightarrow> ret v' | _ \<Rightarrow> panic)"

definition mount_root :: "('d, 'p) hardware \<Rightarrow> ('d, BlockError, unit) io \<Rightarrow> ('d, 'p, Vfs) sys" where
  "mount_root H disk_init = bindM (root_backend H disk_init) (\<lambda>root.
     bindM (mount_expect ''/'' root vfs_new) (\<lambda>v.
     bindM (mount_expect ''/tmp'' (TmpBackend tmp_new) v) (\<lambda>v.
     bindM (mount_expect ''/dev'' DevBackend v) (\<lambda>v.
     mount_expect ''/ram'' (RamBackend ram_seed) v))))"

section \<open>The invariant of the table\<close>

text \<open>A prefix as the table stores it: empty for the root, otherwise \<open>/\<close>-led without a trailing \<open>/\<close>.\<close>

definition prefix_ok :: "string \<Rightarrow> bool" where
  "prefix_ok p \<longleftrightarrow> p = [] \<or> hd p = slash \<and> last p \<noteq> slash"

definition table_ok :: "Vfs \<Rightarrow> bool" where
  "table_ok v \<longleftrightarrow> length (mounts v) \<le> MAX_MOUNTS \<and> distinct (map mprefix (mounts v))
     \<and> list_all prefix_ok (map mprefix (mounts v))"

lemma canonical_prefix_trim: "canonical_prefix p = trim_end_matches slash p"
  by (auto simp: canonical_prefix_def trim_end_matches_def)

lemma trim_end_matches_hd: "trim_end_matches c p \<noteq> [] \<Longrightarrow> hd (trim_end_matches c p) = hd p"
  using trim_end_matches_decomp [of p c] by (metis hd_append)

lemma prefix_ok_canonical: "starts_with ''/'' p \<Longrightarrow> prefix_ok (canonical_prefix p)"
  using trim_end_matches_last [of slash p] trim_end_matches_hd [of slash p]
  by (cases p) (auto simp: canonical_prefix_trim prefix_ok_def starts_with_def)

lemma remove_first_None: "remove_first P xs = None \<longleftrightarrow> (\<forall>x\<in>set xs. \<not> P x)"
  by (induction xs) auto

lemma remove_first_split: "remove_first P xs = Some ys \<longleftrightarrow>
  (\<exists>as x bs. xs = as @ x # bs \<and> ys = as @ bs \<and> P x \<and> (\<forall>a\<in>set as. \<not> P a))" (is "_ \<longleftrightarrow> ?R")
proof (induction xs arbitrary: ys)
  case (Cons z zs)
  show ?case
  proof (cases "P z")
    case True
    have "ys = zs" if "z # zs = as @ x # bs" "ys = as @ bs" "\<forall>a\<in>set as. \<not> P a" for as x bs
      using that True by (cases as) auto
    with True show ?thesis by (auto intro: exI [of _ "[]"])
  next
    case False
    have "(\<exists>as x bs. z # zs = as @ x # bs \<and> ys = as @ bs \<and> P x \<and> (\<forall>a\<in>set as. \<not> P a)) \<longleftrightarrow>
        (\<exists>ys'. ys = z # ys' \<and> (\<exists>as x bs. zs = as @ x # bs \<and> ys' = as @ bs \<and> P x \<and> (\<forall>a\<in>set as. \<not> P a)))"
      (is "?L \<longleftrightarrow> ?S")
    proof
      assume ?L
      then obtain as x bs where *: "z # zs = as @ x # bs" "ys = as @ bs" "P x" "\<forall>a\<in>set as. \<not> P a" by blast
      with False obtain as' where "as = z # as'" by (cases as) auto
      with * show ?S by auto
    next
      assume ?S
      then obtain as x bs where "zs = as @ x # bs" "ys = z # as @ bs" "P x" "\<forall>a\<in>set as. \<not> P a" by blast
      with False show ?L by (intro exI [of _ "z # as"] exI [of _ x] exI [of _ bs]) auto
    qed
    with False Cons.IH show ?thesis by auto
  qed
qed simp

lemma remove_first_snoc: "(\<forall>a\<in>set as. \<not> P a) \<Longrightarrow> P x \<Longrightarrow> remove_first P (as @ [x]) = Some as"
  by (auto simp: remove_first_split)

lemma table_ok_new: "table_ok vfs_new"
  by (simp add: table_ok_def vfs_new_def)

lemma vfs_mount_table_ok: "table_ok v \<Longrightarrow> table_ok (snd (vfs_mount p b v))"
  by (auto simp: vfs_mount_def table_ok_def Let_def list_ex_iff prefix_ok_canonical)

lemma vfs_unmount_table_ok: "table_ok v \<Longrightarrow> table_ok (snd (vfs_unmount p v))"
  by (auto simp: vfs_unmount_def table_ok_def remove_first_split split: option.split)

lemma set_fs_prefixes [simp]:
  "map mprefix (mounts (set_fs i b v)) = map mprefix (mounts v)" "length (mounts (set_fs i b v)) = length (mounts v)"
  using list_update_id [of "map mprefix (mounts v)" i]
  by (cases "i < length (mounts v)") (simp_all add: set_fs_def map_update not_less list_update_beyond)

lemma set_fs_table_ok [simp]: "table_ok (set_fs i b v) \<longleftrightarrow> table_ok v"
  by (simp only: table_ok_def set_fs_prefixes)

text \<open>A history of the table.\<close>

datatype mount_op = MountOp string backend | UnmountOp string

fun mount_step :: "mount_op \<Rightarrow> Vfs \<Rightarrow> Vfs" where
  "mount_step (MountOp p b) v = snd (vfs_mount p b v)"
| "mount_step (UnmountOp p) v = snd (vfs_unmount p v)"

lemma mount_step_table_ok: "table_ok v \<Longrightarrow> table_ok (mount_step op v)"
  by (cases op) (simp_all add: vfs_mount_table_ok vfs_unmount_table_ok)

lemma mount_steps_table_ok: "table_ok v \<Longrightarrow> table_ok (fold mount_step ops v)"
  by (induction ops arbitrary: v) (simp_all add: mount_step_table_ok)

text \<open>
  C39: after any sequence of mounts and unmounts, successful or not, the table holds at most eight
  mounts with pairwise different prefixes, each stored without a trailing slash; and on such a
  table unmounting what was just mounted restores the table exactly.
\<close>

theorem mount_table_invariant:
  "table_ok (fold mount_step ops vfs_new)
   \<and> (fst (vfs_mount p b (fold mount_step ops vfs_new)) = Ok () \<longrightarrow>
      vfs_unmount p (snd (vfs_mount p b (fold mount_step ops vfs_new))) = (Ok (), fold mount_step ops vfs_new))"
proof
  let ?v = "fold mount_step ops vfs_new"
  show "table_ok ?v" by (rule mount_steps_table_ok [OF table_ok_new])
  show "fst (vfs_mount p b ?v) = Ok () \<longrightarrow> vfs_unmount p (snd (vfs_mount p b ?v)) = (Ok (), ?v)"
    by (auto simp: vfs_mount_def vfs_unmount_def Let_def list_ex_iff remove_first_snoc)
qed

theorem mount_table_invariant_witness:
  "fst (vfs_mount ''/tmp/'' (TmpBackend tmp_new) (fold mount_step [MountOp ''/'' DevBackend, MountOp ''tmp'' DevBackend] vfs_new)) = Ok ()
   \<and> vfs_unmount ''/tmp/'' (snd (vfs_mount ''/tmp/'' (TmpBackend tmp_new)
        (fold mount_step [MountOp ''/'' DevBackend, MountOp ''tmp'' DevBackend] vfs_new)))
     = (Ok (), fold mount_step [MountOp ''/'' DevBackend, MountOp ''tmp'' DevBackend] vfs_new)"
proof -
  have "fst (vfs_mount ''/tmp/'' (TmpBackend tmp_new)
      (fold mount_step [MountOp ''/'' DevBackend, MountOp ''tmp'' DevBackend] vfs_new)) = Ok ()"
    by code_simp
  with mount_table_invariant [of "[MountOp ''/'' DevBackend, MountOp ''tmp'' DevBackend]" "''/tmp/''" "TmpBackend tmp_new"]
  show ?thesis by blast
qed

section \<open>Resolution\<close>

text \<open>The paths below a stored prefix.\<close>

definition covers :: "string \<Rightarrow> string \<Rightarrow> bool" where
  "covers p path \<longleftrightarrow> p = [] \<or> path = p \<or> (\<exists>t. path = p @ slash # t)"

text \<open>What is left of the path below the prefix.\<close>

definition below :: "string \<Rightarrow> string \<Rightarrow> string" where
  "below p path = (if path = p \<and> p \<noteq> [] then ''/'' else drop (length p) path)"

lemma mount_matches_covers: "mprefix m \<noteq> [] \<Longrightarrow> mount_matches path m \<longleftrightarrow> covers (mprefix m) path"
proof -
  assume ne: "mprefix m \<noteq> []"
  have "length p < length path \<and> starts_with p path \<and> path ! length p = slash \<longleftrightarrow> (\<exists>t. path = p @ slash # t)" for p
  proof
    assume *: "length p < length path \<and> starts_with p path \<and> path ! length p = slash"
    then obtain r where "path = p @ r" by (auto simp: str_simps prefix_def)
    with * show "\<exists>t. path = p @ slash # t" by (cases r) auto
  qed (auto simp: str_simps)
  with ne show ?thesis by (auto simp: mount_matches_def covers_def)
qed

text \<open>The search among the first \<open>n\<close> mounts.\<close>

definition is_best :: "Mount list \<Rightarrow> string \<Rightarrow> nat \<Rightarrow> nat option \<Rightarrow> bool" where
  "is_best ms path n r \<longleftrightarrow> (case r of
     None \<Rightarrow> \<forall>j<n. \<not> covers (mprefix (ms ! j)) path
   | Some i \<Rightarrow> i < n \<and> covers (mprefix (ms ! i)) path
       \<and> (\<forall>j<n. covers (mprefix (ms ! j)) path \<longrightarrow> length (mprefix (ms ! j)) \<le> length (mprefix (ms ! i))))"

lemma resolve_step_best: "is_best ms path n r \<Longrightarrow> is_best ms path (Suc n) (resolve_step ms path n r)"
proof -
  assume r: "is_best ms path n r"
  show ?thesis
  proof (cases "covers (mprefix (ms ! n)) path")
    case False
    then have "mprefix (ms ! n) \<noteq> []" by (auto simp: covers_def)
    with False have "resolve_step ms path n r = r"
      by (simp add: resolve_step_def Let_def mount_matches_covers)
    with r False show ?thesis by (auto simp: is_best_def less_Suc_eq split: option.splits)
  next
    case True
    then have "resolve_step ms path n r = (case r of None \<Rightarrow> Some n
        | Some b \<Rightarrow> if length (mprefix (ms ! b)) < length (mprefix (ms ! n)) then Some n else Some b)"
      by (simp add: resolve_step_def Let_def mount_matches_covers split: option.split)
    with r True show ?thesis by (fastforce simp: is_best_def less_Suc_eq split: option.splits)
  qed
qed

lemma resolve_fold_best: "is_best ms path n (fold (resolve_step ms path) [0..<n] None)"
  by (induction n) (simp_all add: resolve_step_best, simp add: is_best_def)

lemma covers_decomp: "covers p path \<Longrightarrow> \<exists>r. path = p @ r"
  by (auto simp: covers_def)

lemma covers_eqI: "covers p path \<Longrightarrow> covers q path \<Longrightarrow> length p = length q \<Longrightarrow> p = q"
  by (metis append_eq_append_conv covers_decomp)

lemma resolve_iff:
  assumes "table_ok v" "starts_with ''/'' path"
  shows "resolve v path = Ok (i, rel) \<longleftrightarrow>
      i < length (mounts v) \<and> covers (mprefix (mounts v ! i)) path
      \<and> (\<forall>m\<in>set (mounts v). covers (mprefix m) path \<longrightarrow> length (mprefix m) \<le> length (mprefix (mounts v ! i)))
      \<and> rel = below (mprefix (mounts v ! i)) path"
    and "resolve v path = Err NotFound \<longleftrightarrow> (\<forall>m\<in>set (mounts v). \<not> covers (mprefix m) path)"
    and "\<not> panics (resolve v path)"
proof -
  let ?r = "fold (resolve_step (mounts v) path) [0..<length (mounts v)] None"
  note best = resolve_fold_best [of "mounts v" path "length (mounts v)"]
  have rel: "(if mprefix m = [] then path else if drop (length (mprefix m)) path = [] then ''/''
      else drop (length (mprefix m)) path) = below (mprefix m) path" if "covers (mprefix m) path" for m
    using covers_decomp [OF that] by (auto simp: below_def)
  have dist: "distinct (map mprefix (mounts v))" using assms by (simp add: table_ok_def)
  show "\<not> panics (resolve v path)"
    by (auto simp: resolve_def Let_def split: option.splits)
  show "resolve v path = Err NotFound \<longleftrightarrow> (\<forall>m\<in>set (mounts v). \<not> covers (mprefix m) path)"
    using best assms(2)
    by (auto simp: resolve_def Let_def is_best_def all_set_conv_all_nth split: option.splits)
  show "resolve v path = Ok (i, rel) \<longleftrightarrow>
      i < length (mounts v) \<and> covers (mprefix (mounts v ! i)) path
      \<and> (\<forall>m\<in>set (mounts v). covers (mprefix m) path \<longrightarrow> length (mprefix m) \<le> length (mprefix (mounts v ! i)))
      \<and> rel = below (mprefix (mounts v ! i)) path"
  proof (cases ?r)
    case None
    with best show ?thesis using assms(2) by (auto simp: resolve_def is_best_def)
  next
    case (Some k)
    with best have k: "k < length (mounts v)" "covers (mprefix (mounts v ! k)) path"
      "\<forall>m\<in>set (mounts v). covers (mprefix m) path \<longrightarrow> length (mprefix m) \<le> length (mprefix (mounts v ! k))"
      by (auto simp: is_best_def in_set_conv_nth)
    have uniq: "i = k" if "i < length (mounts v)" "covers (mprefix (mounts v ! i)) path"
      "\<forall>m\<in>set (mounts v). covers (mprefix m) path \<longrightarrow> length (mprefix m) \<le> length (mprefix (mounts v ! i))"
    proof -
      have "length (mprefix (mounts v ! i)) = length (mprefix (mounts v ! k))"
        using that k by (meson le_antisym nth_mem)
      then have "mprefix (mounts v ! i) = mprefix (mounts v ! k)" using covers_eqI that k by blast
      with dist that k show ?thesis by (simp add: distinct_conv_nth) metis
    qed
    have "resolve v path = Ok (k, below (mprefix (mounts v ! k)) path)"
      using Some assms(2) rel [OF k(2)] by (simp add: resolve_def Let_def)
    with k uniq show ?thesis by auto
  qed
qed

lemma below_slash: "starts_with ''/'' path \<Longrightarrow> covers p path \<Longrightarrow> starts_with ''/'' (below p path)"
  by (auto simp: below_def covers_def str_simps)

lemma segments_below: "covers p path \<Longrightarrow> segments path = segments p @ segments (below p path)"
  by (auto simp: below_def covers_def segments_append_slash)

text \<open>
  C21: \<open>resolve\<close> is longest-prefix matching at path boundaries: on a well-formed table and an absolute
  path it returns mount \<open>i\<close> with the rest \<open>rel\<close> exactly when \<open>i\<close> is the mount with the longest
  prefix covering the path and \<open>rel\<close> is what the path has below that prefix, and \<open>NotFound\<close>
  exactly when no mount covers the path; it never panics on a slice. The rest is
  again an absolute path, and its segments are those the prefix leaves of the path.
\<close>

theorem resolve_longest_prefix:
  assumes "table_ok v" "starts_with ''/'' path"
  shows "(resolve v path = Ok (i, rel) \<longleftrightarrow>
      i < length (mounts v) \<and> covers (mprefix (mounts v ! i)) path
      \<and> (\<forall>m\<in>set (mounts v). covers (mprefix m) path \<longrightarrow> length (mprefix m) \<le> length (mprefix (mounts v ! i)))
      \<and> rel = below (mprefix (mounts v ! i)) path)
    \<and> (resolve v path = Err NotFound \<longleftrightarrow> (\<forall>m\<in>set (mounts v). \<not> covers (mprefix m) path))
    \<and> \<not> panics (resolve v path)
    \<and> (resolve v path = Ok (i, rel) \<longrightarrow>
        starts_with ''/'' rel \<and> segments path = segments (mprefix (mounts v ! i)) @ segments rel)"
  using resolve_iff [OF assms] below_slash [OF assms(2)] segments_below by (metis (lifting))

theorem resolve_longest_prefix_witness:
  "table_ok (fold mount_step [MountOp ''/'' DevBackend, MountOp ''/tmp'' (TmpBackend tmp_new)] vfs_new)
   \<and> covers ''/tmp'' ''/tmp/log'' \<and> below ''/tmp'' ''/tmp/log'' = ''/log''
   \<and> resolve (fold mount_step [MountOp ''/'' DevBackend, MountOp ''/tmp'' (TmpBackend tmp_new)] vfs_new) ''/tmp/log''
       = Ok (1, ''/log'')"
proof -
  let ?v = "fold mount_step [MountOp ''/'' DevBackend, MountOp ''/tmp'' (TmpBackend tmp_new)] vfs_new"
  have v: "?v = \<lparr>mounts = [\<lparr>mprefix = [], fs = DevBackend\<rparr>, \<lparr>mprefix = ''/tmp'', fs = TmpBackend tmp_new\<rparr>]\<rparr>"
    by (simp add: vfs_new_def vfs_mount_def MAX_MOUNTS_def starts_with_def canonical_prefix_def trim_end_matches_def)
  have ok: "table_ok ?v" by (rule mount_steps_table_ok [OF table_ok_new])
  have c: "covers ''/tmp'' ''/tmp/log''" "below ''/tmp'' ''/tmp/log'' = ''/log''"
    by (simp_all add: covers_def below_def)
  with resolve_longest_prefix [OF ok, of "''/tmp/log''" 1 "''/log''"] have "resolve ?v ''/tmp/log'' = Ok (1, ''/log'')"
    unfolding v by (simp add: starts_with_def)
  with ok c show ?thesis by blast
qed

section \<open>The contract of the FileSystem trait\<close>

text \<open>
  What the callers of a file system rely on, over the states \<open>good\<close> describes: listing never says
  \<open>IsADir\<close> (the shell's \<open>ls\<close> calls that case unreachable), what can be listed is a directory, what
  can be read is not, and the root of a file system is not a file.
\<close>

locale file_system =
  fixes good :: "'s \<Rightarrow> bool"
    and rd :: "string \<Rightarrow> ('s, FsError, u8 list) io"
    and ls :: "string \<Rightarrow> ('s, FsError, string list) io"
    and isd :: "string \<Rightarrow> ('s, FsError, bool) io"
  assumes ls_not_IsADir: "good s \<Longrightarrow> ls p s \<noteq> Some (Err IsADir, s')"
    and ls_dir: "good s \<Longrightarrow> ls p s = Some (Ok es, s') \<Longrightarrow> \<exists>s''. isd p s = Some (Ok True, s'')"
    and rd_file: "good s \<Longrightarrow> rd p s = Some (Ok b, s') \<Longrightarrow> \<exists>s''. isd p s = Some (Ok False, s'')"
    and rd_root: "good s \<Longrightarrow> segments p = [] \<Longrightarrow> rd p s \<noteq> Some (Ok b, s')"
    and isd_no_Err: "good s \<Longrightarrow> isd p s \<noteq> Some (Err e, s')"
    and rd_good: "good s \<Longrightarrow> rd p s = Some (r, s') \<Longrightarrow> good s'"
    and ls_good: "good s \<Longrightarrow> ls p s = Some (q, s') \<Longrightarrow> good s'"
    and isd_good: "good s \<Longrightarrow> isd p s = Some (d, s') \<Longrightarrow> good s'"
begin

lemma rd_ls_exclusive: "good s \<Longrightarrow> rd p s = Some (Ok b, s') \<Longrightarrow> ls p s \<noteq> Some (Ok es, s'')"
  using ls_dir rd_file by fastforce

end

text \<open>The errors of the FAT driver's lookups.\<close>

lemma errors_in_liftO: "(\<And>e. r = Err e \<Longrightarrow> e \<in> E) \<Longrightarrow> errors_in E (liftO r)"
  by (auto simp: errors_in_def liftO_run)

lemma errors_in_drive_read: "Io \<in> E \<Longrightarrow> errors_in E (drive_read dev lba buf)"
  unfolding drive_read_def by (auto intro!: err_intros errors_in_fail split: sum.split prod.split)

lemma errors_in_positions: "errors_in E (cluster_to_lba vol c)" "errors_in E (fat_position vol c)"
  unfolding cluster_to_lba_def fat_position_def
  by (auto intro!: err_intros errors_in_liftO simp: chk_defs split: if_splits)

lemma errors_in_next_cluster: "Io \<in> E \<Longrightarrow> errors_in E (next_cluster dev vol c)"
  unfolding next_cluster_def Let_def
  by (auto intro!: err_intros errors_in_liftO errors_in_drive_read errors_in_positions simp: le32_at_def split: if_splits prod.split)

lemma errors_in_read_cluster: "Io \<in> E \<Longrightarrow> errors_in E (read_cluster dev vol lba)"
  unfolding read_cluster_def Let_def by (auto intro!: err_intros errors_in_drive_read)

lemma errors_in_read_dir: "Io \<in> E \<Longrightarrow> errors_in E (read_dir dev vol c)"
  unfolding read_dir_def read_chain_def read_chain_body_def
  by (auto intro!: err_intros errors_in_read_cluster errors_in_next_cluster errors_in_positions split: prod.split)

lemma errors_in_lookup_segs: "{NotFound, NotADir, Io} \<subseteq> E \<Longrightarrow> errors_in E (lookup_segs dev vol i segs c found)"
proof (induction segs arbitrary: i c found)
  case (Cons seg segs)
  then show ?case unfolding lookup_segs.simps
    by (auto intro!: err_intros errors_in_fail errors_in_read_dir split: option.split)
qed (auto intro!: err_intros errors_in_fail split: option.split)

lemma errors_in_lookup: "{NotFound, NotADir, Io} \<subseteq> E \<Longrightarrow> errors_in E (Fat.lookup dev vol p)"
  unfolding lookup_def by (auto intro!: err_intros errors_in_lookup_segs)

lemma errors_in_list_dir: "errors_in {NotFound, NotADir, Io} (Fat.list_dir dev vol p)"
  unfolding list_dir_def by (auto intro!: err_intros errors_in_lookup errors_in_fail errors_in_read_dir)

lemma lookup_dir_cases:
  assumes "Fat.list_dir dev vol p d = Some (Ok es, d')"
  shows "\<exists>d''. Fat.is_dir dev vol p d = Some (Ok True, d'')"
  using assms unfolding list_dir_def is_dir_def
  by (auto elim!: bindM_OkE simp: attempt_Ok ret_run fail_run split: if_splits)

lemma lookup_file_cases:
  assumes "Fat.read_file dev vol p d = Some (Ok b, d')"
  shows "(\<exists>d''. Fat.is_dir dev vol p d = Some (Ok False, d'')) \<and> segments p \<noteq> []"
proof -
  from assms obtain e d1 where e: "Fat.lookup dev vol p d = Some (Ok e, d1)" "\<not> de_is_dir e"
    unfolding read_file_def by (auto elim!: bindM_OkE simp: fail_run split: if_splits)
  then have "segments p \<noteq> []"
    by (auto simp: lookup_def ret_run fail_run split: if_splits)
  with e show ?thesis by (simp add: is_dir_def attempt_Ok ret_run)
qed

text \<open>The roots of the trees in memory are directories, and a FAT volume is one \<open>mount\<close> accepts.\<close>

definition backend_ok :: "backend \<Rightarrow> bool" where
  "backend_ok b \<longleftrightarrow> (case b of
     TmpBackend t \<Rightarrow> kind (TmpFs.root t) = DirE
   | RamBackend r \<Rightarrow> (case ram_root r of RDir _ \<Rightarrow> True | _ \<Rightarrow> False)
   | FatBackend vol \<Rightarrow> vol_ok vol
   | DevBackend \<Rightarrow> True)"

lemma on_globals_run: "on_globals m (g, b) = map_option (\<lambda>(r, g'). (r, (g', b))) (m g)"
  by (cases "m g") (auto simp: on_globals_def on_part_def)

lemma on_drive_run: "on_drive m (g, b) = map_option (\<lambda>(r, d). (r, (g\<lparr>drive := d\<rparr>, b))) (m (drive g))"
  by (cases "m (drive g)") (auto simp: on_drive_def on_globals_run on_part_def)

lemma bk_read_file_run: "bk_read_file H p (g, b) = (case b of
     FatBackend vol \<Rightarrow> on_drive (Fat.read_file (blockdev H) vol p) (g, b)
   | RamBackend r \<Rightarrow> Some (ram_read_file (ticks g) r p, (g, b))
   | TmpBackend t \<Rightarrow> Some (tmp_read_file t p, (g, b))
   | DevBackend \<Rightarrow> Some (dev_read_file p, (g, b)))"
  by (simp add: bk_read_file_def bindM_gets liftO_run split: backend.split)

lemma bk_list_dir_run: "bk_list_dir H p (g, b) = (case b of
     FatBackend vol \<Rightarrow> on_drive (Fat.list_dir (blockdev H) vol p) (g, b)
   | RamBackend r \<Rightarrow> Some (ram_list_dir r p, (g, b))
   | TmpBackend t \<Rightarrow> Some (tmp_list_dir t p, (g, b))
   | DevBackend \<Rightarrow> Some (dev_list_dir p, (g, b)))"
  by (simp add: bk_list_dir_def bindM_gets liftO_run split: backend.split)

lemma bk_is_dir_run: "bk_is_dir H p (g, b) = (case b of
     FatBackend vol \<Rightarrow> on_drive (Fat.is_dir (blockdev H) vol p) (g, b)
   | RamBackend r \<Rightarrow> Some (Ok (ram_is_dir r p), (g, b))
   | TmpBackend t \<Rightarrow> Some (Ok (tmp_is_dir t p), (g, b))
   | DevBackend \<Rightarrow> Some (Ok (dev_is_dir p), (g, b)))"
  by (simp add: bk_is_dir_def bindM_gets ret_run split: backend.split)

lemmas bk_runs = bk_read_file_run bk_list_dir_run bk_is_dir_run

lemma bk_reads_keep:
  "bk_read_file H p (g, b) = Some (r, (g', b')) \<Longrightarrow> b' = b"
  "bk_list_dir H p (g, b) = Some (q, (g', b')) \<Longrightarrow> b' = b"
  "bk_is_dir H p (g, b) = Some (d, (g', b')) \<Longrightarrow> b' = b"
  by (auto simp: bk_runs on_drive_run split: backend.splits)

lemma fat_is_dir_no_Err: "Fat.is_dir dev vol p d \<noteq> Some (Err e, d')"
  by (auto simp: is_dir_def ret_run elim!: attempt_cases split: sum.splits)

lemma segments_NilD: "segments p = [] \<Longrightarrow> set p \<subseteq> {slash}"
proof (induction p rule: length_induct)
  case (1 p)
  show ?case
  proof (cases "slash \<in> set p")
    case True
    then obtain a b where p: "p = a @ slash # b" by (meson split_list)
    with 1(2) have "segments a = []" "segments b = []" by (simp_all add: segments_append_slash)
    with 1(1) p have "set a \<subseteq> {slash}" "set b \<subseteq> {slash}" by auto
    with p show ?thesis by simp
  next
    case False
    with 1(2) have "p = []" using segments_single [of p] by auto
    then show ?thesis by simp
  qed
qed

lemma flat_name_root: "segments p = [] \<Longrightarrow> flat_name p = Ok name \<Longrightarrow> name = []"
proof -
  assume "segments p = []" and n: "flat_name p = Ok name"
  then have "set p \<subseteq> {slash}" by (simp add: segments_NilD)
  moreover have "set name \<subseteq> set p" "slash \<notin> set name"
    using n by (auto simp: flat_name_def Let_def strip_prefix_Some split: if_splits option.splits)
  ultimately show ?thesis by (cases name) auto
qed

lemma tmp_walk_not_IsADir: "TmpFs.walk n p \<noteq> Err IsADir"
  by (induction n p rule: TmpFs.walk.induct) (auto split: node.splits option.splits)

lemma list_dir_not_IsADir:
  "Fat.list_dir dev vol p d \<noteq> Some (Err IsADir, d')" "ram_list_dir r p \<noteq> Err IsADir"
  "tmp_list_dir t p \<noteq> Err IsADir" "dev_list_dir p \<noteq> Err IsADir"
  using errors_inD [OF errors_in_list_dir, of dev vol p d IsADir d'] tmp_walk_not_IsADir flat_name_Ok(2) [of p]
  by (auto simp: ram_list_dir_def tmp_list_dir_def dev_list_dir_def
      split: outcome.splits ram_node.splits node.splits if_splits)

interpretation bk: file_system "\<lambda>s. backend_ok (snd s)" "bk_read_file H" "bk_list_dir H" "bk_is_dir H" for H
proof (unfold_locales, goal_cases)
  case (1 s p s')
  then show ?case
    by (cases s) (auto simp: bk_runs on_drive_run list_dir_not_IsADir split: backend.splits)
next
  case (2 s p es s')
  then show ?case
    by (cases s) (auto simp: bk_runs on_drive_run ram_list_dir_def tmp_list_dir_def dev_list_dir_def
        ram_is_dir_def tmp_is_dir_def dev_is_dir_def
        split: backend.splits outcome.splits ram_node.splits node.splits if_splits dest: lookup_dir_cases)
next
  case (3 s p b s')
  then show ?case
    by (cases s) (auto simp: bk_runs on_drive_run ram_read_file_def tmp_read_file_def dev_read_file_def
        ram_is_dir_def tmp_is_dir_def dev_is_dir_def
        split: backend.splits outcome.splits ram_node.splits node.splits if_splits dest: lookup_file_cases)
next
  case (4 s p b s')
  then show ?case
    by (cases s) (auto simp: bk_runs on_drive_run ram_read_file_def tmp_read_file_def dev_read_file_def ram_lookup_def
        backend_ok_def flat_name_root
        split: backend.splits outcome.splits ram_node.splits node.splits if_splits dest!: lookup_file_cases flat_name_root)
next
  case (5 s p e s')
  then show ?case
    by (cases s) (auto simp: bk_runs on_drive_run fat_is_dir_no_Err split: backend.splits)
qed (auto dest: bk_reads_keep)

section \<open>The VFS is a file system\<close>

definition vfs_good :: "('d, 'p) kernel \<Rightarrow> bool" where
  "vfs_good k \<longleftrightarrow> table_ok (vfs k) \<and> (\<forall>m\<in>set (mounts (vfs k)). backend_ok (fs m))"

lemma on_mount_run:
  "on_mount i m k = map_option (\<lambda>(r, (g, b)). (r, k\<lparr>glob := g, vfs := set_fs i b (vfs k)\<rparr>)) (m (glob k, fs (mounts (vfs k) ! i)))"
  by (cases "m (glob k, fs (mounts (vfs k) ! i))") (auto simp: on_mount_def on_part_def split: prod.splits)

lemma dispatch_run: "dispatch p op k = (case resolve (vfs k) p of
     Ok (i, rel) \<Rightarrow> on_mount i (op rel) k | Err e \<Rightarrow> Some (Err e, k) | Panic c \<Rightarrow> Some (Panic c, k))"
  by (auto simp: dispatch_def bindM_gets liftO_run bindM_Ok bindM_Err bindM_Panic split: outcome.split prod.split)

lemma resolve_Err: "resolve v p = Err e \<Longrightarrow> e = NotFound"
  by (auto simp: resolve_def Let_def split: if_splits option.splits)

lemma resolve_no_Panic [simp]: "resolve v p \<noteq> Panic c"
  by (auto simp: resolve_def Let_def split: option.splits)

lemma resolve_abs: "resolve v p = Ok x \<Longrightarrow> starts_with ''/'' p"
  by (auto simp: resolve_def split: if_splits)

lemma resolve_OkD:
  assumes "table_ok v" "resolve v p = Ok (i, rel)"
  shows "i < length (mounts v)" "covers (mprefix (mounts v ! i)) p" "rel = below (mprefix (mounts v ! i)) p"
    "\<And>m. m \<in> set (mounts v) \<Longrightarrow> covers (mprefix m) p \<Longrightarrow> length (mprefix m) \<le> length (mprefix (mounts v ! i))"
  using resolve_iff(1) [OF assms(1) resolve_abs [OF assms(2)]] assms(2) by auto

lemma segments_slashes [simp]: "segments (q @ replicate n slash) = segments q"
proof (cases n)
  case (Suc k)
  have "segments (replicate k slash) = []" for k by (induction k) simp_all
  with Suc show ?thesis by (simp add: segments_append_slash)
qed simp

text \<open>A path that names a mount point resolves to the root of a mount.\<close>

lemma resolve_mount_point:
  assumes v: "table_ok v" and r: "resolve v p = Ok (i, rel)" and m: "m \<in> set (mounts v)" "mprefix m = canonical_prefix p"
  shows "segments rel = []"
proof -
  let ?q = "canonical_prefix p" and ?P = "mprefix (mounts v ! i)"
  note R = resolve_OkD [OF v r]
  obtain n where p: "p = ?q @ replicate n slash"
    using trim_end_matches_decomp [of p slash] by (auto simp: canonical_prefix_trim)
  have "covers ?q p" using p by (cases n) (auto simp: covers_def)
  with R(4) [OF m(1)] m(2) have len: "length ?q \<le> length ?P" by simp
  obtain t where t: "p = ?P @ t" using covers_decomp [OF R(2)] by blast
  have "?P = take (length ?P) p" using t by simp
  also have "\<dots> = ?q @ take (length ?P - length ?q) (replicate n slash)"
    using len by (subst p) simp
  finally have P: "?P = ?q @ replicate (min (length ?P - length ?q) n) slash" by (simp add: take_replicate)
  have "prefix_ok ?P" using v R(1) by (simp add: table_ok_def list_all_iff)
  with P have "?P = ?q"
    by (cases "min (length ?P - length ?q) n") (auto simp: prefix_ok_def replicate_append_same [symmetric] simp del: replicate_Suc)
  then have "segments p = segments ?q @ segments rel" using segments_below [OF R(2)] R(3) by simp
  moreover have "segments p = segments ?q" using p segments_slashes by metis
  ultimately show ?thesis by simp
qed

lemma vfs_good_mount: "vfs_good k \<Longrightarrow> resolve (vfs k) p = Ok (i, rel) \<Longrightarrow> backend_ok (fs (mounts (vfs k) ! i))"
  using resolve_OkD(1) by (fastforce simp: vfs_good_def)

lemma mounts_set_fs: "m \<in> set (mounts (set_fs i b v)) \<Longrightarrow> m \<in> set (mounts v) \<or> fs m = b"
  by (auto simp: set_fs_def dest!: set_update_subset_insert [THEN subsetD])

lemma vfs_good_set_fs: "vfs_good k \<Longrightarrow> backend_ok b \<Longrightarrow> vfs_good (k\<lparr>glob := g, vfs := set_fs i b (vfs k)\<rparr>)"
  unfolding vfs_good_def by (auto dest: mounts_set_fs)

lemma vfs_is_dir_run: "vfs_is_dir H p k =
    (if \<exists>m\<in>set (mounts (vfs k)). mprefix m = canonical_prefix p then Some (Ok True, k)
     else (case resolve (vfs k) p of Ok (i, rel) \<Rightarrow> on_mount i (bk_is_dir H rel) k | _ \<Rightarrow> Some (Ok False, k)))"
  by (simp add: vfs_is_dir_def bindM_gets list_ex_iff ret_run split: outcome.split prod.split)

lemma vfs_list_dir_run:
  assumes "vfs_list_dir H p k = Some (r, k')"
  shows "\<exists>q. dispatch p (bk_list_dir H) k = Some (q, k') \<and>
    (case q of Ok es \<Rightarrow> r = Ok (fold (add_child (canonical_prefix p)) (mounts (vfs k')) es) | Err e \<Rightarrow> r = Err e | Panic c \<Rightarrow> r = Panic c)"
  using assms unfolding vfs_list_dir_def
  by (cases rule: bindM_cases) (auto simp: bindM_gets ret_run)

text \<open>A read method on a mount keeps the state good.\<close>

lemma on_mount_good:
  assumes "vfs_good k" "resolve (vfs k) p = Ok (i, rel)" "on_mount i m k = Some (r, k')"
    and "\<And>g b r g' b'. backend_ok b \<Longrightarrow> m (g, b) = Some (r, (g', b')) \<Longrightarrow> backend_ok b'"
  shows "vfs_good k'"
  using assms(3) assms(4) [OF vfs_good_mount [OF assms(1,2)]] assms(1)
  by (auto simp: on_mount_run vfs_good_set_fs)

lemma dispatch_good:
  assumes "vfs_good k" "dispatch p op k = Some (r, k')"
    and "\<And>rel g b r g' b'. backend_ok b \<Longrightarrow> op rel (g, b) = Some (r, (g', b')) \<Longrightarrow> backend_ok b'"
  shows "vfs_good k'"
proof (cases "resolve (vfs k) p")
  case (Ok x)
  obtain i rel where x: "x = (i, rel)" by (cases x)
  from assms(2) Ok x have "on_mount i (op rel) k = Some (r, k')" by (simp add: dispatch_run)
  from on_mount_good [OF assms(1) _ this] assms(3) Ok x show ?thesis by blast
qed (use assms in \<open>simp_all add: dispatch_run\<close>)

lemma dispatch_OkD:
  assumes "dispatch p op k = Some (Ok x, k')"
  obtains i rel g b where "resolve (vfs k) p = Ok (i, rel)"
    "op rel (glob k, fs (mounts (vfs k) ! i)) = Some (Ok x, (g, b))"
    "k' = k\<lparr>glob := g, vfs := set_fs i b (vfs k)\<rparr>"
  using assms by (auto simp: dispatch_run on_mount_run split: outcome.splits)

interpretation vfs: file_system vfs_good "vfs_read_file H" "vfs_list_dir H" "vfs_is_dir H" for H
proof (unfold_locales, goal_cases)
  case (1 s p s')
  show ?case
  proof
    assume "vfs_list_dir H p s = Some (Err IsADir, s')"
    then have "dispatch p (bk_list_dir H) s = Some (Err IsADir, s')"
      by (auto dest!: vfs_list_dir_run split: outcome.splits)
    then show False using bk.ls_not_IsADir [where H = H] vfs_good_mount [OF 1]
      by (fastforce simp: dispatch_run on_mount_run dest: resolve_Err split: outcome.splits)
  qed
next
  case (2 s p es s')
  then obtain es' where "dispatch p (bk_list_dir H) s = Some (Ok es', s')"
    by (auto dest!: vfs_list_dir_run split: outcome.splits)
  then obtain i rel g b where r: "resolve (vfs s) p = Ok (i, rel)"
    and l: "bk_list_dir H rel (glob s, fs (mounts (vfs s) ! i)) = Some (Ok es', (g, b))" by (rule dispatch_OkD)
  from bk.ls_dir [OF _ l] vfs_good_mount [OF 2(1) r] r show ?case
    by (auto simp: vfs_is_dir_run on_mount_run)
next
  case (3 s p b s')
  from 3(2) obtain i rel g b' where r: "resolve (vfs s) p = Ok (i, rel)"
    and l: "bk_read_file H rel (glob s, fs (mounts (vfs s) ! i)) = Some (Ok b, (g, b'))"
    unfolding vfs_read_file_def by (rule dispatch_OkD)
  have bk: "backend_ok (fs (mounts (vfs s) ! i))" using vfs_good_mount [OF 3(1) r] .
  then have "segments rel \<noteq> []" using bk.rd_root [of "(glob s, fs (mounts (vfs s) ! i))"] l by auto
  with resolve_mount_point [OF _ r] 3(1) have "\<not> (\<exists>m\<in>set (mounts (vfs s)). mprefix m = canonical_prefix p)"
    by (auto simp: vfs_good_def)
  with bk.rd_file [OF _ l] bk r show ?case by (auto simp: vfs_is_dir_run on_mount_run)
next
  case (4 s p b s')
  show ?case
  proof
    assume "vfs_read_file H p s = Some (Ok b, s')"
    then obtain i rel g b' where r: "resolve (vfs s) p = Ok (i, rel)"
      and l: "bk_read_file H rel (glob s, fs (mounts (vfs s) ! i)) = Some (Ok b, (g, b'))"
      unfolding vfs_read_file_def by (rule dispatch_OkD)
    have "segments p = segments (mprefix (mounts (vfs s) ! i)) @ segments rel"
      using resolve_OkD [OF _ r] 4(1) segments_below by (auto simp: vfs_good_def)
    with 4(2) bk.rd_root [of "(glob s, fs (mounts (vfs s) ! i))"] l vfs_good_mount [OF 4(1) r] show False by auto
  qed
next
  case (5 s p e s')
  then show ?case using bk.isd_no_Err vfs_good_mount [OF 5]
    by (fastforce simp: vfs_is_dir_run on_mount_run split: outcome.splits if_splits)
next
  case (6 s p r s')
  then show ?case unfolding vfs_read_file_def by (auto elim!: dispatch_good dest: bk_reads_keep)
next
  case (7 s p q s')
  then show ?case by (auto dest!: vfs_list_dir_run elim!: dispatch_good dest: bk_reads_keep)
next
  case (8 s p d s')
  then show ?case
    by (auto simp: vfs_is_dir_run elim!: on_mount_good dest: bk_reads_keep split: if_splits outcome.splits)
qed

section \<open>Properties of the VFS\<close>

text \<open>
  The read methods of the VFS agree on every path of a well-formed kernel state, whatever the
  backends: \<open>list_dir\<close> never reports \<open>IsADir\<close>, a path that can be listed is a directory, a path
  that can be read is not, and neither the root nor any mount point is a file.
\<close>

theorem vfs_methods_agree:
  assumes "vfs_good k"
  shows "vfs_list_dir H p k \<noteq> Some (Err IsADir, k')
    \<and> (vfs_list_dir H p k = Some (Ok es, k') \<longrightarrow> (\<exists>k''. vfs_is_dir H p k = Some (Ok True, k'')))
    \<and> (vfs_read_file H p k = Some (Ok b, k') \<longrightarrow> (\<exists>k''. vfs_is_dir H p k = Some (Ok False, k'')))
    \<and> (\<forall>m\<in>set (mounts (vfs k)). mprefix m = canonical_prefix p \<longrightarrow> vfs_read_file H p k \<noteq> Some (Ok b, k'))"
proof -
  have "vfs_read_file H p k \<noteq> Some (Ok b, k')" if "m \<in> set (mounts (vfs k))" "mprefix m = canonical_prefix p" for m
  proof
    assume "vfs_read_file H p k = Some (Ok b, k')"
    from vfs.rd_file [OF assms this] that show False by (auto simp: vfs_is_dir_run split: if_splits)
  qed
  with vfs.ls_not_IsADir [OF assms] vfs.ls_dir [OF assms] vfs.rd_file [OF assms] show ?thesis by blast
qed

text \<open>The state after a boot without a disk.\<close>

definition demo_vfs :: Vfs where
  "demo_vfs = fold mount_step [MountOp ''/'' (RamBackend ram_seed), MountOp ''/tmp'' (TmpBackend tmp_new),
     MountOp ''/dev'' DevBackend, MountOp ''/ram'' (RamBackend ram_seed)] vfs_new"

definition demo_kernel :: "(image, u8 list) kernel" where
  "demo_kernel = \<lparr>glob = demo_globals, vfs = demo_vfs\<rparr>"

lemma demo_vfs_mounts: "mounts demo_vfs = [\<lparr>mprefix = [], fs = RamBackend ram_seed\<rparr>, \<lparr>mprefix = ''/tmp'', fs = TmpBackend tmp_new\<rparr>,
    \<lparr>mprefix = ''/dev'', fs = DevBackend\<rparr>, \<lparr>mprefix = ''/ram'', fs = RamBackend ram_seed\<rparr>]"
  by (simp add: demo_vfs_def vfs_new_def vfs_mount_def MAX_MOUNTS_def starts_with_def canonical_prefix_def trim_end_matches_def)

lemma backend_ok_boot: "backend_ok (RamBackend ram_seed)" "backend_ok (TmpBackend tmp_new)" "backend_ok DevBackend"
    "backend_ok (FatBackend vol) = vol_ok vol"
  by (simp_all add: backend_ok_def ram_seed_def tmp_new_def Let_def)

lemma demo_vfs_ok: "table_ok demo_vfs"
  unfolding demo_vfs_def by (rule mount_steps_table_ok [OF table_ok_new])

lemma demo_good: "vfs_good demo_kernel"
  unfolding vfs_good_def demo_kernel_def
  by (auto simp: demo_vfs_mounts backend_ok_boot demo_vfs_ok)

theorem vfs_methods_agree_witness:
  "vfs_good demo_kernel \<and> vfs_list_dir demo_hardware ''/'' demo_kernel \<noteq> Some (Err IsADir, demo_kernel)"
  using demo_good vfs_methods_agree [OF demo_good] by blast

text \<open>A write through a tmpfs mount.\<close>

lemma bk_write_tmp: "bk_write_file H rel data (g, TmpBackend t) =
    Some (fst (tmp_write_file t rel data), (g, TmpBackend (snd (tmp_write_file t rel data))))"
  by (simp add: bk_write_file_def bindM_gets on_tmp_def)

text \<open>Resolution looks at the prefixes only.\<close>

lemma resolve_prefixes:
  assumes "map mprefix (mounts w) = map mprefix (mounts v)"
  shows "resolve w p = resolve v p"
proof -
  have len: "length (mounts w) = length (mounts v)" using assms by (rule map_eq_imp_length_eq)
  have nth: "mprefix (mounts w ! j) = mprefix (mounts v ! j)" if "j < length (mounts v)" for j
    using that assms len by (metis nth_map)
  have step: "resolve_step (mounts w) p j r = resolve_step (mounts v) p j r"
    if "j < length (mounts v)" "case r of None \<Rightarrow> True | Some x \<Rightarrow> x < length (mounts v)" for j r
    using that by (auto simp: resolve_step_def Let_def mount_matches_def nth split: option.splits)
  have "n \<le> length (mounts v) \<Longrightarrow>
      fold (resolve_step (mounts w) p) [0..<n] None = fold (resolve_step (mounts v) p) [0..<n] None" for n
  proof (induction n)
    case (Suc n)
    have "case fold (resolve_step (mounts v) p) [0..<n] None of None \<Rightarrow> True | Some x \<Rightarrow> x < length (mounts v)"
      using resolve_fold_best [of "mounts v" p n] Suc.prems by (auto simp: is_best_def split: option.splits)
    with Suc show ?case by (simp add: step)
  qed simp
  then show ?thesis
    using resolve_fold_best [of "mounts v" p "length (mounts v)"]
    by (auto simp: resolve_def Let_def nth len is_best_def split: option.splits)
qed

lemma resolve_set_fs: "resolve (set_fs i b v) p = resolve v p"
  by (rule resolve_prefixes) simp

lemma set_fs_nth: "j < length (mounts v) \<Longrightarrow> fs (mounts (set_fs i b v) ! j) = (if j = i then b else fs (mounts v ! j))"
  by (simp add: set_fs_def nth_list_update)

lemma set_fs_idem: "set_fs i b (set_fs i b v) = set_fs i b v"
  by (cases "i < length (mounts v)") (simp_all add: set_fs_def not_less list_update_beyond)

lemma spec_write_ne: "spec_write p data v = (Ok (), v') \<Longrightarrow> p \<noteq> []"
  by (auto simp: spec_write_def spec_in_parent_def)

lemma vfs_read_file_run: "vfs_read_file H p k = (case resolve (vfs k) p of
     Ok (i, rel) \<Rightarrow> on_mount i (bk_read_file H rel) k | Err e \<Rightarrow> Some (Err e, k) | Panic c \<Rightarrow> Some (Panic c, k))"
  by (simp add: vfs_read_file_def dispatch_run)

lemma vfs_tmp_write:
  assumes good: "vfs_good k" and res: "resolve (vfs k) p = Ok (i, rel)" and tmp: "fs (mounts (vfs k) ! i) = TmpBackend t"
    and run: "vfs_write_file H p data k = Some (Ok (), k')"
  shows "vfs_read_file H p k' = Some (Ok data, k') \<and> glob k' = glob k \<and> vfs_good k'
    \<and> (\<forall>q b. segments q \<noteq> segments p \<longrightarrow>
         (\<exists>k1. vfs_read_file H q k' = Some (Ok b, k1)) = (\<exists>k1. vfs_read_file H q k = Some (Ok b, k1)))"
proof -
  let ?t = "snd (tmp_write_file t rel data)"
  have w: "fst (tmp_write_file t rel data) = Ok ()" and k': "k' = k\<lparr>vfs := set_fs i (TmpBackend ?t) (vfs k)\<rparr>"
    using run res tmp by (auto simp: vfs_write_file_def dispatch_run on_mount_run bk_write_tmp)
  have ok: "table_ok (vfs k)" using good by (simp add: vfs_good_def)
  note R = resolve_OkD [OF ok res]
  have spec: "spec_write (segments rel) data (view (root t)) = (Ok (), view (root ?t))"
    using tmp_write_file_view [of t rel data] w by (simp add: abs_run_def split: prod.splits)
  note upd = spec_write_Ok [OF spec]
  have rd: "tmp_read_file ?t rel = Ok data" using upd by (simp add: tmp_read_file_view)
  have other: "tmp_read_file ?t rel' = Ok b \<longleftrightarrow> tmp_read_file t rel' = Ok b" if "segments rel' \<noteq> segments rel" for rel' b
    using upd that by (simp add: tmp_read_file_view)
  have "backend_ok (TmpBackend ?t)"
    using upd spec_write_ne [OF spec] vfs_good_mount [OF good res] tmp view_Nil [of "root ?t"]
    by (simp add: backend_ok_def)
  then have good': "vfs_good k'" using vfs_good_set_fs [OF good, where g = "glob k" and i = i] by (simp add: k')
  have q: "(\<exists>k1. vfs_read_file H q k' = Some (Ok b, k1)) = (\<exists>k1. vfs_read_file H q k = Some (Ok b, k1))"
    if ne: "segments q \<noteq> segments p" for q b
  proof (cases "resolve (vfs k) q")
    case (Ok x)
    obtain j rel' where x: "x = (j, rel')" by (cases x)
    note Q = resolve_OkD [OF ok Ok [unfolded x]]
    have "j = i \<Longrightarrow> segments rel' \<noteq> segments rel"
      using ne segments_below [OF Q(2)] segments_below [OF R(2)] Q(3) R(3) by auto
    then show ?thesis using Ok x Q(1) other tmp
      by (cases "j = i") (auto simp: vfs_read_file_run k' resolve_set_fs on_mount_run set_fs_nth bk_read_file_run [of _ _ _ "TmpBackend _"])
  qed (simp_all add: vfs_read_file_run k' resolve_set_fs)
  have "vfs_read_file H p k' = Some (Ok data, k')"
    using res R(1) rd by (simp add: vfs_read_file_run k' resolve_set_fs on_mount_run set_fs_nth bk_runs set_fs_idem)
  with good' q show ?thesis by (simp add: k')
qed

text \<open>
  A successful write to a path on a tmpfs mount is read back byte for byte through the VFS, leaves
  the devices alone, and changes the contents of no file under any other path, on this mount or on
  another.
\<close>

theorem vfs_tmp_write_read:
  assumes good: "vfs_good k" and res: "resolve (vfs k) p = Ok (i, rel)" and tmp: "fs (mounts (vfs k) ! i) = TmpBackend t"
    and run: "vfs_write_file H p data k = Some (Ok (), k')"
  shows "vfs_read_file H p k' = Some (Ok data, k') \<and> glob k' = glob k \<and> vfs_good k'
    \<and> (\<forall>q b. segments q \<noteq> segments p \<longrightarrow>
         (\<exists>k1. vfs_read_file H q k' = Some (Ok b, k1)) = (\<exists>k1. vfs_read_file H q k = Some (Ok b, k1)))"
  using assms by (rule vfs_tmp_write)

theorem vfs_tmp_write_read_witness:
  "resolve (vfs demo_kernel) ''/tmp/note'' = Ok (1, ''/note'')
   \<and> (\<exists>k'. vfs_write_file demo_hardware ''/tmp/note'' [104, 105] demo_kernel = Some (Ok (), k')
        \<and> vfs_read_file demo_hardware ''/tmp/note'' k' = Some (Ok [104, 105], k') \<and> glob k' = demo_globals)"
proof -
  have res: "resolve (vfs demo_kernel) ''/tmp/note'' = Ok (1, ''/note'')"
    by (simp add: demo_kernel_def resolve_def starts_with_def demo_vfs_mounts resolve_step_def mount_matches_def)
  have tmp: "fs (mounts (vfs demo_kernel) ! 1) = TmpBackend tmp_new" by (simp add: demo_kernel_def demo_vfs_mounts)
  have "fst (tmp_write_file tmp_new ''/note'' [104, 105]) = Ok ()"
    by (simp add: tmp_write_file_def tmp_new_def in_parent_def TmpFs.split_parent_def segments_def on_dir_def)
  then obtain k' where run: "vfs_write_file demo_hardware ''/tmp/note'' [104, 105] demo_kernel = Some (Ok (), k')"
    using tmp by (simp add: vfs_write_file_def dispatch_run res on_mount_run bk_write_tmp)
  from vfs_tmp_write_read [OF demo_good res tmp run] res run show ?thesis
    by (auto simp: demo_kernel_def)
qed

lemma mount_root_run:
  assumes "disk_init (drive g) = Some (r, d)" "\<not> panics r"
    and "r = Ok () \<Longrightarrow> Fat.mount (blockdev H) d = Some (r', d')" "\<not> panics r'"
    and "\<forall>vol. r' = Ok vol \<longrightarrow> vol_ok vol"
  shows "\<exists>v g'. mount_root H disk_init g = Some (Ok v, g') \<and> vfs_good \<lparr>glob = g', vfs = v\<rparr>
    \<and> map mprefix (mounts v) = [[], ''/tmp'', ''/dev'', ''/ram'']
    \<and> map fs (mounts v) = [(case (r, r') of (Ok _, Ok vol) \<Rightarrow> FatBackend vol | _ \<Rightarrow> RamBackend ram_seed),
         TmpBackend tmp_new, DevBackend, RamBackend ram_seed]
    \<and> (r = Ok () \<longrightarrow> drive g' = d')"
proof -
  let ?b = "case (r, r') of (Ok _, Ok vol) \<Rightarrow> FatBackend vol | _ \<Rightarrow> RamBackend ram_seed"
  have root: "\<exists>g'. root_backend H disk_init g = Some (Ok ?b, g') \<and> (r = Ok () \<longrightarrow> drive g' = d')"
  proof (cases r)
    case (Ok u)
    have init: "on_part drive (\<lambda>d g. g\<lparr>drive := d\<rparr>) disk_init g = Some (Ok (), g\<lparr>drive := d\<rparr>)"
      using assms(1) Ok by (simp add: on_part_def)
    have "on_part drive (\<lambda>d g. g\<lparr>drive := d\<rparr>) (Fat.mount (blockdev H)) (g\<lparr>drive := d\<rparr>) = Some (r', g\<lparr>drive := d'\<rparr>)"
      using assms(3) Ok by (simp add: on_part_def)
    with init Ok assms(4) show ?thesis
      by (cases r') (simp_all add: root_backend_def attempt_Ok attempt_Err serial_println_def serial_print_def
          serial_send_def bindM_modify ret_run)
  next
    case (Err e)
    have "on_part drive (\<lambda>d g. g\<lparr>drive := d\<rparr>) disk_init g = Some (Err e, g\<lparr>drive := d\<rparr>)"
      using assms(1) Err by (simp add: on_part_def)
    with Err show ?thesis
      by (simp add: root_backend_def attempt_Err serial_println_def serial_print_def bindM_modify ret_run)
  qed (use assms in simp)
  then obtain g' where root: "root_backend H disk_init g = Some (Ok ?b, g')" and drive: "r = Ok () \<longrightarrow> drive g' = d'" by blast
  let ?v = "\<lparr>mounts = [\<lparr>mprefix = [], fs = ?b\<rparr>, \<lparr>mprefix = ''/tmp'', fs = TmpBackend tmp_new\<rparr>,
    \<lparr>mprefix = ''/dev'', fs = DevBackend\<rparr>, \<lparr>mprefix = ''/ram'', fs = RamBackend ram_seed\<rparr>]\<rparr>"
  have "mount_root H disk_init g = Some (Ok ?v, g')"
    unfolding mount_root_def
    by (subst bindM_Ok, rule root)
      (simp add: mount_expect_def vfs_new_def vfs_mount_def MAX_MOUNTS_def starts_with_def canonical_prefix_def
        trim_end_matches_def ret_run)
  moreover have "table_ok ?v" by (simp add: table_ok_def MAX_MOUNTS_def prefix_ok_def)
  moreover have "backend_ok ?b" using assms(5) by (auto simp: backend_ok_boot split: outcome.split)
  ultimately show ?thesis using drive by (intro exI [of _ ?v] exI [of _ g']) (simp add: vfs_good_def backend_ok_boot)
qed

text \<open>
  Booting always yields a usable tree: whenever the disk probe and the FAT mount return, with a
  volume of the accepted geometry or an error, \<open>mount_root\<close> succeeds, none of its \<open>expect\<close>s panics, and the table has
  exactly the four mounts \<open>/\<close>, \<open>/tmp\<close>, \<open>/dev\<close> and \<open>/ram\<close>, with the FAT volume as root when both
  succeeded and the seed tree otherwise.
\<close>

theorem mount_root_succeeds:
  assumes "disk_init (drive g) = Some (r, d)" "\<not> panics r"
    and "r = Ok () \<Longrightarrow> Fat.mount (blockdev H) d = Some (r', d')" "\<not> panics r'"
    and "\<And>vol. r' = Ok vol \<Longrightarrow> vol_ok vol"
  shows "\<exists>v g'. mount_root H disk_init g = Some (Ok v, g') \<and> vfs_good \<lparr>glob = g', vfs = v\<rparr>
    \<and> map mprefix (mounts v) = [[], ''/tmp'', ''/dev'', ''/ram'']
    \<and> map fs (mounts v) = [(case (r, r') of (Ok _, Ok vol) \<Rightarrow> FatBackend vol | _ \<Rightarrow> RamBackend ram_seed),
         TmpBackend tmp_new, DevBackend, RamBackend ram_seed]"
proof -
  have "\<forall>vol. r' = Ok vol \<longrightarrow> vol_ok vol" using assms(5) by blast
  note run = mount_root_run [of disk_init g r d H r' d', OF assms(1,2) _ assms(4) this]
  show ?thesis by (rule ex_forward [OF run], use assms(3) in simp, erule ex_forward) blast
qed

theorem mount_root_succeeds_witness:
  "\<exists>v g'. mount_root demo_hardware (fail DriveError) demo_globals = Some (Ok v, g')
     \<and> vfs_good \<lparr>glob = g', vfs = v\<rparr> \<and> map mprefix (mounts v) = [[], ''/tmp'', ''/dev'', ''/ram'']"
  using mount_root_succeeds [of "fail DriveError" demo_globals "Err DriveError" "drive demo_globals" demo_hardware "Err Io"]
  by (auto simp: fail_run)

section \<open>Child mounts\<close>

lemma fold_add_child:
  "\<exists>extra. fold (add_child q) ms es = es @ extra \<and> distinct extra \<and> set extra \<inter> set es = {}
     \<and> set es \<union> set extra = set es \<union> {c. \<exists>m\<in>set ms. direct_child q (mprefix m) = Some c}"
proof (induction ms arbitrary: es)
  case (Cons m ms)
  show ?case
  proof (cases "direct_child q (mprefix m)")
    case None
    with Cons.IH [of es] show ?thesis by (simp add: add_child_def)
  next
    case (Some c)
    show ?thesis
    proof (cases "c \<in> set es")
      case True
      with Some Cons.IH [of es] show ?thesis by (auto simp: add_child_def)
    next
      case False
      from Cons.IH [of "es @ [c]"] obtain extra where
        "fold (add_child q) ms (es @ [c]) = (es @ [c]) @ extra" "distinct extra" "set extra \<inter> set (es @ [c]) = {}"
        "set (es @ [c]) \<union> set extra = set (es @ [c]) \<union> {c. \<exists>m\<in>set ms. direct_child q (mprefix m) = Some c}" by blast
      moreover have "add_child q m es = es @ [c]" using Some False by (simp add: add_child_def)
      ultimately show ?thesis using Some False by (intro exI [of _ "c # extra"]) auto
    qed
  qed
qed simp

text \<open>
  A listing through the VFS is the listing of the backend that owns the directory, followed by the
  names of the mounts directly below it, each once and none that is already listed.
\<close>

theorem vfs_list_dir_children:
  assumes "vfs_list_dir H p k = Some (Ok es, k')"
  shows "\<exists>own extra. dispatch p (bk_list_dir H) k = Some (Ok own, k') \<and> es = own @ extra \<and> distinct extra
    \<and> set extra \<inter> set own = {}
    \<and> set es = set own \<union> {c. \<exists>m\<in>set (mounts (vfs k')). direct_child (canonical_prefix p) (mprefix m) = Some c}"
proof -
  obtain own where own: "dispatch p (bk_list_dir H) k = Some (Ok own, k')"
    "es = fold (add_child (canonical_prefix p)) (mounts (vfs k')) own"
    using assms unfolding vfs_list_dir_def by (rule bindM_OkE) (auto simp: bindM_gets ret_run)
  from fold_add_child [of "canonical_prefix p" "mounts (vfs k')" own] own show ?thesis by auto
qed

theorem vfs_list_dir_children_witness:
  "\<exists>k'. vfs_list_dir demo_hardware ''/'' demo_kernel
       = Some (Ok [''bin'', ''etc'', ''proc'', ''welcome.txt'', ''tmp'', ''dev'', ''ram''], k')
     \<and> {c. \<exists>m\<in>set (mounts (vfs k')). direct_child [] (mprefix m) = Some c}
         \<subseteq> set [''bin'', ''etc'', ''proc'', ''welcome.txt'', ''tmp'', ''dev'', ''ram'']"
proof -
  have res: "resolve demo_vfs ''/'' = Ok (0, ''/'')"
    by (simp add: resolve_def starts_with_def demo_vfs_mounts resolve_step_def mount_matches_def)
  have ram: "ram_list_dir ram_seed ''/'' = Ok [''bin'', ''etc'', ''proc'', ''welcome.txt'']" by code_simp
  have "set_fs 0 (RamBackend ram_seed) demo_vfs = demo_vfs"
    by (simp add: set_fs_def demo_vfs_mounts)
  then have "dispatch ''/'' (bk_list_dir demo_hardware) demo_kernel
      = Some (Ok [''bin'', ''etc'', ''proc'', ''welcome.txt''], demo_kernel)"
    by (simp add: dispatch_run demo_kernel_def res on_mount_run demo_vfs_mounts bk_list_dir_run ram)
  then have run: "vfs_list_dir demo_hardware ''/'' demo_kernel
       = Some (Ok [''bin'', ''etc'', ''proc'', ''welcome.txt'', ''tmp'', ''dev'', ''ram''], demo_kernel)"
    by (simp add: vfs_list_dir_def bindM_Ok bindM_gets ret_run)
      (simp add: demo_kernel_def demo_vfs_mounts add_child_def direct_child_def canonical_prefix_def strip_prefix_def starts_with_def)
  from vfs_list_dir_children [OF run] have "set [''bin'', ''etc'', ''proc'', ''welcome.txt'', ''tmp'', ''dev'', ''ram'']
      \<supseteq> {c. \<exists>m\<in>set (mounts (vfs demo_kernel)). direct_child (canonical_prefix ''/'') (mprefix m) = Some c}" by blast
  with run show ?thesis by (intro exI [of _ demo_kernel]) (simp add: canonical_prefix_def)
qed

end
