(* ===== verification/KernelSafe.thy ===== *)
theory KernelSafe
  imports Vfs
begin

text \<open>
  The panics of the kernel below the shell: with a well-formed font, a console in a good state and a
  disk driver that does not panic, every operation of the VFS keeps the invariant \<open>kernel_ok\<close> and never faults, whatever
  the mounts and the contents of the disk; a failed overflow check is possible only while a FAT volume is mounted.
\<close>

section \<open>The invariant\<close>

definition hw_ok :: "('d, 'p) hardware \<Rightarrow> bool" where
  "hw_ok H \<longleftrightarrow> font_ok (glyphs H) \<and> dev_sane (blockdev H)"

definition glob_ok :: "('d, 'p) hardware \<Rightarrow> ('d, 'p) globals \<Rightarrow> bool" where
  "glob_ok H g \<longleftrightarrow> (case fb_writer g of None \<Rightarrow> True | Some w \<Rightarrow> fb_inv (glyphs H) w)"

definition kernel_ok :: "('d, 'p) hardware \<Rightarrow> ('d, 'p) kernel \<Rightarrow> bool" where
  "kernel_ok H k \<longleftrightarrow> glob_ok H (glob k) \<and> vfs_good k"

text \<open>Whether a FAT volume is mounted: only then can the arithmetic of a file operation overflow.\<close>

definition is_fat :: "backend \<Rightarrow> bool" where
  "is_fat b \<longleftrightarrow> (case b of FatBackend _ \<Rightarrow> True | _ \<Rightarrow> False)"

definition fat_mounted :: "Vfs \<Rightarrow> bool" where
  "fat_mounted v \<longleftrightarrow> list_ex (\<lambda>m. is_fat (fs m)) (mounts v)"

text \<open>The invariants with the overflow panics admitted: \<open>ov\<close> must hold as soon as a FAT volume is mounted.\<close>

definition mounted_inv :: "bool \<Rightarrow> ('d, 'p) hardware \<Rightarrow> ('d, 'p) globals \<times> backend \<Rightarrow> bool" where
  "mounted_inv ov H s \<longleftrightarrow> glob_ok H (fst s) \<and> backend_ok (snd s) \<and> (is_fat (snd s) \<longrightarrow> ov)"

definition kernel_inv :: "bool \<Rightarrow> ('d, 'p) hardware \<Rightarrow> ('d, 'p) kernel \<Rightarrow> bool" where
  "kernel_inv ov H k \<longleftrightarrow> kernel_ok H k \<and> (fat_mounted (vfs k) \<longrightarrow> ov)"

lemma is_fat_simps [simp]: "is_fat (FatBackend vol)" "\<not> is_fat (TmpBackend t)" "\<not> is_fat (RamBackend r)" "\<not> is_fat DevBackend"
  by (simp_all add: is_fat_def)

lemma kernel_inv_fat: "kernel_ok H k \<Longrightarrow> kernel_inv (fat_mounted (vfs k)) H k"
  by (simp add: kernel_inv_def)

section \<open>The console\<close>

lemma fb_inv_ring: "fb_inv ft w \<Longrightarrow> length (ring w) \<le> SCROLLBACK_LINES"
  by (simp add: fb_inv_def)

lemma fb_inv_console: "fb_inv ft w \<Longrightarrow> console ft (ring w, current_line w) w"
  using fb_inv_ring [of ft w] by (simp add: console_def shows_history_def last_n_def)

text \<open>An operation that keeps the console good for every history is safe for the globals.\<close>

lemma safe_on_console:
  assumes "\<And>h. returns (console (glyphs H) h) m (\<lambda>_ w. \<exists>h. console (glyphs H) h w)"
  shows "safe ov (glob_ok H) (on_console m) (\<lambda>_. True)"
proof (rule safeI)
  fix g r g'
  assume g: "glob_ok H g" and run: "on_console m g = Some (r, g')"
  show "glob_ok H g' \<and> panic_ok ov r \<and> (\<forall>x. r = Ok x \<longrightarrow> True)"
  proof (cases "fb_writer g")
    case None
    with run g show ?thesis by (auto simp: on_console_def)
  next
    case (Some w)
    with g have "fb_inv (glyphs H) w" by (simp add: glob_ok_def)
    from returnsD [OF assms fb_inv_console [OF this]] obtain x w' h where
      "m w = Some (Ok x, w')" "console (glyphs H) h w'" by blast
    with Some run show ?thesis by (auto simp: on_console_def glob_ok_def console_def)
  qed
qed

lemma safe_print [safe_intros]: "hw_ok H \<Longrightarrow> safe ov (glob_ok H) (print H cs) (\<lambda>_. True)"
  unfolding print_def hw_ok_def
  by (rule safe_on_console, rule returns_conseq [OF returns_write_str]) blast+

lemma glob_ok_serial [simp]: "glob_ok H (serial_send H bs g) = glob_ok H g"
  by (simp add: glob_ok_def serial_send_def)

lemma glob_ok_drive [simp]: "glob_ok H (g\<lparr>drive := d\<rparr>) = glob_ok H g"
  by (simp add: glob_ok_def)

lemma safe_serial_print [safe_intros]: "safe ov (glob_ok H) (serial_print H s) (\<lambda>_. True)"
  unfolding serial_print_def by (rule safe_modify) simp_all

section \<open>The device nodes\<close>

lemma safe_disk_blocks [safe_intros]:
  assumes "hw_ok H"
  shows "safe ov (glob_ok H) (disk_write_block H lba src) (\<lambda>_. True)"
    and "safe ov (glob_ok H) (disk_read_block H lba src) (\<lambda>b. length b = length src)"
proof -
  have w: "safe ov (\<lambda>_. True) (write_block (blockdev H) lba src) (\<lambda>_. True)"
    and r: "safe ov (\<lambda>_. True) (read_block (blockdev H) lba src) (\<lambda>(n, b). length b = length src)"
    using assms by (auto simp: hw_ok_def dev_sane_def intro: safe_weaken)
  show "safe ov (glob_ok H) (disk_write_block H lba src) (\<lambda>_. True)"
    unfolding disk_write_block_def
    by (rule safe_on_part [where J = "\<lambda>_. True"]) (auto intro!: safe_intros w split: sum.split)
  show "safe ov (glob_ok H) (disk_read_block H lba src) (\<lambda>b. length b = length src)"
    unfolding disk_read_block_def
    by (rule safe_on_part [where J = "\<lambda>_. True"], rule safe_attempt [OF r]) (auto intro!: safe_intros)
qed

text \<open>The blocks of a transfer lie in the buffer: its length is a multiple of the block size.\<close>

lemma block_in_buffer: "i < n div BLOCK_SIZE \<Longrightarrow> (i + 1) * BLOCK_SIZE \<le> n"
  using order_trans [OF mult_le_mono1 [of "i + 1" "n div BLOCK_SIZE" BLOCK_SIZE] div_times_less_eq_dividend [of n BLOCK_SIZE]] by simp

lemma safe_slice:
  "i < n div BLOCK_SIZE \<Longrightarrow> length buf = n \<Longrightarrow> safe ov I (liftO (slice (i * BLOCK_SIZE) ((i + 1) * BLOCK_SIZE) buf)) (\<lambda>b. length b = BLOCK_SIZE)"
  using block_in_buffer [of i n] by (intro safe_liftO) (auto simp: slice_Ok)

lemma safe_disk0_write: "hw_ok H \<Longrightarrow> safe ov (glob_ok H) (disk0_write H off buf) (\<lambda>_. True)"
  unfolding disk0_write_def Let_def
  by (intro safe_if safe_ret safe_fail safe_seq [where m = "foldM _ _ _"] safe_foldM safe_bindM [OF safe_slice [OF _ refl]])
    (auto intro: safe_disk_blocks)

lemma safe_disk0_read: "hw_ok H \<Longrightarrow> safe ov (glob_ok H) (disk0_read H off (buf :: u8 list)) (\<lambda>_. True)"
proof -
  assume H: "hw_ok H"
  have "safe ov (glob_ok H) (foldM (\<lambda>i buf. bindM (liftO (slice (i * BLOCK_SIZE) ((i + 1) * BLOCK_SIZE) buf)) (\<lambda>dst.
      bindM (disk_read_block H (lba + word_of_nat i) dst) (\<lambda>dst. ret (splice (i * BLOCK_SIZE) dst buf)))) [0..<length buf div BLOCK_SIZE] buf)
      (\<lambda>b. length b = length buf)" for lba
  proof (rule safe_foldM)
    fix i and b :: "u8 list"
    assume i: "i \<in> set [0..<length buf div BLOCK_SIZE]" and b: "length b = length buf"
    then show "safe ov (glob_ok H) (bindM (liftO (slice (i * BLOCK_SIZE) ((i + 1) * BLOCK_SIZE) b)) (\<lambda>dst.
      bindM (disk_read_block H (lba + word_of_nat i) dst) (\<lambda>dst. ret (splice (i * BLOCK_SIZE) dst b)))) (\<lambda>b. length b = length buf)"
      using block_in_buffer [of i "length buf"]
      by (intro safe_bindM [OF safe_slice] safe_bindM [OF safe_disk_blocks(2) [OF H]] safe_ret) (auto simp: splice_def)
  qed simp
  then show ?thesis unfolding disk0_read_def Let_def
    by (intro safe_if safe_ret safe_fail safe_bindM) auto
qed

lemma safe_node_write: "hw_ok H \<Longrightarrow> safe ov (glob_ok H) (node_write H n off buf) (\<lambda>_. True)"
  unfolding node_write_def console_write_def serial_write_def
  by (cases n) (auto intro!: safe_intros safe_gets safe_disk0_write split: option.split)

lemma safe_node_read: "hw_ok H \<Longrightarrow> safe ov (glob_ok H) (node_read H n off buf) (\<lambda>_. True)"
  unfolding node_read_def by (cases n) (auto intro!: safe_intros safe_disk0_read)

lemma safe_flat_name [safe_intros]: "safe ov I (liftO (flat_name rel)) (\<lambda>_. True)"
  by (rule safe_liftO) (simp_all add: flat_name_Ok panic_ok_iff)

lemma safe_dev [safe_intros]:
  assumes "hw_ok H"
  shows "safe ov (glob_ok H) (dev_write_at H rel off buf) (\<lambda>_. True)" "safe ov (glob_ok H) (dev_read_at H rel off buf) (\<lambda>_. True)"
    and "safe ov (glob_ok H) (dev_write_file H rel buf) (\<lambda>_. True)"
proof -
  show w: "safe ov (glob_ok H) (dev_write_at H rel off buf) (\<lambda>_. True)" for off
    unfolding dev_write_at_def by (auto intro!: safe_intros safe_node_write assms split: option.split)
  show "safe ov (glob_ok H) (dev_read_at H rel off buf) (\<lambda>_. True)"
    unfolding dev_read_at_def by (auto intro!: safe_intros safe_node_read assms split: option.split)
  show "safe ov (glob_ok H) (dev_write_file H rel buf) (\<lambda>_. True)"
    unfolding dev_write_file_def by (auto intro!: safe_intros w)
qed

section \<open>The backends\<close>

lemma safe_on_globals:
  "safe ov (glob_ok H) m Q \<Longrightarrow> safe ov (mounted_inv ov H) (on_globals m) Q"
  unfolding on_globals_def by (erule safe_on_part) (auto simp: mounted_inv_def)

lemma safe_on_drive:
  "safe ov (\<lambda>_. True) m Q \<Longrightarrow> safe ov (mounted_inv ov H) (on_drive m) Q"
  unfolding on_drive_def by (rule safe_on_globals, erule safe_on_part) simp_all

text \<open>A tmpfs operation: its outcome is no panic and the root stays a directory.\<close>

lemma spec_root:
  "\<not> panics (fst (spec_write p data v))" "snd (spec_write p data v) [] = v []"
  "\<not> panics (fst (spec_append p data v))" "snd (spec_append p data v) [] = v []"
  "\<not> panics (fst (spec_create_dir p v))" "snd (spec_create_dir p v) [] = v []"
  "\<not> panics (fst (spec_remove p v))" "snd (spec_remove p v) [] = v []"
  by (auto simp: spec_write_def spec_append_def spec_create_dir_def spec_remove_def spec_in_parent_def
      split: option.splits entry.splits)

lemma safe_on_tmp:
  assumes "abs_run x = y" "\<not> panics (fst y)" "snd y [] = view (root t) []" "backend_ok (TmpBackend t)"
  shows "on_tmp x (g, b) = Some (r, s) \<Longrightarrow> glob_ok H g \<Longrightarrow> mounted_inv ov H s \<and> panic_ok ov r"
proof -
  have "\<not> panics (fst x)" "view (root (snd x)) [] = view (root t) []"
    using assms(1-3) by (auto simp: abs_run_def)
  then have "\<not> panics (fst x)" "kind (root (snd x)) = DirE" using assms(4) by (simp_all add: backend_ok_def)
  then show "on_tmp x (g, b) = Some (r, s) \<Longrightarrow> glob_ok H g \<Longrightarrow> mounted_inv ov H s \<and> panic_ok ov r"
    by (auto simp: on_tmp_def mounted_inv_def backend_ok_def intro: panic_okI)
qed

lemmas tmp_views = tmp_create_file_view tmp_write_file_view tmp_append_file_view tmp_create_dir_view tmp_remove_view

text \<open>A method dispatched on the backend is safe when it is on each of the four.\<close>

lemma safe_backend:
  assumes "\<And>vol. vol_ok vol \<Longrightarrow> ov \<Longrightarrow> safe ov (mounted_inv ov H) (f vol) (\<lambda>_. True)"
    and "\<And>r. safe ov (mounted_inv ov H) (m r) (\<lambda>_. True)"
    and "\<And>t g r s. backend_ok (TmpBackend t) \<Longrightarrow> glob_ok H g \<Longrightarrow> n t (g, TmpBackend t) = Some (r, s) \<Longrightarrow> mounted_inv ov H s \<and> panic_ok ov r"
    and "safe ov (mounted_inv ov H) d (\<lambda>_. True)"
  shows "safe ov (mounted_inv ov H) (bindM (gets snd) (\<lambda>b. case b of
     FatBackend vol \<Rightarrow> f vol | RamBackend r \<Rightarrow> m r | TmpBackend t \<Rightarrow> n t | DevBackend \<Rightarrow> d)) (\<lambda>_. True)"
proof (rule safeI, unfold bindM_gets)
  fix s r s'
  assume s: "mounted_inv ov H s" and run: "(case snd s of FatBackend vol \<Rightarrow> f vol | RamBackend r \<Rightarrow> m r
      | TmpBackend t \<Rightarrow> n t | DevBackend \<Rightarrow> d) s = Some (r, s')"
  show "mounted_inv ov H s' \<and> panic_ok ov r \<and> (\<forall>x. r = Ok x \<longrightarrow> True)"
  proof (cases "snd s")
    case (FatBackend vol)
    with s have "vol_ok vol" ov by (simp_all add: mounted_inv_def backend_ok_def)
    from safeD [OF assms(1) [OF this] s] run FatBackend show ?thesis by auto
  next
    case (RamBackend x)
    from safeD [OF assms(2) s] run RamBackend show ?thesis by auto
  next
    case (TmpBackend t)
    with assms(3) [of t "fst s" r s'] s run show ?thesis by (cases s) (auto simp: mounted_inv_def)
  next
    case DevBackend
    from safeD [OF assms(4) s] run DevBackend show ?thesis by auto
  qed
qed

lemma hw_sane: "hw_ok H \<Longrightarrow> sane_device (blockdev H)"
  by (simp add: hw_ok_def sane_device_def)

lemma safe_default [safe_intros]: "safe ov I (liftO default_write_method) Q"
  by (rule safe_liftO) (simp_all add: default_write_method_def)

lemma tmp_reads_no_Panic: "\<not> panics (tmp_read_file t p)" "\<not> panics (tmp_list_dir t p)"
  by (auto simp: tmp_read_file_def tmp_list_dir_def split: outcome.splits node.splits)

lemma ram_reads_no_Panic: "\<not> panics (ram_read_file n r p)" "\<not> panics (ram_list_dir r p)"
  by (auto simp: ram_read_file_def ram_list_dir_def split: outcome.splits ram_node.splits)

lemma dev_reads_no_Panic: "\<not> panics (dev_read_file p)" "\<not> panics (dev_list_dir p)"
  using flat_name_Ok [of p] by (auto simp: dev_read_file_def dev_list_dir_def split: outcome.splits)

lemma safe_bk_reads:
  assumes H: "hw_ok H"
  shows "safe ov (mounted_inv ov H) (bk_read_file H rel) (\<lambda>_. True)"
    and "safe ov (mounted_inv ov H) (bk_list_dir H rel) (\<lambda>_. True)"
    and "safe ov (mounted_inv ov H) (bk_is_dir H rel) (\<lambda>_. True)"
  unfolding bk_read_file_def bk_list_dir_def bk_is_dir_def
  by (rule safe_backend; auto intro!: safe_on_drive safe_intros safe_liftO safe_gets sane_device.ok_read_file
      sane_device.ok_list_dir sane_device.ok_is_dir hw_sane H tmp_reads_no_Panic ram_reads_no_Panic dev_reads_no_Panic
      panic_okI simp: liftO_run ret_run mounted_inv_def)+

lemma safe_write_backend:
  assumes "\<And>vol. vol_ok vol \<Longrightarrow> safe True (\<lambda>_. True) (f vol) (\<lambda>_. True)"
    and "\<And>t. abs_run (n t) = y t" "\<And>t. \<not> panics (fst (y t))" "\<And>t. snd (y t) [] = view (root t) []"
    and "safe ov (mounted_inv ov H) d (\<lambda>_. True)"
  shows "safe ov (mounted_inv ov H) (bindM (gets snd) (\<lambda>b. case b of
     FatBackend vol \<Rightarrow> on_drive (f vol) | RamBackend r \<Rightarrow> liftO default_write_method
   | TmpBackend t \<Rightarrow> on_tmp (n t) | DevBackend \<Rightarrow> d)) (\<lambda>_. True)"
proof (rule safe_backend [OF _ safe_default _ assms(5)])
  show "safe ov (mounted_inv ov H) (on_drive (f vol)) (\<lambda>_. True)" if "vol_ok vol" ov for vol
    using safe_on_drive [OF assms(1) [OF that(1)], of H] that(2) by simp
qed (rule safe_on_tmp [OF assms(2-4)])

lemma safe_bk_writes:
  assumes H: "hw_ok H"
  shows "safe ov (mounted_inv ov H) (bk_create_file H rel) (\<lambda>_. True)"
    and "safe ov (mounted_inv ov H) (bk_write_file H rel data) (\<lambda>_. True)"
    and "safe ov (mounted_inv ov H) (bk_append_file H rel data) (\<lambda>_. True)"
    and "safe ov (mounted_inv ov H) (bk_create_dir H rel) (\<lambda>_. True)"
    and "safe ov (mounted_inv ov H) (bk_remove H rel) (\<lambda>_. True)"
proof -
  note S = hw_sane [OF H]
  show "safe ov (mounted_inv ov H) (bk_create_file H rel) (\<lambda>_. True)" unfolding bk_create_file_def
    by (rule safe_write_backend [OF sane_device.ok_create_file [OF S] tmp_create_file_view spec_root(1,2) safe_default])
  show "safe ov (mounted_inv ov H) (bk_write_file H rel data) (\<lambda>_. True)" unfolding bk_write_file_def
    by (rule safe_write_backend [OF sane_device.ok_write_file [OF S] tmp_write_file_view spec_root(1,2)
          safe_on_globals [OF safe_dev(3) [OF H]]])
  show "safe ov (mounted_inv ov H) (bk_append_file H rel data) (\<lambda>_. True)" unfolding bk_append_file_def
    by (rule safe_write_backend [OF sane_device.ok_append_file [OF S] tmp_append_file_view spec_root(3,4) safe_default])
  show "safe ov (mounted_inv ov H) (bk_create_dir H rel) (\<lambda>_. True)" unfolding bk_create_dir_def
    by (rule safe_write_backend [OF sane_device.ok_create_dir [OF S] tmp_create_dir_view spec_root(5,6) safe_default])
  show "safe ov (mounted_inv ov H) (bk_remove H rel) (\<lambda>_. True)" unfolding bk_remove_def
    by (rule safe_write_backend [OF sane_device.ok_remove [OF S] tmp_remove_view spec_root(7,8) safe_default])
qed

section \<open>The VFS\<close>

lemma safe_on_mount:
  assumes "safe ov (mounted_inv ov H) m Q" "kernel_inv ov H k" "resolve (vfs k) p = Ok (i, rel)" "on_mount i m k = Some (r, k')"
  shows "kernel_inv ov H k' \<and> panic_ok ov r \<and> (\<forall>x. r = Ok x \<longrightarrow> Q x)"
proof -
  have good: "vfs_good k" and g: "glob_ok H (glob k)" using assms(2) by (simp_all add: kernel_inv_def kernel_ok_def)
  obtain g' b' where run: "m (glob k, fs (mounts (vfs k) ! i)) = Some (r, (g', b'))"
    and k': "k' = k\<lparr>glob := g', vfs := set_fs i b' (vfs k)\<rparr>"
    using assms(4) by (auto simp: on_mount_run)
  have "mounted_inv ov H (glob k, fs (mounts (vfs k) ! i))"
    using g vfs_good_mount [OF good assms(3)] resolve_OkD(1) [OF _ assms(3)] assms(2) good
    by (auto simp: mounted_inv_def kernel_inv_def fat_mounted_def list_ex_iff vfs_good_def)
  note M = safeD [OF assms(1) this run]
  then have "kernel_inv ov H k'" using vfs_good_set_fs [OF good] assms(2)
    by (auto simp: k' kernel_inv_def kernel_ok_def mounted_inv_def fat_mounted_def list_ex_iff dest: mounts_set_fs)
  with M show ?thesis by blast
qed

lemma safe_dispatch:
  assumes "\<And>rel. safe ov (mounted_inv ov H) (op rel) Q"
  shows "safe ov (kernel_inv ov H) (dispatch p op) Q"
proof (rule safeI)
  fix k r k'
  assume k: "kernel_inv ov H k" and run: "dispatch p op k = Some (r, k')"
  show "kernel_inv ov H k' \<and> panic_ok ov r \<and> (\<forall>x. r = Ok x \<longrightarrow> Q x)"
  proof (cases "resolve (vfs k) p")
    case (Ok x)
    obtain i rel where x: "x = (i, rel)" by (cases x)
    with Ok run have "on_mount i (op rel) k = Some (r, k')" by (simp add: dispatch_run)
    from safe_on_mount [OF assms k _ this] Ok x show ?thesis by blast
  qed (use k run in \<open>auto simp: dispatch_run\<close>)
qed

lemma safe_vfs [safe_intros]:
  assumes H: "hw_ok H"
  shows "safe ov (kernel_inv ov H) (vfs_read_file H p) (\<lambda>_. True)"
    and "safe ov (kernel_inv ov H) (vfs_create_file H p) (\<lambda>_. True)"
    and "safe ov (kernel_inv ov H) (vfs_write_file H p data) (\<lambda>_. True)"
    and "safe ov (kernel_inv ov H) (vfs_append_file H p data) (\<lambda>_. True)"
    and "safe ov (kernel_inv ov H) (vfs_create_dir H p) (\<lambda>_. True)"
    and "safe ov (kernel_inv ov H) (vfs_remove H p) (\<lambda>_. True)"
  unfolding vfs_read_file_def vfs_create_file_def vfs_write_file_def vfs_append_file_def vfs_create_dir_def vfs_remove_def
  by (rule safe_dispatch safe_bk_reads safe_bk_writes H)+

lemma safe_vfs_list_dir [safe_intros]: "hw_ok H \<Longrightarrow> safe ov (kernel_inv ov H) (vfs_list_dir H p) (\<lambda>_. True)"
  unfolding vfs_list_dir_def by (auto intro!: safe_intros safe_dispatch safe_bk_reads safe_gets)

lemma safe_vfs_is_dir [safe_intros]: "hw_ok H \<Longrightarrow> safe ov (kernel_inv ov H) (vfs_is_dir H p) (\<lambda>_. True)"
proof (rule safeI)
  fix k r k'
  assume H: "hw_ok H" and k: "kernel_inv ov H k" and run: "vfs_is_dir H p k = Some (r, k')"
  show "kernel_inv ov H k' \<and> panic_ok ov r \<and> (\<forall>x. r = Ok x \<longrightarrow> True)"
    using safe_on_mount [OF safe_bk_reads(3) [OF H] k] k run
    by (auto simp: vfs_is_dir_run split: if_splits outcome.splits)
qed

text \<open>The offset methods.\<close>

lemma safe_vfs_at [safe_intros]:
  assumes H: "hw_ok H"
  shows "safe ov (kernel_inv ov H) (vfs_read_at H p off buf) (\<lambda>_. True)" "safe ov (kernel_inv ov H) (vfs_write_at H p off buf) (\<lambda>_. True)"
proof -
  have rd: "safe ov (mounted_inv ov H) (bindM (bk_read_file H rel) (\<lambda>data. liftO (default_read_at (Ok data) off buf))) (\<lambda>_. True)" for rel
    by (auto intro!: safe_intros safe_bk_reads H safe_liftO simp: default_read_at_def Let_def split: if_splits)
  show "safe ov (kernel_inv ov H) (vfs_read_at H p off buf) (\<lambda>_. True)"
    unfolding vfs_read_at_def bk_read_at_def
    by (rule safe_dispatch, rule safe_gets_bind) (auto intro!: rd safe_on_globals safe_dev H split: backend.split)
  show "safe ov (kernel_inv ov H) (vfs_write_at H p off buf) (\<lambda>_. True)"
    unfolding vfs_write_at_def bk_write_at_def
    by (rule safe_dispatch, rule safe_gets_bind) (auto intro!: safe_default safe_on_globals safe_dev H split: backend.split)
qed

end
