(* ===== verification/Shell.thy ===== *)
theory Shell
  imports KernelSafe
begin

text \<open>
  The shell of \<^verbatim>\<open>kernel/src/shell.rs\<close>: the commands, \<open>execute_line\<close> and the line editor of
  \<open>shell_loop\<close>, with \<open>route_rawkey\<close> of \<^verbatim>\<open>kernel/src/task/keyboard.rs\<close>. The scancode decoder of the
  \<open>pc_keyboard\<close> crate is a parameter. A shell computation has no error: what the file system
  reports becomes text.

  Shown: the working directory stays canonical and the mount table well formed under every command;
  every output is empty, newline-terminated or the clear request; \<open>ls\<close> never reaches its
  \<open>unreachable!\<close>; text written to a tmpfs file is what \<open>cat\<close> prints; and the line editor executes
  exactly the lines its specification assembles from the keys, each of at most 120 printable
  characters.
\<close>

section \<open>Commands\<close>

abbreviation newline_char :: char where
  "newline_char \<equiv> CHR 0x0A"

definition HELP_TEXT :: string where
  "HELP_TEXT =
     ''willo shell '' @ [CHR 0xE2, CHR 0x80, CHR 0x94] @ '' built-in commands:'' @ [newline_char] @
     ''  pwd                  print working directory'' @ [newline_char] @
     ''  ls [path]            list entries in path (or cwd)'' @ [newline_char] @
     ''  cd <path>            change directory'' @ [newline_char] @
     ''  cat <path>           print file contents'' @ [newline_char] @
     ''  echo <text>          echo arguments'' @ [newline_char] @
     ''  clear                clear the screen'' @ [newline_char] @
     ''  mount                show what is mounted at /'' @ [newline_char] @
     ''  uptime               show timer ticks since boot'' @ [newline_char] @
     ''  touch <path>         create empty file (or truncate)'' @ [newline_char] @
     ''  mkdir <path>         create directory'' @ [newline_char] @
     ''  rm <path>            delete file or empty directory'' @ [newline_char] @
     ''  write <path> <text>  overwrite file with text'' @ [newline_char] @
     ''  help                 show this help'' @ [newline_char]"

definition CLEAR_SENTINEL :: string where
  "CLEAR_SENTINEL = CHR 0x1B # ''CLR''"

record ('d, 'p) Shell =
  kern :: "('d, 'p) kernel"
  cwd :: string

type_synonym ('d, 'p, 'a) sh = "(('d, 'p) Shell, unit, 'a) io"

definition shell_new :: "('d, 'p) kernel \<Rightarrow> ('d, 'p) Shell" where
  "shell_new k = \<lparr>kern = k, cwd = ''/''\<rparr>"

definition prompt :: "('d, 'p) Shell \<Rightarrow> string" where
  "prompt s = ''willo:'' @ cwd s @ ''$ ''"

text \<open>\<open>match self.vfs.op(path) { ... }\<close>\<close>

definition on_vfs :: "('d, 'p, 'a) kio \<Rightarrow> (FsError + 'a \<Rightarrow> ('d, 'p, 'b) sh) \<Rightarrow> ('d, 'p, 'b) sh" where
  "on_vfs m k = attempt (on_part kern (\<lambda>k s. s\<lparr>kern := k\<rparr>) m) k"

definition sh_is_dir :: "('d, 'p) hardware \<Rightarrow> string \<Rightarrow> ('d, 'p, bool) sh" where
  "sh_is_dir H p = on_vfs (vfs_is_dir H p) (\<lambda>r. case r of Inr b \<Rightarrow> ret b | Inl _ \<Rightarrow> ret False)"

definition message :: "string \<Rightarrow> string \<Rightarrow> ('d, 'p, string) sh" where
  "message what p = ret (what @ p @ [newline_char])"

definition ls_line :: "('d, 'p) hardware \<Rightarrow> string \<Rightarrow> string \<Rightarrow> string \<Rightarrow> ('d, 'p, string) sh" where
  "ls_line H target name out =
     bindM (sh_is_dir H (trim_end_matches slash target @ ''/'' @ name)) (\<lambda>d.
     ret (out @ name @ (if d then ''/'' else []) @ [newline_char]))"

definition cmd_ls :: "('d, 'p) hardware \<Rightarrow> string option \<Rightarrow> ('d, 'p, string) sh" where
  "cmd_ls H path = bindM (gets cwd) (\<lambda>cwd.
     let target = (case path of Some p \<Rightarrow> normalize cwd p | None \<Rightarrow> cwd)
     in on_vfs (vfs_list_dir H target) (\<lambda>r. case r of
          Inr entries \<Rightarrow> foldM (ls_line H target) (sort entries) []
        | Inl e \<Rightarrow> (case e of
            NotFound \<Rightarrow> message ''ls: not found: '' target
          | NotADir \<Rightarrow> message ''ls: not a directory: '' target
          | IsADir \<Rightarrow> panic
          | Io \<Rightarrow> message ''ls: i/o error: '' target
          | Unsupported \<Rightarrow> message ''ls: unsupported: '' target)))"

definition cmd_cd :: "('d, 'p) hardware \<Rightarrow> string option \<Rightarrow> ('d, 'p, string) sh" where
  "cmd_cd H path = bindM (gets cwd) (\<lambda>cwd.
     let p = (case path of Some p \<Rightarrow> normalize cwd p | None \<Rightarrow> ''/'')
     in bindM (sh_is_dir H p) (\<lambda>d.
          if \<not> d then message ''cd: not a directory: '' p
          else bindM (modify (\<lambda>s. s\<lparr>cwd := p\<rparr>)) (\<lambda>_. ret [])))"

text \<open>Bytes that are not UTF-8 are shown as one character each.\<close>

definition cat_text :: "u8 list \<Rightarrow> string" where
  "cat_text bytes =
     (let s = (case from_utf8 bytes of
                 Some _ \<Rightarrow> map char_of_byte bytes
               | None \<Rightarrow> map char_of_byte (encode_str (map unat bytes)))
      in if s \<noteq> [] \<and> last s = newline_char then s else s @ [newline_char])"

definition cmd_cat :: "('d, 'p) hardware \<Rightarrow> string option \<Rightarrow> ('d, 'p, string) sh" where
  "cmd_cat H path = (case path of
     None \<Rightarrow> message ''cat: missing operand'' []
   | Some p \<Rightarrow> bindM (gets cwd) (\<lambda>cwd.
       let p = normalize cwd p
       in on_vfs (vfs_read_file H p) (\<lambda>r. case r of
            Inr bytes \<Rightarrow> ret (cat_text bytes)
          | Inl e \<Rightarrow> (case e of
              NotFound \<Rightarrow> message ''cat: not found: '' p
            | IsADir \<Rightarrow> message ''cat: is a directory: '' p
            | NotADir \<Rightarrow> message ''cat: not a directory: '' p
            | Io \<Rightarrow> message ''cat: i/o error: '' p
            | Unsupported \<Rightarrow> message ''cat: unsupported: '' p))))"

text \<open>The report of a write method: nothing, \<open>read-only filesystem\<close>, or the path and the error.\<close>

definition write_report :: "string \<Rightarrow> string \<Rightarrow> FsError + unit \<Rightarrow> ('d, 'p, string) sh" where
  "write_report cmd p r = (case r of
     Inr _ \<Rightarrow> ret []
   | Inl e \<Rightarrow> if e = Unsupported then message (cmd @ '': read-only filesystem'') []
              else message (cmd @ '': '' @ p @ '': '') (fs_error_debug e))"

definition cmd_touch :: "('d, 'p) hardware \<Rightarrow> string option \<Rightarrow> ('d, 'p, string) sh" where
  "cmd_touch H path = (case path of
     None \<Rightarrow> message ''touch: missing operand'' []
   | Some p \<Rightarrow> bindM (gets cwd) (\<lambda>cwd. let p = normalize cwd p
       in on_vfs (vfs_create_file H p) (write_report ''touch'' p)))"

definition cmd_mkdir :: "('d, 'p) hardware \<Rightarrow> string option \<Rightarrow> ('d, 'p, string) sh" where
  "cmd_mkdir H path = (case path of
     None \<Rightarrow> message ''mkdir: missing operand'' []
   | Some p \<Rightarrow> bindM (gets cwd) (\<lambda>cwd. let p = normalize cwd p
       in on_vfs (vfs_create_dir H p) (write_report ''mkdir'' p)))"

definition cmd_rm :: "('d, 'p) hardware \<Rightarrow> string option \<Rightarrow> ('d, 'p, string) sh" where
  "cmd_rm H path = (case path of
     None \<Rightarrow> message ''rm: missing operand'' []
   | Some p \<Rightarrow> bindM (gets cwd) (\<lambda>cwd. let p = normalize cwd p
       in on_vfs (vfs_remove H p) (write_report ''rm'' p)))"

definition cmd_write :: "('d, 'p) hardware \<Rightarrow> string list \<Rightarrow> ('d, 'p, string) sh" where
  "cmd_write H args = (case args of
     [] \<Rightarrow> message ''write: missing operand: <path> <text...>'' []
   | p # rest \<Rightarrow> bindM (gets cwd) (\<lambda>cwd.
       let path = normalize cwd p; content = join '' '' rest @ [newline_char]
       in on_vfs (vfs_write_file H path (as_bytes content)) (write_report ''write'' path)))"

definition first_arg :: "string list \<Rightarrow> string option" where
  "first_arg args = (case args of [] \<Rightarrow> None | a # _ \<Rightarrow> Some a)"

definition mount_lines :: "Vfs \<Rightarrow> string" where
  "mount_lines v = concat (map (\<lambda>(p, b). p @ '' on '' @ b @ [newline_char]) (vfs_mounts v))"

text \<open>\<open>str::split_ascii_whitespace\<close>\<close>

definition is_ascii_whitespace :: "char \<Rightarrow> bool" where
  "is_ascii_whitespace c \<longleftrightarrow> c \<in> {CHR 0x20, CHR 0x09, CHR 0x0A, CHR 0x0C, CHR 0x0D}"

fun words_from :: "string \<Rightarrow> string \<Rightarrow> string list" where
  "words_from w [] = (if w = [] then [] else [w])"
| "words_from w (c # s) =
     (if is_ascii_whitespace c then (if w = [] then words_from [] s else w # words_from [] s)
      else words_from (w @ [c]) s)"

definition split_ascii_whitespace :: "string \<Rightarrow> string list" where
  "split_ascii_whitespace s = words_from [] s"

definition run_command :: "('d, 'p) hardware \<Rightarrow> string \<Rightarrow> string list \<Rightarrow> ('d, 'p, string) sh" where
  "run_command H cmd args =
     (if cmd = ''pwd'' then bindM (gets cwd) (\<lambda>c. ret (c @ [newline_char]))
      else if cmd = ''ls'' then cmd_ls H (first_arg args)
      else if cmd = ''cd'' then cmd_cd H (first_arg args)
      else if cmd = ''cat'' then cmd_cat H (first_arg args)
      else if cmd = ''echo'' then ret (join '' '' args @ [newline_char])
      else if cmd = ''clear'' then ret CLEAR_SENTINEL
      else if cmd = ''mount'' then bindM (gets (vfs \<circ> kern)) (\<lambda>v. ret (mount_lines v))
      else if cmd = ''uptime'' then bindM (gets (ticks \<circ> glob \<circ> kern)) (\<lambda>t. ret (show_nat (unat t) @ '' ticks'' @ [newline_char]))
      else if cmd = ''touch'' then cmd_touch H (first_arg args)
      else if cmd = ''mkdir'' then cmd_mkdir H (first_arg args)
      else if cmd = ''rm'' then cmd_rm H (first_arg args)
      else if cmd = ''write'' then cmd_write H args
      else if cmd = ''help'' then ret HELP_TEXT
      else message ''willo: command not found: '' cmd)"

definition execute_line :: "('d, 'p) hardware \<Rightarrow> string \<Rightarrow> ('d, 'p, string) sh" where
  "execute_line H line = (case split_ascii_whitespace line of
     [] \<Rightarrow> ret []
   | cmd # args \<Rightarrow> run_command H cmd args)"

section \<open>The driver\<close>

text \<open>The key codes of the decoder; only three of them mean something to the kernel.\<close>

datatype KeyCode = PageUp | PageDown | EndKey | OtherKey nat

datatype DecodedKey = RawKey KeyCode | Unicode rchar

definition route_rawkey :: "('d, 'p) hardware \<Rightarrow> KeyCode \<Rightarrow> (('d, 'p) globals, 'e, unit) io" where
  "route_rawkey H k = on_console (bindM (gets viewport_rows) (\<lambda>rows.
     let n = max (rows - 1) 1
     in case k of
          PageUp \<Rightarrow> scroll_up (glyphs H) n
        | PageDown \<Rightarrow> scroll_down (glyphs H) n
        | EndKey \<Rightarrow> scroll_end (glyphs H)
        | OtherKey _ \<Rightarrow> ret ()))"

record ('d, 'p, 'b) driver =
  shell :: "('d, 'p) Shell"
  line :: string
  keyboard :: 'b

type_synonym ('d, 'p, 'b, 'a) drv = "(('d, 'p, 'b) driver, unit, 'a) io"

definition put_glob :: "('d, 'p) globals \<Rightarrow> ('d, 'p, 'b) driver \<Rightarrow> ('d, 'p, 'b) driver" where
  "put_glob g s = s\<lparr>shell := shell s\<lparr>kern := kern (shell s)\<lparr>glob := g\<rparr>\<rparr>\<rparr>"

definition on_devices :: "(('d, 'p) globals, unit, 'a) io \<Rightarrow> ('d, 'p, 'b, 'a) drv" where
  "on_devices m = on_part (\<lambda>s. glob (kern (shell s))) put_glob m"

text \<open>\<open>print!("{}", s); serial_print!("{}", s)\<close>\<close>

definition show_text :: "('d, 'p) hardware \<Rightarrow> string \<Rightarrow> ('d, 'p, 'b, unit) drv" where
  "show_text H s = bindM (on_devices (print H (chars s))) (\<lambda>_. on_devices (serial_print H s))"

definition show_prompt :: "('d, 'p) hardware \<Rightarrow> ('d, 'p, 'b, unit) drv" where
  "show_prompt H = bindM (gets (prompt \<circ> shell)) (\<lambda>p. show_text H p)"

definition show_output :: "('d, 'p) hardware \<Rightarrow> string \<Rightarrow> ('d, 'p, 'b, unit) drv" where
  "show_output H out =
     (if out = CLEAR_SENTINEL
      then bindM (on_devices (on_console clear)) (\<lambda>_.
           on_devices (serial_print H ([CHR 0x1B] @ ''[2J'' @ [CHR 0x1B] @ ''[H'')))
      else if out \<noteq> [] then show_text H out
      else ret ())"

definition on_enter :: "('d, 'p) hardware \<Rightarrow> ('d, 'p, 'b, unit) drv" where
  "on_enter H = bindM (show_text H [newline_char]) (\<lambda>_.
     bindM (gets line) (\<lambda>l.
     bindM (on_part shell (\<lambda>x s. s\<lparr>shell := x\<rparr>) (execute_line H l)) (\<lambda>out.
     bindM (show_output H out) (\<lambda>_.
     bindM (modify (\<lambda>s. s\<lparr>line := []\<rparr>)) (\<lambda>_.
     show_prompt H)))))"

definition on_backspace :: "('d, 'p) hardware \<Rightarrow> ('d, 'p, 'b, unit) drv" where
  "on_backspace H = bindM (gets line) (\<lambda>l.
     if l = [] then ret ()
     else bindM (modify (\<lambda>s. s\<lparr>line := butlast l\<rparr>)) (\<lambda>_.
          show_text H [CHR 0x08, CHR 0x20, CHR 0x08]))"

definition handle_key :: "('d, 'p) hardware \<Rightarrow> DecodedKey \<Rightarrow> ('d, 'p, 'b, unit) drv" where
  "handle_key H key = (case key of
     RawKey k \<Rightarrow> on_devices (route_rawkey H k)
   | Unicode c \<Rightarrow>
       if c = 0x0A then on_enter H
       else if c = 0x08 \<or> c = 0x7F then on_backspace H
       else bindM (gets line) (\<lambda>l.
         if 0x20 \<le> c \<and> c \<le> 0x7E \<and> length l < 120
         then bindM (modify (\<lambda>s. s\<lparr>line := l @ [char_of c]\<rparr>)) (\<lambda>_. show_text H [char_of c])
         else ret ()))"

text \<open>One turn of the loop; \<open>dec\<close> is \<open>add_byte\<close> followed by \<open>process_keyevent\<close>.\<close>

definition shell_scancode ::
    "('d, 'p) hardware \<Rightarrow> (u8 \<Rightarrow> 'b \<Rightarrow> DecodedKey option \<times> 'b) \<Rightarrow> u8 \<Rightarrow> ('d, 'p, 'b, unit) drv" where
  "shell_scancode H dec scancode = bindM (gets (\<lambda>s. dec scancode (keyboard s))) (\<lambda>(key, kb).
     bindM (modify (\<lambda>s. s\<lparr>keyboard := kb\<rparr>)) (\<lambda>_.
     case key of None \<Rightarrow> ret () | Some k \<Rightarrow> handle_key H k))"

text \<open>
  What the loop sees of the world: scancodes from the stream, and timer interrupts, each of which counts one tick. A tick
  in the middle of a command is as one before it, for a command reads the counter at most once.
\<close>

datatype event = TimerTick | Scancode u8

definition timer_tick :: "('d, 'p, 'b, unit) drv" where
  "timer_tick = on_devices (modify (\<lambda>g. g\<lparr>ticks := ticks g + 1\<rparr>))"

definition shell_event ::
    "('d, 'p) hardware \<Rightarrow> (u8 \<Rightarrow> 'b \<Rightarrow> DecodedKey option \<times> 'b) \<Rightarrow> event \<Rightarrow> ('d, 'p, 'b, unit) drv" where
  "shell_event H dec e = (case e of TimerTick \<Rightarrow> timer_tick | Scancode c \<Rightarrow> shell_scancode H dec c)"

definition shell_loop ::
    "('d, 'p) hardware \<Rightarrow> (u8 \<Rightarrow> 'b \<Rightarrow> DecodedKey option \<times> 'b) \<Rightarrow> event list \<Rightarrow> ('d, 'p, 'b, unit) drv" where
  "shell_loop H dec events =
     bindM (show_prompt H) (\<lambda>_. foldM (\<lambda>e _. shell_event H dec e) events ())"

definition shell_start :: "('d, 'p) kernel \<Rightarrow> 'b \<Rightarrow> ('d, 'p, 'b) driver" where
  "shell_start k kb = \<lparr>shell = shell_new k, line = [], keyboard = kb\<rparr>"

section \<open>The invariant\<close>

definition shell_ok :: "('d, 'p) hardware \<Rightarrow> ('d, 'p) Shell \<Rightarrow> bool" where
  "shell_ok H s \<longleftrightarrow> kernel_ok H (kern s) \<and> canonical (cwd s)"

definition shell_inv :: "bool \<Rightarrow> ('d, 'p) hardware \<Rightarrow> ('d, 'p) Shell \<Rightarrow> bool" where
  "shell_inv ov H s \<longleftrightarrow> kernel_inv ov H (kern s) \<and> canonical (cwd s)"

definition terminated :: "string \<Rightarrow> bool" where
  "terminated out \<longleftrightarrow> out = [] \<or> last out = newline_char"

lemma safe_on_vfs_err:
  assumes m: "safe ov (kernel_inv ov H) m (\<lambda>_. True)"
    and err: "\<And>k e k'. kernel_inv ov H k \<Longrightarrow> m k = Some (Err e, k') \<Longrightarrow> e \<in> E"
    and f: "\<And>x. safe ov (shell_inv ov H) (f (Inr x)) Q" "\<And>e. e \<in> E \<Longrightarrow> safe ov (shell_inv ov H) (f (Inl e)) Q"
  shows "safe ov (shell_inv ov H) (on_vfs m f) Q"
proof (rule safeI)
  fix s r s''
  assume s: "shell_inv ov H s" and run: "on_vfs m f s = Some (r, s'')"
  then obtain a k' where m': "m (kern s) = Some (a, k')"
    by (auto simp: on_vfs_def attempt_def on_part_def bind_eq_Some_conv)
  note M = safeD [OF m _ m']
  have ok: "shell_inv ov H (s\<lparr>kern := k'\<rparr>)" "panic_ok ov a" using s M by (auto simp: shell_inv_def)
  have part: "on_part kern (\<lambda>k s. s\<lparr>kern := k\<rparr>) m s = Some (a, s\<lparr>kern := k'\<rparr>)" by (simp add: on_part_def m')
  show "shell_inv ov H s'' \<and> panic_ok ov r \<and> (\<forall>x. r = Ok x \<longrightarrow> Q x)"
  proof (cases a)
    case (Ok x)
    with run part have "f (Inr x) (s\<lparr>kern := k'\<rparr>) = Some (r, s'')" by (simp add: on_vfs_def attempt_Ok)
    from safeD [OF f(1) ok(1) this] show ?thesis by blast
  next
    case (Err e)
    with run part have "f (Inl e) (s\<lparr>kern := k'\<rparr>) = Some (r, s'')" by (simp add: on_vfs_def attempt_Err)
    moreover have "e \<in> E" using err [of "kern s" e k'] m' Err s by (simp add: shell_inv_def)
    ultimately show ?thesis using safeD [OF f(2) ok(1)] by blast
  qed (use ok run part in \<open>auto simp: on_vfs_def attempt_def\<close>)
qed

lemma safe_on_vfs [safe_intros]:
  "safe ov (kernel_inv ov H) m (\<lambda>_. True) \<Longrightarrow> (\<And>x. safe ov (shell_inv ov H) (f x) Q) \<Longrightarrow> safe ov (shell_inv ov H) (on_vfs m f) Q"
  by (rule safe_on_vfs_err [where E = UNIV]) auto

section \<open>The commands\<close>

lemma safe_message [safe_intros]: "safe ov I (message what p) terminated"
  unfolding message_def by (rule safe_ret) (simp add: terminated_def)

lemma safe_sh_is_dir [safe_intros]: "hw_ok H \<Longrightarrow> safe ov (shell_inv ov H) (sh_is_dir H p) (\<lambda>_. True)"
  unfolding sh_is_dir_def by (auto intro!: safe_intros split: sum.split)

lemma safe_cmd_ls: "hw_ok H \<Longrightarrow> safe ov (shell_inv ov H) (cmd_ls H path) terminated"
proof -
  assume H: "hw_ok H"
  have ls: "safe ov (shell_inv ov H) (foldM (ls_line H target) names []) terminated" for target names
    unfolding ls_line_def
    by (rule safe_foldM) (auto intro!: safe_intros H simp: terminated_def)
  have "e \<in> - {IsADir}" if "kernel_inv ov H k" "vfs_list_dir H p k = Some (Err e, k')" for p k e k'
    using that vfs.ls_not_IsADir [of k H p k'] by (auto simp: kernel_inv_def kernel_ok_def)
  note err = this
  show ?thesis
    unfolding cmd_ls_def Let_def
    by (rule safe_gets_bind, rule safe_on_vfs_err [OF safe_vfs_list_dir [OF H] err], assumption+)
      (auto intro!: ls safe_message split: FsError.split)
qed

lemma safe_cmd_cd: "hw_ok H \<Longrightarrow> safe ov (shell_inv ov H) (cmd_cd H path) terminated"
proof -
  assume H: "hw_ok H"
  have root: "canonical ''/''" by (simp add: canonical_def)
  show ?thesis unfolding cmd_cd_def Let_def
  proof (rule safe_gets_bind)
    fix s
    assume s: "shell_inv ov H s"
    let ?p = "case path of Some p \<Rightarrow> normalize (cwd s) p | None \<Rightarrow> ''/''"
    have "canonical ?p" using s root canonical_normalize [of "cwd s"] by (auto simp: shell_inv_def split: option.split)
    then show "safe ov (shell_inv ov H) (bindM (sh_is_dir H ?p) (\<lambda>d. if \<not> d then message ''cd: not a directory: '' ?p
        else bindM (modify (\<lambda>s. s\<lparr>cwd := ?p\<rparr>)) (\<lambda>_. ret []))) terminated"
      by (auto intro!: safe_intros H simp: shell_inv_def terminated_def)
  qed
qed

lemma terminated_cat: "terminated (cat_text b)"
  by (simp add: terminated_def cat_text_def Let_def)

lemma safe_cmd_cat: "hw_ok H \<Longrightarrow> safe ov (shell_inv ov H) (cmd_cat H path) terminated"
  unfolding cmd_cat_def Let_def
  by (auto intro!: safe_gets_bind safe_on_vfs safe_vfs safe_message safe_ret terminated_cat
      split: option.split sum.split FsError.split)

lemma safe_write_report: "safe ov I (write_report cmd p r) terminated"
  unfolding write_report_def by (auto intro!: safe_message safe_ret simp: terminated_def split: sum.split)

lemma safe_write_cmds:
  assumes "hw_ok H"
  shows "safe ov (shell_inv ov H) (cmd_touch H path) terminated" "safe ov (shell_inv ov H) (cmd_mkdir H path) terminated"
    "safe ov (shell_inv ov H) (cmd_rm H path) terminated" "safe ov (shell_inv ov H) (cmd_write H args) terminated"
  unfolding cmd_touch_def cmd_mkdir_def cmd_rm_def cmd_write_def Let_def
  using assms by (auto intro!: safe_gets_bind safe_on_vfs safe_vfs safe_message safe_write_report
      split: option.split list.split)

lemma terminated_mounts: "terminated (mount_lines v)"
proof -
  have "terminated (concat (map (\<lambda>(p, b). p @ '' on '' @ b @ [newline_char]) xs))" for xs
    by (induction xs rule: rev_induct) (auto simp: terminated_def)
  then show ?thesis by (simp add: mount_lines_def)
qed

lemma terminated_help: "terminated HELP_TEXT"
  unfolding terminated_def HELP_TEXT_def append_assoc [symmetric] by (simp only: last_snoc simp_thms)

lemma safe_run_command:
  assumes H: "hw_ok H"
  shows "safe ov (shell_inv ov H) (run_command H cmd args) (\<lambda>out. terminated out \<or> out = CLEAR_SENTINEL)"
proof -
  let ?Q = "\<lambda>out. terminated out \<or> out = CLEAR_SENTINEL"
  have t: "safe ov (shell_inv ov H) m ?Q" if "safe ov (shell_inv ov H) m terminated" for m :: "('a, 'b, string) sh"
    using that by (rule safe_conseq) simp
  have get: "safe ov (shell_inv ov H) (bindM (gets f) (\<lambda>x. ret (g x))) ?Q" if "\<And>x. terminated (g x)"
    for f :: "('a, 'b) Shell \<Rightarrow> 'c" and g
    by (rule safe_gets_bind, rule safe_ret) (simp add: that)
  show ?thesis
    unfolding run_command_def
    by (intro safe_if t [OF safe_cmd_ls [OF H]] t [OF safe_cmd_cd [OF H]] t [OF safe_cmd_cat [OF H]]
        t [OF safe_write_cmds(1) [OF H]] t [OF safe_write_cmds(2) [OF H]] t [OF safe_write_cmds(3) [OF H]]
        t [OF safe_write_cmds(4) [OF H]] t [OF safe_message] get safe_ret)
      (simp_all add: terminated_help terminated_mounts terminated_def [of "_ @ _"] terminated_def [of "CLEAR_SENTINEL"])
qed

lemma safe_execute_line:
  "hw_ok H \<Longrightarrow> safe ov (shell_inv ov H) (execute_line H l) (\<lambda>out. terminated out \<or> out = CLEAR_SENTINEL)"
  unfolding execute_line_def
  by (cases "split_ascii_whitespace l") (simp_all add: safe_run_command safe_ret terminated_def [of "[]"])

section \<open>The line editor\<close>

definition printable :: "char \<Rightarrow> bool" where
  "printable c \<longleftrightarrow> 0x20 \<le> (of_char c :: nat) \<and> (of_char c :: nat) \<le> 0x7E"

definition driver_ok :: "('d, 'p) hardware \<Rightarrow> ('d, 'p, 'b) driver \<Rightarrow> bool" where
  "driver_ok H s \<longleftrightarrow> shell_ok H (shell s) \<and> length (line s) \<le> 120 \<and> list_all printable (line s)"

definition driver_inv :: "bool \<Rightarrow> ('d, 'p) hardware \<Rightarrow> ('d, 'p, 'b) driver \<Rightarrow> bool" where
  "driver_inv ov H s \<longleftrightarrow> shell_inv ov H (shell s) \<and> length (line s) \<le> 120 \<and> list_all printable (line s)"

lemma driver_inv_ok: "driver_inv ov H s \<Longrightarrow> driver_ok H s"
  by (simp add: driver_inv_def driver_ok_def shell_inv_def shell_ok_def kernel_inv_def)

lemma safe_on_devices [safe_intros]:
  "safe ov (glob_ok H) m Q \<Longrightarrow> safe ov (driver_inv ov H) (on_devices m) Q"
  unfolding on_devices_def
  by (erule safe_on_part) (auto simp: driver_inv_def shell_inv_def kernel_inv_def kernel_ok_def put_glob_def vfs_good_def)

lemma safe_show_text [safe_intros]: "hw_ok H \<Longrightarrow> safe ov (driver_inv ov H) (show_text H s) (\<lambda>_. True)"
  unfolding show_text_def by (intro safe_intros)

lemma safe_show_prompt [safe_intros]: "hw_ok H \<Longrightarrow> safe ov (driver_inv ov H) (show_prompt H) (\<lambda>_. True)"
  unfolding show_prompt_def by (rule safe_gets_bind) (intro safe_intros)

lemma safe_clear [safe_intros]: "hw_ok H \<Longrightarrow> safe ov (glob_ok H) (on_console clear) (\<lambda>_. True)"
  unfolding hw_ok_def
  by (rule safe_on_console, rule returns_conseq [OF returns_fb_step [where op = Clear, simplified]]) blast+

lemma safe_show_output [safe_intros]: "hw_ok H \<Longrightarrow> safe ov (driver_inv ov H) (show_output H out) (\<lambda>_. True)"
  unfolding show_output_def by (intro safe_intros) simp_all

lemma safe_route_rawkey [safe_intros]: "hw_ok H \<Longrightarrow> safe ov (glob_ok H) (route_rawkey H k) (\<lambda>_. True)"
proof -
  assume H: "hw_ok H"
  have "returns (console (glyphs H) h) (bindM (gets viewport_rows) (\<lambda>rows. let n = max (rows - 1) 1
      in case k of PageUp \<Rightarrow> scroll_up (glyphs H) n | PageDown \<Rightarrow> scroll_down (glyphs H) n
        | EndKey \<Rightarrow> scroll_end (glyphs H) | OtherKey _ \<Rightarrow> ret ())) (\<lambda>_. console (glyphs H) h)" for h
    using H by (intro returns_get_bind, cases k)
      (auto simp: hw_ok_def Let_def intro: returns_ret returns_conseq [OF returns_scroll(1)]
        returns_conseq [OF returns_scroll(2)] returns_conseq [OF returns_scroll(3)])
  then show ?thesis
    unfolding route_rawkey_def by (intro safe_on_console) (rule returns_conseq, assumption, auto)
qed

lemma safe_on_shell:
  "safe ov (shell_inv ov H) m Q \<Longrightarrow> safe ov (driver_inv ov H) (on_part shell (\<lambda>x s. s\<lparr>shell := x\<rparr>) m) Q"
  by (erule safe_on_part) (auto simp: driver_inv_def)

lemma safe_on_enter: "hw_ok H \<Longrightarrow> safe ov (driver_inv ov H) (on_enter H) (\<lambda>_. True)"
  unfolding on_enter_def
  by (intro safe_intros safe_gets safe_on_shell safe_conseq [OF safe_execute_line]) (auto simp: driver_inv_def)

lemma safe_on_backspace: "hw_ok H \<Longrightarrow> safe ov (driver_inv ov H) (on_backspace H) (\<lambda>_. True)"
  unfolding on_backspace_def
proof (rule safe_gets_bind)
  fix s
  assume H: "hw_ok H" and s: "driver_inv ov H s"
  have "list_all printable (butlast (line s))" "length (butlast (line s)) \<le> 120"
    using s by (auto simp: driver_inv_def list_all_iff dest: in_set_butlastD)
  then show "safe ov (driver_inv ov H) (if line s = [] then ret () else bindM (modify (\<lambda>x. x\<lparr>line := butlast (line s)\<rparr>))
      (\<lambda>_. show_text H [CHR 0x08, CHR 0x20, CHR 0x08])) (\<lambda>_. True)"
    using H by (auto intro!: safe_intros simp: driver_inv_def)
qed

lemma printable_char_of: "0x20 \<le> c \<Longrightarrow> c \<le> 0x7E \<Longrightarrow> printable (char_of (c :: nat))"
  by (simp add: printable_def of_char_of)

lemma safe_handle_key: "hw_ok H \<Longrightarrow> safe ov (driver_inv ov H) (handle_key H key) (\<lambda>_. True)"
proof (cases key)
  case (Unicode c)
  assume H: "hw_ok H"
  have "safe ov (driver_inv ov H) (bindM (gets line) (\<lambda>l. if 0x20 \<le> c \<and> c \<le> 0x7E \<and> length l < 120
      then bindM (modify (\<lambda>s :: ('a, 'b, 'c) driver. s\<lparr>line := l @ [char_of c]\<rparr>)) (\<lambda>_. show_text H [char_of c]) else ret ()))
      (\<lambda>_. True)"
    using H by (intro safe_gets_bind safe_intros) (auto simp: driver_inv_def printable_char_of)
  with H show ?thesis unfolding Unicode handle_key_def DecodedKey.case
    by (intro safe_if safe_on_enter safe_on_backspace)
qed (simp add: handle_key_def safe_intros)

lemma safe_shell_scancode [safe_intros]: "hw_ok H \<Longrightarrow> safe ov (driver_inv ov H) (shell_scancode H dec c) (\<lambda>_. True)"
  unfolding shell_scancode_def
  by (auto intro!: safe_gets_bind safe_intros safe_handle_key simp: driver_inv_def split: prod.split option.split)

lemma safe_shell_event [safe_intros]: "hw_ok H \<Longrightarrow> safe ov (driver_inv ov H) (shell_event H dec e) (\<lambda>_. True)"
  by (cases e) (auto simp: shell_event_def timer_tick_def glob_ok_def intro!: safe_intros)

lemma safe_shell_loop:
  assumes "hw_ok H" "kernel_ok H k" "shell_loop H dec events (shell_start k kb) = Some (r, s')"
  shows "panic_ok (fat_mounted (vfs k)) r \<and> driver_ok H s'"
proof -
  let ?ov = "fat_mounted (vfs k)"
  have D: "driver_inv ?ov H (shell_start k kb)"
    using kernel_inv_fat [OF assms(2)] by (simp add: driver_inv_def shell_inv_def shell_start_def shell_new_def canonical_def)
  have S: "safe ?ov (driver_inv ?ov H) (shell_loop H dec events) (\<lambda>_. True)"
    unfolding shell_loop_def using assms(1) by (intro safe_intros)
  show ?thesis using safeD(1,2) [OF S D assms(3)] driver_inv_ok by blast
qed


text \<open>The editor as a function on the keys: what is in the line buffer after each key.\<close>

fun edit_key :: "DecodedKey \<Rightarrow> string \<Rightarrow> string" where
  "edit_key (RawKey k) l = l"
| "edit_key (Unicode c) l =
     (if c = 0x0A then []
      else if c = 0x08 \<or> c = 0x7F then butlast l
      else if 0x20 \<le> c \<and> c \<le> 0x7E \<and> length l < 120 then l @ [char_of c]
      else l)"

definition keeps :: "('s \<Rightarrow> 'x) \<Rightarrow> ('s, 'e, 'a) io \<Rightarrow> bool" where
  "keeps f m \<longleftrightarrow> (\<forall>s r s'. m s = Some (r, s') \<longrightarrow> f s' = f s)"

lemma keepsD: "keeps f m \<Longrightarrow> m s = Some (r, s') \<Longrightarrow> f s' = f s"
  by (simp add: keeps_def)

lemma keeps_ret: "keeps f (ret x)"
  by (simp add: keeps_def ret_run)

lemma keeps_modify: "(\<And>s. f (g s) = f s) \<Longrightarrow> keeps f (modify g)"
  by (simp add: keeps_def modify_run)

lemma keeps_bindM: "keeps f m \<Longrightarrow> (\<And>x. keeps f (k x)) \<Longrightarrow> keeps f (bindM m k)"
  unfolding keeps_def by (auto elim!: bindM_cases)

lemma keeps_gets: "(\<And>x. keeps f (k x)) \<Longrightarrow> keeps f (bindM (gets g) k)"
  by (simp add: keeps_def bindM_gets)

lemma keeps_on_part: "(\<And>s p. f (put p s) = f s) \<Longrightarrow> keeps f (on_part get put m)"
  by (auto simp: keeps_def on_part_def)

lemma keeps_show:
  assumes "\<And>s g. f (put_glob g s) = f s"
  shows "keeps f (show_text H t)" "keeps f (show_prompt H)" "keeps f (show_output H out)"
  unfolding show_text_def show_prompt_def show_output_def on_devices_def comp_def
  by (auto intro!: keeps_bindM keeps_gets keeps_ret keeps_on_part assms)

lemma put_glob_simps [simp]: "line (put_glob g s) = line s" "keyboard (put_glob g s) = keyboard s"
  by (simp_all add: put_glob_def)

lemmas show_line = keeps_show [where f = line, OF put_glob_simps(1), THEN keepsD]
lemmas show_keyboard = keeps_show [where f = keyboard, OF put_glob_simps(2), THEN keepsD]

lemma on_enter_line: "on_enter H s = Some (Ok (), s') \<Longrightarrow> line s' = []"
  unfolding on_enter_def
  by (auto elim!: bindM_OkE simp: modify_run dest!: show_line(2))

lemma handle_key_line:
  assumes "handle_key H key s = Some (Ok (), s')"
  shows "line s' = edit_key key (line s)"
proof (cases key)
  case (RawKey k)
  with assms show ?thesis by (auto simp: handle_key_def on_devices_def on_part_def)
next
  case (Unicode c)
  with assms show ?thesis
    by (auto simp: handle_key_def on_backspace_def bindM_gets bindM_modify ret_run split: if_splits
        dest: on_enter_line dest!: show_line(1))
qed

lemma handle_key_keyboard: "keeps keyboard (handle_key H key)"
  unfolding handle_key_def on_enter_def on_backspace_def on_devices_def
  by (auto intro!: keeps_bindM keeps_gets keeps_ret keeps_modify keeps_on_part keeps_show split: DecodedKey.split)

text \<open>The ticks and the keys the decoder makes of a sequence of events.\<close>

datatype input = Tick | Key DecodedKey

fun decoded :: "(u8 \<Rightarrow> 'b \<Rightarrow> DecodedKey option \<times> 'b) \<Rightarrow> event list \<Rightarrow> 'b \<Rightarrow> input list" where
  "decoded dec [] kb = []"
| "decoded dec (TimerTick # es) kb = Tick # decoded dec es kb"
| "decoded dec (Scancode c # es) kb =
     (case dec c kb of (None, kb') \<Rightarrow> decoded dec es kb' | (Some k, kb') \<Rightarrow> Key k # decoded dec es kb')"

fun edit_input :: "input \<Rightarrow> string \<Rightarrow> string" where
  "edit_input Tick l = l"
| "edit_input (Key k) l = edit_key k l"

lemma shell_scancode_line:
  assumes "shell_scancode H dec c s = Some (Ok (), s')" "dec c (keyboard s) = (key, kb)"
  shows "keyboard s' = kb \<and> line s' = (case key of None \<Rightarrow> line s | Some k \<Rightarrow> edit_key k (line s))"
proof (cases key)
  case None
  with assms show ?thesis by (auto simp: shell_scancode_def bindM_gets bindM_modify ret_run modify_run)
next
  case (Some k)
  with assms have "handle_key H k (s\<lparr>keyboard := kb\<rparr>) = Some (Ok (), s')"
    by (simp add: shell_scancode_def bindM_gets bindM_modify)
  from handle_key_line [OF this] keepsD [OF handle_key_keyboard this] Some show ?thesis by simp
qed

text \<open>
  The line buffer is a function of the keys alone: after the loop has processed any scancodes, the
  buffer is what the editor specification makes of the decoded keys. Printable characters are
  appended up to 120, backspace and delete remove the last one, Enter empties the line, and every
  other key leaves it alone; no output of a command and no scrolling can disturb it.
\<close>

theorem shell_line_editor:
  assumes "shell_loop H dec events (shell_start k kb) = Some (Ok (), s')"
  shows "line s' = fold edit_input (decoded dec events kb) []"
proof -
  have "line s' = fold edit_input (decoded dec es (keyboard s)) (line s)"
    if "foldM (\<lambda>e _. shell_event H dec e) es () s = Some (Ok (), s')" for es s
    using that
  proof (induction es arbitrary: s)
    case (Cons e es)
    then obtain s1 where s1: "shell_event H dec e s = Some (Ok (), s1)"
      "foldM (\<lambda>e _. shell_event H dec e) es () s1 = Some (Ok (), s')" by (auto elim!: bindM_OkE)
    show ?case
    proof (cases e)
      case TimerTick
      with s1(1) have "line s1 = line s" "keyboard s1 = keyboard s" by (auto simp: shell_event_def timer_tick_def on_devices_def on_part_def modify_run)
      with Cons.IH [OF s1(2)] TimerTick show ?thesis by simp
    next
      case (Scancode c)
      obtain key kb' where d: "dec c (keyboard s) = (key, kb')" by (cases "dec c (keyboard s)")
      from Scancode s1(1) have "shell_scancode H dec c s = Some (Ok (), s1)" by (simp add: shell_event_def)
      from Cons.IH [OF s1(2)] shell_scancode_line [OF this d] d Scancode show ?thesis by (cases key) auto
    qed
  qed (simp add: ret_run)
  moreover obtain s1 where p: "show_prompt H (shell_start k kb) = Some (Ok (), s1)"
    and "foldM (\<lambda>e _. shell_event H dec e) events () s1 = Some (Ok (), s')"
    using assms unfolding shell_loop_def by (auto elim!: bindM_OkE)
  moreover have "line s1 = []" "keyboard s1 = kb"
    using show_line(2) [OF p] show_keyboard(2) [OF p] by (simp_all add: shell_start_def)
  ultimately show ?thesis by force
qed

section \<open>Writing and reading back\<close>

lemma message_run: "message what p s = Some (Ok (what @ p @ [newline_char]), s)"
  by (simp add: message_def ret_run)

lemma write_report_empty: "write_report cmd p r s = Some (Ok [], s') \<Longrightarrow> r = Inr () \<and> s' = s"
  by (auto simp: write_report_def ret_run message_run split: sum.splits if_splits)

lemma on_vfs_run: "m (kern s) = Some (Ok x, k') \<Longrightarrow> on_vfs m f s = f (Inr x) (s\<lparr>kern := k'\<rparr>)"
  by (simp add: on_vfs_def attempt_Ok on_part_def)

lemma cmd_write_empty:
  assumes "cmd_write H (p # args) s = Some (Ok [], s')"
  shows "\<exists>k'. vfs_write_file H (normalize (cwd s) p) (as_bytes (join '' '' args @ [newline_char])) (kern s) = Some (Ok (), k')
    \<and> s' = s\<lparr>kern := k'\<rparr>"
proof -
  let ?m = "vfs_write_file H (normalize (cwd s) p) (as_bytes (join '' '' args @ [newline_char]))"
  have run: "on_vfs ?m (write_report ''write'' (normalize (cwd s) p)) s = Some (Ok [], s')"
    using assms by (simp add: cmd_write_def bindM_gets Let_def)
  from this [unfolded on_vfs_def] show ?thesis
    by (cases rule: attempt_cases) (auto simp: on_part_def dest!: write_report_empty)
qed

lemma cat_text_ascii:
  assumes "list_all printable t"
  shows "cat_text (as_bytes (t @ [newline_char])) = t @ [newline_char]"
proof -
  have "list_all (\<lambda>b. b < 0x80) (as_bytes (t @ [newline_char]))"
    using assms by (auto simp: list_all_iff as_bytes_def printable_def word_less_nat_alt)
  from ascii_from_utf8 [OF this] show ?thesis
    by (simp add: cat_text_def as_bytes_def comp_def)
qed

text \<open>
  What \<open>write\<close> stores on a tmpfs is what \<open>cat\<close> prints: after a \<open>write\<close> of printable words that
  reported no error, \<open>cat\<close> of the same path, from the same directory, prints the words joined by
  single spaces and one newline, and changes nothing.
\<close>

theorem write_then_cat:
  assumes "shell_ok H s" "execute_line H l s = Some (Ok [], s')"
    and "split_ascii_whitespace l = ''write'' # p # args" "split_ascii_whitespace l' = [''cat'', p]"
    and "resolve (vfs (kern s)) (normalize (cwd s) p) = Ok (i, rel)" "fs (mounts (vfs (kern s)) ! i) = TmpBackend t"
    and "list_all printable (join '' '' args)"
  shows "execute_line H l' s' = Some (Ok (join '' '' args @ [newline_char]), s')"
proof -
  have "cmd_write H (p # args) s = Some (Ok [], s')"
    using assms(2,3) by (simp add: execute_line_def run_command_def)
  from cmd_write_empty [OF this] obtain k' where
    w: "vfs_write_file H (normalize (cwd s) p) (as_bytes (join '' '' args @ [newline_char])) (kern s) = Some (Ok (), k')"
    and s': "s' = s\<lparr>kern := k'\<rparr>" by blast
  have "vfs_good (kern s)" using assms(1) by (simp add: shell_ok_def kernel_ok_def)
  from vfs_tmp_write [OF this assms(5,6) w]
  have "vfs_read_file H (normalize (cwd s) p) k' = Some (Ok (as_bytes (join '' '' args @ [newline_char])), k')" by blast
  then have "cmd_cat H (Some p) s' = Some (Ok (join '' '' args @ [newline_char]), s')"
    using cat_text_ascii [OF assms(7)] by (simp add: cmd_cat_def bindM_gets Let_def s' on_vfs_run ret_run)
  then show ?thesis using assms(4) by (simp add: execute_line_def run_command_def first_arg_def)
qed

section \<open>A running system\<close>

text \<open>A machine with a blank simulated disk, no screen, and a decoder that takes scancodes as characters.\<close>

definition sim_hardware :: "(ata_view AtaDrive, u8 list) hardware" where
  "sim_hardware = \<lparr>blockdev = ata_device sim_ports, uart_send = (\<lambda>b l. l @ [b]), glyphs = tiny_font\<rparr>"

definition sim_kernel :: "(ata_view AtaDrive, u8 list) kernel" where
  "sim_kernel = \<lparr>glob = \<lparr>fb_writer = None, serial1 = Some [], drive = new_primary_slave blank_disk, ticks = 0\<rparr>, vfs = demo_vfs\<rparr>"

definition plain_keys :: "u8 \<Rightarrow> unit \<Rightarrow> DecodedKey option \<times> unit" where
  "plain_keys c kb = (Some (Unicode (unat c)), kb)"

lemma sim_ok: "hw_ok sim_hardware" "kernel_ok sim_hardware sim_kernel"
  using demo_good
  by (simp_all add: hw_ok_def sim_hardware_def tiny_ok ata_sane kernel_ok_def glob_ok_def sim_kernel_def
      demo_kernel_def vfs_good_def)

lemma sim_run: "\<exists>s'. shell_loop sim_hardware plain_keys (map Scancode [112, 119, 120, 127, 100, 10, 104]) (shell_start sim_kernel ()) = Some (Ok (), s')"
proof -
  have "map_option fst (shell_loop sim_hardware plain_keys (map Scancode [112, 119, 120, 127, 100, 10, 104]) (shell_start sim_kernel ())) = Some (Ok ())"
    by code_simp
  then show ?thesis by auto
qed


theorem shell_line_editor_witness:
  "\<exists>s'. shell_loop sim_hardware plain_keys (map Scancode [112, 119, 120, 127, 100, 10, 104]) (shell_start sim_kernel ()) = Some (Ok (), s')
     \<and> line s' = ''h''"
proof -
  have "fold edit_input (decoded plain_keys (map Scancode [112, 119, 120, 127, 100, 10, 104]) ()) [] = ''h''" by code_simp
  with sim_run shell_line_editor show ?thesis by metis
qed

theorem write_then_cat_witness:
  "\<exists>s'. execute_line sim_hardware ''write /tmp/n hi  you'' (shell_new sim_kernel) = Some (Ok [], s')
     \<and> execute_line sim_hardware ''cat /tmp/n'' s' = Some (Ok (''hi you'' @ [newline_char]), s')"
proof -
  have ok: "shell_ok sim_hardware (shell_new sim_kernel)"
    using sim_ok by (simp add: shell_ok_def shell_new_def canonical_def)
  have "map_option fst (execute_line sim_hardware ''write /tmp/n hi  you'' (shell_new sim_kernel)) = Some (Ok [])"
    by code_simp
  then obtain s' where run: "execute_line sim_hardware ''write /tmp/n hi  you'' (shell_new sim_kernel) = Some (Ok [], s')"
    by auto
  have ws: "split_ascii_whitespace ''write /tmp/n hi  you'' = ''write'' # ''/tmp/n'' # [''hi'', ''you'']"
    "split_ascii_whitespace ''cat /tmp/n'' = [''cat'', ''/tmp/n'']"
    by code_simp+
  have p: "normalize (cwd (shell_new sim_kernel)) ''/tmp/n'' = ''/tmp/n''" by code_simp
  have "resolve (vfs (kern (shell_new sim_kernel))) (normalize (cwd (shell_new sim_kernel)) ''/tmp/n'') = Ok (1, ''/n'')"
    unfolding p
    by (simp add: shell_new_def sim_kernel_def resolve_def starts_with_def demo_vfs_mounts resolve_step_def mount_matches_def)
  note res = this
  have tmp: "fs (mounts (vfs (kern (shell_new sim_kernel))) ! 1) = TmpBackend tmp_new"
    by (simp add: shell_new_def sim_kernel_def demo_vfs_mounts)
  have j: "join '' '' [''hi'', ''you''] = ''hi you''" by (simp add: join_def)
  have "list_all printable (join '' '' [''hi'', ''you''])" unfolding j by (simp add: printable_def)
  from write_then_cat [OF ok run ws res tmp this]
  have "execute_line sim_hardware ''cat /tmp/n'' s' = Some (Ok (join '' '' [''hi'', ''you''] @ [newline_char]), s')" .
  with run j show ?thesis by auto
qed

end
