(* ===== verification/VfsSpec.thy ===== *)
theory VfsSpec
  imports FatVolume Vfs "HOL-Library.Multiset"
begin

text \<open>
  The VFS with all its mounts, as its clients see it: one map from paths to entries per mount (\<open>world\<close>). \<open>vfs_holds\<close> says that
  the table is well formed, that the trees of the tmpfs mounts are sorted and that the disk under a FAT mount is a volume with the tree
  \<open>T\<close>. Every writing method then does to the map of the mount that owns the path what \<open>FsSpec\<close> says, and nothing to any other
  mount (\<open>vfs_step\<close>); every reading method returns what the maps say (\<open>spec_vfs_read\<close>, \<open>spec_vfs_dir\<close>, \<open>spec_vfs_list\<close>).
  The calls covered are those of \<open>vfs_call_ok\<close>: on a FAT mount paths of 8.3 names, the documented domain of the driver, and no append to
  the root; on \<open>/dev\<close> no write to \<open>console\<close> or \<open>serial0\<close>, which print, and no write of whole blocks to \<open>disk0\<close>, which is the disk under
  the volume.
\<close>

section \<open>Calls\<close>

fun at_rel :: "string \<Rightarrow> fat_call \<Rightarrow> fat_call" where
  "at_rel rel (CreateFile _) = CreateFile rel"
| "at_rel rel (WriteFile _ data) = WriteFile rel data"
| "at_rel rel (AppendFile _ data) = AppendFile rel data"
| "at_rel rel (CreateDir _) = CreateDir rel"
| "at_rel rel (RemovePath _) = RemovePath rel"

fun vfs_exec :: "('d, 'p) hardware \<Rightarrow> fat_call \<Rightarrow> ('d, 'p, unit) kio" where
  "vfs_exec H (CreateFile path) = vfs_create_file H path"
| "vfs_exec H (WriteFile path data) = vfs_write_file H path data"
| "vfs_exec H (AppendFile path data) = vfs_append_file H path data"
| "vfs_exec H (CreateDir path) = vfs_create_dir H path"
| "vfs_exec H (RemovePath path) = vfs_remove H path"

fun bk_exec :: "('d, 'p) hardware \<Rightarrow> fat_call \<Rightarrow> ('d, 'p, unit) bk" where
  "bk_exec H (CreateFile rel) = bk_create_file H rel"
| "bk_exec H (WriteFile rel data) = bk_write_file H rel data"
| "bk_exec H (AppendFile rel data) = bk_append_file H rel data"
| "bk_exec H (CreateDir rel) = bk_create_dir H rel"
| "bk_exec H (RemovePath rel) = bk_remove H rel"

fun tmp_call :: "fat_call \<Rightarrow> tmp_op" where
  "tmp_call (CreateFile rel) = TCreateFile rel"
| "tmp_call (WriteFile rel data) = TWriteFile rel data"
| "tmp_call (AppendFile rel data) = TAppendFile rel data"
| "tmp_call (CreateDir rel) = TCreateDir rel"
| "tmp_call (RemovePath rel) = TRemove rel"

lemmas bk_write_defs = bk_create_file_def bk_write_file_def bk_append_file_def bk_create_dir_def bk_remove_def

lemma vfs_exec_dispatch: "vfs_exec H c = dispatch (call_path c) (\<lambda>rel. bk_exec H (at_rel rel c))"
  by (cases c) (simp_all add: vfs_create_file_def vfs_write_file_def vfs_append_file_def vfs_create_dir_def vfs_remove_def)

lemma bk_exec_tmp: "bk_exec H c (g, TmpBackend t) = Some (fst (tmp_step (tmp_call c) t), (g, TmpBackend (snd (tmp_step (tmp_call c) t))))"
  by (cases c) (simp_all add: bk_write_defs bindM_gets on_tmp_def)

lemma bk_exec_fat: "bk_exec H c (g, FatBackend vol) =
    map_option (\<lambda>(r, d). (r, (g\<lparr>drive := d\<rparr>, FatBackend vol))) (fat_exec (blockdev H) vol c (drive g))"
  by (cases c) (simp_all add: bk_write_defs bindM_gets on_drive_run)

lemma bk_exec_other:
  "bk_exec H c (g, RamBackend f) = Some (Err Unsupported, (g, RamBackend f))"
  "\<forall>path data. c \<noteq> WriteFile path data \<Longrightarrow> bk_exec H c (g, DevBackend) = Some (Err Unsupported, (g, DevBackend))"
  by (cases c; simp add: bk_write_defs bindM_gets liftO_run default_write_method_def)
     (cases c; simp add: bk_write_defs bindM_gets liftO_run default_write_method_def)

section \<open>The map of each mount\<close>

text \<open>The globals beside the drive.\<close>

abbreviation periph :: "('d, 'p) globals \<Rightarrow> FrameBufferWriter option \<times> 'p option \<times> u64" where
  "periph g \<equiv> (fb_writer g, serial1 g, ticks g)"

definition mount_map :: "tree \<Rightarrow> backend \<Rightarrow> fs_map" where
  "mount_map T b = (case b of TmpBackend t \<Rightarrow> view (TmpFs.root t) | FatBackend _ \<Rightarrow> tree_view T | _ \<Rightarrow> Map.empty)"

definition world :: "tree \<Rightarrow> Vfs \<Rightarrow> fs_map list" where
  "world T v = map (mount_map T \<circ> fs) (mounts v)"

text \<open>What the calls leave of a table: the prefixes and the kinds of the mounts.\<close>

definition shape :: "backend \<Rightarrow> backend" where
  "shape b = (case b of TmpBackend _ \<Rightarrow> TmpBackend tmp_new | _ \<Rightarrow> b)"

definition skeleton :: "Vfs \<Rightarrow> (string \<times> backend) list" where
  "skeleton v = map (\<lambda>m. (mprefix m, shape (fs m))) (mounts v)"

definition vfs_holds :: "('d, 'p) hardware \<Rightarrow> ('d \<Rightarrow> bool) \<Rightarrow> ('d \<Rightarrow> nat \<Rightarrow> u8 list) \<Rightarrow> nat \<Rightarrow> tree \<Rightarrow> ('d, 'p) kernel \<Rightarrow> bool" where
  "vfs_holds H ok blk n T k \<longleftrightarrow> vfs_good k \<and> ok (drive (glob k))
     \<and> (\<forall>i t. i < length (mounts (vfs k)) \<and> fs (mounts (vfs k) ! i) = TmpBackend t \<longrightarrow> node_ok (TmpFs.root t))
     \<and> (\<forall>i vol. i < length (mounts (vfs k)) \<and> fs (mounts (vfs k) ! i) = FatBackend vol \<longrightarrow>
          cap vol * cluster_bytes vol < 2 ^ 32 \<and> fat_volume vol n T (device_image (blockdev H) blk (drive (glob k))))
     \<and> (\<forall>i j vol vol'. i < length (mounts (vfs k)) \<and> j < length (mounts (vfs k)) \<and> fs (mounts (vfs k) ! i) = FatBackend vol
          \<and> fs (mounts (vfs k) ! j) = FatBackend vol' \<longrightarrow> i = j)"

fun tmp_spec :: "fat_call \<Rightarrow> fs_map \<Rightarrow> (FsError, unit) outcome \<times> fs_map" where
  "tmp_spec (CreateFile rel) v = spec_write (segments rel) [] v"
| "tmp_spec (WriteFile rel data) v = spec_write (segments rel) data v"
| "tmp_spec (AppendFile rel data) v = spec_append (segments rel) data v"
| "tmp_spec (CreateDir rel) v = spec_create_dir (segments rel) v"
| "tmp_spec (RemovePath rel) v = spec_remove (segments rel) v"

text \<open>
  The device nodes that change nothing: \<open>null\<close> and \<open>zero\<close> swallow what is written, \<open>disk0\<close> refuses bytes that are not whole blocks,
  a name that is no node is not found, and every other writing method is unsupported.
\<close>

fun quiet :: "fat_call \<Rightarrow> bool" where
  "quiet (WriteFile rel data) \<longleftrightarrow> flat_name rel \<noteq> Ok ''console'' \<and> flat_name rel \<noteq> Ok ''serial0''
     \<and> (flat_name rel = Ok ''disk0'' \<longrightarrow> data = [] \<or> length data mod BLOCK_SIZE \<noteq> 0)"
| "quiet _ \<longleftrightarrow> True"

fun dev_spec :: "fat_call \<Rightarrow> (FsError, unit) outcome" where
  "dev_spec (WriteFile rel data) =
     (if flat_name rel \<in> {Ok ''null'', Ok ''zero''} then Ok ()
      else if flat_name rel = Ok ''disk0'' then (if data = [] then Ok () else Err Io)
      else Err NotFound)"
| "dev_spec _ = Err Unsupported"

lemma bk_exec_dev:
  assumes "quiet c"
  shows "bk_exec H c (g, DevBackend) = Some (dev_spec c, (g, DevBackend))"
proof (cases c)
  case (WriteFile rel data)
  have "dev_write_file H rel data g = Some (dev_spec c, g)"
  proof (cases "flat_name rel")
    case (Ok name)
    with assms WriteFile show ?thesis
      by (auto simp: dev_write_file_def dev_write_at_def node_of_def NODES_def node_write_def disk0_write_def aligned_def bindM_Err bindM_Ok ret_run fail_run)
  next
    case (Err e)
    then have "e = NotFound" by (simp add: flat_name_def Let_def split: if_splits)
    with Err WriteFile show ?thesis by (simp add: dev_write_file_def dev_write_at_def bindM_Err liftO_run)
  qed (simp add: flat_name_Ok)
  then show ?thesis by (simp add: WriteFile bk_write_file_def bindM_gets on_globals_run)
qed (use bk_exec_other(2) [of c H g] in simp_all)

definition vfs_step :: "Vfs \<Rightarrow> fat_call \<Rightarrow> fs_map list \<Rightarrow> (FsError, unit) outcome \<Rightarrow> fs_map list \<Rightarrow> bool" where
  "vfs_step v c W r W' \<longleftrightarrow> (case resolve v (call_path c) of
     Ok (i, rel) \<Rightarrow> (case fs (mounts v ! i) of
         TmpBackend _ \<Rightarrow> \<exists>M. (r, M) = tmp_spec (at_rel rel c) (W ! i) \<and> W' = W[i := M]
       | FatBackend _ \<Rightarrow> \<exists>M. call_step (at_rel rel c) (W ! i) r M \<and> W' = W[i := M]
       | RamBackend _ \<Rightarrow> r = Err Unsupported \<and> W' = W
       | DevBackend \<Rightarrow> r = dev_spec (at_rel rel c) \<and> W' = W)
   | _ \<Rightarrow> r = Err NotFound \<and> W' = W)"

text \<open>The calls covered: see above.\<close>

definition vfs_call_ok :: "Vfs \<Rightarrow> fat_call \<Rightarrow> bool" where
  "vfs_call_ok v c \<longleftrightarrow> (case resolve v (call_path c) of
     Ok (i, rel) \<Rightarrow> (case fs (mounts v ! i) of
         FatBackend _ \<Rightarrow> call_ok (at_rel rel c)
       | DevBackend \<Rightarrow> quiet (at_rel rel c)
       | _ \<Rightarrow> True)
   | _ \<Rightarrow> True)"

inductive vfs_explains :: "Vfs \<Rightarrow> fat_call list \<Rightarrow> fs_map list \<Rightarrow> (FsError, unit) outcome list \<Rightarrow> fs_map list \<Rightarrow> bool" where
  vfs_explains_done: "vfs_explains v [] W [] W"
| vfs_explains_step: "vfs_step v c W r W1 \<Longrightarrow> vfs_explains v cs W1 rs W' \<Longrightarrow> vfs_explains v (c # cs) W (r # rs) W'"

fun vfs_run :: "('d, 'p) hardware \<Rightarrow> fat_call list \<Rightarrow> ('d, 'p) kernel \<Rightarrow> ((FsError, unit) outcome list \<times> ('d, 'p) kernel) option" where
  "vfs_run H [] k = Some ([], k)"
| "vfs_run H (c # cs) k =
     (case vfs_exec H c k of
        None \<Rightarrow> None
      | Some (r, k1) \<Rightarrow> map_option (\<lambda>(rs, k'). (r # rs, k')) (vfs_run H cs k1))"

section \<open>The table\<close>

lemma skeletonD:
  assumes "skeleton v' = skeleton v"
  shows "resolve v' p = resolve v p" "length (mounts v') = length (mounts v)"
    "i < length (mounts v) \<Longrightarrow> shape (fs (mounts v' ! i)) = shape (fs (mounts v ! i))"
    "i < length (mounts v) \<Longrightarrow> mprefix (mounts v' ! i) = mprefix (mounts v ! i)"
proof -
  have "map fst (skeleton v) = map mprefix (mounts v)" for v by (simp add: skeleton_def)
  then have "map mprefix (mounts v') = map mprefix (mounts v)" using assms by metis
  then show "resolve v' p = resolve v p" by (rule resolve_prefixes)
  show len: "length (mounts v') = length (mounts v)" using assms by (metis length_map skeleton_def)
  have "skeleton v ! i = (mprefix (mounts v ! i), shape (fs (mounts v ! i)))" if "i < length (mounts v)" for v i
    using that by (simp add: skeleton_def)
  then show "i < length (mounts v) \<Longrightarrow> shape (fs (mounts v' ! i)) = shape (fs (mounts v ! i))"
    "i < length (mounts v) \<Longrightarrow> mprefix (mounts v' ! i) = mprefix (mounts v ! i)" using assms len by (metis prod.inject)+
qed

lemma shape_eqs:
  "shape b = shape b' \<Longrightarrow> (case b of TmpBackend _ \<Rightarrow> x | FatBackend _ \<Rightarrow> y | RamBackend _ \<Rightarrow> z | DevBackend \<Rightarrow> w) =
    (case b' of TmpBackend _ \<Rightarrow> x | FatBackend _ \<Rightarrow> y | RamBackend _ \<Rightarrow> z | DevBackend \<Rightarrow> w)"
  "shape b = FatBackend vol \<longleftrightarrow> b = FatBackend vol" "shape b = RamBackend f \<longleftrightarrow> b = RamBackend f" "shape b = DevBackend \<longleftrightarrow> b = DevBackend"
  by (auto simp: shape_def split: backend.splits)

lemma resolve_index: "table_ok v \<Longrightarrow> resolve v p = Ok (i, rel) \<Longrightarrow> i < length (mounts v)"
  by (rule resolve_OkD(1))

lemma skeleton_step:
  assumes "skeleton v' = skeleton v" "table_ok v"
  shows "vfs_step v' c = vfs_step v c" "vfs_call_ok v' c = vfs_call_ok v c"
proof -
  have *: "shape (fs (mounts v' ! i)) = shape (fs (mounts v ! i))" if "resolve v (call_path c) = Ok (i, rel)" for i rel
    using skeletonD(3) [OF assms(1) resolve_index [OF assms(2) that]] .
  show "vfs_step v' c = vfs_step v c"
    unfolding vfs_step_def skeletonD(1) [OF assms(1)]
    by (intro ext) (auto split: outcome.split intro!: shape_eqs(1) [OF *])
  show "vfs_call_ok v' c = vfs_call_ok v c"
    unfolding vfs_call_ok_def skeletonD(1) [OF assms(1)]
    by (auto split: outcome.split intro!: shape_eqs(1) [OF *])
qed

lemma skeleton_set_fs: "i < length (mounts v) \<Longrightarrow> shape b = shape (fs (mounts v ! i)) \<Longrightarrow> skeleton (set_fs i b v) = skeleton v"
  by (auto simp: skeleton_def set_fs_def map_update intro!: nth_equalityI simp: nth_list_update)

lemma world_set_fs:
  assumes "i < length (mounts v)" "\<And>j. j < length (mounts v) \<Longrightarrow> j \<noteq> i \<Longrightarrow> mount_map T' (fs (mounts v ! j)) = mount_map T (fs (mounts v ! j))"
  shows "world T' (set_fs i b v) = (world T v)[i := mount_map T' b]"
  using assms by (auto simp: world_def set_fs_def map_update intro!: nth_equalityI simp: nth_list_update)

lemma world_nth: "i < length (mounts v) \<Longrightarrow> world T v ! i = mount_map T (fs (mounts v ! i))" "length (world T v) = length (mounts v)"
  by (simp_all add: world_def)

lemma tmp_step_spec: "abs_run (tmp_step (tmp_call c) t) = tmp_spec c (view (TmpFs.root t))"
  by (cases c) (simp_all add: tmp_create_file_view tmp_write_file_view tmp_append_file_view tmp_create_dir_view tmp_remove_view)

section \<open>Writing\<close>

lemma vfs_holdsD:
  assumes "vfs_holds H ok blk n T k"
  shows "vfs_good k" "table_ok (vfs k)" "ok (drive (glob k))"
    "i < length (mounts (vfs k)) \<Longrightarrow> fs (mounts (vfs k) ! i) = TmpBackend t \<Longrightarrow> node_ok (TmpFs.root t)"
    "i < length (mounts (vfs k)) \<Longrightarrow> fs (mounts (vfs k) ! i) = FatBackend vol \<Longrightarrow> cap vol * cluster_bytes vol < 2 ^ 32"
    "i < length (mounts (vfs k)) \<Longrightarrow> fs (mounts (vfs k) ! i) = FatBackend vol \<Longrightarrow> fat_volume vol n T (device_image (blockdev H) blk (drive (glob k)))"
    "i < length (mounts (vfs k)) \<Longrightarrow> fs (mounts (vfs k) ! i) = FatBackend vol \<Longrightarrow> j < length (mounts (vfs k)) \<Longrightarrow> fs (mounts (vfs k) ! j) = FatBackend vol' \<Longrightarrow> j = i"
  using assms by (simp_all add: vfs_holds_def vfs_good_def)

lemma vfs_holdsI:
  assumes "vfs_good k" "ok (drive (glob k))"
    and "\<And>i t. i < length (mounts (vfs k)) \<Longrightarrow> fs (mounts (vfs k) ! i) = TmpBackend t \<Longrightarrow> node_ok (TmpFs.root t)"
    and "\<And>i vol. i < length (mounts (vfs k)) \<Longrightarrow> fs (mounts (vfs k) ! i) = FatBackend vol \<Longrightarrow>
      cap vol * cluster_bytes vol < 2 ^ 32 \<and> fat_volume vol n T (device_image (blockdev H) blk (drive (glob k)))"
    and "\<And>i j vol vol'. i < length (mounts (vfs k)) \<Longrightarrow> j < length (mounts (vfs k)) \<Longrightarrow> fs (mounts (vfs k) ! i) = FatBackend vol \<Longrightarrow>
      fs (mounts (vfs k) ! j) = FatBackend vol' \<Longrightarrow> i = j"
  shows "vfs_holds H ok blk n T k"
  unfolding vfs_holds_def by (intro conjI allI impI; (elim conjE)?) (use assms in blast)+

lemma tmp_spec_root: "snd (tmp_spec c v) [] = v []"
  by (cases c) (auto simp: spec_write_def spec_append_def spec_create_dir_def spec_remove_def spec_in_parent_def split: option.split entry.split)

lemma holds_tmp:
  assumes "vfs_holds H ok blk n T k" "i < length (mounts (vfs k))" "fs (mounts (vfs k) ! i) = TmpBackend t"
    and "node_ok (TmpFs.root t')" "kind (TmpFs.root t') = DirE"
  shows "vfs_holds H ok blk n T (k\<lparr>vfs := set_fs i (TmpBackend t') (vfs k)\<rparr>)" (is "vfs_holds H ok blk n T ?k")
proof (rule vfs_holdsI)
  have "vfs_good (k\<lparr>glob := glob k, vfs := set_fs i (TmpBackend t') (vfs k)\<rparr>)"
    by (rule vfs_good_set_fs [OF vfs_holdsD(1) [OF assms(1)]]) (simp add: backend_ok_def assms(5))
  then show "vfs_good ?k" by simp
  show "ok (drive (glob ?k))" using vfs_holdsD(3) [OF assms(1)] by simp
  show "node_ok (TmpFs.root u)" if "j < length (mounts (vfs ?k))" "fs (mounts (vfs ?k) ! j) = TmpBackend u" for j u
    using that assms(4) vfs_holdsD(4) [OF assms(1)] by (auto simp: set_fs_nth split: if_splits)
  have fat: "j < length (mounts (vfs k)) \<and> fs (mounts (vfs k) ! j) = FatBackend vol"
    if "j < length (mounts (vfs ?k))" "fs (mounts (vfs ?k) ! j) = FatBackend vol" for j vol
    using that by (auto simp: set_fs_nth split: if_splits)
  show "cap vol * cluster_bytes vol < 2 ^ 32 \<and> fat_volume vol n T (device_image (blockdev H) blk (drive (glob ?k)))"
    if "j < length (mounts (vfs ?k))" "fs (mounts (vfs ?k) ! j) = FatBackend vol" for j vol
    using fat [OF that] vfs_holdsD(5,6) [OF assms(1)] by auto
  show "a = b" if "a < length (mounts (vfs ?k))" "b < length (mounts (vfs ?k))" "fs (mounts (vfs ?k) ! a) = FatBackend vol"
    "fs (mounts (vfs ?k) ! b) = FatBackend vol'" for a b vol vol'
    using fat [OF that(1,3)] fat [OF that(2,4)] vfs_holdsD(7) [OF assms(1)] by blast
qed

lemma holds_fat:
  assumes "vfs_holds H ok blk n T k" "i < length (mounts (vfs k))" "fs (mounts (vfs k) ! i) = FatBackend vol"
    and "ok d" "fat_volume vol n T' (device_image (blockdev H) blk d)"
  shows "vfs_holds H ok blk n T' (k\<lparr>glob := (glob k)\<lparr>drive := d\<rparr>\<rparr>)" (is "vfs_holds H ok blk n T' ?k")
proof (rule vfs_holdsI)
  show "vfs_good ?k" using vfs_holdsD(1) [OF assms(1)] by (simp add: vfs_good_def)
  show "ok (drive (glob ?k))" using assms(4) by simp
  show "node_ok (TmpFs.root u)" if "j < length (mounts (vfs ?k))" "fs (mounts (vfs ?k) ! j) = TmpBackend u" for j u
    using that vfs_holdsD(4) [OF assms(1)] by simp
  show "cap vol' * cluster_bytes vol' < 2 ^ 32 \<and> fat_volume vol' n T' (device_image (blockdev H) blk (drive (glob ?k)))"
    if "j < length (mounts (vfs ?k))" "fs (mounts (vfs ?k) ! j) = FatBackend vol'" for j vol'
    using that vfs_holdsD(5) [OF assms(1)] vfs_holdsD(7) [OF assms(1-3), of j vol'] assms(3,5) by auto
  show "a = b" if "a < length (mounts (vfs ?k))" "b < length (mounts (vfs ?k))" "fs (mounts (vfs ?k) ! a) = FatBackend vol"
    "fs (mounts (vfs ?k) ! b) = FatBackend vol'" for a b vol vol'
    using that vfs_holdsD(7) [OF assms(1)] by simp
qed

lemma set_fs_id: "i < length (mounts v) \<Longrightarrow> fs (mounts v ! i) = b \<Longrightarrow> set_fs i b v = v"
  by (auto simp: set_fs_def)

lemma vfs_exec_holds:
  assumes "block_device (blockdev H) ok blk" "vfs_holds H ok blk n T k" "vfs_call_ok (vfs k) c"
  shows "\<exists>r k' T'. vfs_exec H c k = Some (r, k') \<and> vfs_holds H ok blk n T' k' \<and> skeleton (vfs k') = skeleton (vfs k)
    \<and> periph (glob k') = periph (glob k) \<and> vfs_step (vfs k) c (world T (vfs k)) r (world T' (vfs k'))"
proof (cases "resolve (vfs k) (call_path c)")
  case (Ok x)
  obtain i rel where x: "x = (i, rel)" by (cases x)
  note res = Ok [unfolded x]
  have i: "i < length (mounts (vfs k))" by (rule resolve_index [OF vfs_holdsD(2) [OF assms(2)] res])
  have run: "vfs_exec H c k = on_mount i (bk_exec H (at_rel rel c)) k" by (simp add: vfs_exec_dispatch dispatch_run res)
  show ?thesis
  proof (cases "fs (mounts (vfs k) ! i)")
    case (TmpBackend t)
    define t' where "t' = snd (tmp_step (tmp_call (at_rel rel c)) t)"
    have spec: "tmp_spec (at_rel rel c) (view (TmpFs.root t)) = (fst (tmp_step (tmp_call (at_rel rel c)) t), view (TmpFs.root t'))"
      unfolding tmp_step_spec [symmetric] t'_def by (simp add: abs_run_def split: prod.split)
    have "backend_ok (TmpBackend t)" using vfs_good_mount [OF vfs_holdsD(1) [OF assms(2)] res] TmpBackend by simp
    then have "kind (TmpFs.root t') = DirE" using tmp_spec_root [of "at_rel rel c" "view (TmpFs.root t)"] unfolding spec by (simp add: backend_ok_def)
    moreover have "node_ok (TmpFs.root t')" unfolding t'_def by (rule tmp_step_node_ok [OF vfs_holdsD(4) [OF assms(2) i TmpBackend]])
    ultimately have "vfs_holds H ok blk n T (k\<lparr>vfs := set_fs i (TmpBackend t') (vfs k)\<rparr>)" by (intro holds_tmp [OF assms(2) i TmpBackend])
    moreover have "skeleton (set_fs i (TmpBackend t') (vfs k)) = skeleton (vfs k)" using i TmpBackend by (intro skeleton_set_fs) (simp_all add: shape_def)
    moreover have "world T (set_fs i (TmpBackend t') (vfs k)) = (world T (vfs k))[i := view (TmpFs.root t')]"
      using world_set_fs [OF i, of T T "TmpBackend t'"] by (simp add: mount_map_def)
    moreover have "vfs_exec H c k = Some (fst (tmp_step (tmp_call (at_rel rel c)) t), k\<lparr>vfs := set_fs i (TmpBackend t') (vfs k)\<rparr>)"
      by (simp add: run on_mount_run TmpBackend bk_exec_tmp t'_def)
    moreover have "vfs_step (vfs k) c (world T (vfs k)) (fst (tmp_step (tmp_call (at_rel rel c)) t)) ((world T (vfs k))[i := view (TmpFs.root t')])"
      using res TmpBackend spec i by (simp add: vfs_step_def world_nth mount_map_def)
    ultimately show ?thesis by (intro exI [of _ "fst (tmp_step (tmp_call (at_rel rel c)) t)"] exI [of _ "k\<lparr>vfs := set_fs i (TmpBackend t') (vfs k)\<rparr>"] exI [of _ T]) simp
  next
    case (FatBackend vol)
    note fat = vfs_holdsD(5,6) [OF assms(2) i FatBackend]
    have "call_ok (at_rel rel c)" using assms(3) res FatBackend by (simp add: vfs_call_ok_def)
    from block_device.call_dev [OF assms(1) vfs_holdsD(3) [OF assms(2)] fat(2,1) this] obtain r d T' where
      d: "fat_exec (blockdev H) vol (at_rel rel c) (drive (glob k)) = Some (r, d)" "ok d" "fat_volume vol n T' (device_image (blockdev H) blk d)"
        "call_step (at_rel rel c) (tree_view T) r (tree_view T')" by blast
    have "mount_map T' (fs (mounts (vfs k) ! j)) = mount_map T (fs (mounts (vfs k) ! j))" if "j < length (mounts (vfs k))" "j \<noteq> i" for j
      using vfs_holdsD(7) [OF assms(2) i FatBackend that(1)] that(2) by (auto simp: mount_map_def split: backend.split)
    then have "world T' (vfs k) = (world T (vfs k))[i := tree_view T']"
      using world_set_fs [OF i, of T' T "FatBackend vol"] set_fs_id [OF i FatBackend] by (simp add: mount_map_def)
    then show ?thesis unfolding run on_mount_run FatBackend bk_exec_fat d(1)
      using res FatBackend d i holds_fat [OF assms(2) i FatBackend d(2,3)] set_fs_id [OF i FatBackend]
      by (auto simp: vfs_step_def world_nth mount_map_def)
  next
    case (RamBackend f)
    have "vfs_exec H c k = Some (Err Unsupported, k)" by (simp add: run on_mount_run RamBackend bk_exec_other set_fs_id [OF i RamBackend])
    then show ?thesis using res assms(2) RamBackend by (auto simp: vfs_step_def)
  next
    case DevBackend
    then have "quiet (at_rel rel c)" using assms(3) res by (simp add: vfs_call_ok_def)
    then have "vfs_exec H c k = Some (dev_spec (at_rel rel c), k)" by (simp add: run on_mount_run DevBackend bk_exec_dev set_fs_id [OF i DevBackend])
    then show ?thesis using res assms(2) DevBackend by (auto simp: vfs_step_def)
  qed
next
  case (Err e)
  then show ?thesis using assms(2) resolve_Err [OF Err] by (auto simp: vfs_exec_dispatch dispatch_run vfs_step_def)
qed simp

lemma explains_skeleton:
  "vfs_explains v cs W rs W' \<Longrightarrow> skeleton v = skeleton w \<Longrightarrow> table_ok w \<Longrightarrow> vfs_explains w cs W rs W'"
proof (induction rule: vfs_explains.induct)
  case (vfs_explains_step v c W r W1 cs rs W')
  then show ?case using skeleton_step(1) [of v w c] vfs_explains.vfs_explains_step [of w c W r W1] by simp
qed (rule vfs_explains_done)

lemma vfs_run_holds:
  assumes "block_device (blockdev H) ok blk"
  shows "vfs_holds H ok blk n T k \<Longrightarrow> list_all (vfs_call_ok (vfs k)) cs \<Longrightarrow>
    \<exists>rs k' T'. vfs_run H cs k = Some (rs, k') \<and> vfs_holds H ok blk n T' k' \<and> skeleton (vfs k') = skeleton (vfs k)
      \<and> periph (glob k') = periph (glob k) \<and> vfs_explains (vfs k) cs (world T (vfs k)) rs (world T' (vfs k'))"
proof (induction cs arbitrary: k T)
  case Nil
  then show ?case by (auto intro: vfs_explains_done)
next
  case (Cons c cs)
  have "vfs_call_ok (vfs k) c" using Cons.prems(2) by simp
  from vfs_exec_holds [OF assms Cons.prems(1) this] obtain r k1 T1 where
    1: "vfs_exec H c k = Some (r, k1)" "vfs_holds H ok blk n T1 k1" "skeleton (vfs k1) = skeleton (vfs k)"
      "periph (glob k1) = periph (glob k)" "vfs_step (vfs k) c (world T (vfs k)) r (world T1 (vfs k1))" by blast
  note table = vfs_holdsD(2) [OF Cons.prems(1)]
  have step: "vfs_call_ok (vfs k1) = vfs_call_ok (vfs k)" using skeleton_step(2) [OF 1(3) table] by blast
  obtain rs k' T' where 2: "vfs_run H cs k1 = Some (rs, k')" "vfs_holds H ok blk n T' k'" "skeleton (vfs k') = skeleton (vfs k1)"
    "periph (glob k') = periph (glob k1)" "vfs_explains (vfs k1) cs (world T1 (vfs k1)) rs (world T' (vfs k'))"
    using Cons.IH [OF 1(2)] Cons.prems(2) unfolding step by auto
  have "vfs_explains (vfs k) cs (world T1 (vfs k1)) rs (world T' (vfs k'))" by (rule explains_skeleton [OF 2(5) 1(3) table])
  with 1(5) have "vfs_explains (vfs k) (c # cs) (world T (vfs k)) (r # rs) (world T' (vfs k'))" by (rule vfs_explains_step)
  moreover have "vfs_run H (c # cs) k = Some (r # rs, k')" using 1(1) 2(1) by simp
  ultimately show ?case using 1(3,4) 2(2-4) by (intro exI [of _ "r # rs"] exI [of _ k'] exI [of _ T']) simp
qed

section \<open>Reading\<close>

definition spec_list :: "string list \<Rightarrow> fs_map \<Rightarrow> (FsError, string list) outcome" where
  "spec_list p M = (case M p of
     Some DirE \<Rightarrow> Ok (sorted_list_of_set {s. M (p @ [s]) \<noteq> None})
   | Some (FileE _) \<Rightarrow> Err NotADir
   | None \<Rightarrow> Err (the (dir_error M [] p)))"

definition spec_vfs_read :: "u64 \<Rightarrow> Vfs \<Rightarrow> fs_map list \<Rightarrow> string \<Rightarrow> (FsError, u8 list) outcome" where
  "spec_vfs_read t v W path = (case resolve v path of
     Ok (i, rel) \<Rightarrow> (case fs (mounts v ! i) of
         TmpBackend _ \<Rightarrow> spec_read (segments rel) (W ! i)
       | FatBackend _ \<Rightarrow> spec_read (keys rel) (W ! i)
       | RamBackend f \<Rightarrow> ram_read_file t f rel
       | DevBackend \<Rightarrow> dev_read_file rel)
   | _ \<Rightarrow> Err NotFound)"

definition spec_vfs_dir :: "Vfs \<Rightarrow> fs_map list \<Rightarrow> string \<Rightarrow> bool" where
  "spec_vfs_dir v W path \<longleftrightarrow> list_ex (\<lambda>m. mprefix m = canonical_prefix path) (mounts v) \<or> (case resolve v path of
     Ok (i, rel) \<Rightarrow> (case fs (mounts v ! i) of
         TmpBackend _ \<Rightarrow> (W ! i) (segments rel) = Some DirE
       | FatBackend _ \<Rightarrow> (W ! i) (keys rel) = Some DirE
       | RamBackend f \<Rightarrow> ram_is_dir f rel
       | DevBackend \<Rightarrow> dev_is_dir rel)
   | _ \<Rightarrow> False)"

definition spec_mount_list :: "Vfs \<Rightarrow> fs_map list \<Rightarrow> string \<Rightarrow> (FsError, string list) outcome" where
  "spec_mount_list v W path = (case resolve v path of
     Ok (i, rel) \<Rightarrow> (case fs (mounts v ! i) of
         TmpBackend _ \<Rightarrow> spec_list (segments rel) (W ! i)
       | FatBackend _ \<Rightarrow> spec_list (keys rel) (W ! i)
       | RamBackend f \<Rightarrow> ram_list_dir f rel
       | DevBackend \<Rightarrow> dev_list_dir rel)
   | _ \<Rightarrow> Err NotFound)"

text \<open>The owner's entries, then the mount points directly below the path.\<close>

definition spec_vfs_list :: "Vfs \<Rightarrow> fs_map list \<Rightarrow> string \<Rightarrow> (FsError, string list) outcome" where
  "spec_vfs_list v W path = (case spec_mount_list v W path of
     Ok names \<Rightarrow> Ok (fold (add_child (canonical_prefix path)) (mounts v) names)
   | Err e \<Rightarrow> Err e
   | Panic c \<Rightarrow> Panic c)"

text \<open>A listing is given up to the order of its entries.\<close>

fun same_names :: "(FsError, string list) outcome \<Rightarrow> (FsError, string list) outcome \<Rightarrow> bool" where
  "same_names (Ok a) (Ok b) \<longleftrightarrow> mset a = mset b"
| "same_names a b \<longleftrightarrow> a = b"

lemma same_names_refl: "same_names r r"
  by (cases r) simp_all

lemma same_names_children: "distinct names \<Longrightarrow> set names = S \<Longrightarrow> same_names (Ok names) (Ok (sorted_list_of_set S))"
  by (metis List.finite_set same_names.simps(1) set_eq_iff_mset_eq_distinct sorted_list_of_set)

lemma tmp_read_spec: "tmp_read_file t rel = spec_read (segments rel) (view (TmpFs.root t))"
  using dir_error_walk [of "TmpFs.root t" "[]" "TmpFs.root t" "segments rel"]
  by (auto simp: tmp_read_file_def spec_read_def view_def split: outcome.splits node.splits)

lemma tmp_list_spec:
  assumes "node_ok (TmpFs.root t)"
  shows "same_names (tmp_list_dir t rel) (spec_list (segments rel) (view (TmpFs.root t)))"
proof (cases "walk (TmpFs.root t) (segments rel)")
  case (Ok m)
  show ?thesis
  proof (cases m)
    case (Dir d)
    then have w: "walk (TmpFs.root t) (segments rel) = Ok (Dir d)" using Ok by simp
    have "bt_ok d" using node_ok_walk [OF w assms] by simp
    then have "sorted_wrt (<) (bt_keys d)" "set (bt_keys d) = {s. view (TmpFs.root t) (segments rel @ [s]) \<noteq> None}"
      by (auto simp: bt.sorted_keys bt.set_keys view_child [OF w])
    then have "same_names (Ok (bt_keys d)) (Ok (sorted_list_of_set {s. view (TmpFs.root t) (segments rel @ [s]) \<noteq> None}))"
      by (intro same_names_children) (simp_all add: strict_sorted_iff)
    moreover have "view (TmpFs.root t) (segments rel) = Some DirE" using w by (simp add: view_def)
    ultimately show ?thesis unfolding tmp_list_dir_def spec_list_def w by simp
  qed (use Ok in \<open>simp add: tmp_list_dir_def spec_list_def view_def\<close>)
next
  case (Err e)
  then show ?thesis using dir_error_walk [of "TmpFs.root t" "[]" "TmpFs.root t" "segments rel"]
    by (simp add: tmp_list_dir_def spec_list_def view_def)
qed simp

lemma trim_slashes: "set r \<subseteq> {c} \<Longrightarrow> trim_end_matches c (p @ r) = trim_end_matches c p"
  by (induction r rule: rev_induct) (auto simp flip: append_assoc)

text \<open>What is left of a path below its mount: never an empty list of slashes, for a canonical path or one that is no mount point.\<close>

lemma rel_not_root:
  assumes "table_ok v" "resolve v p = Ok (i, rel)" "\<not> list_ex (\<lambda>m. mprefix m = canonical_prefix p) (mounts v)"
  shows "segments rel \<noteq> []"
proof
  assume "segments rel = []"
  note R = resolve_OkD [OF assms(1,2)]
  let ?P = "mprefix (mounts v ! i)"
  have ok: "prefix_ok ?P" using assms(1) R(1) by (simp add: table_ok_def list_all_iff)
  obtain r where r: "p = ?P @ r" "set r \<subseteq> {slash}"
    using segments_NilD [OF \<open>segments rel = []\<close>] covers_decomp [OF R(2)] R(3) by (auto simp: below_def split: if_splits)
  have "canonical_prefix p = ?P"
    unfolding canonical_prefix_trim r(1) trim_slashes [OF r(2)] using ok by (intro trim_end_matches_id) (auto simp: prefix_ok_def)
  then show False using assms(3) R(1) by (auto simp: list_ex_iff)
qed

lemma rel_good:
  assumes "table_ok v" "resolve v p = Ok (i, rel)" "canonical p"
  shows "good_path rel"
proof (cases "segments rel = []")
  case True
  note R = resolve_OkD [OF assms(1,2)]
  let ?P = "mprefix (mounts v ! i)"
  have "p = ''/'' \<or> last p \<noteq> slash"
  proof (cases "segments p" rule: rev_cases)
    case (snoc xs x)
    moreover have "x \<noteq> []" "slash \<notin> set x" using segments_set [of x p] snoc by auto
    ultimately have "last x \<noteq> slash" "x \<noteq> []" using last_in_set [of x] by metis+
    then show ?thesis using assms(3) snoc by (auto simp: canonical_def)
  qed (use assms(3) in \<open>simp add: canonical_def\<close>)
  moreover have "rel = ''/'' \<or> p = ?P @ rel"
    using R(3) covers_decomp [OF R(2)] by (auto simp: below_def split: if_splits)
  moreover have "rel \<noteq> []" using below_slash [OF resolve_abs [OF assms(2)] R(2)] R(3) by (auto simp: starts_with_def)
  moreover from this have "last rel = slash" using segments_NilD [OF True] last_in_set [of rel] by blast
  ultimately have "rel = ''/''" by (cases ?P) auto
  then show ?thesis by (simp add: good_path_def)
qed (simp add: good_path_def)

text \<open>A reading method of a FAT mount moves the state of the drive only.\<close>

lemma fat_read_holds:
  assumes "vfs_holds H ok blk n T k" "i < length (mounts (vfs k))" "fs (mounts (vfs k) ! i) = FatBackend vol"
    and "m (drive (glob k)) = Some (r, d)" "ok d" "fat_volume vol n T (device_image (blockdev H) blk d)"
  shows "\<exists>k'. map_option (\<lambda>(r, (g, b)). (r, k\<lparr>glob := g, vfs := set_fs i b (vfs k)\<rparr>)) (on_drive m (glob k, FatBackend vol)) = Some (r, k')
    \<and> vfs_holds H ok blk n T k' \<and> vfs k' = vfs k \<and> periph (glob k') = periph (glob k)"
  using holds_fat [OF assms(1-3,5,6)] assms(4) set_fs_id [OF assms(2,3)] by (auto simp: on_drive_run)

lemma vfs_read_holds:
  assumes "block_device (blockdev H) ok blk" "vfs_holds H ok blk n T k" "canonical path"
  shows "\<exists>k'. vfs_read_file H path k = Some (spec_vfs_read (ticks (glob k)) (vfs k) (world T (vfs k)) path, k')
    \<and> vfs_holds H ok blk n T k' \<and> vfs k' = vfs k \<and> periph (glob k') = periph (glob k)"
proof (cases "resolve (vfs k) path")
  case (Ok x)
  obtain i rel where x: "x = (i, rel)" by (cases x)
  note res = Ok [unfolded x] and table = vfs_holdsD(2) [OF assms(2)]
  have i: "i < length (mounts (vfs k))" by (rule resolve_index [OF table res])
  show ?thesis
  proof (cases "fs (mounts (vfs k) ! i)")
    case (FatBackend vol)
    note fat = vfs_holdsD(6) [OF assms(2) i FatBackend]
    from block_device.read_file_dev [OF assms(1) vfs_holdsD(3) [OF assms(2)] fat rel_good [OF table res assms(3)]] obtain d where
      "Fat.read_file (blockdev H) vol rel (drive (glob k)) = Some (spec_read (keys rel) (tree_view T), d)" "ok d"
      "fat_volume vol n T (device_image (blockdev H) blk d)" by blast
    from fat_read_holds [where m = "Fat.read_file (blockdev H) vol rel", OF assms(2) i FatBackend this] show ?thesis
      using i FatBackend by (simp add: vfs_read_file_run res on_mount_run bk_read_file_run spec_vfs_read_def world_nth mount_map_def)
  qed (use assms(2) i in \<open>simp_all add: vfs_read_file_run res on_mount_run bk_read_file_run spec_vfs_read_def world_nth mount_map_def
      set_fs_id tmp_read_spec\<close>)
next
  case (Err e)
  with resolve_Err [OF Err] show ?thesis using assms(2) by (simp add: vfs_read_file_run spec_vfs_read_def)
qed simp

lemma vfs_dir_holds:
  assumes "block_device (blockdev H) ok blk" "vfs_holds H ok blk n T k"
  shows "\<exists>k'. vfs_is_dir H path k = Some (Ok (spec_vfs_dir (vfs k) (world T (vfs k)) path), k')
    \<and> vfs_holds H ok blk n T k' \<and> vfs k' = vfs k \<and> periph (glob k') = periph (glob k)"
proof (cases "list_ex (\<lambda>m. mprefix m = canonical_prefix path) (mounts (vfs k))")
  case True
  then show ?thesis using assms(2) by (simp add: vfs_is_dir_run spec_vfs_dir_def list_ex_iff)
next
  case no: False
  then have no': "\<not> (\<exists>m\<in>set (mounts (vfs k)). mprefix m = canonical_prefix path)" by (simp add: list_ex_iff)
  show ?thesis
  proof (cases "resolve (vfs k) path")
    case (Ok x)
    obtain i rel where x: "x = (i, rel)" by (cases x)
    note res = Ok [unfolded x] and table = vfs_holdsD(2) [OF assms(2)]
    have i: "i < length (mounts (vfs k))" by (rule resolve_index [OF table res])
    show ?thesis
    proof (cases "fs (mounts (vfs k) ! i)")
      case (FatBackend vol)
      note fat = vfs_holdsD(6) [OF assms(2) i FatBackend]
      have "good_path rel" using rel_not_root [OF table res no] by (simp add: good_path_def)
      from block_device.is_dir_dev [OF assms(1) vfs_holdsD(3) [OF assms(2)] fat this] obtain d where
        "Fat.is_dir (blockdev H) vol rel (drive (glob k)) = Some (Ok (tree_view T (keys rel) = Some DirE), d)" "ok d"
        "fat_volume vol n T (device_image (blockdev H) blk d)" by blast
      from fat_read_holds [where m = "Fat.is_dir (blockdev H) vol rel", OF assms(2) i FatBackend this] show ?thesis
        using i FatBackend no no' by (simp add: vfs_is_dir_run res on_mount_run bk_is_dir_run spec_vfs_dir_def world_nth mount_map_def)
    qed (use assms(2) i no no' in \<open>simp_all add: vfs_is_dir_run res on_mount_run bk_is_dir_run spec_vfs_dir_def world_nth mount_map_def
        set_fs_id tmp_is_dir_view\<close>)
  next
    case (Err e)
    with no no' show ?thesis using assms(2) by (simp add: vfs_is_dir_run spec_vfs_dir_def)
  qed simp
qed

lemma mset_add_child: "mset a = mset b \<Longrightarrow> mset (add_child q m a) = mset (add_child q m b)"
proof (cases "direct_child q (mprefix m)")
  case (Some c)
  assume eq: "mset a = mset b"
  then have "c \<in> set a \<longleftrightarrow> c \<in> set b" by (metis set_mset_mset)
  with eq Some show ?thesis by (simp add: add_child_def)
qed (simp add: add_child_def)

lemma mset_add_children: "mset a = mset b \<Longrightarrow> mset (fold (add_child q) ms a) = mset (fold (add_child q) ms b)"
proof (induction ms arbitrary: a b)
  case (Cons m ms)
  from Cons.IH [OF mset_add_child [OF Cons.prems]] show ?case by simp
qed simp

lemma vfs_list_holds:
  assumes "block_device (blockdev H) ok blk" "vfs_holds H ok blk n T k" "canonical path"
  shows "\<exists>r k'. vfs_list_dir H path k = Some (r, k') \<and> same_names r (spec_vfs_list (vfs k) (world T (vfs k)) path)
    \<and> vfs_holds H ok blk n T k' \<and> vfs k' = vfs k \<and> periph (glob k') = periph (glob k)"
proof -
  have own: "\<exists>r k'. dispatch path (bk_list_dir H) k = Some (r, k') \<and> same_names r (spec_mount_list (vfs k) (world T (vfs k)) path)
      \<and> vfs_holds H ok blk n T k' \<and> vfs k' = vfs k \<and> periph (glob k') = periph (glob k)"
  proof (cases "resolve (vfs k) path")
    case (Ok x)
    obtain i rel where x: "x = (i, rel)" by (cases x)
    note res = Ok [unfolded x] and table = vfs_holdsD(2) [OF assms(2)]
    have i: "i < length (mounts (vfs k))" by (rule resolve_index [OF table res])
    show ?thesis
    proof (cases "fs (mounts (vfs k) ! i)")
      case (FatBackend vol)
      note fat = vfs_holdsD(6) [OF assms(2) i FatBackend]
      from block_device.list_dir_dev [OF assms(1) vfs_holdsD(3) [OF assms(2)] fat rel_good [OF table res assms(3)]] obtain r d where
        d: "Fat.list_dir (blockdev H) vol rel (drive (glob k)) = Some (r, d)" "ok d" "fat_volume vol n T (device_image (blockdev H) blk d)"
        and r: "case tree_view T (keys rel) of
           Some DirE \<Rightarrow> (\<exists>names. r = Ok names \<and> distinct names \<and> set names = {k. tree_view T (keys rel @ [k]) \<noteq> None})
         | Some (FileE _) \<Rightarrow> r = Err NotADir | None \<Rightarrow> r = Err (the (dir_error (tree_view T) [] (keys rel)))" by blast
      have "same_names r (spec_list (keys rel) (tree_view T))"
        using r by (cases "tree_view T (keys rel)" rule: option.exhaust; simp add: spec_list_def split: entry.splits; blast intro: same_names_children)
      with fat_read_holds [where m = "Fat.list_dir (blockdev H) vol rel", OF assms(2) i FatBackend d] show ?thesis
        using i FatBackend by (auto simp: dispatch_run res on_mount_run bk_list_dir_run spec_mount_list_def world_nth mount_map_def)
    next
      case (TmpBackend t)
      with tmp_list_spec [OF vfs_holdsD(4) [OF assms(2) i TmpBackend]] show ?thesis using assms(2) i
        by (simp add: dispatch_run res on_mount_run bk_list_dir_run spec_mount_list_def world_nth mount_map_def set_fs_id)
    qed (use assms(2) i in \<open>simp_all add: dispatch_run res on_mount_run bk_list_dir_run spec_mount_list_def set_fs_id same_names_refl\<close>)
  next
    case (Err e)
    with resolve_Err [OF Err] show ?thesis using assms(2) by (simp add: dispatch_run spec_mount_list_def)
  qed simp
  then obtain r k' where r: "dispatch path (bk_list_dir H) k = Some (r, k')" "same_names r (spec_mount_list (vfs k) (world T (vfs k)) path)"
    "vfs_holds H ok blk n T k'" "vfs k' = vfs k" "periph (glob k') = periph (glob k)" by blast
  obtain q where q: "vfs_list_dir H path k = Some (q, k')"
    "case r of Ok es \<Rightarrow> q = Ok (fold (add_child (canonical_prefix path)) (mounts (vfs k')) es) | Err e \<Rightarrow> q = Err e | Panic c \<Rightarrow> q = Panic c"
    by (cases r) (simp_all add: vfs_list_dir_def bindM_Ok bindM_Err bindM_Panic r(1) bindM_gets ret_run)
  have "same_names q (spec_vfs_list (vfs k) (world T (vfs k)) path)"
    using q(2) r(2) unfolding spec_vfs_list_def r(4)
    by (cases r; cases "spec_mount_list (vfs k) (world T (vfs k)) path") (simp_all, rule mset_add_children)
  with q(1) r(3-5) show ?thesis by blast
qed

section \<open>What clients rely on\<close>

lemma skeleton_read:
  assumes "skeleton v' = skeleton v" "table_ok v"
  shows "spec_vfs_read t v' W path = spec_vfs_read t v W path"
proof (cases "resolve v path")
  case (Ok x)
  obtain i rel where x: "x = (i, rel)" by (cases x)
  have sh: "shape (fs (mounts v' ! i)) = shape (fs (mounts v ! i))"
    using skeletonD(3) [OF assms(1) resolve_index [OF assms(2) Ok [unfolded x]]] .
  show ?thesis unfolding spec_vfs_read_def skeletonD(1) [OF assms(1)] Ok x
    using sh by (auto simp: shape_def split: backend.splits)
qed (simp_all add: spec_vfs_read_def skeletonD(1) [OF assms(1)])

text \<open>A call changes one name of one map.\<close>

lemma tmp_spec_other: "q \<noteq> segments (call_path c) \<Longrightarrow> snd (tmp_spec c M) q = M q"
  by (cases c) (auto simp: spec_write_def spec_append_def spec_create_dir_def spec_remove_def spec_in_parent_def split: option.split entry.split)

lemma call_spec_other: "q \<noteq> keys (call_path c) \<Longrightarrow> snd (call_spec c M) q = M q"
  by (cases c) (auto simp: spec_write_def spec_append_def spec_create_dir_def spec_remove_def spec_in_parent_def split: option.split entry.split)

lemma call_step_other: "call_step c M r M' \<Longrightarrow> q \<noteq> keys (call_path c) \<Longrightarrow> M' q = M q"
  using call_spec_other [of q c M] by (auto simp: call_step_def dest: arg_cong [where f = snd])

text \<open>The mount and the name within it that a path stands for.\<close>

definition place :: "Vfs \<Rightarrow> string \<Rightarrow> (nat \<times> string list) option" where
  "place v path = (case resolve v path of
     Ok (i, rel) \<Rightarrow> Some (i, case fs (mounts v ! i) of FatBackend _ \<Rightarrow> keys rel | _ \<Rightarrow> segments rel)
   | _ \<Rightarrow> None)"

lemma call_path_at_rel [simp]: "call_path (at_rel rel c) = rel"
  by (cases c) simp_all

lemma vfs_step_other:
  assumes "vfs_step v c W r W'" "place v (call_path c) \<noteq> Some (i, q)"
  shows "(W' ! i) q = (W ! i) q"
proof (cases "resolve v (call_path c)")
  case (Ok x)
  obtain j rel where x: "x = (j, rel)" by (cases x)
  show ?thesis
  proof (cases "fs (mounts v ! j)")
    case (TmpBackend t)
    obtain M where M: "(r, M) = tmp_spec (at_rel rel c) (W ! j)" "W' = W[j := M]" using assms(1) Ok x TmpBackend by (auto simp: vfs_step_def)
    have "j = i \<Longrightarrow> q \<noteq> segments rel" using assms(2) Ok x TmpBackend by (auto simp: place_def)
    then have "j = i \<Longrightarrow> M q = (W ! j) q" using tmp_spec_other [of q "at_rel rel c" "W ! j"] M(1) by (metis call_path_at_rel snd_conv)
    then show ?thesis using M(2) by (cases "j < length W") (auto simp: nth_list_update list_update_beyond)
  next
    case (FatBackend vol)
    obtain M where M: "call_step (at_rel rel c) (W ! j) r M" "W' = W[j := M]" using assms(1) Ok x FatBackend by (auto simp: vfs_step_def)
    have "j = i \<Longrightarrow> q \<noteq> keys rel" using assms(2) Ok x FatBackend by (auto simp: place_def)
    then have "j = i \<Longrightarrow> M q = (W ! j) q" using call_step_other [OF M(1)] by simp
    then show ?thesis using M(2) by (cases "j < length W") (auto simp: nth_list_update list_update_beyond)
  qed (use assms(1) Ok x in \<open>simp_all add: vfs_step_def\<close>)
qed (use assms(1) in \<open>simp_all add: vfs_step_def\<close>)

lemma vfs_explains_other:
  "vfs_explains v cs W rs W' \<Longrightarrow> (\<And>c. c \<in> set cs \<Longrightarrow> place v (call_path c) \<noteq> Some (i, q)) \<Longrightarrow> (W' ! i) q = (W ! i) q"
  by (induction rule: vfs_explains.induct) (simp_all add: vfs_step_other)

lemma spec_read_Ok: "spec_read p M = Ok b \<longleftrightarrow> M p = Some (FileE b)"
  by (auto simp: spec_read_def split: option.split entry.split)

text \<open>Two worlds in which a place has the same entry.\<close>

lemma spec_vfs_read_Ok:
  assumes "\<And>i q. place v path = Some (i, q) \<Longrightarrow> (W' ! i) q = (W ! i) q"
  shows "spec_vfs_read t v W' path = Ok b \<longleftrightarrow> spec_vfs_read t v W path = Ok b"
proof (cases "resolve v path")
  case (Ok x)
  obtain i rel where x: "x = (i, rel)" by (cases x)
  show ?thesis using assms [of i] Ok x
    by (cases "fs (mounts v ! i)") (simp_all add: spec_vfs_read_def place_def spec_read_Ok)
qed (simp_all add: spec_vfs_read_def)

lemma vfs_untouched:
  assumes "block_device (blockdev H) ok blk" "vfs_holds H ok blk n T k" "list_all (vfs_call_ok (vfs k)) cs" "canonical path"
    and "\<And>c. c \<in> set cs \<Longrightarrow> place (vfs k) (call_path c) \<noteq> place (vfs k) path"
  shows "\<exists>rs k'. vfs_run H cs k = Some (rs, k')
    \<and> (\<forall>b. (\<exists>k1. vfs_read_file H path k' = Some (Ok b, k1)) \<longleftrightarrow> (\<exists>k1. vfs_read_file H path k = Some (Ok b, k1)))"
proof -
  let ?t = "ticks (glob k)"
  obtain rs k' T' where r: "vfs_run H cs k = Some (rs, k')" "vfs_holds H ok blk n T' k'" "skeleton (vfs k') = skeleton (vfs k)"
    "periph (glob k') = periph (glob k)" "vfs_explains (vfs k) cs (world T (vfs k)) rs (world T' (vfs k'))" using vfs_run_holds [OF assms(1-3)] by blast
  have "(world T' (vfs k') ! i) q = (world T (vfs k) ! i) q" if "place (vfs k) path = Some (i, q)" for i q
    by (rule vfs_explains_other [OF r(5)]) (use assms(5) that in force)
  then have same: "spec_vfs_read ?t (vfs k) (world T' (vfs k')) path = Ok b \<longleftrightarrow> spec_vfs_read ?t (vfs k) (world T (vfs k)) path = Ok b" for b
    by (rule spec_vfs_read_Ok)
  obtain k1 where "vfs_read_file H path k = Some (spec_vfs_read ?t (vfs k) (world T (vfs k)) path, k1)"
    using vfs_read_holds [OF assms(1,2,4)] by blast
  moreover obtain k2 where "vfs_read_file H path k' = Some (spec_vfs_read ?t (vfs k) (world T' (vfs k')) path, k2)"
    using vfs_read_holds [OF assms(1) r(2) assms(4)] skeleton_read [OF r(3) vfs_holdsD(2) [OF assms(2)]] r(4) by auto
  ultimately show ?thesis using r(1) same by auto
qed

text \<open>
  C5: the VFS and all its file systems act as one map per mount, for the calls \<open>vfs_call_ok\<close> covers: on a FAT mount the path has 8.3 names
  only (the driver's documented domain) and an append is not to the root; on \<open>/dev\<close> a \<open>write_file\<close> is not to \<open>console\<close> or \<open>serial0\<close> and not of
  whole blocks to \<open>disk0\<close>. Any sequence of such writing calls runs to its end without a panic; each call resolves its
  path to a mount and does there what the specification of that file system says, with that result, while every other mount keeps its map; the
  ramfs answers \<open>Unsupported\<close>, and a device node swallows or refuses what is written. Afterwards every path reads as the maps say.
\<close>

theorem vfs_calls_explained:
  assumes "block_device (blockdev H) ok blk" "vfs_holds H ok blk n T k" "list_all (vfs_call_ok (vfs k)) cs"
  shows "\<exists>rs k' T'. vfs_run H cs k = Some (rs, k') \<and> vfs_explains (vfs k) cs (world T (vfs k)) rs (world T' (vfs k'))
    \<and> (\<forall>path. canonical path \<longrightarrow>
         (\<exists>k1. vfs_read_file H path k' = Some (spec_vfs_read (ticks (glob k)) (vfs k) (world T' (vfs k')) path, k1)))"
proof -
  obtain rs k' T' where r: "vfs_run H cs k = Some (rs, k')" "vfs_holds H ok blk n T' k'" "skeleton (vfs k') = skeleton (vfs k)"
    "periph (glob k') = periph (glob k)" "vfs_explains (vfs k) cs (world T (vfs k)) rs (world T' (vfs k'))" using vfs_run_holds [OF assms] by blast
  have "\<exists>k1. vfs_read_file H path k' = Some (spec_vfs_read (ticks (glob k)) (vfs k) (world T' (vfs k')) path, k1)" if "canonical path" for path
    using vfs_read_holds [OF assms(1) r(2) that] skeleton_read [OF r(3) vfs_holdsD(2) [OF assms(2)]] r(4) by auto
  with r(1,5) show ?thesis by blast
qed

text \<open>
  C11: no call reaches another file, for the calls \<open>vfs_call_ok\<close> covers: 8.3 names only on a FAT mount, no append to its root, and on \<open>/dev\<close>
  no \<open>write_file\<close> to \<open>console\<close> or \<open>serial0\<close> and none of whole blocks to \<open>disk0\<close> (which would overwrite the volume's blocks). After any
  sequence of such calls a file whose path stands for another place than the paths of
  the calls - on the same mount or on another - still reads the same bytes, and no file has appeared at a path that stands for none of
  their places.
\<close>

theorem vfs_frame:
  assumes "block_device (blockdev H) ok blk" "vfs_holds H ok blk n T k" "list_all (vfs_call_ok (vfs k)) cs" "canonical path"
    and "\<And>c. c \<in> set cs \<Longrightarrow> place (vfs k) (call_path c) \<noteq> place (vfs k) path"
  shows "\<exists>rs k'. vfs_run H cs k = Some (rs, k')
    \<and> (\<forall>b. (\<exists>k1. vfs_read_file H path k' = Some (Ok b, k1)) \<longleftrightarrow> (\<exists>k1. vfs_read_file H path k = Some (Ok b, k1)))"
  using assms by (rule vfs_untouched)

section \<open>A kernel with the sample volume\<close>

definition disk_kernel :: "(image, u8 list) kernel" where
  "disk_kernel = \<lparr>glob = demo_globals\<lparr>drive := sample_image\<rparr>, vfs = set_fs 0 (FatBackend sample_vol) demo_vfs\<rparr>"

abbreviation boot_table :: "FatFs \<Rightarrow> Mount list" where
  "boot_table vol \<equiv> [\<lparr>mprefix = [], fs = FatBackend vol\<rparr>, \<lparr>mprefix = ''/tmp'', fs = TmpBackend tmp_new\<rparr>,
     \<lparr>mprefix = ''/dev'', fs = DevBackend\<rparr>, \<lparr>mprefix = ''/ram'', fs = RamBackend ram_seed\<rparr>]"

lemma disk_mounts: "mounts (vfs disk_kernel) = boot_table sample_vol"
  by (simp add: disk_kernel_def set_fs_def demo_vfs_mounts)

text \<open>The four mounts of the boot, over any volume.\<close>

lemma boot_holds:
  assumes "mounts (vfs k) = boot_table vol"
    and "ok (drive (glob k))" "fat_volume vol n T (device_image (blockdev H) blk (drive (glob k)))" "cap vol * cluster_bytes vol < 2 ^ 32"
  shows "vfs_holds H ok blk n T k"
proof (rule vfs_holdsI)
  have "vol_ok vol" using assms(3) fitsD(1) by (auto simp: fat_volume_def)
  then show "vfs_good k" by (simp add: vfs_good_def assms(1) backend_ok_boot table_ok_def MAX_MOUNTS_def prefix_ok_def)
  have nth: "i < length (mounts (vfs k)) \<Longrightarrow> i = 0 \<or> i = 1 \<or> i = 2 \<or> i = 3" for i by (auto simp: assms(1))
  show "node_ok (TmpFs.root t)" if "i < length (mounts (vfs k))" "fs (mounts (vfs k) ! i) = TmpBackend t" for i t
    using nth [OF that(1)] that(2) by (auto simp: assms(1) tmp_new_def bt_ok_def)
  have fat: "i = 0 \<and> vol' = vol" if "i < length (mounts (vfs k))" "fs (mounts (vfs k) ! i) = FatBackend vol'" for i vol'
    using nth [OF that(1)] that(2) by (auto simp: assms(1))
  show "cap vol' * cluster_bytes vol' < 2 ^ 32 \<and> fat_volume vol' n T (device_image (blockdev H) blk (drive (glob k)))"
    if "i < length (mounts (vfs k))" "fs (mounts (vfs k) ! i) = FatBackend vol'" for i vol'
    using fat [OF that] assms(3,4) by simp
  show "i = j" if "i < length (mounts (vfs k))" "j < length (mounts (vfs k))" "fs (mounts (vfs k) ! i) = FatBackend a" "fs (mounts (vfs k) ! j) = FatBackend b" for i j a b
    using fat [OF that(1,3)] fat [OF that(2,4)] by simp
qed (rule assms(2))

lemma disk_device: "block_device (blockdev demo_hardware) image_ok image_blk"
  by (simp add: demo_hardware_def img.block_device_axioms)

lemma disk_holds: "vfs_holds demo_hardware image_ok image_blk 127 sample_tree disk_kernel"
  by (rule boot_holds [OF disk_mounts])
    (use sample_disk(2,3) in \<open>simp_all add: disk_kernel_def demo_hardware_def cap_def sample_vol_def cluster_bytes_def\<close>)

lemma disk_resolve:
  "resolve (vfs disk_kernel) ''/NEW.TXT'' = Ok (0, ''/NEW.TXT'')" "resolve (vfs disk_kernel) ''/old.txt'' = Ok (0, ''/old.txt'')"
  "resolve (vfs disk_kernel) ''/tmp/old.txt'' = Ok (1, ''/old.txt'')" "resolve (vfs disk_kernel) ''/ram/x'' = Ok (3, ''/x'')"
  "resolve (vfs disk_kernel) ''/dev/disk0'' = Ok (2, ''/disk0'')"
  by (simp_all add: resolve_def disk_mounts starts_with_def resolve_step_def mount_matches_def)

lemma disk0_name: "flat_name ''/disk0'' = Ok ''disk0''"
  by (simp add: flat_name_def strip_prefix_def starts_with_def)

lemma disk_read: "\<exists>k1. vfs_read_file demo_hardware ''/old.txt'' disk_kernel = Some (Ok [104, 101, 108, 108, 111], k1)"
proof -
  have "spec_vfs_read (ticks (glob disk_kernel)) (vfs disk_kernel) (world sample_tree (vfs disk_kernel)) ''/old.txt'' = Ok [104, 101, 108, 108, 111]"
    unfolding spec_vfs_read_def disk_resolve by (simp add: disk_mounts world_def mount_map_def spec_read_def sample_paths sample_view)
  with vfs_read_holds [OF disk_device disk_holds sample_paths(3)] show ?thesis by auto
qed

theorem vfs_calls_explained_witness:
  "\<exists>r r' k'. vfs_run demo_hardware [WriteFile ''/tmp/old.txt'' [7], WriteFile ''/NEW.TXT'' [1], CreateFile ''/ram/x'', WriteFile ''/dev/disk0'' [7]] disk_kernel
      = Some ([r, r', Err Unsupported, Err Io], k')"
proof -
  have "list_all (vfs_call_ok (vfs disk_kernel)) [WriteFile ''/tmp/old.txt'' [7], WriteFile ''/NEW.TXT'' [1], CreateFile ''/ram/x'', WriteFile ''/dev/disk0'' [7]]"
    using sample_paths(1) by (simp add: vfs_call_ok_def disk_resolve) (simp add: disk_mounts call_ok_def disk0_name BLOCK_SIZE_def)
  from vfs_calls_explained [OF disk_device disk_holds this] show ?thesis
    by (auto elim!: vfs_explains.cases simp: vfs_step_def disk_resolve) (auto simp: disk_mounts disk0_name)
qed

theorem vfs_frame_witness:
  "\<exists>rs k' k1. vfs_run demo_hardware [WriteFile ''/tmp/old.txt'' [7], WriteFile ''/NEW.TXT'' [1]] disk_kernel = Some (rs, k')
    \<and> vfs_read_file demo_hardware ''/old.txt'' k' = Some (Ok [104, 101, 108, 108, 111], k1)"
proof -
  have "list_all (vfs_call_ok (vfs disk_kernel)) [WriteFile ''/tmp/old.txt'' [7], WriteFile ''/NEW.TXT'' [1]]"
    using sample_paths(1) by (simp add: vfs_call_ok_def disk_resolve) (simp add: disk_mounts call_ok_def)
  moreover have "place (vfs disk_kernel) (call_path c) \<noteq> place (vfs disk_kernel) ''/old.txt''"
    if "c \<in> set [WriteFile ''/tmp/old.txt'' [7], WriteFile ''/NEW.TXT'' [1]]" for c
    using that by (auto simp: place_def disk_resolve) (auto simp: disk_mounts sample_paths)
  ultimately obtain rs k' where "vfs_run demo_hardware [WriteFile ''/tmp/old.txt'' [7], WriteFile ''/NEW.TXT'' [1]] disk_kernel = Some (rs, k')"
    "\<forall>b. (\<exists>k1. vfs_read_file demo_hardware ''/old.txt'' k' = Some (Ok b, k1)) \<longleftrightarrow> (\<exists>k1. vfs_read_file demo_hardware ''/old.txt'' disk_kernel = Some (Ok b, k1))"
    using vfs_frame [OF disk_device disk_holds _ sample_paths(3)] by blast
  with disk_read show ?thesis by blast
qed

end
