(* ===== verification/ShellSpec.thy ===== *)
theory ShellSpec
  imports VfsSpec Shell
begin

text \<open>
  What the user of the shell sees, as an abstract shell: its state is the map of each mount and the working directory, and each line is
  an update of the maps with a report, or a pure function of the state. On any hardware whose drive meets the block-device contract, and
  with a FAT volume, a tmpfs, the device nodes and the built-in tree mounted in any arrangement, a session of the shell prints what the
  abstract shell prints.
\<close>

section \<open>The abstract shell\<close>

fun fs_message :: "string \<Rightarrow> FsError \<Rightarrow> string \<Rightarrow> string" where
  "fs_message cmd NotFound p = cmd @ '': not found: '' @ p @ [newline_char]"
| "fs_message cmd NotADir p = cmd @ '': not a directory: '' @ p @ [newline_char]"
| "fs_message cmd IsADir p = cmd @ '': is a directory: '' @ p @ [newline_char]"
| "fs_message cmd Io p = cmd @ '': i/o error: '' @ p @ [newline_char]"
| "fs_message cmd Unsupported p = cmd @ '': unsupported: '' @ p @ [newline_char]"

definition report :: "string \<Rightarrow> string \<Rightarrow> (FsError, unit) outcome \<Rightarrow> string" where
  "report cmd p r = (case r of
     Err e \<Rightarrow> if e = Unsupported then cmd @ '': read-only filesystem'' @ [newline_char] else cmd @ '': '' @ p @ '': '' @ fs_error_debug e @ [newline_char]
   | _ \<Rightarrow> [])"

definition spec_ls :: "Vfs \<Rightarrow> fs_map list \<Rightarrow> string \<Rightarrow> string" where
  "spec_ls v W target = (case spec_vfs_list v W target of
     Ok names \<Rightarrow> concat (map (\<lambda>name. name @ (if spec_vfs_dir v W (trim_end_matches slash target @ ''/'' @ name) then ''/'' else []) @ [newline_char])
       (sort names))
   | Err e \<Rightarrow> fs_message ''ls'' e target
   | Panic _ \<Rightarrow> [])"

definition spec_cat :: "u64 \<Rightarrow> Vfs \<Rightarrow> fs_map list \<Rightarrow> string \<Rightarrow> string" where
  "spec_cat t v W p = (case spec_vfs_read t v W p of Ok bytes \<Rightarrow> cat_text bytes | Err e \<Rightarrow> fs_message ''cat'' e p | Panic _ \<Rightarrow> [])"

text \<open>The lines that change the file systems.\<close>

definition line_call :: "string \<Rightarrow> string list \<Rightarrow> fat_call option" where
  "line_call dir ws = (case ws of
     cmd # p # rest \<Rightarrow>
       (if cmd = ''touch'' then Some (CreateFile (normalize dir p))
        else if cmd = ''mkdir'' then Some (CreateDir (normalize dir p))
        else if cmd = ''rm'' then Some (RemovePath (normalize dir p))
        else if cmd = ''write'' then Some (WriteFile (normalize dir p) (as_bytes (join '' '' rest @ [newline_char])))
        else None)
   | _ \<Rightarrow> None)"

text \<open>The others: what they print, and the working directory they leave.\<close>

definition spec_line :: "u64 \<Rightarrow> Vfs \<Rightarrow> fs_map list \<Rightarrow> string \<Rightarrow> string list \<Rightarrow> string \<times> string" where
  "spec_line t v W dir ws = (case ws of
     [] \<Rightarrow> ([], dir)
   | cmd # args \<Rightarrow>
       if cmd = ''pwd'' then (dir @ [newline_char], dir)
       else if cmd = ''ls'' then (spec_ls v W (case first_arg args of Some p \<Rightarrow> normalize dir p | None \<Rightarrow> dir), dir)
       else if cmd = ''cd'' then
         (let p = (case first_arg args of Some p \<Rightarrow> normalize dir p | None \<Rightarrow> ''/'')
          in if spec_vfs_dir v W p then ([], p) else (''cd: not a directory: '' @ p @ [newline_char], dir))
       else if cmd = ''cat'' then
         (case first_arg args of None \<Rightarrow> ''cat: missing operand'' @ [newline_char] | Some p \<Rightarrow> spec_cat t v W (normalize dir p), dir)
       else if cmd = ''echo'' then (join '' '' args @ [newline_char], dir)
       else if cmd = ''clear'' then (CLEAR_SENTINEL, dir)
       else if cmd = ''mount'' then (mount_lines v, dir)
       else if cmd = ''uptime'' then (show_nat (unat t) @ '' ticks'' @ [newline_char], dir)
       else if cmd = ''touch'' \<or> cmd = ''mkdir'' \<or> cmd = ''rm'' then (cmd @ '': missing operand'' @ [newline_char], dir)
       else if cmd = ''write'' then (''write: missing operand: <path> <text...>'' @ [newline_char], dir)
       else if cmd = ''help'' then (HELP_TEXT, dir)
       else (''willo: command not found: '' @ cmd @ [newline_char], dir))"

type_synonym shell_state = "fs_map list \<times> string"

fun line_step :: "u64 \<Rightarrow> Vfs \<Rightarrow> shell_state \<Rightarrow> string \<Rightarrow> string \<Rightarrow> shell_state \<Rightarrow> bool" where
  "line_step t v (W, dir) l out (W', dir') \<longleftrightarrow> (case line_call dir (split_ascii_whitespace l) of
     Some c \<Rightarrow> dir' = dir \<and> (\<exists>r. vfs_step v c W r W' \<and> out = report (hd (split_ascii_whitespace l)) (call_path c) r)
   | None \<Rightarrow> W' = W \<and> (out, dir') = spec_line t v W dir (split_ascii_whitespace l))"

inductive session :: "u64 \<Rightarrow> Vfs \<Rightarrow> string list \<Rightarrow> shell_state \<Rightarrow> string list \<Rightarrow> shell_state \<Rightarrow> bool" for t v where
  session_done: "session t v [] st [] st"
| session_step: "line_step t v st l out st1 \<Longrightarrow> session t v ls st1 outs st' \<Longrightarrow> session t v (l # ls) st (out # outs) st'"

inductive_cases session_NilE: "session t v [] st outs st'"
inductive_cases session_ConsE: "session t v (l # ls) st outs st'"

text \<open>A line the specification covers: the call it makes, if any, is one \<open>vfs_call_ok\<close> covers.\<close>

definition line_ok :: "Vfs \<Rightarrow> string \<Rightarrow> string \<Rightarrow> bool" where
  "line_ok v dir l \<longleftrightarrow> (case line_call dir (split_ascii_whitespace l) of Some c \<Rightarrow> vfs_call_ok v c | None \<Rightarrow> True)"

fun lines_ok :: "u64 \<Rightarrow> Vfs \<Rightarrow> string list \<Rightarrow> shell_state \<Rightarrow> bool" where
  "lines_ok t v [] st = True"
| "lines_ok t v (l # ls) st \<longleftrightarrow> line_ok v (snd st) l \<and> (\<forall>out st'. line_step t v st l out st' \<longrightarrow> lines_ok t v ls st')"

text \<open>The shell on a list of lines.\<close>

fun run_lines :: "('d, 'p) hardware \<Rightarrow> string list \<Rightarrow> ('d, 'p) Shell \<Rightarrow> ((unit, string) outcome list \<times> ('d, 'p) Shell) option" where
  "run_lines H [] s = Some ([], s)"
| "run_lines H (l # ls) s =
     (case execute_line H l s of
        None \<Rightarrow> None
      | Some (out, s1) \<Rightarrow> map_option (\<lambda>(outs, s'). (out # outs, s')) (run_lines H ls s1))"

section \<open>Commands that read\<close>

definition kept :: "('d, 'p) hardware \<Rightarrow> ('d \<Rightarrow> bool) \<Rightarrow> ('d \<Rightarrow> nat \<Rightarrow> u8 list) \<Rightarrow> nat \<Rightarrow> tree \<Rightarrow> ('d, 'p) Shell \<Rightarrow> ('d, 'p) Shell \<Rightarrow> bool" where
  "kept H ok blk n T s s' \<longleftrightarrow> vfs_holds H ok blk n T (kern s') \<and> vfs (kern s') = vfs (kern s) \<and> periph (glob (kern s')) = periph (glob (kern s)) \<and> cwd s' = cwd s"

lemma kept_refl: "vfs_holds H ok blk n T (kern s) \<Longrightarrow> kept H ok blk n T s s"
  by (simp add: kept_def)

lemma kept_trans: "kept H ok blk n T s s1 \<Longrightarrow> kept H ok blk n T s1 s2 \<Longrightarrow> kept H ok blk n T s s2"
  by (simp add: kept_def)

lemma on_vfs_Err: "m (kern s) = Some (Err e, k') \<Longrightarrow> on_vfs m f s = f (Inl e) (s\<lparr>kern := k'\<rparr>)"
  by (simp add: on_vfs_def attempt_Err on_part_def)

lemma sh_is_dir_holds:
  assumes "block_device (blockdev H) ok blk" "vfs_holds H ok blk n T (kern s)"
  shows "\<exists>s'. sh_is_dir H p s = Some (Ok (spec_vfs_dir (vfs (kern s)) (world T (vfs (kern s))) p), s') \<and> kept H ok blk n T s s'"
proof -
  obtain k' where k': "vfs_is_dir H p (kern s) = Some (Ok (spec_vfs_dir (vfs (kern s)) (world T (vfs (kern s))) p), k')"
    "vfs_holds H ok blk n T k'" "vfs k' = vfs (kern s)" "periph (glob k') = periph (glob (kern s))" using vfs_dir_holds [OF assms] by blast
  then have "sh_is_dir H p s = Some (Ok (spec_vfs_dir (vfs (kern s)) (world T (vfs (kern s))) p), s\<lparr>kern := k'\<rparr>)"
    by (simp add: sh_is_dir_def on_vfs_run k'(1) ret_run)
  with k' show ?thesis by (auto simp: kept_def)
qed

lemma ls_lines_hold:
  assumes "block_device (blockdev H) ok blk" "vfs_holds H ok blk n T (kern s)"
  shows "\<exists>s'. foldM (ls_line H target) names out s = Some (Ok (out @ concat (map (\<lambda>name. name @
      (if spec_vfs_dir (vfs (kern s)) (world T (vfs (kern s))) (trim_end_matches slash target @ ''/'' @ name) then ''/'' else []) @ [newline_char]) names)), s')
    \<and> kept H ok blk n T s s'"
  using assms(2)
proof (induction names arbitrary: out s)
  case Nil
  then show ?case by (simp add: ret_run kept_refl)
next
  case (Cons name names)
  let ?d = "spec_vfs_dir (vfs (kern s)) (world T (vfs (kern s))) (trim_end_matches slash target @ ''/'' @ name)"
  obtain s1 where s1: "sh_is_dir H (trim_end_matches slash target @ ''/'' @ name) s = Some (Ok ?d, s1)" "kept H ok blk n T s s1"
    using sh_is_dir_holds [OF assms(1) Cons.prems] by blast
  then have step: "ls_line H target name out s = Some (Ok (out @ name @ (if ?d then ''/'' else []) @ [newline_char]), s1)"
    by (simp add: ls_line_def bindM_Ok ret_run)
  have "vfs_holds H ok blk n T (kern s1)" using s1(2) by (simp add: kept_def)
  from Cons.IH [OF this, of "out @ name @ (if ?d then ''/'' else []) @ [newline_char]"] s1(2) show ?case
    by (auto simp: bindM_Ok step kept_def)
qed

lemma no_Panic:
  "\<not> panics (spec_read p M)" "\<not> panics (spec_list p M)" "\<not> panics (ram_read_file t f rel)" "\<not> panics (ram_list_dir f rel)"
  "\<not> panics (dev_read_file rel)" "\<not> panics (dev_list_dir rel)"
  using flat_name_Ok(1) [of rel]
  by (auto simp: spec_read_def spec_list_def ram_read_file_def ram_list_dir_def dev_read_file_def dev_list_dir_def
      split: option.splits entry.splits outcome.splits ram_node.splits if_splits)

lemma spec_no_Panic: "\<not> panics (spec_vfs_read t v W p)" "\<not> panics (spec_mount_list v W p)"
  by (simp_all add: spec_vfs_read_def spec_mount_list_def no_Panic split: outcome.split backend.split)

text \<open>A command that reads prints \<open>out\<close> and leaves everything but the state of the drive.\<close>

definition prints :: "('d, 'p) hardware \<Rightarrow> ('d \<Rightarrow> bool) \<Rightarrow> ('d \<Rightarrow> nat \<Rightarrow> u8 list) \<Rightarrow> nat \<Rightarrow> tree \<Rightarrow> ('d, 'p, string) sh \<Rightarrow> ('d, 'p) Shell \<Rightarrow> string \<Rightarrow> bool" where
  "prints H ok blk n T m s out \<longleftrightarrow> (\<exists>s'. m s = Some (Ok out, s') \<and> kept H ok blk n T s s')"

lemma prints_ret: "vfs_holds H ok blk n T (kern s) \<Longrightarrow> prints H ok blk n T (ret out) s out"
  by (simp add: prints_def ret_run kept_refl)

lemma prints_message: "vfs_holds H ok blk n T (kern s) \<Longrightarrow> out = what @ p @ [newline_char] \<Longrightarrow> prints H ok blk n T (message what p) s out"
  unfolding message_def by (simp add: prints_ret)

lemma prints_gets: "prints H ok blk n T (k (f s)) s out \<Longrightarrow> prints H ok blk n T (bindM (gets f) k) s out"
  by (simp add: prints_def bindM_gets)

lemma prints_on_vfs:
  assumes "m (kern s) = Some (r, k')" "kept H ok blk n T s (s\<lparr>kern := k'\<rparr>)" "\<not> panics r"
    and "\<And>x. r = Ok x \<Longrightarrow> prints H ok blk n T (f (Inr x)) (s\<lparr>kern := k'\<rparr>) out"
    and "\<And>e. r = Err e \<Longrightarrow> prints H ok blk n T (f (Inl e)) (s\<lparr>kern := k'\<rparr>) out"
  shows "prints H ok blk n T (on_vfs m f) s out"
proof (cases r)
  case (Ok x)
  then have "on_vfs m f s = f (Inr x) (s\<lparr>kern := k'\<rparr>)" using assms(1) by (simp add: on_vfs_run)
  with assms(4) [OF Ok] kept_trans [OF assms(2)] show ?thesis by (auto simp: prints_def)
next
  case (Err e)
  then have "on_vfs m f s = f (Inl e) (s\<lparr>kern := k'\<rparr>)" using assms(1) by (simp add: on_vfs_Err)
  with assms(5) [OF Err] kept_trans [OF assms(2)] show ?thesis by (auto simp: prints_def)
qed (use assms(3) in simp)

lemma cat_prints:
  assumes "block_device (blockdev H) ok blk" "vfs_holds H ok blk n T (kern s)" "canonical (cwd s)"
  shows "prints H ok blk n T (cmd_cat H (Some p)) s (spec_cat (ticks (glob (kern s))) (vfs (kern s)) (world T (vfs (kern s))) (normalize (cwd s) p))"
proof -
  let ?r = "spec_vfs_read (ticks (glob (kern s))) (vfs (kern s)) (world T (vfs (kern s))) (normalize (cwd s) p)"
  obtain k' where k': "vfs_read_file H (normalize (cwd s) p) (kern s) = Some (?r, k')" "vfs_holds H ok blk n T k'" "vfs k' = vfs (kern s)"
    "periph (glob k') = periph (glob (kern s))" using vfs_read_holds [OF assms(1,2) canonical_normalize [OF assms(3)]] by blast
  have h: "vfs_holds H ok blk n T (kern (s\<lparr>kern := k'\<rparr>))" using k'(2) by simp
  show ?thesis unfolding cmd_cat_def option.case Let_def
  proof (rule prints_gets, rule prints_on_vfs [where r = ?r and k' = k'])
    show "vfs_read_file H (normalize (cwd s) p) (kern s) = Some (?r, k')" by (rule k'(1))
    show "kept H ok blk n T s (s\<lparr>kern := k'\<rparr>)" using k' by (simp add: kept_def)
    show "\<not> panics ?r" by (rule spec_no_Panic)
  qed (use h in \<open>simp_all add: spec_cat_def prints_ret split: FsError.split, auto intro!: prints_message\<close>)
qed

lemma ls_prints:
  assumes "block_device (blockdev H) ok blk" "vfs_holds H ok blk n T (kern s)" "canonical (cwd s)"
  shows "prints H ok blk n T (cmd_ls H path) s
    (spec_ls (vfs (kern s)) (world T (vfs (kern s))) (case path of Some p \<Rightarrow> normalize (cwd s) p | None \<Rightarrow> cwd s))"
proof -
  define target where "target = (case path of Some p \<Rightarrow> normalize (cwd s) p | None \<Rightarrow> cwd s)"
  let ?v = "vfs (kern s)" and ?W = "world T (vfs (kern s))"
  have "canonical target" using assms(3) by (auto simp: target_def canonical_normalize split: option.split)
  from vfs_list_holds [OF assms(1,2) this] obtain r k' where k': "vfs_list_dir H target (kern s) = Some (r, k')"
    "same_names r (spec_vfs_list ?v ?W target)" "vfs_holds H ok blk n T k'" "vfs k' = ?v" "periph (glob k') = periph (glob (kern s))" by blast
  have h: "vfs_holds H ok blk n T (kern (s\<lparr>kern := k'\<rparr>))" using k'(3) by simp
  have isdir: "r \<noteq> Err IsADir" using vfs.ls_not_IsADir [OF vfs_holdsD(1) [OF assms(2)]] k'(1) by auto
  have kept: "kept H ok blk n T s (s\<lparr>kern := k'\<rparr>)" using k' by (simp add: kept_def)
  show ?thesis unfolding target_def [symmetric]
  proof (cases r)
    case (Ok names)
    then obtain names' where n: "spec_vfs_list ?v ?W target = Ok names'" "mset names = mset names'"
      using k'(2) by (cases "spec_vfs_list ?v ?W target") auto
    then have sort: "sort names = sort names'" by (metis properties_for_sort mset_sort sorted_sort)
    have "cmd_ls H path s = foldM (ls_line H target) (sort names) [] (s\<lparr>kern := k'\<rparr>)"
      unfolding cmd_ls_def bindM_gets Let_def target_def [symmetric] using k'(1) Ok by (simp add: on_vfs_run)
    then show "prints H ok blk n T (cmd_ls H path) s (spec_ls ?v ?W target)"
      using ls_lines_hold [OF assms(1) h, of target "sort names" "[]"] k'(4) n(1) sort kept_trans [OF kept]
      by (auto simp: prints_def spec_ls_def)
  next
    case (Err e)
    then have "spec_vfs_list ?v ?W target = Err e" using k'(2) by (cases "spec_vfs_list ?v ?W target") auto
    then have "cmd_ls H path s = Some (Ok (spec_ls ?v ?W target), s\<lparr>kern := k'\<rparr>)"
      unfolding cmd_ls_def bindM_gets Let_def target_def [symmetric] using k'(1) Err isdir
      by (cases e) (simp_all add: on_vfs_Err message_def ret_run spec_ls_def)
    with kept show "prints H ok blk n T (cmd_ls H path) s (spec_ls ?v ?W target)" by (simp add: prints_def)
  next
    case (Panic c)
    then show "prints H ok blk n T (cmd_ls H path) s (spec_ls ?v ?W target)"
      using k'(2) spec_no_Panic(2) [of ?v ?W target] by (auto simp: spec_vfs_list_def split: outcome.splits)
  qed
qed

lemma cd_runs:
  assumes "block_device (blockdev H) ok blk" "vfs_holds H ok blk n T (kern s)" "canonical (cwd s)"
    and "p = (case path of Some p \<Rightarrow> normalize (cwd s) p | None \<Rightarrow> ''/'')"
  shows "canonical p \<and> (\<exists>s'. cmd_cd H path s = Some (Ok (if spec_vfs_dir (vfs (kern s)) (world T (vfs (kern s))) p then [] else ''cd: not a directory: '' @ p @ [newline_char]), s')
    \<and> kept H ok blk n T s (s'\<lparr>cwd := cwd s\<rparr>) \<and> cwd s' = (if spec_vfs_dir (vfs (kern s)) (world T (vfs (kern s))) p then p else cwd s))"
proof
  have "canonical ''/''" by code_simp
  then show "canonical p" using assms(3,4) canonical_normalize by (auto split: option.split)
  obtain s1 where s1: "sh_is_dir H p s = Some (Ok (spec_vfs_dir (vfs (kern s)) (world T (vfs (kern s))) p), s1)" "kept H ok blk n T s s1"
    using sh_is_dir_holds [OF assms(1,2)] by blast
  then show "\<exists>s'. cmd_cd H path s = Some (Ok (if spec_vfs_dir (vfs (kern s)) (world T (vfs (kern s))) p then [] else ''cd: not a directory: '' @ p @ [newline_char]), s')
    \<and> kept H ok blk n T s (s'\<lparr>cwd := cwd s\<rparr>) \<and> cwd s' = (if spec_vfs_dir (vfs (kern s)) (world T (vfs (kern s))) p then p else cwd s)"
    unfolding cmd_cd_def bindM_gets Let_def assms(4) [symmetric]
    by (simp add: bindM_Ok message_def ret_run bindM_modify kept_def)
qed

section \<open>Commands that write\<close>

lemma vfs_step_no_Panic: "vfs_step v c W r W' \<Longrightarrow> \<not> panics r"
proof -
  have "\<not> panics (fst (spec_in_parent f p M))" if "\<And>M. \<not> panics (fst (f M))" for f p M
    using that by (auto simp: spec_in_parent_def split: option.split)
  then have spec: "\<not> panics (fst (spec_write p data M))" "\<not> panics (fst (spec_append p data M))" "\<not> panics (fst (spec_create_dir p M))"
    "\<not> panics (fst (spec_remove p M))" for p data M
    by (auto simp: spec_write_def spec_append_def spec_create_dir_def spec_remove_def split: option.split entry.split)
  have tmp: "\<not> panics (fst (tmp_spec c M))" for c M using spec by (cases c) simp_all
  have res: "\<not> panics (fat_result x)" if "\<not> panics x" for x :: "(FsError, unit) outcome" using that by (cases x rule: fat_result.cases) auto
  have fat: "\<not> panics (fst (call_spec c M))" for c M using spec res by (cases c) simp_all
  have step: "\<not> panics r" if "call_step c M r M'" for c M r M' using that fat [of c M] by (auto simp: call_step_def dest: arg_cong [where f = fst])
  assume s: "vfs_step v c W r W'"
  show ?thesis
  proof (cases "resolve v (call_path c)")
    case (Ok x)
    obtain i rel where x: "x = (i, rel)" by (cases x)
    show ?thesis
    proof (cases "fs (mounts v ! i)")
      case (TmpBackend t)
      then show ?thesis using s Ok x tmp [of "at_rel rel c" "W ! i"] by (auto simp: vfs_step_def dest: arg_cong [where f = fst])
    next
      case DevBackend
      then show ?thesis using s Ok x by (cases c) (auto simp: vfs_step_def split: if_splits)
    qed (use s Ok x step in \<open>auto simp: vfs_step_def\<close>)
  qed (use s in \<open>auto simp: vfs_step_def\<close>)
qed

lemma report_runs: "\<not> panics r \<Longrightarrow> m (kern s) = Some (r, k') \<Longrightarrow> on_vfs m (write_report cmd p) s = Some (Ok (report cmd p r), s\<lparr>kern := k'\<rparr>)"
  by (cases r) (simp_all add: on_vfs_run on_vfs_Err write_report_def report_def message_def ret_run)

lemma call_runs:
  assumes "line_call (cwd s) (cmd # args) = Some c"
  shows "run_command H cmd args s = on_vfs (vfs_exec H c) (write_report cmd (call_path c)) s"
proof -
  obtain p rest where args: "args = p # rest" using assms by (cases args) (auto simp: line_call_def)
  show ?thesis using assms unfolding args
    by (auto simp: line_call_def run_command_def first_arg_def cmd_touch_def cmd_mkdir_def cmd_rm_def cmd_write_def bindM_gets Let_def split: if_splits)
qed

section \<open>Lines and sessions\<close>

lemma printsD:
  "prints H ok blk n T m s out \<Longrightarrow> \<exists>s'. m s = Some (Ok out, s') \<and> kept H ok blk n T s (s'\<lparr>cwd := cwd s\<rparr>) \<and> cwd s' = cwd s"
  by (auto simp: prints_def kept_def)

lemma read_line_runs:
  assumes "block_device (blockdev H) ok blk" "vfs_holds H ok blk n T (kern s)" "canonical (cwd s)" "line_call (cwd s) (cmd # args) = None"
    and "spec_line (ticks (glob (kern s))) (vfs (kern s)) (world T (vfs (kern s))) (cwd s) (cmd # args) = (out, dir')"
  shows "\<exists>s'. run_command H cmd args s = Some (Ok out, s') \<and> kept H ok blk n T s (s'\<lparr>cwd := cwd s\<rparr>) \<and> cwd s' = dir' \<and> canonical dir'"
proof -
  have self: "kept H ok blk n T s (s\<lparr>cwd := cwd s\<rparr>)" using assms(2) by (simp add: kept_def)
  have writes: "cmd \<in> {''touch'', ''mkdir'', ''rm'', ''write''} \<Longrightarrow> args = []"
    using assms(4) by (cases args) (auto simp: line_call_def)
  consider "cmd = ''ls''" | "cmd = ''cd''" | p rest where "cmd = ''cat''" "args = p # rest" | "cmd = ''cat''" "args = []"
    | "cmd \<in> {''touch'', ''mkdir'', ''rm'', ''write''}"
    | "cmd \<noteq> ''ls''" "cmd \<noteq> ''cd''" "cmd \<noteq> ''cat''" "cmd \<notin> {''touch'', ''mkdir'', ''rm'', ''write''}"
    by (cases args) metis+
  then show ?thesis
  proof cases
    case 1
    with assms(5) have "out = spec_ls (vfs (kern s)) (world T (vfs (kern s))) (case first_arg args of Some p \<Rightarrow> normalize (cwd s) p | None \<Rightarrow> cwd s)"
      "dir' = cwd s" by (simp_all add: spec_line_def)
    with printsD [OF ls_prints [OF assms(1-3), of "first_arg args"]] 1 assms(3) show ?thesis by (simp add: run_command_def)
  next
    case 2
    with assms(5) cd_runs [OF assms(1-3) refl, of "first_arg args"] assms(3) show ?thesis
      by (auto simp: spec_line_def Let_def run_command_def split: if_splits)
  next
    case (3 p rest)
    with assms(5) have "out = spec_cat (ticks (glob (kern s))) (vfs (kern s)) (world T (vfs (kern s))) (normalize (cwd s) p)" "dir' = cwd s"
      by (auto simp: spec_line_def first_arg_def)
    with printsD [OF cat_prints [OF assms(1-3), of p]] 3 assms(3) show ?thesis by (simp add: run_command_def first_arg_def)
  next
    case 4
    with assms(5) have "out = ''cat: missing operand'' @ [newline_char]" "dir' = cwd s" by (simp_all add: spec_line_def first_arg_def)
    with 4 assms(3) self show ?thesis by (simp add: run_command_def first_arg_def cmd_cat_def message_def ret_run)
  next
    case 5
    then have args: "args = []" by (rule writes)
    from 5 have "run_command H cmd args s = Some (Ok (fst (spec_line (ticks (glob (kern s))) (vfs (kern s)) (world T (vfs (kern s))) (cwd s) (cmd # args))), s)
        \<and> snd (spec_line (ticks (glob (kern s))) (vfs (kern s)) (world T (vfs (kern s))) (cwd s) (cmd # args)) = cwd s"
      unfolding args insert_iff empty_iff
      by (elim disjE) (simp_all add: spec_line_def run_command_def first_arg_def cmd_touch_def cmd_mkdir_def cmd_rm_def cmd_write_def message_def ret_run)
    with assms(3,5) self show ?thesis by simp
  next
    case 6
    then have "run_command H cmd args s = Some (Ok out, s) \<and> dir' = cwd s"
      using assms(5) unfolding spec_line_def run_command_def list.case message_def
      by (simp add: ret_run bindM_gets split: if_split_asm) auto
    with assms(3) self show ?thesis by simp
  qed
qed

lemma line_holds:
  assumes "block_device (blockdev H) ok blk" "vfs_holds H ok blk n T (kern s)" "canonical (cwd s)" "line_ok (vfs (kern s)) (cwd s) l"
  shows "\<exists>out s' T'. execute_line H l s = Some (Ok out, s') \<and> vfs_holds H ok blk n T' (kern s') \<and> canonical (cwd s')
    \<and> skeleton (vfs (kern s')) = skeleton (vfs (kern s)) \<and> periph (glob (kern s')) = periph (glob (kern s))
    \<and> line_step (ticks (glob (kern s))) (vfs (kern s)) (world T (vfs (kern s)), cwd s) l out (world T' (vfs (kern s')), cwd s')"
proof (cases "line_call (cwd s) (split_ascii_whitespace l)")
  case (Some c)
  then obtain cmd args where ws: "split_ascii_whitespace l = cmd # args" by (cases "split_ascii_whitespace l") (auto simp: line_call_def)
  have "vfs_call_ok (vfs (kern s)) c" using assms(4) Some by (simp add: line_ok_def)
  from vfs_exec_holds [OF assms(1,2) this] obtain r k' T' where k': "vfs_exec H c (kern s) = Some (r, k')" "vfs_holds H ok blk n T' k'"
    "skeleton (vfs k') = skeleton (vfs (kern s))" "periph (glob k') = periph (glob (kern s))"
    "vfs_step (vfs (kern s)) c (world T (vfs (kern s))) r (world T' (vfs k'))" by blast
  have "execute_line H l s = Some (Ok (report cmd (call_path c) r), s\<lparr>kern := k'\<rparr>)"
    using call_runs [of s cmd args c H] Some report_runs [OF vfs_step_no_Panic [OF k'(5)], of "vfs_exec H c" s k'] k'(1)
    by (simp add: execute_line_def ws)
  moreover have "line_step (ticks (glob (kern s))) (vfs (kern s)) (world T (vfs (kern s)), cwd s) l (report cmd (call_path c) r) (world T' (vfs k'), cwd s)"
    using Some k'(5) ws by auto
  ultimately show ?thesis using k'(2-4) assms(3) by (intro exI [of _ "report cmd (call_path c) r"] exI [of _ "s\<lparr>kern := k'\<rparr>"] exI [of _ T']) simp
next
  case None
  obtain out dir' where spec: "spec_line (ticks (glob (kern s))) (vfs (kern s)) (world T (vfs (kern s))) (cwd s) (split_ascii_whitespace l) = (out, dir')" by fastforce
  have "\<exists>s'. execute_line H l s = Some (Ok out, s') \<and> kept H ok blk n T s (s'\<lparr>cwd := cwd s\<rparr>) \<and> cwd s' = dir' \<and> canonical dir'"
  proof (cases "split_ascii_whitespace l")
    case Nil
    then show ?thesis using spec assms(2,3) by (auto simp: execute_line_def spec_line_def ret_run kept_def)
  next
    case (Cons cmd args)
    with read_line_runs [OF assms(1-3)] None spec show ?thesis by (simp add: execute_line_def)
  qed
  then obtain s' where s': "execute_line H l s = Some (Ok out, s')" "kept H ok blk n T s (s'\<lparr>cwd := cwd s\<rparr>)" "cwd s' = dir'" "canonical dir'" by blast
  with None spec show ?thesis by (intro exI [of _ out] exI [of _ s'] exI [of _ T]) (simp add: kept_def)
qed

text \<open>The abstract shell looks at the table only through its skeleton.\<close>

lemma skeleton_prefixes: "skeleton v' = skeleton v \<Longrightarrow> map mprefix (mounts v') = map mprefix (mounts v)"
proof -
  have "map fst (skeleton v) = map mprefix (mounts v)" for v by (simp add: skeleton_def)
  then show "skeleton v' = skeleton v \<Longrightarrow> map mprefix (mounts v') = map mprefix (mounts v)" by metis
qed

lemma skeleton_mount:
  assumes "skeleton v' = skeleton v" "table_ok v" "resolve v p = Ok (i, rel)"
  shows "(case fs (mounts v' ! i) of TmpBackend _ \<Rightarrow> x | FatBackend _ \<Rightarrow> y | RamBackend f \<Rightarrow> z f | DevBackend \<Rightarrow> w) =
    (case fs (mounts v ! i) of TmpBackend _ \<Rightarrow> x | FatBackend _ \<Rightarrow> y | RamBackend f \<Rightarrow> z f | DevBackend \<Rightarrow> w)"
  using skeletonD(3) [OF assms(1) resolve_index [OF assms(2,3)]] by (auto simp: shape_def split: backend.splits)

lemma skeleton_specs:
  assumes "skeleton v' = skeleton v" "table_ok v"
  shows "spec_vfs_dir v' W p = spec_vfs_dir v W p" "spec_vfs_list v' W p = spec_vfs_list v W p" "mount_lines v' = mount_lines v"
proof -
  note res = skeletonD(1) [OF assms(1)] and mnt = skeleton_mount [OF assms] and pre = skeleton_prefixes [OF assms(1)]
  have "list_ex (\<lambda>m. mprefix m = x) (mounts v) \<longleftrightarrow> x \<in> set (map mprefix (mounts v))" for v x by (auto simp: list_ex_iff)
  then have ex: "list_ex (\<lambda>m. mprefix m = x) (mounts v') = list_ex (\<lambda>m. mprefix m = x) (mounts v)" for x using pre by metis
  show "spec_vfs_dir v' W p = spec_vfs_dir v W p"
    unfolding spec_vfs_dir_def res ex by (cases "resolve v p") (auto simp: mnt)
  have "fold (add_child q) (mounts v) = fold (\<lambda>pre. add_child q \<lparr>mprefix = pre, fs = DevBackend\<rparr>) (map mprefix (mounts v))" for v q
    unfolding fold_map by (intro ext arg_cong2 [where f = "\<lambda>f ms. fold f ms _"]) (simp_all add: add_child_def fun_eq_iff)
  then have fold: "fold (add_child q) (mounts v') = fold (add_child q) (mounts v)" for q using pre by metis
  have "spec_mount_list v' W p = spec_mount_list v W p"
    unfolding spec_mount_list_def res by (cases "resolve v p") (auto simp: mnt)
  then show "spec_vfs_list v' W p = spec_vfs_list v W p" unfolding spec_vfs_list_def fold by simp
  have "bk_backing (shape b) = bk_backing b" for b by (simp add: bk_backing_def shape_def split: backend.split)
  then have "vfs_mounts v = map (\<lambda>(p, b). (if p = [] then ''/'' else p, bk_backing b)) (skeleton v)" for v
    by (simp add: vfs_mounts_def skeleton_def)
  then show "mount_lines v' = mount_lines v" using assms(1) by (simp add: mount_lines_def)
qed

lemma skeleton_line:
  assumes "skeleton v' = skeleton v" "table_ok v"
  shows "line_step t v' = line_step t v" "line_ok v' = line_ok v"
proof -
  have spec: "spec_line t v' W dir ws = spec_line t v W dir ws" for W dir ws
    unfolding spec_line_def spec_ls_def spec_cat_def skeleton_specs [OF assms] skeleton_read [OF assms] by (rule refl)
  have "line_step t v' st l out st' = line_step t v st l out st'" for st l out st'
    by (cases st; cases st') (simp add: spec skeleton_step(1) [OF assms] split: option.split)
  then show "line_step t v' = line_step t v" by (intro ext)
  show "line_ok v' = line_ok v" by (intro ext) (simp add: line_ok_def skeleton_step(2) [OF assms] split: option.split)
qed

lemma skeleton_session: "skeleton v' = skeleton v \<Longrightarrow> table_ok v \<Longrightarrow> session t v' ls st outs st' \<Longrightarrow> session t v ls st outs st'"
proof (rule session.induct [of t v' ls st outs st'], assumption, goal_cases)
  case (1 st)
  show ?case by (rule session_done)
next
  case (2 st l out st1 ls outs st')
  then show ?case using skeleton_line(1) [of v' v t] by (metis session_step)
qed

lemma skeleton_lines_ok:
  assumes "skeleton v' = skeleton v" "table_ok v"
  shows "lines_ok t v' ls st = lines_ok t v ls st"
  by (induction ls arbitrary: st) (simp_all add: skeleton_line [OF assms])

lemma session_holds:
  assumes "block_device (blockdev H) ok blk"
  shows "vfs_holds H ok blk n T (kern s) \<Longrightarrow> canonical (cwd s) \<Longrightarrow> t = ticks (glob (kern s)) \<Longrightarrow>
    lines_ok t (vfs (kern s)) ls (world T (vfs (kern s)), cwd s) \<Longrightarrow>
    \<exists>outs s' T'. run_lines H ls s = Some (map Ok outs, s') \<and> vfs_holds H ok blk n T' (kern s') \<and> canonical (cwd s')
      \<and> skeleton (vfs (kern s')) = skeleton (vfs (kern s)) \<and> periph (glob (kern s')) = periph (glob (kern s))
      \<and> session t (vfs (kern s)) ls (world T (vfs (kern s)), cwd s) outs (world T' (vfs (kern s')), cwd s')"
proof (induction ls arbitrary: s T)
  case Nil
  then show ?case by (auto intro!: session_done)
next
  case (Cons l ls)
  let ?v = "vfs (kern s)"
  have "line_ok ?v (cwd s) l" using Cons.prems(4) by simp
  from line_holds [OF assms Cons.prems(1,2) this] obtain out s1 T1 where 1: "execute_line H l s = Some (Ok out, s1)"
    "vfs_holds H ok blk n T1 (kern s1)" "canonical (cwd s1)" "skeleton (vfs (kern s1)) = skeleton ?v" "periph (glob (kern s1)) = periph (glob (kern s))"
    "line_step t ?v (world T ?v, cwd s) l out (world T1 (vfs (kern s1)), cwd s1)" using Cons.prems(3) by blast
  note table = vfs_holdsD(2) [OF Cons.prems(1)]
  have "lines_ok t ?v ls (world T1 (vfs (kern s1)), cwd s1)" using Cons.prems(4) 1(6) by simp
  then have "lines_ok t (vfs (kern s1)) ls (world T1 (vfs (kern s1)), cwd s1)" using skeleton_lines_ok [OF 1(4) table] by simp
  moreover have "t = ticks (glob (kern s1))" using 1(5) Cons.prems(3) by simp
  ultimately have "\<exists>outs s' T'. run_lines H ls s1 = Some (map Ok outs, s') \<and> vfs_holds H ok blk n T' (kern s') \<and> canonical (cwd s')
      \<and> skeleton (vfs (kern s')) = skeleton (vfs (kern s1)) \<and> periph (glob (kern s')) = periph (glob (kern s1))
      \<and> session t (vfs (kern s1)) ls (world T1 (vfs (kern s1)), cwd s1) outs (world T' (vfs (kern s')), cwd s')"
    by (intro Cons.IH [OF 1(2,3)])
  then obtain outs s' T' where 2: "run_lines H ls s1 = Some (map Ok outs, s')"
    "vfs_holds H ok blk n T' (kern s')" "canonical (cwd s')" "skeleton (vfs (kern s')) = skeleton (vfs (kern s1))" "periph (glob (kern s')) = periph (glob (kern s1))"
    "session t (vfs (kern s1)) ls (world T1 (vfs (kern s1)), cwd s1) outs (world T' (vfs (kern s')), cwd s')" by blast
  have "session t ?v (l # ls) (world T ?v, cwd s) (out # outs) (world T' (vfs (kern s')), cwd s')"
    by (rule session_step [OF 1(6) skeleton_session [OF 1(4) table 2(6)]])
  moreover have "run_lines H (l # ls) s = Some (map Ok (out # outs), s')" using 1(1) 2(1) by simp
  ultimately show ?case using 1(4,5) 2(2-5) by (intro exI [of _ "out # outs"] exI [of _ s'] exI [of _ T']) simp
qed

text \<open>Without a \<open>cd\<close> the working directory stays.\<close>

lemma spec_line_dir: "ws = [] \<or> hd ws \<noteq> ''cd'' \<Longrightarrow> snd (spec_line t v W dir ws) = dir"
  by (cases ws) (simp_all add: spec_line_def)

lemma line_step_dir:
  assumes "line_step t v (W, dir) l out (W', dir')" "split_ascii_whitespace l = [] \<or> hd (split_ascii_whitespace l) \<noteq> ''cd''"
  shows "dir' = dir"
  using assms(1) spec_line_dir [OF assms(2), of t v W dir] by (auto split: option.splits dest: arg_cong [where f = snd])

lemma lines_ok_still:
  "list_all (\<lambda>l. line_ok v dir l \<and> (split_ascii_whitespace l = [] \<or> hd (split_ascii_whitespace l) \<noteq> ''cd'')) ls \<Longrightarrow> lines_ok t v ls (W, dir)"
proof (induction ls arbitrary: W)
  case (Cons l ls)
  have "lines_ok t v ls st'" if "line_step t v (W, dir) l out st'" for out st'
  proof -
    obtain W' dir' where st: "st' = (W', dir')" by (cases st')
    have "dir' = dir" by (rule line_step_dir [OF that [unfolded st]]) (use Cons.prems in simp)
    then show ?thesis using Cons st by simp
  qed
  with Cons.prems show ?case by simp
qed simp

text \<open>
  C4: the shell is the abstract shell, on sessions (\<open>lines_ok\<close>) whose lines do not \<open>touch\<close>, \<open>mkdir\<close>, \<open>rm\<close> or \<open>write\<close> a path on the FAT
  mount with a name that is not 8.3, do not \<open>write\<close> to \<open>/dev/console\<close> or \<open>/dev/serial0\<close>, and do not \<open>write\<close> whole blocks to \<open>/dev/disk0\<close>. On
  a kernel whose mounts hold trees, any such session of lines - every command, known or unknown, with and
  without arguments - runs to its end without a panic and prints, line by line, what the abstract shell prints on the maps of the mounts:
  \<open>touch\<close>, \<open>mkdir\<close>, \<open>rm\<close> and \<open>write\<close> update the map that owns the path and report its result, \<open>cat\<close>, \<open>ls\<close>, \<open>cd\<close> and the rest
  are functions of the maps and the working directory. The maps and the directory it leaves are those of the abstract shell.
\<close>

theorem shell_session_refines:
  assumes "block_device (blockdev H) ok blk" "vfs_holds H ok blk n T (kern s)" "canonical (cwd s)"
    and "lines_ok (ticks (glob (kern s))) (vfs (kern s)) ls (world T (vfs (kern s)), cwd s)"
  shows "\<exists>outs s' T'. run_lines H ls s = Some (map Ok outs, s')
    \<and> session (ticks (glob (kern s))) (vfs (kern s)) ls (world T (vfs (kern s)), cwd s) outs (world T' (vfs (kern s')), cwd s')"
  using session_holds [OF assms(1-3) refl assms(4)] by blast

abbreviation demo_session :: "string list" where
  "demo_session \<equiv> [''write /tmp/note hi  you'', ''cat /tmp/note'', ''touch /ram/x'', ''pwd'']"

lemma demo_words:
  "split_ascii_whitespace ''write /tmp/note hi  you'' = [''write'', ''/tmp/note'', ''hi'', ''you'']"
  "split_ascii_whitespace ''cat /tmp/note'' = [''cat'', ''/tmp/note'']"
  "split_ascii_whitespace ''touch /ram/x'' = [''touch'', ''/ram/x'']" "split_ascii_whitespace ''pwd'' = [''pwd'']"
  "normalize ''/'' ''/tmp/note'' = ''/tmp/note''" "normalize ''/'' ''/ram/x'' = ''/ram/x''"
  "segments ''/note'' = [''note'']" "canonical ''/''" "cat_text (as_bytes (''hi you'' @ [newline_char])) = ''hi you'' @ [newline_char]"
  by code_simp+

lemma demo_note: "resolve (vfs disk_kernel) ''/tmp/note'' = Ok (1, ''/note'')"
  by (simp add: resolve_def disk_mounts starts_with_def resolve_step_def mount_matches_def)

theorem shell_session_refines_witness:
  "\<exists>s'. run_lines demo_hardware demo_session (shell_new disk_kernel)
    = Some (map Ok [[], ''hi you'' @ [newline_char], ''touch: read-only filesystem'' @ [newline_char], ''/'' @ [newline_char]], s')"
proof -
  let ?v = "vfs disk_kernel" and ?W = "world sample_tree (vfs disk_kernel)" and ?t = "ticks (glob disk_kernel)"
  have j: "join '' '' [''hi'', ''you''] = ''hi you''" by (simp add: join_def)
  have w: "?W ! 1 = view (TmpFs.root tmp_new)" "length ?W = 4" by (simp_all add: world_def disk_mounts mount_map_def)
  have call: "line_call ''/'' [''write'', ''/tmp/note'', ''hi'', ''you''] = Some (WriteFile ''/tmp/note'' (as_bytes (''hi you'' @ [newline_char])))"
    "line_call ''/'' [''cat'', ''/tmp/note''] = None" "line_call ''/'' [''touch'', ''/ram/x''] = Some (CreateFile ''/ram/x'')" "line_call ''/'' [''pwd''] = None"
    by (simp_all add: line_call_def demo_words j)
  have ok: "lines_ok ?t ?v demo_session (?W, ''/'')"
    by (rule lines_ok_still) (simp add: line_ok_def demo_words call vfs_call_ok_def demo_note disk_resolve, simp add: disk_mounts)
  define b where "b = as_bytes (''hi you'' @ [newline_char])"
  let ?M = "(view (TmpFs.root tmp_new))([''note''] \<mapsto> FileE b)"
  have tmp: "fs (mounts ?v ! 1) = TmpBackend tmp_new" by (simp add: disk_mounts)
  have "spec_write [''note''] b (view (TmpFs.root tmp_new)) = (Ok (), ?M)" by (simp add: spec_write_def spec_in_parent_def tmp_new_def)
  then have 1: "r = Ok () \<and> W1 = ?W[1 := ?M]" if "vfs_step ?v (WriteFile ''/tmp/note'' b) ?W r W1" for r W1
    using that unfolding vfs_step_def call_path.simps demo_note outcome.case prod.case tmp backend.case at_rel.simps tmp_spec.simps demo_words(7) w(1) by auto
  have "spec_vfs_read ?t ?v (?W[1 := ?M]) ''/tmp/note'' = Ok b"
    unfolding spec_vfs_read_def demo_note outcome.case prod.case tmp backend.case demo_words(7) using w(2) by (simp add: spec_read_def)
  then have 2: "spec_line ?t ?v (?W[1 := ?M]) ''/'' [''cat'', ''/tmp/note''] = (''hi you'' @ [newline_char], ''/'')"
    using demo_words(9) by (simp add: spec_line_def first_arg_def spec_cat_def demo_words(5) b_def)
  have 3: "r = Err Unsupported \<and> W1 = W" if "vfs_step ?v (CreateFile ''/ram/x'') W r W1" for W r W1
    using that by (simp add: vfs_step_def disk_resolve) (simp add: disk_mounts)
  have 4: "spec_line ?t ?v W ''/'' [''pwd''] = (''/'' @ [newline_char], ''/'')" for W by (simp add: spec_line_def)
  define W2 where "W2 = ?W[1 := ?M]"
  have s1: "out = [] \<and> st = (W2, ''/'')" if "line_step ?t ?v (?W, ''/'') ''write /tmp/note hi  you'' out st" for out st
    using that by (cases st) (auto simp: demo_words(1) call(1) [folded b_def] report_def dest!: 1 [folded W2_def])
  have s2: "out = ''hi you'' @ [newline_char] \<and> st = (W2, ''/'')" if "line_step ?t ?v (W2, ''/'') ''cat /tmp/note'' out st" for out st
    using that 2 by (cases st) (simp add: demo_words(2) call(2) W2_def)
  have s3: "out = ''touch: read-only filesystem'' @ [newline_char] \<and> st = (W2, ''/'')" if "line_step ?t ?v (W2, ''/'') ''touch /ram/x'' out st" for out st
    using that by (cases st) (auto simp: demo_words(3) call(3) report_def dest!: 3)
  have s4: "out = ''/'' @ [newline_char]" if "line_step ?t ?v (W2, ''/'') ''pwd'' out st" for out st
    using that 4 by (cases st) (auto simp: demo_words(4) call(4))
  have "outs = [[], ''hi you'' @ [newline_char], ''touch: read-only filesystem'' @ [newline_char], ''/'' @ [newline_char]]"
    if "session ?t ?v demo_session (?W, ''/'') outs st" for outs st
    using that by (elim session_ConsE session_NilE) (auto dest!: s1 s2 s3 s4 simp del: line_step.simps)
  moreover have "vfs_holds demo_hardware image_ok image_blk 127 sample_tree (kern (shell_new disk_kernel))" using disk_holds by (simp add: shell_new_def)
  ultimately show ?thesis
    using shell_session_refines [OF disk_device, of 127 sample_tree "shell_new disk_kernel" demo_session] demo_words(8) ok
    by (fastforce simp: shell_new_def)
qed

end
