(* ===== verification/Terminal.thy ===== *)
theory Terminal
  imports ShellSpec
begin

text \<open>
  From the keyboard to the screen. The line editor, the abstract shell and the two outputs put together: what the user types decides, key
  by key, what is shown, and everything shown is sent to the serial port and logged by the console. The decoder of scancodes, the uart and the
  font are parameters as before.
\<close>

section \<open>The abstract terminal\<close>

text \<open>A text, or the request to clear the screen.\<close>

datatype shown = Shown string | Cleared

fun serial_bytes :: "shown \<Rightarrow> u8 list" where
  "serial_bytes (Shown s) = as_bytes s"
| "serial_bytes Cleared = as_bytes ([CHR 0x1B] @ ''[2J'' @ [CHR 0x1B] @ ''[H'')"

fun screen_chars :: "shown \<Rightarrow> rchar list" where
  "screen_chars (Shown s) = chars s"
| "screen_chars Cleared = []"

definition prompt_at :: "string \<Rightarrow> string" where
  "prompt_at dir = ''willo:'' @ dir @ ''$ ''"

definition shown_output :: "string \<Rightarrow> shown list" where
  "shown_output out = (if out = CLEAR_SENTINEL then [Cleared] else if out \<noteq> [] then [Shown out] else [])"

text \<open>The count of the timer, the line being typed, the maps of the mounts and the working directory.\<close>

type_synonym term_state = "u64 \<times> string \<times> shell_state"

fun key_step :: "Vfs \<Rightarrow> term_state \<Rightarrow> DecodedKey \<Rightarrow> shown list \<Rightarrow> term_state \<Rightarrow> bool" where
  "key_step v (t, l, st) (RawKey k) outs ts' \<longleftrightarrow> outs = [] \<and> ts' = (t, l, st)"
| "key_step v (t, l, st) (Unicode c) outs ts' \<longleftrightarrow>
     (if c = 0x0A then
        (\<exists>out st'. line_step t v st l out st' \<and> outs = Shown [newline_char] # shown_output out @ [Shown (prompt_at (snd st'))] \<and> ts' = (t, [], st'))
      else if c = 0x08 \<or> c = 0x7F then
        (if l = [] then outs = [] \<and> ts' = (t, l, st) else outs = [Shown [CHR 0x08, CHR 0x20, CHR 0x08]] \<and> ts' = (t, butlast l, st))
      else if 0x20 \<le> c \<and> c \<le> 0x7E \<and> length l < 120 then outs = [Shown [char_of c]] \<and> ts' = (t, l @ [char_of c], st)
      else outs = [] \<and> ts' = (t, l, st))"

fun input_step :: "Vfs \<Rightarrow> term_state \<Rightarrow> input \<Rightarrow> shown list \<Rightarrow> term_state \<Rightarrow> bool" where
  "input_step v (t, l, st) Tick outs ts' \<longleftrightarrow> outs = [] \<and> ts' = (t + 1, l, st)"
| "input_step v ts (Key k) outs ts' \<longleftrightarrow> key_step v ts k outs ts'"

inductive typed :: "Vfs \<Rightarrow> input list \<Rightarrow> term_state \<Rightarrow> shown list \<Rightarrow> term_state \<Rightarrow> bool" for v where
  typed_done: "typed v [] ts [] ts"
| typed_step: "input_step v ts k outs ts1 \<Longrightarrow> typed v ks ts1 outs' ts' \<Longrightarrow> typed v (k # ks) ts (outs @ outs') ts'"

text \<open>The lines entered are covered by the specification of the shell.\<close>

fun inputs_ok :: "Vfs \<Rightarrow> input list \<Rightarrow> term_state \<Rightarrow> bool" where
  "inputs_ok v [] ts = True"
| "inputs_ok v (k # ks) ts \<longleftrightarrow> (k = Key (Unicode 0x0A) \<longrightarrow> line_ok v (snd (snd (snd ts))) (fst (snd ts)))
     \<and> (\<forall>outs ts'. input_step v ts k outs ts' \<longrightarrow> inputs_ok v ks ts')"

section \<open>The outputs\<close>

text \<open>There is a console when there is a history, and it satisfies its invariant and holds that history.\<close>

definition screen_shows :: "('d, 'p) hardware \<Rightarrow> history option \<Rightarrow> ('d, 'p) globals \<Rightarrow> bool" where
  "screen_shows H h g \<longleftrightarrow> rel_option (console (glyphs H)) h (fb_writer g)"

abbreviation log_shown :: "shown list \<Rightarrow> history option \<Rightarrow> history option" where
  "log_shown outs \<equiv> map_option (fold log_char (concat (map screen_chars outs)))"

abbreviation send_shown :: "('d, 'p) hardware \<Rightarrow> shown list \<Rightarrow> 'p option \<Rightarrow> 'p option" where
  "send_shown H outs \<equiv> map_option (fold (uart_send H) (concat (map serial_bytes outs)))"

definition displayed :: "('d, 'p) hardware \<Rightarrow> shown list \<Rightarrow> history option \<Rightarrow> ('d, 'p) globals \<Rightarrow> ('d, 'p) globals \<Rightarrow> bool" where
  "displayed H outs h g g' \<longleftrightarrow> drive g' = drive g \<and> ticks g' = ticks g
     \<and> screen_shows H (log_shown outs h) g' \<and> serial1 g' = send_shown H outs (serial1 g)"

lemma displayed_refl: "screen_shows H h g \<Longrightarrow> displayed H [] h g g"
  by (cases "serial1 g"; cases h) (simp_all add: displayed_def)

lemma displayed_trans:
  "displayed H a h g g1 \<Longrightarrow> displayed H b (log_shown a h) g1 g2 \<Longrightarrow> displayed H (a @ b) h g g2"
  by (cases "serial1 g"; cases h) (simp_all add: displayed_def)

text \<open>A computation of the driver that shows \<open>outs\<close> and changes nothing but the outputs.\<close>

definition displays :: "('d, 'p) hardware \<Rightarrow> ('d, 'p, 'b, unit) drv \<Rightarrow> ('d, 'p, 'b) driver \<Rightarrow> shown list \<Rightarrow> bool" where
  "displays H m s outs \<longleftrightarrow> (\<forall>h. screen_shows H h (glob (kern (shell s))) \<longrightarrow>
     (\<exists>g'. m s = Some (Ok (), put_glob g' s) \<and> displayed H outs h (glob (kern (shell s))) g'))"

lemma put_glob_collapse [simp]: "put_glob (glob (kern (shell s))) s = s" "put_glob g' (put_glob g s) = put_glob g' s"
  "glob (kern (shell (put_glob g s))) = g" "cwd (shell (put_glob g s)) = cwd (shell s)" "vfs (kern (shell (put_glob g s))) = vfs (kern (shell s))"
  by (simp_all add: put_glob_def)

lemma displays_ret: "displays H (ret ()) s []"
  unfolding displays_def ret_run by (metis displayed_refl put_glob_collapse(1))

lemma displays_seq:
  assumes "displays H m s a" "\<And>g. displays H m' (put_glob g s) b"
  shows "displays H (bindM m (\<lambda>_. m')) s (a @ b)"
  unfolding displays_def
proof (intro allI impI)
  fix h assume "screen_shows H h (glob (kern (shell s)))"
  then obtain g1 where 1: "m s = Some (Ok (), put_glob g1 s)" "displayed H a h (glob (kern (shell s))) g1"
    using assms(1) unfolding displays_def by blast
  then have "screen_shows H (log_shown a h) (glob (kern (shell (put_glob g1 s))))" by (simp add: displayed_def)
  then obtain g2 where "m' (put_glob g1 s) = Some (Ok (), put_glob g2 s)" "displayed H b (log_shown a h) g1 g2"
    using assms(2) [of g1] unfolding displays_def put_glob_collapse by blast
  with 1 displayed_trans [OF 1(2)]
  show "\<exists>g'. bindM m (\<lambda>_. m') s = Some (Ok (), put_glob g' s) \<and> displayed H (a @ b) h (glob (kern (shell s))) g'"
    by (auto simp: bindM_Ok)
qed

lemma displays_devices:
  assumes "\<And>g h. screen_shows H h g \<Longrightarrow> \<exists>g'. m g = Some (Ok (), g') \<and> displayed H outs h g g'"
  shows "displays H (on_devices m) s outs"
  unfolding displays_def on_devices_def on_part_def using assms by fastforce

lemma console_run:
  assumes "\<And>h. returns (console (glyphs H) h) m (\<lambda>_. console (glyphs H) (fold log_char cs h))" "screen_shows H h g"
  shows "\<exists>g'. on_console m g = Some (Ok (), g') \<and> drive g' = drive g \<and> ticks g' = ticks g \<and> serial1 g' = serial1 g
    \<and> screen_shows H (map_option (fold log_char cs) h) g'"
proof (cases h)
  case None
  then show ?thesis using assms(2) by (simp add: on_console_def screen_shows_def)
next
  case (Some h1)
  then obtain w where w: "fb_writer g = Some w" "console (glyphs H) h1 w" using assms(2) by (auto simp: screen_shows_def option_rel_Some1)
  from returnsD [OF assms(1) w(2)] obtain x w' where "m w = Some (Ok x, w')" "console (glyphs H) (fold log_char cs h1) w'" by blast
  with Some w(1) show ?thesis by (simp add: on_console_def screen_shows_def)
qed

lemma displays_show_text:
  assumes "font_ok (glyphs H)"
  shows "displays H (show_text H str) s [Shown str]"
proof -
  have "\<exists>g'. bindM (print H (chars str)) (\<lambda>_. serial_print H str) g = Some (Ok () :: (unit, unit) outcome, g') \<and> displayed H [Shown str] h g g'"
    if sc: "screen_shows H h g" for g :: "('a, 'b) globals" and h
  proof -
    obtain g1 where g1: "print H (chars str) g = Some (Ok () :: (unit, unit) outcome, g1)" "drive g1 = drive g" "ticks g1 = ticks g" "serial1 g1 = serial1 g"
      "screen_shows H (map_option (fold log_char (chars str)) h) g1"
      using console_run [OF returns_write_str [OF assms] sc] unfolding print_def by metis
    have "bindM (print H (chars str)) (\<lambda>_. serial_print H str) g = Some (Ok () :: (unit, unit) outcome, serial_send H (as_bytes str) g1)"
      by (simp add: bindM_Ok g1(1) serial_print_def modify_run)
    moreover have "displayed H [Shown str] h g (serial_send H (as_bytes str) g1)"
      using g1 by (simp add: displayed_def serial_send_def screen_shows_def)
    ultimately show ?thesis by blast
  qed
  note run = this
  have "show_text H str s = on_devices (bindM (print H (chars str)) (\<lambda>_. serial_print H str)) s"
    by (cases "print H (chars str) (glob (kern (shell s))) :: ((unit, unit) outcome \<times> _) option"; cases "fst (the (print H (chars str) (glob (kern (shell s))) :: ((unit, unit) outcome \<times> _) option))")
      (auto simp: show_text_def on_devices_def on_part_def bindM_def)
  then show ?thesis using displays_devices [OF run] by (simp add: displays_def)
qed

lemma displays_on_console:
  assumes "\<And>h. returns (console (glyphs H) h) m (\<lambda>_. console (glyphs H) h)"
  shows "displays H (on_devices (on_console m)) s []"
proof (rule displays_devices)
  fix g :: "('a, 'b) globals" and h assume "screen_shows H h g"
  from console_run [where cs = "[]", OF _ this, of m] assms
  show "\<exists>g'. on_console m g = Some (Ok (), g') \<and> displayed H [] h g g'" by (cases "serial1 g"; cases h) (auto simp: displayed_def)
qed

lemma displays_serial:
  assumes "screen_chars o1 = []" "serial_bytes o1 = as_bytes str"
  shows "displays H (on_devices (serial_print H str)) s [o1]"
  by (rule displays_devices) (use assms in \<open>auto simp: serial_print_def modify_run displayed_def serial_send_def screen_shows_def option.map_id\<close>)

lemma displays_show_output:
  assumes "font_ok (glyphs H)"
  shows "displays H (show_output H out) s (shown_output out)"
proof -
  have "displays H (on_devices (on_console clear)) s []"
    by (rule displays_on_console) (use returns_fb_step [OF assms, where op = Clear] in simp)
  from displays_seq [OF this displays_serial [of Cleared "[CHR 0x1B] @ ''[2J'' @ [CHR 0x1B] @ ''[H''"]] displays_show_text [OF assms, of out s] displays_ret [of H s]
  show ?thesis by (auto simp: show_output_def shown_output_def CLEAR_SENTINEL_def)
qed

lemma displays_show_prompt: "font_ok (glyphs H) \<Longrightarrow> displays H (show_prompt H) s [Shown (prompt_at (cwd (shell s)))]"
  using displays_show_text [of H "prompt (shell s)" s] by (simp add: displays_def show_prompt_def bindM_gets prompt_def prompt_at_def)

lemma displays_route_rawkey:
  assumes "font_ok (glyphs H)"
  shows "displays H (on_devices (route_rawkey H k)) s []"
  unfolding route_rawkey_def
proof (rule displays_on_console)
  fix h
  show "returns (console (glyphs H) h) (bindM (gets viewport_rows) (\<lambda>rows. let n = max (rows - 1) 1
      in case k of PageUp \<Rightarrow> scroll_up (glyphs H) n | PageDown \<Rightarrow> scroll_down (glyphs H) n
        | EndKey \<Rightarrow> scroll_end (glyphs H) | OtherKey _ \<Rightarrow> ret ())) (\<lambda>_. console (glyphs H) h)"
    using assms by (intro returns_get_bind, cases k)
      (auto simp: Let_def intro: returns_ret returns_conseq [OF returns_scroll(1)] returns_conseq [OF returns_scroll(2)] returns_conseq [OF returns_scroll(3)])
qed

section \<open>The terminal of the running kernel\<close>

text \<open>The two outputs together: the history of the console and the state of the uart.\<close>

fun emit :: "('d, 'p) hardware \<Rightarrow> shown list \<Rightarrow> history option \<times> 'p option \<Rightarrow> history option \<times> 'p option" where
  "emit H outs (h, p) = (log_shown outs h, send_shown H outs p)"

lemma emit_append: "emit H (a @ b) x = emit H b (emit H a x)"
  by (cases x; cases "fst x"; cases "snd x") simp_all

definition term_holds :: "('d, 'p) hardware \<Rightarrow> ('d \<Rightarrow> bool) \<Rightarrow> ('d \<Rightarrow> nat \<Rightarrow> u8 list) \<Rightarrow> nat \<Rightarrow> u64 \<Rightarrow> tree \<Rightarrow> history option \<times> 'p option \<Rightarrow> ('d, 'p, 'b) driver \<Rightarrow> bool" where
  "term_holds H ok blk n t T x s \<longleftrightarrow> vfs_holds H ok blk n T (kern (shell s)) \<and> canonical (cwd (shell s))
     \<and> screen_shows H (fst x) (glob (kern (shell s))) \<and> serial1 (glob (kern (shell s))) = snd x \<and> ticks (glob (kern (shell s))) = t"

definition term_at :: "tree \<Rightarrow> ('d, 'p, 'b) driver \<Rightarrow> term_state" where
  "term_at T s = (ticks (glob (kern (shell s))), line s, (world T (vfs (kern (shell s))), cwd (shell s)))"

lemma vfs_holds_glob: "vfs_holds H ok blk n T k \<Longrightarrow> drive g = drive (glob k) \<Longrightarrow> vfs_holds H ok blk n T (k\<lparr>glob := g\<rparr>)"
  by (simp add: vfs_holds_def vfs_good_def)

lemma displays_holds:
  assumes "displays H m s outs" "term_holds H ok blk n t T x s"
  shows "\<exists>g. m s = Some (Ok (), put_glob g s) \<and> term_holds H ok blk n t T (emit H outs x) (put_glob g s)"
proof -
  have "screen_shows H (fst x) (glob (kern (shell s)))" using assms(2) by (simp add: term_holds_def)
  then obtain g where g: "m s = Some (Ok (), put_glob g s)" "displayed H outs (fst x) (glob (kern (shell s))) g"
    using assms(1) unfolding displays_def by blast
  have "vfs_holds H ok blk n T (kern (shell (put_glob g s)))"
    using vfs_holds_glob [of H ok blk n T "kern (shell s)" g] assms(2) g(2) by (simp add: put_glob_def term_holds_def displayed_def)
  then have "term_holds H ok blk n t T (emit H outs x) (put_glob g s)"
    using assms(2) g(2) by (cases x) (simp add: term_holds_def displayed_def)
  with g(1) show ?thesis by blast
qed

text \<open>A handler takes the terminal from one abstract state to the next.\<close>

definition shows_key :: "('d, 'p) hardware \<Rightarrow> ('d \<Rightarrow> bool) \<Rightarrow> ('d \<Rightarrow> nat \<Rightarrow> u8 list) \<Rightarrow> nat \<Rightarrow> u64 \<Rightarrow> tree \<Rightarrow> history option \<times> 'p option \<Rightarrow> ('d, 'p, 'b) driver
    \<Rightarrow> shown list \<Rightarrow> tree \<Rightarrow> ('d, 'p, 'b) driver \<Rightarrow> bool" where
  "shows_key H ok blk n t T x s outs T' s' \<longleftrightarrow> term_holds H ok blk n t T' (emit H outs x) s' \<and> skeleton (vfs (kern (shell s'))) = skeleton (vfs (kern (shell s)))"

lemma on_enter_holds:
  assumes "block_device (blockdev H) ok blk" "font_ok (glyphs H)" "term_holds H ok blk n t T x s" "line_ok (vfs (kern (shell s))) (cwd (shell s)) (line s)"
  shows "\<exists>outs s' T'. on_enter H s = Some (Ok (), s') \<and> shows_key H ok blk n t T x s outs T' s'
    \<and> key_step (vfs (kern (shell s))) (term_at T s) (Unicode 0x0A) outs (term_at T' s')"
proof -
  obtain g where 1: "show_text H [newline_char] s = Some (Ok (), put_glob g s)" "term_holds H ok blk n t T (emit H [Shown [newline_char]] x) (put_glob g s)"
    using displays_holds [OF displays_show_text [OF assms(2)] assms(3)] by blast
  define s1 where "s1 = put_glob g s"
  have s1: "line s1 = line s" "vfs (kern (shell s1)) = vfs (kern (shell s))" "cwd (shell s1) = cwd (shell s)" by (simp_all add: s1_def)
  from line_holds [OF assms(1), of n T "shell s1" "line s1"] 1(2) assms(4) obtain out sh T' where 2: "execute_line H (line s1) (shell s1) = Some (Ok out, sh)"
    "vfs_holds H ok blk n T' (kern sh)" "canonical (cwd sh)" "skeleton (vfs (kern sh)) = skeleton (vfs (kern (shell s)))"
    "periph (glob (kern sh)) = periph (glob (kern (shell s1)))"
    "line_step t (vfs (kern (shell s))) (world T (vfs (kern (shell s))), cwd (shell s)) (line s) out (world T' (vfs (kern sh)), cwd sh)"
    unfolding s1_def [symmetric] by (auto simp: term_holds_def s1)
  define s2 where "s2 = s1\<lparr>shell := sh\<rparr>"
  have run: "on_part shell (\<lambda>x s. s\<lparr>shell := x\<rparr>) (execute_line H (line s1)) s1 = Some (Ok out, s2)" using 2(1) by (simp add: on_part_def s2_def)
  have "term_holds H ok blk n t T' (emit H [Shown [newline_char]] x) s2"
    using 1(2) 2(2,3,5) unfolding s1_def [symmetric] by (simp add: term_holds_def s2_def screen_shows_def)
  then obtain g' where 3: "show_output H out s2 = Some (Ok (), put_glob g' s2)"
    "term_holds H ok blk n t T' (emit H (shown_output out) (emit H [Shown [newline_char]] x)) (put_glob g' s2)"
    using displays_holds [OF displays_show_output [OF assms(2)]] by blast
  define s3 where "s3 = (put_glob g' s2)\<lparr>line := []\<rparr>"
  have "term_holds H ok blk n t T' (emit H (shown_output out) (emit H [Shown [newline_char]] x)) s3" using 3(2) by (simp add: s3_def term_holds_def)
  then obtain g'' where 4: "show_prompt H s3 = Some (Ok (), put_glob g'' s3)"
    "term_holds H ok blk n t T' (emit H [Shown (prompt_at (cwd (shell s3)))] (emit H (shown_output out) (emit H [Shown [newline_char]] x))) (put_glob g'' s3)"
    using displays_holds [OF displays_show_prompt [OF assms(2)]] by blast
  have s3: "cwd (shell s3) = cwd sh" "vfs (kern (shell s3)) = vfs (kern sh)" "line s3 = []" by (simp_all add: s3_def s2_def)
  let ?outs = "Shown [newline_char] # shown_output out @ [Shown (prompt_at (cwd sh))]"
  have "on_enter H s = Some (Ok (), put_glob g'' s3)"
    by (simp add: on_enter_def bindM_Ok 1(1) s1_def [symmetric] bindM_gets run 3(1) bindM_modify s3_def [symmetric] 4(1))
  moreover have "emit H ?outs x = emit H [Shown (prompt_at (cwd sh))] (emit H (shown_output out) (emit H [Shown [newline_char]] x))"
    using emit_append [of H "[Shown [newline_char]]" "shown_output out @ [Shown (prompt_at (cwd sh))]" x] by (simp add: emit_append del: emit.simps)
  moreover have "ticks g'' = t" "ticks (glob (kern (shell s))) = t" using 4(2) assms(3) by (simp_all add: term_holds_def)
  ultimately show ?thesis using 4(2) 2(4,6) s3
    by (intro exI [of _ ?outs] exI [of _ "put_glob g'' s3"] exI [of _ T']) (auto simp: shows_key_def term_at_def simp del: emit.simps line_step.simps)
qed

lemma handle_key_holds:
  assumes "block_device (blockdev H) ok blk" "font_ok (glyphs H)" "term_holds H ok blk n t T x s"
    and "key = Unicode 0x0A \<Longrightarrow> line_ok (vfs (kern (shell s))) (cwd (shell s)) (line s)"
  shows "\<exists>outs s' T'. handle_key H key s = Some (Ok (), s') \<and> shows_key H ok blk n t T x s outs T' s'
    \<and> key_step (vfs (kern (shell s))) (term_at T s) key outs (term_at T' s')"
proof -
  have edit: ?thesis if "\<And>s'. s' = s\<lparr>line := l\<rparr> \<Longrightarrow> handle_key H key s = m s' \<and> displays H m s' outs"
    "\<And>g. ticks g = ticks (glob (kern (shell s))) \<Longrightarrow> key_step (vfs (kern (shell s))) (term_at T s) key outs (term_at T (put_glob g (s\<lparr>line := l\<rparr>)))" for m outs l
  proof -
    have "term_holds H ok blk n t T x (s\<lparr>line := l\<rparr>)" using assms(3) by (simp add: term_holds_def)
    from displays_holds [OF _ this] that(1) [OF refl] obtain g where "handle_key H key s = Some (Ok (), put_glob g (s\<lparr>line := l\<rparr>))"
      "term_holds H ok blk n t T (emit H outs x) (put_glob g (s\<lparr>line := l\<rparr>))" by auto
    moreover from this(2) have "ticks g = ticks (glob (kern (shell s)))" using assms(3) by (simp add: term_holds_def)
    ultimately show ?thesis using that(2) [of g]
      by (intro exI [of _ outs] exI [of _ "put_glob g (s\<lparr>line := l\<rparr>)"] exI [of _ T]) (simp add: shows_key_def)
  qed
  have same: ?thesis if "handle_key H key s = m s" "displays H m s []"
    "\<And>g. ticks g = ticks (glob (kern (shell s))) \<Longrightarrow> key_step (vfs (kern (shell s))) (term_at T s) key [] (term_at T (put_glob g s))" for m
    by (rule edit [of "line s" m "[]"]) (use that in simp_all)
  show ?thesis
  proof (cases key)
    case (RawKey k)
    show ?thesis
      by (rule same [of "on_devices (route_rawkey H k)"]) (use RawKey displays_route_rawkey [OF assms(2)] in \<open>simp_all add: handle_key_def term_at_def\<close>)
  next
    case (Unicode c)
    consider "c = 0x0A" | "c = 0x08 \<or> c = 0x7F" "line s \<noteq> []" | "0x20 \<le> c" "c \<le> 0x7E" "length (line s) < 120"
      | "c \<noteq> 0x0A" "c = 0x08 \<or> c = 0x7F \<longrightarrow> line s = []" "\<not> (0x20 \<le> c \<and> c \<le> 0x7E \<and> length (line s) < 120)" by linarith
    then show ?thesis
    proof cases
      case 1
      with Unicode assms(4) on_enter_holds [OF assms(1-3)] show ?thesis by (simp add: handle_key_def)
    next
      case 2
      show ?thesis
        by (rule edit [of "butlast (line s)" "show_text H [CHR 0x08, CHR 0x20, CHR 0x08]" "[Shown [CHR 0x08, CHR 0x20, CHR 0x08]]"])
          (use Unicode 2 displays_show_text [OF assms(2)] in \<open>auto simp: handle_key_def on_backspace_def bindM_gets bindM_modify term_at_def\<close>)
    next
      case 3
      show ?thesis
        by (rule edit [of "line s @ [char_of c]" "show_text H [char_of c]" "[Shown [char_of c]]"])
          (use Unicode 3 displays_show_text [OF assms(2)] in \<open>auto simp: handle_key_def bindM_gets bindM_modify term_at_def\<close>)
    next
      case 4
      show ?thesis
        by (rule same [of "ret ()"]) (use Unicode 4 displays_ret in \<open>auto simp: handle_key_def on_backspace_def bindM_gets term_at_def\<close>)
    qed
  qed
qed

text \<open>A timer interrupt changes nothing but the counter.\<close>

lemma timer_tick_holds:
  assumes "term_holds H ok blk n t T x s"
  shows "\<exists>s'. timer_tick s = Some (Ok (), s') \<and> term_holds H ok blk n (t + 1) T x s' \<and> term_at T s' = (t + 1, snd (term_at T s))
    \<and> vfs (kern (shell s')) = vfs (kern (shell s)) \<and> keyboard s' = keyboard s"
proof -
  let ?g = "(glob (kern (shell s)))\<lparr>ticks := ticks (glob (kern (shell s))) + 1\<rparr>"
  have "timer_tick s = Some (Ok (), put_glob ?g s)" by (simp add: timer_tick_def on_devices_def on_part_def modify_run)
  moreover have "vfs_holds H ok blk n T (kern (shell (put_glob ?g s)))"
    using vfs_holds_glob [of H ok blk n T "kern (shell s)" ?g] assms by (simp add: term_holds_def put_glob_def)
  ultimately show ?thesis using assms by (intro exI [of _ "put_glob ?g s"]) (simp add: term_holds_def term_at_def screen_shows_def)
qed

text \<open>The abstract terminal looks at the table only through its skeleton.\<close>

lemma skeleton_input_step:
  assumes "skeleton v' = skeleton v" "table_ok v"
  shows "input_step v' ts i outs ts' = input_step v ts i outs ts'"
proof -
  have "key_step v' ts k outs ts' = key_step v ts k outs ts'" for k
    by (cases ts; cases k) (simp_all add: skeleton_line(1) [OF assms])
  then show ?thesis by (cases ts; cases i) simp_all
qed

lemma skeleton_typed:
  assumes "skeleton v' = skeleton v" "table_ok v" "typed v' ks ts outs ts'"
  shows "typed v ks ts outs ts'"
  using assms(3) by induction (auto intro: typed.intros simp: skeleton_input_step [OF assms(1,2)])

lemma skeleton_inputs_ok:
  assumes "skeleton v' = skeleton v" "table_ok v"
  shows "inputs_ok v' ks ts = inputs_ok v ks ts"
  by (induction ks arbitrary: ts) (simp_all add: skeleton_line(2) [OF assms] skeleton_input_step [OF assms])

text \<open>One event: it is no input, or one input of the abstract terminal.\<close>

lemma event_holds:
  assumes "block_device (blockdev H) ok blk" "font_ok (glyphs H)" "term_holds H ok blk n t T x s"
    and "inputs_ok (vfs (kern (shell s))) (decoded dec (e # es) (keyboard s)) (term_at T s)"
  shows "\<exists>a s1 T1 t1. shell_event H dec e s = Some (Ok (), s1) \<and> shows_key H ok blk n t1 T x s a T1 s1
    \<and> inputs_ok (vfs (kern (shell s))) (decoded dec es (keyboard s1)) (term_at T1 s1)
    \<and> (\<forall>b ts'. typed (vfs (kern (shell s))) (decoded dec es (keyboard s1)) (term_at T1 s1) b ts' \<longrightarrow>
         typed (vfs (kern (shell s))) (decoded dec (e # es) (keyboard s)) (term_at T s) (a @ b) ts')"
proof (cases e)
  case TimerTick
  let ?v = "vfs (kern (shell s))"
  obtain s1 where s1: "timer_tick s = Some (Ok (), s1)" "term_holds H ok blk n (t + 1) T x s1" "term_at T s1 = (t + 1, snd (term_at T s))"
    "vfs (kern (shell s1)) = ?v" "keyboard s1 = keyboard s" using timer_tick_holds [OF assms(3)] by blast
  have "emit H [] x = x" by (cases x; cases "fst x"; cases "snd x") simp_all
  moreover have tick: "input_step ?v (term_at T s) Tick [] (term_at T s1)" using s1(3) assms(3) by (simp add: term_at_def term_holds_def)
  moreover have "inputs_ok ?v (decoded dec es (keyboard s1)) (term_at T s1)" using assms(4) tick unfolding TimerTick decoded.simps inputs_ok.simps s1(5) by blast
  ultimately show ?thesis using s1 typed_step [OF tick] TimerTick
    by (intro exI [of _ "[]"] exI [of _ s1] exI [of _ T] exI [of _ "t + 1"]) (simp add: shell_event_def shows_key_def del: input_step.simps)
next
  case (Scancode c)
  let ?v = "vfs (kern (shell s))"
  obtain key kb where d: "dec c (keyboard s) = (key, kb)" by (cases "dec c (keyboard s)")
  define s0 where "s0 = s\<lparr>keyboard := kb\<rparr>"
  have s0: "term_holds H ok blk n t T x s0" "term_at T s0 = term_at T s" "vfs (kern (shell s0)) = ?v" "keyboard s0 = kb"
    "cwd (shell s0) = cwd (shell s)" "line s0 = line s"
    using assms(3) by (simp_all add: s0_def term_holds_def term_at_def)
  have run: "shell_event H dec e s = (case key of None \<Rightarrow> ret () | Some k \<Rightarrow> handle_key H k) s0"
    by (simp add: Scancode shell_event_def shell_scancode_def bindM_gets d bindM_modify s0_def)
  show ?thesis
  proof (cases key)
    case None
    have "emit H [] x = x" by (cases x; cases "fst x"; cases "snd x") simp_all
    with run None assms(4) s0 d Scancode show ?thesis
      by (intro exI [of _ "[]"] exI [of _ s0] exI [of _ T] exI [of _ t]) (simp add: ret_run shows_key_def)
  next
    case (Some k)
    have ks: "inputs_ok ?v (Key k # decoded dec es kb) (term_at T s)" using assms(4) d Some Scancode by simp
    then have "k = Unicode 0x0A \<Longrightarrow> line_ok (vfs (kern (shell s0))) (cwd (shell s0)) (line s0)" using s0 by (simp add: term_at_def)
    from handle_key_holds [OF assms(1,2) s0(1), of k, OF this] obtain a s1 T1 where 1: "handle_key H k s0 = Some (Ok (), s1)"
      "shows_key H ok blk n t T x s0 a T1 s1" "input_step ?v (term_at T s) (Key k) a (term_at T1 s1)" using s0(2,3) by auto
    have kb: "keyboard s1 = kb" using keepsD [OF handle_key_keyboard 1(1)] s0(4) by simp
    moreover have "inputs_ok ?v (decoded dec es kb) (term_at T1 s1)" using ks 1(3) unfolding inputs_ok.simps by blast
    ultimately show ?thesis using run 1(1,2) Some s0(3) d Scancode typed_step [OF 1(3)]
      by (intro exI [of _ a] exI [of _ s1] exI [of _ T1] exI [of _ t]) (simp add: shows_key_def)
  qed
qed

lemma events_hold:
  assumes "block_device (blockdev H) ok blk" "font_ok (glyphs H)"
  shows "term_holds H ok blk n t T x s \<Longrightarrow> inputs_ok (vfs (kern (shell s))) (decoded dec es (keyboard s)) (term_at T s) \<Longrightarrow>
    \<exists>outs s' T' t'. foldM (\<lambda>e _. shell_event H dec e) es () s = Some (Ok (), s') \<and> shows_key H ok blk n t' T x s outs T' s'
      \<and> typed (vfs (kern (shell s))) (decoded dec es (keyboard s)) (term_at T s) outs (term_at T' s')"
proof (induction es arbitrary: s T x t)
  case Nil
  have "emit H [] x = x" by (cases x; cases "fst x"; cases "snd x") simp_all
  with Nil show ?case by (intro exI [of _ "[]"] exI [of _ s] exI [of _ T] exI [of _ t]) (simp add: ret_run shows_key_def typed_done)
next
  case (Cons e es)
  let ?v = "vfs (kern (shell s))"
  obtain a s1 T1 t1 where 1: "shell_event H dec e s = Some (Ok (), s1)" "shows_key H ok blk n t1 T x s a T1 s1"
    "inputs_ok ?v (decoded dec es (keyboard s1)) (term_at T1 s1)"
    "\<And>b ts'. typed ?v (decoded dec es (keyboard s1)) (term_at T1 s1) b ts' \<Longrightarrow> typed ?v (decoded dec (e # es) (keyboard s)) (term_at T s) (a @ b) ts'"
    using event_holds [OF assms Cons.prems] by blast
  have sk: "skeleton (vfs (kern (shell s1))) = skeleton ?v" and t1: "term_holds H ok blk n t1 T1 (emit H a x) s1" using 1(2) by (simp_all add: shows_key_def)
  have table: "table_ok ?v" using Cons.prems(1) vfs_holdsD(2) by (auto simp: term_holds_def)
  from Cons.IH [OF t1] 1(3) obtain b s' T' t' where 2: "foldM (\<lambda>e _. shell_event H dec e) es () s1 = Some (Ok (), s')"
    "shows_key H ok blk n t' T1 (emit H a x) s1 b T' s'" "typed (vfs (kern (shell s1))) (decoded dec es (keyboard s1)) (term_at T1 s1) b (term_at T' s')"
    unfolding skeleton_inputs_ok [OF sk table] by blast
  have "typed ?v (decoded dec (e # es) (keyboard s)) (term_at T s) (a @ b) (term_at T' s')"
    by (rule 1(4) [OF skeleton_typed [OF sk table 2(3)]])
  moreover have "shows_key H ok blk n t' T x s (a @ b) T' s'" using 2(2) sk by (simp add: shows_key_def emit_append)
  ultimately show ?case using 1(1) 2(1)
    by (intro exI [of _ "a @ b"] exI [of _ s'] exI [of _ T'] exI [of _ t']) (simp add: bindM_Ok)
qed

text \<open>The terminal when the shell starts.\<close>

abbreviation term_start :: "tree \<Rightarrow> ('d, 'p) kernel \<Rightarrow> term_state" where
  "term_start T k \<equiv> (ticks (glob k), [], (world T (vfs k), ''/''))"

lemma shell_loop_holds:
  assumes "block_device (blockdev H) ok blk" "font_ok (glyphs H)" "vfs_holds H ok blk n T k" "screen_shows H h (glob k)"
    and "inputs_ok (vfs k) (decoded dec es kb) (term_start T k)"
  shows "\<exists>outs s' T' t'. shell_loop H dec es (shell_start k kb) = Some (Ok (), s')
    \<and> term_holds H ok blk n t' T' (emit H (Shown (prompt_at ''/'') # outs) (h, serial1 (glob k))) s'
    \<and> skeleton (vfs (kern (shell s'))) = skeleton (vfs k)
    \<and> typed (vfs k) (decoded dec es kb) (term_start T k) outs (term_at T' s')"
proof -
  let ?s = "shell_start k kb" and ?t = "ticks (glob k)"
  have s: "kern (shell ?s) = k" "cwd (shell ?s) = ''/''" "line ?s = []" "keyboard ?s = kb" by (simp_all add: shell_start_def shell_new_def)
  have "term_holds H ok blk n ?t T (h, serial1 (glob k)) ?s"
    using assms(3,4) demo_words(8) by (simp add: term_holds_def s)
  from displays_holds [OF displays_show_prompt [OF assms(2)] this] obtain g where 1: "show_prompt H ?s = Some (Ok (), put_glob g ?s)"
    "term_holds H ok blk n ?t T (emit H [Shown (prompt_at ''/'')] (h, serial1 (glob k))) (put_glob g ?s)" unfolding s by blast
  have at: "term_at T (put_glob g ?s) = term_start T k" using 1(2) by (simp add: term_at_def term_holds_def s)
  have "inputs_ok (vfs (kern (shell (put_glob g ?s)))) (decoded dec es (keyboard (put_glob g ?s))) (term_at T (put_glob g ?s))"
    using assms(5) unfolding at by (simp add: s)
  from events_hold [OF assms(1,2) 1(2) this] obtain outs s' T' t' where 2: "foldM (\<lambda>e _. shell_event H dec e) es () (put_glob g ?s) = Some (Ok (), s')"
    "shows_key H ok blk n t' T (emit H [Shown (prompt_at ''/'')] (h, serial1 (glob k))) (put_glob g ?s) outs T' s'"
    "typed (vfs k) (decoded dec es kb) (term_start T k) outs (term_at T' s')"
    unfolding at by (auto simp: s)
  have "emit H (Shown (prompt_at ''/'') # outs) (h, serial1 (glob k)) = emit H outs (emit H [Shown (prompt_at ''/'')] (h, serial1 (glob k)))"
    using emit_append [of H "[Shown (prompt_at ''/'')]" outs] by (simp del: emit.simps)
  with 1(1) 2 show ?thesis
    by (intro exI [of _ outs] exI [of _ s'] exI [of _ T'] exI [of _ t']) (simp add: shell_loop_def bindM_Ok shows_key_def s del: emit.simps)
qed

text \<open>
  C3: from the keyboard to the screen, for keys whose lines the specification covers (\<open>inputs_ok\<close>): at each Enter the line must not \<open>touch\<close>,
  \<open>mkdir\<close>, \<open>rm\<close> or \<open>write\<close> a path on the FAT mount with a name that is not 8.3, nor \<open>write\<close> to \<open>/dev/console\<close> or \<open>/dev/serial0\<close>
  (whole blocks for \<open>/dev/disk0\<close> do not fit on a line of 120 characters). On a kernel whose mounts hold trees, with the console showing some
  history, for any such keys - editing keys, scrolling keys and lines with every command - and whenever the timer interrupts, the shell runs on without a panic, and what
  reaches the serial port and the console is, byte by byte and in order, what the abstract terminal shows for these keys: the prompt, the echo of
  each character, the erasing sequence, a newline at Enter followed by what the abstract shell answers, and the next prompt with the new working
  directory. The count of the timer, the line being typed, the maps of the mounts and the working directory afterwards are those of the
  abstract terminal.
\<close>

theorem keystrokes_shown:
  assumes "block_device (blockdev H) ok blk" "font_ok (glyphs H)" "vfs_holds H ok blk n T k" "screen_shows H h (glob k)"
    and "inputs_ok (vfs k) (decoded dec events kb) (term_start T k)"
  shows "\<exists>outs s' T'. shell_loop H dec events (shell_start k kb) = Some (Ok (), s')
    \<and> typed (vfs k) (decoded dec events kb) (term_start T k) outs
        (ticks (glob (kern (shell s'))), line s', (world T' (vfs (kern (shell s'))), cwd (shell s')))
    \<and> serial1 (glob (kern (shell s'))) = send_shown H (Shown (prompt_at ''/'') # outs) (serial1 (glob k))
    \<and> screen_shows H (log_shown (Shown (prompt_at ''/'') # outs) h) (glob (kern (shell s')))"
  using shell_loop_holds [OF assms] by (auto simp: term_holds_def term_at_def)

inductive_cases typed_NilE: "typed v [] ts outs ts'"
inductive_cases typed_ConsE: "typed v (k # ks) ts outs ts'"

text \<open>A kernel with a screen of 3 by 19 pixels and the sample volume.\<close>

definition screen_kernel :: "(image, u8 list) kernel" where
  "screen_kernel = disk_kernel\<lparr>glob := (glob disk_kernel)\<lparr>fb_writer := Some (fb_new (replicate 57 0) tiny_info)\<rparr>\<rparr>"

lemma screen_kernel_ok:
  "vfs_holds demo_hardware image_ok image_blk 127 sample_tree screen_kernel" "font_ok (glyphs demo_hardware)"
  "screen_shows demo_hardware (Some ([], [])) (glob screen_kernel)" "serial1 (glob screen_kernel) = Some []" "vfs screen_kernel = vfs disk_kernel"
proof -
  show "vfs_holds demo_hardware image_ok image_blk 127 sample_tree screen_kernel"
    unfolding screen_kernel_def by (rule vfs_holds_glob [OF disk_holds]) simp
  show "font_ok (glyphs demo_hardware)" by (simp add: demo_hardware_def tiny_ok)
  show "screen_shows demo_hardware (Some ([], [])) (glob screen_kernel)"
    using console_new [OF tiny_ok(2)] by (simp add: screen_shows_def screen_kernel_def demo_hardware_def)
qed (simp_all add: screen_kernel_def disk_kernel_def demo_globals_def)

text \<open>The keys of \<open>pwx\<close>, backspace, \<open>d\<close> and Enter, with a timer interrupt in between.\<close>

abbreviation pwd_keys :: "event list" where
  "pwd_keys \<equiv> [Scancode 112, Scancode 119, Scancode 120, TimerTick, Scancode 127, Scancode 100, Scancode 10]"

abbreviation pwd_line :: string where
  "pwd_line \<equiv> ''willo:/$ pwx'' @ [CHR 0x08, CHR 0x20, CHR 0x08] @ ''d''"

lemma pwd_typed:
  "inputs_ok v (decoded plain_keys pwd_keys ()) (t, [], (W, ''/''))"
  "typed v (decoded plain_keys pwd_keys ()) (t, [], (W, ''/'')) outs ts \<Longrightarrow>
    outs = [Shown ''p'', Shown ''w'', Shown ''x'', Shown [CHR 0x08, CHR 0x20, CHR 0x08], Shown ''d'', Shown [newline_char],
      Shown (''/'' @ [newline_char]), Shown (prompt_at ''/'')]"
proof -
  have chars: "char_of (112 :: nat) = CHR ''p''" "char_of (119 :: nat) = CHR ''w''" "char_of (120 :: nat) = CHR ''x''" "char_of (100 :: nat) = CHR ''d''"
    by code_simp+
  have keys: "decoded plain_keys pwd_keys () = [Key (Unicode 112), Key (Unicode 119), Key (Unicode 120), Tick, Key (Unicode 127), Key (Unicode 100), Key (Unicode 10)]"
    by (simp add: plain_keys_def)
  have call: "line_call ''/'' [''pwd''] = None" by (simp add: line_call_def)
  have step: "line_step t v (W, ''/'') ''pwd'' out st \<longleftrightarrow> out = ''/'' @ [newline_char] \<and> st = (W, ''/'')" for t W out st
    by (cases st) (auto simp: demo_words(4) call spec_line_def)
  show "inputs_ok v (decoded plain_keys pwd_keys ()) (t, [], (W, ''/''))"
    unfolding keys by (simp add: chars line_ok_def demo_words(4) call)
  assume "typed v (decoded plain_keys pwd_keys ()) (t, [], (W, ''/'')) outs ts"
  then show "outs = [Shown ''p'', Shown ''w'', Shown ''x'', Shown [CHR 0x08, CHR 0x20, CHR 0x08], Shown ''d'', Shown [newline_char],
      Shown (''/'' @ [newline_char]), Shown (prompt_at ''/'')]"
    unfolding keys by (elim typed_ConsE typed_NilE) (auto simp: chars step shown_output_def CLEAR_SENTINEL_def simp del: line_step.simps)
qed

lemma pwd_shown:
  assumes "typed v (decoded plain_keys pwd_keys ()) (t, [], (W, ''/'')) outs ts"
  shows "concat (map serial_bytes (Shown (prompt_at ''/'') # outs)) = as_bytes (pwd_line @ [newline_char] @ ''/'' @ [newline_char] @ ''willo:/$ '')"
    "concat (map screen_chars (Shown (prompt_at ''/'') # outs)) = chars pwd_line @ [10] @ chars ''/'' @ [10] @ chars ''willo:/$ ''"
  unfolding pwd_typed(2) [OF assms] prompt_at_def by (simp, code_simp)

theorem keystrokes_shown_witness:
  "\<exists>s' w. shell_loop demo_hardware plain_keys pwd_keys (shell_start screen_kernel ()) = Some (Ok (), s')
    \<and> serial1 (glob (kern (shell s'))) = Some (as_bytes (pwd_line @ [newline_char] @ ''/'' @ [newline_char] @ ''willo:/$ ''))
    \<and> fb_writer (glob (kern (shell s'))) = Some w \<and> ring w = [chars pwd_line, chars ''/''] \<and> current_line w = chars ''willo:/$ ''"
proof -
  let ?H = demo_hardware
  obtain outs s' T' where run: "shell_loop ?H plain_keys pwd_keys (shell_start screen_kernel ()) = Some (Ok (), s')"
    "typed (vfs screen_kernel) (decoded plain_keys pwd_keys ()) (term_start sample_tree screen_kernel) outs
      (ticks (glob (kern (shell s'))), line s', (world T' (vfs (kern (shell s'))), cwd (shell s')))"
    "serial1 (glob (kern (shell s'))) = send_shown ?H (Shown (prompt_at ''/'') # outs) (serial1 (glob screen_kernel))"
    "screen_shows ?H (log_shown (Shown (prompt_at ''/'') # outs) (Some ([], []))) (glob (kern (shell s')))"
    using keystrokes_shown [OF disk_device screen_kernel_ok(2,1,3) pwd_typed(1)] by blast
  have send: "fold (uart_send ?H) bs p = p @ bs" for bs p by (induction bs arbitrary: p) (simp_all add: demo_hardware_def)
  have "serial1 (glob (kern (shell s'))) = Some (as_bytes (pwd_line @ [newline_char] @ ''/'' @ [newline_char] @ ''willo:/$ ''))"
    unfolding run(3) pwd_shown(1) [OF run(2)] screen_kernel_ok(4) option.map send by (rule append_Nil [THEN arg_cong])
  moreover have "log_shown (Shown (prompt_at ''/'') # outs) (Some ([], [])) = Some ([chars pwd_line, chars ''/''], chars ''willo:/$ '')"
    unfolding pwd_shown(2) [OF run(2)] by code_simp
  then obtain w where "fb_writer (glob (kern (shell s'))) = Some w" "console (glyphs ?H) ([chars pwd_line, chars ''/''], chars ''willo:/$ '') w"
    using run(4) unfolding screen_shows_def by (auto simp: option_rel_Some1)
  ultimately show ?thesis using run(1) by (auto simp: console_def shows_history_def last_n_def SCROLLBACK_LINES_def)
qed

text \<open>
  Backspace erases nothing on the screen: the console has no case for the character 8, so where the serial terminal steps back the console draws
  three more glyphs and appends them to its line, while the line buffer of the shell loses its last character.
\<close>

theorem backspace_grows_screen:
  assumes "font_ok (glyphs H)" "fb_writer (glob (kern (shell s))) = Some w" "console (glyphs H) h w" "line s \<noteq> []"
    and "str_len (current_line w) + 3 \<le> MAX_LINE_LEN"
  shows "\<exists>g w'. handle_key H (Unicode 0x08) s = Some (Ok (), put_glob g (s\<lparr>line := butlast (line s)\<rparr>))
    \<and> fb_writer g = Some w' \<and> current_line w' = current_line w @ [8, 32, 8]"
proof -
  let ?bs = "[CHR 0x08, CHR 0x20, CHR 0x08]" and ?s = "s\<lparr>line := butlast (line s)\<rparr>"
  have "screen_shows H (Some h) (glob (kern (shell ?s)))" using assms(2,3) by (simp add: screen_shows_def)
  with displays_show_text [OF assms(1), of ?bs ?s] obtain g where g: "show_text H ?bs ?s = Some (Ok (), put_glob g ?s)"
    "screen_shows H (log_shown [Shown ?bs] (Some h)) g" unfolding displays_def displayed_def by blast
  have "chars ?bs = [8, 32, 8]" by code_simp
  then have "snd (fold log_char (chars ?bs) h) = current_line w @ [8, 32, 8]"
    using assms(3,5) by (cases h) (simp add: console_def shows_history_def log_char_def str_len_def len_utf8_def)
  with g(2) have "\<exists>w'. fb_writer g = Some w' \<and> current_line w' = current_line w @ [8, 32, 8]"
    by (auto simp: screen_shows_def option_rel_Some1 console_def shows_history_def split: prod.splits)
  with g(1) assms(4) show ?thesis by (intro exI [of _ g]) (simp add: handle_key_def on_backspace_def bindM_gets bindM_modify)
qed

end
