(* ===== verification/Gdt.thy ===== *)
theory Gdt
  imports Prelude
begin

unbundle bit_operations_syntax

text \<open>
  The segment tables of \<^verbatim>\<open>kernel/src/gdt.rs\<close>: the task state segment with its two stacks, the global
  descriptor table, the loading of every segment register and \<open>set_kernel_stack\<close>. Both tables are
  \<open>spin::Lazy\<close> statics: an \<open>option\<close>, filled by the first access. The descriptors, the table and
  \<open>VirtAddr\<close> are code of the \<open>x86_64\<close> crate, hence parameters, with their documented laws in \<open>x86_gdt\<close>.

  Shown: the layout the SYSCALL and SYSRET instructions rely on, that the first \<open>init\<close> leaves every segment
  register on a descriptor of the right kind while a second one faults, and that the stacks of the task
  state segment point at the ends of the reserved memory.
\<close>

section \<open>The library\<close>

datatype Descriptor = UserSegment u64 | SystemSegment u64 u64

type_synonym SegmentSelector = u16

text \<open>
  \<open>gdt_append\<close> and \<open>virt_add\<close> are \<open>None\<close> where the crate panics. \<open>tss_segment\<close> takes the address of
  the task state segment; \<open>static_*\<close> are the addresses the linker gives the statics.
\<close>

record 't x86_gdt =
  kernel_code_segment :: Descriptor
  kernel_data_segment :: Descriptor
  user_code32_bits :: u64
  user_data_segment :: Descriptor
  user_code_segment :: Descriptor
  tss_segment :: "u64 \<Rightarrow> Descriptor"
  gdt_new :: 't
  gdt_append :: "Descriptor \<Rightarrow> 't \<Rightarrow> (SegmentSelector \<times> 't) option"
  virt_add :: "u64 \<Rightarrow> u64 \<Rightarrow> u64 option"
  static_double_fault_stack :: u64
  static_rsp0_stack :: u64
  static_tss :: u64

section \<open>The statics\<close>

definition DOUBLE_FAULT_IST_INDEX :: nat where
  "DOUBLE_FAULT_IST_INDEX = 0"

definition KERNEL_RSP0_STACK_SIZE :: u64 where
  "KERNEL_RSP0_STACK_SIZE = 4096 * 5"

definition STACK_SIZE :: u64 where
  "STACK_SIZE = 4096 * 5"

record TaskStateSegment =
  privilege_stack_table :: "u64 list"
  interrupt_stack_table :: "u64 list"

definition tss_new :: TaskStateSegment where
  "tss_new = \<lparr>privilege_stack_table = replicate 3 0, interrupt_stack_table = replicate 7 0\<rparr>"

record Selectors =
  code_selector :: SegmentSelector
  data_selector :: SegmentSelector
  user_code_32_selector :: SegmentSelector
  user_data_selector :: SegmentSelector
  user_code_selector :: SegmentSelector
  tss_selector :: SegmentSelector

record registers =
  cs_reg :: SegmentSelector
  ss_reg :: SegmentSelector
  ds_reg :: SegmentSelector
  es_reg :: SegmentSelector
  fs_reg :: SegmentSelector
  gs_reg :: SegmentSelector
  tr_reg :: SegmentSelector

text \<open>\<open>tss_busy\<close> is the busy bit the processor keeps in the descriptor of the task state segment, in the memory of the static table.\<close>

record 't segmentation =
  TSS :: "TaskStateSegment option"
  GDT :: "('t \<times> Selectors) option"
  gdtr :: "'t option"
  regs :: registers
  tss_busy :: bool

type_synonym ('t, 'a) seg = "('t segmentation, unit, 'a) io"

definition or_panic :: "'a option \<Rightarrow> ('s, 'e, 'a) io" where
  "or_panic x = (case x of Some y \<Rightarrow> ret y | None \<Rightarrow> panic)"

section \<open>The tables\<close>

definition make_tss :: "'t x86_gdt \<Rightarrow> ('t, TaskStateSegment) seg" where
  "make_tss X = bindM (or_panic (virt_add X (static_double_fault_stack X) STACK_SIZE)) (\<lambda>ist.
     bindM (or_panic (virt_add X (static_rsp0_stack X) KERNEL_RSP0_STACK_SIZE)) (\<lambda>rsp0.
     ret (tss_new\<lparr>interrupt_stack_table := (interrupt_stack_table tss_new)[DOUBLE_FAULT_IST_INDEX := ist],
       privilege_stack_table := (privilege_stack_table tss_new)[0 := rsp0]\<rparr>)))"

text \<open>An access to a \<open>Lazy\<close> static.\<close>

definition force_tss :: "'t x86_gdt \<Rightarrow> ('t, TaskStateSegment) seg" where
  "force_tss X = bindM (gets TSS) (\<lambda>t. case t of
     Some tss \<Rightarrow> ret tss
   | None \<Rightarrow> bindM (make_tss X) (\<lambda>tss. bindM (modify (\<lambda>s. s\<lparr>TSS := Some tss\<rparr>)) (\<lambda>_. ret tss)))"

definition make_gdt :: "'t x86_gdt \<Rightarrow> ('t, 't \<times> Selectors) seg" where
  "make_gdt X =
     bindM (or_panic (gdt_append X (kernel_code_segment X) (gdt_new X))) (\<lambda>(code, gdt).
     bindM (or_panic (gdt_append X (kernel_data_segment X) gdt)) (\<lambda>(data, gdt).
     bindM (or_panic (gdt_append X (UserSegment (user_code32_bits X)) gdt)) (\<lambda>(user32, gdt).
     bindM (or_panic (gdt_append X (user_data_segment X) gdt)) (\<lambda>(udata, gdt).
     bindM (or_panic (gdt_append X (user_code_segment X) gdt)) (\<lambda>(ucode, gdt).
     bindM (force_tss X) (\<lambda>_.
     bindM (or_panic (gdt_append X (tss_segment X (static_tss X)) gdt)) (\<lambda>(tss, gdt).
     ret (gdt, \<lparr>code_selector = code, data_selector = data, user_code_32_selector = user32,
       user_data_selector = udata, user_code_selector = ucode, tss_selector = tss\<rparr>))))))))"

definition force_gdt :: "'t x86_gdt \<Rightarrow> ('t, 't \<times> Selectors) seg" where
  "force_gdt X = bindM (gets GDT) (\<lambda>t. case t of
     Some g \<Rightarrow> ret g
   | None \<Rightarrow> bindM (make_gdt X) (\<lambda>g. bindM (modify (\<lambda>s. s\<lparr>GDT := Some g\<rparr>)) (\<lambda>_. ret g)))"

definition set_reg :: "(registers \<Rightarrow> registers) \<Rightarrow> ('t, unit) seg" where
  "set_reg f = modify (\<lambda>s. s\<lparr>regs := f (regs s)\<rparr>)"

text \<open>
  \<open>load_tss\<close>, the \<open>ltr\<close> instruction: it marks the descriptor busy, and on a descriptor that is busy already it raises a general
  protection exception, which does not come back to the caller.
\<close>

definition load_tss :: "SegmentSelector \<Rightarrow> ('t, unit) seg" where
  "load_tss sel = bindM (gets tss_busy) (\<lambda>busy.
     if busy then panic
     else bindM (modify (\<lambda>s. s\<lparr>tss_busy := True\<rparr>)) (\<lambda>_. set_reg (\<lambda>r. r\<lparr>tr_reg := sel\<rparr>)))"

definition gdt_init :: "'t x86_gdt \<Rightarrow> ('t, unit) seg" where
  "gdt_init X = bindM (force_gdt X) (\<lambda>(gdt, sel).
     bindM (modify (\<lambda>s. s\<lparr>gdtr := Some gdt\<rparr>)) (\<lambda>_.
     bindM (set_reg (\<lambda>r. r\<lparr>cs_reg := code_selector sel\<rparr>)) (\<lambda>_.
     bindM (set_reg (\<lambda>r. r\<lparr>ss_reg := data_selector sel\<rparr>)) (\<lambda>_.
     bindM (set_reg (\<lambda>r. r\<lparr>ds_reg := data_selector sel\<rparr>)) (\<lambda>_.
     bindM (set_reg (\<lambda>r. r\<lparr>es_reg := data_selector sel\<rparr>)) (\<lambda>_.
     bindM (set_reg (\<lambda>r. r\<lparr>fs_reg := data_selector sel\<rparr>)) (\<lambda>_.
     bindM (set_reg (\<lambda>r. r\<lparr>gs_reg := data_selector sel\<rparr>)) (\<lambda>_.
     load_tss (tss_selector sel)))))))))"

definition selectors :: "'t x86_gdt \<Rightarrow> ('t, Selectors) seg" where
  "selectors X = bindM (force_gdt X) (\<lambda>(_, sel). ret sel)"

definition set_kernel_stack :: "'t x86_gdt \<Rightarrow> u64 \<Rightarrow> ('t, unit) seg" where
  "set_kernel_stack X rsp = bindM (force_tss X) (\<lambda>tss.
     modify (\<lambda>s. s\<lparr>TSS := Some (tss\<lparr>privilege_stack_table := (privilege_stack_table tss)[0 := rsp]\<rparr>)\<rparr>))"

section \<open>What the crate documents\<close>

text \<open>The privilege level of a descriptor: bits 45 and 46 of its first word.\<close>

definition dpl :: "Descriptor \<Rightarrow> u16" where
  "dpl d = (case d of UserSegment v \<Rightarrow> ucast (drop_bit 45 v) AND 3 | SystemSegment v _ \<Rightarrow> ucast (drop_bit 45 v) AND 3)"

definition slots :: "Descriptor \<Rightarrow> nat" where
  "slots d = (case d of UserSegment _ \<Rightarrow> 1 | SystemSegment _ _ \<Rightarrow> 2)"

text \<open>
  \<open>view t\<close> is the table \<open>t\<close> as the descriptors after the null descriptor, in order. A descriptor is
  appended at the next free slot, its selector is the slot's offset with the descriptor's privilege
  level, and the default table has eight slots.
\<close>

definition used :: "Descriptor list \<Rightarrow> nat" where
  "used ds = 1 + sum_list (map slots ds)"

definition selector_of :: "Descriptor list \<Rightarrow> Descriptor \<Rightarrow> SegmentSelector" where
  "selector_of ds d = word_of_nat (8 * used ds) OR dpl d"

definition gdt_law :: "'t x86_gdt \<Rightarrow> ('t \<Rightarrow> Descriptor list) \<Rightarrow> bool" where
  "gdt_law X view \<longleftrightarrow> view (gdt_new X) = []
     \<and> (\<forall>d t. used (view t) + slots d \<le> 8 \<longrightarrow> (\<exists>t'. gdt_append X d t = Some (selector_of (view t) d, t') \<and> view t' = view t @ [d]))
     \<and> (\<exists>v. kernel_code_segment X = UserSegment v \<and> dpl (UserSegment v) = 0)
     \<and> (\<exists>v. kernel_data_segment X = UserSegment v \<and> dpl (UserSegment v) = 0)
     \<and> dpl (UserSegment (user_code32_bits X)) = 3
     \<and> (\<exists>v. user_data_segment X = UserSegment v \<and> dpl (UserSegment v) = 3)
     \<and> (\<exists>v. user_code_segment X = UserSegment v \<and> dpl (UserSegment v) = 3)
     \<and> (\<forall>a. \<exists>v w. tss_segment X a = SystemSegment v w \<and> dpl (SystemSegment v w) = 0)"

text \<open>The two stacks lie where their end is still an address.\<close>

definition stacks_fit :: "'t x86_gdt \<Rightarrow> bool" where
  "stacks_fit X \<longleftrightarrow> virt_add X (static_double_fault_stack X) STACK_SIZE = Some (static_double_fault_stack X + 20480)
     \<and> virt_add X (static_rsp0_stack X) KERNEL_RSP0_STACK_SIZE = Some (static_rsp0_stack X + 20480)"

section \<open>The layout\<close>

definition kernel_selectors :: Selectors where
  "kernel_selectors = \<lparr>code_selector = 0x08, data_selector = 0x10, user_code_32_selector = 0x1B,
     user_data_selector = 0x23, user_code_selector = 0x2B, tss_selector = 0x30\<rparr>"

definition kernel_tss :: "'t x86_gdt \<Rightarrow> TaskStateSegment" where
  "kernel_tss X = \<lparr>privilege_stack_table = [static_rsp0_stack X + 20480, 0, 0],
     interrupt_stack_table = [static_double_fault_stack X + 20480, 0, 0, 0, 0, 0, 0]\<rparr>"

definition descriptors :: "'t x86_gdt \<Rightarrow> Descriptor list" where
  "descriptors X = [kernel_code_segment X, kernel_data_segment X, UserSegment (user_code32_bits X),
     user_data_segment X, user_code_segment X, tss_segment X (static_tss X)]"

lemma force_tss_run:
  assumes "stacks_fit X" "TSS s \<in> {None, Some (kernel_tss X)}"
  shows "force_tss X s = Some (Ok (kernel_tss X), s\<lparr>TSS := Some (kernel_tss X)\<rparr>)"
proof -
  have "make_tss X s = Some (Ok (kernel_tss X), s)"
    using assms(1)
    by (simp add: make_tss_def stacks_fit_def or_panic_def ret_run tss_new_def kernel_tss_def DOUBLE_FAULT_IST_INDEX_def
        numeral_eq_Suc)
  then show ?thesis
    using assms(2) by (auto simp: force_tss_def bindM_gets bindM_Ok bindM_modify ret_run)
qed

lemma append_run:
  assumes "gdt_law X view" "view t = ds" "used ds + slots d \<le> 8"
  shows "\<exists>t'. or_panic (gdt_append X d t) = ret (selector_of ds d, t') \<and> view t' = ds @ [d]"
  using assms unfolding gdt_law_def or_panic_def by (fastforce dest: spec [of _ d])

lemma make_gdt_run:
  assumes law: "gdt_law X view" and fit: "stacks_fit X" and s: "TSS s \<in> {None, Some (kernel_tss X)}"
  shows "\<exists>t. make_gdt X s = Some (Ok (t, kernel_selectors), s\<lparr>TSS := Some (kernel_tss X)\<rparr>) \<and> view t = descriptors X"
proof -
  obtain k1 k2 k4 k5 where K: "kernel_code_segment X = UserSegment k1" "dpl (UserSegment k1) = 0"
    "kernel_data_segment X = UserSegment k2" "dpl (UserSegment k2) = 0"
    "user_data_segment X = UserSegment k4" "dpl (UserSegment k4) = 3"
    "user_code_segment X = UserSegment k5" "dpl (UserSegment k5) = 3"
    "dpl (UserSegment (user_code32_bits X)) = 3"
    using law unfolding gdt_law_def by blast
  obtain v w where T: "tss_segment X (static_tss X) = SystemSegment v w" "dpl (SystemSegment v w) = 0"
    using law unfolding gdt_law_def by blast
  note S = K T slots_def used_def selector_of_def
  have new: "view (gdt_new X) = []" using law by (simp add: gdt_law_def)
  obtain t1 where t1: "or_panic (gdt_append X (kernel_code_segment X) (gdt_new X)) = (ret (0x08, t1) :: ('a, _) seg)"
    "view t1 = [kernel_code_segment X]"
    using append_run [OF law new, of "kernel_code_segment X"] by (auto simp: S)
  obtain t2 where t2: "or_panic (gdt_append X (kernel_data_segment X) t1) = (ret (0x10, t2) :: ('a, _) seg)"
    "view t2 = [kernel_code_segment X, kernel_data_segment X]"
    using append_run [OF law t1(2), of "kernel_data_segment X"] by (auto simp: S)
  obtain t3 where t3: "or_panic (gdt_append X (UserSegment (user_code32_bits X)) t2) = (ret (0x1B, t3) :: ('a, _) seg)"
    "view t3 = [kernel_code_segment X, kernel_data_segment X, UserSegment (user_code32_bits X)]"
    using append_run [OF law t2(2), of "UserSegment (user_code32_bits X)"] by (auto simp: S)
  obtain t4 where t4: "or_panic (gdt_append X (user_data_segment X) t3) = (ret (0x23, t4) :: ('a, _) seg)"
    "view t4 = [kernel_code_segment X, kernel_data_segment X, UserSegment (user_code32_bits X), user_data_segment X]"
    using append_run [OF law t3(2), of "user_data_segment X"] by (auto simp: S)
  obtain t5 where t5: "or_panic (gdt_append X (user_code_segment X) t4) = (ret (0x2B, t5) :: ('a, _) seg)"
    "view t5 = [kernel_code_segment X, kernel_data_segment X, UserSegment (user_code32_bits X), user_data_segment X,
       user_code_segment X]"
    using append_run [OF law t4(2), of "user_code_segment X"] by (auto simp: S)
  obtain t6 where t6: "or_panic (gdt_append X (tss_segment X (static_tss X)) t5) = (ret (0x30, t6) :: ('a, _) seg)"
    "view t6 = descriptors X"
    using append_run [OF law t5(2), of "tss_segment X (static_tss X)"] by (auto simp: S descriptors_def)
  have "make_gdt X s = Some (Ok (t6, kernel_selectors), s\<lparr>TSS := Some (kernel_tss X)\<rparr>)"
    by (simp add: make_gdt_def t1 t2 t3 t4 t5 bindM_Ok force_tss_run [OF fit s] t6 ret_run kernel_selectors_def)
  with t6 show ?thesis by blast
qed

text \<open>The state of the statics before and after the first access.\<close>

definition seg_ok :: "'t x86_gdt \<Rightarrow> ('t \<Rightarrow> Descriptor list) \<Rightarrow> 't segmentation \<Rightarrow> bool" where
  "seg_ok X view s \<longleftrightarrow> TSS s = None \<and> GDT s = None
     \<or> TSS s = Some (kernel_tss X) \<and> (\<exists>t. GDT s = Some (t, kernel_selectors) \<and> view t = descriptors X)"

text \<open>No \<open>init\<close> has run yet; the selectors may have been looked at.\<close>

definition seg_fresh :: "'t x86_gdt \<Rightarrow> ('t \<Rightarrow> Descriptor list) \<Rightarrow> 't segmentation \<Rightarrow> bool" where
  "seg_fresh X view s \<longleftrightarrow> seg_ok X view s \<and> \<not> tss_busy s"

lemma force_gdt_run:
  assumes "gdt_law X view" "stacks_fit X" "seg_ok X view s"
  shows "\<exists>t. force_gdt X s = Some (Ok (t, kernel_selectors), s\<lparr>TSS := Some (kernel_tss X), GDT := Some (t, kernel_selectors)\<rparr>)
    \<and> view t = descriptors X"
proof (cases "GDT s")
  case None
  then have "TSS s \<in> {None, Some (kernel_tss X)}" using assms(3) by (auto simp: seg_ok_def)
  from make_gdt_run [OF assms(1,2) this] None show ?thesis
    by (auto simp: force_gdt_def bindM_gets bindM_Ok bindM_modify ret_run)
next
  case (Some p)
  then obtain t where "GDT s = Some (t, kernel_selectors)" "TSS s = Some (kernel_tss X)" "view t = descriptors X"
    using assms(3) by (auto simp: seg_ok_def)
  then show ?thesis by (intro exI [of _ t]) (simp add: force_gdt_def bindM_gets ret_run)
qed

lemma gdt_init_run:
  assumes "gdt_law X view" "stacks_fit X" "seg_fresh X view s"
  shows "\<exists>t. gdt_init X s = Some (Ok (), s\<lparr>TSS := Some (kernel_tss X), GDT := Some (t, kernel_selectors), gdtr := Some t,
      regs := \<lparr>cs_reg = 0x08, ss_reg = 0x10, ds_reg = 0x10, es_reg = 0x10, fs_reg = 0x10, gs_reg = 0x10, tr_reg = 0x30\<rparr>, tss_busy := True\<rparr>)
    \<and> view t = descriptors X"
proof -
  have s: "seg_ok X view s" "\<not> tss_busy s" using assms(3) by (simp_all add: seg_fresh_def)
  from force_gdt_run [OF assms(1,2) s(1)] obtain t where
    "force_gdt X s = Some (Ok (t, kernel_selectors), s\<lparr>TSS := Some (kernel_tss X), GDT := Some (t, kernel_selectors)\<rparr>)"
    "view t = descriptors X" by blast
  with s(2) show ?thesis
    by (intro exI [of _ t])
      (simp add: gdt_init_def set_reg_def load_tss_def bindM_Ok bindM_modify bindM_gets modify_run kernel_selectors_def)
qed

text \<open>
  C28: the first \<open>gdt::init\<close> does not panic, whether or not the selectors were looked at before: the default table has exactly
  the room the six descriptors need. After
  it every segment register holds a selector of this table - code in CS, kernel data in SS, DS, ES,
  FS and GS, the task state segment in TR - and the double-fault and ring 0 stacks start at the ends
  of their 20 KiB. Its task state segment is busy from then on: a second \<open>init\<close> reloads the other registers with the
  values they have and faults at \<open>load_tss\<close>.
\<close>

theorem gdt_init_loads:
  assumes "gdt_law X view" "stacks_fit X" "seg_fresh X view s"
  shows "\<exists>s'. gdt_init X s = Some (Ok (), s') \<and> seg_ok X view s' \<and> tss_busy s' \<and> gdt_init X s' = Some (Panic Fault, s')
    \<and> map_option view (gdtr s') = Some (descriptors X) \<and> used (descriptors X) = 8
    \<and> cs_reg (regs s') = selector_of [] (kernel_code_segment X)
    \<and> (\<forall>r\<in>{ss_reg, ds_reg, es_reg, fs_reg, gs_reg}. r (regs s') = selector_of [kernel_code_segment X] (kernel_data_segment X))
    \<and> tr_reg (regs s') = selector_of (butlast (descriptors X)) (tss_segment X (static_tss X))
    \<and> TSS s' = Some \<lparr>privilege_stack_table = [static_rsp0_stack X + 20480, 0, 0],
        interrupt_stack_table = [static_double_fault_stack X + 20480, 0, 0, 0, 0, 0, 0]\<rparr>"
proof -
  from gdt_init_run [OF assms] obtain t where t: "gdt_init X s = Some (Ok (), s\<lparr>TSS := Some (kernel_tss X),
      GDT := Some (t, kernel_selectors), gdtr := Some t,
      regs := \<lparr>cs_reg = 0x08, ss_reg = 0x10, ds_reg = 0x10, es_reg = 0x10, fs_reg = 0x10, gs_reg = 0x10, tr_reg = 0x30\<rparr>, tss_busy := True\<rparr>)"
      (is "_ = Some (_, ?s)") "view t = descriptors X" by blast
  have "force_gdt X ?s = Some (Ok (t, kernel_selectors), ?s)" by (simp add: force_gdt_def bindM_gets ret_run)
  then have again: "gdt_init X ?s = Some (Panic Fault, ?s)"
    by (simp add: gdt_init_def set_reg_def load_tss_def bindM_Ok bindM_modify bindM_gets panic_run kernel_selectors_def)
  have ok: "seg_ok X view ?s" using t(2) by (simp add: seg_ok_def)
  obtain k1 k2 k4 k5 where K: "kernel_code_segment X = UserSegment k1" "dpl (UserSegment k1) = 0"
    "kernel_data_segment X = UserSegment k2" "dpl (UserSegment k2) = 0"
    "user_data_segment X = UserSegment k4" "user_code_segment X = UserSegment k5"
    using assms(1) unfolding gdt_law_def by blast
  obtain v w where T: "tss_segment X (static_tss X) = SystemSegment v w" "dpl (SystemSegment v w) = 0"
    using assms(1) unfolding gdt_law_def by blast
  show ?thesis
    using t again ok
    by (intro exI [of _ ?s]) (simp add: kernel_tss_def descriptors_def used_def slots_def selector_of_def K T)
qed

text \<open>
  The selectors satisfy the addressing of the SYSCALL and SYSRET instructions: with the kernel
  code selector as the SYSCALL base and the 32-bit user code selector as the SYSRET base, the stack
  segments the processor computes (base + 8) and the 64-bit user code segment (base + 16) are the
  selectors of the descriptors meant for them, at ring 0 and ring 3.
\<close>

theorem syscall_layout:
  assumes "gdt_law X view" "stacks_fit X" "seg_ok X view s"
  shows "\<exists>sel s'. selectors X s = Some (Ok sel, s')
    \<and> code_selector sel AND 3 = 0 \<and> data_selector sel = code_selector sel + 8
    \<and> user_data_selector sel = (user_code_32_selector sel + 8) OR 3
    \<and> user_code_selector sel = (user_code_32_selector sel + 16) OR 3
    \<and> tss_selector sel AND 3 = 0"
proof -
  from force_gdt_run [OF assms] obtain t where
    "force_gdt X s = Some (Ok (t, kernel_selectors), s\<lparr>TSS := Some (kernel_tss X), GDT := Some (t, kernel_selectors)\<rparr>)" by blast
  then have "selectors X s = Some (Ok kernel_selectors, s\<lparr>TSS := Some (kernel_tss X), GDT := Some (t, kernel_selectors)\<rparr>)"
    by (simp add: selectors_def bindM_Ok ret_run)
  then show ?thesis
    by (intro exI [of _ kernel_selectors] exI conjI, assumption) (simp_all add: kernel_selectors_def)
qed

section \<open>An instance\<close>

text \<open>The table as a list, with the descriptor constants of the processor manual.\<close>

definition list_gdt :: "Descriptor list x86_gdt" where
  "list_gdt = \<lparr>kernel_code_segment = UserSegment 0x00af9b000000ffff, kernel_data_segment = UserSegment 0x00cf93000000ffff,
     user_code32_bits = 0x00cffb000000ffff, user_data_segment = UserSegment 0x00cff3000000ffff,
     user_code_segment = UserSegment 0x00affb000000ffff, tss_segment = (\<lambda>a. SystemSegment 0x0000890000000067 a),
     gdt_new = [], gdt_append = (\<lambda>d ds. if used ds + slots d \<le> 8 then Some (selector_of ds d, ds @ [d]) else None),
     virt_add = (\<lambda>a n. Some (a + n)), static_double_fault_stack = 0x201000, static_rsp0_stack = 0x207000,
     static_tss = 0x200000\<rparr>"

lemma list_gdt_ok: "gdt_law list_gdt id" "stacks_fit list_gdt"
  by (simp_all add: gdt_law_def stacks_fit_def list_gdt_def dpl_def STACK_SIZE_def KERNEL_RSP0_STACK_SIZE_def)

definition boot_seg :: "Descriptor list segmentation" where
  "boot_seg = \<lparr>TSS = None, GDT = None, gdtr = None, regs = \<lparr>cs_reg = 0x08, ss_reg = 0, ds_reg = 0, es_reg = 0, fs_reg = 0, gs_reg = 0, tr_reg = 0\<rparr>, tss_busy = False\<rparr>"

lemma boot_seg_ok: "seg_ok X view boot_seg" "seg_fresh X view boot_seg"
  by (simp_all add: seg_ok_def seg_fresh_def boot_seg_def)

theorem gdt_init_loads_witness:
  "\<exists>s'. gdt_init list_gdt boot_seg = Some (Ok (), s') \<and> cs_reg (regs s') = 8 \<and> tr_reg (regs s') = 48
     \<and> gdt_init list_gdt s' = Some (Panic Fault, s')"
proof -
  have sel: "selector_of [] (kernel_code_segment list_gdt) = 8"
    "selector_of (butlast (descriptors list_gdt)) (tss_segment list_gdt (static_tss list_gdt)) = 48"
    by code_simp+
  from gdt_init_loads [OF list_gdt_ok boot_seg_ok(2), unfolded sel] show ?thesis by blast
qed

theorem syscall_layout_witness:
  "\<exists>sel s'. selectors list_gdt boot_seg = Some (Ok sel, s') \<and> user_code_selector sel = (user_code_32_selector sel + 16) OR 3"
  using syscall_layout [OF list_gdt_ok boot_seg_ok(1)] by blast

end
