(* ===== verification/Interrupts.thy ===== *)
theory Interrupts
  imports Vfs Keyboard Gdt
begin

unbundle bit_operations_syntax

text \<open>
  The interrupt table and the exception handlers of \<^verbatim>\<open>kernel/src/interrupts.rs\<close>, with \<open>exit_qemu\<close> of
  \<^verbatim>\<open>kernel/src/lib.rs\<close> and the panic handler of \<^verbatim>\<open>kernel/src/main.rs\<close>. A handler either returns to a
  frame with \<open>iretq\<close>, or ends in a loop or a hook that never returns: the \<open>continuation\<close>. The timer and
  keyboard handlers are in \<open>Keyboard\<close>.

  Shown: what each kind of page fault does, that a fault fixup resumes at most one fault, and how
  the gates of the table fit the task state segment and the interrupt controller.
\<close>

section \<open>Leaving the machine\<close>

datatype QemuExitCode = Success | Failed

definition exit_code :: "QemuExitCode \<Rightarrow> u32" where
  "exit_code c = (case c of Success \<Rightarrow> 0x10 | Failed \<Rightarrow> 0x11)"

record InterruptStackFrame =
  instruction_pointer :: u64
  code_segment :: u16
  cpu_flags :: u64
  stack_pointer :: u64
  stack_segment :: u16

datatype 'h continuation =
    Iret InterruptStackFrame
  | HltLoop
  | NopLoop
  | Hook 'h InterruptStackFrame

text \<open>The registers and statics the handlers use; \<open>exit_port\<close> records the writes to port 0xF4.\<close>

record ('d, 'p, 'h) faults =
  devices :: "('d, 'p) globals"
  cr2 :: u64
  EXPECTED_FAULT_FIXUP :: u64
  BP_HOOK :: "'h option"
  exit_port :: "u32 list"

text \<open>
  What the handlers take from libraries: whether \<open>VirtAddr::new\<close> accepts an address, how a page-fault
  error code prints, and the text of a panic.
\<close>

record fault_env =
  virt_addr_ok :: "u64 \<Rightarrow> bool"
  show_error_code :: "u64 \<Rightarrow> string"
  panic_info :: string

definition exit_qemu :: "QemuExitCode \<Rightarrow> ('d, 'p, 'h) faults \<Rightarrow> 'h continuation \<times> ('d, 'p, 'h) faults" where
  "exit_qemu code s = (NopLoop, s\<lparr>exit_port := exit_port s @ [exit_code code]\<rparr>)"

definition log_line :: "('d, 'p) hardware \<Rightarrow> string \<Rightarrow> ('d, 'p, 'h) faults \<Rightarrow> ('d, 'p, 'h) faults" where
  "log_line H t s = s\<lparr>devices := serial_send H (as_bytes (t @ [CHR 0x0A])) (devices s)\<rparr>"

definition panic_handler ::
    "('d, 'p) hardware \<Rightarrow> fault_env \<Rightarrow> ('d, 'p, 'h) faults \<Rightarrow> 'h continuation \<times> ('d, 'p, 'h) faults" where
  "panic_handler H E s = exit_qemu Failed (log_line H (''PANIC: '' @ panic_info E) s)"

text \<open>\<open>{:#x}\<close> of an unsigned integer.\<close>

definition hex_digit :: "nat \<Rightarrow> char" where
  "hex_digit n = char_of (if n < 10 then 48 + n else 87 + n)"

fun hex_digits :: "nat \<Rightarrow> string" where
  "hex_digits n = (if n < 16 then [hex_digit n] else hex_digits (n div 16) @ [hex_digit (n mod 16)])"

declare hex_digits.simps [simp del]

definition show_hex :: "nat \<Rightarrow> string" where
  "show_hex n = ''0x'' @ hex_digits n"

section \<open>The handlers\<close>

definition breakpoint_handler ::
    "('d, 'p) hardware \<Rightarrow> InterruptStackFrame \<Rightarrow> ('d, 'p, 'h) faults \<Rightarrow> 'h continuation \<times> ('d, 'p, 'h) faults" where
  "breakpoint_handler H frame s = (case BP_HOOK s of
     Some h \<Rightarrow> (Hook h frame, s)
   | None \<Rightarrow> (Iret frame, log_line H ''EXCEPTION: BREAKPOINT (rip recorded in interrupt frame)'' s))"

definition double_fault_handler :: "('d, 'p) hardware \<Rightarrow> ('d, 'p, 'h) faults \<Rightarrow> 'h continuation \<times> ('d, 'p, 'h) faults" where
  "double_fault_handler H s = exit_qemu Failed (log_line H ''EXCEPTION: DOUBLE FAULT'' s)"

definition fault_text :: "fault_env \<Rightarrow> string \<Rightarrow> InterruptStackFrame \<Rightarrow> u64 \<Rightarrow> u64 \<Rightarrow> string" where
  "fault_text E who frame addr err = who @ '' #PF: cr2='' @ show_hex (unat addr) @ '' err='' @ show_error_code E err
     @ '' rip='' @ show_hex (unat (instruction_pointer frame))"

definition page_fault_handler ::
    "('d, 'p) hardware \<Rightarrow> fault_env \<Rightarrow> InterruptStackFrame \<Rightarrow> u64 \<Rightarrow> ('d, 'p, 'h) faults
       \<Rightarrow> 'h continuation \<times> ('d, 'p, 'h) faults" where
  "page_fault_handler H E frame err s =
     (let addr = cr2 s; from_user = (code_segment frame AND 3 = 3)
      in if from_user then (HltLoop, log_line H (fault_text E ''USER'' frame addr err) s)
         else
           (let fixup = EXPECTED_FAULT_FIXUP s; s = s\<lparr>EXPECTED_FAULT_FIXUP := 0\<rparr>
            in if fixup \<noteq> 0
               then if virt_addr_ok E fixup then (Iret (frame\<lparr>instruction_pointer := fixup\<rparr>), s)
                    else panic_handler H E s
               else exit_qemu Failed (log_line H (fault_text E ''KERNEL'' frame addr err) s)))"

definition gp_handler ::
    "('d, 'p) hardware \<Rightarrow> InterruptStackFrame \<Rightarrow> u64 \<Rightarrow> ('d, 'p, 'h) faults \<Rightarrow> 'h continuation \<times> ('d, 'p, 'h) faults" where
  "gp_handler H frame err s = exit_qemu Failed (log_line H (''EXCEPTION: #GP err='' @ show_hex (unat err)
     @ '' cs='' @ show_hex (unat (code_segment frame)) @ '' rip='' @ show_hex (unat (instruction_pointer frame))) s)"

definition ud_handler ::
    "('d, 'p) hardware \<Rightarrow> InterruptStackFrame \<Rightarrow> ('d, 'p, 'h) faults \<Rightarrow> 'h continuation \<times> ('d, 'p, 'h) faults" where
  "ud_handler H frame s = exit_qemu Failed (log_line H (''EXCEPTION: #UD cs='' @ show_hex (unat (code_segment frame))
     @ '' rip='' @ show_hex (unat (instruction_pointer frame))) s)"

section \<open>The table\<close>

datatype handler =
    BreakpointHandler | DoubleFaultHandler | PageFaultHandler | GpHandler | UdHandler | TimerHandler | KeyboardHandler

text \<open>A gate: its handler, the privilege from which software may raise it, and the stack it switches to.\<close>

record idt_entry =
  gate_handler :: handler
  gate_dpl :: nat
  gate_ist :: "nat option"

definition gate :: "handler \<Rightarrow> idt_entry" where
  "gate h = \<lparr>gate_handler = h, gate_dpl = 0, gate_ist = None\<rparr>"

text \<open>The vectors of the named exceptions are those of the processor.\<close>

definition IDT :: "u8 \<Rightarrow> idt_entry option" where
  "IDT = Map.empty(3 \<mapsto> (gate BreakpointHandler)\<lparr>gate_dpl := 3\<rparr>,
     8 \<mapsto> (gate DoubleFaultHandler)\<lparr>gate_ist := Some DOUBLE_FAULT_IST_INDEX\<rparr>,
     14 \<mapsto> gate PageFaultHandler, 13 \<mapsto> gate GpHandler, 6 \<mapsto> gate UdHandler,
     irq_as_u8 Timer \<mapsto> gate TimerHandler, irq_as_u8 KeyboardIrq \<mapsto> gate KeyboardHandler)"

text \<open>The handler of a processor exception, by its gate. The processor pushes \<open>err\<close> where it defines one.\<close>

definition exception ::
    "('d, 'p) hardware \<Rightarrow> fault_env \<Rightarrow> u8 \<Rightarrow> InterruptStackFrame \<Rightarrow> u64 \<Rightarrow> ('d, 'p, 'h) faults
       \<Rightarrow> ('h continuation \<times> ('d, 'p, 'h) faults) option" where
  "exception H E vector frame err s = Option.bind (IDT vector) (\<lambda>g. case gate_handler g of
     BreakpointHandler \<Rightarrow> Some (breakpoint_handler H frame s)
   | DoubleFaultHandler \<Rightarrow> Some (double_fault_handler H s)
   | PageFaultHandler \<Rightarrow> Some (page_fault_handler H E frame err s)
   | GpHandler \<Rightarrow> Some (gp_handler H frame err s)
   | UdHandler \<Rightarrow> Some (ud_handler H frame s)
   | TimerHandler \<Rightarrow> None
   | KeyboardHandler \<Rightarrow> None)"

section \<open>Page faults\<close>

definition from_user :: "InterruptStackFrame \<Rightarrow> bool" where
  "from_user frame \<longleftrightarrow> code_segment frame AND 3 = 3"

lemma log_line_simps [simp]:
  "EXPECTED_FAULT_FIXUP (log_line H t s) = EXPECTED_FAULT_FIXUP s" "exit_port (log_line H t s) = exit_port s"
  "BP_HOOK (log_line H t s) = BP_HOOK s" "cr2 (log_line H t s) = cr2 s"
  by (simp_all add: log_line_def)

text \<open>
  C26: the three ways a page fault ends. From user mode the machine halts, with the fixup untouched and
  no exit requested. From the kernel with a fixup armed that is an address, it resumes the
  interrupted code at the fixup and nowhere else, every other register of the frame unchanged,
  prints nothing and disarms the fixup. Any other kernel fault exits the machine with failure; the
  kernel never resumes at the faulting instruction.
\<close>

theorem page_fault_contract:
  fixes s :: "('d, 'p, 'h) faults"
  assumes "page_fault_handler H E frame err s = (k, s')"
  shows "case k of
      HltLoop \<Rightarrow> from_user frame \<and> EXPECTED_FAULT_FIXUP s' = EXPECTED_FAULT_FIXUP s \<and> exit_port s' = exit_port s
    | Iret frame' \<Rightarrow> \<not> from_user frame \<and> EXPECTED_FAULT_FIXUP s \<noteq> 0 \<and> virt_addr_ok E (EXPECTED_FAULT_FIXUP s)
        \<and> frame' = frame\<lparr>instruction_pointer := EXPECTED_FAULT_FIXUP s\<rparr> \<and> s' = s\<lparr>EXPECTED_FAULT_FIXUP := 0\<rparr>
    | NopLoop \<Rightarrow> \<not> from_user frame \<and> EXPECTED_FAULT_FIXUP s' = 0 \<and> exit_port s' = exit_port s @ [0x11]
        \<and> (EXPECTED_FAULT_FIXUP s \<noteq> 0 \<longrightarrow> \<not> virt_addr_ok E (EXPECTED_FAULT_FIXUP s))
    | Hook _ _ \<Rightarrow> False"
  using assms
  by (auto simp: page_fault_handler_def Let_def from_user_def panic_handler_def exit_qemu_def exit_code_def split: if_splits)

text \<open>A series of faults, as long as the handler returns.\<close>

fun fault_series ::
    "('d, 'p) hardware \<Rightarrow> fault_env \<Rightarrow> (InterruptStackFrame \<times> u64) list \<Rightarrow> ('d, 'p, 'h) faults
       \<Rightarrow> InterruptStackFrame list \<times> 'h continuation option \<times> ('d, 'p, 'h) faults" where
  "fault_series H E [] s = ([], None, s)"
| "fault_series H E ((frame, err) # rest) s = (case page_fault_handler H E frame err s of
     (Iret frame', s') \<Rightarrow> (case fault_series H E rest s' of (resumed, k, s'') \<Rightarrow> (frame' # resumed, k, s''))
   | (k, s') \<Rightarrow> ([], Some k, s'))"

lemma kernel_fault_unarmed:
  assumes "\<not> from_user frame" "EXPECTED_FAULT_FIXUP s = 0"
  shows "\<exists>s'. page_fault_handler H E frame err s = (NopLoop, s') \<and> exit_port s' = exit_port s @ [0x11]"
  using assms by (auto simp: page_fault_handler_def Let_def from_user_def exit_qemu_def exit_code_def)

text \<open>
  C27: an armed fixup serves one fault: of a series of kernel page faults between which nobody arms a
  new fixup, at most the first resumes, and it resumes at the fixup; the next one ends the machine
  with exactly one failure code.
\<close>

theorem fixup_used_once:
  assumes "\<forall>(frame, err)\<in>set (f0 # f1 # rest). \<not> from_user frame"
    and "fault_series H E (f0 # f1 # rest) s = (resumed, k, s')"
  shows "k = Some NopLoop \<and> exit_port s' = exit_port s @ [0x11] \<and> EXPECTED_FAULT_FIXUP s' = 0
    \<and> resumed \<in> {[], [(fst f0)\<lparr>instruction_pointer := EXPECTED_FAULT_FIXUP s\<rparr>]}"
proof -
  obtain a ea b eb where f: "f0 = (a, ea)" "f1 = (b, eb)" by (cases f0, cases f1)
  with assms(1) have nu: "\<not> from_user a" "\<not> from_user b" by auto
  let ?armed = "EXPECTED_FAULT_FIXUP s \<noteq> 0 \<and> virt_addr_ok E (EXPECTED_FAULT_FIXUP s)"
  show ?thesis
  proof (cases ?armed)
    case True
    let ?s1 = "s\<lparr>EXPECTED_FAULT_FIXUP := 0\<rparr>"
    have one: "page_fault_handler H E a ea s = (Iret (a\<lparr>instruction_pointer := EXPECTED_FAULT_FIXUP s\<rparr>), ?s1)"
      using True nu(1) by (simp add: page_fault_handler_def Let_def from_user_def)
    then show ?thesis
      using assms(2) nu(2) by (auto simp: f page_fault_handler_def Let_def from_user_def exit_qemu_def exit_code_def)
  next
    case False
    then show ?thesis
      using assms(2) nu(1)
      by (auto simp: f page_fault_handler_def Let_def from_user_def exit_qemu_def exit_code_def panic_handler_def split: if_splits)
  qed
qed

text \<open>
  The gates. Only the breakpoint gate may be raised from user mode; the double fault, and only
  it, switches to a stack of the interrupt stack table, the one whose slot \<open>gdt::init\<close> fills; the
  hardware interrupts use the first two vectors of the remapped controller, above the 32 vectors of
  the processor; and a breakpoint without a hook returns to the interrupted code unchanged.
\<close>

theorem idt_gates:
  "(\<forall>v g. IDT v = Some g \<longrightarrow> (gate_dpl g = 3 \<longleftrightarrow> v = 3) \<and> (gate_ist g \<noteq> None \<longleftrightarrow> v = 8)
      \<and> (gate_handler g \<in> {TimerHandler, KeyboardHandler} \<longleftrightarrow> 32 \<le> v))
   \<and> map_option (\<lambda>g. map_option (\<lambda>i. interrupt_stack_table (kernel_tss X) ! i) (gate_ist g)) (IDT 8)
       = Some (Some (static_double_fault_stack X + STACK_SIZE))
   \<and> (BP_HOOK s = None \<longrightarrow> map_option fst (exception H E 3 frame err s) = Some (Iret frame))"
  by (auto simp: IDT_def gate_def irq_as_u8_def PIC_1_OFFSET_def kernel_tss_def DOUBLE_FAULT_IST_INDEX_def STACK_SIZE_def
      exception_def breakpoint_handler_def split: if_splits)

section \<open>Instances\<close>

definition demo_env :: fault_env where
  "demo_env = \<lparr>virt_addr_ok = (\<lambda>a. a < 2 ^ 47), show_error_code = (\<lambda>_. ''PageFaultErrorCode(0x0)''), panic_info = ''panicked''\<rparr>"

definition demo_frame :: InterruptStackFrame where
  "demo_frame = \<lparr>instruction_pointer = 0x1000, code_segment = 8, cpu_flags = 2, stack_pointer = 0x2000, stack_segment = 16\<rparr>"

definition armed_cpu :: "(u8 list list, u8 list, unit) faults" where
  "armed_cpu = \<lparr>devices = demo_globals, cr2 = 0xDEAD, EXPECTED_FAULT_FIXUP = 0x4242, BP_HOOK = None, exit_port = []\<rparr>"

lemma armed_fault: "page_fault_handler demo_hardware demo_env demo_frame 0 armed_cpu
  = (Iret (demo_frame\<lparr>instruction_pointer := 0x4242\<rparr>), armed_cpu\<lparr>EXPECTED_FAULT_FIXUP := 0\<rparr>)"
  by (simp add: page_fault_handler_def Let_def demo_frame_def armed_cpu_def demo_env_def)

lemma armed_fixup: "EXPECTED_FAULT_FIXUP armed_cpu = 0x4242"
  by (simp add: armed_cpu_def)

theorem page_fault_contract_witness:
  "\<exists>f s'. page_fault_handler demo_hardware demo_env demo_frame 0 armed_cpu = (Iret f, s') \<and> instruction_pointer f = 0x4242
     \<and> EXPECTED_FAULT_FIXUP s' = 0"
  using page_fault_contract [OF armed_fault] by (auto simp: armed_fault armed_fixup)

theorem idt_gates_witness:
  "IDT 3 = Some ((gate BreakpointHandler)\<lparr>gate_dpl := 3\<rparr>) \<and> gate_dpl (the (IDT 3)) = 3
     \<and> map_option fst (exception demo_hardware demo_env 3 demo_frame 0 armed_cpu) = Some (Iret demo_frame)"
  using idt_gates [of list_gdt armed_cpu demo_hardware demo_env demo_frame 0]
  by (auto simp: armed_cpu_def IDT_def irq_as_u8_def PIC_1_OFFSET_def)

theorem fixup_used_once_witness:
  "\<exists>rs s'. fault_series demo_hardware demo_env [(demo_frame, 0), (demo_frame, 2)] armed_cpu = (rs, Some NopLoop, s')
     \<and> exit_port s' = [0x11] \<and> EXPECTED_FAULT_FIXUP s' = 0"
proof -
  obtain rs k s' where run: "fault_series demo_hardware demo_env [(demo_frame, 0), (demo_frame, 2)] armed_cpu = (rs, k, s')"
    by (cases "fault_series demo_hardware demo_env [(demo_frame, 0), (demo_frame, 2)] armed_cpu") auto
  have "exit_port armed_cpu = []" by (simp add: armed_cpu_def)
  moreover have "\<forall>(frame, err)\<in>set [(demo_frame, 0 :: u64), (demo_frame, 2)]. \<not> from_user frame"
    by (simp add: from_user_def demo_frame_def)
  ultimately show ?thesis using fixup_used_once [OF _ run] run by simp
qed

end
