(* ===== verification/Memory.thy ===== *)
theory Memory
  imports Prelude
begin

text \<open>
  Physical frames and the kernel heap: \<open>BootInfoFrameAllocator\<close> of \<^verbatim>\<open>kernel/src/memory.rs\<close> and
  \<open>init_heap\<close> of \<^verbatim>\<open>kernel/src/allocator.rs\<close>. What they call of the \<open>x86_64\<close> crate (frames and pages of
  an address, \<open>Mapper::map_to\<close>) is a parameter; \<open>frames_law\<close>, \<open>pages_law\<close> and \<open>maps_pages\<close> state what the
  crate documents of it. A page is its number, the address divided by 4096.

  Shown: successive allocations hand out pairwise different usable frames, in the order of the
  memory map, and then nothing; and the heap initialisation maps exactly the 64 pages of the heap to
  frames no other page of the heap or page table uses, or reports the error of the mapper.
\<close>

section \<open>The frame allocator\<close>

datatype MemoryRegionKind = Usable | OtherKind nat

record MemoryRegion =
  region_start :: u64
  region_end :: u64
  region_kind :: MemoryRegionKind

record BootInfoFrameAllocator =
  memory_regions :: "MemoryRegion list"
  next_frame :: nat

definition frame_allocator_new :: "MemoryRegion list \<Rightarrow> BootInfoFrameAllocator" where
  "frame_allocator_new rs = \<lparr>memory_regions = rs, next_frame = 0\<rparr>"

text \<open>\<open>(start..end).step_by(4096)\<close>\<close>

definition region_addrs :: "MemoryRegion \<Rightarrow> nat list" where
  "region_addrs r =
     map (\<lambda>i. unat (region_start r) + i * 4096)
       [0..<(unat (region_end r) - unat (region_start r) + 4095) div 4096]"

definition usable_addrs :: "MemoryRegion list \<Rightarrow> nat list" where
  "usable_addrs rs = concat (map region_addrs (filter (\<lambda>r. region_kind r = Usable) rs))"

text \<open>
  \<open>frame_at\<close> is \<open>PhysFrame::containing_address(PhysAddr::new(addr))\<close>, \<open>None\<close> when it panics;
  \<open>usable_frames().nth(next)\<close> evaluates it on every address up to the one it returns.
\<close>

definition allocate_frame :: "(nat \<Rightarrow> 'f option) \<Rightarrow> (BootInfoFrameAllocator, 'e, 'f option) io" where
  "allocate_frame frame_at a =
     (let fs = map frame_at (usable_addrs (memory_regions a)); n = next_frame a
      in if None \<in> set (take (Suc n) fs) then Some (Panic Fault, a)
         else Some (Ok (if n < length fs then fs ! n else None), a\<lparr>next_frame := n + 1\<rparr>))"

section \<open>The heap\<close>

definition HEAP_START :: nat where
  "HEAP_START = 0x444444440000"

definition HEAP_SIZE :: nat where
  "HEAP_SIZE = 256 * 1024"

datatype MapToError = FrameAllocationFailed | ParentEntryHugePage | PageAlreadyMapped

text \<open>The page tables and the allocator they take their frames from, and the global heap once it is set up.\<close>

record 'm paging =
  mapper :: 'm
  frames :: BootInfoFrameAllocator
  heap :: "(nat \<times> nat) option"

type_synonym ('m, 'a) vm = "('m paging, MapToError, 'a) io"

text \<open>
  The crate: \<open>frame_at\<close> as above, \<open>pages_between\<close> the pages \<open>Page::range_inclusive\<close> yields from the page
  of one virtual address to that of another, \<open>map_to\<close> mapping a page to a frame with a TLB flush.
\<close>

record ('m, 'f) x86_paging =
  frame_at :: "nat \<Rightarrow> 'f option"
  pages_between :: "nat \<Rightarrow> nat \<Rightarrow> nat list"
  map_to :: "nat \<Rightarrow> 'f \<Rightarrow> ('m, unit) vm"

definition frame_or_fail :: "('m, 'f) x86_paging \<Rightarrow> ('m, 'f) vm" where
  "frame_or_fail X = bindM (on_part frames (\<lambda>a s. s\<lparr>frames := a\<rparr>) (allocate_frame (frame_at X)))
     (\<lambda>f. case f of None \<Rightarrow> fail FrameAllocationFailed | Some x \<Rightarrow> ret x)"

definition heap_page :: "('m, 'f) x86_paging \<Rightarrow> nat \<Rightarrow> ('m, unit) vm" where
  "heap_page X page = bindM (frame_or_fail X) (\<lambda>frame. map_to X page frame)"

definition init_heap :: "('m, 'f) x86_paging \<Rightarrow> ('m, unit) vm" where
  "init_heap X =
     bindM (foldM (\<lambda>page _. heap_page X page) (pages_between X HEAP_START (HEAP_START + (HEAP_SIZE - 1))) ()) (\<lambda>_.
     modify (\<lambda>s. s\<lparr>heap := Some (HEAP_START, HEAP_SIZE)\<rparr>))"

section \<open>Usable frames\<close>

text \<open>What the boot loader promises of the memory map: usable regions are page aligned, below 2^52, and disjoint.\<close>

definition region_ok :: "MemoryRegion \<Rightarrow> bool" where
  "region_ok r \<longleftrightarrow> unat (region_start r) mod 4096 = 0 \<and> unat (region_end r) mod 4096 = 0
     \<and> unat (region_start r) \<le> unat (region_end r) \<and> unat (region_end r) \<le> 2 ^ 52"

definition region_disjoint :: "MemoryRegion \<Rightarrow> MemoryRegion \<Rightarrow> bool" where
  "region_disjoint r q \<longleftrightarrow> unat (region_end r) \<le> unat (region_start q) \<or> unat (region_end q) \<le> unat (region_start r)"

definition map_ok :: "MemoryRegion list \<Rightarrow> bool" where
  "map_ok rs \<longleftrightarrow> list_all region_ok (filter (\<lambda>r. region_kind r = Usable) rs)
     \<and> sorted_wrt region_disjoint (filter (\<lambda>r. region_kind r = Usable) rs)"

text \<open>Documented of frames: every address below 2^52 has one, and two addresses share it iff they are in the same 4 KiB.\<close>

definition frames_law :: "(nat \<Rightarrow> 'f option) \<Rightarrow> bool" where
  "frames_law F \<longleftrightarrow> (\<forall>a<2 ^ 52. F a \<noteq> None) \<and> (\<forall>a<2 ^ 52. \<forall>b<2 ^ 52. F a = F b \<longrightarrow> a div 4096 = b div 4096)"

definition usable_frames :: "(nat \<Rightarrow> 'f option) \<Rightarrow> MemoryRegion list \<Rightarrow> 'f list" where
  "usable_frames F rs = map (\<lambda>a. the (F a)) (usable_addrs rs)"

lemma region_addr:
  assumes "region_ok r" "a \<in> set (region_addrs r)"
  shows "a mod 4096 = 0" "unat (region_start r) \<le> a" "a + 4096 \<le> unat (region_end r)"
proof -
  obtain i where a: "a = unat (region_start r) + i * 4096"
    and i: "i < (unat (region_end r) - unat (region_start r) + 4095) div 4096"
    using assms(2) by (auto simp: region_addrs_def)
  obtain s e where s: "unat (region_start r) = 4096 * s" and e: "unat (region_end r) = 4096 * e"
    using assms(1) by (auto simp: region_ok_def elim!: dvdE simp: mod_eq_0_iff_dvd)
  have "i < e - s"
  proof -
    have "unat (region_end r) - unat (region_start r) + 4095 = 4096 * (e - s) + 4095" by (simp add: s e diff_mult_distrib2)
    with i show ?thesis by simp
  qed
  then show "a mod 4096 = 0" "unat (region_start r) \<le> a" "a + 4096 \<le> unat (region_end r)"
    by (simp_all add: a s e)
qed

lemma region_addrs_distinct: "distinct (region_addrs r)"
  by (auto simp: region_addrs_def distinct_map inj_on_def)

lemma usable_addrs_props:
  assumes "list_all region_ok rs" "sorted_wrt region_disjoint rs"
  shows "distinct (concat (map region_addrs rs)) \<and> (\<forall>a\<in>set (concat (map region_addrs rs)). a mod 4096 = 0 \<and> a < 2 ^ 52)"
  using assms
proof (induction rs)
  case (Cons r rs)
  have "set (region_addrs r) \<inter> set (concat (map region_addrs rs)) = {}"
  proof (rule ccontr)
    assume "set (region_addrs r) \<inter> set (concat (map region_addrs rs)) \<noteq> {}"
    then obtain a q where a: "a \<in> set (region_addrs r)" "q \<in> set rs" "a \<in> set (region_addrs q)" by auto
    with Cons.prems have "region_ok r" "region_ok q" "region_disjoint r q" by (auto simp: list_all_iff)
    with region_addr [OF _ a(1)] region_addr [OF _ a(3)] show False by (auto simp: region_disjoint_def)
  qed
  moreover have "a mod 4096 = 0 \<and> a < 2 ^ 52" if "a \<in> set (region_addrs r)" for a
    using region_addr [OF _ that] Cons.prems(1) by (auto simp: region_ok_def)
  ultimately show ?case using Cons by (auto simp: region_addrs_distinct)
qed simp

lemma usable_addrs_ok:
  assumes "map_ok rs"
  shows "distinct (usable_addrs rs)" "a \<in> set (usable_addrs rs) \<Longrightarrow> a mod 4096 = 0" "a \<in> set (usable_addrs rs) \<Longrightarrow> a < 2 ^ 52"
  using usable_addrs_props assms by (auto simp: map_ok_def usable_addrs_def)

lemma usable_frames_distinct:
  assumes "frames_law F" "map_ok rs"
  shows "distinct (usable_frames F rs)"
proof -
  have "inj_on (\<lambda>a. the (F a)) (set (usable_addrs rs))"
  proof (rule inj_onI)
    fix a b
    assume ab: "a \<in> set (usable_addrs rs)" "b \<in> set (usable_addrs rs)" "the (F a) = the (F b)"
    with usable_addrs_ok(3) [OF assms(2)] have "a < 2 ^ 52" "b < 2 ^ 52" by blast+
    with ab(3) assms(1) have "a div 4096 = b div 4096" unfolding frames_law_def by (metis option.expand)
    with ab(1,2) usable_addrs_ok(2) [OF assms(2)] show "a = b" by (metis div_mult_mod_eq)
  qed
  with usable_addrs_ok(1) [OF assms(2)] show ?thesis by (simp add: usable_frames_def distinct_map)
qed

lemma allocate_frame_run:
  assumes "frames_law F" "map_ok (memory_regions a)"
  shows "allocate_frame F a = Some (Ok (if next_frame a < length (usable_frames F (memory_regions a))
      then Some (usable_frames F (memory_regions a) ! next_frame a) else None), a\<lparr>next_frame := next_frame a + 1\<rparr>)"
proof -
  have S: "F x \<noteq> None" if "x \<in> set (usable_addrs (memory_regions a))" for x
    using usable_addrs_ok(3) [OF assms(2) that] assms(1) by (auto simp: frames_law_def)
  then have "None \<notin> set (take (Suc (next_frame a)) (map F (usable_addrs (memory_regions a))))"
    by (auto dest!: in_set_takeD) (metis option.distinct(1))
  moreover have "F (usable_addrs (memory_regions a) ! i) = Some (the (F (usable_addrs (memory_regions a) ! i)))"
    if "i < length (usable_addrs (memory_regions a))" for i using S that by simp
  ultimately show ?thesis by (simp add: allocate_frame_def usable_frames_def Let_def)
qed

text \<open>The frames of a sequence of allocations.\<close>

definition allocate_frames :: "(nat \<Rightarrow> 'f option) \<Rightarrow> nat \<Rightarrow> (BootInfoFrameAllocator, 'e, 'f option list) io" where
  "allocate_frames F n = foldM (\<lambda>_ fs. bindM (allocate_frame F) (\<lambda>f. ret (fs @ [f]))) [0..<n] []"

text \<open>
  C25: on a memory map with page-aligned, disjoint usable regions, the allocator never panics and the
  n-th request receives the n-th usable frame of the map, or nothing when the map is exhausted: no
  frame is handed out twice and none is skipped.
\<close>

theorem allocate_frames_spec:
  assumes "frames_law F" "map_ok rs"
  shows "allocate_frames F n (frame_allocator_new rs)
      = Some (Ok (map Some (take n (usable_frames F rs)) @ replicate (n - length (usable_frames F rs)) None),
          \<lparr>memory_regions = rs, next_frame = n\<rparr>)
    \<and> distinct (take n (usable_frames F rs))"
proof
  show "distinct (take n (usable_frames F rs))" using usable_frames_distinct [OF assms] by (rule distinct_take)
  show "allocate_frames F n (frame_allocator_new rs)
      = Some (Ok (map Some (take n (usable_frames F rs)) @ replicate (n - length (usable_frames F rs)) None),
          \<lparr>memory_regions = rs, next_frame = n\<rparr>)"
    unfolding allocate_frames_def
  proof (induction n)
    case (Suc n)
    let ?fs = "usable_frames F rs"
    have e: "[0..<Suc n] = [0..<n] @ [n]" by simp
    have run: "allocate_frame F \<lparr>memory_regions = rs, next_frame = n\<rparr>
        = Some (Ok (if n < length ?fs then Some (?fs ! n) else None), \<lparr>memory_regions = rs, next_frame = Suc n\<rparr>)"
      using allocate_frame_run [of F "\<lparr>memory_regions = rs, next_frame = n\<rparr>"] assms
      by (cases "n < length ?fs") simp_all
    have step: "bindM (allocate_frame F) (\<lambda>f. ret (xs @ [f])) \<lparr>memory_regions = rs, next_frame = n\<rparr>
        = Some (Ok (xs @ [if n < length ?fs then Some (?fs ! n) else None]), \<lparr>memory_regions = rs, next_frame = Suc n\<rparr>)"
      for xs
      by (subst bindM_Ok, rule run) (rule ret_run)
    show ?case unfolding e
      by (subst foldM_snoc, rule Suc.IH, subst step)
        (auto simp: take_Suc_conv_app_nth Suc_diff_le replicate_append_same)
  qed (simp add: ret_run frame_allocator_new_def)
qed

section \<open>The heap is mapped\<close>

text \<open>
  What \<open>Mapper::map_to\<close> documents for a page that is not mapped yet, as long as the allocator has
  frames left: it maps the page to the frame, and takes at most three frames from the allocator for
  the missing levels of the page table. \<open>pages\<close> is the mapping the tables stand for, \<open>tables\<close> the
  frames they occupy.
\<close>

definition upto_frames :: "('m, 'f) x86_paging \<Rightarrow> MemoryRegion list \<Rightarrow> nat \<Rightarrow> nat \<Rightarrow> 'f set" where
  "upto_frames X rs i j = {usable_frames (frame_at X) rs ! k |k. i \<le> k \<and> k < j}"

definition maps_pages :: "('m, 'f) x86_paging \<Rightarrow> ('m \<Rightarrow> nat \<rightharpoonup> 'f) \<Rightarrow> ('m \<Rightarrow> 'f set) \<Rightarrow> bool" where
  "maps_pages X pages tables \<longleftrightarrow> (\<forall>page frame s.
     page \<notin> dom (pages (mapper s)) \<longrightarrow>
     next_frame (frames s) + 3 \<le> length (usable_frames (frame_at X) (memory_regions (frames s))) \<longrightarrow>
     (\<exists>m' k. k \<le> 3 \<and> map_to X page frame s
          = Some (Ok (), s\<lparr>mapper := m', frames := (frames s)\<lparr>next_frame := next_frame (frames s) + k\<rparr>\<rparr>)
        \<and> pages m' = (pages (mapper s))(page \<mapsto> frame)
        \<and> tables m' = tables (mapper s)
            \<union> upto_frames X (memory_regions (frames s)) (next_frame (frames s)) (next_frame (frames s) + k)))"

lemma maps_pagesD:
  assumes "maps_pages X pages tables" "page \<notin> dom (pages (mapper s))"
    and "next_frame (frames s) + 3 \<le> length (usable_frames (frame_at X) (memory_regions (frames s)))"
  shows "\<exists>m' k. k \<le> 3 \<and> map_to X page frame s
        = Some (Ok (), s\<lparr>mapper := m', frames := (frames s)\<lparr>next_frame := next_frame (frames s) + k\<rparr>\<rparr>)
      \<and> pages m' = (pages (mapper s))(page \<mapsto> frame)
      \<and> tables m' = tables (mapper s)
          \<union> upto_frames X (memory_regions (frames s)) (next_frame (frames s)) (next_frame (frames s) + k)"
  using assms unfolding maps_pages_def by blast

text \<open>The state after some pages of the heap are mapped to the frames \<open>fs\<close>.\<close>

definition heap_part :: "('m, 'f) x86_paging \<Rightarrow> ('m \<Rightarrow> nat \<rightharpoonup> 'f) \<Rightarrow> ('m \<Rightarrow> 'f set) \<Rightarrow> 'm paging \<Rightarrow> nat list \<Rightarrow> 'f list \<Rightarrow> 'm paging \<Rightarrow> bool" where
  "heap_part X pages tables s0 ps fs s \<longleftrightarrow>
     (let rs = memory_regions (frames s0); i = next_frame (frames s0); j = next_frame (frames s)
      in memory_regions (frames s) = rs \<and> heap s = heap s0 \<and> length fs = length ps
         \<and> i \<le> j \<and> j \<le> i + 4 * length ps \<and> distinct fs \<and> set fs \<subseteq> upto_frames X rs i j
         \<and> pages (mapper s) = pages (mapper s0) ++ map_of (zip ps fs)
         \<and> (\<exists>T. tables (mapper s) = tables (mapper s0) \<union> T \<and> T \<subseteq> upto_frames X rs i j \<and> T \<inter> set fs = {}))"

lemma upto_frames_mono: "j \<le> j' \<Longrightarrow> upto_frames X rs i j \<subseteq> upto_frames X rs i j'"
  by (force simp: upto_frames_def)

lemma upto_frames_fresh:
  "frames_law (frame_at X) \<Longrightarrow> map_ok rs \<Longrightarrow> i \<le> k \<Longrightarrow> k < length (usable_frames (frame_at X) rs) \<Longrightarrow> j \<le> k \<Longrightarrow> usable_frames (frame_at X) rs ! k \<notin> upto_frames X rs i j"
  using usable_frames_distinct [of "frame_at X" rs] by (auto simp: upto_frames_def distinct_conv_nth)

lemma upto_frames_disjoint:
  assumes "frames_law (frame_at X)" "map_ok rs" "j \<le> length (usable_frames (frame_at X) rs)" "i' \<ge> j" "j' \<le> length (usable_frames (frame_at X) rs)"
  shows "upto_frames X rs i j \<inter> upto_frames X rs i' j' = {}"
proof -
  have "usable_frames (frame_at X) rs ! a \<noteq> usable_frames (frame_at X) rs ! b" if "a < j" "i' \<le> b" "b < j'" for a b
    using usable_frames_distinct [OF assms(1,2)] that assms by (auto simp: distinct_conv_nth)
  then show ?thesis by (auto simp: upto_frames_def)
qed

lemma heap_step:
  assumes maps: "maps_pages X pages tables" and F: "frames_law (frame_at X)" and rs: "map_ok (memory_regions (frames s0))"
    and part: "heap_part X pages tables s0 ps fs s" and p: "p \<notin> set ps" "p \<notin> dom (pages (mapper s0))"
    and room: "next_frame (frames s0) + 4 * Suc (length ps) \<le> length (usable_frames (frame_at X) (memory_regions (frames s0)))"
  shows "\<exists>f s'. heap_page X p s = Some (Ok (), s') \<and> heap_part X pages tables s0 (ps @ [p]) (fs @ [f]) s'"
proof -
  let ?rs = "memory_regions (frames s0)" and ?i = "next_frame (frames s0)" and ?j = "next_frame (frames s)"
  let ?f = "usable_frames (frame_at X) ?rs ! ?j" and ?s = "s\<lparr>frames := (frames s)\<lparr>next_frame := ?j + 1\<rparr>\<rparr>"
  have S: "memory_regions (frames s) = ?rs" "length fs = length ps" "?i \<le> ?j" "?j \<le> ?i + 4 * length ps"
    "distinct fs" "set fs \<subseteq> upto_frames X ?rs ?i ?j" "pages (mapper s) = pages (mapper s0) ++ map_of (zip ps fs)"
    "heap s = heap s0"
    using part by (simp_all add: heap_part_def Let_def)
  obtain T where T: "tables (mapper s) = tables (mapper s0) \<union> T" "T \<subseteq> upto_frames X ?rs ?i ?j" "T \<inter> set fs = {}"
    using part by (auto simp: heap_part_def Let_def)
  have "(allocate_frame (frame_at X) :: (_, MapToError, _) io) (frames s) = Some (Ok (Some ?f), (frames s)\<lparr>next_frame := ?j + 1\<rparr>)"
    using allocate_frame_run [OF F, of "frames s"] rs S(1,4) room by simp
  then have "on_part frames (\<lambda>a s. s\<lparr>frames := a\<rparr>) (allocate_frame (frame_at X) :: (_, MapToError, _) io) s = Some (Ok (Some ?f), ?s)"
    by (simp add: on_part_def)
  then have fr: "frame_or_fail X s = Some (Ok ?f, ?s)"
    by (simp add: frame_or_fail_def bindM_Ok ret_run)
  have "p \<notin> dom (pages (mapper ?s))"
    using p S(2,7) by (simp add: dom_map_of_zip)
  with maps_pagesD [OF maps, of p ?s ?f] S(1,4) room obtain m' k where k: "k \<le> 3"
    "map_to X p ?f ?s = Some (Ok (), ?s\<lparr>mapper := m', frames := (frames ?s)\<lparr>next_frame := next_frame (frames ?s) + k\<rparr>\<rparr>)"
    "pages m' = (pages (mapper s))(p \<mapsto> ?f)" "tables m' = tables (mapper s) \<union> upto_frames X ?rs (?j + 1) (?j + 1 + k)"
    by auto
  let ?s' = "?s\<lparr>mapper := m', frames := (frames ?s)\<lparr>next_frame := next_frame (frames ?s) + k\<rparr>\<rparr>"
  have run: "heap_page X p s = Some (Ok (), ?s')"
    unfolding heap_page_def by (subst bindM_Ok, rule fr, rule k(2))
  have fresh: "?f \<notin> upto_frames X ?rs ?i ?j" using upto_frames_fresh [OF F rs S(3), of ?j] S(4) room by simp
  have f_in: "?f \<in> upto_frames X ?rs ?i (?j + 1 + k)" using S(3) by (auto simp: upto_frames_def)
  have up: "upto_frames X ?rs ?i ?j \<subseteq> upto_frames X ?rs ?i (?j + 1 + k)" by (rule upto_frames_mono) simp
  have new: "upto_frames X ?rs (?j + 1) (?j + 1 + k) \<subseteq> upto_frames X ?rs ?i (?j + 1 + k)"
    using S(3) by (fastforce simp: upto_frames_def)
  have dis: "upto_frames X ?rs ?i (?j + 1) \<inter> upto_frames X ?rs (?j + 1) (?j + 1 + k) = {}"
    by (rule upto_frames_disjoint [OF F rs]) (use S(4) room k(1) in simp_all)
  have "upto_frames X ?rs ?i ?j \<subseteq> upto_frames X ?rs ?i (?j + 1)" "?f \<in> upto_frames X ?rs ?i (?j + 1)"
    using S(3) by (auto simp: upto_frames_def)
  with dis S(6) have nd: "upto_frames X ?rs (?j + 1) (?j + 1 + k) \<inter> set (fs @ [?f]) = {}" by auto
  have zip: "map_of (zip (ps @ [p]) (fs @ [?f])) = (map_of (zip ps fs))(p \<mapsto> ?f)"
    using S(2) p(1) map_add_comm [of "[p \<mapsto> ?f]" "map_of (zip ps fs)"] by (simp add: dom_map_of_zip)
  have "heap_part X pages tables s0 (ps @ [p]) (fs @ [?f]) ?s'"
    unfolding heap_part_def Let_def zip
    using S T k fresh f_in up new nd
    by (auto intro!: exI [of _ "T \<union> upto_frames X ?rs (?j + 1) (?j + 1 + k)"])
  with run show ?thesis by blast
qed

lemma heap_parts:
  assumes "maps_pages X pages tables" "frames_law (frame_at X)" "map_ok (memory_regions (frames s0))"
    and "distinct ps" "set ps \<inter> dom (pages (mapper s0)) = {}"
    and "next_frame (frames s0) + 4 * length ps \<le> length (usable_frames (frame_at X) (memory_regions (frames s0)))"
  shows "\<exists>fs s. foldM (\<lambda>page _. heap_page X page) ps () s0 = Some (Ok (), s)
    \<and> heap_part X pages tables s0 ps fs s"
  using assms(4-6)
proof (induction ps rule: rev_induct)
  case Nil
  show ?case
    by (intro exI [of _ "[]"] exI [of _ s0]) (auto simp: ret_run heap_part_def Let_def intro!: exI [of _ "{}"])
next
  case (snoc p ps)
  then obtain fs s where run: "foldM (\<lambda>page _. heap_page X page) ps () s0 = Some (Ok (), s)"
    and part: "heap_part X pages tables s0 ps fs s" by auto
  from heap_step [OF assms(1-3) part, of p] snoc.prems obtain f s' where
    "heap_page X p s = Some (Ok (), s')" "heap_part X pages tables s0 (ps @ [p]) (fs @ [f]) s'"
    by auto
  then show ?case using foldM_snoc [OF run, of p] by auto
qed

text \<open>The pages of the heap, and what the crate documents of a range of pages of the lower half.\<close>

definition heap_pages :: "nat list" where
  "heap_pages = [HEAP_START div 4096..<(HEAP_START + (HEAP_SIZE - 1)) div 4096 + 1]"

definition pages_law :: "('m, 'f) x86_paging \<Rightarrow> bool" where
  "pages_law X \<longleftrightarrow> (\<forall>a b. a \<le> b \<longrightarrow> b < 2 ^ 47 \<longrightarrow> pages_between X a b = [a div 4096..<b div 4096 + 1])"

lemma heap_range: "pages_law X \<Longrightarrow> pages_between X HEAP_START (HEAP_START + (HEAP_SIZE - 1)) = heap_pages"
  unfolding heap_pages_def by (rule pages_law_def [THEN iffD1, rule_format]) (simp_all add: HEAP_START_def HEAP_SIZE_def)

lemma heap_consts: "HEAP_START = 0x444444440000" "HEAP_SIZE = 262144"
  by (simp_all add: HEAP_START_def HEAP_SIZE_def)

lemma heap_pages_props: "distinct heap_pages" "length heap_pages = 64"
  "p \<in> set heap_pages \<longleftrightarrow> HEAP_START \<le> p * 4096 \<and> p * 4096 < HEAP_START + HEAP_SIZE"
proof -
  have e: "heap_pages = [0x444444440..<0x444444480]" by (simp only: heap_pages_def HEAP_START_def HEAP_SIZE_def) simp
  show "distinct heap_pages" unfolding heap_pages_def by (rule distinct_upt)
  show "length heap_pages = 64" unfolding e length_upt by simp
  show "p \<in> set heap_pages \<longleftrightarrow> HEAP_START \<le> p * 4096 \<and> p * 4096 < HEAP_START + HEAP_SIZE"
    unfolding e set_upt HEAP_START_def HEAP_SIZE_def by auto
qed

lemma init_heap_run:
  assumes "maps_pages X pages tables" "frames_law (frame_at X)" "pages_law X" "map_ok (memory_regions (frames s))"
    and "set heap_pages \<inter> dom (pages (mapper s)) = {}"
    and "next_frame (frames s) + 256 \<le> length (usable_frames (frame_at X) (memory_regions (frames s)))"
  shows "\<exists>s' fs. init_heap X s = Some (Ok (), s') \<and> heap s' = Some (HEAP_START, HEAP_SIZE)
    \<and> pages (mapper s') = pages (mapper s) ++ map_of (zip heap_pages fs)
    \<and> length fs = 64 \<and> distinct fs
    \<and> set fs \<subseteq> set (drop (next_frame (frames s)) (usable_frames (frame_at X) (memory_regions (frames s))))
    \<and> (tables (mapper s') - tables (mapper s)) \<inter> set fs = {}"
proof -
  let ?rs = "memory_regions (frames s)" and ?i = "next_frame (frames s)"
  obtain fs s1 where run: "foldM (\<lambda>page _. heap_page X page) heap_pages () s = Some (Ok (), s1)"
    and part: "heap_part X pages tables s heap_pages fs s1"
    using heap_parts [OF assms(1,2,4) heap_pages_props(1) assms(5)] assms(6) by (auto simp: heap_pages_props(2))
  have P: "length fs = 64" "distinct fs" "set fs \<subseteq> upto_frames X ?rs ?i (next_frame (frames s1))"
    "next_frame (frames s1) \<le> ?i + 256" "pages (mapper s1) = pages (mapper s) ++ map_of (zip heap_pages fs)"
    "(tables (mapper s1) - tables (mapper s)) \<inter> set fs = {}"
    using part by (auto simp: heap_part_def Let_def heap_pages_props(2))
  have "upto_frames X ?rs ?i (next_frame (frames s1)) \<subseteq> set (drop ?i (usable_frames (frame_at X) ?rs))"
  proof
    fix x
    assume "x \<in> upto_frames X ?rs ?i (next_frame (frames s1))"
    then obtain k where k: "x = usable_frames (frame_at X) ?rs ! k" "?i \<le> k" "k < next_frame (frames s1)" by (auto simp: upto_frames_def)
    then have "x = drop ?i (usable_frames (frame_at X) ?rs) ! (k - ?i)" "k - ?i < length (drop ?i (usable_frames (frame_at X) ?rs))"
      using P(4) assms(6) by simp_all
    then show "x \<in> set (drop ?i (usable_frames (frame_at X) ?rs))" by (metis nth_mem)
  qed
  moreover have "init_heap X s = Some (Ok (), s1\<lparr>heap := Some (HEAP_START, HEAP_SIZE)\<rparr>)"
    unfolding init_heap_def heap_range [OF assms(3)] by (subst bindM_Ok, rule run) (rule modify_run)
  ultimately show ?thesis
    using P by (intro exI [of _ "s1\<lparr>heap := Some (HEAP_START, HEAP_SIZE)\<rparr>"] exI [of _ fs]) auto
qed

text \<open>
  C24: the heap initialisation succeeds whenever the memory map has 256 usable frames left: it maps
  exactly the pages of the 256 KiB from \<open>HEAP_START\<close>, each to a fresh frame of its own that no page
  table occupies, leaves every other mapping alone, and then hands the range to the heap.
\<close>

theorem init_heap_maps:
  assumes "maps_pages X pages tables" "frames_law (frame_at X)" "pages_law X" "map_ok (memory_regions (frames s))"
    and "set heap_pages \<inter> dom (pages (mapper s)) = {}"
    and "next_frame (frames s) + 256 \<le> length (usable_frames (frame_at X) (memory_regions (frames s)))"
  shows "\<exists>s' fs. init_heap X s = Some (Ok (), s') \<and> heap s' = Some (0x444444440000, 262144)
    \<and> pages (mapper s') = pages (mapper s) ++ map_of (zip heap_pages fs)
    \<and> length fs = 64 \<and> distinct fs \<and> set fs \<subseteq> set (drop (next_frame (frames s)) (usable_frames (frame_at X) (memory_regions (frames s))))
    \<and> (tables (mapper s') - tables (mapper s)) \<inter> set fs = {}
    \<and> (\<forall>p. p \<in> set heap_pages \<longleftrightarrow> 0x444444440000 \<le> p * 4096 \<and> p * 4096 < 0x444444440000 + 262144)"
  using init_heap_run [OF assms] heap_pages_props(3) unfolding heap_consts by blast

text \<open>A page table in one piece, and a memory map with 300 usable frames.\<close>

definition flat_paging :: "(nat \<rightharpoonup> nat, nat) x86_paging" where
  "flat_paging = \<lparr>frame_at = (\<lambda>a. if a < 2 ^ 52 then Some (a div 4096) else None),
     pages_between = (\<lambda>a b. [a div 4096..<b div 4096 + 1]),
     map_to = (\<lambda>page frame. modify (\<lambda>s. s\<lparr>mapper := (mapper s)(page \<mapsto> frame)\<rparr>))\<rparr>"

definition demo_map :: "MemoryRegion list" where
  "demo_map = [\<lparr>region_start = 0, region_end = 4096, region_kind = OtherKind 0\<rparr>,
     \<lparr>region_start = 4096, region_end = 1232896, region_kind = Usable\<rparr>]"

lemma demo_map_ok: "map_ok demo_map" "length (usable_frames (frame_at flat_paging) demo_map) = 300"
  by (simp_all add: map_ok_def demo_map_def region_ok_def usable_frames_def usable_addrs_def region_addrs_def)

lemma flat_laws: "frames_law (frame_at flat_paging)" "pages_law flat_paging"
  by (auto simp: frames_law_def pages_law_def flat_paging_def)

lemma flat_maps: "maps_pages flat_paging (\<lambda>m. m) (\<lambda>_. {})"
  unfolding maps_pages_def
proof (intro allI impI)
  fix page frame and s :: "(nat \<rightharpoonup> nat) paging"
  show "\<exists>m' k. k \<le> 3 \<and> map_to flat_paging page frame s
      = Some (Ok (), s\<lparr>mapper := m', frames := (frames s)\<lparr>next_frame := next_frame (frames s) + k\<rparr>\<rparr>)
    \<and> m' = (mapper s)(page \<mapsto> frame)
    \<and> {} = {} \<union> upto_frames flat_paging (memory_regions (frames s)) (next_frame (frames s)) (next_frame (frames s) + k)"
    by (intro exI [of _ "(mapper s)(page \<mapsto> frame)"] exI [of _ 0]) (simp add: flat_paging_def modify_run upto_frames_def)
qed

theorem allocate_frames_spec_witness:
  "map_ok demo_map \<and> (\<exists>fs. (allocate_frames (frame_at flat_paging) 2 :: (_, MapToError, _) io) (frame_allocator_new demo_map)
      = Some (Ok (map Some fs), \<lparr>memory_regions = demo_map, next_frame = 2\<rparr>) \<and> distinct fs \<and> length fs = 2)"
  using allocate_frames_spec [OF flat_laws(1) demo_map_ok(1), of 2, where 'b = MapToError] demo_map_ok
  by (intro conjI exI [of _ "take 2 (usable_frames (frame_at flat_paging) demo_map)"]) simp_all

theorem init_heap_maps_witness:
  "\<exists>s'. init_heap flat_paging \<lparr>mapper = Map.empty, frames = frame_allocator_new demo_map, heap = None\<rparr> = Some (Ok (), s')
     \<and> heap s' = Some (0x444444440000, 262144)"
  using init_heap_maps [OF flat_maps flat_laws, of "\<lparr>mapper = Map.empty, frames = frame_allocator_new demo_map, heap = None\<rparr>"]
    demo_map_ok
  by (auto simp: frame_allocator_new_def)

end
