(* ===== verification/Boot.thy ===== *)
theory Boot
  imports Shell Interrupts Memory
begin

text \<open>
  The start of the kernel: \<open>kernel_main\<close> and the panic handler of \<^verbatim>\<open>kernel/src/main.rs\<close>, \<open>init\<close> and
  \<open>init_framebuffer\<close> of \<^verbatim>\<open>kernel/src/lib.rs\<close>, \<open>init\<close> of \<^verbatim>\<open>kernel/src/serial.rs\<close>,
  \<^verbatim>\<open>kernel/src/interrupts.rs\<close> and \<^verbatim>\<open>kernel/src/memory.rs\<close>. Everything below is a component of its own:
  the boot composes them on one state. What the bootloader hands over is the record \<open>boot_info\<close>; the
  libraries and the hardware are the record \<open>boot_env\<close>.

  Shown: on a machine with the promised memory map and any ATA hardware whatsoever, the kernel boots
  to a shell with four mounted file systems unless the boot sector overflows the address arithmetic of \<open>FatFs::mount\<close>, and the
  only panics afterwards are overflow checks on a mounted FAT volume; a
  failed boot is reported through the exit port. Memory allocation is assumed to succeed.
\<close>

section \<open>State\<close>

record boot_info =
  physical_memory_offset :: "u64 option"
  boot_regions :: "MemoryRegion list"
  boot_framebuffer :: "(u8 list \<times> FrameBufferInfo) option"

text \<open>
  \<open>table_at\<close> reads the page table at a virtual address as an \<open>OffsetPageTable\<close>; \<open>uart_new\<close> is the
  initialised serial port; \<open>run_queue_lib\<close> the queue of the executor.
\<close>

record ('d, 'p, 'm, 'f, 't, 'q) boot_env =
  machine_hw :: "('d, 'p) hardware"
  probe_disk :: "('d, BlockError, unit) io"
  uart_new :: 'p
  addr_ok :: "u64 \<Rightarrow> bool"
  addr_add :: "u64 \<Rightarrow> u64 \<Rightarrow> u64 option"
  cr3_addr :: u64
  table_at :: "u64 \<Rightarrow> 'm"
  paging_lib :: "('m, 'f) x86_paging"
  gdt_lib :: "'t x86_gdt"
  run_queue_lib :: "('q, TaskId) ArrayQueue"
  panic_message :: string

record ('d, 'p, 't) boot_state =
  dev :: "('d, 'p) globals"
  segs :: "'t segmentation"
  idt_loaded :: bool
  pics_initialized :: bool
  interrupts_enabled :: bool
  kernel_heap :: "(nat \<times> nat) option"
  next_task_id :: u64
  exit_writes :: "u32 list"

type_synonym ('d, 'p, 't, 'a) boot = "(('d, 'p, 't) boot_state, unit, 'a) io"

definition on_dev :: "(('d, 'p) globals, unit, 'a) io \<Rightarrow> ('d, 'p, 't, 'a) boot" where
  "on_dev m = on_part dev (\<lambda>g s. s\<lparr>dev := g\<rparr>) m"

section \<open>Initialisation\<close>

definition serial_init :: "'p \<Rightarrow> (('d, 'p) globals, unit, unit) io" where
  "serial_init port = modify (\<lambda>g. case serial1 g of None \<Rightarrow> g\<lparr>serial1 := Some port\<rparr> | Some _ \<Rightarrow> g)"

definition interrupts_init :: "('d, 'p, 't, unit) boot" where
  "interrupts_init = bindM (modify (\<lambda>s. s\<lparr>idt_loaded := True\<rparr>)) (\<lambda>_.
     bindM (modify (\<lambda>s. s\<lparr>pics_initialized := True\<rparr>)) (\<lambda>_.
     modify (\<lambda>s. s\<lparr>interrupts_enabled := True\<rparr>)))"

definition kernel_init :: "('d, 'p, 'm, 'f, 't, 'q) boot_env \<Rightarrow> ('d, 'p, 't, unit) boot" where
  "kernel_init E = bindM (on_dev (serial_init (uart_new E))) (\<lambda>_.
     bindM (on_part segs (\<lambda>x s. s\<lparr>segs := x\<rparr>) (gdt_init (gdt_lib E))) (\<lambda>_.
     interrupts_init))"

definition init_framebuffer :: "u8 list \<Rightarrow> FrameBufferInfo \<Rightarrow> (('d, 'p) globals, unit, unit) io" where
  "init_framebuffer buf i = modify (\<lambda>g. case fb_writer g of None \<Rightarrow> g\<lparr>fb_writer := Some (fb_new buf i)\<rparr> | Some _ \<Rightarrow> g)"

definition active_level_4_table :: "('d, 'p, 'm, 'f, 't, 'q) boot_env \<Rightarrow> u64 \<Rightarrow> ('s, unit, u64) io" where
  "active_level_4_table E offset = or_panic (addr_add E offset (cr3_addr E))"

definition memory_init :: "('d, 'p, 'm, 'f, 't, 'q) boot_env \<Rightarrow> u64 \<Rightarrow> ('s, unit, 'm) io" where
  "memory_init E offset = bindM (active_level_4_table E offset) (\<lambda>virt. ret (table_at E virt))"

text \<open>\<open>expect\<close> on a result.\<close>

definition expect :: "('s, 'e, 'a) io \<Rightarrow> ('s, unit, 'a) io" where
  "expect m = attempt m (\<lambda>r. case r of Inr x \<Rightarrow> ret x | Inl _ \<Rightarrow> panic)"

text \<open>\<open>init_heap\<close> runs on the boot's own mapper and allocator; only the heap outlives it.\<close>

definition heap_stage :: "('d, 'p, 'm, 'f, 't, 'q) boot_env \<Rightarrow> boot_info \<Rightarrow> 'm \<Rightarrow> ('d, 'p, 't, unit) boot" where
  "heap_stage E bi m = (\<lambda>s.
     map_option (\<lambda>(r, v). (r, s\<lparr>kernel_heap := heap v\<rparr>))
       (expect (init_heap (paging_lib E))
          \<lparr>mapper = m, frames = frame_allocator_new (boot_regions bi), heap = kernel_heap s\<rparr>))"

section \<open>The main function\<close>

definition boot_log :: "('d, 'p, 'm, 'f, 't, 'q) boot_env \<Rightarrow> string \<Rightarrow> ('d, 'p, 't, unit) boot" where
  "boot_log E t = on_dev (serial_println (machine_hw E) t)"

text \<open>An em dash is the three bytes E2 80 94 of its UTF-8 form.\<close>

definition em_dash :: string where
  "em_dash = [CHR 0xE2, CHR 0x80, CHR 0x94]"

definition framebuffer_stage :: "('d, 'p, 'm, 'f, 't, 'q) boot_env \<Rightarrow> boot_info \<Rightarrow> ('d, 'p, 't, unit) boot" where
  "framebuffer_stage E bi = (case boot_framebuffer bi of
     None \<Rightarrow> ret ()
   | Some (buf, i) \<Rightarrow> bindM (on_dev (init_framebuffer buf i)) (\<lambda>_.
       on_dev (print (machine_hw E) (map of_char ''Willo M10 '' @ [0x2014] @ map of_char '' type `help`'' @ [0x0A]))))"

definition boot_banner :: "('d, 'p, 'm, 'f, 't, 'q) boot_env \<Rightarrow> ('d, 'p, 't, unit) boot" where
  "boot_banner E =
     bindM (boot_log E []) (\<lambda>_.
     bindM (boot_log E ''============================================'') (\<lambda>_.
     bindM (boot_log E (''  Willo kernel '' @ em_dash @ '' M10 multi-mount + scrollback'')) (\<lambda>_.
     boot_log E ''============================================'')))"

text \<open>Everything before the executor runs: the result is the mounted file system.\<close>

definition kernel_boot :: "('d, 'p, 'm, 'f, 't, 'q) boot_env \<Rightarrow> boot_info \<Rightarrow> ('d, 'p, 't, Vfs) boot" where
  "kernel_boot E bi =
     bindM (kernel_init E) (\<lambda>_.
     bindM (boot_banner E) (\<lambda>_.
     bindM (or_panic (physical_memory_offset bi)) (\<lambda>offset.
     bindM (or_panic (if addr_ok E offset then Some () else None)) (\<lambda>_.
     bindM (memory_init E offset) (\<lambda>m.
     bindM (heap_stage E bi m) (\<lambda>_.
     bindM (boot_log E (''[stage] heap up @ '' @ show_hex HEAP_START @ '' ('' @ show_nat (HEAP_SIZE div 1024) @ '' KiB)'')) (\<lambda>_.
     bindM (framebuffer_stage E bi) (\<lambda>_.
     on_dev (expect (mount_root (machine_hw E) (probe_disk E)))))))))))"

text \<open>
  \<open>Executor::new\<close>, \<open>spawn\<close> of the one task, and its run: the future is the shell with the file
  system it owns, and \<open>events\<close> are the scancodes the stream delivers to it and the timer interrupts. The executor polls the task
  it pops; with an empty queue it would idle, the result \<open>None\<close>.
\<close>

definition spawn_shell ::
    "('d, 'p, 'm, 'f, 't, 'q) boot_env \<Rightarrow> Vfs \<Rightarrow> ('d, 'p, 't, ('q, Vfs) Executor) boot" where
  "spawn_shell E v = (\<lambda>s. case task_id_new (next_task_id s) of (tid, nxt) \<Rightarrow>
     map_option (\<lambda>(r, ex). (case r of Ok _ \<Rightarrow> Ok ex | Err e \<Rightarrow> Err e | Panic c \<Rightarrow> Panic c, s\<lparr>next_task_id := nxt\<rparr>))
       (spawn (run_queue_lib E) tid v (executor_new (run_queue_lib E))))"

definition run_shell ::
    "('d, 'p, 'm, 'f, 't, 'q) boot_env \<Rightarrow> (u8 \<Rightarrow> 'b \<Rightarrow> DecodedKey option \<times> 'b) \<Rightarrow> 'b \<Rightarrow> event list \<Rightarrow> Vfs
       \<Rightarrow> ('d, 'p, 't, ('d, 'p, 'b) driver) boot" where
  "run_shell E dec kb events v = (\<lambda>s.
     map_option (\<lambda>(r, d). (case r of Ok _ \<Rightarrow> Ok d | Err e \<Rightarrow> Err e | Panic c \<Rightarrow> Panic c, s\<lparr>dev := glob (kern (shell d))\<rparr>))
       (shell_loop (machine_hw E) dec events (shell_start \<lparr>glob = dev s, vfs = v\<rparr> kb)))"

definition run_executor ::
    "('d, 'p, 'm, 'f, 't, 'q) boot_env \<Rightarrow> (u8 \<Rightarrow> 'b \<Rightarrow> DecodedKey option \<times> 'b) \<Rightarrow> 'b \<Rightarrow> event list \<Rightarrow> ('q, Vfs) Executor
       \<Rightarrow> ('d, 'p, 't, ('d, 'p, 'b) driver option) boot" where
  "run_executor E dec kb events ex = (case queue_pop (run_queue_lib E) (task_queue ex) of
     None \<Rightarrow> ret None
   | Some (tid, _) \<Rightarrow> (case tasks ex tid of
       None \<Rightarrow> ret None
     | Some v \<Rightarrow> bindM (run_shell E dec kb events v) (\<lambda>d. ret (Some d))))"

definition kernel_main ::
    "('d, 'p, 'm, 'f, 't, 'q) boot_env \<Rightarrow> boot_info \<Rightarrow> (u8 \<Rightarrow> 'b \<Rightarrow> DecodedKey option \<times> 'b) \<Rightarrow> 'b \<Rightarrow> event list
       \<Rightarrow> ('d, 'p, 't, ('d, 'p, 'b) driver option) boot" where
  "kernel_main E bi dec kb events =
     bindM (kernel_boot E bi) (\<lambda>v.
     bindM (spawn_shell E v) (\<lambda>ex.
     run_executor E dec kb events ex))"

text \<open>A panic runs the panic handler: it logs and asks the machine to exit.\<close>

definition with_panic_handler ::
    "('d, 'p, 'm, 'f, 't, 'q) boot_env \<Rightarrow> ('d, 'p, 't, 'a) boot \<Rightarrow> ('d, 'p, 't, 'a) boot" where
  "with_panic_handler E m = (\<lambda>s. map_option (\<lambda>(r, s). (r, case r of
      Panic c \<Rightarrow> s\<lparr>dev := serial_send (machine_hw E) (as_bytes (''PANIC: '' @ panic_message E @ [CHR 0x0A])) (dev s),
        exit_writes := exit_writes s @ [exit_code Failed]\<rparr>
    | _ \<Rightarrow> s)) (m s))"

section \<open>The stages\<close>

definition console_up :: "('d, 'p) hardware \<Rightarrow> ('d, 'p) globals \<Rightarrow> bool" where
  "console_up H g \<longleftrightarrow> glob_ok H g \<and> serial1 g \<noteq> None"

text \<open>The state after \<open>kernel::init\<close>: descriptor tables loaded, interrupts on, a serial port to log to.\<close>

definition machine_up :: "('d, 'p, 'm, 'f, 't, 'q) boot_env \<Rightarrow> ('t \<Rightarrow> Descriptor list) \<Rightarrow> ('d, 'p, 't) boot_state \<Rightarrow> bool" where
  "machine_up E gv s \<longleftrightarrow> console_up (machine_hw E) (dev s) \<and> idt_loaded s \<and> pics_initialized s \<and> interrupts_enabled s
     \<and> map_option gv (gdtr (segs s)) = Some (descriptors (gdt_lib E)) \<and> exit_writes s = []"

text \<open>A stage on the devices that leaves the drive alone.\<close>

lemma returns_on_dev:
  assumes "returns (console_up (machine_hw E)) m (\<lambda>x g. console_up (machine_hw E) g \<and> R x)" "keeps drive m"
  shows "returns (\<lambda>s. machine_up E gv s \<and> J (kernel_heap s, drive (dev s))) (on_dev m) (\<lambda>x s. (machine_up E gv s \<and> J (kernel_heap s, drive (dev s))) \<and> R x)"
proof (rule returnsI)
  fix s assume s: "machine_up E gv s \<and> J (kernel_heap s, drive (dev s))"
  then have "console_up (machine_hw E) (dev s)" by (simp add: machine_up_def)
  from returnsD [OF assms(1) this] obtain x g where x: "m (dev s) = Some (Ok x, g)" "console_up (machine_hw E) g" "R x" by blast
  have d: "drive g = drive (dev s)" by (rule keepsD [OF assms(2) x(1)])
  have "on_dev m s = Some (Ok x, s\<lparr>dev := g\<rparr>)" by (simp add: on_dev_def on_part_def x(1))
  with s x d show "\<exists>x s'. on_dev m s = Some (Ok x, s') \<and> (machine_up E gv s' \<and> J (kernel_heap s', drive (dev s'))) \<and> R x"
    by (auto simp: machine_up_def)
qed

lemma drive_serial_send [simp]: "drive (serial_send H bs g) = drive g"
  by (simp add: serial_send_def)

lemma keeps_drive: "keeps drive (serial_println H t)" "keeps drive (print H cs)" "keeps drive (init_framebuffer buf i)"
  unfolding serial_println_def serial_print_def print_def init_framebuffer_def
  by (auto simp: keeps_def modify_run on_console_def split: option.splits)

lemma returns_boot_log:
  "returns (\<lambda>s. machine_up E gv s \<and> J (kernel_heap s, drive (dev s))) (boot_log E t) (\<lambda>_ s. machine_up E gv s \<and> J (kernel_heap s, drive (dev s)))"
proof -
  have "returns (console_up (machine_hw E)) (serial_println (machine_hw E) t) (\<lambda>x g. console_up (machine_hw E) g \<and> True)"
    unfolding serial_println_def serial_print_def
    by (rule returns_modify) (simp add: console_up_def, simp add: serial_send_def)
  from returns_on_dev [OF this keeps_drive(1)] show ?thesis unfolding boot_log_def by simp
qed

lemma returns_boot_banner:
  "returns (\<lambda>s. machine_up E gv s \<and> J (kernel_heap s, drive (dev s))) (boot_banner E) (\<lambda>_ s. machine_up E gv s \<and> J (kernel_heap s, drive (dev s)))"
  unfolding boot_banner_def
  by (rule returns_seq [OF returns_boot_log], rule returns_seq [OF returns_boot_log], rule returns_seq [OF returns_boot_log],
      rule returns_boot_log)

lemma returns_print:
  assumes "font_ok (glyphs H)"
  shows "returns (console_up H) (print H cs) (\<lambda>_ g. console_up H g \<and> True)"
proof (rule returnsI)
  fix g assume g: "console_up H g"
  show "\<exists>x g'. print H cs g = Some (Ok x, g') \<and> console_up H g' \<and> True"
  proof (cases "fb_writer g")
    case None
    with g show ?thesis by (simp add: print_def on_console_def)
  next
    case (Some w)
    with g have "fb_inv (glyphs H) w" by (simp add: console_up_def glob_ok_def)
    from returnsD [OF returns_write_str [OF assms] fb_inv_console [OF this]] obtain x w' where
      "write_str (glyphs H) cs w = Some (Ok x, w')" "fb_inv (glyphs H) w'" by (auto simp: console_def)
    with Some g show ?thesis by (auto simp: print_def on_console_def console_up_def glob_ok_def)
  qed
qed

lemma returns_framebuffer:
  assumes "font_ok (glyphs (machine_hw E))"
    and "\<And>buf i. boot_framebuffer bi = Some (buf, i) \<Longrightarrow> screen_ok (glyphs (machine_hw E)) i (length buf)"
  shows "returns (\<lambda>s. machine_up E gv s \<and> J (kernel_heap s, drive (dev s))) (framebuffer_stage E bi) (\<lambda>_ s. machine_up E gv s \<and> J (kernel_heap s, drive (dev s)))"
proof (cases "boot_framebuffer bi")
  case None
  then show ?thesis by (simp add: framebuffer_stage_def returns_ret)
next
  case (Some p)
  then obtain buf i where p: "boot_framebuffer bi = Some (buf, i)" by (cases p) simp
  have "fb_inv (glyphs (machine_hw E)) (fb_new buf i)" using console_new [OF assms(2) [OF p]] by (simp add: console_def)
  then have "returns (console_up (machine_hw E)) (init_framebuffer buf i) (\<lambda>_ g. console_up (machine_hw E) g \<and> True)"
    unfolding init_framebuffer_def
    by (intro returns_modify) (auto simp: console_up_def glob_ok_def split: option.split)
  from returns_on_dev [OF this keeps_drive(3), of gv J] returns_on_dev [OF returns_print [OF assms(1)] keeps_drive(2), where gv = gv and J = J]
  show ?thesis
    unfolding framebuffer_stage_def p option.case prod.case by (intro returns_seq) simp_all
qed

section \<open>The file systems at boot\<close>

lemma keeps_attempt: "keeps f m \<Longrightarrow> (\<And>x. keeps f (k x)) \<Longrightarrow> keeps f (attempt m k)"
  unfolding keeps_def by (metis attempt_cases)

lemma mount_expect_keeps: "keeps f (mount_expect p b v)"
  by (auto simp: mount_expect_def keeps_def ret_run panic_run split: prod.splits outcome.splits)

lemma mount_root_keeps: "keeps (\<lambda>g. (fb_writer g, serial1 g = None)) (mount_root H init)"
proof -
  have log: "keeps (\<lambda>g. (fb_writer g, serial1 g = None)) (bindM (serial_println H t) (\<lambda>_. ret b))" for t b
    unfolding serial_println_def serial_print_def
    by (intro keeps_bindM keeps_modify keeps_ret) (simp add: serial_send_def)
  show ?thesis
    unfolding mount_root_def root_backend_def
    by (intro keeps_bindM keeps_attempt keeps_on_part mount_expect_keeps)
      (auto intro!: keeps_attempt keeps_on_part log split: sum.split)
qed

lemma settles_drive_read: "settles (drive_read (ata_device P) lba buf)"
  unfolding drive_read_def
  by (rule settles_attempt) (auto simp: ata_device_def settles_ata settles_basic split: sum.split prod.split)

text \<open>The disk answers the probe and its first sector is read.\<close>

definition boot_sector :: "('d, 'p, 'm, 'f, 't, 'q) boot_env \<Rightarrow> 'd \<Rightarrow> u8 list option" where
  "boot_sector E d = (case probe_disk E d of
     Some (Ok _, d1) \<Rightarrow> (case drive_read (blockdev (machine_hw E)) 0 zero_block d1 of Some (Ok buf, _) \<Rightarrow> Some buf | _ \<Rightarrow> None)
   | _ \<Rightarrow> None)"

text \<open>\<open>FatFs::mount\<close> on the ATA disk: an error when the sector cannot be read, otherwise what the sector decides.\<close>

lemma fat_mount_cases:
  assumes "probe_disk E d = Some (Ok (), d1)" "blockdev (machine_hw E) = ata_device P"
  obtains d2 where "boot_sector E d = None" "Fat.mount (ata_device P) d1 = Some (Err Io, d2)"
    | buf r d2 where "boot_sector E d = Some buf" "Fat.mount (ata_device P) d1 = Some (r, d2)" "r = Panic Overflow \<longleftrightarrow> bpb_overflows buf"
        "r \<noteq> Panic Fault" "\<forall>vol. r = Ok vol \<longrightarrow> vol_ok vol" "(\<exists>e. r = Err e) \<longleftrightarrow> \<not> fat_sector buf"
proof -
  obtain q d2 where q: "drive_read (ata_device P) 0 zero_block d1 = Some (q, d2)" "\<not> panics q"
    using settles_drive_read [of P 0 zero_block] unfolding settles_def by blast
  have io: "e = Io" if "q = Err e" for e
    using errors_inD [OF errors_in_drive_read [of "{Io}"] q(1) [unfolded that]] by simp
  show ?thesis
  proof (cases q)
    case (Ok buf)
    with q(1) mount_of_sector [of "ata_device P" d1 buf d2] that(2) [of buf _ d2] assms show ?thesis by (auto simp: boot_sector_def)
  next
    case (Err e)
    with q(1) io have "drive_read (ata_device P) 0 zero_block d1 = Some (Err Io, d2)" by blast
    moreover from this have "Fat.mount (ata_device P) d1 = Some (Err Io, d2)" unfolding mount_def by (rule bindM_Err)
    ultimately show ?thesis using that(1) assms by (auto simp: boot_sector_def)
  qed (use q(2) in simp)
qed

text \<open>The mount table a boot ends with.\<close>

definition boot_tree :: "Vfs \<Rightarrow> bool" where
  "boot_tree v \<longleftrightarrow> table_ok v \<and> (\<forall>m\<in>set (mounts v). backend_ok (fs m)) \<and> map mprefix (mounts v) = [[], ''/tmp'', ''/dev'', ''/ram'']"

text \<open>Whether the disk has a boot sector \<open>mount\<close> does not refuse, and whether that sector makes it overflow.\<close>

definition fat_disk :: "('d, 'p, 'm, 'f, 't, 'q) boot_env \<Rightarrow> 'd \<Rightarrow> bool" where
  "fat_disk E d \<longleftrightarrow> (case boot_sector E d of None \<Rightarrow> False | Some buf \<Rightarrow> fat_sector buf)"

definition boot_overflows :: "('d, 'p, 'm, 'f, 't, 'q) boot_env \<Rightarrow> 'd \<Rightarrow> bool" where
  "boot_overflows E d \<longleftrightarrow> (case boot_sector E d of None \<Rightarrow> False | Some buf \<Rightarrow> bpb_overflows buf)"

lemma mount_root_tree:
  assumes "disk_init (drive g) = Some (r, d)" "\<not> panics r" "console_up H g"
    and "r = Ok () \<Longrightarrow> Fat.mount (blockdev H) d = Some (r', d')" "\<not> panics r'" "\<forall>vol. r' = Ok vol \<longrightarrow> vol_ok vol"
  shows "\<exists>v g'. expect (mount_root H disk_init) g = Some (Ok v, g') \<and> console_up H g' \<and> boot_tree v \<and> (fat_mounted v \<longrightarrow> r = Ok () \<and> (\<exists>vol. r' = Ok vol))"
proof -
  note run = mount_root_run [of disk_init g r d H r' d', OF assms(1,2) _ assms(5,6)]
  obtain v g' where
    v: "mount_root H disk_init g = Some (Ok v, g')" "vfs_good \<lparr>glob = g', vfs = v\<rparr>"
    "map mprefix (mounts v) = [[], ''/tmp'', ''/dev'', ''/ram'']"
    "map fs (mounts v) = [(case (r, r') of (Ok _, Ok vol) \<Rightarrow> FatBackend vol | _ \<Rightarrow> RamBackend ram_seed), TmpBackend tmp_new, DevBackend, RamBackend ram_seed]"
    by (rule exE [OF run], use assms(4) in simp) (elim exE conjE, rule that)
  have "console_up H g'" using keepsD [OF mount_root_keeps v(1)] assms(3) by (simp add: console_up_def glob_ok_def)
  moreover have "expect (mount_root H disk_init) g = Some (Ok v, g')"
    unfolding expect_def by (subst attempt_Ok, rule v(1)) (simp add: ret_run)
  moreover have "fat_mounted v = list_ex is_fat (map fs (mounts v))" by (simp add: fat_mounted_def list_ex_iff)
  ultimately show ?thesis
    using v by (intro exI [of _ v] exI [of _ g']) (auto simp: boot_tree_def vfs_good_def split: outcome.splits)
qed

lemma mount_root_overflow:
  assumes "disk_init (drive g) = Some (Ok (), d)" "Fat.mount (blockdev H) d = Some (Panic c, d')"
  shows "expect (mount_root H disk_init) g = Some (Panic c, g\<lparr>drive := d'\<rparr>)"
proof -
  have "on_part drive (\<lambda>d g. g\<lparr>drive := d\<rparr>) disk_init g = Some (Ok (), g\<lparr>drive := d\<rparr>)"
    "on_part drive (\<lambda>d g. g\<lparr>drive := d\<rparr>) (Fat.mount (blockdev H)) (g\<lparr>drive := d\<rparr>) = Some (Panic c, g\<lparr>drive := d'\<rparr>)"
    using assms by (simp_all add: on_part_def)
  then have "root_backend H disk_init g = Some (Panic c, g\<lparr>drive := d'\<rparr>)" by (simp add: root_backend_def attempt_def)
  then have "mount_root H disk_init g = Some (Panic c, g\<lparr>drive := d'\<rparr>)" unfolding mount_root_def by (rule bindM_Panic)
  then show ?thesis by (simp add: expect_def attempt_def)
qed

text \<open>The last stage of the boot, for every ATA disk.\<close>

lemma mount_stage:
  assumes "blockdev (machine_hw E) = ata_device P" "probe_disk E = ata_init P" "console_up (machine_hw E) g"
  shows "if boot_overflows E (drive g) then \<exists>d. expect (mount_root (machine_hw E) (probe_disk E)) g = Some (Panic Overflow, g\<lparr>drive := d\<rparr>)
    else \<exists>v g'. expect (mount_root (machine_hw E) (probe_disk E)) g = Some (Ok v, g') \<and> console_up (machine_hw E) g' \<and> boot_tree v
      \<and> (fat_mounted v \<longrightarrow> fat_disk E (drive g))"
proof -
  obtain r d where r: "probe_disk E (drive g) = Some (r, d)" "\<not> panics r" using settles_ata(3) assms(2) unfolding settles_def by metis
  show ?thesis
  proof (cases r)
    case (Ok u)
    with r(1) have p: "probe_disk E (drive g) = Some (Ok (), d)" by simp
    from p assms(1) show ?thesis
    proof (cases rule: fat_mount_cases)
      case (1 d2)
      with mount_root_tree [of "probe_disk E" g "Ok ()" d "machine_hw E" "Err Io" d2] p assms(1,3) show ?thesis by (auto simp: boot_overflows_def)
    next
      case (2 buf q d2)
      show ?thesis
      proof (cases "bpb_overflows buf")
        case True
        with 2 mount_root_overflow [of "probe_disk E" g d "machine_hw E" Overflow d2] p assms(1) show ?thesis by (auto simp: boot_overflows_def)
      next
        case False
        with 2 have "\<not> panics q" by (cases q) (auto intro: panic_cause.exhaust)
        from mount_root_tree [of "probe_disk E" g "Ok ()" d "machine_hw E" q d2] this p 2 False assms(1,3) show ?thesis by (auto simp: boot_overflows_def fat_disk_def)
      qed
    qed
  next
    case (Err e)
    with mount_root_tree [of "probe_disk E" g r d "machine_hw E" "Err Io" d] r assms(3) have "\<exists>v g'. expect (mount_root (machine_hw E) (probe_disk E)) g = Some (Ok v, g') \<and> console_up (machine_hw E) g'
      \<and> boot_tree v \<and> \<not> fat_mounted v" by auto
    with r(1) Err show ?thesis by (auto simp: boot_overflows_def boot_sector_def)
  qed (use r(2) in simp)
qed

section \<open>Boot\<close>

text \<open>
  What the bootloader and the libraries promise: a font and a screen a glyph fits on, physical memory
  mapped at a valid offset with the heap's range free, a sound memory map with 256 free frames, and
  the documented behaviour of paging and descriptor tables. Nothing is said of the disk.
\<close>

definition machine_ok ::
    "('d, 'p, 'm, 'f, 't, 'q) boot_env \<Rightarrow> boot_info \<Rightarrow> ('t \<Rightarrow> Descriptor list) \<Rightarrow> ('m \<Rightarrow> nat \<rightharpoonup> 'f) \<Rightarrow> ('m \<Rightarrow> 'f set)
       \<Rightarrow> ('d, 'p, 't) boot_state \<Rightarrow> bool" where
  "machine_ok E bi gv pages tables s \<longleftrightarrow>
     font_ok (glyphs (machine_hw E))
     \<and> (case boot_framebuffer bi of None \<Rightarrow> True | Some (buf, i) \<Rightarrow> screen_ok (glyphs (machine_hw E)) i (length buf))
     \<and> (\<exists>off virt. physical_memory_offset bi = Some off \<and> addr_ok E off \<and> addr_add E off (cr3_addr E) = Some virt
          \<and> set heap_pages \<inter> dom (pages (table_at E virt)) = {})
     \<and> maps_pages (paging_lib E) pages tables \<and> frames_law (frame_at (paging_lib E)) \<and> pages_law (paging_lib E)
     \<and> map_ok (boot_regions bi) \<and> 256 \<le> length (usable_frames (frame_at (paging_lib E)) (boot_regions bi))
     \<and> gdt_law (gdt_lib E) gv \<and> stacks_fit (gdt_lib E)
     \<and> seg_fresh (gdt_lib E) gv (segs s) \<and> fb_writer (dev s) = None \<and> exit_writes s = []"

lemma kernel_init_run:
  fixes E :: "('d, 'p, 'm, 'f, 't, 'q) boot_env" and s :: "('d, 'p, 't) boot_state"
  assumes "gdt_law (gdt_lib E) gv" "stacks_fit (gdt_lib E)" "seg_fresh (gdt_lib E) gv (segs s)"
  shows "\<exists>x. kernel_init E s = Some (Ok (), s\<lparr>dev := (case serial1 (dev s) of None \<Rightarrow> (dev s)\<lparr>serial1 := Some (uart_new E)\<rparr> | Some _ \<Rightarrow> dev s),
    segs := x, idt_loaded := True, pics_initialized := True, interrupts_enabled := True\<rparr>) \<and> map_option gv (gdtr x) = Some (descriptors (gdt_lib E))"
proof -
  let ?g = "case serial1 (dev s) of None \<Rightarrow> (dev s)\<lparr>serial1 := Some (uart_new E)\<rparr> | Some _ \<Rightarrow> dev s"
  have ser: "on_dev (serial_init (uart_new E)) s = Some (Ok (), s\<lparr>dev := ?g\<rparr>)"
    by (simp add: on_dev_def on_part_def serial_init_def modify_run)
  obtain x where x: "gdt_init (gdt_lib E) (segs s) = Some (Ok (), x)" "map_option gv (gdtr x) = Some (descriptors (gdt_lib E))"
    using gdt_init_run [OF assms] by auto
  have gdt: "on_part segs (\<lambda>x s. s\<lparr>segs := x\<rparr>) (gdt_init (gdt_lib E)) (s\<lparr>dev := ?g\<rparr>) = Some (Ok (), s\<lparr>dev := ?g, segs := x\<rparr>)"
    by (simp add: on_part_def x(1))
  have "kernel_init E s = Some (Ok (), s\<lparr>dev := ?g, segs := x, idt_loaded := True, pics_initialized := True, interrupts_enabled := True\<rparr>)"
    unfolding kernel_init_def
    by (subst bindM_Ok, rule ser, subst bindM_Ok, rule gdt) (simp add: interrupts_init_def bindM_modify modify_run)
  with x(2) show ?thesis by blast
qed

lemma returns_kernel_init:
  fixes E :: "('d, 'p, 'm, 'f, 't, 'q) boot_env"
  assumes "gdt_law (gdt_lib E) gv" "stacks_fit (gdt_lib E)"
  shows "returns (\<lambda>s. seg_fresh (gdt_lib E) gv (segs s) \<and> fb_writer (dev s) = None \<and> exit_writes s = [] \<and> J (kernel_heap s, drive (dev s)))
    (kernel_init E) (\<lambda>_ s. machine_up E gv s \<and> J (kernel_heap s, drive (dev s)))"
proof (rule returnsI)
  fix s :: "('d, 'p, 't) boot_state"
  assume s: "seg_fresh (gdt_lib E) gv (segs s) \<and> fb_writer (dev s) = None \<and> exit_writes s = [] \<and> J (kernel_heap s, drive (dev s))"
  let ?g = "case serial1 (dev s) of None \<Rightarrow> (dev s)\<lparr>serial1 := Some (uart_new E)\<rparr> | Some _ \<Rightarrow> dev s"
  from kernel_init_run [OF assms, of s] s obtain x where
    run: "kernel_init E s = Some (Ok (), s\<lparr>dev := ?g, segs := x, idt_loaded := True, pics_initialized := True, interrupts_enabled := True\<rparr>)"
      (is "_ = Some (_, ?s)") and x: "map_option gv (gdtr x) = Some (descriptors (gdt_lib E))" by blast
  have "console_up (machine_hw E) ?g" using s by (simp add: console_up_def glob_ok_def split: option.split)
  moreover have "drive ?g = drive (dev s)" by (simp split: option.split)
  ultimately have "machine_up E gv ?s \<and> J (kernel_heap ?s, drive (dev ?s))" using x s by (simp add: machine_up_def)
  with run show "\<exists>x s'. kernel_init E s = Some (Ok x, s') \<and> machine_up E gv s' \<and> J (kernel_heap s', drive (dev s'))" by blast
qed

lemma returns_heap_stage:
  assumes "maps_pages (paging_lib E) pages tables" "frames_law (frame_at (paging_lib E))" "pages_law (paging_lib E)"
    and "map_ok (boot_regions bi)" "256 \<le> length (usable_frames (frame_at (paging_lib E)) (boot_regions bi))"
    and "set heap_pages \<inter> dom (pages m) = {}"
  shows "returns (\<lambda>s. machine_up E gv s \<and> drive (dev s) = d) (heap_stage E bi m)
    (\<lambda>_ s. machine_up E gv s \<and> kernel_heap s = Some (HEAP_START, HEAP_SIZE) \<and> drive (dev s) = d)"
proof (rule returnsI)
  fix s assume s: "machine_up E gv s \<and> drive (dev s) = d"
  let ?v = "\<lparr>mapper = m, frames = frame_allocator_new (boot_regions bi), heap = kernel_heap s\<rparr>"
  from init_heap_run [OF assms(1-3), of ?v] assms(4-6) obtain v' where
    v': "init_heap (paging_lib E) ?v = Some (Ok (), v')" "heap v' = Some (HEAP_START, HEAP_SIZE)"
    by (auto simp: frame_allocator_new_def)
  have "expect (init_heap (paging_lib E)) ?v = Some (Ok (), v')"
    unfolding expect_def by (subst attempt_Ok, rule v'(1)) (simp add: ret_run)
  with s v'(2) show "\<exists>x s'. heap_stage E bi m s = Some (Ok x, s') \<and> machine_up E gv s' \<and> kernel_heap s' = Some (HEAP_START, HEAP_SIZE) \<and> drive (dev s') = d"
    by (simp add: heap_stage_def machine_up_def)
qed

lemma returns_or_panic: "x = Some y \<Longrightarrow> returns P (k y) Q \<Longrightarrow> returns P (bindM (or_panic x) k) Q"
  by (simp add: or_panic_def)

text \<open>Up to the last stage the boot succeeds and does not touch the drive.\<close>

lemma returns_then:
  assumes "returns P m (\<lambda>_. R)" "P s" "\<And>x s1. R s1 \<Longrightarrow> Z (k x s1)"
  shows "Z (bindM m k s)"
  using returnsD [OF assms(1,2)] assms(3) by (auto simp: bindM_Ok)

lemma boot_to_mount:
  assumes "machine_ok E bi gv pages tables s"
  shows "\<exists>s1. kernel_boot E bi s = on_dev (expect (mount_root (machine_hw E) (probe_disk E))) s1
    \<and> machine_up E gv s1 \<and> kernel_heap s1 = Some (HEAP_START, HEAP_SIZE) \<and> drive (dev s1) = drive (dev s)"
proof -
  let ?d = "drive (dev s)" let ?h = "Some (HEAP_START, HEAP_SIZE)"
  let ?U = "\<lambda>s1. machine_up E gv s1 \<and> drive (dev s1) = ?d" and ?H = "\<lambda>s1. machine_up E gv s1 \<and> kernel_heap s1 = ?h \<and> drive (dev s1) = ?d"
  let ?Z = "\<lambda>r. \<exists>s1. r = on_dev (expect (mount_root (machine_hw E) (probe_disk E))) s1 \<and> ?H s1"
  obtain off virt where off: "physical_memory_offset bi = Some off" "addr_ok E off" "addr_add E off (cr3_addr E) = Some virt"
    "set heap_pages \<inter> dom (pages (table_at E virt)) = {}" using assms(1) unfolding machine_ok_def by blast
  have M: "font_ok (glyphs (machine_hw E))" "maps_pages (paging_lib E) pages tables" "frames_law (frame_at (paging_lib E))"
    "pages_law (paging_lib E)" "map_ok (boot_regions bi)"
    "256 \<le> length (usable_frames (frame_at (paging_lib E)) (boot_regions bi))" "gdt_law (gdt_lib E) gv" "stacks_fit (gdt_lib E)"
    "seg_fresh (gdt_lib E) gv (segs s) \<and> fb_writer (dev s) = None \<and> exit_writes s = []"
    "\<And>buf i. boot_framebuffer bi = Some (buf, i) \<Longrightarrow> screen_ok (glyphs (machine_hw E)) i (length buf)"
    using assms(1) by (simp_all add: machine_ok_def)
  have init: "returns (\<lambda>s1. s1 = s) (kernel_init E) (\<lambda>_. ?U)"
    using returns_kernel_init [OF M(7,8), of "\<lambda>(h, d). d = ?d"] M(9) by (auto simp: returns_def)
  have banner: "returns ?U (boot_banner E) (\<lambda>_. ?U)"
    using returns_boot_banner [of E gv "\<lambda>(h, d). d = ?d"] by simp
  have log2: "returns ?H (boot_log E t) (\<lambda>_. ?H)" for t
    using returns_boot_log [of E gv "\<lambda>(h, d). h = ?h \<and> d = ?d" t] by simp
  have fb: "returns ?H (framebuffer_stage E bi) (\<lambda>_. ?H)"
    using returns_framebuffer [where J = "\<lambda>(h, d). h = ?h \<and> d = ?d", OF M(1,10)] by simp
  have heap: "returns ?U (heap_stage E bi (table_at E virt)) (\<lambda>_. ?H)"
    by (rule returns_heap_stage [OF M(2-6) off(4)])
  have mem: "memory_init E off = (ret (table_at E virt) :: (_, unit, _) io)"
    by (simp add: memory_init_def active_level_4_table_def or_panic_def off)
  have "?Z (kernel_boot E bi s)"
    unfolding kernel_boot_def
    by (rule returns_then [where Z = ?Z, OF init refl], rule returns_then [where Z = ?Z, OF banner], assumption,
        simp only: or_panic_def off(1,2) option.case if_True mem bindM_ret,
        rule returns_then [where Z = ?Z, OF heap], assumption, rule returns_then [where Z = ?Z, OF log2], assumption,
        rule returns_then [where Z = ?Z, OF fb], assumption) blast
  then show ?thesis by blast
qed

lemma kernel_boot_run:
  assumes "machine_ok E bi gv pages tables s" "blockdev (machine_hw E) = ata_device P" "probe_disk E = ata_init P"
  shows "if boot_overflows E (drive (dev s)) then \<exists>s1. kernel_boot E bi s = Some (Panic Overflow, s1) \<and> exit_writes s1 = []
    else \<exists>v s1. kernel_boot E bi s = Some (Ok v, s1) \<and> machine_up E gv s1 \<and> kernel_heap s1 = Some (HEAP_START, HEAP_SIZE) \<and> boot_tree v
      \<and> (fat_mounted v \<longrightarrow> fat_disk E (drive (dev s)))"
proof -
  from boot_to_mount [OF assms(1)] obtain s1 where s1: "kernel_boot E bi s = on_dev (expect (mount_root (machine_hw E) (probe_disk E))) s1"
    "machine_up E gv s1" "kernel_heap s1 = Some (HEAP_START, HEAP_SIZE)" "drive (dev s1) = drive (dev s)" by blast
  have "console_up (machine_hw E) (dev s1)" using s1(2) by (simp add: machine_up_def)
  from mount_stage [OF assms(2,3) this] show ?thesis
    unfolding s1(1,4) using s1(2,3) by (auto simp: on_dev_def on_part_def machine_up_def split: if_splits)
qed

lemma spawn_shell_run:
  assumes "array_queue (run_queue_lib E) elems cap"
  shows "\<exists>ex s'. spawn_shell E v s = Some (Ok ex, s') \<and> s' = s\<lparr>next_task_id := next_task_id s + 1\<rparr>
    \<and> tasks ex = [next_task_id s \<mapsto> v] \<and> elems (task_queue ex) = [next_task_id s]"
proof -
  let ?Q = "run_queue_lib E" and ?q = "queue_new (run_queue_lib E) QUEUE_CAPACITY"
  have new: "elems ?q = [] \<and> cap ?q = QUEUE_CAPACITY"
    by (rule array_queue.elems_new [OF assms]) (simp add: QUEUE_CAPACITY_def)
  then obtain q where q: "queue_push ?Q (next_task_id s) ?q = Some q" "elems q = [next_task_id s]"
    using array_queue.push_ok [OF assms, of ?q "next_task_id s"] by (auto simp: QUEUE_CAPACITY_def)
  then show ?thesis
    by (auto simp: spawn_shell_def task_id_new_def spawn_def executor_new_def bindM_gets bindM_modify modify_run)
qed

text \<open>
  C8: the kernel boots. On any machine that keeps the bootloader's promises, and whatever the ATA
  ports answer - no disk, a broken disk, a disk with arbitrary contents -, one of two things happens. If the first sector is read,
  is not refused by \<open>FatFs::mount\<close> and places the tables past sector \<open>2 ^ 32\<close>, the sum that computes their end fails its overflow
  check (in the default build) and the boot panics. On every other disk \<open>kernel_main\<close> reaches the
  executor with the descriptor tables loaded, interrupts enabled, the 256 KiB heap in place, the four
  mounts \<open>/\<close>, \<open>/tmp\<close>, \<open>/dev\<close> and \<open>/ram\<close> over sound back ends, and exactly the shell task queued. Memory allocation is assumed
  to succeed.
\<close>

theorem kernel_boots:
  assumes "machine_ok E bi gv pages tables s" "blockdev (machine_hw E) = ata_device P" "probe_disk E = ata_init P"
    and "array_queue (run_queue_lib E) elems cap"
  shows "if boot_overflows E (drive (dev s)) then \<exists>s1. kernel_boot E bi s = Some (Panic Overflow, s1)
    else \<exists>v s1 ex s2. kernel_boot E bi s = Some (Ok v, s1) \<and> spawn_shell E v s1 = Some (Ok ex, s2)
      \<and> kernel_ok (machine_hw E) \<lparr>glob = dev s2, vfs = v\<rparr> \<and> map mprefix (mounts v) = [[], ''/tmp'', ''/dev'', ''/ram'']
      \<and> interrupts_enabled s2 \<and> idt_loaded s2 \<and> map_option gv (gdtr (segs s2)) = Some (descriptors (gdt_lib E))
      \<and> serial1 (dev s2) \<noteq> None \<and> kernel_heap s2 = Some (0x444444440000, 262144) \<and> exit_writes s2 = []
      \<and> (\<exists>tid. tasks ex = [tid \<mapsto> v] \<and> elems (task_queue ex) = [tid])"
proof (cases "boot_overflows E (drive (dev s))")
  case True
  with kernel_boot_run [OF assms(1-3)] show ?thesis by auto
next
  case False
  with kernel_boot_run [OF assms(1-3)] obtain v s1 where
    b: "kernel_boot E bi s = Some (Ok v, s1)" "machine_up E gv s1" "kernel_heap s1 = Some (HEAP_START, HEAP_SIZE)" "boot_tree v" by auto
  from spawn_shell_run [OF assms(4), of v s1] obtain ex s2 where
    x: "spawn_shell E v s1 = Some (Ok ex, s2)" "s2 = s1\<lparr>next_task_id := next_task_id s1 + 1\<rparr>"
    "tasks ex = [next_task_id s1 \<mapsto> v]" "elems (task_queue ex) = [next_task_id s1]" by blast
  have "kernel_ok (machine_hw E) \<lparr>glob = dev s2, vfs = v\<rparr>" "map mprefix (mounts v) = [[], ''/tmp'', ''/dev'', ''/ram'']"
    using b(2,4) x(2) by (simp_all add: kernel_ok_def vfs_good_def boot_tree_def machine_up_def console_up_def)
  with b x show ?thesis unfolding if_not_P [OF False]
    by (intro exI [of _ v] exI [of _ s1] exI [of _ ex] exI [of _ s2])
      (auto simp: machine_up_def console_up_def heap_consts)
qed

text \<open>The run after a successful boot.\<close>

lemma kernel_main_run:
  assumes "array_queue (run_queue_lib E) elems cap" "kernel_boot E bi s = Some (Ok v, s1)"
  shows "kernel_main E bi dec kb events s = bindM (run_shell E dec kb events v) (\<lambda>d. ret (Some d)) (s1\<lparr>next_task_id := next_task_id s1 + 1\<rparr>)"
proof -
  from spawn_shell_run [OF assms(1), of v s1] obtain ex s2 where
    x: "spawn_shell E v s1 = Some (Ok ex, s2)" "s2 = s1\<lparr>next_task_id := next_task_id s1 + 1\<rparr>"
    "tasks ex = [next_task_id s1 \<mapsto> v]" "elems (task_queue ex) = [next_task_id s1]" by blast
  obtain q where q: "queue_pop (run_queue_lib E) (task_queue ex) = Some (next_task_id s1, q)"
    using array_queue.pop_some [OF assms(1) x(4)] by blast
  show ?thesis
    unfolding kernel_main_def x(2) [symmetric]
    by (subst bindM_Ok, rule assms(2), subst bindM_Ok, rule x(1)) (simp add: run_executor_def q x(3))
qed

lemma run_shell_main:
  assumes "shell_loop (machine_hw E) dec events (shell_start \<lparr>glob = dev s2, vfs = v\<rparr> kb) = Some (r1, d1)"
  shows "bindM (run_shell E dec kb events v) (\<lambda>d. ret (Some d)) s2
    = Some (case r1 of Ok _ \<Rightarrow> Ok (Some d1) | Err e \<Rightarrow> Err e | Panic c \<Rightarrow> Panic c, s2\<lparr>dev := glob (kern (shell d1))\<rparr>)"
  by (cases r1) (simp_all add: run_shell_def assms bindM_def ret_run)


text \<open>No physical-memory mapping, or no memory for the heap.\<close>

definition boot_impossible :: "('d, 'p, 'm, 'f, 't, 'q) boot_env \<Rightarrow> boot_info \<Rightarrow> ('d, 'p, 't) boot_state \<Rightarrow> bool" where
  "boot_impossible E bi s \<longleftrightarrow> physical_memory_offset bi = None
      \<or> (\<exists>off virt e v. physical_memory_offset bi = Some off \<and> addr_ok E off \<and> addr_add E off (cr3_addr E) = Some virt
           \<and> init_heap (paging_lib E) \<lparr>mapper = table_at E virt, frames = frame_allocator_new (boot_regions bi),
               heap = kernel_heap s\<rparr> = Some (Err e, v))"

lemma boot_failure_run:
  assumes "gdt_law (gdt_lib E) gv" "stacks_fit (gdt_lib E)" "seg_fresh (gdt_lib E) gv (segs s)" "fb_writer (dev s) = None"
    and "exit_writes s = []"
    and "boot_impossible E bi s"
  shows "\<exists>s'. with_panic_handler E (kernel_main E bi dec kb events) s = Some (Panic Fault, s') \<and> exit_writes s' = [0x11]"
proof -
  let ?P = "\<lambda>s'. machine_up E gv s' \<and> kernel_heap s' = kernel_heap s"
  have init: "returns (\<lambda>s'. s' = s) (kernel_init E) (\<lambda>_. ?P)"
    by (rule returns_conseq [OF returns_kernel_init [OF assms(1,2), of "\<lambda>(h, d). h = kernel_heap s"]]) (use assms(3-5) in auto)
  have banner: "returns ?P (boot_banner E) (\<lambda>_. ?P)"
    using returns_boot_banner [where J = "\<lambda>(h, d). h = kernel_heap s"] by simp
  let ?rest = "bindM (or_panic (physical_memory_offset bi)) (\<lambda>offset.
     bindM (or_panic (if addr_ok E offset then Some () else None)) (\<lambda>_.
     bindM (memory_init E offset) (\<lambda>m. bindM (heap_stage E bi m) (\<lambda>_.
     bindM (boot_log E (''[stage] heap up @ '' @ show_hex HEAP_START @ '' ('' @ show_nat (HEAP_SIZE div 1024) @ '' KiB)'')) (\<lambda>_.
     bindM (framebuffer_stage E bi) (\<lambda>_.
     on_dev (expect (mount_root (machine_hw E) (probe_disk E)))))))))"
  obtain s0 where s0: "kernel_init E s = Some (Ok (), s0)" "?P s0" using returnsD [OF init refl] by auto
  obtain s1 where s1: "boot_banner E s0 = Some (Ok (), s1)" "?P s1" using returnsD [OF banner s0(2)] by auto
  have boot: "kernel_boot E bi s = ?rest s1"
    unfolding kernel_boot_def by (subst bindM_Ok, rule s0(1), subst bindM_Ok, rule s1(1), rule refl)
  have "\<exists>s2. ?rest s1 = Some (Panic Fault, s2) \<and> exit_writes s2 = []"
    using assms(6) unfolding boot_impossible_def
  proof (elim disjE exE conjE)
    assume "physical_memory_offset bi = None"
    then show ?thesis using s1(2) by (simp add: or_panic_def bindM_Panic panic_run machine_up_def)
  next
    fix off virt e v
    assume off: "physical_memory_offset bi = Some off" "addr_ok E off" "addr_add E off (cr3_addr E) = Some virt"
      and heap: "init_heap (paging_lib E) \<lparr>mapper = table_at E virt, frames = frame_allocator_new (boot_regions bi),
        heap = kernel_heap s\<rparr> = Some (Err e, v)"
    then have "heap_stage E bi (table_at E virt) s1 = Some (Panic Fault, s1\<lparr>kernel_heap := heap v\<rparr>)"
      using s1(2) by (simp add: heap_stage_def expect_def attempt_Err panic_run)
    then show ?thesis
      using s1(2) off
      by (simp add: or_panic_def memory_init_def active_level_4_table_def bindM_Panic machine_up_def)
  qed
  then obtain s2 where s2: "kernel_boot E bi s = Some (Panic Fault, s2)" "exit_writes s2 = []" using boot by auto
  have "kernel_main E bi dec kb events s = Some (Panic Fault, s2)"
    unfolding kernel_main_def by (rule bindM_Panic) (rule s2(1))
  then show ?thesis using s2(2) by (simp add: with_panic_handler_def exit_code_def)
qed

text \<open>
  A boot that cannot go on says so: without a physical-memory mapping, or when the heap cannot be
  mapped, the kernel panics, and the panic handler's last action is the write of the failure code to
  the exit port.
\<close>

theorem boot_failure_exits:
  assumes "gdt_law (gdt_lib E) gv" "stacks_fit (gdt_lib E)" "seg_fresh (gdt_lib E) gv (segs s)" "fb_writer (dev s) = None"
    and "exit_writes s = []"
    and "boot_impossible E bi s"
  shows "\<exists>s'. with_panic_handler E (kernel_main E bi dec kb events) s = Some (Panic Fault, s') \<and> exit_writes s' = [0x11]"
  using assms by (rule boot_failure_run)

section \<open>A machine\<close>

definition demo_env_boot ::
    "(ata_view AtaDrive, u8 list, nat \<rightharpoonup> nat, nat, Descriptor list, TaskId list \<times> nat) boot_env" where
  "demo_env_boot = \<lparr>machine_hw = sim_hardware, probe_disk = ata_init sim_ports, uart_new = [], addr_ok = (\<lambda>_. True),
     addr_add = (\<lambda>a n. Some (a + n)), cr3_addr = 0x1000, table_at = (\<lambda>_. Map.empty), paging_lib = flat_paging,
     gdt_lib = list_gdt, run_queue_lib = list_queue, panic_message = ''panicked''\<rparr>"

definition demo_info :: boot_info where
  "demo_info = \<lparr>physical_memory_offset = Some 0x18000000000, boot_regions = demo_map,
     boot_framebuffer = Some (replicate 57 0, tiny_info)\<rparr>"

definition reset_state :: "(ata_view AtaDrive, u8 list, Descriptor list) boot_state" where
  "reset_state = \<lparr>dev = \<lparr>fb_writer = None, serial1 = None, drive = new_primary_slave blank_disk, ticks = 0\<rparr>, segs = boot_seg,
     idt_loaded = False, pics_initialized = False, interrupts_enabled = False, kernel_heap = None, next_task_id = 0,
     exit_writes = []\<rparr>"

lemma demo_machine:
  "machine_ok demo_env_boot demo_info id (\<lambda>m. m) (\<lambda>_. {}) reset_state"
  "blockdev (machine_hw demo_env_boot) = ata_device sim_ports" "probe_disk demo_env_boot = ata_init sim_ports"
  "array_queue (run_queue_lib demo_env_boot) fst snd"
  using lq.array_queue_axioms tiny_ok
  by (simp_all add: machine_ok_def demo_env_boot_def demo_info_def reset_state_def sim_hardware_def tiny_ok flat_laws flat_maps
      demo_map_ok list_gdt_ok boot_seg_ok)

text \<open>The blank disk of the demonstration machine has no FAT boot sector.\<close>

lemma demo_disk: "\<not> fat_disk demo_env_boot (drive (dev reset_state))"
proof -
  obtain d where d: "ata_init sim_ports (new_primary_slave blank_disk) = Some (Ok (), d)" "ata_ok sim_view d"
    "ata_blk sim_view d = disk (sim_view blank_disk)" "unat (sectors d) = capacity (sim_view blank_disk)"
    using ata_init_ready [OF sim.ata_controller_axioms, of blank_disk] by (auto simp: sim_view_def blank_disk_def)
  have b: "disk (sim_view blank_disk) 0 = replicate 512 0" "capacity (sim_view blank_disk) = 100" by (simp_all add: sim_view_def blank_disk_def)
  have "(0 :: u64) < num_blocks (ata_device sim_ports) d" using d(4) b(2) by (simp add: ata_device_def word_less_nat_alt unsigned_ucast_eq)
  from block_device.read_ok [OF sim.is_block_device d(2) this, of zero_block] obtain d' where
    "read_block (ata_device sim_ports) 0 zero_block d = Some (Ok (BLOCK_SIZE, replicate 512 0), d')"
    using d(3) b(1) by (auto simp: zero_block_def BLOCK_SIZE_def)
  then have "drive_read (ata_device sim_ports) 0 zero_block d = Some (Ok (replicate 512 0), d')" by (simp add: drive_read_def attempt_Ok ret_run)
  moreover have "\<not> fat_sector (replicate 512 0)" by (simp add: fat_sector_def u16_from_le_bytes_def)
  ultimately show ?thesis using d(1)
    by (simp add: fat_disk_def boot_sector_def demo_env_boot_def reset_state_def sim_hardware_def)
qed

lemma demo_boot: "\<not> boot_overflows demo_env_boot (drive (dev reset_state))"
  using demo_disk by (auto simp: boot_overflows_def fat_disk_def bpb_overflows_def split: option.splits)

theorem kernel_boots_witness:
  "\<exists>v s1. kernel_boot demo_env_boot demo_info reset_state = Some (Ok v, s1)
     \<and> map mprefix (mounts v) = [[], ''/tmp'', ''/dev'', ''/ram'']"
  using kernel_boots [OF demo_machine] unfolding if_not_P [OF demo_boot] by (elim exE conjE) (intro exI conjI)

lemma prompt_returns:
  assumes "font_ok (glyphs H)" "console_up H g"
  shows "\<exists>d. shell_loop H dec [] (shell_start \<lparr>glob = g, vfs = v\<rparr> kb) = Some (Ok (), d)"
proof -
  let ?s = "shell_start \<lparr>glob = g, vfs = v\<rparr> kb"
  obtain g' where g': "(print H (chars (prompt (shell ?s))) :: (_, unit, _) io) g = Some (Ok (), g')"
    using returnsD [OF returns_print [OF assms(1)] assms(2)] by auto
  have "on_devices (print H (chars (prompt (shell ?s)))) ?s = Some (Ok (), put_glob g' ?s)"
    unfolding on_devices_def by (rule on_part_run) (use g' in \<open>simp add: shell_start_def shell_new_def\<close>)
  then show ?thesis
    by (auto simp: shell_loop_def show_prompt_def show_text_def bindM_gets bindM_Ok on_devices_def on_part_def
        serial_print_def modify_run ret_run)
qed


theorem boot_failure_exits_witness:
  "\<exists>s'. with_panic_handler demo_env_boot (kernel_main demo_env_boot (demo_info\<lparr>physical_memory_offset := None\<rparr>) plain_keys () [])
      reset_state = Some (Panic Fault, s') \<and> exit_writes s' = [0x11]"
  by (rule boot_failure_exits [where gv = id])
    (simp_all add: boot_impossible_def demo_env_boot_def list_gdt_ok reset_state_def boot_seg_ok demo_info_def)

end
