(* ===== verification/System.thy ===== *)
theory System
  imports Boot Terminal
begin

text \<open>
  The whole machine, from power-on to power-off: \<open>kernel_main\<close> on an ATA disk with a FAT volume, fed by the keyboard. What is sent to the
  serial port and logged on the console is the boot text followed by what the abstract terminal shows, and the disk it leaves is a disk
  the next power-on finds in the state the session left.
\<close>

section \<open>What the boot prints\<close>

definition lines_text :: "string list \<Rightarrow> string" where
  "lines_text ls = concat (map (\<lambda>l. l @ [newline_char]) ls)"

definition boot_lines :: "string list" where
  "boot_lines = [[], ''============================================'', ''  Willo kernel '' @ em_dash @ '' M10 multi-mount + scrollback'',
     ''============================================'', ''[stage] heap up @ 0x444444440000 (256 KiB)'', ''[fs] mounted FAT32 on primary IDE slave'']"

definition screen_banner :: "rchar list" where
  "screen_banner = map of_char ''Willo M10 '' @ [0x2014] @ map of_char '' type `help`'' @ [0x0A]"

text \<open>The state between the stages: what has been sent and shown so far; nothing was written to the exit port.\<close>

definition booted :: "('d, 'p, 'm, 'f, 't, 'q) boot_env \<Rightarrow> u8 list \<Rightarrow> history option \<Rightarrow> 'd \<Rightarrow> u64 \<Rightarrow> ('d, 'p, 't) boot_state \<Rightarrow> bool" where
  "booted E bytes hist d t s \<longleftrightarrow> serial1 (dev s) = Some (fold (uart_send (machine_hw E)) bytes (uart_new E)) \<and> screen_shows (machine_hw E) hist (dev s)
     \<and> drive (dev s) = d \<and> ticks (dev s) = t \<and> exit_writes s = []"

lemma returns_log:
  "returns (booted E bytes hist d t) (boot_log E l) (\<lambda>_. booted E (bytes @ as_bytes (l @ [newline_char])) hist d t)"
  by (rule returnsI) (auto simp: boot_log_def on_dev_def on_part_def serial_println_def serial_print_def modify_run booted_def serial_send_def screen_shows_def)

lemma returns_banner:
  "returns (booted E bytes hist d t) (boot_banner E) (\<lambda>_. booted E (bytes @ as_bytes (lines_text (take 4 boot_lines))) hist d t)"
proof -
  have "returns (booted E bytes hist d t) (boot_banner E) (\<lambda>_. booted E ((((bytes @ as_bytes ([] @ [newline_char]))
      @ as_bytes (''============================================'' @ [newline_char]))
      @ as_bytes ((''  Willo kernel '' @ em_dash @ '' M10 multi-mount + scrollback'') @ [newline_char]))
      @ as_bytes (''============================================'' @ [newline_char])) hist d t)"
    unfolding boot_banner_def
    by (rule returns_seq [OF returns_log], rule returns_seq [OF returns_log], rule returns_seq [OF returns_log], rule returns_log)
  moreover have "take 4 boot_lines = [[], ''============================================'', ''  Willo kernel '' @ em_dash @ '' M10 multi-mount + scrollback'',
     ''============================================'']" by (simp add: boot_lines_def)
  ultimately show ?thesis by (simp only: lines_text_def list.map concat.simps as_bytes_def map_append append_assoc append_Nil append_Nil2)
qed

lemma returns_screen:
  assumes "font_ok (glyphs (machine_hw E))"
    and "\<And>buf i. boot_framebuffer bi = Some (buf, i) \<Longrightarrow> screen_ok (glyphs (machine_hw E)) i (length buf)"
  shows "returns (booted E bytes None d t) (framebuffer_stage E bi)
    (\<lambda>_. booted E bytes (map_option (\<lambda>_. fold log_char screen_banner ([], [])) (boot_framebuffer bi)) d t)"
proof (cases "boot_framebuffer bi")
  case None
  then show ?thesis by (simp add: framebuffer_stage_def returns_ret)
next
  case (Some p)
  then obtain buf i where p: "boot_framebuffer bi = Some (buf, i)" by (cases p) simp
  note new = console_new [OF assms(2) [OF p]]
  show ?thesis unfolding framebuffer_stage_def p option.case prod.case option.map
  proof (rule returns_seq [where R = "booted E bytes (Some ([], [])) d t"])
    show "returns (booted E bytes None d t) (on_dev (init_framebuffer buf i)) (\<lambda>_. booted E bytes (Some ([], [])) d t)"
      by (rule returnsI) (auto simp: on_dev_def on_part_def init_framebuffer_def modify_run booted_def screen_shows_def new)
    show "returns (booted E bytes (Some ([], [])) d t) (on_dev (print (machine_hw E) (map of_char ''Willo M10 '' @ [0x2014] @ map of_char '' type `help`'' @ [0x0A])))
      (\<lambda>_. booted E bytes (Some (fold log_char screen_banner ([], []))) d t)"
      unfolding screen_banner_def [symmetric]
    proof (rule returnsI)
      fix s assume s: "booted E bytes (Some ([], [])) d t s"
      then have "screen_shows (machine_hw E) (Some ([], [])) (dev s)" by (simp add: booted_def)
      from console_run [OF returns_write_str [OF assms(1)] this, of screen_banner] obtain g where
        g: "(print (machine_hw E) screen_banner :: (_, unit, _) io) (dev s) = Some (Ok (), g)" "drive g = drive (dev s)" "ticks g = ticks (dev s)" "serial1 g = serial1 (dev s)"
          "screen_shows (machine_hw E) (Some (fold log_char screen_banner ([], []))) g"
        unfolding print_def option.map by blast
      then show "\<exists>x s'. on_dev (print (machine_hw E) screen_banner) s = Some (Ok x, s') \<and> booted E bytes (Some (fold log_char screen_banner ([], []))) d t s'"
        using s by (simp add: on_dev_def on_part_def booted_def)
    qed
  qed
qed

lemma returns_heap:
  assumes "maps_pages (paging_lib E) pages tables" "frames_law (frame_at (paging_lib E))" "pages_law (paging_lib E)"
    and "map_ok (boot_regions bi)" "256 \<le> length (usable_frames (frame_at (paging_lib E)) (boot_regions bi))"
    and "set heap_pages \<inter> dom (pages m) = {}"
  shows "returns (booted E bytes hist d t) (heap_stage E bi m) (\<lambda>_. booted E bytes hist d t)"
proof (rule returnsI)
  fix s assume s: "booted E bytes hist d t s"
  let ?v = "\<lparr>mapper = m, frames = frame_allocator_new (boot_regions bi), heap = kernel_heap s\<rparr>"
  from init_heap_run [OF assms(1-3), of ?v] assms(4-6) obtain v' where v': "init_heap (paging_lib E) ?v = Some (Ok (), v')"
    by (auto simp: frame_allocator_new_def)
  have "expect (init_heap (paging_lib E)) ?v = Some (Ok (), v')"
    unfolding expect_def by (subst attempt_Ok, rule v') (simp add: ret_run)
  with s show "\<exists>x s'. heap_stage E bi m s = Some (Ok x, s') \<and> booted E bytes hist d t s'"
    by (simp add: heap_stage_def booted_def)
qed

abbreviation boot_vfs :: "FatFs \<Rightarrow> Vfs" where
  "boot_vfs vol \<equiv> \<lparr>mounts = boot_table vol\<rparr>"

lemma mount_root_fat:
  assumes "disk_init (drive g) = Some (Ok (), d1)" "Fat.mount (blockdev H) d1 = Some (Ok vol, d2)"
  shows "mount_root H disk_init g = Some (Ok (boot_vfs vol),
    serial_send H (as_bytes (''[fs] mounted FAT32 on primary IDE slave'' @ [newline_char])) (g\<lparr>drive := d2\<rparr>))"
proof -
  have "on_part drive (\<lambda>d g. g\<lparr>drive := d\<rparr>) disk_init g = Some (Ok (), g\<lparr>drive := d1\<rparr>)"
    "on_part drive (\<lambda>d g. g\<lparr>drive := d\<rparr>) (Fat.mount (blockdev H)) (g\<lparr>drive := d1\<rparr>) = Some (Ok vol, g\<lparr>drive := d2\<rparr>)"
    using assms by (simp_all add: on_part_def)
  then have root: "root_backend H disk_init g = Some (Ok (FatBackend vol),
      serial_send H (as_bytes (''[fs] mounted FAT32 on primary IDE slave'' @ [newline_char])) (g\<lparr>drive := d2\<rparr>))"
    by (simp add: root_backend_def attempt_Ok serial_println_def serial_print_def bindM_modify ret_run)
  show ?thesis unfolding mount_root_def
    by (subst bindM_Ok, rule root)
      (simp add: mount_expect_def vfs_new_def vfs_mount_def MAX_MOUNTS_def starts_with_def canonical_prefix_def trim_end_matches_def ret_run)
qed

lemma returns_mounts:
  assumes "probe_disk E d = Some (Ok (), d1)" "Fat.mount (blockdev (machine_hw E)) d1 = Some (Ok vol, d2)"
  shows "returns (booted E bytes hist d t) (on_dev (expect (mount_root (machine_hw E) (probe_disk E))))
    (\<lambda>v s. booted E (bytes @ as_bytes (''[fs] mounted FAT32 on primary IDE slave'' @ [newline_char])) hist d2 t s \<and> v = boot_vfs vol)"
proof (rule returnsI)
  fix s assume s: "booted E bytes hist d t s"
  have "expect (mount_root (machine_hw E) (probe_disk E)) (dev s) = Some (Ok (boot_vfs vol),
      serial_send (machine_hw E) (as_bytes (''[fs] mounted FAT32 on primary IDE slave'' @ [newline_char])) ((dev s)\<lparr>drive := d2\<rparr>))"
    unfolding expect_def by (subst attempt_Ok, rule mount_root_fat [OF _ assms(2)]) (use assms(1) s in \<open>simp_all add: booted_def ret_run\<close>)
  then show "\<exists>v s'. on_dev (expect (mount_root (machine_hw E) (probe_disk E))) s = Some (Ok v, s')
      \<and> booted E (bytes @ as_bytes (''[fs] mounted FAT32 on primary IDE slave'' @ [newline_char])) hist d2 t s' \<and> v = boot_vfs vol"
    using s by (simp add: on_dev_def on_part_def booted_def serial_send_def screen_shows_def)
qed

lemma heap_text: "show_hex HEAP_START = ''0x444444440000''" "show_nat (HEAP_SIZE div 1024) = ''256''"
  by (simp_all add: heap_consts show_hex_def hex_digits.simps hex_digit_def show_nat.simps) code_simp+

lemma boot_exact:
  assumes "machine_ok E bi gv pages tables s" "probe_disk E (drive (dev s)) = Some (Ok (), d1)" "Fat.mount (blockdev (machine_hw E)) d1 = Some (Ok vol, d2)"
    and "serial1 (dev s) = None"
  shows "\<exists>s'. kernel_boot E bi s = Some (Ok (boot_vfs vol), s')
    \<and> booted E (as_bytes (lines_text boot_lines)) (map_option (\<lambda>_. fold log_char screen_banner ([], [])) (boot_framebuffer bi)) d2 (ticks (dev s)) s'"
proof -
  let ?hist = "map_option (\<lambda>_. fold log_char screen_banner ([], [])) (boot_framebuffer bi)" and ?B = "booted E" and ?d = "drive (dev s)" and ?t = "ticks (dev s)"
  obtain off virt where off: "physical_memory_offset bi = Some off" "addr_ok E off" "addr_add E off (cr3_addr E) = Some virt"
    "set heap_pages \<inter> dom (pages (table_at E virt)) = {}" using assms(1) unfolding machine_ok_def by blast
  have M: "font_ok (glyphs (machine_hw E))" "maps_pages (paging_lib E) pages tables" "frames_law (frame_at (paging_lib E))"
    "pages_law (paging_lib E)" "map_ok (boot_regions bi)"
    "256 \<le> length (usable_frames (frame_at (paging_lib E)) (boot_regions bi))" "gdt_law (gdt_lib E) gv" "stacks_fit (gdt_lib E)"
    "seg_fresh (gdt_lib E) gv (segs s)" "fb_writer (dev s) = None" "exit_writes s = []"
    "\<And>buf i. boot_framebuffer bi = Some (buf, i) \<Longrightarrow> screen_ok (glyphs (machine_hw E)) i (length buf)"
    using assms(1) by (simp_all add: machine_ok_def)
  have init: "returns (\<lambda>x. x = s) (kernel_init E) (\<lambda>_. ?B [] None ?d ?t)"
    using kernel_init_run [OF M(7-9)] assms(4) M(10,11) by (intro returnsI) (auto simp: booted_def screen_shows_def)
  have mem: "memory_init E off = (ret (table_at E virt) :: (_, unit, _) io)"
    by (simp add: memory_init_def active_level_4_table_def or_panic_def off)
  have heap: "''[stage] heap up @ '' @ show_hex HEAP_START @ '' ('' @ show_nat (HEAP_SIZE div 1024) @ '' KiB)'' = boot_lines ! 4"
    by (simp add: heap_text boot_lines_def)
  have "returns (\<lambda>x. x = s) (kernel_boot E bi)
      (\<lambda>v s'. ?B (((([] @ as_bytes (lines_text (take 4 boot_lines))) @ as_bytes (boot_lines ! 4 @ [newline_char])))
        @ as_bytes (''[fs] mounted FAT32 on primary IDE slave'' @ [newline_char])) ?hist d2 ?t s' \<and> v = boot_vfs vol)"
    unfolding kernel_boot_def heap
    by (rule returns_seq [OF init], rule returns_seq [OF returns_banner], rule returns_or_panic [OF off(1)],
        rule returns_or_panic [of _ "()"], simp add: off(2), simp only: mem bindM_ret,
        rule returns_seq [OF returns_heap [OF M(2-6) off(4)]], rule returns_seq [OF returns_log], rule returns_seq [OF returns_screen [OF M(1,12)]],
        assumption, rule returns_mounts [OF assms(2,3)])
  from returnsD [OF this refl] show ?thesis by (simp add: lines_text_def boot_lines_def)
qed

section \<open>Restarting\<close>

text \<open>After a restart the controller is idle and the disk has the sectors it had.\<close>

definition restarted :: "('h \<Rightarrow> ata_view) \<Rightarrow> 'h AtaDrive \<Rightarrow> 'h \<Rightarrow> bool" where
  "restarted vw d h \<longleftrightarrow> busy (vw h) = 0 \<and> phase (vw h) = Idle \<and> disk (vw h) = ata_blk vw d \<and> capacity (vw h) = unat (sectors d)"

text \<open>A controller at power-on: idle, with a disk that holds a well-formed volume.\<close>

definition idle_disk :: "('h \<Rightarrow> ata_view) \<Rightarrow> FatFs \<Rightarrow> nat \<Rightarrow> tree \<Rightarrow> 'h \<Rightarrow> bool" where
  "idle_disk vw vol n T h \<longleftrightarrow> busy (vw h) = 0 \<and> phase (vw h) = Idle \<and> capacity (vw h) \<le> 2 ^ 28 \<and> (\<forall>b. length (disk (vw h) b) = 512)
     \<and> cap vol * cluster_bytes vol < 2 ^ 32 \<and> fat_volume vol n T (map (disk (vw h)) [0..<capacity (vw h)])"

lemma ata_image: "device_image (ata_device P) (ata_blk vw) d = map (disk (vw (hw d))) [0..<unat (sectors d)]"
  by (simp add: device_image_def ata_device_def ata_blk_def)

lemma restarted_idle:
  assumes "ata_ok vw d" "fat_volume vol n T (device_image (ata_device P) (ata_blk vw) d)" "cap vol * cluster_bytes vol < 2 ^ 32" "restarted vw d h"
  shows "idle_disk vw vol n T h"
  using assms by (simp add: idle_disk_def restarted_def ata_ok_def ata_image ata_blk_def BLOCK_SIZE_def)

lemma idle_disk_mounts:
  assumes "ata_controller P vw" "idle_disk vw vol n T h"
  shows "\<exists>d1 d2. ata_init P (new_primary_slave h) = Some (Ok (), d1) \<and> Fat.mount (ata_device P) d1 = Some (Ok vol, d2) \<and> ata_ok vw d2
    \<and> fat_volume vol n T (device_image (ata_device P) (ata_blk vw) d2)"
proof -
  note I = assms(2) [unfolded idle_disk_def]
  obtain d1 where d1: "ata_init P (new_primary_slave h) = Some (Ok (), d1)" "ata_ok vw d1" "ata_blk vw d1 = disk (vw h)"
    "unat (sectors d1) = capacity (vw h)" using ata_init_ready [OF assms(1), of h] I by auto
  have "fat_volume vol n T (device_image (ata_device P) (ata_blk vw) d1)" using I d1(3,4) by (simp add: ata_image ata_blk_def)
  from block_device.mount_dev [OF ata_controller.is_block_device [OF assms(1)] d1(2) this] d1(1) show ?thesis by blast
qed

text \<open>What a restart leaves of the maps: the volume as it was, an empty tmpfs.\<close>

lemma restart_world:
  assumes "skeleton v = skeleton \<lparr>mounts = boot_table vol\<rparr>"
  shows "world T \<lparr>mounts = boot_table vol\<rparr> = (world T v)[1 := view (TmpFs.root tmp_new)]" "fs (mounts v ! 0) = FatBackend vol" "length (mounts v) = 4"
proof -
  show len: "length (mounts v) = 4" using skeletonD(2) [OF assms] by simp
  have sh: "i < 4 \<Longrightarrow> shape (fs (mounts v ! i)) = shape (fs (boot_table vol ! i))" for i using skeletonD(3) [OF assms, of i] by simp
  show fat: "fs (mounts v ! 0) = FatBackend vol" using sh [of 0] by (simp add: shape_def split: backend.splits)
  have "mount_map T (fs (mounts v ! 2)) = Map.empty" "mount_map T (fs (mounts v ! 3)) = Map.empty"
    using sh [of 2] sh [of 3] by (simp_all add: shape_def mount_map_def split: backend.splits)
  moreover have "mount_map T (fs (mounts v ! 0)) = tree_view T" using fat by (simp add: mount_map_def)
  moreover obtain a b c d where "mounts v = [a, b, c, d]" using len by (auto simp: length_Suc_conv eval_nat_numeral)
  ultimately show "world T \<lparr>mounts = boot_table vol\<rparr> = (world T v)[1 := view (TmpFs.root tmp_new)]"
    by (simp add: world_def) (simp add: mount_map_def)
qed

section \<open>Power-on to power-off\<close>

text \<open>The maps of the four mounts: the disk, \<open>/tmp\<close>, and two mounts nothing can be written to.\<close>

abbreviation mount_maps :: "tree \<Rightarrow> fs_map \<Rightarrow> fs_map list" where
  "mount_maps T tmp \<equiv> [tree_view T, tmp, Map.empty, Map.empty]"

abbreviation power_on :: "u64 \<Rightarrow> tree \<Rightarrow> term_state" where
  "power_on t T \<equiv> (t, [], (mount_maps T (view (TmpFs.root tmp_new)), ''/''))"

lemma boot_world: "world T (boot_vfs vol) = mount_maps T (view (TmpFs.root tmp_new))"
  by (simp add: world_def mount_map_def)

lemma skeleton_world:
  assumes "skeleton v = skeleton (boot_vfs vol)"
  shows "\<exists>M. world T v = mount_maps T M"
proof -
  have len: "length (world T v) = 4" using restart_world(3) [OF assms] by (simp add: world_def)
  have "(world T v)[1 := view (TmpFs.root tmp_new)] = mount_maps T (view (TmpFs.root tmp_new))"
    using restart_world(1) [OF assms, of T] boot_world by metis
  with len show ?thesis by (auto simp: length_Suc_conv eval_nat_numeral)
qed

lemma machine_run:
  assumes "machine_ok E bi gv pages tables s" "blockdev (machine_hw E) = ata_device P" "probe_disk E = ata_init P" "array_queue (run_queue_lib E) elems qcap"
    and "ata_controller P vw" "drive (dev s) = new_primary_slave h" "idle_disk vw vol n T h" "serial1 (dev s) = None"
    and "inputs_ok (boot_vfs vol) (decoded dec events kb) (power_on (ticks (dev s)) T)"
  shows "\<exists>outs d s' T' M. with_panic_handler E (kernel_main E bi dec kb events) s = Some (Ok (Some d), s') \<and> exit_writes s' = []
    \<and> typed (boot_vfs vol) (decoded dec events kb) (power_on (ticks (dev s)) T) outs (ticks (dev s'), line d, (mount_maps T' M, cwd (shell d)))
    \<and> serial1 (dev s') = Some (fold (uart_send (machine_hw E)) (as_bytes (lines_text boot_lines) @ concat (map serial_bytes (Shown (prompt_at ''/'') # outs))) (uart_new E))
    \<and> screen_shows (machine_hw E) (map_option (\<lambda>_. fold log_char (screen_banner @ concat (map screen_chars (Shown (prompt_at ''/'') # outs))) ([], [])) (boot_framebuffer bi)) (dev s')
    \<and> (\<forall>h'. restarted vw (drive (dev s')) h' \<longrightarrow> idle_disk vw vol n T' h')"
proof -
  let ?H = "machine_hw E" and ?t = "ticks (dev s)" and ?hist = "map_option (\<lambda>_. fold log_char screen_banner ([], [])) (boot_framebuffer bi)"
  note dev = ata_controller.is_block_device [OF assms(5), folded assms(2)]
  have cap: "cap vol * cluster_bytes vol < 2 ^ 32" using assms(7) by (simp add: idle_disk_def)
  have font: "font_ok (glyphs ?H)" using assms(1) by (simp add: machine_ok_def)
  obtain d1 d2 where D: "ata_init P (new_primary_slave h) = Some (Ok (), d1)" "Fat.mount (ata_device P) d1 = Some (Ok vol, d2)" "ata_ok vw d2"
    "fat_volume vol n T (device_image (ata_device P) (ata_blk vw) d2)" using idle_disk_mounts [OF assms(5,7)] by blast
  have "probe_disk E (drive (dev s)) = Some (Ok (), d1)" "Fat.mount (blockdev ?H) d1 = Some (Ok vol, d2)" using D(1,2) assms(2,3,6) by simp_all
  from boot_exact [OF assms(1) this assms(8)] obtain s1 where b: "kernel_boot E bi s = Some (Ok (boot_vfs vol), s1)"
    "booted E (as_bytes (lines_text boot_lines)) ?hist d2 ?t s1" by blast
  from spawn_shell_run [OF assms(4), of "boot_vfs vol" s1] obtain ex s2 where
    x: "spawn_shell E (boot_vfs vol) s1 = Some (Ok ex, s2)" "s2 = s1\<lparr>next_task_id := next_task_id s1 + 1\<rparr>"
    "tasks ex = [next_task_id s1 \<mapsto> boot_vfs vol]" "elems (task_queue ex) = [next_task_id s1]" by blast
  obtain q where q: "queue_pop (run_queue_lib E) (task_queue ex) = Some (next_task_id s1, q)"
    using array_queue.pop_some [OF assms(4) x(4)] by blast
  let ?k = "\<lparr>glob = dev s2, vfs = boot_vfs vol\<rparr>"
  have k: "drive (dev s2) = d2" "ticks (glob ?k) = ?t" "screen_shows ?H ?hist (glob ?k)" "exit_writes s2 = []"
    "serial1 (glob ?k) = Some (fold (uart_send ?H) (as_bytes (lines_text boot_lines)) (uart_new E))" using b(2) x(2) by (simp_all add: booted_def)
  have holds: "vfs_holds ?H (ata_ok vw) (ata_blk vw) n T ?k" by (rule boot_holds) (use D(3,4) k(1) assms(2) cap in simp_all)
  have keys: "inputs_ok (vfs ?k) (decoded dec events kb) (term_start T ?k)"
    using assms(9) unfolding k(2) by (simp add: boot_world)
  from shell_loop_holds [OF dev font holds k(3) keys] obtain outs d T' t' where L: "shell_loop ?H dec events (shell_start ?k kb) = Some (Ok (), d)"
    "term_holds ?H (ata_ok vw) (ata_blk vw) n t' T' (emit ?H (Shown (prompt_at ''/'') # outs) (?hist, serial1 (glob ?k))) d"
    "skeleton (vfs (kern (shell d))) = skeleton (boot_vfs vol)"
    "typed (boot_vfs vol) (decoded dec events kb) (power_on ?t T) outs (term_at T' d)" unfolding k(2) by (auto simp: boot_world)
  let ?s = "s2\<lparr>dev := glob (kern (shell d))\<rparr>" and ?g = "glob (kern (shell d))"
  have run: "run_shell E dec kb events (boot_vfs vol) s2 = Some (Ok d, ?s)" by (simp add: run_shell_def L(1))
  have "kernel_main E bi dec kb events s = Some (Ok (Some d), ?s)"
    unfolding kernel_main_def by (subst bindM_Ok, rule b(1), subst bindM_Ok, rule x(1)) (simp add: run_executor_def q x(3) bindM_Ok run ret_run)
  then have main: "with_panic_handler E (kernel_main E bi dec kb events) s = Some (Ok (Some d), ?s)" by (simp add: with_panic_handler_def)
  obtain M where M: "world T' (vfs (kern (shell d))) = mount_maps T' M" using skeleton_world [OF L(3)] by blast
  have out: "serial1 ?g = send_shown ?H (Shown (prompt_at ''/'') # outs) (serial1 (glob ?k))"
    "screen_shows ?H (log_shown (Shown (prompt_at ''/'') # outs) ?hist) ?g" using L(2) by (simp_all add: term_holds_def)
  have holds': "vfs_holds ?H (ata_ok vw) (ata_blk vw) n T' (kern (shell d))" using L(2) by (simp add: term_holds_def)
  have fat: "0 < length (mounts (vfs (kern (shell d))))" "fs (mounts (vfs (kern (shell d))) ! 0) = FatBackend vol" using restart_world(2,3) [OF L(3)] by simp_all
  have "idle_disk vw vol n T' h'" if "restarted vw (drive ?g) h'" for h'
    by (rule restarted_idle [OF vfs_holdsD(3) [OF holds'] _ cap that]) (use vfs_holdsD(6) [OF holds' fat] assms(2) in simp)
  moreover have "log_shown (Shown (prompt_at ''/'') # outs) ?hist
      = map_option (\<lambda>_. fold log_char (screen_banner @ concat (map screen_chars (Shown (prompt_at ''/'') # outs))) ([], [])) (boot_framebuffer bi)"
    by (cases "boot_framebuffer bi") simp_all
  ultimately show ?thesis using main L(4) k(4,5) out M
    by (intro exI [of _ outs] exI [of _ d] exI [of _ ?s] exI [of _ T'] exI [of _ M]) (simp add: term_at_def)
qed

text \<open>
  C2: the machine, from power-on to power-off, for keys whose lines the specification covers (\<open>inputs_ok\<close>): no line entered \<open>touch\<close>es, \<open>mkdir\<close>s,
  \<open>rm\<close>s or \<open>write\<close>s a path on the FAT mount with a name that is not 8.3, or \<open>write\<close>s to \<open>/dev/console\<close> or \<open>/dev/serial0\<close>. On hardware that keeps
  the bootloader's promises, with an idle ATA controller whose disk holds
  a FAT volume, \<open>kernel_main\<close> boots and serves these keys, whenever the timer interrupts, without a panic. The serial port receives exactly the boot text,
  the prompt and what the abstract terminal shows for the keys; the console, if there is one, has logged its banner and the same texts. The count of the
  timer, the line being typed, the maps of the four mounts and the working directory at the end are those of the abstract terminal, and whenever
  the machine is powered on again with its sectors kept, the disk holds the tree the session left.
\<close>

theorem machine_session:
  assumes "machine_ok E bi gv pages tables s" "blockdev (machine_hw E) = ata_device P" "probe_disk E = ata_init P" "array_queue (run_queue_lib E) elems qcap"
    and "ata_controller P vw" "drive (dev s) = new_primary_slave h" "idle_disk vw vol n T h" "serial1 (dev s) = None"
    and "inputs_ok (boot_vfs vol) (decoded dec events kb) (power_on (ticks (dev s)) T)"
  shows "\<exists>outs d s' T' M. with_panic_handler E (kernel_main E bi dec kb events) s = Some (Ok (Some d), s') \<and> exit_writes s' = []
    \<and> typed (boot_vfs vol) (decoded dec events kb) (power_on (ticks (dev s)) T) outs (ticks (dev s'), line d, (mount_maps T' M, cwd (shell d)))
    \<and> serial1 (dev s') = Some (fold (uart_send (machine_hw E)) (as_bytes (lines_text boot_lines) @ concat (map serial_bytes (Shown (prompt_at ''/'') # outs))) (uart_new E))
    \<and> screen_shows (machine_hw E) (map_option (\<lambda>_. fold log_char (screen_banner @ concat (map screen_chars (Shown (prompt_at ''/'') # outs))) ([], [])) (boot_framebuffer bi)) (dev s')
    \<and> (\<forall>h'. restarted vw (drive (dev s')) h' \<longrightarrow> idle_disk vw vol n T' h')"
  using assms by (rule machine_run)

section \<open>The life of a machine\<close>

text \<open>
  Any number of power cycles: each starts in some state the bootloader hands over, with the controller idle, ends when no more keys come,
  and leaves its sectors to the next. The serial log of each is kept.
\<close>

inductive lifetime ::
    "('h AtaDrive, 'p, 'm, 'f, 't, 'q) boot_env \<Rightarrow> boot_info \<Rightarrow> ('t \<Rightarrow> Descriptor list) \<Rightarrow> ('m \<Rightarrow> nat \<rightharpoonup> 'f) \<Rightarrow> ('m \<Rightarrow> 'f set) \<Rightarrow> ('h \<Rightarrow> ata_view)
       \<Rightarrow> (u8 \<Rightarrow> 'b \<Rightarrow> DecodedKey option \<times> 'b) \<Rightarrow> 'b \<Rightarrow> event list list \<Rightarrow> 'h \<Rightarrow> 'p option list \<Rightarrow> 'h \<Rightarrow> bool"
  for E bi gv pages tables vw dec kb where
  life_off: "lifetime E bi gv pages tables vw dec kb [] h [] h"
| life_on: "machine_ok E bi gv pages tables s \<Longrightarrow> drive (dev s) = new_primary_slave h \<Longrightarrow> serial1 (dev s) = None \<Longrightarrow> ticks (dev s) = 0 \<Longrightarrow>
    with_panic_handler E (kernel_main E bi dec kb events) s = Some (r, s') \<Longrightarrow> restarted vw (drive (dev s')) h1 \<Longrightarrow>
    lifetime E bi gv pages tables vw dec kb rest h1 logs h' \<Longrightarrow>
    lifetime E bi gv pages tables vw dec kb (events # rest) h (serial1 (dev s') # logs) h'"

text \<open>The abstract machine: of each session only the map of the disk survives.\<close>

inductive sessions :: "Vfs \<Rightarrow> input list list \<Rightarrow> fs_map \<Rightarrow> shown list list \<Rightarrow> fs_map \<Rightarrow> bool" for v where
  sessions_off: "sessions v [] D [] D"
| sessions_on: "typed v ks (0, [], ([D, view (TmpFs.root tmp_new), Map.empty, Map.empty], ''/'')) outs (t, l, ([D1, M, Map.empty, Map.empty], dir)) \<Longrightarrow>
    sessions v rest D1 logs D' \<Longrightarrow> sessions v (ks # rest) D (outs # logs) D'"

fun sessions_ok :: "Vfs \<Rightarrow> input list list \<Rightarrow> fs_map \<Rightarrow> bool" where
  "sessions_ok v [] D = True"
| "sessions_ok v (ks # rest) D \<longleftrightarrow> inputs_ok v ks (0, [], ([D, view (TmpFs.root tmp_new), Map.empty, Map.empty], ''/''))
     \<and> (\<forall>outs t l D1 M dir. typed v ks (0, [], ([D, view (TmpFs.root tmp_new), Map.empty, Map.empty], ''/'')) outs (t, l, ([D1, M, Map.empty, Map.empty], dir))
          \<longrightarrow> sessions_ok v rest D1)"

text \<open>The serial log of a session.\<close>

definition session_log :: "('d, 'p, 'm, 'f, 't, 'q) boot_env \<Rightarrow> shown list \<Rightarrow> 'p" where
  "session_log E outs = fold (uart_send (machine_hw E)) (as_bytes (lines_text boot_lines) @ concat (map serial_bytes (Shown (prompt_at ''/'') # outs))) (uart_new E)"

lemma lifetime_holds:
  assumes "lifetime E bi gv pages tables vw dec kb ess h logs h'"
    and "blockdev (machine_hw E) = ata_device P" "probe_disk E = ata_init P" "array_queue (run_queue_lib E) elems qcap" "ata_controller P vw"
  shows "idle_disk vw vol n T h \<Longrightarrow> sessions_ok (boot_vfs vol) (map (\<lambda>es. decoded dec es kb) ess) (tree_view T) \<Longrightarrow>
    \<exists>outss T'. sessions (boot_vfs vol) (map (\<lambda>es. decoded dec es kb) ess) (tree_view T) outss (tree_view T')
      \<and> logs = map (Some \<circ> session_log E) outss \<and> idle_disk vw vol n T' h'"
  using assms(1)
proof (induction arbitrary: T)
  case (life_off h)
  then show ?case by (intro exI [of _ "[]"] exI [of _ T]) (simp add: sessions_off)
next
  case (life_on s h events r s' h1 rest logs h')
  have keys: "inputs_ok (boot_vfs vol) (decoded dec events kb) (power_on (ticks (dev s)) T)" using life_on.prems(2) life_on.hyps(4) by simp
  obtain outs d s1 T1 M where R: "with_panic_handler E (kernel_main E bi dec kb events) s = Some (Ok (Some d), s1)"
    "typed (boot_vfs vol) (decoded dec events kb) (power_on (ticks (dev s)) T) outs (ticks (dev s1), line d, (mount_maps T1 M, cwd (shell d)))"
    "serial1 (dev s1) = Some (session_log E outs)" "\<forall>h'. restarted vw (drive (dev s1)) h' \<longrightarrow> idle_disk vw vol n T1 h'"
    using machine_run [OF life_on.hyps(1) assms(2-5) life_on.hyps(2) life_on.prems(1) life_on.hyps(3) keys] unfolding session_log_def by blast
  note typed = R(2) [unfolded life_on.hyps(4)]
  have s1: "s' = s1" using R(1) life_on.hyps(5) by simp
  then have "idle_disk vw vol n T1 h1" using R(4) life_on.hyps(6) by simp
  moreover have "sessions_ok (boot_vfs vol) (map (\<lambda>es. decoded dec es kb) rest) (tree_view T1)"
    using life_on.prems(2) typed unfolding list.map sessions_ok.simps by blast
  ultimately obtain outss T' where I: "sessions (boot_vfs vol) (map (\<lambda>es. decoded dec es kb) rest) (tree_view T1) outss (tree_view T')"
    "logs = map (Some \<circ> session_log E) outss" "idle_disk vw vol n T' h'" using life_on.IH by blast
  have "sessions (boot_vfs vol) (map (\<lambda>es. decoded dec es kb) (events # rest)) (tree_view T) (outs # outss) (tree_view T')"
    unfolding list.map by (rule sessions_on [OF typed I(1)])
  with I(2,3) R(3) s1 show ?case by (intro exI [of _ "outs # outss"] exI [of _ T']) simp
qed

text \<open>
  C1: the life of a machine, when every session keeps to the lines the specification covers (\<open>sessions_ok\<close>): no line entered \<open>touch\<close>es, \<open>mkdir\<close>s,
  \<open>rm\<close>s or \<open>write\<close>s a path on the FAT mount with a name that is not 8.3, or \<open>write\<close>s to \<open>/dev/console\<close> or \<open>/dev/serial0\<close>. Through any number
  of power cycles the machine is the abstract machine whose only lasting state is the map of
  its disk: each time it is powered on it boots from the FAT volume as the last session left it, with \<open>/tmp\<close> empty and an empty line at the root
  directory, and its serial log is the boot text, the prompt and what the abstract terminal shows for the keys of that session. The disk it ends
  with holds the map the abstract machine ends with.
\<close>

theorem machine_life:
  assumes "lifetime E bi gv pages tables vw dec kb ess h logs h'"
    and "blockdev (machine_hw E) = ata_device P" "probe_disk E = ata_init P" "array_queue (run_queue_lib E) elems qcap" "ata_controller P vw"
    and "idle_disk vw vol n T h" "sessions_ok (boot_vfs vol) (map (\<lambda>es. decoded dec es kb) ess) (tree_view T)"
  shows "\<exists>outss T'. sessions (boot_vfs vol) (map (\<lambda>es. decoded dec es kb) ess) (tree_view T) outss (tree_view T')
    \<and> logs = map (Some \<circ> session_log E) outss \<and> idle_disk vw vol n T' h'"
  by (rule lifetime_holds [OF assms])

section \<open>A machine with a FAT disk\<close>

definition fat_hw :: ata_view where
  "fat_hw = blank_disk\<lparr>disk := (\<lambda>b. if b < 127 then sample_image ! b else zero_block), capacity := 127\<rparr>"

definition reset_with :: "ata_view \<Rightarrow> (ata_view AtaDrive, u8 list, Descriptor list) boot_state" where
  "reset_with h = reset_state\<lparr>dev := (dev reset_state)\<lparr>drive := new_primary_slave h\<rparr>\<rparr>"

lemma reset_with_ok:
  "machine_ok demo_env_boot demo_info id (\<lambda>m. m) (\<lambda>_. {}) (reset_with h)" "drive (dev (reset_with h)) = new_primary_slave h"
  "serial1 (dev (reset_with h)) = None" "ticks (dev (reset_with h)) = 0"
  using demo_machine(1) by (simp_all add: machine_ok_def reset_with_def reset_state_def)

lemma fat_hw_idle: "idle_disk sim_view sample_vol 127 sample_tree fat_hw"
proof -
  have "map (disk (sim_view fat_hw)) [0..<127] = sample_image"
    by (rule nth_equalityI) (simp_all add: fat_hw_def sim_view_def sample_blocks)
  then show ?thesis using sample_fat_volume sample_blocks(2)
    by (simp add: idle_disk_def sample_device(2)) (simp add: fat_hw_def sim_view_def blank_disk_def cap_def sample_vol_def cluster_bytes_def)
qed

text \<open>The controller of a restarted machine.\<close>

definition power_cycle :: "ata_view AtaDrive \<Rightarrow> ata_view" where
  "power_cycle d = blank_disk\<lparr>disk := ata_blk sim_view d, capacity := unat (sectors d)\<rparr>"

lemma power_cycle_restarted: "restarted sim_view d (power_cycle d)"
  using unsigned_less [of "sectors d", where 'a = nat] by (simp add: restarted_def power_cycle_def sim_view_def blank_disk_def)

abbreviation pwd_log :: "u8 list" where
  "pwd_log \<equiv> as_bytes (lines_text boot_lines @ pwd_line @ [newline_char] @ ''/'' @ [newline_char] @ ''willo:/$ '')"

lemma pwd_session_log:
  assumes "typed v (decoded plain_keys pwd_keys ()) (t, [], (W, ''/'')) outs ts"
  shows "session_log demo_env_boot outs = pwd_log"
proof -
  have "fold (uart_send (machine_hw demo_env_boot)) bs p = p @ bs" for bs p
    by (induction bs arbitrary: p) (simp_all add: demo_env_boot_def sim_hardware_def)
  then show ?thesis unfolding session_log_def pwd_shown(1) [OF assms] as_bytes_simps(3) [symmetric] by (simp only: demo_env_boot_def boot_env.select_convs append_Nil)
qed

theorem machine_session_witness:
  "\<exists>d s'. with_panic_handler demo_env_boot (kernel_main demo_env_boot demo_info plain_keys () pwd_keys) (reset_with fat_hw) = Some (Ok (Some d), s')
    \<and> exit_writes s' = [] \<and> serial1 (dev s') = Some pwd_log"
proof -
  note facts = reset_with_ok(1) demo_machine(2-4) sim.ata_controller_axioms reset_with_ok(2) fat_hw_idle reset_with_ok(3) pwd_typed(1)
  from machine_session [OF facts] show ?thesis using pwd_session_log unfolding session_log_def [symmetric] by metis
qed

lemma pwd_life: "idle_disk sim_view sample_vol 127 T h \<Longrightarrow>
  \<exists>logs h'. lifetime demo_env_boot demo_info id (\<lambda>m. m) (\<lambda>_. {}) sim_view plain_keys () (replicate n pwd_keys) h logs h'"
proof (induction n arbitrary: T h)
  case (Suc n)
  note facts = reset_with_ok(1) demo_machine(2-4) sim.ata_controller_axioms reset_with_ok(2) Suc.prems reset_with_ok(3) pwd_typed(1)
  from machine_run [OF facts] obtain r s' T' where
    R: "with_panic_handler demo_env_boot (kernel_main demo_env_boot demo_info plain_keys () pwd_keys) (reset_with h) = Some (r, s')"
    "idle_disk sim_view sample_vol 127 T' (power_cycle (drive (dev s')))" using power_cycle_restarted by metis
  from Suc.IH [OF R(2)] show ?case unfolding replicate_Suc
    by (metis life_on [OF reset_with_ok(1) reset_with_ok(2) reset_with_ok(3) reset_with_ok(4) R(1) power_cycle_restarted])
qed (auto intro: life_off)

theorem machine_life_witness:
  "\<exists>logs h'. lifetime demo_env_boot demo_info id (\<lambda>m. m) (\<lambda>_. {}) sim_view plain_keys () [pwd_keys, pwd_keys] fat_hw logs h'
    \<and> logs = [Some pwd_log, Some pwd_log]"
proof -
  obtain logs h' where L: "lifetime demo_env_boot demo_info id (\<lambda>m. m) (\<lambda>_. {}) sim_view plain_keys () [pwd_keys, pwd_keys] fat_hw logs h'"
    using pwd_life [OF fat_hw_idle, of 2] by (auto simp: numeral_2_eq_2)
  have ok: "sessions_ok v [decoded plain_keys pwd_keys (), decoded plain_keys pwd_keys ()] D" for v D
    unfolding sessions_ok.simps using pwd_typed(1) by blast
  have "list_all (\<lambda>outs. session_log demo_env_boot outs = pwd_log) outss"
    if "sessions v kss D outss D'" "set kss \<subseteq> {decoded plain_keys pwd_keys ()}" for v kss D outss D'
    using that
  proof induction
    case (sessions_on ks D outs t l D1 M dir rest logs D')
    then show ?case using pwd_session_log [of v 0 _ outs] by auto
  qed simp
  note log = this
  obtain outss T' where S: "sessions (boot_vfs sample_vol) [decoded plain_keys pwd_keys (), decoded plain_keys pwd_keys ()] (tree_view sample_tree) outss (tree_view T')"
    "logs = map (Some \<circ> session_log demo_env_boot) outss"
    using machine_life [OF L demo_machine(2-4) sim.ata_controller_axioms fat_hw_idle] ok unfolding list.map by blast
  have "length outss = length kss" if "sessions v kss D outss D'" for v kss D outss D' using that by induction simp_all
  from this [OF S(1)] have "length outss = 2" by (simp del: decoded.simps)
  then obtain a b where "outss = [a, b]" by (auto simp: length_Suc_conv eval_nat_numeral)
  then have "logs = [Some pwd_log, Some pwd_log]" using log [OF S(1)] S(2) by (simp del: as_bytes_simps)
  with L show ?thesis by blast
qed

end
