(* ===== verification/Runner.thy ===== *)
theory Runner
  imports FatName Utf8
begin

text \<open>
  The host-side runner of \<^verbatim>\<open>src/main.rs\<close>: it packages the kernel into a disk image, prepares the FAT
  data disk, starts QEMU or converts the images for VirtualBox, and turns the status of QEMU into its
  own. The operating system, the \<open>bootloader\<close> and \<open>fatfs\<close> crates and the programs it starts are an
  oracle: a function from the calls made so far and the next call to its answer. The state of a run
  is the list of calls made. \<open>std::process::exit\<close> is an error whose value is the exit status.

  Shown: the exit status as a function of QEMU's, that a persistent data disk is neither deleted nor
  rebuilt, and that the temporary images are cleaned up.
\<close>

section \<open>The host\<close>

datatype call =
    PathExists string
  | RemoveFile string
  | CreateImage string string
  | OpenNew string | SetLen nat | FormatFat32 | SeekStart | FsNew
  | FatCreateDir "string list" string | FatCreateFile "string list" string | FatWriteAll string | FatFlush | FatUnmount
  | Spawn string "string list"
  | Eprint string | Print string

text \<open>A failure carries whether it is \<open>ErrorKind::NotFound\<close> and its text; a status its code, if it has one, and its text.\<close>

datatype answer = Done | Yes | No | Failure bool string | Status "int option" string

type_synonym host = "call list \<Rightarrow> call \<Rightarrow> answer"
type_synonym ('e, 'a) run = "(call list, 'e, 'a) io"

definition sys :: "host \<Rightarrow> call \<Rightarrow> ('e, answer) run" where
  "sys h c = (\<lambda>tr. Some (Ok (h tr c), tr @ [c]))"

definition eprintln :: "host \<Rightarrow> string \<Rightarrow> ('e, unit) run" where
  "eprintln h s = bindM (sys h (Eprint s)) (\<lambda>_. ret ())"

definition println :: "host \<Rightarrow> string \<Rightarrow> ('e, unit) run" where
  "println h s = bindM (sys h (Print s)) (\<lambda>_. ret ())"

definition exists_file :: "host \<Rightarrow> string \<Rightarrow> ('e, bool) run" where
  "exists_file h p = bindM (sys h (PathExists p)) (\<lambda>a. ret (a = Yes))"

definition remove_file :: "host \<Rightarrow> string \<Rightarrow> ('e, unit) run" where
  "remove_file h p = bindM (sys h (RemoveFile p)) (\<lambda>_. ret ())"

definition exit_process :: "int \<Rightarrow> (int, 'a) run" where
  "exit_process code = fail code"

text \<open>The environment: which variables are set, the process id, the temporary directory.\<close>

record environment =
  is_set :: "string \<Rightarrow> bool"
  process_id :: nat
  temp_dir :: string

section \<open>Paths\<close>

text \<open>\<open>std::path\<close> on a Unix host: the components of a path.\<close>

datatype component = RootDir | CurDir | ParentDir | Normal string

definition path_components :: "string \<Rightarrow> component list" where
  "path_components p =
     (if starts_with ''/'' p then [RootDir] else if hd (split_on slash p) = ''.'' then [CurDir] else [])
     @ map (\<lambda>s. if s = ''..'' then ParentDir else Normal s) (filter (\<lambda>s. s \<noteq> [] \<and> s \<noteq> ''.'') (split_on slash p))"

definition file_name :: "component list \<Rightarrow> string option" where
  "file_name cs = (if cs = [] then None else case last cs of Normal n \<Rightarrow> Some n | _ \<Rightarrow> None)"

definition parent :: "component list \<Rightarrow> component list option" where
  "parent cs = (if cs = [] \<or> last cs = RootDir then None else Some (butlast cs))"

definition path_join :: "string \<Rightarrow> string \<Rightarrow> string" where
  "path_join d n = (if d = [] \<or> last d = slash then d @ n else d @ [slash] @ n)"

definition to_str :: "string \<Rightarrow> string option" where
  "to_str p = (if from_utf8 (as_bytes p) = None then None else Some p)"

definition is_fat_write_test :: "string \<Rightarrow> bool" where
  "is_fat_write_test p =
     (case Option.bind (file_name (path_components p)) to_str of None \<Rightarrow> False | Some n \<Rightarrow> starts_with ''fat_write'' n)"

definition is_test_binary :: "string \<Rightarrow> bool" where
  "is_test_binary p = (Option.bind (parent (path_components p)) file_name = Some ''deps'')"

section \<open>The data disk\<close>

definition QEMU_EXIT_SUCCESS :: int where "QEMU_EXIT_SUCCESS = 33"
definition QEMU_EXIT_FAILED :: int where "QEMU_EXIT_FAILED = 35"
definition DATA_DISK_BYTES :: nat where "DATA_DISK_BYTES = 64 * 1024 * 1024"

text \<open>A call whose failure ends the function with \<open>?\<close>.\<close>

definition try_call :: "host \<Rightarrow> call \<Rightarrow> (string, unit) run" where
  "try_call h c = bindM (sys h c) (\<lambda>a. case a of Failure _ e \<Rightarrow> fail e | _ \<Rightarrow> ret ())"

text \<open>The files and directories seeded, in order; a file is created, written and flushed.\<close>

datatype seed = SeedFile "string list" string string | SeedDir "string list" string

definition nl :: string where "nl = [CHR 0x0A]"

definition seed_tree :: "seed list" where
  "seed_tree =
     [SeedFile [] ''welcome.txt'' (''Welcome to Willo!'' @ nl @ ''Type `help`.'' @ nl),
      SeedDir [] ''etc'',
      SeedFile [''etc''] ''version'' (''willo 0.9 (M9)'' @ nl),
      SeedFile [''etc''] ''motd'' (''the kernel that fits in your head'' @ nl),
      SeedDir [] ''bin'']"

fun seed_calls :: "seed \<Rightarrow> call list" where
  "seed_calls (SeedFile d n t) = [FatCreateFile d n, FatWriteAll t, FatFlush]"
| "seed_calls (SeedDir d n) = [FatCreateDir d n]"

definition build_data_disk :: "host \<Rightarrow> string \<Rightarrow> (string, unit) run" where
  "build_data_disk h path =
     bindM (remove_file h path) (\<lambda>_.
     bindM (try_call h (OpenNew path)) (\<lambda>_.
     bindM (try_call h (SetLen DATA_DISK_BYTES)) (\<lambda>_.
     bindM (try_call h FormatFat32) (\<lambda>_.
     bindM (try_call h SeekStart) (\<lambda>_.
     bindM (try_call h FsNew) (\<lambda>_.
     bindM (foldM (\<lambda>c _. try_call h c) (concat (map seed_calls seed_tree)) ()) (\<lambda>_.
     try_call h FatUnmount)))))))"

section \<open>VirtualBox\<close>

definition convert_to_vdi :: "host \<Rightarrow> string \<Rightarrow> string \<Rightarrow> string \<Rightarrow> (int, unit) run" where
  "convert_to_vdi h prog raw vdi = (case (to_str raw, to_str vdi) of
     (Some r, Some v) \<Rightarrow>
       bindM (sys h (Spawn ''VBoxManage'' [''convertfromraw'', r, v, ''--format'', ''VDI''])) (\<lambda>a. case a of
         Failure not_found e \<Rightarrow>
           if not_found
           then bindM (eprintln h (prog @ '': VBoxManage not found on PATH.'')) (\<lambda>_.
                bindM (eprintln h ''install VirtualBox (e.g. `sudo apt install virtualbox`) and retry.'') (\<lambda>_.
                bindM (eprintln h (''the raw disk is preserved at: '' @ raw)) (\<lambda>_. exit_process 1)))
           else bindM (eprintln h (prog @ '': failed to spawn VBoxManage: '' @ e)) (\<lambda>_. exit_process 1)
       | Status code s \<Rightarrow>
           if code = Some 0 then ret ()
           else bindM (eprintln h (prog @ '': VBoxManage convertfromraw exited '' @ s)) (\<lambda>_. exit_process 1)
       | _ \<Rightarrow> ret ())
   | _ \<Rightarrow> panic)"

definition vbox_lines :: "string \<Rightarrow> string \<Rightarrow> string list" where
  "vbox_lines vdi data_vdi =
     [[], ''[willo] boot VDI: '' @ vdi, ''[willo] data VDI: '' @ data_vdi,
      ''[willo] copy-paste these commands to register and boot in VirtualBox:'', [],
      ''  VBoxManage createvm --name Willo --ostype Other_64 --register'',
      ''  VBoxManage modifyvm Willo --memory 256 --firmware bios '' @ [CHR 0x5C] @ nl @
        ''    --boot1 disk --boot2 none --boot3 none --boot4 none'',
      ''  VBoxManage storagectl Willo --name IDE --add ide '' @ [CHR 0x5C] @ nl @ ''    --controller PIIX4 --bootable on'',
      ''  VBoxManage storageattach Willo --storagectl IDE --port 0 --device 0 '' @ [CHR 0x5C] @ nl @
        ''    --type hdd --medium '' @ vdi,
      ''  VBoxManage storageattach Willo --storagectl IDE --port 0 --device 1 '' @ [CHR 0x5C] @ nl @
        ''    --type hdd --medium '' @ data_vdi,
      ''  VBoxManage startvm Willo'', [], ''  # teardown later:'', ''  VBoxManage unregistervm Willo --delete'', [],
      ''note: the kernel uses QEMU's isa-debug-exit (port 0xf4) to exit.'',
      ''      VirtualBox doesn't wire that port, so on Success/Failed the'',
      ''      kernel will idle in a nop loop. Power-off the VM to stop.'']"

definition run_vbox_mode :: "host \<Rightarrow> environment \<Rightarrow> string \<Rightarrow> string \<Rightarrow> string \<Rightarrow> (int, unit) run" where
  "run_vbox_mode h env prog raw data =
     (let vdi = path_join (temp_dir env) (''willo-'' @ show_nat (process_id env) @ ''.vdi'');
          data_vdi = path_join (temp_dir env) (''willo-'' @ show_nat (process_id env) @ ''-data.vdi'')
      in bindM (remove_file h vdi) (\<lambda>_.
         bindM (remove_file h data_vdi) (\<lambda>_.
         bindM (convert_to_vdi h prog raw vdi) (\<lambda>_.
         bindM (convert_to_vdi h prog data data_vdi) (\<lambda>_.
         bindM (foldM (\<lambda>l _. println h l) (vbox_lines vdi data_vdi) ()) (\<lambda>_.
         exit_process 0))))))"

section \<open>The main function\<close>

definition prog_name :: "string list \<Rightarrow> string" where
  "prog_name args = (case args of [] \<Rightarrow> ''willo'' | p # _ \<Rightarrow> p)"

definition usage :: "host \<Rightarrow> string \<Rightarrow> (int, 'a) run" where
  "usage h prog =
     bindM (eprintln h (''usage: '' @ prog @ '' <kernel-elf>'')) (\<lambda>_.
     bindM (eprintln h []) (\<lambda>_.
     bindM (eprintln h ''typical invocation: cargo run -p kernel --target x86_64-unknown-none'') (\<lambda>_.
     bindM (eprintln h ''(cargo invokes this runner with the kernel ELF path as argv[1])'') (\<lambda>_.
     exit_process 2))))"

definition qemu_args :: "string \<Rightarrow> string \<Rightarrow> bool \<Rightarrow> string list" where
  "qemu_args disk data headless =
     [''-drive'', ''file='' @ disk @ '',if=ide,index=0,format=raw'',
      ''-drive'', ''file='' @ data @ '',if=ide,index=1,format=raw'',
      ''-no-reboot'', ''-device'', ''isa-debug-exit,iobase=0xf4,iosize=0x04'', ''-m'', ''256M'']
     @ (if headless then [''-display'', ''none'', ''-serial'', ''stdio''] else [''-serial'', ''mon:stdio''])"

definition disk_path :: "environment \<Rightarrow> string" where
  "disk_path env = path_join (temp_dir env) (''willo-'' @ show_nat (process_id env) @ ''.img'')"

definition data_path :: "environment \<Rightarrow> bool \<Rightarrow> string" where
  "data_path env persist = path_join (temp_dir env)
     (if persist then ''willo-persist-data.img'' else ''willo-'' @ show_nat (process_id env) @ ''-data.img'')"

definition prepare_data :: "host \<Rightarrow> string \<Rightarrow> bool \<Rightarrow> string \<Rightarrow> (int, unit) run" where
  "prepare_data h prog persist data =
     bindM (if persist then exists_file h data else ret False) (\<lambda>there.
     if \<not> there
     then attempt (build_data_disk h data) (\<lambda>r. case r of
            Inl e \<Rightarrow> bindM (eprintln h (prog @ '': failed to build FAT data disk: '' @ e)) (\<lambda>_. exit_process 1)
          | Inr _ \<Rightarrow> if persist then eprintln h (''[willo] new persistent data disk: '' @ data) else ret ())
     else eprintln h (''[willo] reusing persistent data disk: '' @ data))"

definition cleanup :: "host \<Rightarrow> bool \<Rightarrow> bool \<Rightarrow> string \<Rightarrow> string \<Rightarrow> ('e, unit) run" where
  "cleanup h keep_disk persist disk data =
     (if keep_disk then ret ()
      else bindM (remove_file h disk) (\<lambda>_. if persist then ret () else remove_file h data))"

definition fsck_stage :: "host \<Rightarrow> string \<Rightarrow> string \<Rightarrow> int option \<Rightarrow> (int, unit) run" where
  "fsck_stage h elf data code =
     (if is_test_binary elf \<and> code = Some QEMU_EXIT_SUCCESS \<and> is_fat_write_test elf
      then bindM (exists_file h data) (\<lambda>there.
        if \<not> there then ret ()
        else (case to_str data of
          None \<Rightarrow> panic
        | Some d \<Rightarrow> bindM (sys h (Spawn ''fsck.fat'' [''-nv'', d])) (\<lambda>a. case a of
            Failure not_found e \<Rightarrow>
              if not_found then eprintln h ''[willo] fsck.fat not on PATH; skipping post-test fsck''
              else eprintln h (''[willo] failed to spawn fsck.fat: '' @ e)
          | Status c s \<Rightarrow>
              if c = Some 0 then eprintln h ''[willo] fsck.fat -nv: clean''
              else eprintln h (''[willo] fsck.fat -nv reported errors (exit '' @ s @ ''); see host-builder note in src/main.rs.'')
          | _ \<Rightarrow> ret ())))
      else ret ())"

definition finish :: "host \<Rightarrow> int option \<Rightarrow> (int, unit) run" where
  "finish h code = (case code of
     None \<Rightarrow> exit_process 1
   | Some c \<Rightarrow>
       if c = QEMU_EXIT_SUCCESS then exit_process 0
       else if c = QEMU_EXIT_FAILED
       then bindM (eprintln h ''[willo] kernel reported FAILED via isa-debug-exit'') (\<lambda>_. exit_process 1)
       else if c = 0 then exit_process 0
       else exit_process c)"

text \<open>What follows the start of QEMU, given how it went.\<close>

definition after_qemu :: "host \<Rightarrow> string \<Rightarrow> string \<Rightarrow> bool \<Rightarrow> bool \<Rightarrow> string \<Rightarrow> string \<Rightarrow> answer \<Rightarrow> (int, unit) run" where
  "after_qemu h prog elf keep_disk persist disk data a = (case a of
       Failure _ e \<Rightarrow>
         bindM (eprintln h (prog @ '': failed to spawn qemu-system-x86_64: '' @ e)) (\<lambda>_.
         bindM (cleanup h keep_disk persist disk data) (\<lambda>_. exit_process 1))
     | _ \<Rightarrow>
       (let code = (case a of Status c _ \<Rightarrow> c | _ \<Rightarrow> None)
        in bindM (fsck_stage h elf data code) (\<lambda>_.
           bindM (cleanup h keep_disk persist disk data) (\<lambda>_.
           finish h code))))"

definition qemu_stage ::
    "host \<Rightarrow> string \<Rightarrow> string \<Rightarrow> bool \<Rightarrow> bool \<Rightarrow> bool \<Rightarrow> string \<Rightarrow> string \<Rightarrow> (int, unit) run" where
  "qemu_stage h prog elf headless keep_disk persist disk data =
     bindM (if \<not> is_test_binary elf \<and> \<not> headless
       then eprintln h (''[willo] running '' @ elf @ '' in QEMU (Ctrl+A then X to exit)'') else ret ()) (\<lambda>_.
     bindM (sys h (Spawn ''qemu-system-x86_64'' (qemu_args disk data headless))) (\<lambda>a.
     after_qemu h prog elf keep_disk persist disk data a))"

text \<open>Everything up to the start of QEMU; with \<open>WILLO_VBOX\<close> the run ends here.\<close>

definition prepare :: "host \<Rightarrow> environment \<Rightarrow> string \<Rightarrow> string \<Rightarrow> bool \<Rightarrow> string \<Rightarrow> string \<Rightarrow> (int, unit) run" where
  "prepare h env prog elf persist disk data =
     bindM (exists_file h elf) (\<lambda>there.
     if \<not> there
     then bindM (eprintln h (prog @ '': kernel ELF not found: '' @ elf)) (\<lambda>_. exit_process 2)
     else
     bindM (sys h (CreateImage elf disk)) (\<lambda>built.
     case built of
       Failure _ e \<Rightarrow> bindM (eprintln h (prog @ '': failed to build disk image: '' @ e)) (\<lambda>_. exit_process 1)
     | _ \<Rightarrow>
       bindM (prepare_data h prog persist data) (\<lambda>_.
       if is_set env ''WILLO_VBOX'' then run_vbox_mode h env prog disk data else ret ())))"

definition runner_main :: "host \<Rightarrow> environment \<Rightarrow> string list \<Rightarrow> (int, unit) run" where
  "runner_main h env args =
     (let prog = prog_name args
      in if length args \<le> 1 then usage h prog
         else
           (let elf = args ! 1;
                headless = (is_set env ''WILLO_HEADLESS'' \<or> (is_test_binary elf \<and> \<not> is_set env ''WILLO_GUI''));
                keep_disk = is_set env ''WILLO_KEEP_DISK'';
                persist = is_set env ''WILLO_PERSIST'';
                disk = disk_path env;
                data = data_path env persist
            in bindM (prepare h env prog elf persist disk data) (\<lambda>_.
               qemu_stage h prog elf headless keep_disk persist disk data)))"

section \<open>The calls a computation makes\<close>

text \<open>\<open>makes C m\<close>: every call of \<open>m\<close> satisfies \<open>C\<close>, and \<open>m\<close> always ends.\<close>

definition makes :: "(call \<Rightarrow> bool) \<Rightarrow> ('e, 'a) run \<Rightarrow> bool" where
  "makes C m \<longleftrightarrow> (\<forall>tr. \<exists>r cs. m tr = Some (r, tr @ cs) \<and> list_all C cs)"

named_theorems makes_intros

lemma makesD: "makes C m \<Longrightarrow> m tr = Some (r, tr') \<Longrightarrow> \<exists>cs. tr' = tr @ cs \<and> list_all C cs"
  unfolding makes_def by (metis option.inject prod.inject)

lemma makes_basic [makes_intros]: "makes C (ret x)" "makes C (fail e)" "makes C panic" "makes C (exit_process n)"
  by (simp_all add: makes_def ret_run fail_run panic_run exit_process_def)

lemma makes_sys [makes_intros]: "C c \<Longrightarrow> makes C (sys h c)"
  by (simp add: makes_def sys_def)

lemma makes_bindM [makes_intros]:
  assumes "makes C m" "\<And>x. makes C (k x)"
  shows "makes C (bindM m k)"
  unfolding makes_def
proof
  fix tr
  obtain r cs where m: "m tr = Some (r, tr @ cs)" "list_all C cs" using assms(1) unfolding makes_def by blast
  show "\<exists>r cs. bindM m k tr = Some (r, tr @ cs) \<and> list_all C cs"
  proof (cases r)
    case (Ok x)
    obtain r' cs' where "k x (tr @ cs) = Some (r', (tr @ cs) @ cs')" "list_all C cs'"
      using assms(2) unfolding makes_def by blast
    with m Ok show ?thesis by (intro exI [of _ r'] exI [of _ "cs @ cs'"]) (simp add: bindM_Ok)
  qed (use m in \<open>auto simp: bindM_Err bindM_Panic\<close>)
qed

lemma makes_attempt [makes_intros]:
  assumes "makes C m" "\<And>x. makes C (k x)"
  shows "makes C (attempt m k)"
  unfolding makes_def
proof
  fix tr
  obtain r cs where m: "m tr = Some (r, tr @ cs)" "list_all C cs" using assms(1) unfolding makes_def by blast
  have "\<exists>r' cs'. k x (tr @ cs) = Some (r', (tr @ cs) @ cs') \<and> list_all C cs'" for x
    using assms(2) unfolding makes_def by blast
  with m show "\<exists>r cs. attempt m k tr = Some (r, tr @ cs) \<and> list_all C cs"
    by (cases r) (fastforce simp: attempt_def)+
qed

lemma makes_if [makes_intros]: "(b \<Longrightarrow> makes C m) \<Longrightarrow> (\<not> b \<Longrightarrow> makes C n) \<Longrightarrow> makes C (if b then m else n)"
  by simp

lemma makes_foldM [makes_intros]: "(\<And>x a. x \<in> set xs \<Longrightarrow> makes C (f x a)) \<Longrightarrow> makes C (foldM f xs a)"
  by (induction xs arbitrary: a) (auto intro!: makes_intros)

lemma makes_answer [makes_intros]:
  "(\<And>b e. a = Failure b e \<Longrightarrow> makes C (f b e)) \<Longrightarrow> (\<And>c t. a = Status c t \<Longrightarrow> makes C (g c t)) \<Longrightarrow> makes C d \<Longrightarrow> makes C y \<Longrightarrow> makes C n
    \<Longrightarrow> makes C (case a of Done \<Rightarrow> d | Yes \<Rightarrow> y | No \<Rightarrow> n | Failure b e \<Rightarrow> f b e | Status c t \<Rightarrow> g c t)"
  by (simp split: answer.split)

text \<open>The calls that touch the file at a path.\<close>

fun touches :: "string \<Rightarrow> call \<Rightarrow> bool" where
  "touches p (RemoveFile q) = (q = p)"
| "touches p (OpenNew q) = (q = p)"
| "touches p (CreateImage _ q) = (q = p)"
| "touches p _ = False"

lemma makes_print [makes_intros]: "(\<And>s. C (Eprint s)) \<Longrightarrow> makes C (eprintln h s)" "(\<And>s. C (Print s)) \<Longrightarrow> makes C (println h s)"
  "C (PathExists p) \<Longrightarrow> makes C (exists_file h p)" "C (RemoveFile p) \<Longrightarrow> makes C (remove_file h p)"
  unfolding eprintln_def println_def exists_file_def remove_file_def by (auto intro!: makes_intros)

section \<open>Names\<close>

lemma show_nat_digits: "c \<in> set (show_nat n) \<Longrightarrow> 48 \<le> (of_char c :: nat) \<and> of_char c < (58 :: nat)"
proof (induction n rule: show_nat.induct)
  case (1 n)
  show ?case
  proof (cases "n < 10")
    case True
    with 1(2) show ?thesis by (subst (asm) show_nat.simps) (simp add: of_char_of)
  next
    case False
    with 1(2) have "c \<in> set (show_nat (n div 10)) \<or> c = char_of (48 + n mod 10)"
      by (subst (asm) show_nat.simps) auto
    moreover have "n mod 10 < 10" by simp
    ultimately show ?thesis using 1(1) [OF False] by (auto simp: of_char_of)
  qed
qed

lemma show_nat_ne [simp]: "show_nat n \<noteq> []"
  by (subst show_nat.simps) simp

lemma path_join_inj: "path_join d a = path_join d b \<longleftrightarrow> a = b"
  by (simp add: path_join_def)

text \<open>A name that starts with the process id is not that of the persistent disk.\<close>

lemma pid_name: "path_join d (''willo-'' @ show_nat n @ x) \<noteq> path_join d ''willo-persist-data.img''"
proof
  assume "path_join d (''willo-'' @ show_nat n @ x) = path_join d ''willo-persist-data.img''"
  then have "show_nat n @ x = ''persist-data.img''" by (simp add: path_join_inj)
  then have "hd (show_nat n) = CHR ''p''" by (metis hd_append2 list.sel(1) show_nat_ne)
  then have "CHR ''p'' \<in> set (show_nat n)" by (metis hd_in_set show_nat_ne)
  from show_nat_digits [OF this] show False by simp
qed

section \<open>The data disk survives\<close>

lemma makes_try [makes_intros]: "C c \<Longrightarrow> makes C (try_call h c)"
  unfolding try_call_def by (auto intro!: makes_intros)

lemma seed_calls_touch: "c \<in> set (concat (map seed_calls seed_tree)) \<Longrightarrow> \<not> touches p c"
  by (auto simp: seed_tree_def)

lemma makes_convert: "(\<And>a. C (Spawn ''VBoxManage'' a)) \<Longrightarrow> (\<And>s. C (Eprint s)) \<Longrightarrow> makes C (convert_to_vdi h prog raw vdi)"
  unfolding convert_to_vdi_def
  by (cases "to_str raw"; cases "to_str vdi") (auto intro!: makes_intros)

lemma makes_fsck:
  "(\<And>a. C (Spawn ''fsck.fat'' a)) \<Longrightarrow> (\<And>s. C (Eprint s)) \<Longrightarrow> C (PathExists data) \<Longrightarrow> makes C (fsck_stage h elf data code)"
  unfolding fsck_stage_def
  by (cases "to_str data") (auto intro!: makes_intros)

lemma makes_cleanup:
  "\<not> keep \<Longrightarrow> C (RemoveFile disk) \<Longrightarrow> \<not> persist \<Longrightarrow> C (RemoveFile data) \<Longrightarrow> makes C (cleanup h keep persist disk data)"
  "C (RemoveFile disk) \<Longrightarrow> makes C (cleanup h keep True disk data)"
  unfolding cleanup_def by (auto intro!: makes_intros)

lemma makes_finish: "(\<And>s. C (Eprint s)) \<Longrightarrow> makes C (finish h code)"
  unfolding finish_def by (cases code) (auto intro!: makes_intros)

lemma makes_vbox:
  assumes "\<And>a. C (Spawn ''VBoxManage'' a)" "\<And>s. C (Eprint s)" "\<And>s. C (Print s)"
    and "\<And>x. C (RemoveFile (path_join (temp_dir env) (''willo-'' @ show_nat (process_id env) @ x)))"
  shows "makes C (run_vbox_mode h env prog raw data)"
  unfolding run_vbox_mode_def Let_def using assms by (intro makes_intros makes_convert) auto

lemma makes_usage: "(\<And>s. C (Eprint s)) \<Longrightarrow> makes C (usage h prog)"
  unfolding usage_def by (auto intro!: makes_intros)

text \<open>
  C30: a persistent data disk is safe: with \<open>WILLO_PERSIST\<close> set and the sticky image present, no run of
  the runner - in any mode, with any answers from the host, whatever fails - removes, recreates or
  overwrites it.
\<close>

theorem persistent_disk_kept:
  assumes "is_set env ''WILLO_PERSIST''" "\<forall>tr. h tr (PathExists (data_path env True)) = Yes"
    and "runner_main h env args [] = Some (r, tr)"
  shows "list_all (\<lambda>c. \<not> touches (data_path env True) c) tr"
proof -
  let ?p = "data_path env True"
  let ?C = "\<lambda>c. \<not> touches ?p c"
  have pid: "?C (RemoveFile (path_join (temp_dir env) (''willo-'' @ show_nat (process_id env) @ x)))" for x
    using pid_name [of "temp_dir env" "process_id env" x] by (simp add: data_path_def)
  have disk: "disk_path env \<noteq> ?p" using pid_name [of "temp_dir env" "process_id env" "''.img''"] by (simp add: data_path_def disk_path_def)
  have there: "exists_file h ?p = (\<lambda>tr. Some (Ok True, tr @ [PathExists ?p]))"
    using assms(2) by (simp add: exists_file_def sys_def bindM_def ret_def fun_eq_iff)
  have data: "makes ?C (prepare_data h prog True ?p)" for prog
    by (simp add: makes_def prepare_data_def there bindM_def eprintln_def sys_def ret_def)
  have "makes ?C (qemu_stage h prog elf headless keep True (disk_path env) ?p)" for prog elf headless keep
    unfolding qemu_stage_def after_qemu_def Let_def
    using disk by (intro makes_intros makes_fsck makes_cleanup makes_finish) auto
  note qemu = this
  have vbox: "makes ?C (run_vbox_mode h env prog raw d)" for prog raw d
    by (rule makes_vbox) (use pid in auto)
  have "makes ?C (runner_main h env args)"
    unfolding runner_main_def prepare_def Let_def
    using assms(1) disk by (auto intro!: makes_intros data qemu vbox makes_usage)
  from makesD [OF this assms(3)] show ?thesis by simp
qed

section \<open>The exit status\<close>

definition exit_of :: "int option \<Rightarrow> int" where
  "exit_of code = (case code of None \<Rightarrow> 1 | Some c \<Rightarrow> if c = 33 then 0 else if c = 35 then 1 else c)"

lemma sys_run: "sys h c tr = Some (Ok (h tr c), tr @ [c])"
  by (simp add: sys_def)

lemma eprintln_run: "eprintln h s tr = Some (Ok (), tr @ [Eprint s])"
  by (simp add: eprintln_def bindM_Ok sys_run ret_run)

lemma cleanup_run:
  "cleanup h keep persist disk data tr
    = Some (Ok (), tr @ (if keep then [] else RemoveFile disk # (if persist then [] else [RemoveFile data])))"
  by (simp add: cleanup_def remove_file_def bindM_Ok sys_run ret_run)

lemma finish_run: "\<exists>cs. finish h code tr = Some (Err (exit_of code), tr @ cs) \<and> list_all (\<lambda>c. \<exists>s. c = Eprint s) cs"
proof -
  have "finish h (Some 35) tr = Some (Err 1, tr @ [Eprint ''[willo] kernel reported FAILED via isa-debug-exit''])"
    by (simp add: finish_def QEMU_EXIT_SUCCESS_def QEMU_EXIT_FAILED_def bindM_Ok eprintln_run exit_process_def fail_run)
  then show ?thesis
    by (cases code)
      (auto simp: finish_def exit_of_def QEMU_EXIT_SUCCESS_def QEMU_EXIT_FAILED_def exit_process_def fail_run)
qed

lemma fsck_run: "to_str data \<noteq> None \<Longrightarrow> \<exists>cs. fsck_stage h elf data code tr = Some (Ok (), tr @ cs)"
  unfolding fsck_stage_def
  by (auto simp: exists_file_def sys_run bindM_Ok ret_run eprintln_run split: answer.split)

text \<open>What the runner makes of the answer to its start of QEMU.\<close>

definition status_of :: "answer \<Rightarrow> int" where
  "status_of a = (case a of Status c _ \<Rightarrow> exit_of c | _ \<Rightarrow> 1)"

lemma qemu_stage_run:
  assumes "to_str data \<noteq> None"
  shows "\<exists>cs1 cs2. list_all (\<lambda>c. \<exists>s. c = Eprint s) cs1
    \<and> qemu_stage h prog elf headless keep persist disk data tr
        = Some (Err (status_of (h (tr @ cs1) (Spawn ''qemu-system-x86_64'' (qemu_args disk data headless)))),
            tr @ cs1 @ Spawn ''qemu-system-x86_64'' (qemu_args disk data headless) # cs2)
    \<and> (\<not> keep \<longrightarrow> RemoveFile disk \<in> set cs2 \<and> (\<not> persist \<longrightarrow> RemoveFile data \<in> set cs2))"
proof -
  let ?q = "Spawn ''qemu-system-x86_64'' (qemu_args disk data headless)"
  let ?m = "''[willo] running '' @ elf @ '' in QEMU (Ctrl+A then X to exit)''"
  let ?cs1 = "if \<not> is_test_binary elf \<and> \<not> headless then [Eprint ?m] else []"
  let ?rest = "after_qemu h prog elf keep persist disk data"
  have head: "qemu_stage h prog elf headless keep persist disk data tr = ?rest (h (tr @ ?cs1) ?q) (tr @ ?cs1 @ [?q])"
  proof -
    have "(if \<not> is_test_binary elf \<and> \<not> headless then eprintln h ?m else ret ()) tr = Some (Ok (), tr @ ?cs1)"
      by (simp add: eprintln_run ret_run)
    note first = this
    show ?thesis unfolding qemu_stage_def
      by (subst bindM_Ok, rule first, subst bindM_Ok, rule sys_run) (simp only: append_assoc)
  qed
  have tail: "\<exists>cs2. bindM (fsck_stage h elf data code) (\<lambda>_. bindM (cleanup h keep persist disk data) (\<lambda>_. finish h code)) t
      = Some (Err (exit_of code), t @ cs2)
      \<and> (\<not> keep \<longrightarrow> RemoveFile disk \<in> set cs2 \<and> (\<not> persist \<longrightarrow> RemoveFile data \<in> set cs2))" for code t
  proof -
    obtain c1 where c1: "fsck_stage h elf data code t = Some (Ok (), t @ c1)" using fsck_run [OF assms] by blast
    let ?c = "if keep then [] else RemoveFile disk # (if persist then [] else [RemoveFile data])"
    obtain c2 where c2: "finish h code ((t @ c1) @ ?c) = Some (Err (exit_of code), ((t @ c1) @ ?c) @ c2)" using finish_run by blast
    have "bindM (fsck_stage h elf data code) (\<lambda>_. bindM (cleanup h keep persist disk data) (\<lambda>_. finish h code)) t
        = Some (Err (exit_of code), ((t @ c1) @ ?c) @ c2)"
      by (subst bindM_Ok, rule c1, subst bindM_Ok, rule cleanup_run, rule c2)
    then show ?thesis by (intro exI [of _ "c1 @ ?c @ c2"]) simp
  qed
  have "\<exists>cs2. ?rest a t = Some (Err (status_of a), t @ cs2)
      \<and> (\<not> keep \<longrightarrow> RemoveFile disk \<in> set cs2 \<and> (\<not> persist \<longrightarrow> RemoveFile data \<in> set cs2))" for a t
  proof (cases a)
    case (Failure b e)
    then show ?thesis
      by (simp add: after_qemu_def bindM_Ok eprintln_run cleanup_run exit_process_def fail_run status_of_def)
  next
    case (Status c e)
    then show ?thesis using tail [of c t] by (simp add: after_qemu_def status_of_def)
  qed (use tail [of None t] in \<open>simp_all add: after_qemu_def status_of_def exit_of_def\<close>)
  then obtain cs2 where "?rest (h (tr @ ?cs1) ?q) (tr @ ?cs1 @ [?q]) = Some (Err (status_of (h (tr @ ?cs1) ?q)), (tr @ ?cs1 @ [?q]) @ cs2)"
    "\<not> keep \<longrightarrow> RemoveFile disk \<in> set cs2 \<and> (\<not> persist \<longrightarrow> RemoveFile data \<in> set cs2)" by blast
  note rest = this
  have "list_all (\<lambda>c. \<exists>s. c = Eprint s) ?cs1" by simp
  with head rest show ?thesis by (intro exI [of _ ?cs1] exI [of _ cs2] conjI) (simp_all only: append_assoc append_Cons append_Nil)
qed

fun starts_qemu :: "call \<Rightarrow> bool" where
  "starts_qemu (Spawn p _) = (p = ''qemu-system-x86_64'')"
| "starts_qemu _ = False"

lemma prepare_no_qemu: "makes (\<lambda>c. \<not> starts_qemu c) (prepare h env prog elf persist disk data)"
proof -
  have "c \<in> set (concat (map seed_calls seed_tree)) \<Longrightarrow> \<not> starts_qemu c" for c
    by (auto simp: seed_tree_def)
  then show ?thesis
    unfolding prepare_def prepare_data_def build_data_disk_def
    by (auto intro!: makes_intros makes_vbox split: sum.split)
qed

lemma runner_exit_run:
  assumes "1 < length args" "to_str (data_path env (is_set env ''WILLO_PERSIST'')) \<noteq> None"
    and "runner_main h env args [] = Some (r, tr)" "list_ex starts_qemu tr"
  shows "\<exists>tr1 q tr2. tr = tr1 @ q # tr2 \<and> starts_qemu q
    \<and> r = Err (case h tr1 q of Status (Some c) _ \<Rightarrow> if c = 33 then 0 else if c = 35 then 1 else c | _ \<Rightarrow> 1)
    \<and> (\<not> is_set env ''WILLO_KEEP_DISK'' \<longrightarrow> RemoveFile (disk_path env) \<in> set tr2
        \<and> (\<not> is_set env ''WILLO_PERSIST'' \<longrightarrow> RemoveFile (data_path env False) \<in> set tr2))"
proof -
  let ?per = "is_set env ''WILLO_PERSIST''" and ?keep = "is_set env ''WILLO_KEEP_DISK''" and ?elf = "args ! 1"
  let ?hl = "is_set env ''WILLO_HEADLESS'' \<or> (is_test_binary ?elf \<and> \<not> is_set env ''WILLO_GUI'')"
  let ?disk = "disk_path env" and ?data = "data_path env ?per"
  have run: "bindM (prepare h env (prog_name args) ?elf ?per ?disk ?data)
      (\<lambda>_. qemu_stage h (prog_name args) ?elf ?hl ?keep ?per ?disk ?data) [] = Some (r, tr)"
    using assms(1,3) by (simp add: runner_main_def Let_def)
  obtain r0 cs where p: "prepare h env (prog_name args) ?elf ?per ?disk ?data [] = Some (r0, cs)" "list_all (\<lambda>c. \<not> starts_qemu c) cs"
    using prepare_no_qemu unfolding makes_def by (metis append_Nil)
  have "r0 = Ok ()"
  proof (rule ccontr)
    assume "r0 \<noteq> Ok ()"
    with run p(1) have "tr = cs" by (cases r0) (auto simp: bindM_def)
    with p(2) assms(4) show False by (auto simp: list_all_iff list_ex_iff)
  qed
  with run p(1) have q: "qemu_stage h (prog_name args) ?elf ?hl ?keep ?per ?disk ?data cs = Some (r, tr)" by (simp add: bindM_Ok)
  from qemu_stage_run [OF assms(2), of h "prog_name args" ?elf ?hl ?keep ?per ?disk cs] q obtain cs1 cs2 where
    "r = Err (status_of (h (cs @ cs1) (Spawn ''qemu-system-x86_64'' (qemu_args ?disk ?data ?hl))))"
    "tr = cs @ cs1 @ Spawn ''qemu-system-x86_64'' (qemu_args ?disk ?data ?hl) # cs2"
    "\<not> ?keep \<longrightarrow> RemoveFile ?disk \<in> set cs2 \<and> (\<not> ?per \<longrightarrow> RemoveFile ?data \<in> set cs2)" by auto
  then show ?thesis
    by (intro exI [of _ "cs @ cs1"] exI [of _ "Spawn ''qemu-system-x86_64'' (qemu_args ?disk ?data ?hl)"] exI [of _ cs2])
      (auto simp: status_of_def exit_of_def split: answer.split option.split)
qed

text \<open>
  C31: once QEMU is started the runner's exit status is decided by QEMU's alone: 0 for the kernel's
  success code and for a normal end, 1 for its failure code, for a killed QEMU and for one that could
  not be started, any other code unchanged - whatever the file-system check afterwards says. Before
  it exits it removes the boot image, and the data disk unless that is persistent, if the images are
  not to be kept.
\<close>

theorem runner_exit_status:
  assumes "1 < length args" "to_str (data_path env (is_set env ''WILLO_PERSIST'')) \<noteq> None"
    and "runner_main h env args [] = Some (r, tr)" "list_ex starts_qemu tr"
  shows "\<exists>tr1 q tr2. tr = tr1 @ q # tr2 \<and> starts_qemu q
    \<and> r = Err (case h tr1 q of Status (Some c) _ \<Rightarrow> if c = 33 then 0 else if c = 35 then 1 else c | _ \<Rightarrow> 1)
    \<and> (\<not> is_set env ''WILLO_KEEP_DISK'' \<longrightarrow> RemoveFile (disk_path env) \<in> set tr2
        \<and> (\<not> is_set env ''WILLO_PERSIST'' \<longrightarrow> RemoveFile (data_path env False) \<in> set tr2))"
  using assms by (rule runner_exit_run)

section \<open>Instances\<close>

definition demo_run_env :: environment where
  "demo_run_env = \<lparr>is_set = (\<lambda>v. v = ''WILLO_PERSIST''), process_id = 42, temp_dir = ''/tmp''\<rparr>"

text \<open>A host on which everything works and the kernel reports failure.\<close>

definition demo_host :: host where
  "demo_host tr c = (case c of PathExists _ \<Rightarrow> Yes | Spawn _ _ \<Rightarrow> Status (Some 35) ''exit status: 35'' | _ \<Rightarrow> Done)"

lemma demo_runner: "\<exists>tr. runner_main demo_host demo_run_env [''willo'', ''/k/kernel''] [] = Some (Err 1, tr) \<and> list_ex starts_qemu tr"
proof -
  have "map_option (\<lambda>(r, tr). (r, list_ex starts_qemu tr)) (runner_main demo_host demo_run_env [''willo'', ''/k/kernel''] [])
      = Some (Err 1, True)" by code_simp
  then show ?thesis by auto
qed

theorem persistent_disk_kept_witness:
  "\<exists>r tr. runner_main demo_host demo_run_env [''willo'', ''/k/kernel''] [] = Some (r, tr)
     \<and> list_all (\<lambda>c. \<not> touches (data_path demo_run_env True) c) tr"
proof -
  obtain tr where run: "runner_main demo_host demo_run_env [''willo'', ''/k/kernel''] [] = Some (Err 1, tr)" using demo_runner by blast
  from persistent_disk_kept [OF _ _ run] run show ?thesis by (auto simp: demo_run_env_def demo_host_def)
qed

theorem runner_exit_status_witness:
  "\<exists>r tr. runner_main demo_host demo_run_env [''willo'', ''/k/kernel''] [] = Some (r, tr) \<and> r = Err 1
     \<and> RemoveFile (disk_path demo_run_env) \<in> set tr"
proof -
  obtain tr where run: "runner_main demo_host demo_run_env [''willo'', ''/k/kernel''] [] = Some (Err 1, tr)" "list_ex starts_qemu tr"
    using demo_runner by blast
  have "to_str (data_path demo_run_env (is_set demo_run_env ''WILLO_PERSIST'')) \<noteq> None" by code_simp
  from runner_exit_status [OF _ this run] have "RemoveFile (disk_path demo_run_env) \<in> set tr"
    by (auto simp: demo_run_env_def)
  with run show ?thesis by blast
qed

end
