(* ===== verification/Spec2Isabelle.thy ===== *)
theory Spec2Isabelle
  imports Path Block TmpFs RamFs FatSafe FatVolume Framebuffer Keyboard Ata DevFs Vfs Shell VfsSpec ShellSpec Terminal System Memory Gdt Interrupts Boot Runner
begin

text \<open>
  \<^bold>\<open>The Willo kernel\<close>

  Willo is a small x86-64 kernel (\<^verbatim>\<open>kernel/\<close>) with a host-side runner (\<^verbatim>\<open>src/main.rs\<close>) that packages it
  into a disk image and starts it in QEMU. The kernel boots, sets up segment tables, interrupts, a
  heap and a text console, mounts four file systems behind one VFS - a FAT32 volume or a built-in
  tree at \<^verbatim>\<open>/\<close>, a tmpfs at \<^verbatim>\<open>/tmp\<close>, device nodes at \<^verbatim>\<open>/dev\<close>, the built-in tree at \<^verbatim>\<open>/ram\<close> - and runs one
  asynchronous task, a shell fed by the keyboard interrupt.

  \<^bold>\<open>How the code is modelled.\<close> Pure functions are HOL functions. Stateful code is a function from a
  state to an optional pair of outcome and state (\<open>Prelude\<close>): \<open>None\<close> is a run that never returns, the
  outcome is \<open>Ok\<close>, \<open>Err\<close> or \<open>Panic\<close>, \<open>bindM\<close> is the \<open>?\<close> operator, \<open>attempt\<close> a \<open>match\<close> on a result,
  \<open>loopM\<close> a \<open>loop\<close> whose divergence is \<open>None\<close>. No fuel is used. The build is the default one (dev profile): an integer operator that
  overflows panics. Integers keep their Rust width as words. The arithmetic on numbers that come from the disk, which is all in the FAT driver, uses checked operators
  (\<open>add_chk\<close>, \<open>mul_chk\<close> and so on) whose failure is the outcome \<open>Panic Overflow\<close>; every other panic - an index or slice out of range, a
  division by zero, \<open>unwrap\<close>, \<open>expect\<close>, \<open>unreachable!\<close> - is \<open>Panic Fault\<close>. The remaining sums and products are bounded by the size of a
  buffer, a screen or a table and cannot overflow; counters of ticks and task ids are atomics, which wrap. \<open>usize\<close> values that count bytes of a buffer
  are \<open>nat\<close>. A \<open>str\<close> is the list
  of its bytes. Code that is not in the repository is a parameter: records of operations for the block
  device, the ports, the font, the uart, the queues, the waker cell, the page mapper and the
  descriptor-table type, an oracle for the host; what the code relies on is a locale or a named law.

  \<^bold>\<open>Theories\<close>, in the order of dependence:
  \<^item> \<open>Prelude\<close>, \<open>Safety\<close>, \<open>BTree\<close>, \<open>Utf8\<close>, \<open>FsTypes\<close>: the monad, its total triples (\<open>returns\<close>) and the triples that bound the
    panics (\<open>safe\<close>), checked integers, strings, little-endian bytes, ordered maps, UTF-8, and the errors of
    \<^verbatim>\<open>fs/mod.rs\<close>.
  \<^item> \<open>Path\<close>: \<open>normalize\<close>, \<open>canonical_prefix\<close>, \<open>direct_child\<close> of \<^verbatim>\<open>fs/mod.rs\<close>; normalisation is canonical and
    composes.
  \<^item> \<open>Block\<close>: the trait of \<^verbatim>\<open>block.rs\<close>, its contract (locale \<open>block_device\<close>), the disk image as the
    abstract device, and \<open>refines\<close>, which transports results on images to any device.
  \<^item> \<open>FsSpec\<close>, \<open>TmpFs\<close>, \<open>RamFs\<close>: what a hierarchical file system promises, as a map from paths to entries;
    \<^verbatim>\<open>fs/tmp.rs\<close>, refined to it, and \<^verbatim>\<open>fs/ram.rs\<close>.
  \<^item> \<open>FatName\<close>, \<open>Fat\<close>, \<open>FatRefine\<close>, \<open>FatSafe\<close>: \<^verbatim>\<open>fs/fat.rs\<close>. Short names round-trip; every method behaves on a
    device as on its image; on any disk the only panic of a method is a failed overflow check.
  \<^item> \<open>FatImage\<close>, \<open>FatChain\<close>, \<open>FatDir\<close>, \<open>FatFile\<close>: the same driver on a well-formed volume. The disk holds a function
    from clusters to links and the bytes of each cluster, the clusters being those that lie on the disk; surplus entries of the
    table must be marked as used, as formatters leave them. No address computation overflows, and the blocks touched are exactly those of the layout; chains are read, filled, allocated and released;
    directories are lists of slots; a file of the root directory that is written, appended to or
    removed reads back accordingly, and everything else on the volume stays.
  \<^item> \<open>FatTree\<close>, \<open>FatOps\<close>, \<open>FatVolume\<close>: the directory tree of a volume as a ghost table from paths to objects with
    their clusters (\<open>tree_ok\<close>). Every method, at any depth and on every branch, does to the tree what \<open>FsSpec\<close> says and keeps
    it a tree; when the volume is full, the result is \<open>Io\<close> and the path is unbound (\<open>meets\<close>). On a block device any
    sequence of calls is explained by the specification, and what it left is found again by the next mount; no cluster is
    leaked (\<open>no_leaks\<close>) unless a call reported \<open>Io\<close>.
  \<^item> \<open>Ata\<close>: \<^verbatim>\<open>ata.rs\<close>. The driver ends on every hardware and never slices a buffer that is too short, and on a controller that follows the PIO
    protocol (locale \<open>ata_controller\<close>) it is a \<open>block_device\<close>.
  \<^item> \<open>Framebuffer\<close>: \<^verbatim>\<open>framebuffer.rs\<close>. No pixel write leaves the buffer; the ring is the last 256 lines.
  \<^item> \<open>DevFs\<close>, \<open>Vfs\<close>, \<open>KernelSafe\<close>: \<^verbatim>\<open>fs/dev.rs\<close>, the global devices, the mount table and every dispatching
    method of \<^verbatim>\<open>fs/mod.rs\<close>, and the invariant \<open>kernel_ok\<close> that each of them keeps without a fault; an overflow needs a mounted FAT volume.
  \<^item> \<open>Tasks\<close>, \<open>Keyboard\<close>: \<^verbatim>\<open>task/\<close> and the interrupt handlers of \<^verbatim>\<open>interrupts.rs\<close>. The executors end and
    complete their tasks; as a step relation interleaved with interrupts, no wake-up is lost;
    scancodes arrive in order, and one is dropped only when 100 are waiting or before the shell has its stream.
  \<^item> \<open>Shell\<close>: \<^verbatim>\<open>shell.rs\<close>, commands and line editor.
  \<^item> \<open>VfsSpec\<close>, \<open>ShellSpec\<close>: the specification of \<open>FsSpec\<close> lifted through the layers. The VFS with a FAT volume, tmpfs and read-only
    mounts is one map per mount (\<open>vfs_holds\<close>, \<open>world\<close>); each call changes one name of one map and a read returns what the maps say. The shell is an
    abstract shell on those maps and a working directory (\<open>line_step\<close>, \<open>session\<close>): what it prints for each line is specified. The results
    cover the calls of \<open>vfs_call_ok\<close>: on a FAT mount only paths of 8.3 names, the domain \<^verbatim>\<open>fat.rs\<close> documents, and no append to its root; on \<open>/dev\<close> no
    \<open>write_file\<close> to \<open>console\<close> or \<open>serial0\<close> (they print) and none of whole blocks to \<open>disk0\<close> (the disk under the volume). Outside of it the code deviates
    from the maps: \<open>touch longfilename.txt\<close> creates \<open>longfile.txt\<close>.
  \<^item> \<open>Terminal\<close>: from the keyboard to the outputs. Key by key, what is echoed, printed and edited is what an abstract terminal
    (\<open>key_step\<close>, \<open>typed\<close>) shows; all of it reaches the serial port and the log of the console, in order, for lines whose
    calls are covered (\<open>inputs_ok\<close>).
  \<^item> \<open>Gdt\<close>, \<open>Interrupts\<close>, \<open>Memory\<close>: \<^verbatim>\<open>gdt.rs\<close>, the table and the exception handlers of \<^verbatim>\<open>interrupts.rs\<close>,
    \<^verbatim>\<open>memory.rs\<close> and \<^verbatim>\<open>allocator.rs\<close>.
  \<^item> \<open>Boot\<close>: \<^verbatim>\<open>main.rs\<close> and \<^verbatim>\<open>lib.rs\<close>: the composition of all of the above. On any ATA hardware the kernel boots, unless
    the boot sector overflows the arithmetic of \<open>FatFs::mount\<close>, and afterwards never faults, whatever is typed and whatever the disk holds; without
    a FAT disk it does not panic at all.
  \<^item> \<open>System\<close>: the whole machine on an ATA disk with a FAT volume, over any number of power cycles (\<open>lifetime\<close>): \<open>kernel_main\<close> prints the boot
    text and behaves as the abstract terminal, and the only state that lasts is the map of the disk (\<open>sessions\<close>).
  \<^item> \<open>Runner\<close>: the host program; its state is the list of calls made to the host.
  \<^item> This theory: properties that span the kernel and the runner.

  \<^bold>\<open>Not modelled.\<close> The allocator behind \<open>alloc\<close> is a library, so running out of heap is not modelled;
  nor are lock contention (an exception taken while the console or serial lock is held would spin),
  the pixels of the fonts, the timing of the devices beyond the polls of the drivers, the vtable of
  the dummy waker, and the integration tests. Where a theorem says that nothing panics, memory allocation is assumed to succeed.
\<close>

section \<open>From the kernel to the build\<close>

text \<open>
  The debug-exit device of the virtual machine as QEMU documents it: the first code written to its
  port ends QEMU with that code doubled plus one as its status.
\<close>

definition debug_exit_law :: "(u32 list \<Rightarrow> answer) \<Rightarrow> bool" where
  "debug_exit_law vm \<longleftrightarrow> (\<forall>c cs. \<exists>t. vm (c # cs) = Status (Some (2 * uint c + 1)) t)"

text \<open>
  C29: a kernel that cannot boot fails the command that started it: when the machine QEMU runs has no
  physical-memory mapping or no memory for the heap, the kernel's panic handler writes the failure
  code, and the runner exits with status 1, whatever else the host answers.
\<close>

theorem failed_boot_fails_runner:
  assumes "gdt_law (gdt_lib E) gv" "stacks_fit (gdt_lib E)" "seg_fresh (gdt_lib E) gv (segs s)" "fb_writer (dev s) = None"
    and "exit_writes s = []" "boot_impossible E bi s"
    and "debug_exit_law vm"
    and "\<And>tr q r' s'. starts_qemu q \<Longrightarrow> with_panic_handler E (kernel_main E bi dec kb events) s = Some (r', s')
      \<Longrightarrow> h tr q = vm (exit_writes s')"
    and "1 < length args" "to_str (data_path env (is_set env ''WILLO_PERSIST'')) \<noteq> None"
    and "runner_main h env args [] = Some (r, tr)" "list_ex starts_qemu tr"
  shows "r = Err 1"
proof -
  from boot_failure_run [OF assms(1-6), of dec kb events] obtain s' where
    k: "with_panic_handler E (kernel_main E bi dec kb events) s = Some (Panic Fault, s')" "exit_writes s' = [0x11]" by blast
  from runner_exit_run [OF assms(9-12)] obtain tr1 q where
    q: "starts_qemu q" "r = Err (case h tr1 q of Status (Some c) _ \<Rightarrow> if c = 33 then 0 else if c = 35 then 1 else c | _ \<Rightarrow> 1)"
    by blast
  have "h tr1 q = vm [0x11]" using assms(8) [OF q(1) k(1)] k(2) by simp
  moreover obtain t where "vm [0x11] = Status (Some (2 * uint (0x11 :: u32) + 1)) t"
    using assms(7) unfolding debug_exit_law_def by blast
  ultimately show ?thesis using q(2) by simp
qed

theorem failed_boot_fails_runner_witness:
  "\<exists>r tr. runner_main demo_host demo_run_env [''willo'', ''/k/kernel''] [] = Some (r, tr) \<and> r = Err 1"
proof -
  let ?bi = "demo_info\<lparr>physical_memory_offset := None\<rparr>"
  obtain r tr where run: "runner_main demo_host demo_run_env [''willo'', ''/k/kernel''] [] = Some (r, tr)" "list_ex starts_qemu tr"
    using demo_runner by blast
  have utf8: "to_str (data_path demo_run_env (is_set demo_run_env ''WILLO_PERSIST'')) \<noteq> None" by code_simp
  have law: "debug_exit_law (\<lambda>cs. case cs of [] \<Rightarrow> Done | c # _ \<Rightarrow> Status (Some (2 * uint c + 1)) ''exit status: 35'')"
    by (simp add: debug_exit_law_def)
  have "exit_writes s' = [0x11]"
    if "with_panic_handler demo_env_boot (kernel_main demo_env_boot ?bi plain_keys () []) reset_state = Some (r', s')" for r' s'
    using boot_failure_run [of demo_env_boot id reset_state ?bi plain_keys "()" "[]"] that
    by (simp add: boot_impossible_def demo_env_boot_def list_gdt_ok reset_state_def boot_seg_ok demo_info_def)
  then have "demo_host tr q = (case exit_writes s' of [] \<Rightarrow> Done | c # _ \<Rightarrow> Status (Some (2 * uint c + 1)) ''exit status: 35'')"
    if "starts_qemu q" "with_panic_handler demo_env_boot (kernel_main demo_env_boot ?bi plain_keys () []) reset_state = Some (r', s')"
    for q r' s' tr
    using that by (cases q) (auto simp: demo_host_def)
  note link = this
  have "r = Err 1"
    by (rule failed_boot_fails_runner [where E = demo_env_boot and s = reset_state and bi = ?bi and gv = id, OF _ _ _ _ _ _ law link _ utf8 run])
      (simp_all add: boot_impossible_def demo_env_boot_def list_gdt_ok reset_state_def boot_seg_ok demo_info_def)
  with run show ?thesis by blast
qed

end
